(* ===== verification/Prelude.thy ===== *)
theory Prelude
  imports Main "HOL-Library.Word" "HOL-Library.AList" "HOL-Library.Code_Target_Nat"
begin

text \<open>
  Shared vocabulary of the RoboProtocol development: the machine-integer types of the Rust
  sources, big- and little-endian byte encodings (\<open>to_be_bytes\<close>, \<open>from_be_bytes\<close>), time
  (\<open>Instant\<close> and \<open>Duration\<close> as nanosecond counts), the slice operations
  the decoders use, and generic lemmas about lists and finite maps.  The collections
  \<open>codec_simps\<close> and \<open>step_simps\<close> gather the unfolding equations of the
  wire formats and of the state-changing operations.
\<close>

named_theorems codec_simps
named_theorems step_simps

section \<open>Machine integers\<close>

type_synonym u8 = "8 word"
type_synonym u16 = "16 word"
type_synonym u32 = "32 word"
type_synonym u64 = "64 word"
type_synonym i16 = "16 word"
type_synonym bytes = "8 word list"

text \<open>\<open>Instant\<close> is nanoseconds since an arbitrary origin; \<open>Duration\<close> is a number of
  nanoseconds.  \<open>Instant::duration_since\<close> and \<open>saturating_duration_since\<close> both give
  zero when the argument is later (the standard library's documented behaviour), which is
  subtraction on \<^typ>\<open>nat\<close>.\<close>

type_synonym instant = nat
type_synonym duration = nat

definition millis :: "nat \<Rightarrow> duration" where
  "millis n = n * 1000000"

definition secs :: "nat \<Rightarrow> duration" where
  "secs n = n * 1000000000"

definition duration_since :: "instant \<Rightarrow> instant \<Rightarrow> duration" where
  "duration_since now earlier = now - earlier"

lemmas time_defs = millis_def secs_def duration_since_def

text \<open>\<open>div_ceil\<close> on unsigned integers, and \<open>saturating_sub\<close>, which is truncated
  subtraction on \<^typ>\<open>nat\<close>.\<close>

definition div_ceil :: "nat \<Rightarrow> nat \<Rightarrow> nat" where
  "div_ceil a b = (if a mod b = 0 then a div b else a div b + 1)"

lemma div_ceil_cases:
  assumes "0 < b"
  obtains (exact) q where "a = q * b" and "div_ceil a b = q"
  | (rest) q r where "a = q * b + r" and "0 < r" and "r < b" and "div_ceil a b = q + 1"
proof (cases "a mod b = 0")
  case True
  then have "a = (a div b) * b" by (metis add.right_neutral div_mult_mod_eq)
  with True show ?thesis by (intro exact [of "a div b"]) (simp_all add: div_ceil_def)
next
  case False
  then show ?thesis
    using assms by (intro rest [of "a div b" "a mod b"]) (simp_all add: div_ceil_def)
qed

lemma div_ceil_mult_ge: "0 < b \<Longrightarrow> a \<le> div_ceil a b * b"
  by (cases rule: div_ceil_cases [of b a]) auto

lemma div_ceil_pred_lt:
  assumes "0 < b" and "0 < a"
  shows "(div_ceil a b - 1) * b < a"
  using assms(1)
proof (cases rule: div_ceil_cases [of b a])
  case (exact q)
  with assms have "0 < q" by (cases q) auto
  with exact assms show ?thesis by (cases q) auto
next
  case (rest q r)
  then show ?thesis by simp
qed

lemma div_ceil_add_self: "0 < b \<Longrightarrow> div_ceil (a + b) b = Suc (div_ceil a b)"
  by (simp add: div_ceil_def div_add_self2)

lemma div_ceil_0 [simp]: "div_ceil 0 b = 0"
  by (simp add: div_ceil_def)

lemma div_ceil_pos: "0 < b \<Longrightarrow> 0 < a \<Longrightarrow> 0 < div_ceil a b"
  using div_ceil_mult_ge [of b a] by (cases "div_ceil a b") auto

lemma div_ceil_le_iff: "0 < b \<Longrightarrow> div_ceil a b \<le> n \<longleftrightarrow> a \<le> n * b"
proof
  assume b: "0 < b" and "div_ceil a b \<le> n"
  then have "div_ceil a b * b \<le> n * b" by simp
  then show "a \<le> n * b" using div_ceil_mult_ge [OF b, of a] by linarith
next
  assume b: "0 < b" and le: "a \<le> n * b"
  show "div_ceil a b \<le> n"
  proof (cases "a = 0")
    case False
    then have "(div_ceil a b - 1) * b < n * b"
      using div_ceil_pred_lt [OF b, of a] le by linarith
    then have "div_ceil a b - 1 < n" by simp
    then show ?thesis by linarith
  qed simp
qed

section \<open>Big-endian and little-endian bytes\<close>

fun be :: "nat \<Rightarrow> nat \<Rightarrow> bytes" where
  "be 0 v = []"
| "be (Suc n) v = be n (v div 256) @ [word_of_nat (v mod 256)]"

definition le :: "nat \<Rightarrow> nat \<Rightarrow> bytes" where
  "le n v = rev (be n v)"

definition unbe :: "bytes \<Rightarrow> nat" where
  "unbe bs = foldl (\<lambda>acc b. acc * 256 + unat b) 0 bs"

lemma unbe_Nil [simp]: "unbe [] = 0"
  by (simp add: unbe_def)

lemma unbe_snoc [simp]: "unbe (bs @ [b]) = unbe bs * 256 + unat b"
  by (simp add: unbe_def)

lemma length_be [simp]: "length (be n v) = n"
  by (induction n arbitrary: v) auto

lemma length_le [simp]: "length (le n v) = n"
  by (simp add: le_def)

lemma unat_byte_lt: "unat (b :: 8 word) < 256"
  using unsigned_less [of b] by simp

lemma unbe_be: "unbe (be n v) = v mod 256 ^ n"
proof (induction n arbitrary: v)
  case 0
  then show ?case by simp
next
  case (Suc n)
  have "unbe (be (Suc n) v) = (v div 256 mod 256 ^ n) * 256 + v mod 256"
    using Suc by (simp add: unat_of_nat take_bit_eq_mod)
  also have "\<dots> = v mod 256 ^ Suc n"
    by (metis (no_types, lifting) add.commute mod_mult2_eq mult.commute power_Suc)
  finally show ?case .
qed

lemma be_unbe: "be (length bs) (unbe bs) = bs"
proof (induction bs rule: rev_induct)
  case Nil
  then show ?case by simp
next
  case (snoc b bs)
  have "(unbe bs * 256 + unat b) div 256 = unbe bs"
    using unat_byte_lt [of b] by simp
  moreover have "(unbe bs * 256 + unat b) mod 256 = unat b"
    using unat_byte_lt [of b] by simp
  ultimately show ?case using snoc by simp
qed

lemma unbe_lt: "unbe bs < 256 ^ length bs"
proof (induction bs rule: rev_induct)
  case (snoc b bs)
  then show ?case using unat_byte_lt [of b] by simp
qed simp

text \<open>Fixed-width words to bytes and back, as \<open>u16::to_be_bytes\<close> and its relatives.\<close>

definition be16 :: "u16 \<Rightarrow> bytes" where "be16 w = be 2 (unat w)"
definition be32 :: "u32 \<Rightarrow> bytes" where "be32 w = be 4 (unat w)"
definition be64 :: "u64 \<Rightarrow> bytes" where "be64 w = be 8 (unat w)"

definition of_be16 :: "bytes \<Rightarrow> u16" where "of_be16 bs = word_of_nat (unbe bs)"
definition of_be32 :: "bytes \<Rightarrow> u32" where "of_be32 bs = word_of_nat (unbe bs)"
definition of_be64 :: "bytes \<Rightarrow> u64" where "of_be64 bs = word_of_nat (unbe bs)"

lemma length_be_words [simp]:
  "length (be16 a) = 2" "length (be32 b) = 4" "length (be64 c) = 8"
  by (simp_all add: be16_def be32_def be64_def)

lemma of_be_be_words [simp]:
  "of_be16 (be16 a) = a" "of_be32 (be32 b) = b" "of_be64 (be64 c) = c"
proof -
  have "unat a < 65536" using unsigned_less [of a] by simp
  then show "of_be16 (be16 a) = a" by (simp add: of_be16_def be16_def unbe_be)
  have "unat b < 4294967296" using unsigned_less [of b] by simp
  then show "of_be32 (be32 b) = b" by (simp add: of_be32_def be32_def unbe_be)
  have "unat c < 18446744073709551616" using unsigned_less [of c] by simp
  then show "of_be64 (be64 c) = c" by (simp add: of_be64_def be64_def unbe_be)
qed

lemma be16_of_be16: "length bs = 2 \<Longrightarrow> be16 (of_be16 bs) = bs"
  using unbe_lt [of bs] be_unbe [of bs]
  by (simp add: of_be16_def be16_def unat_of_nat take_bit_nat_eq_self)

lemma be32_of_be32: "length bs = 4 \<Longrightarrow> be32 (of_be32 bs) = bs"
  using unbe_lt [of bs] be_unbe [of bs]
  by (simp add: of_be32_def be32_def unat_of_nat take_bit_nat_eq_self)

lemma be64_of_be64: "length bs = 8 \<Longrightarrow> be64 (of_be64 bs) = bs"
  using unbe_lt [of bs] be_unbe [of bs]
  by (simp add: of_be64_def be64_def unat_of_nat take_bit_nat_eq_self)

section \<open>Slices\<close>

text \<open>\<open>bytes[a..b]\<close> for indices the caller has checked, and the checked \<open>bytes.get(a..b)\<close>.\<close>

definition slice :: "nat \<Rightarrow> nat \<Rightarrow> 'a list \<Rightarrow> 'a list" where
  "slice a b xs = take (b - a) (drop a xs)"

definition get_range :: "nat \<Rightarrow> nat \<Rightarrow> 'a list \<Rightarrow> 'a list option" where
  "get_range a b xs = (if a \<le> b \<and> b \<le> length xs then Some (slice a b xs) else None)"

lemma length_slice [simp]: "length (slice a b xs) = min (b - a) (length xs - a)"
  by (simp add: slice_def min_def)

lemma slice_append1 [simp]: "b \<le> length xs \<Longrightarrow> slice a b (xs @ ys) = slice a b xs"
  by (simp add: slice_def)

lemma slice_append2: "length xs \<le> a \<Longrightarrow> slice a b (xs @ ys) = slice (a - length xs) (b - length xs) ys"
  by (simp add: slice_def)

lemma slice_all [simp]: "length xs = b \<Longrightarrow> slice 0 b xs = xs"
  by (simp add: slice_def)

lemma slice_full: "length xs = n \<Longrightarrow> slice 0 n (xs @ ys) = xs"
  by (simp add: slice_def)

text \<open>\<open>chunks\<close> (the last piece may be short) and \<open>chunks_exact\<close> (a short tail is dropped).
  Both panic on a zero size in Rust; the callers of the model never pass one, and the models
  return no piece there.\<close>

function chunks :: "nat \<Rightarrow> 'a list \<Rightarrow> 'a list list" where
  "chunks n xs = (if n = 0 \<or> xs = [] then [] else take n xs # chunks n (drop n xs))"
  by pat_completeness auto
termination
  by (relation "measure (\<lambda>(n, xs). length xs)") auto

declare chunks.simps [simp del]

function chunks_exact :: "nat \<Rightarrow> 'a list \<Rightarrow> 'a list list" where
  "chunks_exact n xs =
     (if n = 0 \<or> length xs < n then [] else take n xs # chunks_exact n (drop n xs))"
  by pat_completeness auto
termination
  by (relation "measure (\<lambda>(n, xs). length xs)") auto

declare chunks_exact.simps [simp del]

lemma chunks_Nil [simp]: "chunks n [] = []"
  by (simp add: chunks.simps)

lemma concat_chunks [simp]: "0 < n \<Longrightarrow> concat (chunks n xs) = xs"
proof (induction n xs rule: chunks.induct)
  case (1 n xs)
  show ?case
  proof (cases "xs = []")
    case False
    with 1 show ?thesis by (subst chunks.simps) simp
  qed simp
qed

lemma chunks_bounds: "0 < n \<Longrightarrow> c \<in> set (chunks n xs) \<Longrightarrow> c \<noteq> [] \<and> length c \<le> n"
proof (induction n xs rule: chunks.induct)
  case (1 n xs)
  show ?case
  proof (cases "xs = []")
    case True
    with 1 show ?thesis by simp
  next
    case False
    with "1.prems" have "c = take n xs \<or> c \<in> set (chunks n (drop n xs))"
      by (subst (asm) chunks.simps) simp
    then show ?thesis
    proof
      assume "c = take n xs"
      with False "1.prems" show ?thesis by simp
    next
      assume "c \<in> set (chunks n (drop n xs))"
      with False 1 show ?thesis by simp
    qed
  qed
qed

lemma length_chunks: "0 < n \<Longrightarrow> length (chunks n xs) = div_ceil (length xs) n"
proof (induction n xs rule: chunks.induct)
  case (1 n xs)
  show ?case
  proof (cases "length xs \<le> n")
    case True
    show ?thesis
    proof (cases "xs = []")
      case False
      with True "1.prems" show ?thesis
        by (subst chunks.simps) (auto simp: div_ceil_def le_less)
    qed simp
  next
    case False
    then have "xs \<noteq> []" by auto
    with 1 have IH: "length (chunks n (drop n xs)) = div_ceil (length xs - n) n" by simp
    from False "1.prems" have "length xs = (length xs - n) + n" by simp
    then have "div_ceil (length xs) n = Suc (div_ceil (length xs - n) n)"
      using div_ceil_add_self [of n "length xs - n"] "1.prems" by simp
    moreover have "chunks n xs = take n xs # chunks n (drop n xs)"
      using False "1.prems" by (subst chunks.simps) auto
    ultimately show ?thesis by (simp only: IH list.size)
  qed
qed

lemma chunks_exact_Nil [simp]: "chunks_exact n [] = []"
  by (cases n) (simp_all add: chunks_exact.simps)

lemma chunks_exact_append:
  "0 < n \<Longrightarrow> length xs = n \<Longrightarrow> chunks_exact n (xs @ ys) = xs # chunks_exact n ys"
  by (subst chunks_exact.simps) simp

lemma chunks_exact_concat:
  "0 < n \<Longrightarrow> \<forall>c \<in> set cs. length c = n \<Longrightarrow> chunks_exact n (concat cs) = cs"
  by (induction cs) (auto simp: chunks_exact_append)

lemma chunks_exact_short: "length xs < n \<Longrightarrow> chunks_exact n xs = []"
  by (subst chunks_exact.simps) auto

lemma chunks_exact_concat_tail:
  "0 < n \<Longrightarrow> \<forall>c \<in> set cs. length c = n \<Longrightarrow> length t < n \<Longrightarrow>
   chunks_exact n (concat cs @ t) = cs"
  by (induction cs) (auto simp: chunks_exact_append chunks_exact_short)

lemma chunks_exact_lengths: "c \<in> set (chunks_exact n xs) \<Longrightarrow> length c = n"
proof (induction n xs rule: chunks_exact.induct)
  case (1 n xs)
  then show ?case by (cases "n = 0 \<or> length xs < n") (auto simp: chunks_exact.simps [of n xs])
qed

lemma length_chunks_exact: "0 < n \<Longrightarrow> length (chunks_exact n xs) = length xs div n"
proof (induction n xs rule: chunks_exact.induct)
  case (1 n xs)
  show ?case
  proof (cases "length xs < n")
    case False
    with 1 have "length (chunks_exact n (drop n xs)) = (length xs - n) div n" by simp
    with False "1.prems" show ?thesis
      by (subst chunks_exact.simps) (simp add: le_div_geq)
  qed (simp add: chunks_exact.simps)
qed

lemma chunks_exact_nth:
  "0 < n \<Longrightarrow> i < length xs div n \<Longrightarrow> chunks_exact n xs ! i = slice (i * n) ((i + 1) * n) xs"
proof (induction n xs arbitrary: i rule: chunks_exact.induct)
  case (1 n xs)
  have ge: "n \<le> length xs"
  proof (rule ccontr)
    assume "\<not> n \<le> length xs"
    then have "length xs div n = 0" by simp
    with "1.prems" show False by simp
  qed
  then have unf: "chunks_exact n xs = take n xs # chunks_exact n (drop n xs)"
    using "1.prems" by (subst chunks_exact.simps) simp
  show ?case
  proof (cases i)
    case 0
    then show ?thesis by (simp add: unf slice_def)
  next
    case (Suc j)
    have "j < length (drop n xs) div n"
      using "1.prems" Suc ge by (simp add: le_div_geq)
    then have "chunks_exact n (drop n xs) ! j = slice (j * n) ((j + 1) * n) (drop n xs)"
      using "1.IH" [of j] ge "1.prems" by simp
    then show ?thesis using Suc by (simp add: unf slice_def add.commute)
  qed
qed

section \<open>Finite maps kept as association lists\<close>

text \<open>A \<open>HashMap\<close> or \<open>BTreeMap\<close> is an association list with distinct keys.
  \<open>AList.update\<close> and \<open>AList.delete\<close> keep the keys distinct; the list order stands
  for no source-visible order, except where a model states that it keeps the keys sorted
  (\<open>BTreeMap\<close>), for which \<open>sorted_insert\<close> is used.\<close>

type_synonym ('k, 'v) amap = "('k \<times> 'v) list"

abbreviation keys :: "('k, 'v) amap \<Rightarrow> 'k list" where
  "keys m \<equiv> List.map fst m"

abbreviation wf_amap :: "('k, 'v) amap \<Rightarrow> bool" where
  "wf_amap m \<equiv> distinct (keys m)"

fun sorted_insert :: "'k::linorder \<Rightarrow> 'v \<Rightarrow> ('k, 'v) amap \<Rightarrow> ('k, 'v) amap" where
  "sorted_insert k v [] = [(k, v)]"
| "sorted_insert k v ((k', v') # m) =
     (if k < k' then (k, v) # (k', v') # m
      else if k = k' then (k, v) # m
      else (k', v') # sorted_insert k v m)"

abbreviation sorted_keys :: "('k::linorder, 'v) amap \<Rightarrow> bool" where
  "sorted_keys m \<equiv> sorted_wrt (<) (keys m)"

lemma keys_sorted_insert [simp]:
  "fst ` set (sorted_insert k v m) = insert k (fst ` set m)"
proof (induction m)
  case (Cons kv m)
  then show ?case by (cases kv) (simp add: insert_commute)
qed simp

lemma sorted_keys_insert [simp]: "sorted_keys m \<Longrightarrow> sorted_keys (sorted_insert k v m)"
proof (induction m)
  case (Cons kv m)
  obtain k' v' where kv: "kv = (k', v')" by (cases kv)
  have mem: "x = k \<or> x \<in> fst ` set m" if "(x, y) \<in> set (sorted_insert k v m)" for x y
    using that keys_sorted_insert [of k v m] by (metis fst_conv image_eqI insert_iff)
  with Cons kv show ?case by (auto dest!: mem)
qed simp

lemma sorted_keys_wf: "sorted_keys m \<Longrightarrow> wf_amap m"
  by (simp add: strict_sorted_iff)

lemma map_of_sorted_insert [simp]:
  "sorted_keys m \<Longrightarrow> map_of (sorted_insert k v m) = (map_of m)(k \<mapsto> v)"
proof (induction m)
  case (Cons kv m)
  then show ?case by (cases kv) (auto simp: fun_eq_iff)
qed (auto simp: fun_eq_iff)

lemma keys_filter: "keys (filter (\<lambda>(k, _). P k) m) = filter P (keys m)"
  by (induction m) auto

lemma sorted_keys_filter [simp]: "sorted_keys m \<Longrightarrow> sorted_keys (filter Q m)"
  by (induction m) auto

lemma wf_amap_filter [simp]: "wf_amap m \<Longrightarrow> wf_amap (filter Q m)"
  by (induction m) auto

lemma delete_eq_filter: "AList.delete k m = filter (\<lambda>(k', _). k' \<noteq> k) m"
  by (induction m) auto

lemma sorted_keys_delete [simp]: "sorted_keys m \<Longrightarrow> sorted_keys (AList.delete k m)"
  by (simp add: delete_eq_filter)

lemma map_of_delete [simp]: "map_of (AList.delete k m) = (map_of m)(k := None)"
  by (rule AList.delete_conv')

lemma map_of_update [simp]: "map_of (AList.update k v m) = (map_of m)(k \<mapsto> v)"
  by (rule AList.update_conv')

lemma wf_amap_update [simp]: "wf_amap m \<Longrightarrow> wf_amap (AList.update k v m)"
  by (rule AList.distinct_update)

lemma wf_amap_delete [simp]: "wf_amap m \<Longrightarrow> wf_amap (AList.delete k m)"
  by (simp add: delete_eq_filter)

lemma length_delete: "length (AList.delete k m) \<le> length m"
  by (simp add: delete_eq_filter)

lemma map_of_filter_key:
  "wf_amap m \<Longrightarrow>
   map_of (filter (\<lambda>(k, v). Q k v) m) k =
     (case map_of m k of None \<Rightarrow> None | Some v \<Rightarrow> if Q k v then Some v else None)"
proof (induction m)
  case (Cons kv m)
  obtain k' v' where kv: "kv = (k', v')" by (cases kv)
  have "k' \<notin> set (keys m)" using Cons.prems kv by simp
  then have "map_of m k' = None" by (simp add: map_of_eq_None_iff)
  with Cons kv show ?case by (auto split: option.splits)
qed simp

lemma map_of_sorted_insert_set:
  assumes "sorted_keys m"
  shows "(s, v) \<in> set (sorted_insert k x m) \<longleftrightarrow> (if s = k then v = x else (s, v) \<in> set m)"
proof -
  have "(s, v) \<in> set (sorted_insert k x m) \<longleftrightarrow> map_of (sorted_insert k x m) s = Some v"
    using assms by (intro map_of_eq_Some_iff [symmetric] sorted_keys_wf) simp
  moreover have "(s, v) \<in> set m \<longleftrightarrow> map_of m s = Some v"
    using assms by (intro map_of_eq_Some_iff [symmetric] sorted_keys_wf)
  ultimately show ?thesis using assms by auto
qed

lemma length_sorted_insert:
  "sorted_keys m \<Longrightarrow> length (sorted_insert k x m) = (if map_of m k = None then Suc (length m) else length m)"
proof (induction m)
  case (Cons kv m)
  obtain k' v' where kv: "kv = (k', v')" by (cases kv)
  have "map_of m k = None" if "k < k'"
    using Cons.prems that kv by (auto simp: map_of_eq_None_iff)
  with Cons kv show ?case by auto
qed simp

lemma sorted_insert_same: "sorted_keys m \<Longrightarrow> map_of m k = Some v \<Longrightarrow> sorted_insert k v m = m"
proof (induction m)
  case (Cons kv m)
  obtain k' v' where kv: "kv = (k', v')" by (cases kv)
  have "k' < k" if "k \<noteq> k'" using Cons.prems kv that by (auto dest!: map_of_SomeD)
  with Cons kv show ?case by auto
qed simp

lemma sorted_insert_twice [simp]: "sorted_insert k v (sorted_insert k x m) = sorted_insert k v m"
  by (induction m) auto

end
