(* ===== verification/Floats.thy ===== *)
theory Floats
  imports Complex_Main Prelude "HOL-Library.Log_Nat"
begin

text \<open>
  IEEE 754 binary32 and binary64 arithmetic, as the \<open>f32\<close> and \<open>f64\<close> expressions of the
  sources compute it.  A finite value is an exact rational; every operation computes
  the exact rational result and rounds it once, to nearest with ties to even, with gradual
  underflow and overflow to infinity.  The sign of a zero is not represented (no comparison
  or conversion of the sources depends on it).  The lemmas show that rounding is monotone,
  exact on representable values and close to its argument; they carry the exactness proofs of
  the time and quantisation code.
\<close>

section \<open>Formats, values and rounding\<close>

datatype fmt = B32 | B64

fun prec :: "fmt \<Rightarrow> nat" where
  "prec B32 = 24"
| "prec B64 = 53"

text \<open>Exponents of the smallest and of the largest unit in the last place.\<close>

fun qmin :: "fmt \<Rightarrow> int" where
  "qmin B32 = -149"
| "qmin B64 = -1074"

fun qmax :: "fmt \<Rightarrow> int" where
  "qmax B32 = 104"
| "qmax B64 = 971"

datatype fl = NaN | PInf | NInf | Fin rat

definition p2 :: "int \<Rightarrow> rat" where
  "p2 e = (if 0 \<le> e then 2 ^ nat e else 1 / 2 ^ nat (- e))"

definition ilog2 :: "rat \<Rightarrow> int" where
  "ilog2 x =
     (let (a, b) = quotient_of x; e = bitlen a - bitlen b
      in if p2 e \<le> x then e else e - 1)"

definition rne :: "rat \<Rightarrow> int" where
  "rne x =
     (let f = \<lfloor>x\<rfloor>; d = x - of_int f
      in if d < 1 / 2 then f else if 1 / 2 < d then f + 1 else if even f then f else f + 1)"

definition quantum :: "fmt \<Rightarrow> rat \<Rightarrow> int" where
  "quantum f x = max (ilog2 x - int (prec f) + 1) (qmin f)"

definition round_pos :: "fmt \<Rightarrow> rat \<Rightarrow> rat" where
  "round_pos f x = (let q = quantum f x in of_int (rne (x / p2 q)) * p2 q)"

definition fround_to :: "fmt \<Rightarrow> rat \<Rightarrow> fl" where
  "fround_to f x =
     (if x = 0 then Fin 0
      else if 0 < x then
        (let r = round_pos f x in if qmax f + int (prec f) \<le> ilog2 r then PInf else Fin r)
      else
        (let r = round_pos f (- x) in if qmax f + int (prec f) \<le> ilog2 r then NInf else Fin (- r)))"

section \<open>Arithmetic, comparisons and conversions\<close>

fun fneg :: "fl \<Rightarrow> fl" where
  "fneg NaN = NaN"
| "fneg PInf = NInf"
| "fneg NInf = PInf"
| "fneg (Fin x) = Fin (- x)"

fun fadd :: "fmt \<Rightarrow> fl \<Rightarrow> fl \<Rightarrow> fl" where
  "fadd f (Fin x) (Fin y) = fround_to f (x + y)"
| "fadd f NaN _ = NaN"
| "fadd f _ NaN = NaN"
| "fadd f PInf NInf = NaN"
| "fadd f NInf PInf = NaN"
| "fadd f PInf _ = PInf"
| "fadd f _ PInf = PInf"
| "fadd f NInf _ = NInf"
| "fadd f _ NInf = NInf"

definition fsub :: "fmt \<Rightarrow> fl \<Rightarrow> fl \<Rightarrow> fl" where
  "fsub f a b = fadd f a (fneg b)"

definition finf_of_sign :: "rat \<Rightarrow> fl" where
  "finf_of_sign s = (if s = 0 then NaN else if 0 < s then PInf else NInf)"

fun fsgn :: "fl \<Rightarrow> rat" where
  "fsgn NaN = 0"
| "fsgn PInf = 1"
| "fsgn NInf = -1"
| "fsgn (Fin x) = sgn x"

fun fmul :: "fmt \<Rightarrow> fl \<Rightarrow> fl \<Rightarrow> fl" where
  "fmul f (Fin x) (Fin y) = fround_to f (x * y)"
| "fmul f NaN _ = NaN"
| "fmul f _ NaN = NaN"
| "fmul f a b = finf_of_sign (fsgn a * fsgn b)"

text \<open>Division; a finite non-zero value over zero is an infinity whose sign takes the zero as
  positive.\<close>

fun fdiv :: "fmt \<Rightarrow> fl \<Rightarrow> fl \<Rightarrow> fl" where
  "fdiv f (Fin x) (Fin y) = (if y = 0 then finf_of_sign (sgn x) else fround_to f (x / y))"
| "fdiv f NaN _ = NaN"
| "fdiv f _ NaN = NaN"
| "fdiv f (Fin x) _ = Fin 0"
| "fdiv f a (Fin y) = finf_of_sign (fsgn a * (if y < 0 then -1 else 1))"
| "fdiv f _ _ = NaN"

fun flt :: "fl \<Rightarrow> fl \<Rightarrow> bool" where
  "flt (Fin x) (Fin y) = (x < y)"
| "flt NaN _ = False"
| "flt _ NaN = False"
| "flt NInf NInf = False"
| "flt NInf _ = True"
| "flt _ NInf = False"
| "flt PInf _ = False"
| "flt _ PInf = True"

fun feq :: "fl \<Rightarrow> fl \<Rightarrow> bool" where
  "feq (Fin x) (Fin y) = (x = y)"
| "feq PInf PInf = True"
| "feq NInf NInf = True"
| "feq _ _ = False"

definition fle :: "fl \<Rightarrow> fl \<Rightarrow> bool" where
  "fle a b = (flt a b \<or> feq a b)"

definition fge :: "fl \<Rightarrow> fl \<Rightarrow> bool" where
  "fge a b = fle b a"

definition is_nan :: "fl \<Rightarrow> bool" where
  "is_nan a = (a = NaN)"

fun is_finite :: "fl \<Rightarrow> bool" where
  "is_finite (Fin _) = True"
| "is_finite _ = False"

text \<open>\<open>f64::max\<close> and \<open>f64::min\<close> ignore a NaN operand; \<open>clamp\<close> keeps a NaN.\<close>

definition fmax :: "fl \<Rightarrow> fl \<Rightarrow> fl" where
  "fmax a b = (if is_nan a then b else if is_nan b then a else if flt a b then b else a)"

definition fmin :: "fl \<Rightarrow> fl \<Rightarrow> fl" where
  "fmin a b = (if is_nan a then b else if is_nan b then a else if flt b a then b else a)"

definition fclamp :: "fl \<Rightarrow> fl \<Rightarrow> fl \<Rightarrow> fl" where
  "fclamp lo hi a = (if flt a lo then lo else if flt hi a then hi else a)"

text \<open>An integer as a float, a narrowing or widening cast, \<open>round\<close> (half away from zero) and
  the saturating \<open>as\<close> cast to an integer type with the given bounds.\<close>

definition fof_int :: "fmt \<Rightarrow> int \<Rightarrow> fl" where
  "fof_int f i = fround_to f (of_int i)"

fun fcast :: "fmt \<Rightarrow> fl \<Rightarrow> fl" where
  "fcast f (Fin x) = fround_to f x"
| "fcast f a = a"

definition round_away :: "rat \<Rightarrow> int" where
  "round_away x = (if 0 \<le> x then \<lfloor>x + 1 / 2\<rfloor> else - \<lfloor>- x + 1 / 2\<rfloor>)"

fun fround :: "fl \<Rightarrow> fl" where
  "fround (Fin x) = Fin (of_int (round_away x))"
| "fround a = a"

definition trunc_rat :: "rat \<Rightarrow> int" where
  "trunc_rat x = (if 0 \<le> x then \<lfloor>x\<rfloor> else - \<lfloor>- x\<rfloor>)"

fun fto_int :: "int \<Rightarrow> int \<Rightarrow> fl \<Rightarrow> int" where
  "fto_int lo hi NaN = 0"
| "fto_int lo hi PInf = hi"
| "fto_int lo hi NInf = lo"
| "fto_int lo hi (Fin x) = max lo (min hi (trunc_rat x))"

section \<open>Powers of two and binary logarithms\<close>

lemma p2_pos [simp]: "0 < p2 e"
  by (simp add: p2_def)

lemma p2_nonzero [simp]: "p2 e \<noteq> 0"
  using p2_pos [of e] by linarith

lemma p2_0 [simp]: "p2 0 = 1"
  by (simp add: p2_def)

lemma p2_powi: "p2 e = 2 powi e"
  by (simp add: p2_def power_int_def divide_simps)

lemma p2_add: "p2 (a + b) = p2 a * p2 b"
  by (simp add: p2_powi power_int_add)

lemma p2_diff: "p2 (a - b) = p2 a / p2 b"
  by (simp add: p2_powi power_int_diff)

lemma p2_strict: "a < b \<Longrightarrow> p2 a < p2 b"
  unfolding p2_powi by (rule power_int_strict_increasing) simp_all

lemma p2_less_iff [simp]: "p2 a < p2 b \<longleftrightarrow> a < b"
  using p2_strict [of a b] p2_strict [of b a] by (cases a b rule: linorder_cases) auto

lemma p2_mono_iff [simp]: "p2 a \<le> p2 b \<longleftrightarrow> a \<le> b"
  by (simp add: linorder_not_less [symmetric])

lemma p2_nat: "p2 (int n) = 2 ^ n"
  by (simp add: p2_def)

lemma p2_int: "0 \<le> e \<Longrightarrow> p2 e = of_int (2 ^ nat e)"
  by (simp add: p2_def)

lemma ilog2_bounds:
  assumes "0 < x"
  shows "p2 (ilog2 x) \<le> x" and "x < p2 (ilog2 x + 1)"
proof -
  obtain a b where ab: "quotient_of x = (a, b)" by (cases "quotient_of x")
  have b: "0 < b" using quotient_of_denom_pos [OF ab] .
  have x: "x = of_int a / of_int b" using quotient_of_div [OF ab] .
  with assms b have a: "0 < a" by (simp add: zero_less_divide_iff)
  define la where "la = bitlen a"
  define lb where "lb = bitlen b"
  have "2 ^ nat (la - 1) \<le> a \<and> a < 2 ^ nat la"
    using bitlen_bounds [OF a] by (simp add: la_def)
  moreover have la1: "1 \<le> la"
    using a bitlen_nonneg [of a] bitlen_eq_zero_iff [of a] unfolding la_def by linarith
  ultimately have al: "p2 (la - 1) \<le> of_int a" and au: "of_int a < p2 la"
    by (simp_all add: p2_int del: of_int_power)
  have "2 ^ nat (lb - 1) \<le> b \<and> b < 2 ^ nat lb"
    using bitlen_bounds [OF b] by (simp add: lb_def)
  moreover have lb1: "1 \<le> lb"
    using b bitlen_nonneg [of b] bitlen_eq_zero_iff [of b] unfolding lb_def by linarith
  ultimately have bl: "p2 (lb - 1) \<le> of_int b" and bu: "of_int b < p2 lb"
    by (simp_all add: p2_int del: of_int_power)
  have bp: "0 < (of_int b :: rat)" using b by simp
  have up: "x < p2 (la - lb + 1)"
  proof -
    have "p2 (la - lb + 1) * of_int b \<ge> p2 (la - lb + 1) * p2 (lb - 1)"
      using bl p2_pos [of "la - lb + 1"] by (simp add: mult_left_mono)
    also have "p2 (la - lb + 1) * p2 (lb - 1) = p2 la"
      by (simp add: p2_add [symmetric])
    finally have "of_int a < p2 (la - lb + 1) * of_int b" using au by linarith
    then show ?thesis using bp by (simp add: x divide_simps)
  qed
  have lo: "p2 (la - lb - 1) \<le> x"
  proof -
    have "p2 (la - lb - 1) * of_int b \<le> p2 (la - lb - 1) * p2 lb"
      using bu p2_pos [of "la - lb - 1"] by (simp add: mult_left_mono)
    also have "p2 (la - lb - 1) * p2 lb = p2 (la - 1)"
      by (simp add: p2_add [symmetric])
    finally have "p2 (la - lb - 1) * of_int b \<le> of_int a" using al by linarith
    then show ?thesis using bp by (simp add: x divide_simps)
  qed
  have e: "ilog2 x = (if p2 (la - lb) \<le> x then la - lb else la - lb - 1)"
    by (simp add: ilog2_def ab la_def lb_def Let_def)
  show "p2 (ilog2 x) \<le> x" using e lo by simp
  show "x < p2 (ilog2 x + 1)" using e up by (auto simp: not_le)
qed

lemma ilog2_eqI: "p2 e \<le> x \<Longrightarrow> x < p2 (e + 1) \<Longrightarrow> ilog2 x = e"
proof -
  assume lo: "p2 e \<le> x" and hi: "x < p2 (e + 1)"
  then have "0 < x" using p2_pos [of e] by linarith
  note b = ilog2_bounds [OF this]
  have "p2 e < p2 (ilog2 x + 1)" using lo b(2) by linarith
  moreover have "p2 (ilog2 x) < p2 (e + 1)" using hi b(1) by linarith
  ultimately show ?thesis by simp
qed

lemma ilog2_mono: "0 < x \<Longrightarrow> x \<le> y \<Longrightarrow> ilog2 x \<le> ilog2 y"
proof -
  assume x: "0 < x" and le: "x \<le> y"
  then have y: "0 < y" by linarith
  have "p2 (ilog2 x) < p2 (ilog2 y + 1)"
    using ilog2_bounds(1) [OF x] ilog2_bounds(2) [OF y] le by linarith
  then show ?thesis by simp
qed

lemma ilog2_less:
  assumes "0 \<le> x" and "x < p2 e" and "0 \<le> e"
  shows "ilog2 x < e"
proof (cases "x = 0")
  case True
  moreover have "bitlen 1 = 1" using bitlen_pow2 [of 1 0] by (simp add: bitlen_alt_def floorlog_def)
  ultimately show ?thesis using assms(3) p2_pos [of "- 1"]
    by (simp add: ilog2_def Let_def quotient_of_number)
next
  case False
  with assms have "p2 (ilog2 x) \<le> x" by (intro ilog2_bounds(1)) simp
  with assms have "p2 (ilog2 x) < p2 e" by linarith
  then show ?thesis by simp
qed

section \<open>Rounding to nearest\<close>

lemma rne_of_int [simp]: "rne (of_int n) = n"
  by (simp add: rne_def)

lemma rne_error: "\<bar>of_int (rne x) - x\<bar> \<le> 1 / 2"
proof -
  have "of_int \<lfloor>x\<rfloor> \<le> x" "x < of_int \<lfloor>x\<rfloor> + 1" by linarith+
  then show ?thesis unfolding rne_def Let_def by (auto simp: abs_le_iff)
qed

lemma rne_mono: "x \<le> y \<Longrightarrow> rne x \<le> rne y"
proof (cases "\<lfloor>x\<rfloor> = \<lfloor>y\<rfloor>")
  case True
  assume "x \<le> y"
  with True show ?thesis unfolding rne_def Let_def by auto
next
  case False
  assume "x \<le> y"
  with False have "\<lfloor>x\<rfloor> + 1 \<le> \<lfloor>y\<rfloor>" using floor_mono [of x y] by linarith
  moreover have "rne x \<le> \<lfloor>x\<rfloor> + 1" unfolding rne_def Let_def by auto
  moreover have "\<lfloor>y\<rfloor> \<le> rne y" unfolding rne_def Let_def by auto
  ultimately show ?thesis by linarith
qed

lemma rne_ge_int: "of_int n \<le> x \<Longrightarrow> n \<le> rne x"
  using rne_mono [of "of_int n" x] by simp

lemma rne_le_int: "x \<le> of_int n \<Longrightarrow> rne x \<le> n"
  using rne_mono [of x "of_int n"] by simp

lemma prec_pos: "0 < prec f"
  by (cases f) auto

lemma quantum_mono: "0 < x \<Longrightarrow> x \<le> y \<Longrightarrow> quantum f x \<le> quantum f y"
  using ilog2_mono [of x y] by (simp add: quantum_def)

lemma scaled_lt:
  assumes "0 < x"
  shows "x / p2 (quantum f x) < 2 ^ prec f"
proof -
  have "x < p2 (ilog2 x + 1)" by (rule ilog2_bounds(2) [OF assms])
  also have "\<dots> \<le> p2 (quantum f x + int (prec f))" by (simp add: quantum_def)
  also have "\<dots> = 2 ^ prec f * p2 (quantum f x)" by (simp add: p2_add p2_nat)
  finally show ?thesis by (simp add: divide_simps)
qed

lemma scaled_ge:
  assumes "0 < x" and "qmin f < quantum f x"
  shows "2 ^ (prec f - 1) \<le> x / p2 (quantum f x)"
proof -
  have q: "quantum f x = ilog2 x - int (prec f) + 1" using assms(2) by (simp add: quantum_def)
  have "2 ^ (prec f - 1) * p2 (quantum f x) = p2 (int (prec f - 1) + quantum f x)"
    by (simp add: p2_add p2_nat)
  also have "\<dots> = p2 (ilog2 x)" using prec_pos [of f] by (simp add: q of_nat_diff)
  also have "\<dots> \<le> x" by (rule ilog2_bounds(1) [OF assms(1)])
  finally show ?thesis by (simp add: divide_simps)
qed

lemma round_pos_upper:
  assumes "0 < x"
  shows "round_pos f x \<le> p2 (quantum f x + int (prec f))"
proof -
  have "x / p2 (quantum f x) \<le> of_int (2 ^ prec f)" using scaled_lt [OF assms, of f] by simp
  then have "rne (x / p2 (quantum f x)) \<le> 2 ^ prec f" by (rule rne_le_int)
  then have "(of_int (rne (x / p2 (quantum f x))) :: rat) \<le> of_int (2 ^ prec f)"
    by (simp only: of_int_le_iff)
  then have "of_int (rne (x / p2 (quantum f x))) * p2 (quantum f x) \<le> 2 ^ prec f * p2 (quantum f x)"
    using p2_pos [of "quantum f x"] by (simp add: mult_right_mono)
  then show ?thesis by (simp add: round_pos_def Let_def p2_add p2_nat mult.commute)
qed

lemma round_pos_lower:
  assumes "0 < x" and "qmin f < quantum f x"
  shows "p2 (quantum f x + int (prec f) - 1) \<le> round_pos f x"
proof -
  have "of_int (2 ^ (prec f - 1)) \<le> x / p2 (quantum f x)" using scaled_ge [OF assms] by simp
  then have "2 ^ (prec f - 1) \<le> rne (x / p2 (quantum f x))" by (rule rne_ge_int)
  then have "of_int (2 ^ (prec f - 1)) \<le> (of_int (rne (x / p2 (quantum f x))) :: rat)"
    by (simp only: of_int_le_iff)
  then have "2 ^ (prec f - 1) * p2 (quantum f x) \<le> of_int (rne (x / p2 (quantum f x))) * p2 (quantum f x)"
    using p2_pos [of "quantum f x"] by (simp add: mult_right_mono)
  moreover have "p2 (quantum f x + int (prec f) - 1) = 2 ^ (prec f - 1) * p2 (quantum f x)"
  proof -
    have "quantum f x + int (prec f) - 1 = int (prec f - 1) + quantum f x"
      using prec_pos [of f] by (simp add: of_nat_diff)
    then show ?thesis by (simp only: p2_add p2_nat)
  qed
  ultimately show ?thesis by (simp add: round_pos_def Let_def)
qed

lemma round_pos_mono:
  assumes "0 < x" and "x \<le> y"
  shows "round_pos f x \<le> round_pos f y"
proof (cases "quantum f x = quantum f y")
  case True
  have "x / p2 (quantum f x) \<le> y / p2 (quantum f x)"
    using assms(2) by (simp add: divide_right_mono less_imp_le)
  then have "rne (x / p2 (quantum f x)) \<le> rne (y / p2 (quantum f x))" by (rule rne_mono)
  then have "(of_int (rne (x / p2 (quantum f x))) :: rat) \<le> of_int (rne (y / p2 (quantum f x)))"
    by simp
  with True show ?thesis by (simp add: round_pos_def Let_def mult_right_mono)
next
  case False
  with quantum_mono [OF assms, of f] have lt: "quantum f x < quantum f y" by simp
  have "qmin f \<le> quantum f x" by (simp add: quantum_def)
  with lt have "qmin f < quantum f y" by simp
  then have "p2 (quantum f y + int (prec f) - 1) \<le> round_pos f y"
    using assms by (intro round_pos_lower) auto
  moreover have "p2 (quantum f x + int (prec f)) \<le> p2 (quantum f y + int (prec f) - 1)"
    using lt by simp
  ultimately show ?thesis using round_pos_upper [OF assms(1), of f] by linarith
qed

lemma round_pos_nonneg: "0 < x \<Longrightarrow> 0 \<le> round_pos f x"
proof -
  assume "0 < x"
  then have "0 \<le> x / p2 (quantum f x)" by (simp add: less_imp_le)
  then have "0 \<le> rne (x / p2 (quantum f x))" using rne_ge_int [of 0] by simp
  then show ?thesis by (simp add: round_pos_def Let_def less_imp_le)
qed

lemma round_pos_error:
  assumes "0 < x"
  shows "\<bar>round_pos f x - x\<bar> \<le> p2 (quantum f x) / 2"
proof -
  have "round_pos f x - x = (of_int (rne (x / p2 (quantum f x))) - x / p2 (quantum f x)) * p2 (quantum f x)"
    by (simp add: round_pos_def Let_def left_diff_distrib)
  then have "\<bar>round_pos f x - x\<bar> = \<bar>of_int (rne (x / p2 (quantum f x))) - x / p2 (quantum f x)\<bar> * p2 (quantum f x)"
    using p2_pos [of "quantum f x"] by (simp only: abs_mult abs_of_pos)
  also have "\<dots> \<le> 1 / 2 * p2 (quantum f x)"
    by (rule mult_right_mono [OF rne_error]) (simp add: less_imp_le)
  finally show ?thesis by simp
qed

lemma round_pos_exact:
  assumes "0 < m" and "m \<le> 2 ^ prec f" and "qmin f \<le> e"
  shows "round_pos f (of_int m * p2 e) = of_int m * p2 e"
proof -
  let ?x = "of_int m * p2 e"
  have pos: "0 < ?x" using assms by simp
  have "(of_int m :: rat) \<le> of_int (2 ^ prec f)" using assms by (simp only: of_int_le_iff)
  then have "?x \<le> 2 ^ prec f * p2 e" by (simp add: mult_right_mono less_imp_le)
  then have up: "?x \<le> p2 (int (prec f) + e)" by (simp add: p2_add p2_nat)
  show ?thesis
  proof (cases "?x = p2 (int (prec f) + e)")
    case True
    have "ilog2 ?x = int (prec f) + e" by (rule ilog2_eqI) (simp_all add: True)
    then have q: "quantum f ?x = e + 1" using assms by (simp add: quantum_def)
    have "?x / p2 (e + 1) = p2 (int (prec f) - 1)"
      by (simp add: True p2_diff [symmetric])
    also have "\<dots> = of_int (2 ^ (prec f - 1))"
      using prec_pos [of f] by (simp add: p2_def nat_diff_distrib)
    finally have "?x / p2 (e + 1) = of_int (2 ^ (prec f - 1))" .
    then have "round_pos f ?x = ?x / p2 (e + 1) * p2 (e + 1)"
      by (simp only: round_pos_def Let_def q rne_of_int)
    then show ?thesis by simp
  next
    case False
    with up have "?x < p2 (int (prec f) + e)" by simp
    moreover have "p2 (ilog2 ?x) \<le> ?x" by (rule ilog2_bounds(1) [OF pos])
    ultimately have "p2 (ilog2 ?x) < p2 (int (prec f) + e)" by linarith
    then have "quantum f ?x \<le> e" using assms by (simp add: quantum_def)
    then have "?x / p2 (quantum f ?x) = of_int (m * 2 ^ nat (e - quantum f ?x))"
      by (simp add: p2_int [symmetric] p2_diff del: of_int_power)
    then have "round_pos f ?x = ?x / p2 (quantum f ?x) * p2 (quantum f ?x)"
      by (simp only: round_pos_def Let_def rne_of_int)
    then show ?thesis by simp
  qed
qed

section \<open>Signed rounding\<close>

definition rnd :: "fmt \<Rightarrow> rat \<Rightarrow> rat" where
  "rnd f x = (if x = 0 then 0 else if 0 < x then round_pos f x else - round_pos f (- x))"

lemma rnd_0 [simp]: "rnd f 0 = 0"
  by (simp add: rnd_def)

lemma rnd_uminus [simp]: "rnd f (- x) = - rnd f x"
  by (simp add: rnd_def)

lemma rnd_nonneg: "0 \<le> x \<Longrightarrow> 0 \<le> rnd f x"
  using round_pos_nonneg [of x f] by (cases "x = 0") (auto simp: rnd_def)

lemma rnd_nonpos: "x \<le> 0 \<Longrightarrow> rnd f x \<le> 0"
  using rnd_nonneg [of "- x" f] by simp

lemma rnd_mono:
  assumes "x \<le> y"
  shows "rnd f x \<le> rnd f y"
proof -
  consider "0 < x" | "y < 0" | "x \<le> 0" "0 \<le> y" by linarith
  then show ?thesis
  proof cases
    case 1
    with assms show ?thesis by (simp add: rnd_def round_pos_mono)
  next
    case 2
    with assms have "round_pos f (- y) \<le> round_pos f (- x)" by (intro round_pos_mono) auto
    with 2 assms show ?thesis by (simp add: rnd_def)
  next
    case 3
    then show ?thesis using rnd_nonpos [of x f] rnd_nonneg [of y f] by linarith
  qed
qed

lemma rnd_exact:
  assumes "\<bar>m\<bar> \<le> 2 ^ prec f" and "qmin f \<le> e"
  shows "rnd f (of_int m * p2 e) = of_int m * p2 e"
proof -
  consider "0 < m" | "m = 0" | "m < 0" by linarith
  then show ?thesis
  proof cases
    case 1
    with assms round_pos_exact [of m f e] show ?thesis by (simp add: rnd_def)
  next
    case 2
    then show ?thesis by simp
  next
    case 3
    then have "round_pos f (of_int (- m) * p2 e) = of_int (- m) * p2 e"
      using assms by (intro round_pos_exact) auto
    moreover have "of_int m * p2 e < 0" using 3 by (simp add: mult_less_0_iff)
    ultimately show ?thesis by (simp add: rnd_def)
  qed
qed

lemma qmin_nonpos: "qmin f \<le> 0"
  by (cases f) auto

lemma rnd_of_int: "\<bar>n\<bar> \<le> 2 ^ prec f \<Longrightarrow> rnd f (of_int n) = of_int n"
  using rnd_exact [of n f 0] qmin_nonpos [of f] by simp

lemma rnd_le_int: "x \<le> of_int n \<Longrightarrow> \<bar>n\<bar> \<le> 2 ^ prec f \<Longrightarrow> rnd f x \<le> of_int n"
  using rnd_mono [of x "of_int n" f] rnd_of_int [of n f] by simp

lemma rnd_ge_int: "of_int n \<le> x \<Longrightarrow> \<bar>n\<bar> \<le> 2 ^ prec f \<Longrightarrow> of_int n \<le> rnd f x"
  using rnd_mono [of "of_int n" x f] rnd_of_int [of n f] by simp

lemma overflow_exp_pos: "0 \<le> qmax f + int (prec f)"
  by (cases f) simp_all

lemma fround_to_rnd:
  "\<bar>rnd f x\<bar> < p2 (qmax f + int (prec f)) \<Longrightarrow> fround_to f x = Fin (rnd f x)"
  using round_pos_nonneg [of x f] round_pos_nonneg [of "- x" f]
  using ilog2_less [of "round_pos f x" "qmax f + int (prec f)"]
    ilog2_less [of "round_pos f (- x)" "qmax f + int (prec f)"] overflow_exp_pos [of f]
  by (cases x "0 :: rat" rule: linorder_cases) (auto simp: fround_to_def rnd_def Let_def)

lemma fround_to_small:
  assumes "\<bar>x\<bar> \<le> of_int n" and "n \<le> 2 ^ prec f"
  shows "fround_to f x = Fin (rnd f x)" and "\<bar>rnd f x\<bar> \<le> of_int n"
proof -
  have n: "\<bar>n\<bar> \<le> 2 ^ prec f" using assms by linarith
  have "rnd f x \<le> of_int n" using assms n by (intro rnd_le_int) auto
  moreover have "of_int (- n) \<le> rnd f x" using assms n by (intro rnd_ge_int) auto
  ultimately show b: "\<bar>rnd f x\<bar> \<le> of_int n" by (simp add: abs_le_iff)
  have "(of_int n :: rat) \<le> of_int (2 ^ prec f)" using assms(2) by (simp only: of_int_le_iff)
  also have "\<dots> < p2 (qmax f + int (prec f))"
    by (cases f) (simp_all add: p2_def)
  finally show "fround_to f x = Fin (rnd f x)"
    using b by (intro fround_to_rnd) linarith
qed

text \<open>Rounding error relative to a bound on the magnitude.\<close>

lemma rnd_error:
  assumes "\<bar>x\<bar> \<le> p2 k" and "qmin f + int (prec f) \<le> k + 1"
  shows "\<bar>rnd f x - x\<bar> \<le> p2 (k - int (prec f))"
proof -
  have pos: "\<bar>round_pos f y - y\<bar> \<le> p2 (k - int (prec f))" if y: "0 < y" "y \<le> p2 k" for y
  proof (cases "y = p2 k")
    case True
    have "round_pos f (of_int 1 * p2 k) = of_int 1 * p2 k"
      using assms(2) prec_pos [of f] by (intro round_pos_exact) (auto simp: Suc_le_eq)
    then show ?thesis by (simp add: True less_imp_le)
  next
    case False
    then have "p2 (ilog2 y) < p2 k" using y ilog2_bounds(1) [OF y(1)] by linarith
    then have "quantum f y \<le> k - int (prec f) + 1"
      using assms(2) by (simp add: quantum_def)
    moreover have "\<bar>round_pos f y - y\<bar> \<le> p2 (quantum f y) / 2"
      by (rule round_pos_error [OF y(1)])
    moreover have "p2 (k - int (prec f) + 1) = 2 * p2 (k - int (prec f))"
      by (simp add: p2_add) (simp add: p2_def)
    ultimately show ?thesis
      using p2_mono_iff [of "quantum f y" "k - int (prec f) + 1"] by linarith
  qed
  consider "0 < x" | "x = 0" | "x < 0" by linarith
  then show ?thesis
  proof cases
    case 1
    with pos [of x] assms show ?thesis by (simp add: rnd_def)
  next
    case 2
    then show ?thesis by (simp add: less_imp_le)
  next
    case 3
    with pos [of "- x"] assms show ?thesis by (simp add: rnd_def abs_le_iff)
  qed
qed

lemma round_away_error: "\<bar>of_int (round_away y) - y\<bar> \<le> 1 / 2"
proof (cases "0 \<le> y")
  case True
  have "of_int \<lfloor>y + 1 / 2\<rfloor> \<le> y + 1 / 2" "y + 1 / 2 < of_int \<lfloor>y + 1 / 2\<rfloor> + 1" by linarith+
  then have "\<bar>of_int \<lfloor>y + 1 / 2\<rfloor> - y\<bar> \<le> 1 / 2" by linarith
  with True show ?thesis by (simp add: round_away_def)
next
  case False
  have "of_int \<lfloor>- y + 1 / 2\<rfloor> \<le> - y + 1 / 2" "- y + 1 / 2 < of_int \<lfloor>- y + 1 / 2\<rfloor> + 1" by linarith+
  then have "\<bar>of_int (- \<lfloor>- y + 1 / 2\<rfloor>) - y\<bar> \<le> 1 / 2" unfolding of_int_minus by linarith
  with False show ?thesis by (simp add: round_away_def)
qed

lemma fround_to_0 [simp]: "fround_to f 0 = Fin 0"
  by (simp add: fround_to_def)

lemma fle_Fin [simp]: "fle (Fin x) (Fin y) \<longleftrightarrow> x \<le> y"
  by (auto simp: fle_def)

lemma fge_Fin [simp]: "fge (Fin x) (Fin y) \<longleftrightarrow> y \<le> x"
  by (simp add: fge_def)

lemma flt_NaN [simp]: "\<not> flt NaN a" "\<not> flt a NaN"
  by (cases a; simp)+

lemma fle_NaN [simp]: "\<not> fle NaN a" "\<not> fle a NaN"
  by (cases a; simp add: fle_def)+

lemma fge_NaN [simp]: "\<not> fge NaN a" "\<not> fge a NaN"
  by (cases a; simp add: fge_def fle_def)+

lemma fge_iff_not_flt: "\<not> is_nan a \<Longrightarrow> \<not> is_nan b \<Longrightarrow> fge a b \<longleftrightarrow> \<not> flt a b"
  by (cases a; cases b; auto simp: fge_def fle_def is_nan_def)

section \<open>Order on values\<close>

lemma fle_trans: "fle a b \<Longrightarrow> fle b c \<Longrightarrow> fle a c"
  by (cases a; cases b; cases c) (auto simp: fle_def)

lemma fle_flt_trans: "fle a b \<Longrightarrow> flt b c \<Longrightarrow> flt a c"
  by (cases a; cases b; cases c) (auto simp: fle_def)

lemma flt_not_fle: "flt a b \<Longrightarrow> \<not> fle b a"
  by (cases a; cases b) (auto simp: fle_def)

lemma fle_PInf [simp]: "fle a PInf \<longleftrightarrow> \<not> is_nan a"
  by (cases a) (auto simp: fle_def is_nan_def)

lemma fle_PInf_Fin [simp]: "\<not> fle PInf (Fin x)" and fle_Fin_NInf [simp]: "\<not> fle (Fin x) NInf"
  by (simp_all add: fle_def)

lemma fle_NInf [simp]: "fle NInf a \<longleftrightarrow> \<not> is_nan a"
  by (cases a) (auto simp: fle_def is_nan_def)

lemma fround_to_not_nan [simp]: "fround_to f x \<noteq> NaN"
  by (simp add: fround_to_def Let_def)

lemma ilog2_ge: "p2 e \<le> x \<Longrightarrow> e \<le> ilog2 x"
proof -
  assume le: "p2 e \<le> x"
  then have "0 < x" using p2_pos [of e] by linarith
  from ilog2_mono [OF p2_pos le] have "ilog2 (p2 e) \<le> ilog2 x" .
  moreover have "ilog2 (p2 e) = e" by (rule ilog2_eqI) simp_all
  ultimately show ?thesis by simp
qed

text \<open>The three outcomes of rounding, by the size of the rounded magnitude.\<close>

lemma fround_to_cases:
  "fround_to f x =
     (if p2 (qmax f + int (prec f)) \<le> rnd f x then PInf
      else if rnd f x \<le> - p2 (qmax f + int (prec f)) then NInf
      else Fin (rnd f x))"
proof -
  let ?B = "p2 (qmax f + int (prec f))"
  have B: "0 < ?B" by simp
  have iff: "qmax f + int (prec f) \<le> ilog2 (round_pos f y) \<longleftrightarrow> ?B \<le> round_pos f y" if "0 < y" for y
    using ilog2_ge [of "qmax f + int (prec f)" "round_pos f y"]
      ilog2_less [of "round_pos f y" "qmax f + int (prec f)"]
      round_pos_nonneg [OF that, of f] overflow_exp_pos [of f] by (auto simp: not_le [symmetric])
  consider "x = 0" | "0 < x" | "x < 0" by linarith
  then show ?thesis
  proof cases
    case 1
    with B show ?thesis by (simp add: not_le)
  next
    case 2
    moreover have "\<not> round_pos f x \<le> - ?B" using round_pos_nonneg [OF 2, of f] B by linarith
    ultimately show ?thesis using iff [of x] by (simp add: fround_to_def rnd_def Let_def)
  next
    case 3
    then have "0 < - x" by simp
    then have "\<not> ?B \<le> - round_pos f (- x)" using round_pos_nonneg [of "- x" f] B by linarith
    with 3 show ?thesis using iff [of "- x"]
      by (simp add: fround_to_def rnd_def Let_def)
  qed
qed

lemma fround_to_mono: "x \<le> y \<Longrightarrow> fle (fround_to f x) (fround_to f y)"
proof -
  assume "x \<le> y"
  then have "rnd f x \<le> rnd f y" by (rule rnd_mono)
  moreover have "0 < p2 (qmax f + int (prec f))" by simp
  ultimately show ?thesis
    by (auto simp: fround_to_cases [of f x] fround_to_cases [of f y] is_nan_def)
qed

lemma fround_to_of_int: "\<bar>n\<bar> \<le> 2 ^ prec f \<Longrightarrow> fround_to f (of_int n) = Fin (of_int n)"
  using fround_to_small(1) [of "of_int n" "\<bar>n\<bar>" f] rnd_of_int [of n f] by simp

lemma fadd_ge: "fle (Fin x) a \<Longrightarrow> fle (Fin y) b \<Longrightarrow> fle (fround_to f (x + y)) (fadd f a b)"
  by (cases a; cases b) (auto simp: is_nan_def intro: fround_to_mono)

lemma fadd_le: "fle a (Fin x) \<Longrightarrow> fle b (Fin y) \<Longrightarrow> fle (fadd f a b) (fround_to f (x + y))"
  by (cases a; cases b) (auto simp: is_nan_def intro: fround_to_mono)

lemma fmul_mono:
  assumes "fle (Fin 0) a" and "fle a b" and "0 < y"
  shows "fle (fmul f a (Fin y)) (fmul f b (Fin y))"
proof (cases a; cases b)
  fix p q assume ab: "a = Fin p" "b = Fin q"
  with assms have "p * y \<le> q * y" by (simp add: mult_right_mono)
  with ab show ?thesis by (simp add: fround_to_mono)
qed (use assms in \<open>auto simp: finf_of_sign_def is_nan_def\<close>)

section \<open>Durations in seconds\<close>

text \<open>\<open>Duration::as_secs_f64\<close>: \<open>(self.secs as f64) + (self.nanos as f64) / (NANOS_PER_SEC as f64)\<close>.\<close>

definition as_secs_f64 :: "duration \<Rightarrow> fl" where
  "as_secs_f64 d =
     fadd B64 (fof_int B64 (int (d div 1000000000)))
       (fdiv B64 (fof_int B64 (int (d mod 1000000000))) (fof_int B64 1000000000))"

definition frac_secs :: "nat \<Rightarrow> rat" where
  "frac_secs n = rnd B64 (of_nat n / 1000000000)"

lemma nanos_div:
  assumes "n < 1000000000"
  shows "fdiv B64 (fof_int B64 (int n)) (fof_int B64 1000000000) = Fin (frac_secs n)"
    and "0 \<le> frac_secs n" and "frac_secs n \<le> 1"
proof -
  have n: "fof_int B64 (int n) = Fin (of_nat n)"
    using fround_to_of_int [of "int n" B64] assms by (simp add: fof_int_def)
  have g: "fof_int B64 1000000000 = Fin 1000000000"
    using fround_to_of_int [of 1000000000 B64] by (simp add: fof_int_def)
  have "(of_nat n :: rat) \<le> of_nat 1000000000" using assms by (simp only: of_nat_le_iff)
  then have le: "(of_nat n / 1000000000 :: rat) \<le> 1" by simp
  have "fround_to B64 (of_nat n / 1000000000) = Fin (frac_secs n)"
    unfolding frac_secs_def using le by (intro fround_to_small(1) [of _ 1]) auto
  with n g show "fdiv B64 (fof_int B64 (int n)) (fof_int B64 1000000000) = Fin (frac_secs n)"
    by simp
  show "0 \<le> frac_secs n" unfolding frac_secs_def by (rule rnd_nonneg) simp
  show "frac_secs n \<le> 1"
    unfolding frac_secs_def using rnd_le_int [of "of_nat n / 1000000000" 1 B64] le by simp
qed

lemma frac_secs_mono: "m \<le> n \<Longrightarrow> frac_secs m \<le> frac_secs n"
  unfolding frac_secs_def by (rule rnd_mono) (simp add: divide_right_mono)

lemma as_secs_f64_alt:
  "as_secs_f64 d = fadd B64 (fof_int B64 (int (d div 1000000000))) (Fin (frac_secs (d mod 1000000000)))"
  using nanos_div(1) [of "d mod 1000000000"] by (simp add: as_secs_f64_def)

lemma fof_int_mono: "i \<le> j \<Longrightarrow> fle (fof_int f i) (fof_int f j)"
  by (simp add: fof_int_def fround_to_mono)

lemma as_secs_f64_mono:
  assumes "d \<le> d'" and "d div 1000000000 < 2 ^ 53"
  shows "fle (as_secs_f64 d) (as_secs_f64 d')"
proof -
  let ?s = "d div 1000000000" and ?n = "d mod 1000000000"
  let ?s' = "d' div 1000000000" and ?n' = "d' mod 1000000000"
  have s: "?s \<le> ?s'" using assms(1) by (rule div_le_mono)
  have exact: "fof_int B64 (int k) = Fin (of_nat k)" if "k \<le> 2 ^ 53" for k
  proof -
    have "int k \<le> int (2 ^ 53)" using that by (simp only: zle_int)
    then show ?thesis using fround_to_of_int [of "int k" B64] by (simp add: fof_int_def)
  qed
  have nn: "0 \<le> frac_secs ?n" "frac_secs ?n \<le> 1" "0 \<le> frac_secs ?n'"
    by (simp_all add: nanos_div(2,3))
  show ?thesis
  proof (cases "?s = ?s'")
    case True
    have "?n \<le> ?n'" using assms(1) True by (metis div_mult_mod_eq nat_add_left_cancel_le)
    then have "frac_secs ?n \<le> frac_secs ?n'" by (rule frac_secs_mono)
    moreover have "fof_int B64 (int ?s') = Fin (of_nat ?s)"
      using True assms(2) exact [of ?s] by simp
    ultimately show ?thesis using True exact [of ?s] assms(2)
      by (simp add: as_secs_f64_alt fround_to_mono)
  next
    case False
    with s have "Suc ?s \<le> ?s'" by simp
    then have "fle (fof_int B64 (int (Suc ?s))) (fof_int B64 (int ?s'))"
      by (intro fof_int_mono) simp
    then have ge: "fle (Fin (of_nat (Suc ?s))) (fof_int B64 (int ?s'))"
      using exact [of "Suc ?s"] assms(2) by simp
    have "fle (fround_to B64 (of_nat (Suc ?s) + 0)) (as_secs_f64 d')"
      unfolding as_secs_f64_alt using ge nn by (intro fadd_ge) auto
    moreover have "fle (as_secs_f64 d) (fround_to B64 (of_nat ?s + 1))"
      unfolding as_secs_f64_alt using exact [of ?s] assms(2) nn by (intro fadd_le) auto
    ultimately show ?thesis by (simp add: fle_trans add.commute)
  qed
qed

lemma as_secs_f64_nonneg: "fle (Fin 0) (as_secs_f64 d)"
proof -
  have "as_secs_f64 0 = Fin 0" by code_simp
  then show ?thesis using as_secs_f64_mono [of 0 d] by simp
qed

text \<open>A float threshold on an elapsed time is an integer threshold in nanoseconds, once it holds
  at the two neighbouring nanosecond counts.\<close>

lemma as_secs_threshold:
  assumes "fle c (as_secs_f64 t)" and "flt (as_secs_f64 (t - 1)) c"
    and "0 < t" and "t div 1000000000 < 2 ^ 53"
  shows "fge (as_secs_f64 d) c \<longleftrightarrow> t \<le> d"
proof
  assume "t \<le> d"
  then show "fge (as_secs_f64 d) c"
    using as_secs_f64_mono [of t d] assms by (auto simp: fge_def intro: fle_trans)
next
  assume ge: "fge (as_secs_f64 d) c"
  show "t \<le> d"
  proof (rule ccontr)
    assume "\<not> t \<le> d"
    then have "d \<le> t - 1" by simp
    moreover have "d div 1000000000 < 2 ^ 53"
      using \<open>\<not> t \<le> d\<close> assms(4) div_le_mono [of d t 1000000000] by linarith
    ultimately have "flt (as_secs_f64 d) c"
      using as_secs_f64_mono [of d "t - 1"] assms(2) by (blast intro: fle_flt_trans)
    with ge show False by (simp add: fge_def flt_not_fle)
  qed
qed

end
