(* ===== verification/F32Bits.thy ===== *)
theory F32Bits
  imports Floats
begin

text \<open>
  The 32-bit patterns of \<open>f32\<close> values (\<open>from_bits\<close>, \<open>to_bits\<close>).  Message
  fields the sources hold as \<open>f32\<close> are kept as bit patterns, so that a field that is only
  carried is carried bit for bit, NaN payloads and signed zeros included; arithmetic reads the
  value of a pattern and its result is written back in its canonical pattern (the positive zero,
  the default NaN).
\<close>

definition f32_magnitude :: "nat \<Rightarrow> fl" where
  "f32_magnitude k =
     (let e = k div 2 ^ 23; m = k mod 2 ^ 23
      in if e = 255 then (if m = 0 then PInf else NaN)
         else if e = 0 then Fin (of_nat m * p2 (-149))
         else Fin (of_nat (2 ^ 23 + m) * p2 (int e - 150)))"

definition f32_of_bits :: "u32 \<Rightarrow> fl" where
  "f32_of_bits w =
     (let k = unat w
      in if k < 2 ^ 31 then f32_magnitude k else fneg (f32_magnitude (k - 2 ^ 31)))"

definition magnitude_bits :: "rat \<Rightarrow> nat" where
  "magnitude_bits x =
     (if x = 0 then 0
      else let q = quantum B32 x; m = nat \<lfloor>x / p2 q\<rfloor>
           in if m < 2 ^ 23 then m else nat (q + 150) * 2 ^ 23 + (m - 2 ^ 23))"

fun f32_to_bits :: "fl \<Rightarrow> u32" where
  "f32_to_bits NaN = 0x7FC00000"
| "f32_to_bits PInf = 0x7F800000"
| "f32_to_bits NInf = 0xFF800000"
| "f32_to_bits (Fin x) =
     word_of_nat (if 0 \<le> x then magnitude_bits x else 2 ^ 31 + magnitude_bits (- x))"

text \<open>Reading back a written value: exact for every value of the format.\<close>

lemma magnitude_bits_exact:
  assumes m: "0 < m" "m < 2 ^ 24" and e: "-149 \<le> e" "e \<le> 104"
  shows "f32_magnitude (magnitude_bits (of_int m * p2 e)) = Fin (of_int m * p2 e)"
    and "magnitude_bits (of_int m * p2 e) < 255 * 2 ^ 23"
proof -
  let ?x = "of_int m * p2 e"
  define q where "q = quantum B32 ?x"
  have x: "0 < ?x" using m by simp
  have q_eq: "q = max (ilog2 ?x - 23) (-149)" by (simp add: q_def quantum_def)
  have "of_int m < (2 ^ 24 :: rat)" using m(2) by (metis of_int_less_iff of_int_numeral of_int_power)
  then have "?x < 2 ^ 24 * p2 e" by (simp add: mult_strict_right_mono)
  also have "2 ^ 24 * p2 e = p2 (e + 24)"
  proof -
    have "p2 24 = 2 ^ 24" by (simp add: p2_def)
    then show ?thesis by (simp add: p2_add)
  qed
  finally have "p2 (ilog2 ?x) < p2 (e + 24)" using ilog2_bounds(1) [OF x] by linarith
  then have qe: "q \<le> e" using e by (simp add: q_eq)
  define k where "k = m * 2 ^ nat (e - q)"
  have split: "p2 e = p2 q * 2 ^ nat (e - q)"
    using p2_add [of q "e - q"] qe by (simp add: p2_int)
  have xk: "?x = of_int k * p2 q" by (simp add: k_def split)
  then have div: "?x / p2 q = of_int k" using p2_pos [of q] by simp
  have k0: "0 < k" using m by (simp add: k_def)
  have k_hi: "k < 2 ^ 24"
  proof -
    have "(of_int k :: rat) < 2 ^ 24" using scaled_lt [OF x, of B32] div by (simp add: q_def)
    then show ?thesis by (metis of_int_less_iff of_int_numeral of_int_power)
  qed
  have k_lo: "2 ^ 23 \<le> k" if "-149 < q"
  proof -
    have "(2 ^ 23 :: rat) \<le> of_int k" using scaled_ge [OF x, of B32] div that by (simp add: q_def)
    then show ?thesis by (metis of_int_le_iff of_int_numeral of_int_power)
  qed
  have qlo: "-149 \<le> q" by (simp add: q_eq)
  have bits: "magnitude_bits ?x = (if k < 2 ^ 23 then nat k else nat (q + 150) * 2 ^ 23 + (nat k - 2 ^ 23))"
    using m(1) k0 by (simp add: magnitude_bits_def Let_def div q_def [symmetric] nat_less_iff)
  have bits': "magnitude_bits ?x < 255 * 2 ^ 23
      \<and> f32_magnitude (magnitude_bits ?x) = Fin (of_int k * p2 q)"
  proof (cases "k < 2 ^ 23")
    case True
    then have q149: "q = -149" using k_lo qlo by force
    have nk: "nat k < 2 ^ 23" using True k0 by (simp add: nat_less_iff)
    then have "f32_magnitude (nat k) = Fin (of_int k * p2 (-149))"
      using k0 by (simp add: f32_magnitude_def)
    with True nk q149 bits show ?thesis by simp
  next
    case False
    obtain j where j: "nat k = 2 ^ 23 + j" "j < 2 ^ 23"
      using False k_hi k0 by (intro that [of "nat k - 2 ^ 23"]) (simp_all add: nat_less_iff le_nat_iff)
    have e1: "nat (q + 150) \<noteq> 0" "nat (q + 150) < 255" "int (nat (q + 150)) - 150 = q"
      using qlo qe e by auto
    have b: "magnitude_bits ?x = nat (q + 150) * 2 ^ 23 + j" using False bits j by simp
    have dm: "(nat (q + 150) * 2 ^ 23 + j) div 2 ^ 23 = nat (q + 150)"
        "(nat (q + 150) * 2 ^ 23 + j) mod 2 ^ 23 = j"
      using j(2) by simp_all
    have "of_nat (2 ^ 23 + j) = (of_int k :: rat)"
      using j(1) k0 by (metis nat_0_le of_int_of_nat_eq less_imp_le)
    then have "f32_magnitude (magnitude_bits ?x) = Fin (of_int k * p2 q)"
      unfolding b f32_magnitude_def Let_def dm using e1 by simp
    moreover have "magnitude_bits ?x < 255 * 2 ^ 23" unfolding b using e1(2) j(2) by simp
    ultimately show ?thesis by blast
  qed
  then show "magnitude_bits ?x < 255 * 2 ^ 23" by blast
  show "f32_magnitude (magnitude_bits ?x) = Fin ?x" using bits' xk by simp
qed

lemma f32_of_to_bits_exact:
  assumes "\<bar>m\<bar> < 2 ^ 24" and "-149 \<le> e" "e \<le> 104"
  shows "f32_of_bits (f32_to_bits (Fin (of_int m * p2 e))) = Fin (of_int m * p2 e)"
proof -
  have unat: "unat (word_of_nat n :: u32) = n" if "n < 2 ^ 32" for n
    using that by (simp add: unat_of_nat take_bit_nat_eq_self)
  consider "m = 0" | "0 < m" | "m < 0" by linarith
  then show ?thesis
  proof cases
    case 1
    then show ?thesis by (simp add: magnitude_bits_def f32_of_bits_def f32_magnitude_def)
  next
    case 2
    then have m: "m < 2 ^ 24" using assms by simp
    note b = magnitude_bits_exact [OF 2 m assms(2,3)]
    have "0 \<le> of_int m * p2 e" using 2 by (simp add: less_imp_le)
    then show ?thesis using b by (simp add: f32_of_bits_def unat)
  next
    case 3
    then have m: "0 < - m" "- m < 2 ^ 24" using assms by simp_all
    note b = magnitude_bits_exact [OF m assms(2,3)]
    have "of_int m * p2 e < 0" using 3 by (simp add: mult_neg_pos)
    then have "\<not> 0 \<le> of_int m * p2 e" by simp
    then have w: "f32_to_bits (Fin (of_int m * p2 e))
        = word_of_nat (2 ^ 31 + magnitude_bits (of_int (- m) * p2 e))"
      by (simp only: f32_to_bits.simps if_False of_int_minus mult_minus_left)
    have "unat (word_of_nat (2 ^ 31 + magnitude_bits (of_int (- m) * p2 e)) :: u32)
        = 2 ^ 31 + magnitude_bits (of_int (- m) * p2 e)"
      using b(2) by (intro unat) simp
    then show ?thesis using b(1) unfolding w by (simp only: f32_of_bits_def Let_def) simp
  qed
qed

text \<open>Every rounded value is a value of the format.\<close>

lemma rnd_B32_form:
  assumes "\<bar>x\<bar> \<le> of_int n" and "n \<le> 2 ^ 24"
  obtains m e where "rnd B32 x = of_int m * p2 e" and "\<bar>m\<bar> < 2 ^ 24" and "-149 \<le> e" and "e \<le> 104"
proof -
  have pos: "\<exists>m e. round_pos B32 y = of_int m * p2 e \<and> \<bar>m\<bar> < 2 ^ 24 \<and> -149 \<le> e \<and> e \<le> 104"
    if y: "0 < y" "y \<le> of_int n" for y
  proof -
    let ?q = "quantum B32 y" and ?m = "rne (y / p2 (quantum B32 y))"
    have "y \<le> p2 24" using y(2) assms(2) by (simp add: p2_def)
    then have "ilog2 y \<le> ilog2 (p2 24)" using y ilog2_mono by blast
    also have "ilog2 (p2 24) = 24" by (rule ilog2_eqI) simp_all
    finally have q: "-149 \<le> ?q" "?q \<le> 1" by (simp_all add: quantum_def)
    have hi: "?m \<le> 2 ^ 24" using scaled_lt [OF y(1), of B32] rne_le_int [of "y / p2 ?q" "2 ^ 24"] by simp
    have lo: "0 \<le> ?m" using rne_ge_int [of 0 "y / p2 ?q"] y(1) by (simp add: less_imp_le)
    show ?thesis
    proof (cases "?m = 2 ^ 24")
      case True
      have "round_pos B32 y = of_int (2 ^ 23) * p2 (?q + 1)"
        by (simp add: round_pos_def Let_def True p2_add) (simp add: p2_def)
      with q show ?thesis by (intro exI [of _ "2 ^ 23"] exI [of _ "?q + 1"]) simp
    next
      case False
      with hi lo q show ?thesis
        by (intro exI [of _ ?m] exI [of _ ?q]) (simp add: round_pos_def Let_def)
    qed
  qed
  consider "0 < x" | "x = 0" | "x < 0" by linarith
  then show ?thesis
  proof cases
    case 1
    with pos [of x] assms that show ?thesis by (auto simp: rnd_def)
  next
    case 2
    then show ?thesis using that [of 0 0] by simp
  next
    case 3
    with pos [of "- x"] assms obtain m e where
      "round_pos B32 (- x) = of_int m * p2 e" "\<bar>m\<bar> < 2 ^ 24" "-149 \<le> e" "e \<le> 104" by auto
    with 3 that [of "- m" e] show ?thesis by (simp add: rnd_def)
  qed
qed

lemma f32_of_to_bits_rnd:
  assumes "\<bar>x\<bar> \<le> of_int n" and "n \<le> 2 ^ 24"
  shows "f32_of_bits (f32_to_bits (Fin (rnd B32 x))) = Fin (rnd B32 x)"
  using rnd_B32_form [OF assms] f32_of_to_bits_exact by metis

end
