(* ===== verification/Timing.thy ===== *)
theory Timing
  imports F32Bits
begin

text \<open>Timestamps and motion reconstruction of roboprotocol-core (\<open>timestamp.rs\<close>, \<open>interpolation.rs\<close>).  The
  library offers both; neither binary calls them yet.  \<open>f32\<close> fields are bit patterns, \<open>f64\<close> values computed
  binary64 floats.\<close>

section \<open>Timestamps\<close>

text \<open>Differences of timestamps are taken as 64-bit signed integers.\<close>

definition millis_of :: "u64 \<Rightarrow> fl" where
  "millis_of d = fdiv B64 (fof_int B64 (sint d)) (Fin 1000)"

definition compute_rtt_ms :: "u64 \<Rightarrow> u64 \<Rightarrow> u64 \<Rightarrow> u64 \<Rightarrow> fl" where
  "compute_rtt_ms t_send t_receive t_reply_send t_now = millis_of ((t_now - t_send) - (t_reply_send - t_receive))"

definition one_way_delay_ms :: "u64 \<Rightarrow> u64 \<Rightarrow> fl" where
  "one_way_delay_ms t_send t_receive = millis_of (t_receive - t_send)"

definition estimate_clock_offset_us :: "(u64 \<times> u64) list \<Rightarrow> int" where
  "estimate_clock_offset_us samples =
     (if samples = [] then 0
      else let deltas = sort (List.map (\<lambda>(local, remote). sint (local - remote)) samples)
           in deltas ! (length deltas div 2))"

section \<open>Motion reconstruction\<close>

record TimestampedSample =
  ts_capture_us :: u64
  ts_values :: "u32 list"

record MotionBuffer =
  mb_previous :: "TimestampedSample option"
  mb_latest :: "TimestampedSample option"

definition motion_buffer_new :: MotionBuffer where
  "motion_buffer_new = \<lparr>mb_previous = None, mb_latest = None\<rparr>"

definition motion_push :: "MotionBuffer \<Rightarrow> TimestampedSample \<Rightarrow> MotionBuffer" where
  "motion_push b sample = b\<lparr>mb_previous := mb_latest b, mb_latest := Some sample\<rparr>"

definition lerp_one :: "fl \<Rightarrow> u32 \<Rightarrow> u32 \<Rightarrow> u32" where
  "lerp_one t x y =
     (let x = f32_of_bits x; y = f32_of_bits y
      in f32_to_bits (fcast B32 (fadd B64 x (fmul B64 (fsub B64 y x) t))))"

definition lerp :: "u32 list \<Rightarrow> u32 list \<Rightarrow> fl \<Rightarrow> u32 list" where
  "lerp a b t = List.map (\<lambda>(x, y). lerp_one t x y) (zip a b)"

definition reconstruct_at :: "MotionBuffer \<Rightarrow> u64 \<Rightarrow> u64 \<Rightarrow> u32 list option" where
  "reconstruct_at b query_us max_extrapolation_us =
     (case mb_latest b of
        None \<Rightarrow> None
      | Some latest \<Rightarrow>
          let hold = (if query_us < ts_capture_us latest \<or> query_us - ts_capture_us latest \<le> max_extrapolation_us
                      then Some (ts_values latest) else None)
          in case mb_previous b of
               None \<Rightarrow> hold
             | Some prev \<Rightarrow>
                 if \<not> ts_capture_us prev < ts_capture_us latest then hold
                 else
                   let span = fof_int B64 (uint (ts_capture_us latest - ts_capture_us prev))
                   in if query_us \<le> ts_capture_us latest
                      then
                        let ahead = (if query_us \<le> ts_capture_us prev then 0 else query_us - ts_capture_us prev)
                        in Some (lerp (ts_values prev) (ts_values latest)
                             (fclamp (Fin 0) (Fin 1) (fdiv B64 (fof_int B64 (uint ahead)) span)))
                      else
                        let ahead = query_us - ts_capture_us latest
                        in if max_extrapolation_us < ahead then None
                           else Some (lerp (ts_values prev) (ts_values latest)
                             (fadd B64 (Fin 1) (fdiv B64 (fof_int B64 (uint ahead)) span))))"

definition default_interpolation_delay_us :: "u16 \<Rightarrow> u64" where
  "default_interpolation_delay_us control_rate_hz =
     (if control_rate_hz = 0 then 0 else max (1500000 div ucast control_rate_hz) 1)"


section \<open>The median withstands outliers\<close>

lemma sorted_nth_ge:
  assumes "sorted xs" and "i < length xs" and "length (filter (\<lambda>x. x < lo) xs) \<le> i"
  shows "(lo :: int) \<le> xs ! i"
proof (rule ccontr)
  assume "\<not> lo \<le> xs ! i"
  then have "x < lo" if "x \<in> set (take (Suc i) xs)" for x
  proof -
    from that obtain j where "j \<le> i" "x = xs ! j" by (auto simp: in_set_conv_nth less_Suc_eq_le)
    with sorted_nth_mono [OF assms(1), of j i] assms(2) \<open>\<not> lo \<le> xs ! i\<close> show ?thesis by auto
  qed
  then have "filter (\<lambda>x. x < lo) (take (Suc i) xs) = take (Suc i) xs" by (simp add: filter_id_conv)
  then have "Suc i \<le> length (filter (\<lambda>x. x < lo) (take (Suc i) xs @ drop (Suc i) xs))"
    using assms(2) unfolding filter_append length_append by simp
  with assms(3) show False by simp
qed

lemma sorted_nth_le:
  assumes "sorted xs" and "i < length xs" and "length (filter (\<lambda>x. hi < x) xs) < length xs - i"
  shows "xs ! i \<le> (hi :: int)"
proof (rule ccontr)
  assume "\<not> xs ! i \<le> hi"
  then have "hi < x" if "x \<in> set (drop i xs)" for x
  proof -
    from that obtain k where "k < length xs - i" "x = xs ! (i + k)" by (auto simp: in_set_conv_nth)
    then obtain j where "i \<le> j" "j < length xs" "x = xs ! j" by (metis le_add1 less_diff_conv2 add.commute less_imp_le_nat less_diff_conv)
    with sorted_nth_mono [OF assms(1), of i j] \<open>\<not> xs ! i \<le> hi\<close> show ?thesis by auto
  qed
  then have "filter (\<lambda>x. hi < x) (drop i xs) = drop i xs" by (simp add: filter_id_conv)
  then have "length xs - i \<le> length (filter (\<lambda>x. hi < x) (take i xs @ drop i xs))"
    unfolding filter_append length_append by simp
  with assms(3) show False by simp
qed

lemma length_filter_sort: "length (filter P (sort xs)) = length (filter P xs)"
  by (simp add: filter_sort)

lemma length_filter_imp: "(\<And>x. P x \<Longrightarrow> Q x) \<Longrightarrow> length (filter P xs) \<le> length (filter Q xs)"
  by (induction xs) auto

text \<open>The estimated clock offset lies wherever the majority of the samples lies, whatever the others say: if
  fewer than half of the samples' differences are outside an interval, the estimate is in it.\<close>

theorem clock_offset_withstands_outliers:
  assumes "2 * length (filter (\<lambda>(local, remote). sint (local - remote) < lo \<or> hi < sint (local - remote)) samples)
    < length samples"
  shows "lo \<le> estimate_clock_offset_us samples \<and> estimate_clock_offset_us samples \<le> hi"
proof -
  let ?d = "List.map (\<lambda>(local, remote). sint (local - remote)) samples"
  let ?bad = "length (filter (\<lambda>x. x < lo \<or> hi < x) ?d)"
  have bad: "2 * ?bad < length samples"
    using assms by (simp add: filter_map comp_def case_prod_unfold)
  have "length (filter (\<lambda>x. x < lo) ?d) \<le> ?bad" "length (filter (\<lambda>x. hi < x) ?d) \<le> ?bad"
    by (rule length_filter_imp, simp)+
  then have "length (filter (\<lambda>x. x < lo) (sort ?d)) \<le> length samples div 2"
    "length (filter (\<lambda>x. hi < x) (sort ?d)) < length (sort ?d) - length samples div 2"
    using bad by (simp_all add: length_filter_sort)
  moreover have "length samples div 2 < length (sort ?d)" using bad by simp
  ultimately have "lo \<le> sort ?d ! (length samples div 2)" "sort ?d ! (length samples div 2) \<le> hi"
    using sorted_nth_ge [OF sorted_sort] sorted_nth_le [OF sorted_sort] by blast+
  moreover have "samples \<noteq> []" using bad by auto
  ultimately show ?thesis by (simp add: estimate_clock_offset_us_def Let_def)
qed


section \<open>A reconstructed motion stays between its samples\<close>

text \<open>What a field of the standard wire format decodes to: a hundredth of a 16-bit integer, rounded.\<close>

definition decoded_field :: "u32 \<Rightarrow> bool" where
  "decoded_field v \<longleftrightarrow> (\<exists>i. \<bar>i\<bar> \<le> 2 ^ 15 \<and> f32_of_bits v = Fin (rnd B32 (of_int i / 100)))"

lemma rnd_B32_again:
  assumes "\<bar>x\<bar> \<le> of_int n" and "n \<le> 2 ^ 24"
  shows "rnd B32 (rnd B32 x) = rnd B32 x" "rnd B64 (rnd B32 x) = rnd B32 x"
proof -
  obtain m e where m: "rnd B32 x = of_int m * p2 e" "\<bar>m\<bar> < 2 ^ 24" "-149 \<le> e"
    using rnd_B32_form [OF assms] by metis
  have "\<bar>m\<bar> \<le> 2 ^ prec B32" "\<bar>m\<bar> \<le> 2 ^ prec B64" "qmin B32 \<le> e" "qmin B64 \<le> e" using m(2,3) by simp_all
  then show "rnd B32 (rnd B32 x) = rnd B32 x" "rnd B64 (rnd B32 x) = rnd B32 x" unfolding m(1) by (simp_all add: rnd_exact)
qed

lemma grid_pos:
  assumes "0 < i" and "i \<le> 2 ^ 15"
  shows "\<exists>k. round_pos B32 (of_int i / 100) = of_int k * p2 (-30)"
proof -
  let ?x = "of_int i / 100 :: rat"
  have "p2 (-7) \<le> ?x" using assms(1) by (simp add: p2_def field_simps)
  then have "-7 \<le> ilog2 ?x" by (rule ilog2_ge)
  then have q: "-30 \<le> quantum B32 ?x" by (simp add: quantum_def)
  then have "p2 (quantum B32 ?x) = p2 (quantum B32 ?x + 30) * p2 (-30)" by (simp add: p2_add [symmetric])
  also have "p2 (quantum B32 ?x + 30) = of_int (2 ^ nat (quantum B32 ?x + 30))" using q by (simp add: p2_int)
  finally show ?thesis
    by (intro exI [of _ "rne (?x / p2 (quantum B32 ?x)) * 2 ^ nat (quantum B32 ?x + 30)"])
      (simp add: round_pos_def Let_def)
qed

lemma decoded_grid:
  assumes "\<bar>i\<bar> \<le> 2 ^ 15"
  obtains k where "rnd B32 (of_int i / 100) = of_int k * p2 (-30)" and "\<bar>rnd B32 (of_int i / 100)\<bar> \<le> 328"
proof -
  have "\<bar>of_int i / 100 :: rat\<bar> \<le> of_int 328" using assms by (simp flip: of_int_abs)
  then have b: "\<bar>rnd B32 (of_int i / 100)\<bar> \<le> 328" using fround_to_small(2) [of "of_int i / 100" 328 B32] by simp
  consider "0 < i" | "i = 0" | "i < 0" by linarith
  then show ?thesis
  proof cases
    case 1
    with grid_pos [of i] assms b that show ?thesis by (auto simp: rnd_def)
  next
    case 2
    with that [of 0] show ?thesis by simp
  next
    case 3
    with grid_pos [of "- i"] assms obtain k where "round_pos B32 (of_int (- i) / 100) = of_int k * p2 (-30)" by auto
    with 3 b that [of "- k"] show ?thesis by (simp add: rnd_def)
  qed
qed

lemma lerp_between:
  assumes "decoded_field x" and "decoded_field y" and "0 \<le> t" "t \<le> 1"
  obtains a b c where "f32_of_bits x = Fin a" "f32_of_bits y = Fin b" "f32_of_bits (lerp_one (Fin t) x y) = Fin c"
    "min a b \<le> c" "c \<le> max a b" "t = 0 \<longrightarrow> c = a" "t = 1 \<longrightarrow> c = b"
proof -
  obtain i j where i: "\<bar>i\<bar> \<le> 2 ^ 15" "f32_of_bits x = Fin (rnd B32 (of_int i / 100))"
    and j: "\<bar>j\<bar> \<le> 2 ^ 15" "f32_of_bits y = Fin (rnd B32 (of_int j / 100))"
    using assms(1,2) by (auto simp: decoded_field_def)
  let ?a = "rnd B32 (of_int i / 100)" and ?b = "rnd B32 (of_int j / 100)"
  obtain k where k: "?a = of_int k * p2 (-30)" "\<bar>?a\<bar> \<le> 328" using decoded_grid [OF i(1)] .
  obtain l where l: "?b = of_int l * p2 (-30)" "\<bar>?b\<bar> \<le> 328" using decoded_grid [OF j(1)] .
  have idem: "rnd f ?a = ?a" "rnd f ?b = ?b" for f
  proof -
    have "\<bar>of_int i / 100 :: rat\<bar> \<le> of_int 328" "\<bar>of_int j / 100 :: rat\<bar> \<le> of_int 328"
      using i(1) j(1) by (simp_all flip: of_int_abs)
    then show "rnd f ?a = ?a" "rnd f ?b = ?b" using rnd_B32_again [of _ 328] by (cases f; simp)+
  qed
  have d: "?b - ?a = of_int (l - k) * p2 (-30)" by (simp add: k l algebra_simps)
  have "\<bar>?b - ?a\<bar> \<le> 656" using k(2) l(2) by linarith
  then have "\<bar>of_int (l - k) :: rat\<bar> \<le> 656 * 2 ^ 30" unfolding d by (simp add: p2_def abs_mult field_simps)
  then have "\<bar>l - k\<bar> \<le> 656 * 2 ^ 30" by (simp flip: of_int_abs)
  then have diff: "rnd B64 (?b - ?a) = ?b - ?a" unfolding d by (intro rnd_exact) simp_all
  have sub: "fsub B64 (Fin ?b) (Fin ?a) = Fin (?b - ?a)"
    using fround_to_small(1) [of "?b - ?a" 656 B64] \<open>\<bar>?b - ?a\<bar> \<le> 656\<close> diff by (simp add: fsub_def)
  define m where "m = rnd B64 ((?b - ?a) * t)"
  have m: "min 0 (?b - ?a) \<le> m \<and> m \<le> max 0 (?b - ?a)"
  proof (cases "0 \<le> ?b - ?a")
    case True
    then have "(?b - ?a) * t \<le> ?b - ?a" "0 \<le> (?b - ?a) * t" using assms(3,4) by (simp_all add: mult_left_le)
    then show ?thesis using rnd_mono [of "(?b - ?a) * t" "?b - ?a" B64] rnd_nonneg [of "(?b - ?a) * t" B64] diff True
      by (simp add: m_def)
  next
    case False
    then have "(?a - ?b) * t \<le> ?a - ?b" "0 \<le> (?a - ?b) * t" using assms(3,4) by (simp_all add: mult_left_le)
    then have "?b - ?a \<le> (?b - ?a) * t" "(?b - ?a) * t \<le> 0" by (simp_all add: algebra_simps)
    then show ?thesis using rnd_mono [of "?b - ?a" "(?b - ?a) * t" B64] rnd_nonpos [of "(?b - ?a) * t" B64] diff False
      by (simp add: m_def)
  qed
  have "\<bar>(?b - ?a) * t\<bar> \<le> 656 * 1"
    unfolding abs_mult using \<open>\<bar>?b - ?a\<bar> \<le> 656\<close> assms(3,4) by (intro mult_mono) simp_all
  then have mul: "fmul B64 (Fin (?b - ?a)) (Fin t) = Fin m"
    using fround_to_small(1) [of "(?b - ?a) * t" 656 B64] by (simp add: m_def)
  have s: "min ?a ?b \<le> ?a + m" "?a + m \<le> max ?a ?b" using m by auto
  have sb: "\<bar>?a + m\<bar> \<le> 328" using s k(2) l(2) by linarith
  define n where "n = rnd B64 (?a + m)"
  have n: "min ?a ?b \<le> n" "n \<le> max ?a ?b" "\<bar>n\<bar> \<le> 328"
  proof -
    show "min ?a ?b \<le> n" using rnd_mono [OF s(1), of B64] by (auto simp: n_def min_def idem split: if_splits)
    show "n \<le> max ?a ?b" using rnd_mono [OF s(2), of B64] by (auto simp: n_def max_def idem split: if_splits)
    then show "\<bar>n\<bar> \<le> 328" using \<open>min ?a ?b \<le> n\<close> k(2) l(2) by linarith
  qed
  have add: "fadd B64 (Fin ?a) (Fin m) = Fin n"
    using fround_to_small(1) [of "?a + m" 328 B64] sb by (simp add: n_def)
  have "fround_to B32 n = Fin (rnd B32 n)" using fround_to_small(1) [of n 328 B32] n(3) by simp
  then have cast: "f32_of_bits (lerp_one (Fin t) x y) = Fin (rnd B32 n)"
    unfolding lerp_one_def Let_def i(2) j(2) sub mul add fcast.simps
    using f32_of_to_bits_rnd [of n 328] n(3) by (simp del: f32_to_bits.simps)
  have c: "min ?a ?b \<le> rnd B32 n" "rnd B32 n \<le> max ?a ?b"
    using rnd_mono [OF n(1), of B32] rnd_mono [OF n(2), of B32] by (auto simp: min_def max_def idem split: if_splits)
  have "t = 0 \<longrightarrow> rnd B32 n = ?a" by (simp add: n_def m_def idem)
  moreover have "t = 1 \<longrightarrow> rnd B32 n = ?b" by (simp add: n_def m_def diff idem)
  ultimately show ?thesis using that [OF i(2) j(2) cast c] by blast
qed

text \<open>The quotient of two times is a finite float; of equal ones, one.\<close>

lemma time_float:
  assumes "0 \<le> n" and "n < 2 ^ 64"
  obtains r where "fof_int B64 n = Fin r" and "0 \<le> r" and "0 < n \<Longrightarrow> 0 < r"
proof -
  have "(of_int n :: rat) \<le> of_int 1 * p2 64" using assms(2) by (simp add: p2_def of_int_less_iff [symmetric] del: of_int_less_iff)
  then have "rnd B64 (of_int n) \<le> rnd B64 (of_int 1 * p2 64)" by (rule rnd_mono)
  also have "\<dots> = p2 64" using rnd_exact [of 1 B64 64] by simp
  finally have "rnd B64 (of_int n) \<le> p2 64" .
  moreover have "0 \<le> rnd B64 (of_int n)" using assms(1) by (intro rnd_nonneg) simp
  moreover have "p2 64 < p2 (qmax B64 + int (prec B64))" by simp
  ultimately have "fof_int B64 n = Fin (rnd B64 (of_int n))"
    unfolding fof_int_def by (intro fround_to_rnd) linarith
  moreover have "0 < rnd B64 (of_int n)" if "0 < n"
    using rnd_ge_int [of 1 "of_int n" B64] that by simp
  ultimately show ?thesis using that \<open>0 \<le> rnd B64 (of_int n)\<close> by blast
qed

lemma clamped_quotient:
  assumes "0 \<le> a" and "0 < s"
  obtains t where "fclamp (Fin 0) (Fin 1) (fdiv B64 (Fin a) (Fin s)) = Fin t" and "0 \<le> t" and "t \<le> 1"
    and "a = 0 \<Longrightarrow> t = 0" and "a = s \<Longrightarrow> t = 1"
proof -
  have div: "fdiv B64 (Fin a) (Fin s) = fround_to B64 (a / s)" using assms by simp
  show ?thesis
  proof (cases "fround_to B64 (a / s)")
    case (Fin q)
    have "a = s \<Longrightarrow> q = 1" using Fin assms fround_to_of_int [of 1 B64] by simp
    moreover have "a = 0 \<Longrightarrow> q = 0" using Fin by simp
    ultimately show ?thesis using that [of "max 0 (min 1 q)"] unfolding div Fin
      by (auto simp: fclamp_def max_def min_def)
  next
    case PInf
    then have "a \<noteq> 0" "a \<noteq> s" using assms fround_to_of_int [of 1 B64] by auto
    then show ?thesis using that [of 1] unfolding div PInf by (simp add: fclamp_def)
  next
    case NInf
    then have "a \<noteq> 0" "a \<noteq> s" using assms fround_to_of_int [of 1 B64] by auto
    then show ?thesis using that [of 0] unfolding div NInf by (simp add: fclamp_def)
  qed simp
qed

text \<open>Of the \<open>j\<close>-th field of a reconstruction: it lies between the two samples.\<close>

definition field_between :: "u32 \<Rightarrow> u32 \<Rightarrow> u32 \<Rightarrow> bool" where
  "field_between x y v \<longleftrightarrow> (\<exists>a b c. f32_of_bits x = Fin a \<and> f32_of_bits y = Fin b \<and> f32_of_bits v = Fin c
     \<and> min a b \<le> c \<and> c \<le> max a b)"

lemma interpolated:
  assumes "mb_previous b = Some p" and "mb_latest b = Some l" and "ts_capture_us p < ts_capture_us l"
    and "query \<le> ts_capture_us l"
  obtains t where "reconstruct_at b query limit = Some (lerp (ts_values p) (ts_values l) (Fin t))" "0 \<le> t" "t \<le> 1"
    and "query \<le> ts_capture_us p \<Longrightarrow> t = 0" and "query = ts_capture_us l \<Longrightarrow> t = 1"
proof -
  let ?span = "uint (ts_capture_us l - ts_capture_us p)"
  let ?ahead = "uint (if query \<le> ts_capture_us p then 0 else query - ts_capture_us p)"
  have "ts_capture_us l - ts_capture_us p \<noteq> 0" using assms(3) by auto
  then have "0 < ?span" by (metis uint_0_iff uint_ge_0 order_le_less)
  moreover have "?span < 2 ^ 64" "?ahead < 2 ^ 64" by (rule order_less_le_trans [OF uint_lt2p]; simp)+
  ultimately obtain s a where f: "fof_int B64 ?span = Fin s" "0 < s" "fof_int B64 ?ahead = Fin a" "0 \<le> a"
    by (metis time_float uint_ge_0)
  obtain t where t: "fclamp (Fin 0) (Fin 1) (fdiv B64 (Fin a) (Fin s)) = Fin t" "0 \<le> t" "t \<le> 1"
      "a = 0 \<Longrightarrow> t = 0" "a = s \<Longrightarrow> t = 1"
    using clamped_quotient [OF f(4,2)] by blast
  have zero: "query \<le> ts_capture_us p \<Longrightarrow> a = 0" using f(3) by (simp add: fof_int_def)
  have "\<not> ts_capture_us l \<le> ts_capture_us p" using assms(3) by simp
  then have one: "query = ts_capture_us l \<Longrightarrow> a = s" using f(1,3) by simp
  show ?thesis
  proof (rule that [of t])
    show "reconstruct_at b query limit = Some (lerp (ts_values p) (ts_values l) (Fin t))"
      using assms f t(1) by (simp add: reconstruct_at_def Let_def del: fdiv.simps)
  qed (use t zero one in auto)
qed

text \<open>Arbitrary floats are not reconstructed so: of two samples far apart the later one is lost in the
  difference, and at its own time the answer is zero instead of one.\<close>

lemma far_floats_miss_the_sample:
  "reconstruct_at (motion_push (motion_push motion_buffer_new \<lparr>ts_capture_us = 1000, ts_values = [0x7149F2CA]\<rparr>)
     \<lparr>ts_capture_us = 2000, ts_values = [0x3F800000]\<rparr>) 2000 0 = Some [0]"
  by code_simp



end
