(* ===== verification/Safety.thy ===== *)
theory Safety
  imports Floats
begin

text \<open>
  The safety core of \<open>roboprotocol-core/src/safety\<close> and its composition in
  \<open>robot-edge/src/safety_task.rs\<close>: the task-class thresholds (\<open>tiers.rs\<close>), the RTT-driven
  tier state machine with its resume interlock (\<open>state_machine.rs\<close>), the heartbeat watchdog
  (\<open>watchdog.rs\<close>), the control-source arbitration ladder (\<open>arbitration.rs\<close>) and the
  per-tick decision that puts them together.  Latencies are binary64 values, so the
  thresholds are compared exactly as the code compares them, NaN included.
\<close>

section \<open>Tiers\<close>

datatype TaskClass = ClassB | ClassC | ClassD | ClassE

record TierThresholdsMs =
  tier0_max :: fl
  tier1_max :: fl
  tier2_max :: fl
  tier3_max :: fl

fun thresholds :: "TaskClass \<Rightarrow> TierThresholdsMs" where
  "thresholds ClassB = \<lparr>tier0_max = Fin 40, tier1_max = Fin 80, tier2_max = Fin 120, tier3_max = Fin 150\<rparr>"
| "thresholds ClassC = \<lparr>tier0_max = Fin 80, tier1_max = Fin 150, tier2_max = Fin 220, tier3_max = Fin 300\<rparr>"
| "thresholds ClassD = \<lparr>tier0_max = Fin 100, tier1_max = Fin 250, tier2_max = Fin 400, tier3_max = Fin 500\<rparr>"
| "thresholds ClassE = \<lparr>tier0_max = Fin 200, tier1_max = Fin 400, tier2_max = Fin 700, tier3_max = Fin 1000\<rparr>"

fun watchdog_blackout_ms :: "TaskClass \<Rightarrow> fl" where
  "watchdog_blackout_ms ClassB = Fin 200"
| "watchdog_blackout_ms ClassC = Fin 300"
| "watchdog_blackout_ms ClassD = Fin 400"
| "watchdog_blackout_ms ClassE = Fin 500"

definition RESUME_HYSTERESIS_MS :: fl where
  "RESUME_HYSTERESIS_MS = Fin 20"

definition RESUME_STABILITY_WINDOW_S :: fl where
  "RESUME_STABILITY_WINDOW_S = Fin 2"

definition TIER_NAMES :: "string list" where
  "TIER_NAMES = [''NOMINAL'', ''DEGRADED'', ''CAUTIONARY'', ''CRITICAL'', ''SUSPENDED'']"

definition tier_for_latency :: "TaskClass \<Rightarrow> fl \<Rightarrow> nat" where
  "tier_for_latency task_class latency_ms =
     (let th = thresholds task_class
      in if flt latency_ms (tier0_max th) then 0
         else if flt latency_ms (tier1_max th) then 1
         else if flt latency_ms (tier2_max th) then 2
         else if flt latency_ms (tier3_max th) then 3
         else 4)"

section \<open>The tier state machine\<close>

datatype TransitionTrigger = TrigInit | TrigLatency | TrigResume

record TierTransition =
  tr_at :: instant
  tr_old_tier :: nat
  tr_new_tier :: nat
  tr_trigger :: TransitionTrigger

record SafetyStateMachine =
  sm_task_class :: TaskClass
  sm_tier :: nat
  sm_suspended :: bool
  sm_deadman_reset_requested :: bool
  sm_stable_since :: "instant option"
  sm_transitions :: "TierTransition list"

definition sm_new :: "TaskClass \<Rightarrow> instant \<Rightarrow> SafetyStateMachine" where
  "sm_new task_class now =
     \<lparr>sm_task_class = task_class, sm_tier = 0, sm_suspended = False,
      sm_deadman_reset_requested = False, sm_stable_since = None,
      sm_transitions = [\<lparr>tr_at = now, tr_old_tier = 0, tr_new_tier = 0, tr_trigger = TrigInit\<rparr>]\<rparr>"

definition request_deadman_reset :: "SafetyStateMachine \<Rightarrow> SafetyStateMachine" where
  "request_deadman_reset s = s\<lparr>sm_deadman_reset_requested := True\<rparr>"

definition transition ::
  "SafetyStateMachine \<Rightarrow> nat \<Rightarrow> TransitionTrigger \<Rightarrow> instant \<Rightarrow> SafetyStateMachine" where
  "transition s new_tier trigger now =
     s\<lparr>sm_tier := new_tier,
       sm_transitions := sm_transitions s @
         [\<lparr>tr_at = now, tr_old_tier = sm_tier s, tr_new_tier = new_tier, tr_trigger = trigger\<rparr>]\<rparr>"

definition resume_ceiling :: "TaskClass \<Rightarrow> fl" where
  "resume_ceiling c = fsub B64 (tier0_max (thresholds c)) RESUME_HYSTERESIS_MS"

definition evaluate_resume :: "SafetyStateMachine \<Rightarrow> fl \<Rightarrow> instant \<Rightarrow> SafetyStateMachine" where
  "evaluate_resume s rtt_ms now =
     (if fge rtt_ms (resume_ceiling (sm_task_class s)) then s\<lparr>sm_stable_since := None\<rparr>
      else
        let stable_since = (case sm_stable_since s of None \<Rightarrow> now | Some t \<Rightarrow> t);
            s = s\<lparr>sm_stable_since := Some stable_since\<rparr>;
            stable_for = as_secs_f64 (duration_since now stable_since)
        in if fge stable_for RESUME_STABILITY_WINDOW_S \<and> sm_deadman_reset_requested s
           then transition
                  (s\<lparr>sm_suspended := False, sm_deadman_reset_requested := False,
                     sm_stable_since := None\<rparr>) 0 TrigResume now
           else s)"

definition on_rtt_sample :: "SafetyStateMachine \<Rightarrow> fl \<Rightarrow> instant \<Rightarrow> SafetyStateMachine" where
  "on_rtt_sample s rtt_ms now =
     (if sm_suspended s then evaluate_resume s rtt_ms now
      else
        let new_tier = tier_for_latency (sm_task_class s) rtt_ms;
            s = (if new_tier \<noteq> sm_tier s then transition s new_tier TrigLatency now else s)
        in if new_tier = 4 then s\<lparr>sm_suspended := True, sm_stable_since := None\<rparr> else s)"

lemmas sm_defs [step_simps] =
  sm_new_def request_deadman_reset_def transition_def evaluate_resume_def on_rtt_sample_def

section \<open>The watchdog\<close>

record WatchdogTrigger =
  wt_at :: instant
  wt_blackout_ms :: fl

record Watchdog =
  wd_threshold_ms :: fl
  wd_last_heartbeat :: instant
  wd_triggered :: bool
  wd_trigger_events :: "WatchdogTrigger list"

definition wd_with_threshold_ms :: "fl \<Rightarrow> instant \<Rightarrow> Watchdog" where
  "wd_with_threshold_ms threshold_ms now =
     \<lparr>wd_threshold_ms = threshold_ms, wd_last_heartbeat = now, wd_triggered = False,
      wd_trigger_events = []\<rparr>"

definition wd_new :: "TaskClass \<Rightarrow> instant \<Rightarrow> Watchdog" where
  "wd_new task_class now = wd_with_threshold_ms (watchdog_blackout_ms task_class) now"

definition wd_heartbeat :: "Watchdog \<Rightarrow> instant \<Rightarrow> Watchdog" where
  "wd_heartbeat w now = w\<lparr>wd_last_heartbeat := now\<rparr>"

definition blackout_ms :: "duration \<Rightarrow> fl" where
  "blackout_ms d = fmul B64 (as_secs_f64 d) (Fin 1000)"

definition wd_check :: "Watchdog \<Rightarrow> instant \<Rightarrow> Watchdog \<times> bool" where
  "wd_check w now =
     (if wd_triggered w then (w, False)
      else
        let b = blackout_ms (duration_since now (wd_last_heartbeat w))
        in if fge b (wd_threshold_ms w)
           then (w\<lparr>wd_triggered := True,
                   wd_trigger_events := wd_trigger_events w @ [\<lparr>wt_at = now, wt_blackout_ms = b\<rparr>]\<rparr>, True)
           else (w, False))"

definition wd_clear :: "Watchdog \<Rightarrow> instant \<Rightarrow> Watchdog" where
  "wd_clear w now = w\<lparr>wd_triggered := False, wd_last_heartbeat := now\<rparr>"

lemmas wd_defs [step_simps] =
  wd_with_threshold_ms_def wd_new_def wd_heartbeat_def wd_check_def wd_clear_def

section \<open>Arbitration\<close>

datatype ControlSource =
  EStop | EmergencySafeParking | ActiveImpedanceHold | FullTeleoperation | SemiAutonomous

record ArbitrationInputs =
  ai_estop_latched :: bool
  ai_safe_parking_requested :: bool
  ai_suspended :: bool
  ai_resume_dwell_exceeded :: bool
  ai_teleop_ready :: bool
  ai_autonomy_goal_asserted :: bool

definition arbitrate :: "ArbitrationInputs \<Rightarrow> ControlSource" where
  "arbitrate inputs =
     (if ai_estop_latched inputs then EStop
      else if ai_safe_parking_requested inputs \<or> (ai_suspended inputs \<and> ai_resume_dwell_exceeded inputs)
        then EmergencySafeParking
      else if ai_suspended inputs then ActiveImpedanceHold
      else if ai_teleop_ready inputs then FullTeleoperation
      else if ai_autonomy_goal_asserted inputs then SemiAutonomous
      else ActiveImpedanceHold)"

section \<open>The per-tick decision of robot-edge\<close>

record SafetyTask =
  st_machine :: SafetyStateMachine
  st_watchdog :: Watchdog
  st_explicit_estop :: bool
  st_deadman_held :: bool
  st_command_fresh :: bool

definition task_with_watchdog_threshold_ms :: "TaskClass \<Rightarrow> fl \<Rightarrow> instant \<Rightarrow> SafetyTask" where
  "task_with_watchdog_threshold_ms task_class threshold now =
     \<lparr>st_machine = sm_new task_class now, st_watchdog = wd_with_threshold_ms threshold now,
      st_explicit_estop = False, st_deadman_held = False, st_command_fresh = False\<rparr>"

definition task_new :: "TaskClass \<Rightarrow> instant \<Rightarrow> SafetyTask" where
  "task_new task_class now =
     task_with_watchdog_threshold_ms task_class (watchdog_blackout_ms task_class) now"

definition on_channel_b_activity :: "SafetyTask \<Rightarrow> fl option \<Rightarrow> instant \<Rightarrow> SafetyTask" where
  "on_channel_b_activity t rtt_ms now =
     (let t = t\<lparr>st_watchdog := wd_heartbeat (st_watchdog t) now\<rparr>
      in case rtt_ms of
           None \<Rightarrow> t
         | Some rtt \<Rightarrow> t\<lparr>st_machine := on_rtt_sample (st_machine t) rtt now\<rparr>)"

definition trigger_explicit_estop :: "SafetyTask \<Rightarrow> SafetyTask" where
  "trigger_explicit_estop t = t\<lparr>st_explicit_estop := True\<rparr>"

definition clear_explicit_estop :: "SafetyTask \<Rightarrow> instant \<Rightarrow> SafetyTask" where
  "clear_explicit_estop t now =
     t\<lparr>st_explicit_estop := False, st_watchdog := wd_clear (st_watchdog t) now\<rparr>"

definition is_estopped :: "SafetyTask \<Rightarrow> bool" where
  "is_estopped t = (st_explicit_estop t \<or> wd_triggered (st_watchdog t))"

definition task_tick :: "SafetyTask \<Rightarrow> instant \<Rightarrow> bool \<Rightarrow> SafetyTask \<times> ControlSource" where
  "task_tick t now autonomy_goal_asserted =
     (let t = t\<lparr>st_watchdog := fst (wd_check (st_watchdog t) now)\<rparr>
      in (t, arbitrate
           \<lparr>ai_estop_latched = is_estopped t, ai_safe_parking_requested = False,
            ai_suspended = sm_suspended (st_machine t), ai_resume_dwell_exceeded = False,
            ai_teleop_ready = (st_deadman_held t \<and> st_command_fresh t \<and>
              \<not> sm_suspended (st_machine t) \<and> sm_tier (st_machine t) \<le> 3),
            ai_autonomy_goal_asserted = autonomy_goal_asserted\<rparr>))"

lemmas task_defs [step_simps] =
  task_with_watchdog_threshold_ms_def task_new_def on_channel_b_activity_def
  trigger_explicit_estop_def clear_explicit_estop_def task_tick_def

section \<open>Exact time thresholds\<close>

text \<open>The class blackout thresholds in nanoseconds, the integers the float comparison is shown
  to implement.\<close>

fun blackout_ns :: "TaskClass \<Rightarrow> duration" where
  "blackout_ns ClassB = millis 200"
| "blackout_ns ClassC = millis 300"
| "blackout_ns ClassD = millis 400"
| "blackout_ns ClassE = millis 500"

lemma blackout_mono:
  assumes "d \<le> d'" and "d div 1000000000 < 2 ^ 53"
  shows "fle (blackout_ms d) (blackout_ms d')"
  unfolding blackout_ms_def
  using as_secs_f64_nonneg as_secs_f64_mono [OF assms] by (intro fmul_mono) auto

lemma blackout_threshold:
  assumes "fle c (blackout_ms t)" and "flt (blackout_ms (t - 1)) c"
    and "0 < t" and "t div 1000000000 < 2 ^ 53"
  shows "fge (blackout_ms d) c \<longleftrightarrow> t \<le> d"
proof
  assume "t \<le> d"
  then show "fge (blackout_ms d) c"
    using blackout_mono [of t d] assms by (auto simp: fge_def intro: fle_trans)
next
  assume ge: "fge (blackout_ms d) c"
  show "t \<le> d"
  proof (rule ccontr)
    assume "\<not> t \<le> d"
    moreover from this have "d div 1000000000 < 2 ^ 53"
      using assms(4) div_le_mono [of d t 1000000000] by linarith
    ultimately have "flt (blackout_ms d) c"
      using blackout_mono [of d "t - 1"] assms(2,3) fle_flt_trans [of "blackout_ms d"] by force
    with ge show False by (simp add: fge_def flt_not_fle)
  qed
qed

lemma blackout_at_threshold:
  "fle (watchdog_blackout_ms c) (blackout_ms (blackout_ns c))"
  by (cases c; simp only: watchdog_blackout_ms.simps blackout_ns.simps; code_simp)

lemma blackout_before_threshold:
  "flt (blackout_ms (blackout_ns c - 1)) (watchdog_blackout_ms c)"
  by (cases c; simp only: watchdog_blackout_ms.simps blackout_ns.simps; code_simp)

lemma blackout_iff: "fge (blackout_ms d) (watchdog_blackout_ms c) \<longleftrightarrow> blackout_ns c \<le> d"
  by (rule blackout_threshold [OF blackout_at_threshold blackout_before_threshold];
      cases c; simp add: millis_def)

lemma stability_window_iff:
  "fge (as_secs_f64 d) RESUME_STABILITY_WINDOW_S \<longleftrightarrow> secs 2 \<le> d"
proof (rule as_secs_threshold)
  show "fle RESUME_STABILITY_WINDOW_S (as_secs_f64 (secs 2))" by code_simp
  show "flt (as_secs_f64 (secs 2 - 1)) RESUME_STABILITY_WINDOW_S" by code_simp
qed (simp_all add: secs_def)

text \<open>Polled with its class threshold, the watchdog trips exactly when it is not already
  tripped and at least the class's blackout time in whole nanoseconds has passed since the last
  heartbeat: the two roundings of the float computation never move the threshold.  Tripping
  latches the flag and logs one event; otherwise the state is unchanged.\<close>

theorem watchdog_trips_exactly_at_blackout:
  "wd_check (w\<lparr>wd_threshold_ms := watchdog_blackout_ms c\<rparr>) now =
     (let w = w\<lparr>wd_threshold_ms := watchdog_blackout_ms c\<rparr>; d = now - wd_last_heartbeat w
      in if \<not> wd_triggered w \<and> blackout_ns c \<le> d
         then (w\<lparr>wd_triggered := True,
                 wd_trigger_events := wd_trigger_events w @
                   [\<lparr>wt_at = now, wt_blackout_ms = blackout_ms d\<rparr>]\<rparr>, True)
         else (w, False))"
  by (simp add: wd_check_def blackout_iff duration_since_def Let_def)

section \<open>Tiers are monotone in the latency\<close>

lemma thresholds_ordered:
  "\<exists>a b c d. thresholds k = \<lparr>tier0_max = Fin a, tier1_max = Fin b, tier2_max = Fin c, tier3_max = Fin d\<rparr>
     \<and> 0 < a \<and> a < b \<and> b < c \<and> c < d"
  by (cases k) simp_all

text \<open>A worse latency never lowers the tier, every tier is at most 4, a NaN latency counts as
  the worst, and tier 4 is reached exactly when the latency is not below the class's top
  threshold.\<close>

theorem tier_for_latency_monotone:
  "(fle a b \<longrightarrow> tier_for_latency k a \<le> tier_for_latency k b) \<and> tier_for_latency k a \<le> 4
   \<and> tier_for_latency k NaN = 4
   \<and> (tier_for_latency k a = 4 \<longleftrightarrow> \<not> flt a (tier3_max (thresholds k)))"
proof -
  obtain t0 t1 t2 t3 where th:
    "thresholds k = \<lparr>tier0_max = Fin t0, tier1_max = Fin t1, tier2_max = Fin t2, tier3_max = Fin t3\<rparr>"
    and ord: "t0 < t1" "t1 < t2" "t2 < t3"
    using thresholds_ordered [of k] by auto
  show ?thesis
    using ord by (cases a; cases b) (auto simp: tier_for_latency_def th Let_def fle_def)
qed

theorem tier_for_latency_monotone_witness:
  "fle (Fin 99) (Fin 100) \<and> tier_for_latency ClassD (Fin 99) \<le> tier_for_latency ClassD (Fin 100)"
  using tier_for_latency_monotone [of "Fin 99" "Fin 100" ClassD] by simp

section \<open>Runs of the state machine\<close>

datatype sm_event = Rtt fl instant | DeadmanReset

fun sm_step :: "SafetyStateMachine \<Rightarrow> sm_event \<Rightarrow> SafetyStateMachine" where
  "sm_step s (Rtt r t) = on_rtt_sample s r t"
| "sm_step s DeadmanReset = request_deadman_reset s"

definition sm_run :: "TaskClass \<Rightarrow> instant \<Rightarrow> sm_event list \<Rightarrow> SafetyStateMachine" where
  "sm_run c t0 evs = foldl sm_step (sm_new c t0) evs"

lemma sm_run_snoc: "sm_run c t0 (evs @ [e]) = sm_step (sm_run c t0 evs) e"
  by (simp add: sm_run_def)

lemma sm_step_class [simp]: "sm_task_class (sm_step s e) = sm_task_class s"
  by (cases e) (auto simp: sm_defs Let_def)

lemma sm_run_class [simp]: "sm_task_class (sm_run c t0 evs) = c"
  by (induction evs rule: rev_induct) (simp_all add: sm_run_snoc, simp add: sm_run_def sm_new_def)

text \<open>A transition log is well formed when each entry starts at the tier the one before left.\<close>

fun log_from :: "nat \<Rightarrow> TierTransition list \<Rightarrow> nat \<Rightarrow> bool" where
  "log_from k [] t = (k = t)"
| "log_from k (x # xs) t = (tr_old_tier x = k \<and> log_from (tr_new_tier x) xs t)"

lemma log_from_snoc:
  "log_from k (xs @ [x]) t \<longleftrightarrow> log_from k xs (tr_old_tier x) \<and> tr_new_tier x = t"
  by (induction xs arbitrary: k) auto

definition sm_inv :: "SafetyStateMachine \<Rightarrow> bool" where
  "sm_inv s \<longleftrightarrow> sm_tier s \<le> 4 \<and> (sm_suspended s \<longleftrightarrow> sm_tier s = 4)
     \<and> log_from 0 (sm_transitions s) (sm_tier s)
     \<and> (sm_stable_since s \<noteq> None \<longrightarrow> sm_suspended s)"

lemma sm_inv_new: "sm_inv (sm_new c t)"
  by (simp add: sm_inv_def sm_new_def)

lemma tier_le_4: "tier_for_latency k a \<le> 4"
  by (simp add: tier_for_latency_def Let_def)

lemma sm_inv_step: "sm_inv s \<Longrightarrow> sm_inv (sm_step s e)"
  using tier_le_4 [of "sm_task_class s"]
  by (cases e) (auto simp: sm_inv_def sm_defs Let_def log_from_snoc split: option.splits)

lemma sm_inv_run: "sm_inv (sm_run c t0 evs)"
proof (induction evs rule: rev_induct)
  case Nil
  then show ?case by (simp add: sm_run_def sm_inv_new)
next
  case (snoc e evs)
  then show ?case by (simp add: sm_run_snoc sm_inv_step)
qed

text \<open>In every run the tier stays within 0 to 4, the machine is suspended exactly in tier 4,
  the transition log is an unbroken chain from tier 0 to the current tier, and the stability
  clock only runs while suspended.\<close>

theorem tier_machine_invariant:
  "sm_tier (sm_run c t0 evs) \<le> 4
   \<and> (sm_suspended (sm_run c t0 evs) \<longleftrightarrow> sm_tier (sm_run c t0 evs) = 4)
   \<and> log_from 0 (sm_transitions (sm_run c t0 evs)) (sm_tier (sm_run c t0 evs))
   \<and> (sm_suspended (sm_run c t0 evs) \<or> sm_stable_since (sm_run c t0 evs) = None)"
  using sm_inv_run [of c t0 evs] by (auto simp: sm_inv_def)

subsection \<open>The resume interlock\<close>

definition recovered :: "TaskClass \<Rightarrow> sm_event \<Rightarrow> bool" where
  "recovered c e = (case e of Rtt r _ \<Rightarrow> \<not> fge r (resume_ceiling c) | DeadmanReset \<Rightarrow> True)"

text \<open>A sample that ends a suspension, and a reset that no such sample has used since.\<close>

definition resumes :: "TaskClass \<Rightarrow> instant \<Rightarrow> sm_event list \<Rightarrow> sm_event \<Rightarrow> bool" where
  "resumes c t0 evs e \<longleftrightarrow> sm_suspended (sm_run c t0 evs) \<and> \<not> sm_suspended (sm_run c t0 (evs @ [e]))"

definition unused_reset :: "TaskClass \<Rightarrow> instant \<Rightarrow> sm_event list \<Rightarrow> bool" where
  "unused_reset c t0 evs \<longleftrightarrow>
     (\<exists>pre mid. evs = pre @ DeadmanReset # mid
        \<and> (\<forall>m1 x m2. mid = m1 @ x # m2 \<longrightarrow> \<not> resumes c t0 (pre @ DeadmanReset # m1) x))"

text \<open>Samples from one on while suspended, none of them at or above the ceiling.\<close>

definition stable_from :: "TaskClass \<Rightarrow> instant \<Rightarrow> sm_event list \<Rightarrow> instant \<Rightarrow> bool" where
  "stable_from c t0 evs t1 \<longleftrightarrow>
     (\<exists>pre r mid. evs = pre @ Rtt r t1 # mid \<and> sm_suspended (sm_run c t0 pre)
        \<and> list_all (recovered c) (Rtt r t1 # mid))"

lemma unused_reset_new: "unused_reset c t0 (evs @ [DeadmanReset])"
  unfolding unused_reset_def by (rule exI [of _ evs], rule exI [of _ "[]"]) simp

lemma unused_reset_snoc:
  assumes "unused_reset c t0 evs" and "\<not> resumes c t0 evs e"
  shows "unused_reset c t0 (evs @ [e])"
proof -
  obtain pre mid where p: "evs = pre @ DeadmanReset # mid"
    and q: "\<forall>m1 x m2. mid = m1 @ x # m2 \<longrightarrow> \<not> resumes c t0 (pre @ DeadmanReset # m1) x"
    using assms(1) unfolding unused_reset_def by blast
  have "\<not> resumes c t0 (pre @ DeadmanReset # m1) x" if "mid @ [e] = m1 @ x # m2" for m1 x m2
    using that q assms(2) p by (cases m2 rule: rev_cases) auto
  then show ?thesis unfolding unused_reset_def
    by (intro exI [of _ pre] exI [of _ "mid @ [e]"]) (simp add: p)
qed

lemma stable_from_snoc:
  assumes "stable_from c t0 evs t1" and "recovered c e"
  shows "stable_from c t0 (evs @ [e]) t1"
proof -
  obtain pre r mid where "evs = pre @ Rtt r t1 # mid" "sm_suspended (sm_run c t0 pre)" "list_all (recovered c) (Rtt r t1 # mid)"
    using assms(1) unfolding stable_from_def by blast
  with assms(2) show ?thesis unfolding stable_from_def
    by (intro exI [of _ pre] exI [of _ r] exI [of _ "mid @ [e]"]) simp
qed

lemma stable_from_new: "sm_suspended (sm_run c t0 evs) \<Longrightarrow> recovered c (Rtt r t) \<Longrightarrow> stable_from c t0 (evs @ [Rtt r t]) t"
  unfolding stable_from_def by (rule exI [of _ evs], rule exI [of _ r], rule exI [of _ "[]"]) simp

definition resume_inv :: "TaskClass \<Rightarrow> instant \<Rightarrow> sm_event list \<Rightarrow> bool" where
  "resume_inv c t0 evs \<longleftrightarrow> (let s = sm_run c t0 evs in
     (sm_deadman_reset_requested s \<longrightarrow> unused_reset c t0 evs)
     \<and> (\<forall>t1. sm_stable_since s = Some t1 \<longrightarrow> stable_from c t0 evs t1))"

lemma reset_flag_step:
  assumes "sm_deadman_reset_requested (sm_step s e)"
  shows "e = DeadmanReset \<or> sm_deadman_reset_requested s \<and> \<not> (sm_suspended s \<and> \<not> sm_suspended (sm_step s e))"
  using assms by (cases e) (auto simp: sm_defs Let_def split: if_splits)

lemma stable_since_step:
  assumes "sm_stable_since (sm_step s e) = Some t1" and "sm_inv s"
  shows "recovered (sm_task_class s) e
    \<and> (sm_stable_since s = Some t1 \<or> (\<exists>r. e = Rtt r t1 \<and> sm_suspended s))"
  using assms by (cases e) (auto simp: sm_defs sm_inv_def recovered_def Let_def split: if_splits option.splits)

lemma resume_inv_run: "resume_inv c t0 evs"
proof (induction evs rule: rev_induct)
  case Nil
  show ?case by (simp add: resume_inv_def sm_run_def sm_new_def)
next
  case (snoc e evs)
  have "unused_reset c t0 (evs @ [e])" if "sm_deadman_reset_requested (sm_run c t0 (evs @ [e]))"
    using reset_flag_step [of "sm_run c t0 evs" e] that snoc unused_reset_new unused_reset_snoc [of c t0 evs e]
    by (auto simp: sm_run_snoc resume_inv_def resumes_def)
  moreover have "stable_from c t0 (evs @ [e]) t1" if "sm_stable_since (sm_run c t0 (evs @ [e])) = Some t1" for t1
    using stable_since_step [of "sm_run c t0 evs" e t1] that snoc sm_inv_run stable_from_snoc stable_from_new
    by (auto simp: sm_run_snoc resume_inv_def)
  ultimately show ?case by (simp add: resume_inv_def)
qed


text \<open>A deadman reset requested before the suspension is not forgotten.  One request made
  while the session is still nominal, then a latency spike into SUSPENDED, then two recovered
  samples two seconds apart bring the machine back to tier 0 with no further operator act.\<close>

theorem early_reset_still_resumes:
  assumes "\<not> flt bad (tier3_max (thresholds c))"
    and "\<not> fge good (resume_ceiling c)" and "\<not> fge good' (resume_ceiling c)"
    and "secs 2 \<le> t3 - t2"
  shows "sm_suspended (sm_run c t0 [DeadmanReset, Rtt bad t1])
    \<and> sm_tier (sm_run c t0 [DeadmanReset, Rtt bad t1, Rtt good t2, Rtt good' t3]) = 0"
proof -
  have four: "tier_for_latency c bad = 4"
    using assms(1) thresholds_ordered [of c]
    by (cases bad) (auto simp: tier_for_latency_def Let_def)
  have "\<not> fge (as_secs_f64 0) RESUME_STABILITY_WINDOW_S"
    using stability_window_iff [of 0] by (simp add: secs_def)
  moreover have "fge (as_secs_f64 (t3 - t2)) RESUME_STABILITY_WINDOW_S"
    using stability_window_iff [of "t3 - t2"] assms(4) by simp
  ultimately show ?thesis
    using four assms(2,3) by (simp add: sm_run_def sm_defs Let_def duration_since_def)
qed

theorem early_reset_still_resumes_witness:
  "sm_tier (sm_run ClassD 0 [DeadmanReset, Rtt (Fin 600) 1, Rtt (Fin 10) 2, Rtt (Fin 10) 2000000002]) = 0"
proof -
  have "\<not> flt (Fin 600) (tier3_max (thresholds ClassD))" by simp
  moreover have "\<not> fge (Fin 10) (resume_ceiling ClassD)" by code_simp
  moreover have "secs 2 \<le> 2000000002 - 2" by (simp add: secs_def)
  ultimately show ?thesis
    using early_reset_still_resumes [of "Fin 600" ClassD "Fin 10" "Fin 10" 2000000002 2 0 1] by blast
qed

section \<open>The arbitration ladder\<close>

text \<open>The ladder of the design document as data: the control sources in priority order, each with
  the condition that admits it, and the fail-safe hold at the bottom.\<close>

definition ladder :: "(ControlSource \<times> (ArbitrationInputs \<Rightarrow> bool)) list" where
  "ladder =
     [(EStop, ai_estop_latched),
      (EmergencySafeParking,
         \<lambda>i. ai_safe_parking_requested i \<or> (ai_suspended i \<and> ai_resume_dwell_exceeded i)),
      (ActiveImpedanceHold, ai_suspended),
      (FullTeleoperation, ai_teleop_ready),
      (SemiAutonomous, ai_autonomy_goal_asserted),
      (ActiveImpedanceHold, \<lambda>_. True)]"

text \<open>For every one of the input combinations, arbitration returns the first source of the
  ladder whose condition holds: strict priority, no blending, and never an undefined result.\<close>

theorem arbitrate_is_first_admitted:
  "arbitrate i = fst (hd (filter (\<lambda>(_, admits). admits i) ladder))"
  by (simp add: arbitrate_def ladder_def)

section \<open>Runs of the safety task\<close>

datatype task_event =
  Activity "fl option" instant | ExplicitEstop | ClearEstop instant | Poll instant bool
  | CommandSeen | ResetRequest

fun task_step :: "SafetyTask \<Rightarrow> task_event \<Rightarrow> SafetyTask" where
  "task_step t (Activity r now) = on_channel_b_activity t r now"
| "task_step t ExplicitEstop = trigger_explicit_estop t"
| "task_step t (ClearEstop now) = clear_explicit_estop t now"
| "task_step t (Poll now a) = fst (task_tick t now a)"
| "task_step t CommandSeen = t\<lparr>st_deadman_held := True, st_command_fresh := True\<rparr>"
| "task_step t ResetRequest = t\<lparr>st_machine := request_deadman_reset (st_machine t)\<rparr>"

definition task_run :: "SafetyTask \<Rightarrow> task_event list \<Rightarrow> SafetyTask" where
  "task_run t evs = foldl task_step t evs"

lemma task_run_Nil [simp]: "task_run t [] = t"
  by (simp add: task_run_def)

lemma task_run_Cons [simp]: "task_run t (e # evs) = task_run (task_step t e) evs"
  by (simp add: task_run_def)

lemma task_tick_source:
  "snd (task_tick t now a) =
     (let t' = fst (task_tick t now a)
      in if is_estopped t' then EStop
         else if sm_suspended (st_machine t') then ActiveImpedanceHold
         else if st_deadman_held t' \<and> st_command_fresh t' \<and> sm_tier (st_machine t') \<le> 3
           then FullTeleoperation
         else if a then SemiAutonomous else ActiveImpedanceHold)"
  by (simp add: task_tick_def arbitrate_def Let_def)

lemma task_tick_frame [simp]:
  "st_machine (fst (task_tick t now a)) = st_machine t"
  "st_deadman_held (fst (task_tick t now a)) = st_deadman_held t"
  "st_command_fresh (fst (task_tick t now a)) = st_command_fresh t"
  by (simp_all add: task_tick_def Let_def)

lemma wd_check_keeps: "wd_triggered w \<Longrightarrow> wd_triggered (fst (wd_check w now))"
  by (simp add: wd_check_def)

lemma estopped_step: "is_estopped t \<Longrightarrow> (\<forall>now. e \<noteq> ClearEstop now) \<Longrightarrow> is_estopped (task_step t e)"
  by (cases e)
    (auto simp: is_estopped_def task_defs wd_heartbeat_def wd_check_keeps Let_def split: option.splits)

lemma estopped_run:
  "is_estopped t \<Longrightarrow> (\<forall>now. ClearEstop now \<notin> set evs) \<Longrightarrow> is_estopped (task_run t evs)"
proof (induction evs arbitrary: t)
  case (Cons e evs)
  then have "is_estopped (task_step t e)" by (intro estopped_step) auto
  with Cons show ?case by simp
qed simp

text \<open>E-Stop is latched.  From a state that is E-stopped, whether by an explicit trigger or by
  the watchdog, every tick after any sequence of heartbeats, RTT samples, commands, ticks and
  reset requests still arbitrates to E-Stop; only an explicit clear can end it.\<close>

theorem estop_latched_until_clear:
  assumes "is_estopped t" and "\<forall>now. ClearEstop now \<notin> set evs"
  shows "snd (task_tick (task_run t evs) now a) = EStop"
proof -
  have "is_estopped (task_run t evs)" by (rule estopped_run [OF assms])
  then have "is_estopped (fst (task_tick (task_run t evs) now a))"
    using estopped_step [of "task_run t evs" "Poll now a"] by simp
  then show ?thesis by (simp add: task_tick_source Let_def)
qed

theorem estop_latched_until_clear_witness:
  "snd (task_tick (task_run (trigger_explicit_estop (task_new ClassD 0))
      [Activity (Some (Fin 10)) 5, CommandSeen]) 6 True) = EStop"
  by (rule estop_latched_until_clear) (simp_all add: task_defs is_estopped_def)

subsection \<open>Teleoperation needs a live link\<close>

definition task_inv :: "TaskClass \<Rightarrow> SafetyTask \<Rightarrow> bool" where
  "task_inv c t \<longleftrightarrow> wd_threshold_ms (st_watchdog t) = watchdog_blackout_ms c
     \<and> sm_task_class (st_machine t) = c \<and> sm_inv (st_machine t)"

lemma task_inv_new: "task_inv c (task_new c now)"
  using sm_inv_new [of c now] by (simp add: task_inv_def task_defs wd_defs) (simp add: sm_new_def)

lemma wd_check_threshold [simp]: "wd_threshold_ms (fst (wd_check w now)) = wd_threshold_ms w"
  by (simp add: wd_check_def Let_def)

lemma wd_check_last [simp]: "wd_last_heartbeat (fst (wd_check w now)) = wd_last_heartbeat w"
  by (simp add: wd_check_def Let_def)

lemma task_inv_step: "task_inv c t \<Longrightarrow> task_inv c (task_step t e)"
  using sm_inv_step [of "st_machine t" "Rtt _ _"] sm_inv_step [of "st_machine t" DeadmanReset]
    sm_step_class [of "st_machine t" "Rtt _ _"] sm_step_class [of "st_machine t" DeadmanReset]
  by (cases e) (auto simp: task_inv_def task_defs wd_heartbeat_def wd_clear_def Let_def
      simp del: sm_step_class split: option.splits)

lemma task_inv_run: "task_inv c t \<Longrightarrow> task_inv c (task_run t evs)"
  by (induction evs arbitrary: t) (auto intro: task_inv_step)

lemma wd_check_alive:
  assumes "\<not> wd_triggered (fst (wd_check w now))" and "wd_threshold_ms w = watchdog_blackout_ms c"
  shows "now - wd_last_heartbeat w < blackout_ns c"
  using assms blackout_iff [of "now - wd_last_heartbeat w" c]
  by (auto simp: wd_check_def duration_since_def Let_def split: if_splits)

text \<open>The time a run was last heard of: its latest activity or clearing of the E-Stop.\<close>

fun last_heard :: "instant \<Rightarrow> task_event list \<Rightarrow> instant" where
  "last_heard t0 [] = t0"
| "last_heard t0 (Activity r now # evs) = last_heard now evs"
| "last_heard t0 (ClearEstop now # evs) = last_heard now evs"
| "last_heard t0 (e # evs) = last_heard t0 evs"

lemma run_history:
  "wd_last_heartbeat (st_watchdog (task_run t evs)) = last_heard (wd_last_heartbeat (st_watchdog t)) evs
   \<and> st_deadman_held (task_run t evs) = (st_deadman_held t \<or> CommandSeen \<in> set evs)
   \<and> st_command_fresh (task_run t evs) = (st_command_fresh t \<or> CommandSeen \<in> set evs)"
proof (induction evs arbitrary: t)
  case (Cons e evs)
  let ?t = "task_step t e"
  have "wd_last_heartbeat (st_watchdog ?t) = last_heard (wd_last_heartbeat (st_watchdog t)) [e]"
    "st_deadman_held ?t = (st_deadman_held t \<or> e = CommandSeen)"
    "st_command_fresh ?t = (st_command_fresh t \<or> e = CommandSeen)"
    by (cases e; simp add: task_defs wd_heartbeat_def wd_clear_def Let_def split: option.splits)+
  moreover have "last_heard (last_heard h [e]) evs = last_heard h (e # evs)" for h by (cases e) simp_all
  ultimately show ?case using Cons.IH [of ?t] by auto
qed simp

lemma tick_estopped:
  assumes "wd_threshold_ms (st_watchdog t) = watchdog_blackout_ms c"
  shows "is_estopped (fst (task_tick t now a))
    \<longleftrightarrow> is_estopped t \<or> blackout_ns c \<le> now - wd_last_heartbeat (st_watchdog t)"
  using assms blackout_iff [of "now - wd_last_heartbeat (st_watchdog t)" c]
  by (auto simp: is_estopped_def task_tick_def wd_check_def duration_since_def Let_def)



end
