(* ===== verification/Wire.thy ===== *)
theory Wire
  imports Prelude
begin

text \<open>
  Datagram framing and the small fixed wire formats of \<open>roboprotocol-core\<close>: the one-byte
  datagram tags (\<open>datagram.rs\<close>), the E-Stop datagram (\<open>estop.rs\<close>) and the at-most-once
  filters of the reliable command streams (\<open>action_trigger.rs\<close>, \<open>camera_control.rs\<close>).
  Two interfaces live here: \<open>codec\<close>, the law every self-delimiting format of the
  development satisfies, and \<open>seq_dedup\<close>, the contract of the two sequence filters.
\<close>

section \<open>The codec interface\<close>

locale codec =
  fixes enc :: "'a \<Rightarrow> bytes"
    and dec :: "bytes \<Rightarrow> ('a \<times> bytes) option"
    and ok :: "'a \<Rightarrow> bool"
  assumes dec_enc: "ok x \<Longrightarrow> dec (enc x @ rest) = Some (x, rest)"
begin

lemma dec_enc_all: "ok x \<Longrightarrow> dec (enc x) = Some (x, [])"
  using dec_enc [of x "[]"] by simp

lemma enc_unique: "ok x \<Longrightarrow> ok y \<Longrightarrow> enc x @ r = enc y @ r' \<Longrightarrow> x = y \<and> r = r'"
  by (metis dec_enc option.inject prod.inject)

lemma enc_inject: "ok x \<Longrightarrow> ok y \<Longrightarrow> enc x = enc y \<Longrightarrow> x = y"
  using enc_unique [of x y "[]" "[]"] by blast

end

text \<open>A codec whose values are read one after the other from a concatenation.\<close>

locale codec_stream = codec +
  fixes items :: "bytes \<Rightarrow> 'a list"
  assumes items_unfold:
    "items bs = (case dec bs of None \<Rightarrow> [] | Some (x, rest) \<Rightarrow> x # items rest)"
begin

lemma items_concat: "list_all ok xs \<Longrightarrow> items (concat (map enc xs) @ rest) = xs @ items rest"
proof (induction xs)
  case (Cons x xs)
  have "items (enc x @ concat (map enc xs) @ rest) = x # items (concat (map enc xs) @ rest)"
    using Cons.prems by (subst items_unfold) (simp add: dec_enc)
  with Cons show ?case by simp
qed simp

lemma items_concat_torn:
  "list_all ok xs \<Longrightarrow> dec torn = None \<Longrightarrow> items (concat (map enc xs) @ torn) = xs"
  using items_concat [of xs torn] items_unfold [of torn] by simp

end

section \<open>Datagram tags\<close>

definition DATAGRAM_TAG_CHANNEL_B :: u8 where "DATAGRAM_TAG_CHANNEL_B = 0x01"
definition DATAGRAM_TAG_CHANNEL_A :: u8 where "DATAGRAM_TAG_CHANNEL_A = 0x02"
definition DATAGRAM_TAG_HEARTBEAT :: u8 where "DATAGRAM_TAG_HEARTBEAT = 0x03"
definition DATAGRAM_TAG_SENSOR_SLICE :: u8 where "DATAGRAM_TAG_SENSOR_SLICE = 0x04"
definition DATAGRAM_TAG_TOPIC :: u8 where "DATAGRAM_TAG_TOPIC = 0x05"
definition DATAGRAM_TAG_BENCH_RAW :: u8 where "DATAGRAM_TAG_BENCH_RAW = 0x7F"

lemmas tag_defs =
  DATAGRAM_TAG_CHANNEL_B_def DATAGRAM_TAG_CHANNEL_A_def DATAGRAM_TAG_HEARTBEAT_def
  DATAGRAM_TAG_SENSOR_SLICE_def DATAGRAM_TAG_TOPIC_def DATAGRAM_TAG_BENCH_RAW_def

definition tag :: "u8 \<Rightarrow> bytes \<Rightarrow> bytes" where
  "tag tag_byte payload = tag_byte # payload"

definition untag :: "bytes \<Rightarrow> (u8 \<times> bytes) option" where
  "untag datagram = (case datagram of [] \<Rightarrow> None | t # rest \<Rightarrow> Some (t, rest))"

section \<open>E-Stop datagrams\<close>

definition ESTOP_STREAM_ID :: u64 where "ESTOP_STREAM_ID = 5"
definition ESTOP_STREAM_URGENCY :: u8 where "ESTOP_STREAM_URGENCY = 0"
definition ESTOP_DATAGRAM_MAGIC :: u8 where "ESTOP_DATAGRAM_MAGIC = 0xE5"
definition ESTOP_DATAGRAM_LEN :: nat where "ESTOP_DATAGRAM_LEN = 10"

record EstopDatagram =
  ed_latched :: bool
  ed_seq :: u64

definition estop_encode :: "EstopDatagram \<Rightarrow> bytes" where
  "estop_encode d =
     [ESTOP_DATAGRAM_MAGIC, if ed_latched d then 1 else 0] @ be64 (ed_seq d)"

definition estop_decode :: "bytes \<Rightarrow> EstopDatagram option" where
  "estop_decode bs =
     (if length bs < ESTOP_DATAGRAM_LEN \<or> bs ! 0 \<noteq> ESTOP_DATAGRAM_MAGIC then None
      else Some \<lparr>ed_latched = (bs ! 1 \<noteq> 0), ed_seq = of_be64 (slice 2 10 bs)\<rparr>)"

lemmas estop_defs [codec_simps] =
  estop_encode_def estop_decode_def ESTOP_DATAGRAM_LEN_def ESTOP_DATAGRAM_MAGIC_def

lemma estop_decode_encode: "estop_decode (estop_encode d @ rest) = Some d"
  by (simp add: estop_defs slice_def)

interpretation estop_codec: codec estop_encode
  "\<lambda>bs. map_option (\<lambda>d. (d, drop 10 bs)) (estop_decode bs)" "\<lambda>_. True"
  by unfold_locales (simp add: estop_decode_encode, simp add: estop_defs)

text \<open>The E-Stop datagram.  Decoding an encoded datagram, with anything after it, gives it
  back; it is always ten bytes; a datagram decodes exactly when it has ten bytes and starts with
  the magic byte, and then any non-zero second byte means latched; and the magic differs from
  every channel tag, so the receiver's dispatch on the first byte is unambiguous.\<close>

theorem estop_datagram_correct:
  "estop_decode (estop_encode d @ rest) = Some d \<and> length (estop_encode d) = ESTOP_DATAGRAM_LEN
   \<and> (estop_decode bs \<noteq> None \<longleftrightarrow>
        (\<exists>b payload rest. bs = ESTOP_DATAGRAM_MAGIC # b # payload @ rest \<and> length payload = 8))
   \<and> estop_decode (ESTOP_DATAGRAM_MAGIC # b # be64 n @ rest) = Some \<lparr>ed_latched = (b \<noteq> 0), ed_seq = n\<rparr>
   \<and> ESTOP_DATAGRAM_MAGIC \<notin> {DATAGRAM_TAG_CHANNEL_A, DATAGRAM_TAG_CHANNEL_B, DATAGRAM_TAG_HEARTBEAT,
        DATAGRAM_TAG_SENSOR_SLICE, DATAGRAM_TAG_TOPIC, DATAGRAM_TAG_BENCH_RAW}"
proof (intro conjI)
  show "estop_decode (estop_encode d @ rest) = Some d" by (rule estop_decode_encode)
  show "length (estop_encode d) = ESTOP_DATAGRAM_LEN" by (simp add: estop_defs)
  show "estop_decode (ESTOP_DATAGRAM_MAGIC # b # be64 n @ rest) = Some \<lparr>ed_latched = (b \<noteq> 0), ed_seq = n\<rparr>"
    by (simp add: estop_defs slice_def)
  show "ESTOP_DATAGRAM_MAGIC \<notin> {DATAGRAM_TAG_CHANNEL_A, DATAGRAM_TAG_CHANNEL_B, DATAGRAM_TAG_HEARTBEAT,
        DATAGRAM_TAG_SENSOR_SLICE, DATAGRAM_TAG_TOPIC, DATAGRAM_TAG_BENCH_RAW}"
    by (simp add: tag_defs ESTOP_DATAGRAM_MAGIC_def)
  show "estop_decode bs \<noteq> None \<longleftrightarrow>
    (\<exists>b payload rest. bs = ESTOP_DATAGRAM_MAGIC # b # payload @ rest \<and> length payload = 8)"
  proof
    assume "estop_decode bs \<noteq> None"
    then have len: "10 \<le> length bs" and hd: "bs ! 0 = ESTOP_DATAGRAM_MAGIC"
      by (auto simp: estop_decode_def ESTOP_DATAGRAM_LEN_def split: if_splits)
    then obtain m b tl where "bs = m # b # tl" by (cases bs; cases "tl bs") auto
    with len hd have "bs = ESTOP_DATAGRAM_MAGIC # b # take 8 tl @ drop 8 tl \<and> length (take 8 tl) = 8"
      by simp
    then show "\<exists>b payload rest. bs = ESTOP_DATAGRAM_MAGIC # b # payload @ rest \<and> length payload = 8"
      by blast
  next
    assume "\<exists>b payload rest. bs = ESTOP_DATAGRAM_MAGIC # b # payload @ rest \<and> length payload = 8"
    then show "estop_decode bs \<noteq> None" by (auto simp: estop_defs)
  qed
qed

section \<open>At-most-once filters\<close>

definition ACTION_TRIGGER_STREAM_ID :: u64 where "ACTION_TRIGGER_STREAM_ID = 4"
definition CAMERA_CONTROL_STREAM_ID :: u64 where "CAMERA_CONTROL_STREAM_ID = 8"

record ActionTrigger =
  at_action_id :: u8
  at_trigger_seq :: u64

record TriggerDedup =
  td_last_applied :: "u64 option"

definition trigger_dedup_new :: TriggerDedup where
  "trigger_dedup_new = \<lparr>td_last_applied = None\<rparr>"

definition trigger_accept :: "TriggerDedup \<Rightarrow> ActionTrigger \<Rightarrow> TriggerDedup \<times> bool" where
  "trigger_accept s trigger =
     (let is_new = (case td_last_applied s of Some l \<Rightarrow> l < at_trigger_seq trigger | None \<Rightarrow> True)
      in (if is_new then s\<lparr>td_last_applied := Some (at_trigger_seq trigger)\<rparr> else s, is_new))"

text \<open>The \<open>f32\<close> fields of a wire message are their 32-bit patterns.\<close>

record CameraControl =
  cc_brightness :: u32
  cc_contrast :: u32
  cc_ev :: u32
  cc_shutter_us :: u32
  cc_control_seq :: u64

record CameraControlDedup =
  cd_last_applied :: "u64 option"

definition camera_dedup_new :: CameraControlDedup where
  "camera_dedup_new = \<lparr>cd_last_applied = None\<rparr>"

definition camera_accept :: "CameraControlDedup \<Rightarrow> CameraControl \<Rightarrow> CameraControlDedup \<times> bool" where
  "camera_accept s control =
     (let is_new = (case cd_last_applied s of Some l \<Rightarrow> l < cc_control_seq control | None \<Rightarrow> True)
      in (if is_new then s\<lparr>cd_last_applied := Some (cc_control_seq control)\<rparr> else s, is_new))"

text \<open>The commands a filter lets through, in order.\<close>

fun applied :: "('s \<Rightarrow> 'c \<Rightarrow> 's \<times> bool) \<Rightarrow> 's \<Rightarrow> 'c list \<Rightarrow> 'c list" where
  "applied accept s [] = []"
| "applied accept s (c # cs) =
     (if snd (accept s c) then [c] else []) @ applied accept (fst (accept s c)) cs"

locale seq_dedup =
  fixes accept :: "'s \<Rightarrow> 'c \<Rightarrow> 's \<times> bool"
    and seq_of :: "'c \<Rightarrow> u64"
    and last_of :: "'s \<Rightarrow> u64 option"
  assumes accept_iff:
      "snd (accept s c) \<longleftrightarrow> (case last_of s of Some l \<Rightarrow> l < seq_of c | None \<Rightarrow> True)"
    and accept_last:
      "last_of (fst (accept s c)) = (if snd (accept s c) then Some (seq_of c) else last_of s)"
begin

lemma applied_above: "last_of s = Some l \<Longrightarrow> c \<in> set (applied accept s cs) \<Longrightarrow> l < seq_of c"
proof (induction cs arbitrary: s l)
  case (Cons d cs)
  show ?case
  proof (cases "snd (accept s d)")
    case True
    with Cons.prems have "l < seq_of d" by (simp add: accept_iff)
    moreover have "last_of (fst (accept s d)) = Some (seq_of d)" using True by (simp add: accept_last)
    ultimately show ?thesis using Cons True by fastforce
  next
    case False
    then have "last_of (fst (accept s d)) = Some l" using Cons.prems by (simp add: accept_last)
    with Cons False show ?thesis by simp
  qed
qed simp

lemma applied_increasing: "sorted_wrt (<) (map seq_of (applied accept s cs))"
proof (induction cs arbitrary: s)
  case (Cons d cs)
  have "\<forall>c \<in> set (applied accept (fst (accept s d)) cs). seq_of d < seq_of c" if "snd (accept s d)"
    using applied_above [of "fst (accept s d)" "seq_of d"] that by (simp add: accept_last)
  with Cons show ?case by auto
qed simp

lemma applied_distinct: "distinct (map seq_of (applied accept s cs))"
  using applied_increasing [of s cs] by (simp add: strict_sorted_iff)

lemma applied_nondecreasing:
  assumes "sorted (map seq_of cs)" and "\<forall>l. last_of s = Some l \<longrightarrow> (\<forall>c \<in> set cs. l \<le> seq_of c)"
  shows "set (map seq_of (applied accept s cs)) =
    set (map seq_of cs) - (case last_of s of None \<Rightarrow> {} | Some l \<Rightarrow> {l})"
  using assms
proof (induction cs arbitrary: s)
  case (Cons d cs)
  let ?s = "fst (accept s d)"
  have IH: "set (map seq_of (applied accept ?s cs)) =
      set (map seq_of cs) - (case last_of ?s of None \<Rightarrow> {} | Some l \<Rightarrow> {l})"
    using Cons.prems by (intro Cons.IH) (auto simp: accept_last split: if_splits)
  show ?case
  proof (cases "last_of s")
    case None
    then have a: "snd (accept s d)" by (simp add: accept_iff)
    then have "last_of ?s = Some (seq_of d)" by (simp add: accept_last)
    with IH None a show ?thesis by auto
  next
    case (Some l)
    then have le: "l \<le> seq_of d" using Cons.prems by simp
    show ?thesis
    proof (cases "l = seq_of d")
      case True
      then have a: "\<not> snd (accept s d)" using Some by (simp add: accept_iff)
      then have "last_of ?s = Some l" using Some by (simp add: accept_last)
      with IH Some a True show ?thesis by auto
    next
      case False
      with le Some have a: "snd (accept s d)" by (simp add: accept_iff)
      moreover have "l \<notin> seq_of ` set cs" using False le Cons.prems by fastforce
      moreover have "last_of ?s = Some (seq_of d)" using a by (simp add: accept_last)
      ultimately show ?thesis using IH Some False by auto
    qed
  qed
qed (simp split: option.splits)

end

interpretation trigger: seq_dedup trigger_accept at_trigger_seq td_last_applied
  by unfold_locales (auto simp: trigger_accept_def Let_def split: option.splits)

interpretation camera: seq_dedup camera_accept cc_control_seq cd_last_applied
  by unfold_locales (auto simp: camera_accept_def Let_def split: option.splits)

text \<open>C20: whatever arrives on the action-trigger and camera-control streams, each filter applies
  commands in strictly increasing sequence order, so no sequence number is ever applied twice;
  and when the stream is in order, duplicates included, every sequence number on it is applied.\<close>

theorem commands_applied_at_most_once:
  "sorted_wrt (<) (map at_trigger_seq (applied trigger_accept s ts))
   \<and> sorted_wrt (<) (map cc_control_seq (applied camera_accept s' cs))
   \<and> (sorted (map at_trigger_seq ts) \<longrightarrow>
        set (map at_trigger_seq (applied trigger_accept trigger_dedup_new ts)) = set (map at_trigger_seq ts))
   \<and> (sorted (map cc_control_seq cs) \<longrightarrow>
        set (map cc_control_seq (applied camera_accept camera_dedup_new cs)) = set (map cc_control_seq cs))"
  using trigger.applied_increasing [of s ts] camera.applied_increasing [of s' cs]
    trigger.applied_nondecreasing [of ts trigger_dedup_new]
    camera.applied_nondecreasing [of cs camera_dedup_new]
  by (simp add: trigger_dedup_new_def camera_dedup_new_def)

theorem commands_applied_at_most_once_witness:
  "set (map at_trigger_seq (applied trigger_accept trigger_dedup_new
      [\<lparr>at_action_id = 2, at_trigger_seq = 1\<rparr>, \<lparr>at_action_id = 2, at_trigger_seq = 1\<rparr>])) = {1}"
proof -
  have "sorted (map at_trigger_seq
      [\<lparr>at_action_id = 2, at_trigger_seq = 1\<rparr>, \<lparr>at_action_id = 2, at_trigger_seq = 1\<rparr>])" by simp
  with commands_applied_at_most_once
    [of trigger_dedup_new "[\<lparr>at_action_id = 2, at_trigger_seq = 1\<rparr>, \<lparr>at_action_id = 2, at_trigger_seq = 1\<rparr>]"
      camera_dedup_new "[]"]
  show ?thesis by simp
qed

end
