(* ===== verification/Hello.thy ===== *)
theory Hello
  imports Prelude
begin

unbundle bit_operations_syntax

text \<open>
  The \<open>HELLO\<close> capability handshake (\<open>hello.rs\<close>): protocol versions, the advertised
  capability sets and the negotiation both endpoints compute from the two advertisements.
\<close>

section \<open>Versions and capability sets\<close>

record ProtocolVersion =
  pv_major :: u8
  pv_minor :: u8

definition pv_new :: "u8 \<Rightarrow> u8 \<Rightarrow> ProtocolVersion" where
  "pv_new maj mnr = \<lparr>pv_major = maj, pv_minor = mnr\<rparr>"

definition pv_encode :: "ProtocolVersion \<Rightarrow> u16" where
  "pv_encode v = push_bit 8 (ucast (pv_major v)) OR ucast (pv_minor v)"

definition pv_decode :: "u16 \<Rightarrow> ProtocolVersion" where
  "pv_decode v = \<lparr>pv_major = ucast (drop_bit 8 v), pv_minor = ucast (v AND 0xFF)\<rparr>"

definition TDPA_SUPPORT :: u64 where "TDPA_SUPPORT = push_bit 0 1"
definition FLEXFEC_SUPPORT :: u64 where "FLEXFEC_SUPPORT = push_bit 1 1"
definition ROS2_BRIDGE :: u64 where "ROS2_BRIDGE = push_bit 2 1"
definition CONNECTION_MIGRATION :: u64 where "CONNECTION_MIGRATION = push_bit 3 1"
definition TOPIC_FORWARDING :: u64 where "TOPIC_FORWARDING = push_bit 4 1"

definition CLASS_B_bit :: u8 where "CLASS_B_bit = push_bit 0 1"
definition CLASS_C_bit :: u8 where "CLASS_C_bit = push_bit 1 1"
definition CLASS_D_bit :: u8 where "CLASS_D_bit = push_bit 2 1"
definition CLASS_E_bit :: u8 where "CLASS_E_bit = push_bit 3 1"

definition FULL_bit :: u8 where "FULL_bit = push_bit 0 1"
definition STANDARD_bit :: u8 where "STANDARD_bit = push_bit 1 1"
definition COMPACT_bit :: u8 where "COMPACT_bit = push_bit 2 1"

record HelloCapabilities =
  hc_version :: ProtocolVersion
  hc_capability_bitmask :: u64
  hc_task_classes :: u8
  hc_quantization_tiers :: u8
  hc_max_control_rate_hz :: u16

record NegotiatedSession =
  ns_version :: ProtocolVersion
  ns_capability_bitmask :: u64
  ns_task_classes :: u8
  ns_quantization_tiers :: u8
  ns_max_control_rate_hz :: u16

record IncompatibleVersion =
  iv_local_major :: u8
  iv_peer_major :: u8

definition negotiate ::
  "HelloCapabilities \<Rightarrow> HelloCapabilities \<Rightarrow> IncompatibleVersion + NegotiatedSession" where
  "negotiate local peer =
     (if pv_major (hc_version local) \<noteq> pv_major (hc_version peer)
      then Inl \<lparr>iv_local_major = pv_major (hc_version local),
                iv_peer_major = pv_major (hc_version peer)\<rparr>
      else Inr \<lparr>ns_version = pv_new (pv_major (hc_version local))
                  (min (pv_minor (hc_version local)) (pv_minor (hc_version peer))),
                ns_capability_bitmask = hc_capability_bitmask local AND hc_capability_bitmask peer,
                ns_task_classes = hc_task_classes local AND hc_task_classes peer,
                ns_quantization_tiers = hc_quantization_tiers local AND hc_quantization_tiers peer,
                ns_max_control_rate_hz =
                  min (hc_max_control_rate_hz local) (hc_max_control_rate_hz peer)\<rparr>)"

section \<open>What the negotiation promises\<close>

text \<open>The two error reports describe the same mismatch from the two ends.\<close>

definition flip_error :: "IncompatibleVersion \<Rightarrow> IncompatibleVersion" where
  "flip_error e = \<lparr>iv_local_major = iv_peer_major e, iv_peer_major = iv_local_major e\<rparr>"

text \<open>The advertisement a negotiated session amounts to, for negotiating it again.\<close>

definition readvertise :: "NegotiatedSession \<Rightarrow> HelloCapabilities" where
  "readvertise s = \<lparr>hc_version = ns_version s, hc_capability_bitmask = ns_capability_bitmask s,
     hc_task_classes = ns_task_classes s, hc_quantization_tiers = ns_quantization_tiers s,
     hc_max_control_rate_hz = ns_max_control_rate_hz s\<rparr>"

lemma pv_decode_encode: "pv_decode (pv_encode v) = v"
proof -
  have "ucast (drop_bit 8 (push_bit 8 (ucast a :: u16) OR ucast b)) = (a :: u8)" for a b :: u8
    by (rule bit_word_eqI) (auto simp: bit_simps dest: bit_imp_le_length)
  moreover have "ucast ((push_bit 8 (ucast a :: u16) OR ucast b) AND 0xFF) = (b :: u8)" for a b :: u8
  proof (rule bit_word_eqI)
    fix n assume n: "n < LENGTH(8)"
    have "(0xFF :: u16) = mask 8" by (simp add: mask_eq_exp_minus_1)
    then show "bit (ucast ((push_bit 8 (ucast a :: u16) OR ucast b) AND 0xFF) :: u8) n = bit b n"
      using n unfolding \<open>0xFF = mask 8\<close> by (auto simp: bit_simps)
  qed
  ultimately show ?thesis by (simp add: pv_decode_def pv_encode_def)
qed

lemma pv_encode_decode: "pv_encode (pv_decode w) = w"
proof -
  have m: "(0xFF :: u16) = mask 8" by (simp add: mask_eq_exp_minus_1)
  have "push_bit 8 (ucast (ucast (drop_bit 8 w) :: u8)) OR ucast (ucast (w AND mask 8) :: u8) = w"
    by (rule bit_word_eqI) (auto simp: bit_simps)
  then show ?thesis by (simp add: pv_decode_def pv_encode_def m)
qed

lemma pv_encode_inject: "pv_encode v = pv_encode w \<longleftrightarrow> v = w"
  by (metis pv_decode_encode)

text \<open>The handshake.  Versions survive their two-byte encoding and back; the negotiation is
  refused exactly when the major versions differ, each side naming its own version as the local
  one; otherwise both sides compute the same session, every capability, task class and tier in it
  is one both endpoints advertised, the rate and the minor version are the smaller of the two, and
  negotiating the outcome again with either advertisement changes nothing.\<close>

theorem handshake_agrees:
  "pv_decode (pv_encode v) = v \<and> pv_encode (pv_decode w) = w
   \<and> negotiate b a = map_sum flip_error id (negotiate a b)
   \<and> ((\<exists>s. negotiate a b = Inr s) \<longleftrightarrow> pv_major (hc_version a) = pv_major (hc_version b))
   \<and> (\<forall>s. negotiate a b = Inr s \<longrightarrow>
        (\<forall>n. bit (ns_capability_bitmask s) n \<longleftrightarrow>
              bit (hc_capability_bitmask a) n \<and> bit (hc_capability_bitmask b) n)
      \<and> (\<forall>n. bit (ns_task_classes s) n \<longleftrightarrow> bit (hc_task_classes a) n \<and> bit (hc_task_classes b) n)
      \<and> (\<forall>n. bit (ns_quantization_tiers s) n \<longleftrightarrow>
              bit (hc_quantization_tiers a) n \<and> bit (hc_quantization_tiers b) n)
      \<and> ns_max_control_rate_hz s \<in> {hc_max_control_rate_hz a, hc_max_control_rate_hz b}
      \<and> ns_max_control_rate_hz s \<le> hc_max_control_rate_hz a
      \<and> ns_max_control_rate_hz s \<le> hc_max_control_rate_hz b
      \<and> pv_minor (ns_version s) \<in> {pv_minor (hc_version a), pv_minor (hc_version b)}
      \<and> pv_minor (ns_version s) \<le> pv_minor (hc_version a)
      \<and> pv_minor (ns_version s) \<le> pv_minor (hc_version b)
      \<and> negotiate a (readvertise s) = Inr s \<and> negotiate (readvertise s) b = Inr s)"
  by (auto simp: pv_decode_encode pv_encode_decode negotiate_def flip_error_def readvertise_def
      pv_new_def bit_simps and.commute and.left_commute min.commute and.assoc min_def
      split: if_splits)

theorem handshake_agrees_witness:
  "\<exists>s. negotiate \<lparr>hc_version = pv_new 1 3, hc_capability_bitmask = 0x13, hc_task_classes = 6,
          hc_quantization_tiers = 3, hc_max_control_rate_hz = 100\<rparr>
        \<lparr>hc_version = pv_new 1 0, hc_capability_bitmask = 0x12, hc_task_classes = 4,
          hc_quantization_tiers = 2, hc_max_control_rate_hz = 50\<rparr> = Inr s
      \<and> bit (ns_capability_bitmask s) 4 \<and> ns_max_control_rate_hz s \<le> 50"
proof -
  let ?a = "\<lparr>hc_version = pv_new 1 3, hc_capability_bitmask = 0x13, hc_task_classes = 6,
          hc_quantization_tiers = 3, hc_max_control_rate_hz = 100\<rparr>"
  let ?b = "\<lparr>hc_version = pv_new 1 0, hc_capability_bitmask = 0x12, hc_task_classes = 4,
          hc_quantization_tiers = 2, hc_max_control_rate_hz = 50\<rparr>"
  note all = handshake_agrees [of "pv_new 1 3" 0 ?b ?a]
  obtain s where s: "negotiate ?a ?b = Inr s" using all by (auto simp: pv_new_def)
  with all have "bit (ns_capability_bitmask s) 4 \<and> ns_max_control_rate_hz s \<le> 50" by simp
  with s show ?thesis by blast
qed

end
