(* ===== verification/Sizing.thy ===== *)
theory Sizing
  imports Prelude
begin

text \<open>
  Channel B payload sizing (\<open>sizing.rs\<close>): the quantization tiers, the per-datagram
  overhead and the split of a field vector over several datagrams.  Sizes are \<open>u32\<close>
  words, so an oversized field count wraps here as it does in a release build of the source.
\<close>

section \<open>Quantization tiers\<close>

datatype QuantizationTier = Compact | Standard | Full

primrec bytes_per_field :: "QuantizationTier \<Rightarrow> u32" where
  "bytes_per_field Compact = 1"
| "bytes_per_field Standard = 2"
| "bytes_per_field Full = 4"

text \<open>The derived \<open>Ord\<close> of the source enumeration.\<close>

instantiation QuantizationTier :: linorder
begin

definition less_eq_QuantizationTier :: "QuantizationTier \<Rightarrow> QuantizationTier \<Rightarrow> bool" where
  "less_eq_QuantizationTier a b \<longleftrightarrow> bytes_per_field a \<le> bytes_per_field b"

definition less_QuantizationTier :: "QuantizationTier \<Rightarrow> QuantizationTier \<Rightarrow> bool" where
  "less_QuantizationTier a b \<longleftrightarrow> bytes_per_field a < bytes_per_field b"

instance
proof
  fix a b :: QuantizationTier
  show "a \<le> b \<Longrightarrow> b \<le> a \<Longrightarrow> a = b"
    by (cases a; cases b) (simp_all add: less_eq_QuantizationTier_def word_le_nat_alt)
qed (auto simp: less_eq_QuantizationTier_def less_QuantizationTier_def)

end

definition field_bytes :: "QuantizationTier \<Rightarrow> nat" where
  "field_bytes t = unat (bytes_per_field t)"

lemma field_bytes_simps [simp]:
  "field_bytes Compact = 1" "field_bytes Standard = 2" "field_bytes Full = 4"
  by (simp_all add: field_bytes_def)

lemma field_bytes_bounds: "0 < field_bytes t" "field_bytes t \<le> 4"
  by (cases t; simp)+

definition HAPTIC_MIN_TIER :: QuantizationTier where "HAPTIC_MIN_TIER = Standard"

definition NTP_TIMESTAMP_BYTES :: u32 where "NTP_TIMESTAMP_BYTES = 8"
definition SEQUENCE_NUMBER_BYTES :: u32 where "SEQUENCE_NUMBER_BYTES = 8"
definition HMAC_SHA256_BYTES :: u32 where "HMAC_SHA256_BYTES = 32"
definition FLATBUFFERS_FRAMING_BYTES :: u32 where "FLATBUFFERS_FRAMING_BYTES = 12"
definition TDPA_METADATA_BYTES :: u32 where "TDPA_METADATA_BYTES = 8"
definition FIXED_OVERHEAD_BYTES :: u32 where
  "FIXED_OVERHEAD_BYTES =
     NTP_TIMESTAMP_BYTES + SEQUENCE_NUMBER_BYTES + HMAC_SHA256_BYTES + FLATBUFFERS_FRAMING_BYTES"
definition SINGLE_DATAGRAM_BUDGET_BYTES :: u32 where "SINGLE_DATAGRAM_BUDGET_BYTES = 1200"
definition IPV4_HEADER_BYTES :: u32 where "IPV4_HEADER_BYTES = 20"
definition UDP_HEADER_BYTES :: u32 where "UDP_HEADER_BYTES = 8"
definition QUIC_SHORT_HEADER_BYTES :: u32 where "QUIC_SHORT_HEADER_BYTES = 9"
definition AEAD_TAG_BYTES :: u32 where "AEAD_TAG_BYTES = 16"
definition WIRE_OVERHEAD_BYTES :: u32 where
  "WIRE_OVERHEAD_BYTES =
     IPV4_HEADER_BYTES + UDP_HEADER_BYTES + QUIC_SHORT_HEADER_BYTES + AEAD_TAG_BYTES"

lemmas overhead_defs =
  FIXED_OVERHEAD_BYTES_def NTP_TIMESTAMP_BYTES_def SEQUENCE_NUMBER_BYTES_def HMAC_SHA256_BYTES_def
  FLATBUFFERS_FRAMING_BYTES_def TDPA_METADATA_BYTES_def WIRE_OVERHEAD_BYTES_def
  IPV4_HEADER_BYTES_def UDP_HEADER_BYTES_def QUIC_SHORT_HEADER_BYTES_def AEAD_TAG_BYTES_def

datatype HapticTierViolation = HapticTierViolation QuantizationTier

definition validate_haptic_tier :: "QuantizationTier \<Rightarrow> HapticTierViolation + unit" where
  "validate_haptic_tier tier =
     (if bytes_per_field tier < bytes_per_field HAPTIC_MIN_TIER
      then Inl (HapticTierViolation tier) else Inr ())"

definition fixed_overhead_bytes :: "bool \<Rightarrow> u32" where
  "fixed_overhead_bytes carries_haptic =
     FIXED_OVERHEAD_BYTES + (if carries_haptic then TDPA_METADATA_BYTES else 0)"

definition application_payload_bytes :: "u32 \<Rightarrow> QuantizationTier \<Rightarrow> bool \<Rightarrow> u32" where
  "application_payload_bytes num_fields tier carries_haptic =
     num_fields * bytes_per_field tier + fixed_overhead_bytes carries_haptic"

definition wire_bytes :: "u32 \<Rightarrow> u32" where
  "wire_bytes app_payload_bytes = app_payload_bytes + WIRE_OVERHEAD_BYTES"

record DatagramPlan =
  dp_num_fields :: u32
  dp_app_bytes :: u32
  dp_wire_bytes :: u32

definition u32_div_ceil :: "u32 \<Rightarrow> u32 \<Rightarrow> u32" where
  "u32_div_ceil a b = (if a mod b = 0 then a div b else a div b + 1)"

definition saturating_sub :: "u32 \<Rightarrow> u32 \<Rightarrow> u32" where
  "saturating_sub a b = (if a < b then 0 else a - b)"

definition plan_one :: "u32 \<Rightarrow> QuantizationTier \<Rightarrow> u32 \<Rightarrow> DatagramPlan" where
  "plan_one nfields tier overhead =
     (let app = nfields * bytes_per_field tier + overhead
      in \<lparr>dp_num_fields = nfields, dp_app_bytes = app, dp_wire_bytes = wire_bytes app\<rparr>)"

definition plan_datagrams ::
  "u32 \<Rightarrow> QuantizationTier \<Rightarrow> bool \<Rightarrow> u32 \<Rightarrow> HapticTierViolation + DatagramPlan list" where
  "plan_datagrams num_fields tier carries_haptic budget_bytes =
     (case (if carries_haptic then validate_haptic_tier tier else Inr ()) of
        Inl e \<Rightarrow> Inl e
      | Inr _ \<Rightarrow>
         (let overhead = fixed_overhead_bytes carries_haptic;
              single_size = num_fields * bytes_per_field tier + overhead
          in if single_size \<le> budget_bytes \<or> num_fields = 0
             then Inr [plan_one num_fields tier overhead]
             else
               let max_fields = max (saturating_sub budget_bytes overhead div bytes_per_field tier) 1;
                   n_datagrams = u32_div_ceil num_fields max_fields;
                   base = num_fields div n_datagrams;
                   extra = num_fields mod n_datagrams
               in Inr (List.map (\<lambda>i. plan_one (base + (if i < extra then 1 else 0)) tier overhead)
                        (List.map word_of_nat [0..<unat n_datagrams]))))"

section \<open>The split in unbounded arithmetic\<close>

text \<open>The specification: \<open>n\<close> fields spread as evenly as possible over as few
  datagrams as the budget allows, over natural numbers.\<close>

definition overhead_nat :: "bool \<Rightarrow> nat" where
  "overhead_nat haptic = (if haptic then 68 else 60)"

definition even_split :: "nat \<Rightarrow> nat \<Rightarrow> nat list" where
  "even_split n k = List.map (\<lambda>i. n div k + (if i < n mod k then 1 else 0)) [0..<k]"

definition plan_nat :: "nat \<Rightarrow> QuantizationTier \<Rightarrow> bool \<Rightarrow> nat \<Rightarrow> nat list" where
  "plan_nat n tier haptic budget =
     (if n * field_bytes tier + overhead_nat haptic \<le> budget \<or> n = 0 then [n]
      else even_split n (div_ceil n (max ((budget - overhead_nat haptic) div field_bytes tier) 1)))"

lemma sum_list_indicator: "sum_list (List.map (\<lambda>i. if i < m then 1 else (0::nat)) [0..<k]) = min m k"
  by (induction k) auto

lemma sum_even_split: "0 < k \<Longrightarrow> sum_list (even_split n k) = n"
proof -
  assume k: "0 < k"
  have "sum_list (even_split n k) = (n div k) * k + min (n mod k) k"
    by (simp add: even_split_def sum_list_addf sum_list_indicator sum_list_triv)
  with k show ?thesis by (simp add: min_def)
qed

lemma even_split_bounds:
  assumes "0 < k" "x \<in> set (even_split n k)"
  shows "n div k \<le> x" "x \<le> div_ceil n k"
proof -
  from assms(2) obtain i where i: "i < k" "x = n div k + (if i < n mod k then 1 else 0)"
    by (auto simp: even_split_def)
  show "n div k \<le> x" using i by simp
  show "x \<le> div_ceil n k" using i by (auto simp: div_ceil_def)
qed

lemma overhead_unat: "unat (fixed_overhead_bytes h) = overhead_nat h"
  by (simp add: fixed_overhead_bytes_def overhead_defs overhead_nat_def)

lemma div_ceil_le_self: "0 < b \<Longrightarrow> div_ceil a b \<le> a"
  by (simp add: div_ceil_le_iff)

lemma u32_bounds: "unat (x :: u32) < 2 ^ 32"
  using unsigned_less [of x] by simp

lemma unat_mult_u32: "unat (a :: u32) * unat b < 2 ^ 32 \<Longrightarrow> unat (a * b) = unat a * unat b"
  by (simp add: unat_word_ariths)

lemma unat_plus_u32: "unat (a :: u32) + unat b < 2 ^ 32 \<Longrightarrow> unat (a + b) = unat a + unat b"
  by (simp add: unat_word_ariths)

lemma unat_u32_div_ceil: "unat b \<noteq> 0 \<Longrightarrow> unat (u32_div_ceil a b) = div_ceil (unat a) (unat b)"
proof -
  assume b: "unat b \<noteq> 0"
  have z: "a mod b = 0 \<longleftrightarrow> unat a mod unat b = 0"
    by (simp add: unat_eq_0 [symmetric] unat_mod_distrib)
  have q: "unat (a div b) = unat a div unat b" by (simp add: unat_div_distrib)
  have d: "unat a div unat b < 2 ^ 32"
    using u32_bounds [of a] div_le_dividend [of "unat a" "unat b"] by linarith
  have "unat a div unat b + 1 < 2 ^ 32" if "unat a mod unat b \<noteq> 0"
  proof -
    have "unat b \<noteq> 1" using that by auto
    then have "unat a = 0 \<or> unat a div unat b < unat a" using b div_less_dividend [of "unat b" "unat a"] by linarith
    then show ?thesis using that u32_bounds [of a] by auto
  qed
  with d show ?thesis by (auto simp: u32_div_ceil_def div_ceil_def z q unat_word_ariths)
qed

lemma unat_saturating_sub: "unat (saturating_sub a b) = unat a - unat b"
  by (auto simp: saturating_sub_def word_less_nat_alt unat_sub_if')

lemma unat_max_1: "unat (max x (1 :: u32)) = max (unat x) 1"
  by (auto simp: max_def word_le_nat_alt)

lemma plan_one_unat:
  assumes "unat f * field_bytes tier + unat ov < 2 ^ 32 - 53"
  shows "unat (dp_app_bytes (plan_one f tier ov)) = unat f * field_bytes tier + unat ov"
    and "unat (dp_wire_bytes (plan_one f tier ov)) = unat f * field_bytes tier + unat ov + 53"
proof -
  have "unat (f * bytes_per_field tier) = unat f * field_bytes tier"
    using assms by (subst unat_mult_u32) (simp_all add: field_bytes_def)
  then have a: "unat (f * bytes_per_field tier + ov) = unat f * field_bytes tier + unat ov"
    using assms by (subst unat_plus_u32) simp_all
  then show "unat (dp_app_bytes (plan_one f tier ov)) = unat f * field_bytes tier + unat ov"
    by (simp add: plan_one_def Let_def)
  have "unat WIRE_OVERHEAD_BYTES = 53" by (simp add: overhead_defs)
  with a assms show "unat (dp_wire_bytes (plan_one f tier ov)) = unat f * field_bytes tier + unat ov + 53"
    by (simp add: plan_one_def Let_def wire_bytes_def unat_plus_u32)
qed

lemma plan_one_fields [simp]: "dp_num_fields (plan_one f tier ov) = f"
  by (simp add: plan_one_def Let_def)

text \<open>The word-level split computes the specification's field counts.\<close>

lemma even_split_words:
  fixes n k :: u32
  assumes "k \<noteq> 0"
  shows "List.map (\<lambda>i. unat (n div k + (if word_of_nat i < n mod k then 1 else 0))) [0..<unat k]
    = even_split (unat n) (unat k)"
  unfolding even_split_def
proof (rule map_cong [OF refl])
  fix i assume "i \<in> set [0..<unat k]"
  then have i: "i < unat k" by simp
  then have i32: "unat (word_of_nat i :: u32) = i"
    using u32_bounds [of k] by (simp add: unat_of_nat take_bit_nat_eq_self)
  have k0: "0 < unat k" using assms by (simp add: unat_gt_0)
  have lt: "(word_of_nat i < n mod k) \<longleftrightarrow> i < unat n mod unat k"
    by (simp add: word_less_nat_alt i32 unat_mod_distrib)
  have "unat (n div k + 1) = unat n div unat k + 1" if "i < unat n mod unat k"
  proof -
    have "unat n div unat k + 1 \<le> unat n"
      using that k0 by (metis Suc_eq_plus1 Suc_leI bot_nat_0.not_eq_extremum div_less_dividend
        less_nat_zero_code mod_by_Suc_0 not_less_eq Suc_lessI One_nat_def mod_less_eq_dividend order_less_le_trans)
    then show ?thesis using u32_bounds [of n]
      by (subst unat_plus_u32) (simp_all add: unat_div_distrib)
  qed
  then show "unat (n div k + (if word_of_nat i < n mod k then 1 else 0))
      = unat n div unat k + (if i < unat n mod unat k then 1 else 0)"
    by (simp add: lt unat_div_distrib)
qed

lemma plan_datagrams_refines:
  assumes fits: "unat n * field_bytes tier + 68 < 2 ^ 32"
    and ok: "plan_datagrams n tier haptic budget = Inr plans"
  shows "List.map (unat \<circ> dp_num_fields) plans = plan_nat (unat n) tier haptic (unat budget)"
    and "\<forall>p \<in> set plans. \<exists>f. p = plan_one f tier (fixed_overhead_bytes haptic)"
proof -
  let ?ov = "fixed_overhead_bytes haptic"
  let ?single = "n * bytes_per_field tier + ?ov"
  have "overhead_nat haptic \<le> 68" by (simp add: overhead_nat_def)
  then have bound: "unat n * field_bytes tier + unat ?ov < 2 ^ 32"
    using fits unfolding overhead_unat by linarith
  then have single: "unat ?single = unat n * field_bytes tier + overhead_nat haptic"
    by (subst unat_plus_u32) (simp_all add: unat_mult_u32 field_bytes_def overhead_unat)
  have cond: "(?single \<le> budget \<or> n = 0)
      \<longleftrightarrow> (unat n * field_bytes tier + overhead_nat haptic \<le> unat budget \<or> unat n = 0)"
    by (simp add: word_le_nat_alt single unat_eq_0)
  let ?mf = "max (saturating_sub budget ?ov div bytes_per_field tier) 1"
  let ?k = "u32_div_ceil n ?mf"
  have mf: "unat ?mf = max ((unat budget - overhead_nat haptic) div field_bytes tier) 1"
    by (simp add: unat_max_1 unat_div_distrib unat_saturating_sub overhead_unat field_bytes_def)
  then have mf0: "unat ?mf \<noteq> 0" by (metis max.cobounded2 not_one_le_zero)
  have k: "unat ?k = div_ceil (unat n) (unat ?mf)" by (rule unat_u32_div_ceil [OF mf0])
  show "List.map (unat \<circ> dp_num_fields) plans = plan_nat (unat n) tier haptic (unat budget)"
  proof (cases "?single \<le> budget \<or> n = 0")
    case True
    with ok have "plans = [plan_one n tier ?ov]"
      by (auto simp: plan_datagrams_def Let_def split: sum.splits)
    with True show ?thesis unfolding cond by (simp add: plan_nat_def)
  next
    case False
    with ok have p: "plans = List.map (\<lambda>i. plan_one (n div ?k + (if i < n mod ?k then 1 else 0)) tier ?ov)
        (List.map word_of_nat [0..<unat ?k])"
      by (auto simp: plan_datagrams_def Let_def split: sum.splits)
    have "0 < unat n" using False by (simp add: unat_gt_0)
    then have "?k \<noteq> 0" using k mf0 div_ceil_pos [of "unat ?mf" "unat n"] by (metis neq0_conv unat_0)
    then have "List.map (unat \<circ> dp_num_fields) plans = even_split (unat n) (unat ?k)"
      using even_split_words [of ?k n] by (simp add: p comp_def)
    with False k mf show ?thesis unfolding cond by (simp add: plan_nat_def)
  qed
  show "\<forall>p \<in> set plans. \<exists>f. p = plan_one f tier ?ov"
    using ok by (auto simp: plan_datagrams_def Let_def split: sum.splits if_splits)
qed

lemma plan_nat_sum: "sum_list (plan_nat n tier haptic budget) = n"
proof -
  have "0 < div_ceil n (max ((budget - overhead_nat haptic) div field_bytes tier) 1)" if "n \<noteq> 0"
    using that by (intro div_ceil_pos) auto
  then show ?thesis by (auto simp: plan_nat_def sum_even_split)
qed

lemma plan_nat_fits:
  assumes x: "x \<in> set (plan_nat n tier haptic budget)"
    and room: "overhead_nat haptic + field_bytes tier \<le> budget"
  shows "x * field_bytes tier + overhead_nat haptic \<le> budget"
proof (cases "n * field_bytes tier + overhead_nat haptic \<le> budget \<or> n = 0")
  case True
  with x room show ?thesis by (auto simp: plan_nat_def)
next
  case False
  let ?m = "(budget - overhead_nat haptic) div field_bytes tier"
  have fb: "0 < field_bytes tier" by (rule field_bytes_bounds)
  have "field_bytes tier \<le> budget - overhead_nat haptic" using room by linarith
  then have m: "0 < ?m" using fb by (simp add: div_greater_zero_iff)
  then have mm: "max ?m 1 = ?m" by simp
  let ?k = "div_ceil n ?m"
  have k: "0 < ?k" using False m by (intro div_ceil_pos) auto
  have "x \<in> set (even_split n ?k)" using x False mm by (simp add: plan_nat_def)
  then have "x \<le> div_ceil n ?k" using even_split_bounds k by blast
  also have "\<dots> \<le> ?m" using k m div_ceil_mult_ge [OF m, of n] by (simp add: div_ceil_le_iff mult.commute)
  finally have "x * field_bytes tier \<le> ?m * field_bytes tier" by simp
  also have "\<dots> \<le> budget - overhead_nat haptic" by simp
  finally show ?thesis using room by linarith
qed

lemma plan_nat_fewest:
  assumes fits: "\<forall>x \<in> set xs. x * field_bytes tier + overhead_nat haptic \<le> budget"
    and sum: "sum_list xs = n" and "xs \<noteq> []"
  shows "length (plan_nat n tier haptic budget) \<le> length xs"
proof (cases "n * field_bytes tier + overhead_nat haptic \<le> budget \<or> n = 0")
  case True
  with \<open>xs \<noteq> []\<close> show ?thesis by (auto simp: plan_nat_def Suc_le_eq)
next
  case False
  let ?m = "(budget - overhead_nat haptic) div field_bytes tier"
  have fb: "0 < field_bytes tier" by (rule field_bytes_bounds)
  have le: "x \<le> ?m" if "x \<in> set xs" for x
  proof -
    have "x * field_bytes tier \<le> budget - overhead_nat haptic" using fits that by force
    then show ?thesis using fb by (simp add: less_eq_div_iff_mult_less_eq)
  qed
  have "n \<le> length xs * max ?m 1"
  proof -
    have "sum_list xs \<le> sum_list (List.map (\<lambda>_. max ?m 1) xs)"
      using sum_list_mono [of xs "\<lambda>x. x" "\<lambda>_. max ?m 1"] le by (simp add: le_max_iff_disj)
    then show ?thesis by (simp add: sum sum_list_triv)
  qed
  then have "div_ceil n (max ?m 1) \<le> length xs" by (subst div_ceil_le_iff) simp_all
  with False show ?thesis by (simp add: plan_nat_def even_split_def)
qed

text \<open>The datagram split.  When the arithmetic does not wrap, the plan is refused exactly for
  a haptic payload below the Standard tier; otherwise the datagrams together carry exactly the
  requested fields, two of them never differ by more than one field, the byte counts are the field
  counts times the tier width plus the overhead, every datagram is within the budget whenever the
  budget has room for one field, and no split within the budget uses fewer datagrams.\<close>

theorem plan_datagrams_correct:
  assumes "unat n * field_bytes tier + 68 < 2 ^ 32 - 53"
  shows "((\<exists>e. plan_datagrams n tier haptic budget = Inl e) \<longleftrightarrow> haptic \<and> tier < HAPTIC_MIN_TIER)
   \<and> (\<forall>plans. plan_datagrams n tier haptic budget = Inr plans \<longrightarrow>
        sum_list (List.map (unat \<circ> dp_num_fields) plans) = unat n
      \<and> (\<forall>p \<in> set plans. \<forall>q \<in> set plans. unat (dp_num_fields p) \<le> unat (dp_num_fields q) + 1)
      \<and> (\<forall>p \<in> set plans.
           unat (dp_app_bytes p) = unat (dp_num_fields p) * field_bytes tier + overhead_nat haptic
         \<and> unat (dp_wire_bytes p) = unat (dp_app_bytes p) + 53
         \<and> (overhead_nat haptic + field_bytes tier \<le> unat budget \<longrightarrow>
              unat (dp_app_bytes p) \<le> unat budget))
      \<and> (\<forall>xs. xs \<noteq> [] \<and> sum_list xs = unat n
           \<and> (\<forall>x \<in> set xs. x * field_bytes tier + overhead_nat haptic \<le> unat budget)
           \<longrightarrow> length plans \<le> length xs))"
proof (intro conjI allI impI)
  show "(\<exists>e. plan_datagrams n tier haptic budget = Inl e) \<longleftrightarrow> haptic \<and> tier < HAPTIC_MIN_TIER"
    by (auto simp: plan_datagrams_def validate_haptic_tier_def less_QuantizationTier_def Let_def)
next
  fix plans assume ok: "plan_datagrams n tier haptic budget = Inr plans"
  have fits: "unat n * field_bytes tier + 68 < 2 ^ 32" using assms by simp
  note ref = plan_datagrams_refines [OF fits ok]
  note field_counts = ref(1)
  show sum: "sum_list (List.map (unat \<circ> dp_num_fields) plans) = unat n"
    by (simp only: field_counts plan_nat_sum)
  have in_nat: "unat (dp_num_fields p) \<in> set (plan_nat (unat n) tier haptic (unat budget))"
    if "p \<in> set plans" for p
    using that field_counts by (metis comp_apply image_eqI list.set_map)
  have len: "length plans = length (plan_nat (unat n) tier haptic (unat budget))"
    using field_counts by (metis length_map)
  show "\<forall>p \<in> set plans. \<forall>q \<in> set plans. unat (dp_num_fields p) \<le> unat (dp_num_fields q) + 1"
  proof (intro ballI)
    fix p q assume "p \<in> set plans" "q \<in> set plans"
    then have "unat (dp_num_fields p) \<in> set (plan_nat (unat n) tier haptic (unat budget))"
        "unat (dp_num_fields q) \<in> set (plan_nat (unat n) tier haptic (unat budget))"
      using in_nat by auto
    then show "unat (dp_num_fields p) \<le> unat (dp_num_fields q) + 1"
      by (auto simp: plan_nat_def even_split_def split: if_splits)
  qed
  show "\<forall>p \<in> set plans.
       unat (dp_app_bytes p) = unat (dp_num_fields p) * field_bytes tier + overhead_nat haptic
     \<and> unat (dp_wire_bytes p) = unat (dp_app_bytes p) + 53
     \<and> (overhead_nat haptic + field_bytes tier \<le> unat budget \<longrightarrow> unat (dp_app_bytes p) \<le> unat budget)"
  proof
    fix p assume p: "p \<in> set plans"
    then obtain f where pf: "p = plan_one f tier (fixed_overhead_bytes haptic)" using ref(2) by blast
    have "unat f \<le> unat n"
      using sum p pf member_le_sum_list [of "unat f" "List.map (unat \<circ> dp_num_fields) plans"]
      by (force simp: image_iff)
    then have "unat f * field_bytes tier \<le> unat n * field_bytes tier" by simp
    moreover have "overhead_nat haptic \<le> 68" by (simp add: overhead_nat_def)
    ultimately have b: "unat f * field_bytes tier + unat (fixed_overhead_bytes haptic) < 2 ^ 32 - 53"
      using assms unfolding overhead_unat by linarith
    note sizes = plan_one_unat [OF b, unfolded overhead_unat]
    show "unat (dp_app_bytes p) = unat (dp_num_fields p) * field_bytes tier + overhead_nat haptic
     \<and> unat (dp_wire_bytes p) = unat (dp_app_bytes p) + 53
     \<and> (overhead_nat haptic + field_bytes tier \<le> unat budget \<longrightarrow> unat (dp_app_bytes p) \<le> unat budget)"
      using sizes in_nat [OF p] plan_nat_fits by (auto simp: pf)
  qed
  fix xs assume "xs \<noteq> [] \<and> sum_list xs = unat n
       \<and> (\<forall>x \<in> set xs. x * field_bytes tier + overhead_nat haptic \<le> unat budget)"
  then show "length plans \<le> length xs" by (simp add: len plan_nat_fewest)
qed

theorem plan_datagrams_correct_witness:
  "\<exists>plans. plan_datagrams 2000 Standard True SINGLE_DATAGRAM_BUDGET_BYTES = Inr plans
     \<and> sum_list (List.map (unat \<circ> dp_num_fields) plans) = 2000
     \<and> (\<forall>p \<in> set plans. unat (dp_app_bytes p) \<le> 1200)"
proof -
  have pre: "unat (2000 :: u32) * field_bytes Standard + 68 < 2 ^ 32 - 53" by simp
  note all = plan_datagrams_correct [OF pre, of True SINGLE_DATAGRAM_BUDGET_BYTES]
  obtain plans where p: "plan_datagrams 2000 Standard True SINGLE_DATAGRAM_BUDGET_BYTES = Inr plans"
    using all by (cases "plan_datagrams 2000 Standard True SINGLE_DATAGRAM_BUDGET_BYTES")
      (auto simp: HAPTIC_MIN_TIER_def)
  have "overhead_nat True + field_bytes Standard \<le> unat SINGLE_DATAGRAM_BUDGET_BYTES"
    by (simp add: overhead_nat_def SINGLE_DATAGRAM_BUDGET_BYTES_def)
  moreover have "unat SINGLE_DATAGRAM_BUDGET_BYTES = 1200" by (simp add: SINGLE_DATAGRAM_BUDGET_BYTES_def)
  ultimately show ?thesis using all p by auto
qed

end
