(* ===== verification/Profile.thy ===== *)
theory Profile
  imports F32Bits Sizing
begin

unbundle bit_operations_syntax

text \<open>
  Robot and media descriptors (\<open>profile.rs\<close>): the robot profile both endpoints derive
  the Channel B layouts from, its FNV-1a hash, and the packing of the two fixed-shape commands at
  the three quantization tiers.  Names are the UTF-8 bytes of the source strings; \<open>f32\<close>
  fields are bit patterns (theory F32Bits).
\<close>

section \<open>Descriptors\<close>

record JointDescriptor =
  jd_min_limit :: u32
  jd_max_limit :: u32
  jd_max_velocity :: u32
  jd_has_torque_sensing :: bool
  jd_region_id :: u8

datatype CommandShape = Kinematic | VelocityAttitude | CartesianEndEffector

fun shape_code :: "CommandShape \<Rightarrow> u8" where
  "shape_code Kinematic = 0"
| "shape_code VelocityAttitude = 1"
| "shape_code CartesianEndEffector = 2"

fun fixed_field_count :: "CommandShape \<Rightarrow> u32 option" where
  "fixed_field_count Kinematic = None"
| "fixed_field_count VelocityAttitude = Some 6"
| "fixed_field_count CartesianEndEffector = Some 4"

record BodyRegionDescriptor =
  rd_region_id :: u8
  rd_name :: bytes
  rd_joint_start :: u16
  rd_joint_count :: u16
  rd_has_force_torque_sensor :: bool
  rd_command_shape :: CommandShape

datatype Codec = H265 | Av1 | H264

record CameraDescriptor =
  cam_camera_id :: u8
  cam_label :: bytes
  cam_codec :: Codec
  cam_resolution_w :: u16
  cam_resolution_h :: u16
  cam_max_fps :: u8
  cam_min_bitrate_kbps :: u32
  cam_max_bitrate_kbps :: u32

datatype BaseType =
  Stationary | WheeledStandard | WheeledHolonomic | BipedLegs | QuadrupedLegs | Other

fun base_code :: "BaseType \<Rightarrow> u8" where
  "base_code Stationary = 0"
| "base_code WheeledStandard = 1"
| "base_code WheeledHolonomic = 2"
| "base_code BipedLegs = 3"
| "base_code QuadrupedLegs = 4"
| "base_code Other = 5"

definition requires_dynamic_balance_override :: "BaseType \<Rightarrow> bool" where
  "requires_dynamic_balance_override b = (b = BipedLegs)"

definition lateral_velocity_meaningful :: "BaseType \<Rightarrow> bool" where
  "lateral_velocity_meaningful b = (b \<noteq> WheeledStandard)"

record RobotProfile =
  rp_dof_count :: u16
  rp_joints :: "JointDescriptor list"
  rp_regions :: "BodyRegionDescriptor list"
  rp_base_type :: BaseType

section \<open>The profile hash\<close>

definition FNV_OFFSET_BASIS :: u64 where "FNV_OFFSET_BASIS = 0xcbf29ce484222325"
definition FNV_PRIME :: u64 where "FNV_PRIME = 0x100000001b3"

definition fnv_step :: "u64 \<Rightarrow> u8 \<Rightarrow> u64" where
  "fnv_step h b = (h XOR ucast b) * FNV_PRIME"

definition fnv1a_64 :: "bytes \<Rightarrow> u64" where
  "fnv1a_64 data = foldl fnv_step FNV_OFFSET_BASIS data"

definition le16 :: "u16 \<Rightarrow> bytes" where "le16 w = le 2 (unat w)"
definition le32 :: "u32 \<Rightarrow> bytes" where "le32 w = le 4 (unat w)"

definition joint_bytes :: "JointDescriptor \<Rightarrow> bytes" where
  "joint_bytes j = le32 (jd_min_limit j) @ le32 (jd_max_limit j) @ le32 (jd_max_velocity j)
     @ [of_bool (jd_has_torque_sensing j), jd_region_id j]"

definition region_bytes :: "BodyRegionDescriptor \<Rightarrow> bytes" where
  "region_bytes r = [rd_region_id r] @ rd_name r @ le16 (rd_joint_start r) @ le16 (rd_joint_count r)
     @ [of_bool (rd_has_force_torque_sensor r), shape_code (rd_command_shape r)]"

definition profile_bytes :: "RobotProfile \<Rightarrow> bytes" where
  "profile_bytes p = le16 (rp_dof_count p) @ [base_code (rp_base_type p)]
     @ concat (List.map joint_bytes (rp_joints p)) @ concat (List.map region_bytes (rp_regions p))"

definition profile_hash :: "RobotProfile \<Rightarrow> u64" where
  "profile_hash p = fnv1a_64 (profile_bytes p)"

section \<open>Derived layouts\<close>

record FieldOffset =
  fo_joint_index :: u16
  fo_byte_offset :: u32
  fo_byte_len :: u32

text \<open>The loop over the enumerated joints; it returns the offsets and the final cursor.\<close>

fun layout_loop ::
  "(u8 \<Rightarrow> bool) \<Rightarrow> QuantizationTier \<Rightarrow> nat \<Rightarrow> u32 \<Rightarrow> JointDescriptor list \<Rightarrow> FieldOffset list \<times> u32" where
  "layout_loop selected tier i cursor [] = ([], cursor)"
| "layout_loop selected tier i cursor (joint # joints) =
     (if \<not> selected (jd_region_id joint) then layout_loop selected tier (i + 1) cursor joints
      else let byte_len = bytes_per_field tier;
               (offsets, cursor') = layout_loop selected tier (i + 1) (cursor + byte_len) joints
           in (\<lparr>fo_joint_index = word_of_nat i, fo_byte_offset = cursor, fo_byte_len = byte_len\<rparr> # offsets,
               cursor'))"

definition region_selected :: "u8 list \<Rightarrow> u8 \<Rightarrow> bool" where
  "region_selected region_ids r = (region_ids = [] \<or> r \<in> set region_ids)"

definition derive_layout :: "RobotProfile \<Rightarrow> u8 list \<Rightarrow> QuantizationTier \<Rightarrow> FieldOffset list" where
  "derive_layout profile region_ids tier =
     fst (layout_loop (region_selected region_ids) tier 0 0 (rp_joints profile))"

datatype CommandBlock =
    BlockKinematic u8 "FieldOffset list"
  | BlockVelocityAttitude u32 u32
  | BlockCartesianEndEffector u8 u32 u32

fun command_loop ::
  "JointDescriptor list \<Rightarrow> u8 list \<Rightarrow> QuantizationTier \<Rightarrow> u32 \<Rightarrow> bool \<Rightarrow> BodyRegionDescriptor list
     \<Rightarrow> CommandBlock list" where
  "command_loop joints region_ids tier cursor emitted [] = []"
| "command_loop joints region_ids tier cursor emitted (region # regions) =
     (if \<not> region_selected region_ids (rd_region_id region)
      then command_loop joints region_ids tier cursor emitted regions
      else case rd_command_shape region of
        Kinematic \<Rightarrow>
          let (joint_offsets, cursor') =
                layout_loop (\<lambda>r. r = rd_region_id region) tier 0 cursor joints
          in BlockKinematic (rd_region_id region) joint_offsets
             # command_loop joints region_ids tier cursor' emitted regions
      | VelocityAttitude \<Rightarrow>
          if emitted then command_loop joints region_ids tier cursor emitted regions
          else let byte_len = the (fixed_field_count VelocityAttitude) * bytes_per_field tier
               in BlockVelocityAttitude cursor byte_len
                  # command_loop joints region_ids tier (cursor + byte_len) True regions
      | CartesianEndEffector \<Rightarrow>
          let byte_len = the (fixed_field_count CartesianEndEffector) * bytes_per_field tier
          in BlockCartesianEndEffector (rd_region_id region) cursor byte_len
             # command_loop joints region_ids tier (cursor + byte_len) emitted regions)"

definition derive_command_layout ::
  "RobotProfile \<Rightarrow> u8 list \<Rightarrow> QuantizationTier \<Rightarrow> CommandBlock list" where
  "derive_command_layout profile region_ids tier =
     command_loop (rp_joints profile) region_ids tier 0 False (rp_regions profile)"

section \<open>Packing commands\<close>

record VelocityAttitudeCommand =
  va_vx :: u32
  va_vy :: u32
  va_turn :: u32
  va_roll :: u32
  va_pitch :: u32
  va_yaw :: u32

definition CONTINUOUS_SCALE_STANDARD :: fl where "CONTINUOUS_SCALE_STANDARD = Fin 100"
definition CONTINUOUS_SCALE_COMPACT :: fl where "CONTINUOUS_SCALE_COMPACT = Fin 1"
definition POSITION_SCALE_COMPACT :: fl where "POSITION_SCALE_COMPACT = Fin (1 / 2)"

fun continuous_scale :: "QuantizationTier \<Rightarrow> fl" where
  "continuous_scale Compact = CONTINUOUS_SCALE_COMPACT"
| "continuous_scale Standard = CONTINUOUS_SCALE_STANDARD"
| "continuous_scale Full = Fin 1"

definition quantize :: "int \<Rightarrow> int \<Rightarrow> u32 \<Rightarrow> fl \<Rightarrow> int" where
  "quantize lo hi v scale =
     fto_int lo hi (fclamp (fof_int B32 lo) (fof_int B32 hi) (fround (fmul B32 (f32_of_bits v) scale)))"

fun pack_scaled :: "u32 \<Rightarrow> fl \<Rightarrow> QuantizationTier \<Rightarrow> bytes" where
  "pack_scaled v scale Compact = [word_of_int (quantize (-128) 127 v scale)]"
| "pack_scaled v scale Standard = be16 (word_of_int (quantize (-32768) 32767 v scale))"
| "pack_scaled v scale Full = be32 v"

fun unpack_scaled :: "bytes \<Rightarrow> fl \<Rightarrow> QuantizationTier \<Rightarrow> u32 option" where
  "unpack_scaled field scale Compact =
     (case field of [] \<Rightarrow> None
      | b # _ \<Rightarrow> Some (f32_to_bits (fdiv B32 (fof_int B32 (sint b)) scale)))"
| "unpack_scaled field scale Standard =
     (if length field \<noteq> 2 then None
      else Some (f32_to_bits (fdiv B32 (fof_int B32 (sint (of_be16 field))) scale)))"
| "unpack_scaled field scale Full =
     (if length field \<noteq> 4 then None else Some (of_be32 field))"

fun pack_u8 :: "u8 \<Rightarrow> QuantizationTier \<Rightarrow> bytes" where
  "pack_u8 v Compact = [v]"
| "pack_u8 v Standard = be16 (ucast v)"
| "pack_u8 v Full = be32 (f32_to_bits (fof_int B32 (uint v)))"

fun unpack_u8 :: "bytes \<Rightarrow> QuantizationTier \<Rightarrow> u8 option" where
  "unpack_u8 field Compact = (case field of [] \<Rightarrow> None | b # _ \<Rightarrow> Some b)"
| "unpack_u8 field Standard = (if length field \<noteq> 2 then None else Some (ucast (of_be16 field)))"
| "unpack_u8 field Full =
     (if length field \<noteq> 4 then None
      else Some (word_of_int (fto_int 0 255 (fround (f32_of_bits (of_be32 field))))))"

definition va_fields :: "VelocityAttitudeCommand \<Rightarrow> u32 list" where
  "va_fields c = [va_vx c, va_vy c, va_turn c, va_roll c, va_pitch c, va_yaw c]"

definition va_pack :: "VelocityAttitudeCommand \<Rightarrow> QuantizationTier \<Rightarrow> bytes" where
  "va_pack c tier =
     concat (List.map (\<lambda>v. pack_scaled v (continuous_scale tier) tier) (va_fields c))"

definition va_unpack :: "bytes \<Rightarrow> QuantizationTier \<Rightarrow> VelocityAttitudeCommand option" where
  "va_unpack bs tier =
     (if length bs < 6 * field_bytes tier then None
      else case chunks_exact (field_bytes tier) bs of
        a # b # c # d # e # f # _ \<Rightarrow>
          let get = (\<lambda>field. unpack_scaled field (continuous_scale tier) tier)
          in Option.bind (get a) (\<lambda>vx. Option.bind (get b) (\<lambda>vy. Option.bind (get c) (\<lambda>turn.
             Option.bind (get d) (\<lambda>roll. Option.bind (get e) (\<lambda>pitch. Option.bind (get f) (\<lambda>yaw.
             Some \<lparr>va_vx = vx, va_vy = vy, va_turn = turn, va_roll = roll, va_pitch = pitch,
                   va_yaw = yaw\<rparr>))))))
      | _ \<Rightarrow> None)"

definition va_pack_standard :: "VelocityAttitudeCommand \<Rightarrow> bytes" where
  "va_pack_standard c = va_pack c Standard"

definition va_unpack_standard :: "bytes \<Rightarrow> VelocityAttitudeCommand option" where
  "va_unpack_standard bs = va_unpack bs Standard"

record CartesianCommand =
  ca_x :: u32
  ca_y :: u32
  ca_z :: u32
  ca_gripper :: u8

definition position_scale :: "QuantizationTier \<Rightarrow> fl" where
  "position_scale tier = (case tier of Compact \<Rightarrow> POSITION_SCALE_COMPACT | _ \<Rightarrow> Fin 1)"

definition ca_pack :: "CartesianCommand \<Rightarrow> QuantizationTier \<Rightarrow> bytes" where
  "ca_pack c tier =
     concat (List.map (\<lambda>v. pack_scaled v (position_scale tier) tier) [ca_x c, ca_y c, ca_z c])
     @ pack_u8 (ca_gripper c) tier"

definition ca_unpack :: "bytes \<Rightarrow> QuantizationTier \<Rightarrow> CartesianCommand option" where
  "ca_unpack bs tier =
     (if length bs < 4 * field_bytes tier then None
      else case chunks_exact (field_bytes tier) bs of
        a # b # c # d # _ \<Rightarrow>
          let get = (\<lambda>field. unpack_scaled field (position_scale tier) tier)
          in Option.bind (get a) (\<lambda>x. Option.bind (get b) (\<lambda>y. Option.bind (get c) (\<lambda>z.
             Option.bind (unpack_u8 d tier) (\<lambda>g.
             Some \<lparr>ca_x = x, ca_y = y, ca_z = z, ca_gripper = g\<rparr>))))
      | _ \<Rightarrow> None)"

definition ca_pack_standard :: "CartesianCommand \<Rightarrow> bytes" where
  "ca_pack_standard c = ca_pack c Standard"

definition ca_unpack_standard :: "bytes \<Rightarrow> CartesianCommand option" where
  "ca_unpack_standard bs = ca_unpack bs Standard"

section \<open>Layouts are contiguous and computed from the profile's shape alone\<close>

definition selected_indices :: "(u8 \<Rightarrow> bool) \<Rightarrow> nat \<Rightarrow> JointDescriptor list \<Rightarrow> nat list" where
  "selected_indices sel i joints =
     List.map fst (filter (\<lambda>(_, j). sel (jd_region_id j)) (enumerate i joints))"

lemma selected_indices_simps [simp]:
  "selected_indices sel i [] = []"
  "selected_indices sel i (j # js) =
     (if sel (jd_region_id j) then [i] else []) @ selected_indices sel (Suc i) js"
  by (simp_all add: selected_indices_def)

lemma selected_indices_ge: "k \<in> set (selected_indices sel i js) \<Longrightarrow> i \<le> k"
  by (induction js arbitrary: i) (fastforce split: if_splits)+

lemma selected_indices_sorted: "sorted_wrt (<) (selected_indices sel i js)"
  by (induction js arbitrary: i) (auto dest: selected_indices_ge)

lemma selected_indices_lt: "k \<in> set (selected_indices sel i js) \<Longrightarrow> k < i + length js"
  by (induction js arbitrary: i) (fastforce split: if_splits)+

lemma selected_indices_length: "length (selected_indices sel i js) \<le> length js"
  by (induction js arbitrary: i) (auto intro: le_SucI)

definition field_at :: "QuantizationTier \<Rightarrow> u32 \<Rightarrow> nat \<times> nat \<Rightarrow> FieldOffset" where
  "field_at tier cursor = (\<lambda>(k, j). \<lparr>fo_joint_index = word_of_nat j,
     fo_byte_offset = cursor + word_of_nat k * bytes_per_field tier,
     fo_byte_len = bytes_per_field tier\<rparr>)"

lemma field_at_Suc: "field_at tier cursor (Suc k, j) = field_at tier (cursor + bytes_per_field tier) (k, j)"
  by (simp add: field_at_def algebra_simps)

lemma map_field_at_shift:
  "List.map (field_at tier cursor) (enumerate (Suc n) xs) =
   List.map (field_at tier (cursor + bytes_per_field tier)) (enumerate n xs)"
  by (induction xs arbitrary: n) (simp_all add: field_at_Suc)

lemma layout_loop_eq:
  "layout_loop sel tier i cursor js =
     (List.map (field_at tier cursor) (enumerate 0 (selected_indices sel i js)),
      cursor + word_of_nat (length (selected_indices sel i js)) * bytes_per_field tier)"
proof (induction js arbitrary: i cursor)
  case (Cons j js)
  then show ?case
    by (simp add: Let_def map_field_at_shift [of tier cursor 0] algebra_simps)
      (simp add: field_at_def)
qed simp

fun contiguous :: "u32 \<Rightarrow> (u32 \<times> u32) list \<Rightarrow> u32 \<Rightarrow> bool" where
  "contiguous c [] c' = (c = c')"
| "contiguous c ((off, len) # xs) c' = (off = c \<and> contiguous (c + len) xs c')"

lemma contiguous_append:
  "contiguous a xs b \<Longrightarrow> contiguous b ys c \<Longrightarrow> contiguous a (xs @ ys) c"
  by (induction a xs b rule: contiguous.induct) auto

definition fo_span :: "FieldOffset \<Rightarrow> u32 \<times> u32" where
  "fo_span f = (fo_byte_offset f, fo_byte_len f)"

lemma layout_loop_contiguous:
  "contiguous cursor (List.map fo_span (fst (layout_loop sel tier i cursor js)))
     (snd (layout_loop sel tier i cursor js))"
  by (induction js arbitrary: i cursor) (auto simp: Let_def fo_span_def split: prod.splits, metis fst_conv snd_conv)

text \<open>The telemetry layout in closed form.  The k-th field is the k-th selected joint of the
  profile, in wire order, at offset k times the tier's field width; as long as joint numbers fit
  their 16-bit index no two fields share a joint, the indices increase, and the offsets are exact,
  so fields never overlap.\<close>

theorem derive_layout_closed_form:
  "derive_layout p ids tier =
     List.map (field_at tier 0) (enumerate 0 (selected_indices (region_selected ids) 0 (rp_joints p)))
   \<and> (length (rp_joints p) \<le> 65536 \<longrightarrow>
        sorted_wrt (<) (List.map (unat \<circ> fo_joint_index) (derive_layout p ids tier))
      \<and> (\<forall>k < length (derive_layout p ids tier).
           unat (fo_byte_offset (derive_layout p ids tier ! k)) = k * field_bytes tier
         \<and> unat (fo_byte_len (derive_layout p ids tier ! k)) = field_bytes tier
         \<and> (let j = unat (fo_joint_index (derive_layout p ids tier ! k))
            in j < length (rp_joints p) \<and> region_selected ids (jd_region_id (rp_joints p ! j)))))"
proof (intro conjI impI allI)
  let ?idx = "selected_indices (region_selected ids) 0 (rp_joints p)"
  show eq: "derive_layout p ids tier = List.map (field_at tier 0) (enumerate 0 ?idx)"
    by (simp add: derive_layout_def layout_loop_eq)
  assume len: "length (rp_joints p) \<le> 65536"
  have u: "unat (word_of_nat j :: u16) = j" if "j \<in> set ?idx" for j
    using selected_indices_lt [OF that] len by (simp add: unat_of_nat take_bit_nat_eq_self)
  have idx: "List.map (unat \<circ> fo_joint_index) (derive_layout p ids tier) = ?idx"
  proof (rule nth_equalityI)
    show "length (List.map (unat \<circ> fo_joint_index) (derive_layout p ids tier)) = length ?idx"
      by (simp add: eq)
    fix k assume "k < length (List.map (unat \<circ> fo_joint_index) (derive_layout p ids tier))"
    then have "k < length ?idx" by (simp add: eq)
    then show "List.map (unat \<circ> fo_joint_index) (derive_layout p ids tier) ! k = ?idx ! k"
      using u [of "?idx ! k"] by (simp add: eq field_at_def nth_enumerate_eq)
  qed
  show "sorted_wrt (<) (List.map (unat \<circ> fo_joint_index) (derive_layout p ids tier))"
    unfolding idx by (rule selected_indices_sorted)
  fix k assume k: "k < length (derive_layout p ids tier)"
  then have k': "k < length ?idx" by (simp add: eq)
  then have "k \<le> 65536" using selected_indices_length [of "region_selected ids" 0 "rp_joints p"] len by linarith
  moreover have "field_bytes tier \<le> 4" by (rule field_bytes_bounds)
  ultimately have "k * field_bytes tier \<le> 65536 * 4" by (rule mult_le_mono)
  moreover have "unat (word_of_nat k :: u32) = k"
    using \<open>k \<le> 65536\<close> by (simp add: unat_of_nat take_bit_nat_eq_self)
  ultimately show "unat (fo_byte_offset (derive_layout p ids tier ! k)) = k * field_bytes tier"
    using k' by (simp add: eq field_at_def nth_enumerate_eq unat_mult_u32 field_bytes_def)
  show "unat (fo_byte_len (derive_layout p ids tier ! k)) = field_bytes tier"
    using k' by (simp add: eq field_at_def nth_enumerate_eq field_bytes_def)
  have "unat (fo_joint_index (derive_layout p ids tier ! k)) = ?idx ! k"
    using idx k by (metis comp_apply nth_map)
  moreover have "?idx ! k \<in> set ?idx" using k' by simp
  ultimately show "let j = unat (fo_joint_index (derive_layout p ids tier ! k))
      in j < length (rp_joints p) \<and> region_selected ids (jd_region_id (rp_joints p ! j))"
    by (auto simp: Let_def selected_indices_def in_set_enumerate_eq)
qed

definition example_profile :: RobotProfile where
  "example_profile = \<lparr>rp_dof_count = 3,
     rp_joints = List.map (\<lambda>r. \<lparr>jd_min_limit = 0, jd_max_limit = 0, jd_max_velocity = 0,
       jd_has_torque_sensing = False, jd_region_id = r\<rparr>) [0, 1, 2],
     rp_regions = List.map (\<lambda>(r, s). \<lparr>rd_region_id = r, rd_name = [], rd_joint_start = 0,
       rd_joint_count = 1, rd_has_force_torque_sensor = False, rd_command_shape = s\<rparr>)
       [(0, VelocityAttitude), (1, VelocityAttitude), (2, Kinematic)],
     rp_base_type = Other\<rparr>"

theorem derive_layout_closed_form_witness:
  "length (derive_layout example_profile [0, 2] Full) = 2
   \<and> unat (fo_byte_offset (derive_layout example_profile [0, 2] Full ! 1)) = 4"
proof -
  note all = derive_layout_closed_form [of example_profile "[0, 2]" Full]
  have "length (derive_layout example_profile [0, 2] Full) = 2"
    using conjunct1 [OF all] by (simp add: example_profile_def region_selected_def)
  moreover have "length (rp_joints example_profile) \<le> 65536" by (simp add: example_profile_def)
  ultimately have "unat (fo_byte_offset (derive_layout example_profile [0, 2] Full ! 1)) = 1 * field_bytes Full"
    using conjunct2 [OF all] by (metis Suc_1 lessI One_nat_def)
  with \<open>length _ = 2\<close> show ?thesis by simp
qed

fun block_spans :: "CommandBlock \<Rightarrow> (u32 \<times> u32) list" where
  "block_spans (BlockKinematic _ fs) = List.map fo_span fs"
| "block_spans (BlockVelocityAttitude off len) = [(off, len)]"
| "block_spans (BlockCartesianEndEffector _ off len) = [(off, len)]"

fun block_key :: "CommandBlock \<Rightarrow> (CommandShape \<times> u8) option" where
  "block_key (BlockKinematic r _) = Some (Kinematic, r)"
| "block_key (BlockVelocityAttitude _ _) = None"
| "block_key (BlockCartesianEndEffector r _ _) = Some (CartesianEndEffector, r)"

fun region_key :: "BodyRegionDescriptor \<Rightarrow> (CommandShape \<times> u8) option" where
  "region_key r = (if rd_command_shape r = VelocityAttitude then None
     else Some (rd_command_shape r, rd_region_id r))"

text \<open>All regions of the shared shape after the first are dropped.\<close>

fun keep_first_None :: "bool \<Rightarrow> 'a option list \<Rightarrow> 'a option list" where
  "keep_first_None seen [] = []"
| "keep_first_None seen (Some x # xs) = Some x # keep_first_None seen xs"
| "keep_first_None seen (None # xs) =
     (if seen then keep_first_None True xs else None # keep_first_None True xs)"

lemma command_loop_keys:
  "List.map block_key (command_loop js ids tier c seen regions) =
     keep_first_None seen (List.map region_key (filter (\<lambda>r. region_selected ids (rd_region_id r)) regions))"
  by (induction regions arbitrary: c seen)
    (auto simp: Let_def split: CommandShape.splits prod.splits)

definition gapless :: "u32 \<Rightarrow> (u32 \<times> u32) list \<Rightarrow> bool" where
  "gapless c spans \<longleftrightarrow> (\<exists>e. contiguous c spans e)"

lemma gapless_simps [simp]: "gapless c []" "gapless c ((off, len) # xs) \<longleftrightarrow> off = c \<and> gapless (c + len) xs"
  by (simp_all add: gapless_def)

lemma gapless_append: "contiguous a xs b \<Longrightarrow> gapless b ys \<Longrightarrow> gapless a (xs @ ys)"
  using contiguous_append unfolding gapless_def by blast

lemma command_loop_contiguous:
  "gapless c (concat (List.map block_spans (command_loop js ids tier c seen regions)))"
proof (induction regions arbitrary: c seen)
  case (Cons r regions)
  have kin: "gapless c (List.map fo_span fs @ concat (List.map block_spans
      (command_loop js ids tier c' seen regions)))" if "layout_loop sel tier 0 c js = (fs, c')" for sel fs c'
    using gapless_append [OF _ Cons.IH] layout_loop_contiguous [of c sel tier 0 js] that by simp
  from Cons kin show ?case
    by (auto simp: Let_def split: CommandShape.splits prod.splits)
qed simp

lemma command_loop_lengths:
  "b \<in> set (command_loop js ids tier c seen regions) \<Longrightarrow>
     (case b of
        BlockKinematic r fs \<Rightarrow> List.map fo_joint_index fs =
          List.map word_of_nat (selected_indices (\<lambda>x. x = r) 0 js)
          \<and> (\<forall>f \<in> set fs. fo_byte_len f = bytes_per_field tier)
      | BlockVelocityAttitude _ len \<Rightarrow> len = 6 * bytes_per_field tier
      | BlockCartesianEndEffector _ _ len \<Rightarrow> len = 4 * bytes_per_field tier)"
proof (induction regions arbitrary: c seen)
  case (Cons r regions)
  have "List.map fo_joint_index (List.map (field_at tier c) (enumerate 0 idx)) = List.map word_of_nat idx" for c idx
  proof -
    have "List.map (\<lambda>x. word_of_nat (snd x)) (enumerate 0 idx) = List.map word_of_nat (List.map snd (enumerate 0 idx))"
      by (simp only: map_map comp_def)
    then show ?thesis by (simp add: field_at_def comp_def split_def)
  qed
  moreover have "\<forall>f \<in> set (List.map (field_at tier c) (enumerate 0 idx)). fo_byte_len f = bytes_per_field tier" for c idx
    by (auto simp: field_at_def)
  ultimately show ?case using Cons
    by (auto simp: Let_def layout_loop_eq split: CommandShape.splits if_splits)
qed simp

lemma layout_loop_cong:
  "List.map jd_region_id js = List.map jd_region_id js' \<Longrightarrow>
   layout_loop sel tier i c js = layout_loop sel tier i c js'"
proof (induction js arbitrary: js' i c)
  case (Cons j js)
  then obtain j' js'' where "js' = j' # js''" "jd_region_id j = jd_region_id j'"
    "List.map jd_region_id js = List.map jd_region_id js''" by (cases js') auto
  with Cons.IH [of js''] show ?case by simp
qed simp

lemma command_loop_cong:
  assumes "List.map jd_region_id js = List.map jd_region_id js'"
  shows "List.map (\<lambda>r. (rd_region_id r, rd_command_shape r)) rs =
     List.map (\<lambda>r. (rd_region_id r, rd_command_shape r)) rs' \<Longrightarrow>
   command_loop js ids tier c seen rs = command_loop js' ids tier c seen rs'"
proof (induction rs arbitrary: rs' c seen)
  case (Cons r rs)
  then obtain r' rs'' where "rs' = r' # rs''" "rd_region_id r = rd_region_id r'"
    "rd_command_shape r = rd_command_shape r'"
    "List.map (\<lambda>r. (rd_region_id r, rd_command_shape r)) rs =
     List.map (\<lambda>r. (rd_region_id r, rd_command_shape r)) rs''" by (cases rs') auto
  with Cons.IH [of rs''] layout_loop_cong [OF assms] show ?case
    by (simp split: CommandShape.splits)
qed simp

text \<open>The command layout.  Its blocks follow the selected regions in profile order, all regions
  of the velocity/attitude shape sharing the one block of the first of them; the byte ranges of the
  blocks follow each other without gap or overlap from offset 0; a Kinematic block holds its own
  region's joints, the two fixed shapes have 6 and 4 fields; and the layout depends on nothing in
  the profile but the region ids, the shapes and the joints' regions, so two endpoints whose
  profiles agree there always derive the same bytes.\<close>

theorem derive_command_layout_correct:
  "List.map block_key (derive_command_layout p ids tier) =
     keep_first_None False
       (List.map region_key (filter (\<lambda>r. region_selected ids (rd_region_id r)) (rp_regions p)))
   \<and> gapless 0 (concat (List.map block_spans (derive_command_layout p ids tier)))
   \<and> (\<forall>b \<in> set (derive_command_layout p ids tier). case b of
        BlockKinematic r fs \<Rightarrow> List.map fo_joint_index fs =
          List.map word_of_nat (selected_indices (\<lambda>x. x = r) 0 (rp_joints p))
          \<and> (\<forall>f \<in> set fs. fo_byte_len f = bytes_per_field tier)
      | BlockVelocityAttitude _ len \<Rightarrow> len = 6 * bytes_per_field tier
      | BlockCartesianEndEffector _ _ len \<Rightarrow> len = 4 * bytes_per_field tier)
   \<and> (List.map jd_region_id (rp_joints p) = List.map jd_region_id (rp_joints q)
      \<and> List.map (\<lambda>r. (rd_region_id r, rd_command_shape r)) (rp_regions p) =
        List.map (\<lambda>r. (rd_region_id r, rd_command_shape r)) (rp_regions q)
      \<longrightarrow> derive_command_layout p ids tier = derive_command_layout q ids tier)"
  unfolding derive_command_layout_def
  by (intro conjI impI ballI command_loop_keys command_loop_contiguous command_loop_lengths command_loop_cong)
    simp_all

theorem derive_command_layout_correct_witness:
  "derive_command_layout example_profile [] Standard =
     derive_command_layout (example_profile\<lparr>rp_base_type := Stationary\<rparr>) [] Standard
   \<and> List.map block_key (derive_command_layout example_profile [] Standard) = [None, Some (Kinematic, 2)]"
proof -
  let ?q = "example_profile\<lparr>rp_base_type := Stationary\<rparr>"
  note all = derive_command_layout_correct [of example_profile "[]" Standard ?q]
  have "derive_command_layout example_profile [] Standard = derive_command_layout ?q [] Standard"
    using all by simp
  moreover have "keep_first_None False (List.map region_key
      (filter (\<lambda>r. region_selected [] (rd_region_id r)) (rp_regions example_profile)))
      = [None, Some (Kinematic, 2)]"
    by (simp add: example_profile_def region_selected_def)
  ultimately show ?thesis using conjunct1 [OF all] by simp
qed

section \<open>The hash\<close>

lemma fnv_prime_unit: "FNV_PRIME * 0xce965057aff6957b = 1"
  by (simp add: FNV_PRIME_def)

lemma fnv_mult_inject: "a * FNV_PRIME = b * FNV_PRIME \<longleftrightarrow> a = b"
proof
  assume "a * FNV_PRIME = b * FNV_PRIME"
  then have "a * FNV_PRIME * 0xce965057aff6957b = b * FNV_PRIME * 0xce965057aff6957b" by simp
  then show "a = b" by (simp only: mult.assoc fnv_prime_unit mult_1_right)
qed simp

lemma xor_word_inject: "(a :: 'a::len word) XOR c = b XOR c \<longleftrightarrow> a = b"
proof
  assume "a XOR c = b XOR c"
  then have "(a XOR c) XOR c = (b XOR c) XOR c" by (rule arg_cong)
  then show "a = b" by (simp add: xor.assoc)
qed simp

lemma fnv_step_inject: "fnv_step h b = fnv_step h' b \<longleftrightarrow> h = h'"
  by (simp add: fnv_step_def fnv_mult_inject xor_word_inject)

lemma ucast8_inject: "(ucast (a :: u8) :: u64) = ucast b \<longleftrightarrow> a = b"
proof -
  have "ucast (ucast c :: u64) = c" for c :: u8
    by (rule bit_word_eqI) (simp add: bit_simps)
  then show ?thesis by metis
qed

lemma fnv_step_byte_inject: "fnv_step h a = fnv_step h b \<longleftrightarrow> a = b"
  by (simp add: fnv_step_def fnv_mult_inject xor.commute [of h] xor_word_inject ucast8_inject)

lemma foldl_fnv_inject: "foldl fnv_step h bs = foldl fnv_step h' bs \<longleftrightarrow> h = h'"
  by (induction bs arbitrary: h h') (simp_all add: fnv_step_inject)

lemma fnv1a_single_byte: "fnv1a_64 (as @ x # bs) = fnv1a_64 (as @ y # bs) \<longleftrightarrow> x = y"
  by (simp add: fnv1a_64_def foldl_fnv_inject fnv_step_byte_inject)

text \<open>The profile hash notices small changes.  Two byte strings that differ in one byte never
  have the same FNV-1a hash, so changing the base type, one joint's body region, one joint's
  torque-sensing flag or one region's command shape always changes the profile hash.\<close>

theorem profile_hash_detects_change:
  "(fnv1a_64 (as @ x # bs) = fnv1a_64 (as @ y # bs) \<longleftrightarrow> x = y)
   \<and> (profile_hash (p\<lparr>rp_base_type := b\<rparr>) = profile_hash (p\<lparr>rp_base_type := b'\<rparr>) \<longleftrightarrow> b = b')
   \<and> (profile_hash (p\<lparr>rp_joints := js @ j\<lparr>jd_region_id := r\<rparr> # js'\<rparr>)
        = profile_hash (p\<lparr>rp_joints := js @ j\<lparr>jd_region_id := r'\<rparr> # js'\<rparr>) \<longleftrightarrow> r = r')
   \<and> (profile_hash (p\<lparr>rp_joints := js @ j\<lparr>jd_has_torque_sensing := t\<rparr> # js'\<rparr>)
        = profile_hash (p\<lparr>rp_joints := js @ j\<lparr>jd_has_torque_sensing := t'\<rparr> # js'\<rparr>) \<longleftrightarrow> t = t')
   \<and> (profile_hash (p\<lparr>rp_regions := rs @ q\<lparr>rd_command_shape := s\<rparr> # rs'\<rparr>)
        = profile_hash (p\<lparr>rp_regions := rs @ q\<lparr>rd_command_shape := s'\<rparr> # rs'\<rparr>) \<longleftrightarrow> s = s')"
proof (intro conjI)
  show "fnv1a_64 (as @ x # bs) = fnv1a_64 (as @ y # bs) \<longleftrightarrow> x = y" by (rule fnv1a_single_byte)
  have "base_code b = base_code b' \<longleftrightarrow> b = b'" by (cases b; cases b'; simp)
  then show "profile_hash (p\<lparr>rp_base_type := b\<rparr>) = profile_hash (p\<lparr>rp_base_type := b'\<rparr>) \<longleftrightarrow> b = b'"
    by (simp add: profile_hash_def profile_bytes_def fnv1a_single_byte)
  let ?pre = "le16 (rp_dof_count p) @ [base_code (rp_base_type p)] @ concat (List.map joint_bytes js)"
  let ?post = "concat (List.map joint_bytes js') @ concat (List.map region_bytes (rp_regions p))"
  show "profile_hash (p\<lparr>rp_joints := js @ j\<lparr>jd_region_id := r\<rparr> # js'\<rparr>)
        = profile_hash (p\<lparr>rp_joints := js @ j\<lparr>jd_region_id := r'\<rparr> # js'\<rparr>) \<longleftrightarrow> r = r'"
    using fnv1a_single_byte [of "?pre @ le32 (jd_min_limit j) @ le32 (jd_max_limit j)
      @ le32 (jd_max_velocity j) @ [of_bool (jd_has_torque_sensing j)]" r ?post r']
    by (simp add: profile_hash_def profile_bytes_def joint_bytes_def)
  have "(of_bool t :: u8) = of_bool t' \<longleftrightarrow> t = t'" by simp
  then show "profile_hash (p\<lparr>rp_joints := js @ j\<lparr>jd_has_torque_sensing := t\<rparr> # js'\<rparr>)
        = profile_hash (p\<lparr>rp_joints := js @ j\<lparr>jd_has_torque_sensing := t'\<rparr> # js'\<rparr>) \<longleftrightarrow> t = t'"
    using fnv1a_single_byte [of "?pre @ le32 (jd_min_limit j) @ le32 (jd_max_limit j)
      @ le32 (jd_max_velocity j)" "of_bool t" "jd_region_id j # ?post" "of_bool t'"]
    by (simp add: profile_hash_def profile_bytes_def joint_bytes_def)
  have "shape_code s = shape_code s' \<longleftrightarrow> s = s'" by (cases s; cases s'; simp)
  then show "profile_hash (p\<lparr>rp_regions := rs @ q\<lparr>rd_command_shape := s\<rparr> # rs'\<rparr>)
        = profile_hash (p\<lparr>rp_regions := rs @ q\<lparr>rd_command_shape := s'\<rparr> # rs'\<rparr>) \<longleftrightarrow> s = s'"
    using fnv1a_single_byte [of "le16 (rp_dof_count p) @ [base_code (rp_base_type p)]
      @ concat (List.map joint_bytes (rp_joints p)) @ concat (List.map region_bytes rs)
      @ [rd_region_id q] @ rd_name q @ le16 (rd_joint_start q) @ le16 (rd_joint_count q)
      @ [of_bool (rd_has_force_torque_sensor q)]" "shape_code s" "concat (List.map region_bytes rs')"
      "shape_code s'"]
    by (simp add: profile_hash_def profile_bytes_def region_bytes_def)
qed

definition two_regions :: "BodyRegionDescriptor list" where
  "two_regions =
     [\<lparr>rd_region_id = 1, rd_name = [], rd_joint_start = 0, rd_joint_count = 0,
        rd_has_force_torque_sensor = False, rd_command_shape = CartesianEndEffector\<rparr>,
      \<lparr>rd_region_id = 2, rd_name = [], rd_joint_start = 0, rd_joint_count = 0,
        rd_has_force_torque_sensor = False, rd_command_shape = CartesianEndEffector\<rparr>]"

definition one_region :: "BodyRegionDescriptor list" where
  "one_region =
     [\<lparr>rd_region_id = 1, rd_name = [0, 0, 0, 0, 0, 2, 2], rd_joint_start = 0, rd_joint_count = 0,
        rd_has_force_torque_sensor = False, rd_command_shape = CartesianEndEffector\<rparr>]"

text \<open>The hashed bytes do not delimit region names.  A robot with two unnamed regions and a robot
  with a single region whose (valid UTF-8) name spells the missing fields have the same hash, at any
  joints and base type, although their region lists and their command layouts differ: the hash does
  not identify the profile as the session cache assumes.\<close>

theorem profile_hash_ambiguous:
  "profile_hash (p\<lparr>rp_regions := two_regions\<rparr>) = profile_hash (p\<lparr>rp_regions := one_region\<rparr>)
   \<and> List.map block_key (derive_command_layout (p\<lparr>rp_regions := two_regions\<rparr>) [] tier)
       \<noteq> List.map block_key (derive_command_layout (p\<lparr>rp_regions := one_region\<rparr>) [] tier)"
proof
  have "concat (List.map region_bytes two_regions) = concat (List.map region_bytes one_region)"
  proof -
    have "le16 0 = [0, 0]" by code_simp
    then show ?thesis by (simp add: two_regions_def one_region_def region_bytes_def)
  qed
  then show "profile_hash (p\<lparr>rp_regions := two_regions\<rparr>) = profile_hash (p\<lparr>rp_regions := one_region\<rparr>)"
    by (simp add: profile_hash_def profile_bytes_def)
  show "List.map block_key (derive_command_layout (p\<lparr>rp_regions := two_regions\<rparr>) [] tier)
       \<noteq> List.map block_key (derive_command_layout (p\<lparr>rp_regions := one_region\<rparr>) [] tier)"
    by (simp only: derive_command_layout_def command_loop_keys)
      (simp add: two_regions_def one_region_def region_selected_def)
qed

section \<open>Quantised fields\<close>

lemma chunks_exact_split:
  assumes "0 < n" and "k * n \<le> length bs"
  shows "\<exists>cs. chunks_exact n bs = cs @ chunks_exact n (drop (k * n) bs) \<and> length cs = k
    \<and> concat cs = take (k * n) bs \<and> (\<forall>c \<in> set cs. length c = n)"
  using assms(2)
proof (induction k arbitrary: bs)
  case (Suc k)
  then have "k * n \<le> length (drop n bs)" by simp
  from Suc.IH [OF this] obtain cs where cs:
    "chunks_exact n (drop n bs) = cs @ chunks_exact n (drop (k * n) (drop n bs))"
    "length cs = k" "concat cs = take (k * n) (drop n bs)" "\<forall>c \<in> set cs. length c = n" by blast
  have "chunks_exact n bs = take n bs # chunks_exact n (drop n bs)"
    using Suc.prems assms(1) by (subst chunks_exact.simps) simp
  with cs Suc.prems show ?case
    by (intro exI [of _ "take n bs # cs"]) (simp add: take_add [symmetric] add.commute)
qed simp

lemma length_pack_scaled [simp]: "length (pack_scaled v s t) = field_bytes t"
  by (cases t) simp_all

lemma length_pack_u8 [simp]: "length (pack_u8 v t) = field_bytes t"
  by (cases t) simp_all

lemma unpack_scaled_Some: "length f = field_bytes t \<Longrightarrow> \<exists>v. unpack_scaled f s t = Some v"
  by (cases t; cases f) auto

lemma unpack_u8_Some: "length f = field_bytes t \<Longrightarrow> \<exists>v. unpack_u8 f t = Some v"
  by (cases t; cases f) auto

text \<open>Reading a quantised integer and writing it again gives the same integer.\<close>

lemma round_away_near: "\<bar>y - of_int i\<bar> < 1 / 2 \<Longrightarrow> round_away y = i"
proof -
  assume "\<bar>y - of_int i\<bar> < 1 / 2"
  then have near: "y - of_int i < 1 / 2" "- (1 / 2) < y - of_int i"
    by (simp_all only: abs_less_iff) linarith
  show ?thesis
  proof (cases "0 \<le> y")
    case True
    from near have "\<lfloor>y + 1 / 2\<rfloor> = i" by (intro floor_unique) linarith+
    with True show ?thesis by (simp add: round_away_def)
  next
    case False
    from near have "of_int (- i) \<le> - y + 1 / 2" "- y + 1 / 2 < of_int (- i) + (1 :: rat)"
      by simp_all
    then have "\<lfloor>- y + 1 / 2\<rfloor> = - i" by (rule floor_unique)
    with False show ?thesis by (simp add: round_away_def)
  qed
qed

lemma requantize:
  assumes i: "\<bar>i\<bar> \<le> 2 ^ 15" and s: "1 / 2 \<le> s" "s \<le> 100"
    and err: "\<bar>rnd B32 (of_int i / s) * s - of_int i\<bar> \<le> 1 / 4"
  shows "fround (fmul B32 (f32_of_bits (f32_to_bits (fdiv B32 (fof_int B32 i) (Fin s)))) (Fin s)) = Fin (of_int i)"
proof -
  have s0: "0 < s" using s by linarith
  have fi: "fof_int B32 i = Fin (of_int i)"
    using i fround_to_of_int [of i B32] by (simp add: fof_int_def)
  have ai: "\<bar>of_int i :: rat\<bar> \<le> 32768"
    using i of_int_le_iff [of "\<bar>i\<bar>" 32768, where ?'a = rat] by simp
  have "\<bar>of_int i / s\<bar> \<le> \<bar>of_int i\<bar> * 2"
  proof -
    have "\<bar>of_int i\<bar> * 1 \<le> \<bar>of_int i\<bar> * (2 * s)" using s by (intro mult_left_mono) auto
    then have "\<bar>of_int i\<bar> \<le> \<bar>of_int i\<bar> * 2 * s" by (simp only: mult_1_right mult.assoc)
    then have "\<bar>of_int i\<bar> / s \<le> \<bar>of_int i\<bar> * 2" using s0 by (simp only: pos_divide_le_eq)
    then show ?thesis using s0 by (simp only: abs_divide abs_of_pos)
  qed
  then have q: "\<bar>of_int i / s\<bar> \<le> of_int 65536" using ai by simp
  note dq = fround_to_small [OF q, of B32]
  have bits: "f32_of_bits (f32_to_bits (fdiv B32 (fof_int B32 i) (Fin s))) = Fin (rnd B32 (of_int i / s))"
    using s0 dq(1) f32_of_to_bits_rnd [OF q] by (simp add: fi)
  let ?y = "rnd B32 (of_int i / s) * s"
  have y: "\<bar>?y\<bar> \<le> of_int 32769" using err ai by linarith
  note dy = fround_to_small [OF y, of B32]
  have "\<bar>?y\<bar> \<le> p2 16" using y by (simp add: p2_def)
  then have e2: "\<bar>rnd B32 ?y - ?y\<bar> \<le> p2 (16 - 24)" using rnd_error [of ?y 16 B32] by simp
  have "p2 (16 - 24) = 1 / 256" by (simp add: p2_def)
  with e2 err have "\<bar>rnd B32 ?y - of_int i\<bar> < 1 / 2" by linarith
  then show ?thesis using dy(1) by (simp add: bits round_away_near)
qed

lemma quantize_requantize:
  assumes "lo \<le> i" "i \<le> hi" "-32768 \<le> lo" "hi \<le> 32767" and "1 / 2 \<le> s" "s \<le> 100"
    and "\<bar>rnd B32 (of_int i / s) * s - of_int i\<bar> \<le> 1 / 4"
  shows "quantize lo hi (f32_to_bits (fdiv B32 (fof_int B32 i) (Fin s))) (Fin s) = i"
proof -
  have "\<bar>i\<bar> \<le> 2 ^ 15" using assms by simp
  from requantize [OF this assms(5-7)]
  have r: "fround (fmul B32 (f32_of_bits (f32_to_bits (fdiv B32 (fof_int B32 i) (Fin s)))) (Fin s)) = Fin (of_int i)" .
  have "fof_int B32 lo = Fin (of_int lo)" "fof_int B32 hi = Fin (of_int hi)"
    using assms fround_to_of_int [of lo B32] fround_to_of_int [of hi B32] by (simp_all add: fof_int_def)
  with assms r show ?thesis by (simp add: quantize_def fclamp_def trunc_rat_def)
qed

lemma rnd_int_scale: "\<bar>n\<bar> \<le> 2 ^ 24 \<Longrightarrow> rnd B32 (of_int n) = of_int n"
  using rnd_of_int [of n B32] by simp

lemma scale_err_1: "\<bar>i\<bar> \<le> 2 ^ 15 \<Longrightarrow> \<bar>rnd B32 (of_int i / 1) * 1 - of_int i\<bar> \<le> 1 / 4"
  by (simp add: rnd_int_scale)

lemma scale_err_half: "\<bar>i\<bar> \<le> 2 ^ 15 \<Longrightarrow> \<bar>rnd B32 (of_int i / (1 / 2)) * (1 / 2) - of_int i\<bar> \<le> 1 / 4"
  using rnd_int_scale [of "i * 2"] by simp

lemma scale_err_100: "\<bar>i\<bar> \<le> 2 ^ 15 \<Longrightarrow> \<bar>rnd B32 (of_int i / 100) * 100 - of_int i\<bar> \<le> 1 / 4"
proof -
  assume "\<bar>i\<bar> \<le> 2 ^ 15"
  then have "\<bar>of_int i :: rat\<bar> \<le> 32768"
    using of_int_le_iff [of "\<bar>i\<bar>" 32768, where ?'a = rat] by simp
  then have "\<bar>of_int i / 100 :: rat\<bar> \<le> p2 9" by (simp add: p2_def)
  then have "\<bar>rnd B32 (of_int i / 100) - of_int i / 100\<bar> \<le> p2 (9 - 24)"
    using rnd_error [of "of_int i / 100" 9 B32] by simp
  moreover have "p2 (9 - 24) = 1 / 32768" by (simp add: p2_def)
  ultimately show ?thesis by linarith
qed

text \<open>The scales the source uses at each tier.\<close>

definition scale_ok :: "fl \<Rightarrow> bool" where
  "scale_ok s \<longleftrightarrow> s \<in> {Fin 1, Fin (1 / 2), Fin 100}"

lemma scale_ok_simps [simp]: "scale_ok (continuous_scale t)" "scale_ok (position_scale t)"
  by (cases t; simp add: scale_ok_def CONTINUOUS_SCALE_STANDARD_def CONTINUOUS_SCALE_COMPACT_def
    position_scale_def POSITION_SCALE_COMPACT_def)+

lemma quantize_reads_back:
  assumes "lo \<le> i" "i \<le> hi" "-32768 \<le> lo" "hi \<le> 32767" and "scale_ok s"
  shows "quantize lo hi (f32_to_bits (fdiv B32 (fof_int B32 i) s)) s = i"
proof -
  have "\<bar>i\<bar> \<le> 2 ^ 15" using assms by simp
  note err = scale_err_1 [OF this] scale_err_half [OF this] scale_err_100 [OF this]
  show ?thesis using assms(5) unfolding scale_ok_def
    by (elim insertE emptyE; simp only:) (rule quantize_requantize [OF assms(1-4)]; use err in simp)+
qed

lemma sint8_bounds: "-128 \<le> sint (b :: u8)" "sint b \<le> 127"
  using sint_range_size [of b] by (simp_all add: word_size)

lemma sint16_bounds: "-32768 \<le> sint (b :: u16)" "sint b \<le> 32767"
  using sint_range_size [of b] by (simp_all add: word_size)

lemma pack_unpack_scaled:
  assumes "length f = field_bytes t" and "unpack_scaled f s t = Some v" and "scale_ok s"
  shows "pack_scaled v s t = f"
proof (cases t)
  case Compact
  with assms(1) obtain b where f: "f = [b]" by (cases f) auto
  with Compact assms(2) have "v = f32_to_bits (fdiv B32 (fof_int B32 (sint b)) s)" by simp
  with Compact f show ?thesis
    using quantize_reads_back [OF sint8_bounds [of b] _ _ assms(3)] by simp
next
  case Standard
  with assms have "v = f32_to_bits (fdiv B32 (fof_int B32 (sint (of_be16 f))) s)" by simp
  with Standard assms(1) show ?thesis
    using quantize_reads_back [OF sint16_bounds [of "of_be16 f"] _ _ assms(3)] by (simp add: be16_of_be16)
next
  case Full
  with assms show ?thesis by (auto simp: be32_of_be32)
qed

lemma chunks_exact_concat_append:
  "0 < n \<Longrightarrow> \<forall>c \<in> set cs. length c = n \<Longrightarrow> chunks_exact n (concat cs @ rest) = cs @ chunks_exact n rest"
  by (induction cs) (auto simp: chunks_exact_append)

lemma chunks_of_packed:
  "chunks_exact (field_bytes t) (concat (List.map (\<lambda>v. pack_scaled v s t) vs) @ rest)
     = List.map (\<lambda>v. pack_scaled v s t) vs @ chunks_exact (field_bytes t) rest"
  using chunks_exact_concat_append [of "field_bytes t" "List.map (\<lambda>v. pack_scaled v s t) vs" rest]
  by (simp add: field_bytes_bounds)

lemma length_packed: "length (concat (List.map (\<lambda>v. pack_scaled v s t) vs)) = length vs * field_bytes t"
  by (induction vs) simp_all

lemma length_va_pack: "length (va_pack c t) = 6 * field_bytes t"
  by (simp add: va_pack_def length_packed va_fields_def)

lemma length_ca_pack: "length (ca_pack c t) = 4 * field_bytes t"
  by (simp add: ca_pack_def length_packed)

text \<open>Unpacking as a walk over the fields.\<close>

lemma va_unpack_iff:
  "va_unpack bs t = Some c \<longleftrightarrow>
     (\<exists>fs rest. bs = concat fs @ rest \<and> length fs = 6 \<and> (\<forall>f \<in> set fs. length f = field_bytes t)
        \<and> List.map (\<lambda>f. unpack_scaled f (continuous_scale t) t) fs = List.map Some (va_fields c))"
  (is "?L \<longleftrightarrow> ?R")
proof
  assume L: ?L
  then have len: "6 * field_bytes t \<le> length bs" by (auto simp: va_unpack_def split: if_splits)
  from chunks_exact_split [OF field_bytes_bounds(1) len] obtain cs where
    cs: "chunks_exact (field_bytes t) bs = cs @ chunks_exact (field_bytes t) (drop (6 * field_bytes t) bs)"
    "length cs = 6" "concat cs = take (6 * field_bytes t) bs" "\<forall>c \<in> set cs. length c = field_bytes t" by blast
  from cs(2) obtain a b d e f g where abc: "cs = [a, b, d, e, f, g]"
    by (auto simp: length_Suc_conv eval_nat_numeral)
  have "bs = concat cs @ drop (6 * field_bytes t) bs" using cs(3) by simp
  moreover have "List.map (\<lambda>f. unpack_scaled f (continuous_scale t) t) cs = List.map Some (va_fields c)"
    using L len cs(1) by (auto simp: va_unpack_def abc Let_def va_fields_def split: bind_splits)
  ultimately show ?R using cs by blast
next
  assume ?R
  then obtain fs rest where fs: "bs = concat fs @ rest" "length fs = 6"
    "\<forall>f \<in> set fs. length f = field_bytes t"
    "List.map (\<lambda>f. unpack_scaled f (continuous_scale t) t) fs = List.map Some (va_fields c)" by blast
  from fs(2) obtain a b d e f g where abc: "fs = [a, b, d, e, f, g]"
    by (auto simp: length_Suc_conv eval_nat_numeral)
  have "length bs = 6 * field_bytes t + length rest" using fs(1,3) abc by simp
  moreover have "chunks_exact (field_bytes t) bs = fs @ chunks_exact (field_bytes t) rest"
    using chunks_exact_concat_append fs(1,3) field_bytes_bounds by blast
  ultimately show ?L using fs(4) by (simp add: va_unpack_def abc Let_def va_fields_def)
qed

lemma ca_unpack_iff:
  "ca_unpack bs t = Some c \<longleftrightarrow>
     (\<exists>fs g rest. bs = concat fs @ g @ rest \<and> length fs = 3 \<and> (\<forall>f \<in> set fs. length f = field_bytes t)
        \<and> List.map (\<lambda>f. unpack_scaled f (position_scale t) t) fs = List.map Some [ca_x c, ca_y c, ca_z c]
        \<and> length g = field_bytes t \<and> unpack_u8 g t = Some (ca_gripper c))"
  (is "?L \<longleftrightarrow> ?R")
proof
  assume L: ?L
  then have len: "4 * field_bytes t \<le> length bs" by (auto simp: ca_unpack_def split: if_splits)
  from chunks_exact_split [OF field_bytes_bounds(1) len] obtain cs where
    cs: "chunks_exact (field_bytes t) bs = cs @ chunks_exact (field_bytes t) (drop (4 * field_bytes t) bs)"
    "length cs = 4" "concat cs = take (4 * field_bytes t) bs" "\<forall>c \<in> set cs. length c = field_bytes t" by blast
  from cs(2) obtain a b d e where abc: "cs = [a, b, d, e]"
    by (auto simp: length_Suc_conv eval_nat_numeral)
  have "concat cs @ drop (4 * field_bytes t) bs = bs" using cs(3) by simp
  then have "bs = concat [a, b, d] @ e @ drop (4 * field_bytes t) bs" unfolding abc by simp
  moreover have "List.map (\<lambda>f. unpack_scaled f (position_scale t) t) [a, b, d] = List.map Some [ca_x c, ca_y c, ca_z c]
      \<and> unpack_u8 e t = Some (ca_gripper c)"
    using L len cs(1) by (auto simp: ca_unpack_def abc Let_def split: bind_splits)
  ultimately show ?R using cs(4) abc
    by (intro exI [of _ "[a, b, d]"] exI [of _ e] exI [of _ "drop (4 * field_bytes t) bs"]) simp
next
  assume ?R
  then obtain fs g rest where fs: "bs = concat fs @ g @ rest" "length fs = 3"
    "\<forall>f \<in> set fs. length f = field_bytes t"
    "List.map (\<lambda>f. unpack_scaled f (position_scale t) t) fs = List.map Some [ca_x c, ca_y c, ca_z c]"
    "length g = field_bytes t" "unpack_u8 g t = Some (ca_gripper c)" by blast
  from fs(2) obtain a b d where abc: "fs = [a, b, d]"
    by (auto simp: length_Suc_conv eval_nat_numeral)
  have "length bs = 4 * field_bytes t + length rest" using fs(1,3,5) abc by simp
  moreover have "chunks_exact (field_bytes t) bs = fs @ g # chunks_exact (field_bytes t) rest"
    using chunks_exact_concat_append [of "field_bytes t" "fs @ [g]" rest] fs(1,3,5) field_bytes_bounds by simp
  ultimately show ?L using fs(4,6) by (simp add: ca_unpack_def abc Let_def)
qed

lemma same_pieces:
  assumes "concat fs @ rest = concat gs @ rest'" "length fs = length gs"
    "\<forall>f \<in> set fs. length f = n" "\<forall>g \<in> set gs. length g = n"
  shows "fs = gs"
  using assms(2,1,3,4) by (induction fs gs rule: list_induct2) auto

lemma va_unpack_None: "va_unpack bs t = None \<longleftrightarrow> length bs < 6 * field_bytes t"
proof (cases "length bs < 6 * field_bytes t")
  case False
  then have len: "6 * field_bytes t \<le> length bs" by simp
  from chunks_exact_split [OF field_bytes_bounds(1) len] obtain cs where
    cs: "chunks_exact (field_bytes t) bs = cs @ chunks_exact (field_bytes t) (drop (6 * field_bytes t) bs)"
    "length cs = 6" "\<forall>c \<in> set cs. length c = field_bytes t" by blast
  from cs(2) obtain a b d e f g where abc: "cs = [a, b, d, e, f, g]"
    by (auto simp: length_Suc_conv eval_nat_numeral)
  from cs(3) have "\<forall>f \<in> set cs. \<exists>v. unpack_scaled f (continuous_scale t) t = Some v"
    by (auto intro: unpack_scaled_Some)
  with False show ?thesis by (auto simp: va_unpack_def cs(1) abc Let_def)
qed (simp add: va_unpack_def)

lemma ca_unpack_None: "ca_unpack bs t = None \<longleftrightarrow> length bs < 4 * field_bytes t"
proof (cases "length bs < 4 * field_bytes t")
  case False
  then have len: "4 * field_bytes t \<le> length bs" by simp
  from chunks_exact_split [OF field_bytes_bounds(1) len] obtain cs where
    cs: "chunks_exact (field_bytes t) bs = cs @ chunks_exact (field_bytes t) (drop (4 * field_bytes t) bs)"
    "length cs = 4" "\<forall>c \<in> set cs. length c = field_bytes t" by blast
  from cs(2) obtain a b d e where abc: "cs = [a, b, d, e]"
    by (auto simp: length_Suc_conv eval_nat_numeral)
  from cs(3) abc have "\<forall>f \<in> {a, b, d}. \<exists>v. unpack_scaled f (position_scale t) t = Some v"
    and "\<exists>v. unpack_u8 e t = Some v" by (auto intro: unpack_scaled_Some unpack_u8_Some)
  with False show ?thesis by (auto simp: ca_unpack_def cs(1) abc Let_def)
qed (simp add: ca_unpack_def)

lemma va_pack_unpack:
  assumes "va_unpack bs t = Some c'"
  shows "va_pack c' t = take (6 * field_bytes t) bs"
proof -
  from assms obtain fs rest where fs: "bs = concat fs @ rest" "length fs = 6"
    "\<forall>f \<in> set fs. length f = field_bytes t"
    "List.map (\<lambda>f. unpack_scaled f (continuous_scale t) t) fs = List.map Some (va_fields c')"
    unfolding va_unpack_iff by blast
  have "List.map (\<lambda>v. pack_scaled v (continuous_scale t) t) (va_fields c') = fs"
  proof (rule nth_equalityI)
    show len: "length (List.map (\<lambda>v. pack_scaled v (continuous_scale t) t) (va_fields c')) = length fs"
      using fs(2) by (simp add: va_fields_def)
    fix i assume "i < length (List.map (\<lambda>v. pack_scaled v (continuous_scale t) t) (va_fields c'))"
    then have i: "i < length (va_fields c')" "i < length fs" using len by simp_all
    from fs(4) i have "unpack_scaled (fs ! i) (continuous_scale t) t = Some (va_fields c' ! i)"
      by (metis nth_map)
    then show "List.map (\<lambda>v. pack_scaled v (continuous_scale t) t) (va_fields c') ! i = fs ! i"
      using fs(3) i by (simp add: pack_unpack_scaled)
  qed
  then have "va_pack c' t = concat fs" by (simp add: va_pack_def)
  moreover have "length (concat fs) = 6 * field_bytes t" using calculation length_va_pack by metis
  ultimately show ?thesis using fs(1) by simp
qed

text \<open>The velocity/attitude command on the wire.  It always has six fields of the tier's width;
  a buffer is refused exactly when it is shorter than that; at the Full tier every bit pattern
  survives; and at every tier, packing what was unpacked reproduces the bytes, so a quantised
  command is stable over any number of relays.\<close>

theorem velocity_attitude_codec:
  "length (va_pack c t) = 6 * field_bytes t
   \<and> (va_unpack bs t = None \<longleftrightarrow> length bs < 6 * field_bytes t)
   \<and> va_unpack (va_pack c Full @ rest) Full = Some c
   \<and> (va_unpack bs t = Some c' \<longrightarrow> va_pack c' t = take (6 * field_bytes t) bs)"
proof (intro conjI impI)
  show "length (va_pack c t) = 6 * field_bytes t" by (rule length_va_pack)
  show "va_unpack (va_pack c Full @ rest) Full = Some c"
    unfolding va_unpack_iff
    by (intro exI [of _ "List.map (\<lambda>v. pack_scaled v (continuous_scale Full) Full) (va_fields c)"] exI [of _ rest])
      (auto simp: va_pack_def va_fields_def)
  show "va_unpack bs t = None \<longleftrightarrow> length bs < 6 * field_bytes t" by (rule va_unpack_None)
qed (rule va_pack_unpack)

lemma velocity_attitude_unpack_total: "va_unpack (va_pack c t @ rest) t \<noteq> None"
  by (simp only: va_unpack_None length_append length_va_pack)

lemma cartesian_unpack_total: "ca_unpack (ca_pack k t @ rest) t \<noteq> None"
  by (simp only: ca_unpack_None length_append length_ca_pack)

theorem velocity_attitude_codec_witness:
  "\<exists>c'. va_unpack [0, 100, 255, 156, 0, 0, 1, 2, 3, 4, 128, 0, 9] Standard = Some c'
     \<and> va_pack c' Standard = [0, 100, 255, 156, 0, 0, 1, 2, 3, 4, 128, 0]"
proof -
  let ?bs = "[0, 100, 255, 156, 0, 0, 1, 2, 3, 4, 128, 0, 9] :: bytes"
  note all = velocity_attitude_codec [of _ Standard ?bs]
  obtain c' where "va_unpack ?bs Standard = Some c'"
    using all by (cases "va_unpack ?bs Standard") auto
  with all show ?thesis by simp
qed

text \<open>How far a field moves when it is quantised and read back.\<close>

lemma round_away_le: "\<bar>y\<bar> \<le> of_int n \<Longrightarrow> \<bar>round_away y\<bar> \<le> n"
proof -
  assume y: "\<bar>y\<bar> \<le> of_int n"
  have e: "\<bar>of_int (round_away y) - y\<bar> \<le> 1 / 2" by (rule round_away_error)
  with y have "\<bar>of_int (round_away y)\<bar> < (of_int n + 1 :: rat)" by linarith
  then have "of_int \<bar>round_away y\<bar> < (of_int (n + 1) :: rat)" by simp
  then show ?thesis unfolding of_int_less_iff by simp
qed

lemma quantize_error:
  assumes x: "f32_of_bits v = Fin x" and hi: "\<bar>x * s\<bar> \<le> of_int hi" "hi \<le> 32767" and lo: "lo = - hi - 1"
  shows "\<bar>of_int (quantize lo hi v (Fin s)) - x * s\<bar> \<le> 1 / 2 + 1 / 512"
    and "\<bar>quantize lo hi v (Fin s)\<bar> \<le> hi"
proof -
  have hi0: "0 \<le> hi" using hi(1) by (metis abs_ge_zero of_int_0_le_iff order_trans)
  note m = fround_to_small [OF hi(1), of B32]
  have "of_int hi \<le> (32767 :: rat)" using hi(2) of_int_le_iff [of hi 32767, where ?'a = rat] by simp
  then have "\<bar>x * s\<bar> \<le> p2 15" using hi(1) by (simp add: p2_def)
  then have e: "\<bar>rnd B32 (x * s) - x * s\<bar> \<le> p2 (15 - 24)" using rnd_error [of "x * s" 15 B32] by simp
  have p: "p2 (15 - 24) = 1 / 512" by (simp add: p2_def)
  let ?r = "round_away (rnd B32 (x * s))"
  have r: "\<bar>?r\<bar> \<le> hi" using m(2) hi(2) by (intro round_away_le) simp
  have "fof_int B32 lo = Fin (of_int lo)" "fof_int B32 hi = Fin (of_int hi)"
    using hi hi0 lo fround_to_of_int [of lo B32] fround_to_of_int [of hi B32] by (simp_all add: fof_int_def)
  then have q: "quantize lo hi v (Fin s) = ?r"
    using r lo m(1) hi(2) by (simp add: quantize_def x fclamp_def trunc_rat_def abs_le_iff)
  show "\<bar>quantize lo hi v (Fin s)\<bar> \<le> hi" using r q by simp
  show "\<bar>of_int (quantize lo hi v (Fin s)) - x * s\<bar> \<le> 1 / 2 + 1 / 512"
    using round_away_error [of "rnd B32 (x * s)"] e unfolding p q by linarith
qed

lemma dequantize_error:
  assumes "\<bar>i\<bar> \<le> 32767" and "scale_ok (Fin s)"
  shows "\<exists>y. f32_of_bits (f32_to_bits (fdiv B32 (fof_int B32 i) (Fin s))) = Fin y
    \<and> \<bar>y - of_int i / s\<bar> \<le> 1 / 256 / s"
proof -
  have s: "0 < s" "s = 1 \<or> s = 1 / 2 \<or> s = 100" using assms(2) by (auto simp: scale_ok_def)
  have ai: "\<bar>of_int i :: rat\<bar> \<le> 32767"
    using assms(1) of_int_le_iff [of "\<bar>i\<bar>" 32767, where ?'a = rat] by simp
  have q: "\<bar>of_int i / s\<bar> \<le> of_int 65536" using s(2) ai by (elim disjE; hypsubst; simp)
  have fi: "fof_int B32 i = Fin (of_int i)"
    using assms(1) fround_to_of_int [of i B32] by (simp add: fof_int_def)
  have "f32_of_bits (f32_to_bits (fdiv B32 (fof_int B32 i) (Fin s))) = Fin (rnd B32 (of_int i / s))"
    using s(1) fround_to_small [OF q, of B32] f32_of_to_bits_rnd [OF q] by (simp add: fi)
  moreover have "\<bar>rnd B32 (of_int i / s) - of_int i / s\<bar> \<le> 1 / 256 / s"
    using s(2)
  proof (elim disjE)
    assume s1: "s = 100"
    have "\<bar>of_int i / 100 :: rat\<bar> \<le> p2 9" using ai by (simp add: p2_def)
    then have "\<bar>rnd B32 (of_int i / 100) - of_int i / 100\<bar> \<le> p2 (9 - 24)"
      using rnd_error [of "of_int i / 100" 9 B32] by simp
    moreover have "p2 (9 - 24) = 1 / 32768" by (simp add: p2_def)
    moreover have "(1 / 32768 :: rat) \<le> 1 / 256 / 100" by simp
    ultimately show ?thesis unfolding s1 by linarith
  next
    assume "s = 1"
    then show ?thesis using rnd_int_scale [of i] assms(1) by simp
  next
    assume s2: "s = 1 / 2"
    show ?thesis unfolding s2 using rnd_int_scale [of "i * 2"] assms(1) by simp
  qed
  ultimately show ?thesis by blast
qed

text \<open>The largest scaled magnitude a tier holds without clipping, as the source's comments give it.\<close>

fun tier_limit :: "QuantizationTier \<Rightarrow> int" where
  "tier_limit Compact = 127"
| "tier_limit Standard = 32767"
| "tier_limit Full = 0"

lemma pack_scaled_accuracy:
  assumes "f32_of_bits v = Fin x" and "\<bar>x * s\<bar> \<le> of_int (tier_limit t)" and "t \<noteq> Full"
    and s: "scale_ok (Fin s)" and "unpack_scaled (pack_scaled v (Fin s) t) (Fin s) t = Some v'"
  shows "\<exists>x'. f32_of_bits v' = Fin x' \<and> \<bar>x' - x\<bar> \<le> 51 / 100 / s"
proof -
  define hi where "hi = tier_limit t"
  define lo where "lo = - hi - 1"
  define i where "i = quantize lo hi v (Fin s)"
  have s0: "0 < s" using s by (auto simp: scale_ok_def)
  have hi: "hi \<le> 32767" by (cases t) (simp_all add: hi_def)
  note q = quantize_error [OF assms(1) assms(2) [folded hi_def] hi lo_def, folded i_def]
  have v': "v' = f32_to_bits (fdiv B32 (fof_int B32 i) (Fin s))"
  proof (cases t)
    case Compact
    then have "sint (word_of_int i :: u8) = i" using q(2)
      by (simp add: signed_of_int hi_def abs_le_iff signed_take_bit_int_eq_self)
    with Compact assms(5) show ?thesis by (simp add: i_def lo_def hi_def)
  next
    case Standard
    then have "sint (word_of_int i :: u16) = i" using q(2)
      by (simp add: signed_of_int hi_def abs_le_iff signed_take_bit_int_eq_self)
    with Standard assms(5) show ?thesis by (simp add: i_def lo_def hi_def)
  next
    case Full
    with assms(3) show ?thesis by simp
  qed
  have "\<bar>i\<bar> \<le> 32767" using q(2) hi by simp
  from dequantize_error [OF this s] obtain y where
    y: "f32_of_bits v' = Fin y" "\<bar>y - of_int i / s\<bar> \<le> 1 / 256 / s" unfolding v' by blast
  have "of_int i / s - x = (of_int i - x * s) / s" using s0 by (simp add: diff_divide_distrib)
  then have "\<bar>of_int i / s - x\<bar> = \<bar>of_int i - x * s\<bar> / s" using s0 by (simp add: abs_divide)
  also have "\<dots> \<le> (1 / 2 + 1 / 512) / s" using q(1) s0 by (intro divide_right_mono) simp_all
  finally have "\<bar>y - x\<bar> \<le> 1 / 256 / s + (1 / 2 + 1 / 512) / s" using y(2) by linarith
  also have "\<dots> = (1 / 256 + (1 / 2 + 1 / 512)) / s" by (simp only: add_divide_distrib)
  also have "\<dots> \<le> 51 / 100 / s" using s0 by (intro divide_right_mono) simp_all
  finally show ?thesis using y(1) by blast
qed

lemma unpack_pack_u8: "unpack_u8 (pack_u8 g t) t = Some g"
proof (cases t)
  case Standard
  have "ucast (ucast g :: u16) = g" by (rule bit_word_eqI) (simp add: bit_simps)
  with Standard show ?thesis by simp
next
  case Full
  define n where "n = uint g"
  have u: "uint g = n" "g = word_of_int n" and g: "0 \<le> n" "n < 256"
    using uint_lt2p [of g] by (simp_all add: n_def)
  then have f: "fof_int B32 (uint g) = Fin (of_int n)"
    using fround_to_of_int [of n B32] unfolding u(1) fof_int_def by simp
  have "f32_of_bits (f32_to_bits (Fin (of_int n * p2 0))) = Fin (of_int n * p2 0)"
    using g by (intro f32_of_to_bits_exact) simp_all
  moreover have "round_away (of_int n) = n" by (rule round_away_near) simp
  ultimately have "unpack_u8 (be32 (f32_to_bits (Fin (of_int n)))) Full = Some (word_of_int n)"
    using g by (simp add: trunc_rat_def del: f32_to_bits.simps)
  then show ?thesis using Full f u(2) by (simp del: f32_to_bits.simps)
qed simp

lemma ca_unpack_pack:
  assumes "ca_unpack (ca_pack k t @ rest) t = Some k'"
  shows "List.map (\<lambda>v. unpack_scaled (pack_scaled v (position_scale t) t) (position_scale t) t)
      [ca_x k, ca_y k, ca_z k] = List.map Some [ca_x k', ca_y k', ca_z k']"
    and "unpack_u8 (pack_u8 (ca_gripper k) t) t = Some (ca_gripper k')"
proof -
  let ?gs = "List.map (\<lambda>v. pack_scaled v (position_scale t) t) [ca_x k, ca_y k, ca_z k]"
  from assms obtain fs g r where fs: "concat ?gs @ pack_u8 (ca_gripper k) t @ rest = concat fs @ g @ r"
    "length fs = 3" "\<forall>f \<in> set fs. length f = field_bytes t"
    "List.map (\<lambda>f. unpack_scaled f (position_scale t) t) fs = List.map Some [ca_x k', ca_y k', ca_z k']"
    "length g = field_bytes t" "unpack_u8 g t = Some (ca_gripper k')"
    unfolding ca_unpack_iff ca_pack_def append_assoc by blast
  have eq: "?gs = fs" by (rule same_pieces [OF fs(1)]) (use fs in auto)
  with fs(4) show "List.map (\<lambda>v. unpack_scaled (pack_scaled v (position_scale t) t) (position_scale t) t)
      [ca_x k, ca_y k, ca_z k] = List.map Some [ca_x k', ca_y k', ca_z k']" by auto
  from fs(1) eq have "pack_u8 (ca_gripper k) t @ rest = g @ r" by (auto simp: eq [symmetric])
  with fs(5) have "pack_u8 (ca_gripper k) t = g" by simp
  with fs(6) show "unpack_u8 (pack_u8 (ca_gripper k) t) t = Some (ca_gripper k')" by simp
qed

lemma va_field_arrives:
  assumes "va_unpack (va_pack c tier @ rest) tier = Some c'" and "(v, v') \<in> set (zip (va_fields c) (va_fields c'))"
  shows "unpack_scaled (pack_scaled v (continuous_scale tier) tier) (continuous_scale tier) tier = Some v'"
proof -
  let ?gs = "List.map (\<lambda>v. pack_scaled v (continuous_scale tier) tier) (va_fields c)"
  from assms(1) obtain fs r where fs: "concat ?gs @ rest = concat fs @ r" "length fs = 6"
    "\<forall>f \<in> set fs. length f = field_bytes tier"
    "List.map (\<lambda>f. unpack_scaled f (continuous_scale tier) tier) fs = List.map Some (va_fields c')"
    unfolding va_unpack_iff by (auto simp: va_pack_def)
  have "?gs = fs" by (rule same_pieces [OF fs(1)]) (use fs in \<open>auto simp: va_fields_def\<close>)
  from fs(4) [folded \<open>?gs = fs\<close>] assms(2) show ?thesis by (auto simp: va_fields_def)
qed

text \<open>The size of a quantisation step, in the field's own unit.\<close>

fun velocity_step :: "QuantizationTier \<Rightarrow> rat" where
  "velocity_step Compact = 1"
| "velocity_step Standard = 1 / 100"
| "velocity_step Full = 0"

fun position_step :: "QuantizationTier \<Rightarrow> rat" where
  "position_step Compact = 2"
| "position_step Standard = 1"
| "position_step Full = 0"

text \<open>How a sent field \<open>v\<close> arrives as \<open>v'\<close> (both \<open>f32\<close> bit patterns).\<close>

definition field_arrives :: "QuantizationTier \<Rightarrow> rat \<Rightarrow> u32 \<Rightarrow> u32 \<Rightarrow> bool" where
  "field_arrives tier step v v' \<longleftrightarrow>
     (if tier = Full then v' = v
      else \<forall>x. f32_of_bits v = Fin x \<and> \<bar>x\<bar> \<le> of_int (tier_limit tier) * step
        \<longrightarrow> (\<exists>x'. f32_of_bits v' = Fin x' \<and> \<bar>x' - x\<bar> \<le> 51 / 100 * step))"

lemma field_arrivesI:
  assumes "unpack_scaled (pack_scaled v scale tier) scale tier = Some v'" and "scale_ok scale"
    and "tier \<noteq> Full \<Longrightarrow> scale = Fin (1 / step) \<and> 0 < step"
  shows "field_arrives tier step v v'"
proof (cases "tier = Full")
  case True
  then show ?thesis using assms(1) by (simp add: field_arrives_def)
next
  case False
  then have s: "scale = Fin (1 / step)" "0 < step" using assms(3) by auto
  have "\<exists>x'. f32_of_bits v' = Fin x' \<and> \<bar>x' - x\<bar> \<le> 51 / 100 * step"
    if x: "f32_of_bits v = Fin x" "\<bar>x\<bar> \<le> of_int (tier_limit tier) * step" for x
  proof -
    have "\<bar>x * (1 / step)\<bar> \<le> of_int (tier_limit tier)" using x(2) s(2) by (simp add: abs_divide divide_le_eq)
    from pack_scaled_accuracy [OF x(1) this False] assms(1,2) show ?thesis unfolding s(1) by simp
  qed
  with False show ?thesis by (simp add: field_arrives_def)
qed

text \<open>C21: quantisation loss.  A velocity/attitude or Cartesian command packed at any tier is decoded by the
  other side, whatever follows it in the packet.  At Full every field arrives bit for bit; at the two
  integer tiers every finite field within the tier's range (127 or 32767 steps) arrives as a finite
  value at most 0.51 steps away, the float rounding of both ends included (a step is 0.01 at Standard
  and 1 at Compact for the six velocity and attitude fields, 1 mm and 2 mm for the three positions);
  and the gripper arrives exactly at every tier.\<close>

theorem command_fields_accurate:
  "\<exists>c' k'. va_unpack (va_pack c tier @ rest) tier = Some c'
     \<and> list_all2 (field_arrives tier (velocity_step tier)) (va_fields c) (va_fields c')
     \<and> ca_unpack (ca_pack k tier @ rest) tier = Some k'
     \<and> list_all2 (field_arrives tier (position_step tier)) [ca_x k, ca_y k, ca_z k] [ca_x k', ca_y k', ca_z k']
     \<and> ca_gripper k' = ca_gripper k"
proof -
  obtain c' where c': "va_unpack (va_pack c tier @ rest) tier = Some c'"
    using velocity_attitude_unpack_total [of c tier rest] by blast
  obtain k' where k': "ca_unpack (ca_pack k tier @ rest) tier = Some k'"
    using cartesian_unpack_total [of k tier rest] by blast
  have v: "tier \<noteq> Full \<Longrightarrow> continuous_scale tier = Fin (1 / velocity_step tier) \<and> 0 < velocity_step tier"
    "tier \<noteq> Full \<Longrightarrow> position_scale tier = Fin (1 / position_step tier) \<and> 0 < position_step tier"
    by (cases tier; simp add: CONTINUOUS_SCALE_STANDARD_def CONTINUOUS_SCALE_COMPACT_def position_scale_def
      POSITION_SCALE_COMPACT_def)+
  have "field_arrives tier (velocity_step tier) a a'" if "(a, a') \<in> set (zip (va_fields c) (va_fields c'))" for a a'
    by (rule field_arrivesI [OF va_field_arrives [OF c' that] scale_ok_simps(1) v(1)])
  then have "list_all2 (field_arrives tier (velocity_step tier)) (va_fields c) (va_fields c')"
    by (auto simp: list_all2_iff va_fields_def)
  moreover have "list_all2 (field_arrives tier (position_step tier)) [ca_x k, ca_y k, ca_z k] [ca_x k', ca_y k', ca_z k']"
    using ca_unpack_pack(1) [OF k'] v(2) by (auto intro!: field_arrivesI)
  moreover have "ca_gripper k' = ca_gripper k" using ca_unpack_pack(2) [OF k'] by (simp add: unpack_pack_u8)
  ultimately show ?thesis using c' k' by blast
qed

theorem command_fields_accurate_witness:
  "(\<exists>c' x'. va_unpack (va_pack \<lparr>va_vx = f32_to_bits (Fin (5 / 4)), va_vy = 0, va_turn = 0, va_roll = 0,
       va_pitch = 0, va_yaw = 0\<rparr> Standard @ [7]) Standard = Some c'
     \<and> f32_of_bits (va_vx c') = Fin x' \<and> \<bar>x' - 5 / 4\<bar> \<le> 51 / 10000)
   \<and> (\<exists>k' x'. ca_unpack (ca_pack \<lparr>ca_x = f32_to_bits (Fin (-151)), ca_y = 0, ca_z = 0, ca_gripper = 200\<rparr> Compact) Compact = Some k'
     \<and> f32_of_bits (ca_x k') = Fin x' \<and> \<bar>x' + 151\<bar> \<le> 102 / 100 \<and> ca_gripper k' = 200)"
proof
  let ?c = "\<lparr>va_vx = f32_to_bits (Fin (5 / 4)), va_vy = 0, va_turn = 0, va_roll = 0, va_pitch = 0, va_yaw = 0\<rparr>"
  let ?k = "\<lparr>ca_x = f32_to_bits (Fin (-151)), ca_y = 0, ca_z = 0, ca_gripper = 200\<rparr>"
  have x: "f32_of_bits (f32_to_bits (Fin (5 / 4))) = Fin (5 / 4)" "f32_of_bits (f32_to_bits (Fin (-151))) = Fin (-151)"
    by code_simp+
  obtain c' where c': "va_unpack (va_pack ?c Standard @ [7]) Standard = Some c'"
    "list_all2 (field_arrives Standard (1 / 100)) (va_fields ?c) (va_fields c')"
    using command_fields_accurate [of ?c Standard "[7]" ?k] by auto
  from c'(2) have "field_arrives Standard (1 / 100) (f32_to_bits (Fin (5 / 4))) (va_vx c')" by (simp add: va_fields_def)
  with c'(1) x show "\<exists>c' x'. va_unpack (va_pack ?c Standard @ [7]) Standard = Some c'
     \<and> f32_of_bits (va_vx c') = Fin x' \<and> \<bar>x' - 5 / 4\<bar> \<le> 51 / 10000" by (auto simp: field_arrives_def)
  obtain k' where k': "ca_unpack (ca_pack ?k Compact @ []) Compact = Some k'" "ca_gripper k' = 200"
    "field_arrives Compact 2 (f32_to_bits (Fin (-151))) (ca_x k')"
    using command_fields_accurate [of ?c Compact "[]" ?k] by auto
  with x show "\<exists>k' x'. ca_unpack (ca_pack ?k Compact) Compact = Some k'
     \<and> f32_of_bits (ca_x k') = Fin x' \<and> \<bar>x' + 151\<bar> \<le> 102 / 100 \<and> ca_gripper k' = 200" by (auto simp: field_arrives_def)
qed

end
