(* ===== verification/Video.thy ===== *)
theory Video
  imports Wire
begin

unbundle bit_operations_syntax

text \<open>
  Channel A, the video path: chunk framing, the Annex-B splitter and the reassembler of
  \<open>roboprotocol-core/video.rs\<close>, the robot's encoder task and its two-lane hand-off
  (\<open>robot-edge/video/channel_a.rs\<close>) and the console's receiver
  (\<open>operator-console/video/channel_a.rs\<close>).
\<close>

section \<open>Chunks\<close>

definition CHUNK_HEADER_LEN :: nat where "CHUNK_HEADER_LEN = 4 + 2 + 1"
definition MAX_CHUNK_PAYLOAD :: nat where "MAX_CHUNK_PAYLOAD = 1100"

record ChunkHeader =
  ch_nal_id :: u32
  ch_chunk_index :: u16
  ch_is_last :: bool

definition chunk_header_encode :: "ChunkHeader \<Rightarrow> bytes" where
  "chunk_header_encode h = be32 (ch_nal_id h) @ be16 (ch_chunk_index h) @ [of_bool (ch_is_last h)]"

definition chunk_header_decode :: "bytes \<Rightarrow> (ChunkHeader \<times> bytes) option" where
  "chunk_header_decode bs =
     (if length bs < CHUNK_HEADER_LEN then None
      else Some (\<lparr>ch_nal_id = of_be32 (slice 0 4 bs), ch_chunk_index = of_be16 (slice 4 6 bs),
                  ch_is_last = (bs ! 6 \<noteq> 0)\<rparr>, drop CHUNK_HEADER_LEN bs))"

lemmas chunk_header_defs [codec_simps] =
  chunk_header_encode_def chunk_header_decode_def CHUNK_HEADER_LEN_def

interpretation chunk_header: codec chunk_header_encode chunk_header_decode "\<lambda>_. True"
  by unfold_locales (simp add: chunk_header_defs slice_def nth_append)

definition nal_is_critical :: "bytes \<Rightarrow> bool" where
  "nal_is_critical nal = (case nal of [] \<Rightarrow> False | b # _ \<Rightarrow> b AND 0x1F \<in> {5, 7, 8})"

definition chunk_nal :: "u32 \<Rightarrow> bytes \<Rightarrow> bytes list" where
  "chunk_nal nal_id nal =
     (if nal = [] then []
      else let n_chunks = div_ceil (length nal) MAX_CHUNK_PAYLOAD
           in List.map (\<lambda>(i, piece).
                chunk_header_encode \<lparr>ch_nal_id = nal_id, ch_chunk_index = word_of_nat i,
                  ch_is_last = (i + 1 = n_chunks)\<rparr> @ piece)
              (enumerate 0 (chunks MAX_CHUNK_PAYLOAD nal)))"

section \<open>The Annex-B splitter\<close>

text \<open>\<open>find_start_codes\<close>, over the bytes from position \<open>i\<close> on.\<close>

function start_codes_from :: "nat \<Rightarrow> bytes \<Rightarrow> (nat \<times> nat) list" where
  "start_codes_from i bs =
     (if length bs < 3 then []
      else if bs ! 0 = 0 \<and> bs ! 1 = 0 \<and> bs ! 2 = 1 then (i, i + 3) # start_codes_from (i + 3) (drop 3 bs)
      else if bs ! 0 = 0 \<and> bs ! 1 = 0 \<and> 4 \<le> length bs \<and> bs ! 2 = 0 \<and> bs ! 3 = 1
      then (i, i + 4) # start_codes_from (i + 4) (drop 4 bs)
      else start_codes_from (i + 1) (drop 1 bs))"
  by pat_completeness auto
termination
  by (relation "measure (\<lambda>(i, bs). length bs)") auto

declare start_codes_from.simps [simp del]

definition find_start_codes :: "bytes \<Rightarrow> (nat \<times> nat) list" where
  "find_start_codes buf = start_codes_from 0 buf"

record AnnexBSplitter =
  sp_buf :: bytes

definition splitter_new :: AnnexBSplitter where
  "splitter_new = \<lparr>sp_buf = []\<rparr>"

text \<open>\<open>windows(2)\<close>.\<close>

fun windows2 :: "'a list \<Rightarrow> ('a \<times> 'a) list" where
  "windows2 (x # y # xs) = (x, y) # windows2 (y # xs)"
| "windows2 _ = []"

definition splitter_push :: "AnnexBSplitter \<Rightarrow> bytes \<Rightarrow> AnnexBSplitter \<times> bytes list" where
  "splitter_push s data =
     (let buf = sp_buf s @ data; starts = find_start_codes buf
      in if length starts < 2 then (s\<lparr>sp_buf := buf\<rparr>, [])
         else let nals = List.map (\<lambda>(start, next_start). slice (snd start) (fst next_start) buf) (windows2 starts);
                  keep_from = fst (last starts)
              in (s\<lparr>sp_buf := drop keep_from buf\<rparr>, nals))"

section \<open>The reassembler\<close>

record PendingNal =
  pn_chunks :: "bytes option list"
  pn_received :: nat
  pn_total :: "nat option"

record NalReassembler =
  nr_pending :: "(u32, PendingNal) amap"
  nr_max_pending :: nat

definition reassembler_new :: "nat \<Rightarrow> NalReassembler" where
  "reassembler_new max_pending = \<lparr>nr_pending = [], nr_max_pending = max_pending\<rparr>"

definition pending_new :: PendingNal where
  "pending_new = \<lparr>pn_chunks = [], pn_received = 0, pn_total = None\<rparr>"

definition resize :: "nat \<Rightarrow> 'a \<Rightarrow> 'a list \<Rightarrow> 'a list" where
  "resize n v xs = take n xs @ replicate (n - length xs) v"

definition pending_store :: "PendingNal \<Rightarrow> ChunkHeader \<Rightarrow> bytes \<Rightarrow> PendingNal" where
  "pending_store e header payload =
     (let idx = unat (ch_chunk_index header);
          e = (if length (pn_chunks e) \<le> idx then e\<lparr>pn_chunks := resize (idx + 1) None (pn_chunks e)\<rparr> else e);
          e = (if pn_chunks e ! idx = None
               then e\<lparr>pn_chunks := (pn_chunks e)[idx := Some payload], pn_received := pn_received e + 1\<rparr>
               else e)
      in if ch_is_last header then e\<lparr>pn_total := Some (idx + 1)\<rparr> else e)"

definition pending_complete :: "PendingNal \<Rightarrow> bool" where
  "pending_complete e \<longleftrightarrow>
     pn_total e = Some (pn_received e) \<and> list_all (\<lambda>c. c \<noteq> None) (pn_chunks e)"

definition evict_oldest :: "nat \<Rightarrow> (u32, 'v) amap \<Rightarrow> (u32, 'v) amap" where
  "evict_oldest limit m =
     (if limit < length m then AList.delete (Min (set (keys m))) m else m)"

definition on_chunk ::
  "NalReassembler \<Rightarrow> ChunkHeader \<Rightarrow> bytes \<Rightarrow> NalReassembler \<times> bytes option" where
  "on_chunk r header payload =
     (let e = (case map_of (nr_pending r) (ch_nal_id header) of Some e \<Rightarrow> e | None \<Rightarrow> pending_new);
          e = pending_store e header payload;
          pending = AList.update (ch_nal_id header) e (nr_pending r);
          complete = pending_complete e;
          result = (if complete then Some (concat (List.map the (filter (\<lambda>c. c \<noteq> None) (pn_chunks e)))) else None);
          pending = (if complete then AList.delete (ch_nal_id header) pending else pending)
      in (r\<lparr>nr_pending := evict_oldest (nr_max_pending r) pending\<rparr>, result))"

section \<open>The console's receiver\<close>

definition START_CODE :: bytes where "START_CODE = [0, 0, 0, 1]"
definition MAX_PENDING_NALS :: nat where "MAX_PENDING_NALS = 32"

definition channel_a_receiver_new :: NalReassembler where
  "channel_a_receiver_new = reassembler_new MAX_PENDING_NALS"

definition channel_a_on_datagram :: "NalReassembler \<Rightarrow> bytes \<Rightarrow> NalReassembler \<times> (u32 \<times> bytes) option" where
  "channel_a_on_datagram r data =
     (case chunk_header_decode data of
        None \<Rightarrow> (r, None)
      | Some (header, payload) \<Rightarrow>
         (case on_chunk r header payload of
            (r', None) \<Rightarrow> (r', None)
          | (r', Some nal) \<Rightarrow> (r', Some (ch_nal_id header, START_CODE @ nal))))"

section \<open>The robot's encoder task\<close>

text \<open>The task owns the splitter and the id counter; the hand-off is an unbounded queue for critical
  NALs and a one-place, overwriting cell for the latest delta (\<open>tokio::sync::watch\<close>), with a
  flag for whether the receiver has seen the cell's value.  The Zenoh and recorder taps are outputs.\<close>

record Encoder =
  en_splitter :: AnnexBSplitter
  en_next_nal_id :: u32
  en_critical :: "(u32 \<times> bytes) list"
  en_latest_delta :: "(u32 \<times> bytes) option"

definition encoder_new :: Encoder where
  "encoder_new = \<lparr>en_splitter = splitter_new, en_next_nal_id = 0, en_critical = [], en_latest_delta = None\<rparr>"

definition encoder_nal :: "bytes \<Rightarrow> Encoder \<Rightarrow> Encoder" where
  "encoder_nal nal s =
     (let s' = s\<lparr>en_next_nal_id := en_next_nal_id s + 1\<rparr>
      in if nal_is_critical nal
         then s'\<lparr>en_critical := en_critical s @ [(en_next_nal_id s, nal)]\<rparr>
         else s'\<lparr>en_latest_delta := Some (en_next_nal_id s, nal)\<rparr>)"

text \<open>One read from the capture process; the second component is what the recorder and Zenoh get.\<close>

definition encoder_push :: "Encoder \<Rightarrow> bytes \<Rightarrow> Encoder \<times> bytes list" where
  "encoder_push s data =
     (let (sp, nals) = splitter_push (en_splitter s) data
      in (fold encoder_nal nals (s\<lparr>en_splitter := sp\<rparr>), List.map (\<lambda>nal. START_CODE @ nal) nals))"

text \<open>\<open>VideoRx::recv\<close>; None means the call waits.\<close>

definition video_recv :: "Encoder \<Rightarrow> Encoder \<times> (u32 \<times> bytes) option" where
  "video_recv s =
     (case en_critical s of
        nal # rest \<Rightarrow> (s\<lparr>en_critical := rest\<rparr>, Some nal)
      | [] \<Rightarrow> (s\<lparr>en_latest_delta := None\<rparr>, en_latest_delta s))"

section \<open>The splitter does not depend on how the stream is cut\<close>

lemma start_codes_from_short: "length bs < 3 \<Longrightarrow> start_codes_from i bs = []"
  by (subst start_codes_from.simps) simp

lemma start_codes_from_cases:
  obtains (short) "length bs < 3" "start_codes_from i bs = []"
  | (three) "\<not> length bs < 3" "bs ! 0 = 0 \<and> bs ! 1 = 0 \<and> bs ! 2 = 1"
      "start_codes_from i bs = (i, i + 3) # start_codes_from (i + 3) (drop 3 bs)"
  | (four) "\<not> length bs < 3" "\<not> (bs ! 0 = 0 \<and> bs ! 1 = 0 \<and> bs ! 2 = 1)"
      "bs ! 0 = 0 \<and> bs ! 1 = 0 \<and> 4 \<le> length bs \<and> bs ! 2 = 0 \<and> bs ! 3 = 1"
      "start_codes_from i bs = (i, i + 4) # start_codes_from (i + 4) (drop 4 bs)"
  | (none) "\<not> length bs < 3" "\<not> (bs ! 0 = 0 \<and> bs ! 1 = 0 \<and> bs ! 2 = 1)"
      "\<not> (bs ! 0 = 0 \<and> bs ! 1 = 0 \<and> 4 \<le> length bs \<and> bs ! 2 = 0 \<and> bs ! 3 = 1)"
      "start_codes_from i bs = start_codes_from (i + 1) (drop 1 bs)"
  by (metis start_codes_from.simps)

lemma start_codes_from_shift:
  "start_codes_from (i + k) bs = List.map (\<lambda>(a, b). (a + k, b + k)) (start_codes_from i bs)"
proof (induction i bs rule: start_codes_from.induct)
  case (1 i bs)
  show ?case
    by (subst (1 2) start_codes_from.simps) (use 1 in \<open>simp add: algebra_simps\<close>)
qed

lemma start_codes_from_ge: "(a, b) \<in> set (start_codes_from i bs) \<Longrightarrow> i \<le> a \<and> a + 3 \<le> b \<and> b \<le> i + length bs"
proof (induction i bs rule: start_codes_from.induct)
  case (1 i bs)
  show ?case
  proof (cases i bs rule: start_codes_from_cases)
    case short
    with 1(4) show ?thesis by simp
  next
    case three
    with 1(4) show ?thesis using 1(1) [OF three(1,2)] by auto
  next
    case four
    with 1(4) show ?thesis using 1(2) [OF four(1,2,3)] by auto
  next
    case none
    with 1(4) show ?thesis using 1(3) [OF none(1,2,3)] by auto
  qed
qed

lemma start_codes_from_snoc:
  "start_codes_from i xs \<noteq> [] \<Longrightarrow>
   start_codes_from i (xs @ ys) = butlast (start_codes_from i xs)
     @ start_codes_from (fst (last (start_codes_from i xs)))
         (drop (fst (last (start_codes_from i xs)) - i) xs @ ys)"
proof (induction i xs rule: start_codes_from.induct)
  case (1 i xs)
  from "1.prems" have len: "3 \<le> length xs"
    by (rule contrapos_np) (simp add: start_codes_from.simps)
  then have nths: "(xs @ ys) ! 0 = xs ! 0" "(xs @ ys) ! 1 = xs ! 1" "(xs @ ys) ! 2 = xs ! 2"
    by (auto simp: nth_append)
  have ge: "i + k \<le> fst (last (start_codes_from (i + k) zs))" if "start_codes_from (i + k) zs \<noteq> []" for k zs
    using start_codes_from_ge [of "fst (last (start_codes_from (i + k) zs))"
        "snd (last (start_codes_from (i + k) zs))" "i + k" zs] that by simp
  show ?case
  proof (cases i xs rule: start_codes_from_cases)
    case short
    with len show ?thesis by simp
  next
    case three
    note l = three(3)
    have r: "start_codes_from i (xs @ ys) = (i, i + 3) # start_codes_from (i + 3) (drop 3 xs @ ys)"
      by (cases i "xs @ ys" rule: start_codes_from_cases) (use three(1,2) nths in simp_all)
    show ?thesis
    proof (cases "start_codes_from (i + 3) (drop 3 xs) = []")
      case True
      with l show ?thesis by simp
    next
      case False
      note IH = 1(1) [OF three(1,2) False] and g = ge [OF False]
      show ?thesis using IH len g False
        by (simp add: l r)
    qed
  next
    case four
    note l = four(4)
    have n3: "(xs @ ys) ! 3 = xs ! 3" using four(3) by (simp add: nth_append)
    have r: "start_codes_from i (xs @ ys) = (i, i + 4) # start_codes_from (i + 4) (drop 4 xs @ ys)"
      by (cases i "xs @ ys" rule: start_codes_from_cases) (use four(2,3) nths n3 in auto)
    show ?thesis
    proof (cases "start_codes_from (i + 4) (drop 4 xs) = []")
      case True
      with l show ?thesis by simp
    next
      case False
      note IH = 1(2) [OF four(1-3) False] and g = ge [OF False]
      show ?thesis using IH len g False
        by (simp add: l r)
    qed
  next
    case none
    note l = none(4)
    with "1.prems" have ne: "start_codes_from (i + 1) (drop 1 xs) \<noteq> []" by simp
    then have "\<not> length (drop 1 xs) < 3" using start_codes_from_short by blast
    then have len4: "4 \<le> length xs" by simp
    then have n3: "(xs @ ys) ! 3 = xs ! 3" by (simp add: nth_append)
    have r: "start_codes_from i (xs @ ys) = start_codes_from (i + 1) (drop 1 xs @ ys)"
    proof (cases i "xs @ ys" rule: start_codes_from_cases)
      case none
      then show ?thesis using len4 by simp
    qed (use none(2,3) nths n3 len4 in auto)
    have "Suc (fst (last (start_codes_from (i + 1) (drop 1 xs))) - Suc i)
        = fst (last (start_codes_from (i + 1) (drop 1 xs))) - i"
      using ge [OF ne] by simp
    then show ?thesis using 1(3) [OF none(1-3) ne] len
      by (simp add: l r)
  qed
qed

lemma start_codes_from_head:
  assumes "start_codes_from p zs = (p, q) # rest"
  shows "\<exists>rest'. start_codes_from p (zs @ ys) = (p, q) # rest'"
proof -
  have "start_codes_from p zs \<noteq> []" using assms by simp
  then have len: "3 \<le> length zs"
    by (rule contrapos_np) (simp add: start_codes_from.simps)
  then have nths: "(zs @ ys) ! 0 = zs ! 0" "(zs @ ys) ! 1 = zs ! 1" "(zs @ ys) ! 2 = zs ! 2"
    by (auto simp: nth_append)
  show ?thesis
  proof (cases p zs rule: start_codes_from_cases)
    case short
    with len show ?thesis by simp
  next
    case three
    then show ?thesis using assms nths
      by (cases p "zs @ ys" rule: start_codes_from_cases) auto
  next
    case four
    have "(zs @ ys) ! 3 = zs ! 3" using four(3) by (simp add: nth_append)
    with four show ?thesis using assms nths
      by (cases p "zs @ ys" rule: start_codes_from_cases) auto
  next
    case none
    have "(p, q) \<in> set (start_codes_from p zs)" unfolding assms by simp
    then have "(p, q) \<in> set (start_codes_from (p + 1) (drop 1 zs))" unfolding none(4) .
    then show ?thesis using start_codes_from_ge by fastforce
  qed
qed

lemma windows2_append: "windows2 (xs @ x # ys) = windows2 (xs @ [x]) @ windows2 (x # ys)"
  by (induction xs rule: windows2.induct) auto

lemma windows2_map: "windows2 (List.map f xs) = List.map (\<lambda>(a, b). (f a, f b)) (windows2 xs)"
  by (induction xs rule: windows2.induct) auto

lemma windows2_set: "(a, b) \<in> set (windows2 xs) \<Longrightarrow> a \<in> set xs \<and> b \<in> set xs"
  by (induction xs rule: windows2.induct) auto

text \<open>What one push emits and keeps, as a function of the whole buffer.\<close>

definition emitted :: "bytes \<Rightarrow> bytes list" where
  "emitted buf = List.map (\<lambda>(start, next_start). slice (snd start) (fst next_start) buf)
     (windows2 (find_start_codes buf))"

definition kept :: "bytes \<Rightarrow> bytes" where
  "kept buf = (if length (find_start_codes buf) < 2 then buf else drop (fst (last (find_start_codes buf))) buf)"

lemma splitter_push_eq:
  "splitter_push s data = (s\<lparr>sp_buf := kept (sp_buf s @ data)\<rparr>, emitted (sp_buf s @ data))"
proof (cases "length (find_start_codes (sp_buf s @ data)) < 2")
  case True
  then have "windows2 (find_start_codes (sp_buf s @ data)) = []"
    by (cases "find_start_codes (sp_buf s @ data)" rule: windows2.cases) auto
  with True show ?thesis by (simp add: splitter_push_def Let_def emitted_def kept_def)
qed (simp add: splitter_push_def Let_def emitted_def kept_def)

lemma emitted_kept_append:
  "emitted (buf @ data) = emitted buf @ emitted (kept buf @ data)"
  "kept (buf @ data) = kept (kept buf @ data)"
proof -
  let ?A = "find_start_codes buf"
  have *: "emitted (buf @ data) = emitted buf @ emitted (kept buf @ data)
      \<and> kept (buf @ data) = kept (kept buf @ data)"
  proof (cases "length ?A < 2")
    case True
    then have "windows2 ?A = []" by (cases ?A rule: windows2.cases) auto
    with True show ?thesis by (simp add: emitted_def kept_def)
  next
    case False
    then have ne: "?A \<noteq> []" by auto
    obtain p q where pq: "last ?A = (p, q)" by (cases "last ?A")
    have bounds: "a + 3 \<le> b \<and> b \<le> length buf" if "(a, b) \<in> set ?A" for a b
      using start_codes_from_ge [of a b 0 buf] that by (simp add: find_start_codes_def)
    have pb: "p \<le> length buf" using bounds [of p q] last_in_set [OF ne] pq by simp
    have snoc: "find_start_codes (buf @ ys) = butlast ?A @ start_codes_from p (drop p buf @ ys)" for ys
      using start_codes_from_snoc [of 0 buf ys] ne pq by (simp add: find_start_codes_def)
    have "butlast ?A @ [(p, q)] = butlast ?A @ start_codes_from p (drop p buf)"
      using snoc [of "[]"] append_butlast_last_id [OF ne] pq by simp
    then have "start_codes_from p (drop p buf) = [(p, q)]" by simp
    from start_codes_from_head [OF this, of data] obtain B
      where B: "start_codes_from p (drop p buf @ data) = (p, q) # B" by blast
    have kept: "kept buf = drop p buf" using False pq by (simp add: kept_def)
    define C where "C = find_start_codes (kept buf @ data)"
    have shift: "(p, q) # B = List.map (\<lambda>(a, b). (a + p, b + p)) C"
      using start_codes_from_shift [of 0 p "drop p buf @ data"] B by (simp add: C_def kept find_start_codes_def)
    have all: "find_start_codes (buf @ data) = butlast ?A @ (p, q) # B" using snoc B by simp
    have A: "?A = butlast ?A @ [(p, q)]" using append_butlast_last_id [OF ne] pq by simp
    have w: "windows2 (find_start_codes (buf @ data)) = windows2 ?A @ windows2 ((p, q) # B)"
      using windows2_append [of "butlast ?A" "(p, q)" B] A all by simp
    have first: "List.map (\<lambda>(s, n). slice (snd s) (fst n) (buf @ data)) (windows2 ?A) = emitted buf"
      unfolding emitted_def
    proof (rule map_cong [OF refl], clarify)
      fix a b c d assume "((a, b), c, d) \<in> set (windows2 ?A)"
      then have "(c, d) \<in> set ?A" using windows2_set [of "(a, b)" "(c, d)" ?A] by blast
      then have "c \<le> length buf" using bounds by fastforce
      then show "slice (snd (a, b)) (fst (c, d)) (buf @ data) = slice (snd (a, b)) (fst (c, d)) buf" by simp
    qed
    have "slice (b + p) (c + p) (buf @ data) = slice b c (kept buf @ data)" for b c
      using pb by (simp add: slice_def kept add.commute drop_append flip: drop_drop)
    then have second: "List.map (\<lambda>(s, n). slice (snd s) (fst n) (buf @ data)) (windows2 ((p, q) # B)) = emitted (kept buf @ data)"
      by (simp add: shift windows2_map emitted_def C_def split_def comp_def)
    have em: "emitted (buf @ data) = emitted buf @ emitted (kept buf @ data)"
      using first second by (simp add: emitted_def w)
    have len: "length C = Suc (length B)" using shift by (metis length_Cons length_map)
    have "kept (buf @ data) = drop (fst (last ((p, q) # B))) (buf @ data)"
    proof -
      have "\<not> length (find_start_codes (buf @ data)) < 2"
        using False unfolding all by simp
      then have "kept (buf @ data) = drop (fst (last (find_start_codes (buf @ data)))) (buf @ data)"
        unfolding kept_def by (rule if_not_P)
      then show ?thesis unfolding all by simp
    qed
    also have "fst (last ((p, q) # B)) = fst (last C) + p"
      unfolding shift using len by (subst last_map) (auto simp: split_def)
    also have "drop (fst (last C) + p) (buf @ data) = drop (fst (last C)) (kept buf @ data)"
      using pb by (simp add: kept)
    also have "\<dots> = kept (kept buf @ data)"
    proof (cases "length C < 2")
      case True
      then obtain x where "C = [x]" using len by (cases C) auto
      with shift have "fst (last C) = 0" by (cases x) simp
      with True show ?thesis by (simp add: kept_def C_def)
    qed (simp add: kept_def C_def)
    finally show ?thesis using em by blast
  qed
  from * show "emitted (buf @ data) = emitted buf @ emitted (kept buf @ data)"
    "kept (buf @ data) = kept (kept buf @ data)" by auto
qed

fun splitter_run :: "AnnexBSplitter \<Rightarrow> bytes list \<Rightarrow> AnnexBSplitter \<times> bytes list" where
  "splitter_run s [] = (s, [])"
| "splitter_run s (d # ds) =
     (let (s', out) = splitter_push s d; (s'', outs) = splitter_run s' ds in (s'', out @ outs))"

lemma splitter_run_eq:
  "kept (sp_buf s) = sp_buf s \<Longrightarrow> emitted (sp_buf s) = [] \<Longrightarrow>
   splitter_run s ds = (s\<lparr>sp_buf := kept (sp_buf s @ concat ds)\<rparr>, emitted (sp_buf s @ concat ds))"
proof (induction ds arbitrary: s)
  case (Cons d ds)
  let ?b = "sp_buf s @ d"
  have k: "kept (kept ?b) = kept ?b" "emitted (kept ?b) = []"
    using emitted_kept_append [of ?b "[]"] by simp_all
  show ?case using Cons.IH [of "s\<lparr>sp_buf := kept ?b\<rparr>"] k
      emitted_kept_append [of ?b "concat ds"]
    by (simp add: splitter_push_eq)
qed simp

text \<open>A NAL that contains no start code and does not end in a zero byte, as an H.264 encoder emits
  them, and a stream of such NALs, each behind a three- or four-byte start code.\<close>

definition clean_nal :: "bytes \<Rightarrow> bool" where
  "clean_nal nal \<longleftrightarrow> nal \<noteq> [] \<and> last nal \<noteq> 0 \<and> find_start_codes nal = []"

definition annexb :: "(bool \<times> bytes) list \<Rightarrow> bytes" where
  "annexb ps = concat (List.map (\<lambda>(long, nal). (if long then [0, 0, 0, 1] else [0, 0, 1]) @ nal) ps)"

lemma start_codes_from_nal:
  "last nal \<noteq> 0 \<Longrightarrow> start_codes_from i nal = [] \<Longrightarrow>
   start_codes_from i (nal @ rest) = start_codes_from (i + length nal) rest"
proof (induction nal arbitrary: i)
  case (Cons b nal)
  have step: "start_codes_from (i + 1) nal = []"
    using Cons.prems(2) by (cases i "b # nal" rule: start_codes_from_cases) (auto simp: start_codes_from_short)
  have tail: "nal = [] \<or> last nal \<noteq> 0" using Cons.prems(1) by auto
  have next_eq: "start_codes_from i ((b # nal) @ rest) = start_codes_from (i + 1) (nal @ rest)"
  proof (cases i "(b # nal) @ rest" rule: start_codes_from_cases)
    case short
    then have "length (nal @ rest) < 3" by simp
    with short show ?thesis by (simp add: start_codes_from_short)
  next
    case three
    show ?thesis
    proof (cases "3 \<le> length (b # nal)")
      case True
      with three(2) have "(b # nal) ! 0 = 0 \<and> (b # nal) ! 1 = 0 \<and> (b # nal) ! 2 = 1"
        by (auto simp: nth_append nth_Cons' split: if_splits)
      with Cons.prems(2) True show ?thesis
        by (cases i "b # nal" rule: start_codes_from_cases) auto
    next
      case False
      then have "b # nal = [b] \<or> (\<exists>c. b # nal = [b, c])" by (cases nal; cases "tl nal") auto
      with three(2) Cons.prems(1) show ?thesis by auto
    qed
  next
    case four
    show ?thesis
    proof (cases "4 \<le> length (b # nal)")
      case True
      with four(3) have "(b # nal) ! 0 = 0 \<and> (b # nal) ! 1 = 0 \<and> 4 \<le> length (b # nal)
          \<and> (b # nal) ! 2 = 0 \<and> (b # nal) ! 3 = 1"
        by (auto simp: nth_append nth_Cons' split: if_splits)
      with Cons.prems(2) show ?thesis
        by (cases i "b # nal" rule: start_codes_from_cases) auto
    next
      case False
      then have "b # nal = [b] \<or> (\<exists>c. b # nal = [b, c]) \<or> (\<exists>c d. b # nal = [b, c, d])"
        by (cases nal; cases "tl nal"; cases "tl (tl nal)") auto
      with four(3) Cons.prems(1) show ?thesis by auto
    qed
  next
    case none
    then show ?thesis by simp
  qed
  show ?case
  proof (cases "nal = []")
    case False
    with tail step Cons.IH next_eq show ?thesis by simp
  qed (use next_eq in simp)
qed simp

lemma start_codes_from_code:
  "start_codes_from i ((if long then [0, 0, 0, 1] else [0, 0, 1]) @ rest) =
     (i, i + (if long then 4 else 3)) # start_codes_from (i + (if long then 4 else 3)) rest"
  by (cases i "(if long then [0, 0, 0, 1] else [0, 0, 1]) @ rest" rule: start_codes_from_cases)
    (auto split: if_splits)

lemma annexb_Cons: "annexb ((long, nal) # ps) = (if long then [0, 0, 0, 1] else [0, 0, 1]) @ nal @ annexb ps"
  by (simp add: annexb_def)

lemma start_codes_annexb:
  "clean_nal nal \<Longrightarrow> start_codes_from i (annexb ((long, nal) # ps)) =
     (i, i + (if long then 4 else 3)) #
     start_codes_from (i + (if long then 4 else 3) + length nal) (annexb ps)"
  unfolding annexb_Cons start_codes_from_code
  using start_codes_from_nal [of nal "i + (if long then 4 else 3)" "annexb ps"]
    start_codes_from_shift [of 0 "i + (if long then 4 else 3)" nal]
  by (simp add: clean_nal_def find_start_codes_def)

lemma emitted_annexb:
  "list_all (clean_nal \<circ> snd) ps \<Longrightarrow>
   List.map (\<lambda>(s, n). slice (snd s) (fst n) (pre @ annexb ps)) (windows2 (start_codes_from (length pre) (annexb ps)))
     = butlast (List.map snd ps)"
proof (induction ps arbitrary: pre)
  case Nil
  have "start_codes_from (length pre) (annexb []) = []" by (simp add: annexb_def start_codes_from_short)
  then show ?case by simp
next
  case (Cons p ps)
  obtain long nal where p: "p = (long, nal)" by (cases p)
  let ?c = "if long then [0, 0, 0, 1] else [0, 0, 1] :: bytes"
  let ?i = "length pre + (if long then 4 else 3)"
  have clean: "clean_nal nal" using Cons.prems p by simp
  let ?pre = "pre @ ?c @ nal"
  have len: "length ?pre = ?i + length nal" by simp
  have buf: "pre @ annexb (p # ps) = ?pre @ annexb ps" by (simp add: p annexb_Cons)
  note codes = start_codes_annexb [OF clean, of "length pre" long ps]
  show ?case
  proof (cases ps)
    case Nil
    then show ?thesis using codes by (simp add: p annexb_def start_codes_from_short)
  next
    case (Cons q qs)
    obtain long' nal' where q: "q = (long', nal')" by (cases q)
    have "clean_nal nal'" using Cons.prems Cons q by simp
    from start_codes_annexb [OF this, of "length ?pre" long' qs] obtain e tl
      where tl: "start_codes_from (length ?pre) (annexb ps) = (length ?pre, e) # tl"
      by (auto simp: Cons q)
    have piece: "slice ?i (length ?pre) (?pre @ annexb ps) = nal"
      by (simp add: slice_def)
    have w: "windows2 (start_codes_from (length pre) (annexb (p # ps))) =
        ((length pre, ?i), (length ?pre, e)) # windows2 (start_codes_from (length ?pre) (annexb ps))"
      using codes tl unfolding p len [symmetric] by simp
    have IH: "List.map (\<lambda>(s, n). slice (snd s) (fst n) (?pre @ annexb ps))
        (windows2 (start_codes_from (length ?pre) (annexb ps))) = butlast (List.map snd ps)"
      using Cons.IH [of ?pre] Cons.prems by simp
    have "ps \<noteq> []" using Cons by simp
    then show ?thesis unfolding w buf list.map prod.case IH snd_conv fst_conv piece by (simp add: p)
  qed
qed

text \<open>The Annex-B splitter.  However the capture process's output is cut into reads, the NALs
  emitted over all of them and the bytes kept are those of one read of the whole stream; and on a
  stream of well-formed NALs it emits exactly the NALs, in order, up to the last one, which it keeps
  because nothing yet confirms that it is complete.\<close>

theorem splitter_emits_the_nals:
  "splitter_run splitter_new ds = splitter_push splitter_new (concat ds)
   \<and> (concat ds = annexb (ps @ [(long, nal)]) \<and> list_all (clean_nal \<circ> snd) (ps @ [(long, nal)])
      \<longrightarrow> snd (splitter_run splitter_new ds) = List.map snd ps)"
proof -
  have run: "splitter_run splitter_new ds = splitter_push splitter_new (concat ds)"
    using splitter_run_eq [of splitter_new ds]
    by (simp add: splitter_push_eq splitter_new_def kept_def emitted_def find_start_codes_def start_codes_from_short)
  moreover have "snd (splitter_push splitter_new (annexb (ps @ [(long, nal)]))) = List.map snd ps"
    if "list_all (clean_nal \<circ> snd) (ps @ [(long, nal)])"
    using emitted_annexb [OF that, of "[]"]
    by (simp add: splitter_push_eq splitter_new_def emitted_def find_start_codes_def butlast_append)
  ultimately show ?thesis by simp
qed

theorem splitter_emits_the_nals_witness:
  "snd (splitter_run splitter_new [[0, 0], [0, 1, 0x67, 9, 0], [0, 1, 0x65], [7, 0, 0], [0, 1, 0x41]]) =
     [[0x67, 9], [0x65, 7]]"
proof -
  let ?ps = "[(True, [0x67, 9]), (False, [0x65, 7])] :: (bool \<times> bytes) list"
  have "clean_nal [0x67, 9] \<and> clean_nal [0x65, 7] \<and> clean_nal [0x41]"
    by (simp add: clean_nal_def find_start_codes_def start_codes_from_short)
  then show ?thesis
    using conjunct2 [OF splitter_emits_the_nals
      [of "[[0, 0], [0, 1, 0x67, 9, 0], [0, 1, 0x65], [7, 0, 0], [0, 1, 0x41]]" "?ps" True "[0x41]"]]
    by (simp add: annexb_def del: splitter_run.simps)
qed

section \<open>Reassembly\<close>

lemma delete_update_same [simp]: "AList.delete k (AList.update k v m) = AList.delete k m"
  by (induction m) auto

lemma length_update_le: "length (AList.update k v m) \<le> Suc (length m)"
  by (induction m) auto

lemma wf_evict: "wf_amap m \<Longrightarrow> wf_amap (evict_oldest limit m)"
  by (simp add: evict_oldest_def)

lemma evict_lookup: "map_of (evict_oldest limit m) k = Some v \<Longrightarrow> map_of m k = Some v"
  by (auto simp: evict_oldest_def delete_conv' split: if_splits)

lemma length_evict: "wf_amap m \<Longrightarrow> length m \<le> Suc limit \<Longrightarrow> length (evict_oldest limit m) \<le> limit"
proof (cases "limit < length m")
  case True
  assume wf: "wf_amap m" and len: "length m \<le> Suc limit"
  have "keys m \<noteq> []" using True by auto
  then have "Min (set (keys m)) \<in> set (keys m)" by simp
  then obtain v where v: "(Min (set (keys m)), v) \<in> set m" by auto
  have "length (AList.delete (Min (set (keys m))) m) < length m"
    unfolding delete_eq_filter by (rule length_filter_less [OF v]) simp
  with True len show ?thesis by (simp add: evict_oldest_def)
qed (simp add: evict_oldest_def)

text \<open>What a pending entry may hold while the chunks of one NAL with pieces \<open>ps\<close> arrive, and the
  indices it has seen.\<close>

definition entry_seen :: "PendingNal \<Rightarrow> nat set" where
  "entry_seen e = {i. i < length (pn_chunks e) \<and> pn_chunks e ! i \<noteq> None}"

definition entry_ok :: "bytes list \<Rightarrow> PendingNal \<Rightarrow> bool" where
  "entry_ok ps e \<longleftrightarrow>
     length (pn_chunks e) \<le> length ps
   \<and> (\<forall>i < length (pn_chunks e). pn_chunks e ! i \<in> {None, Some (ps ! i)})
   \<and> pn_received e = card (entry_seen e)
   \<and> pn_total e = (if length ps - 1 \<in> entry_seen e then Some (length ps) else None)"

lemma finite_entry_seen [simp]: "finite (entry_seen e)"
  by (rule finite_subset [of _ "{..<length (pn_chunks e)}"]) (auto simp: entry_seen_def)

lemma entry_ok_new: "entry_ok ps pending_new" "entry_seen pending_new = {}"
  by (simp_all add: entry_ok_def pending_new_def entry_seen_def)

lemma length_resize [simp]: "length (resize n v xs) = n"
  by (simp add: resize_def)

lemma nth_resize: "i < n \<Longrightarrow> resize n v xs ! i = (if i < length xs then xs ! i else v)"
  by (simp add: resize_def nth_append)

text \<open>Storing the piece \<open>i\<close> of the NAL.\<close>

definition piece_header :: "u32 \<Rightarrow> bytes list \<Rightarrow> nat \<Rightarrow> ChunkHeader" where
  "piece_header nal_id ps i =
     \<lparr>ch_nal_id = nal_id, ch_chunk_index = word_of_nat i, ch_is_last = (i + 1 = length ps)\<rparr>"

lemma pending_store_fields:
  fixes e :: PendingNal
  assumes "cs = (if length (pn_chunks e) \<le> unat (ch_chunk_index h)
    then resize (unat (ch_chunk_index h) + 1) None (pn_chunks e) else pn_chunks e)"
  shows "pn_chunks (pending_store e h p) =
      (if cs ! unat (ch_chunk_index h) = None then cs[unat (ch_chunk_index h) := Some p] else cs)"
    and "pn_received (pending_store e h p) =
      pn_received e + (if cs ! unat (ch_chunk_index h) = None then 1 else 0)"
    and "pn_total (pending_store e h p) =
      (if ch_is_last h then Some (unat (ch_chunk_index h) + 1) else pn_total e)"
  by (simp_all add: pending_store_def Let_def assms)

lemma pending_store_ok:
  assumes ok: "entry_ok ps e" and i: "i < length ps" "length ps \<le> 65536"
  shows "entry_ok ps (pending_store e (piece_header nal_id ps i) (ps ! i))"
    and "entry_seen (pending_store e (piece_header nal_id ps i) (ps ! i)) = insert i (entry_seen e)"
proof -
  have idx: "unat (word_of_nat i :: u16) = i"
    using i by (simp add: unat_of_nat take_bit_nat_eq_self)
  define cs where "cs = (if length (pn_chunks e) \<le> i then resize (i + 1) None (pn_chunks e) else pn_chunks e)"
  have i_cs: "i < length cs" by (simp add: cs_def)
  have len: "length cs \<le> length ps" using ok i by (simp add: cs_def entry_ok_def)
  have nth: "cs ! j = (if j < length (pn_chunks e) then pn_chunks e ! j else None)" if "j < length cs" for j
    using that by (auto simp: cs_def nth_resize)
  have cs_seen: "{j. j < length cs \<and> cs ! j \<noteq> None} = entry_seen e"
    using nth by (auto simp: entry_seen_def cs_def split: if_splits)
  let ?e = "pending_store e (piece_header nal_id ps i) (ps ! i)"
  have e: "pn_chunks ?e = (if cs ! i = None then cs[i := Some (ps ! i)] else cs)"
    "pn_received ?e = pn_received e + (if cs ! i = None then 1 else 0)"
    "pn_total ?e = (if i + 1 = length ps then Some (i + 1) else pn_total e)"
    using pending_store_fields [of cs e "piece_header nal_id ps i" "ps ! i"]
    by (simp_all only: piece_header_def ChunkHeader.simps idx cs_def)
  have fresh: "cs ! i = None \<longleftrightarrow> i \<notin> entry_seen e"
    unfolding cs_seen [symmetric] using i_cs by simp
  show seen: "entry_seen ?e = insert i (entry_seen e)"
  proof (cases "cs ! i = None")
    case True
    have "{j. j < length (cs[i := Some (ps ! i)]) \<and> cs[i := Some (ps ! i)] ! j \<noteq> None}
        = insert i {j. j < length cs \<and> cs ! j \<noteq> None}"
      using i_cs by (auto simp: nth_list_update)
    with True show ?thesis unfolding entry_seen_def [of ?e] e cs_seen by simp
  next
    case False
    then have "i \<in> entry_seen e" using fresh by simp
    then show ?thesis unfolding entry_seen_def [of ?e] e if_not_P [OF False] cs_seen
      by (simp only: insert_absorb)
  qed
  have vals: "cs ! j \<in> {None, Some (ps ! j)}" if "j < length cs" for j
    using ok nth [OF that] that by (auto simp: entry_ok_def)
  have "\<forall>j < length (pn_chunks ?e). pn_chunks ?e ! j \<in> {None, Some (ps ! j)}"
    using vals i_cs by (auto simp: e nth_list_update)
  moreover have "pn_received ?e = card (entry_seen ?e)"
    using ok fresh by (auto simp: e seen entry_ok_def card_insert_if)
  moreover have "pn_total ?e = (if length ps - 1 \<in> entry_seen ?e then Some (length ps) else None)"
    using ok i by (auto simp: e seen entry_ok_def)
  ultimately show "entry_ok ps ?e" using len by (simp add: entry_ok_def e)
qed

lemma entry_seen_bound: "entry_ok ps e \<Longrightarrow> entry_seen e \<subseteq> {..<length ps}"
  by (auto simp: entry_ok_def entry_seen_def)

lemma pending_complete_iff:
  assumes ok: "entry_ok ps e" and "ps \<noteq> []"
  shows "pending_complete e \<longleftrightarrow> entry_seen e = {..<length ps}"
proof
  assume "pending_complete e"
  then have "pn_total e = Some (pn_received e)" by (simp add: pending_complete_def)
  then have "card (entry_seen e) = length ps" using ok by (auto simp: entry_ok_def split: if_splits)
  then show "entry_seen e = {..<length ps}"
    using entry_seen_bound [OF ok] by (intro card_subset_eq) simp_all
next
  assume seen: "entry_seen e = {..<length ps}"
  have "length ps - 1 \<in> entry_seen e" using seen \<open>ps \<noteq> []\<close> by simp
  then have len: "length ps \<le> length (pn_chunks e)" using \<open>ps \<noteq> []\<close> by (auto simp: entry_seen_def)
  with ok have "length (pn_chunks e) = length ps" by (simp add: entry_ok_def)
  then have "\<forall>i < length (pn_chunks e). pn_chunks e ! i \<noteq> None" using seen by (auto simp: entry_seen_def)
  moreover have "pn_total e = Some (pn_received e)"
    using ok seen \<open>ps \<noteq> []\<close> by (simp add: entry_ok_def)
  ultimately show "pending_complete e" by (simp add: pending_complete_def list_all_length)
qed

lemma pending_complete_payload:
  assumes ok: "entry_ok ps e" and "ps \<noteq> []" and "pending_complete e"
  shows "concat (List.map the (filter (\<lambda>c. c \<noteq> None) (pn_chunks e))) = concat ps"
proof -
  have seen: "entry_seen e = {..<length ps}" using assms by (simp add: pending_complete_iff)
  have "length ps - 1 \<in> entry_seen e" using seen \<open>ps \<noteq> []\<close> by simp
  then have "length (pn_chunks e) = length ps" using ok \<open>ps \<noteq> []\<close> by (auto simp: entry_seen_def entry_ok_def)
  moreover have "pn_chunks e ! i = Some (ps ! i)" if "i < length ps" for i
  proof -
    have "i \<in> entry_seen e" using that seen by simp
    with ok show ?thesis by (auto simp: entry_ok_def entry_seen_def)
  qed
  ultimately have "pn_chunks e = List.map Some ps" by (intro nth_equalityI) simp_all
  then show ?thesis by (simp add: filter_map comp_def)
qed

text \<open>The chunks the robot sends for a NAL are its pieces under \<open>piece_header\<close>.\<close>

definition pieces :: "bytes \<Rightarrow> bytes list" where
  "pieces nal = chunks MAX_CHUNK_PAYLOAD nal"

lemma concat_pieces [simp]: "concat (pieces nal) = nal"
  by (simp add: pieces_def MAX_CHUNK_PAYLOAD_def)

lemma pieces_Nil [simp]: "pieces nal = [] \<longleftrightarrow> nal = []"
  by (metis concat.simps(1) concat_pieces chunks_Nil pieces_def)

lemma pieces_empty [simp]: "pieces [] = []"
  by simp

lemma length_pieces: "length (pieces nal) = div_ceil (length nal) 1100"
  by (simp add: pieces_def MAX_CHUNK_PAYLOAD_def length_chunks)

lemma chunk_nal_pieces:
  "chunk_nal nal_id nal = List.map (\<lambda>i. chunk_header_encode (piece_header nal_id (pieces nal) i) @ pieces nal ! i)
     [0..<length (pieces nal)]"
proof (cases "nal = []")
  case False
  then show ?thesis
    by (intro nth_equalityI)
      (simp_all add: chunk_nal_def Let_def piece_header_def nth_enumerate_eq pieces_def
        MAX_CHUNK_PAYLOAD_def length_chunks)
qed (simp add: chunk_nal_def pieces_def)

lemma decode_chunk_nal:
  assumes "d \<in> set (chunk_nal nal_id nal)"
  shows "\<exists>i < length (pieces nal). d = chunk_nal nal_id nal ! i
    \<and> chunk_header_decode d = Some (piece_header nal_id (pieces nal) i, pieces nal ! i)"
  using assms by (auto simp: chunk_nal_pieces chunk_header.dec_enc)

definition nal_fits :: "bytes \<Rightarrow> bool" where
  "nal_fits nal \<longleftrightarrow> length nal \<le> 65536 * 1100"

lemma nal_fits_pieces: "nal_fits nal \<Longrightarrow> length (pieces nal) \<le> 65536"
  by (simp add: nal_fits_def length_pieces div_ceil_le_iff)

definition reassembler_inv :: "(u32 \<Rightarrow> bytes) \<Rightarrow> NalReassembler \<Rightarrow> bool" where
  "reassembler_inv sent r \<longleftrightarrow>
     wf_amap (nr_pending r) \<and> length (nr_pending r) \<le> nr_max_pending r
   \<and> (\<forall>nal_id e. map_of (nr_pending r) nal_id = Some e \<longrightarrow>
        sent nal_id \<noteq> [] \<and> entry_ok (pieces (sent nal_id)) e)"

lemma on_chunk_piece:
  assumes inv: "reassembler_inv sent r" and fits: "nal_fits (sent nal_id)"
    and i: "i < length (pieces (sent nal_id))"
  defines "ps \<equiv> pieces (sent nal_id)"
  defines "e \<equiv> (case map_of (nr_pending r) nal_id of Some e \<Rightarrow> e | None \<Rightarrow> pending_new)"
  shows "snd (on_chunk r (piece_header nal_id ps i) (ps ! i)) =
      (if insert i (entry_seen e) = {..<length ps} then Some (sent nal_id) else None)"
    and "reassembler_inv sent (fst (on_chunk r (piece_header nal_id ps i) (ps ! i)))"
    and "nr_max_pending (fst (on_chunk r (piece_header nal_id ps i) (ps ! i))) = nr_max_pending r"
    and "fst (on_chunk r (piece_header nal_id ps i) (ps ! i)) = r\<lparr>nr_pending := evict_oldest (nr_max_pending r)
      (if insert i (entry_seen e) = {..<length ps} then AList.delete nal_id (nr_pending r)
       else AList.update nal_id (pending_store e (piece_header nal_id ps i) (ps ! i)) (nr_pending r))\<rparr>"
proof -
  have nz: "sent nal_id \<noteq> []" using i by auto
  then have ps: "ps \<noteq> []" by (simp add: ps_def)
  have len: "length ps \<le> 65536" using nal_fits_pieces [OF fits] by (simp add: ps_def)
  have ok: "entry_ok ps e"
    using inv entry_ok_new by (auto simp: e_def ps_def reassembler_inv_def split: option.splits)
  let ?e = "pending_store e (piece_header nal_id ps i) (ps ! i)"
  note st = pending_store_ok [OF ok i [folded ps_def] len]
  have complete: "pending_complete ?e \<longleftrightarrow> insert i (entry_seen e) = {..<length ps}"
    using pending_complete_iff [OF st(1) ps] st(2) by simp
  have payload: "concat (List.map the (filter (\<lambda>c. c \<noteq> None) (pn_chunks ?e))) = sent nal_id" if "pending_complete ?e"
    using pending_complete_payload [OF st(1) ps that] by (simp add: ps_def)
  have id: "ch_nal_id (piece_header nal_id ps i) = nal_id" by (simp add: piece_header_def)
  note unf = on_chunk_def [of r "piece_header nal_id ps i" "ps ! i", unfolded id, folded e_def, unfolded Let_def]
  show "snd (on_chunk r (piece_header nal_id ps i) (ps ! i)) =
      (if insert i (entry_seen e) = {..<length ps} then Some (sent nal_id) else None)"
    unfolding unf snd_conv complete [symmetric] using payload by simp
  have wf: "wf_amap (nr_pending r)" and bound: "length (nr_pending r) \<le> nr_max_pending r"
    using inv by (simp_all add: reassembler_inv_def)
  show shape: "fst (on_chunk r (piece_header nal_id ps i) (ps ! i)) = r\<lparr>nr_pending := evict_oldest (nr_max_pending r)
      (if insert i (entry_seen e) = {..<length ps} then AList.delete nal_id (nr_pending r)
       else AList.update nal_id ?e (nr_pending r))\<rparr>"
    unfolding unf fst_conv complete delete_update_same ..
  show "nr_max_pending (fst (on_chunk r (piece_header nal_id ps i) (ps ! i))) = nr_max_pending r"
    unfolding shape by simp
  have new_ok: "sent k \<noteq> [] \<and> entry_ok (pieces (sent k)) v"
    if "map_of (evict_oldest (nr_max_pending r)
      (if insert i (entry_seen e) = {..<length ps} then AList.delete nal_id (nr_pending r)
       else AList.update nal_id ?e (nr_pending r))) k = Some v" for k v
  proof -
    have "k = nal_id \<and> v = ?e \<or> map_of (nr_pending r) k = Some v"
      using evict_lookup [OF that]
      by (auto simp only: map_of_delete map_of_update fun_upd_apply split: if_splits)
    then show ?thesis using inv st(1) nz unfolding reassembler_inv_def ps_def by blast
  qed
  have "length (AList.update nal_id ?e (nr_pending r)) \<le> Suc (length (nr_pending r))"
    by (rule length_update_le)
  moreover have "length (AList.delete nal_id (nr_pending r)) \<le> Suc (length (nr_pending r))"
    using length_delete [of nal_id "nr_pending r"] by simp
  ultimately show "reassembler_inv sent (fst (on_chunk r (piece_header nal_id ps i) (ps ! i)))"
    unfolding shape reassembler_inv_def using new_ok wf bound
    by (auto intro!: wf_evict length_evict)
qed

text \<open>A receiver fed a sequence of datagrams.\<close>

fun receive :: "NalReassembler \<Rightarrow> bytes list \<Rightarrow> NalReassembler \<times> (u32 \<times> bytes) list" where
  "receive r [] = (r, [])"
| "receive r (d # ds) =
     (let (r', out) = channel_a_on_datagram r d; (r'', outs) = receive r' ds
      in (r'', (case out of None \<Rightarrow> [] | Some x \<Rightarrow> [x]) @ outs))"

lemma receive_Cons:
  "receive r (d # ds) =
     (let r' = fst (channel_a_on_datagram r d); out = snd (channel_a_on_datagram r d)
      in (fst (receive r' ds), (case out of None \<Rightarrow> [] | Some x \<Rightarrow> [x]) @ snd (receive r' ds)))"
  by (simp add: split_def Let_def)

declare receive.simps(2) [simp del]

lemma channel_a_step:
  assumes "i < length (pieces nal)"
  shows "channel_a_on_datagram r (chunk_nal nal_id nal ! i) =
    (let (r', out) = on_chunk r (piece_header nal_id (pieces nal) i) (pieces nal ! i)
     in (r', map_option (\<lambda>nal. (nal_id, START_CODE @ nal)) out))"
  using assms
  by (auto simp: channel_a_on_datagram_def chunk_nal_pieces chunk_header.dec_enc piece_header_def
      split: prod.splits option.splits)

lemma channel_a_step_inv:
  assumes inv: "reassembler_inv sent r" and fits: "nal_fits (sent nal_id)"
    and d: "d \<in> set (chunk_nal nal_id (sent nal_id))"
  shows "reassembler_inv sent (fst (channel_a_on_datagram r d))
    \<and> nr_max_pending (fst (channel_a_on_datagram r d)) = nr_max_pending r
    \<and> (snd (channel_a_on_datagram r d) = None
       \<or> snd (channel_a_on_datagram r d) = Some (nal_id, START_CODE @ sent nal_id))"
proof -
  from decode_chunk_nal [OF d] obtain i where i: "i < length (pieces (sent nal_id))"
    and d: "d = chunk_nal nal_id (sent nal_id) ! i" by blast
  show ?thesis
    using on_chunk_piece(1-3) [OF inv fits i] by (simp add: d channel_a_step [OF i] split_def)
qed

lemma receive_inv:
  assumes "\<forall>nal_id. nal_fits (sent nal_id)"
  shows "reassembler_inv sent r \<Longrightarrow>
    \<forall>d \<in> set ds. \<exists>nal_id. d \<in> set (chunk_nal nal_id (sent nal_id)) \<Longrightarrow>
    reassembler_inv sent (fst (receive r ds)) \<and> nr_max_pending (fst (receive r ds)) = nr_max_pending r
    \<and> (\<forall>(nal_id, nal) \<in> set (snd (receive r ds)). nal = START_CODE @ sent nal_id)"
proof (induction ds arbitrary: r)
  case (Cons d ds)
  from Cons.prems(2) obtain nal_id where "d \<in> set (chunk_nal nal_id (sent nal_id))" by auto
  note step = channel_a_step_inv [OF Cons.prems(1) _ this] 
  obtain r' out where c: "channel_a_on_datagram r d = (r', out)" by (cases "channel_a_on_datagram r d")
  from step assms c have "reassembler_inv sent r'" "nr_max_pending r' = nr_max_pending r"
    "out = None \<or> out = Some (nal_id, START_CODE @ sent nal_id)" by auto
  with Cons.IH [of r'] Cons.prems(2) c show ?case by (auto simp: receive_Cons)
qed simp



text \<open>Eviction spares a NAL as long as few later ones are pending.\<close>

lemma evict_keeps:
  assumes "wf_amap m" and "card {k' \<in> set (keys m). k < k'} < limit"
  shows "map_of (evict_oldest limit m) k = map_of m k"
proof (cases "limit < length m \<and> Min (set (keys m)) = k")
  case False
  then show ?thesis by (auto simp: evict_oldest_def delete_conv')
next
  case True
  then have "set (keys m) - {k} \<subseteq> {k' \<in> set (keys m). k < k'}"
    using Min_le [of "set (keys m)"] by (fastforce simp: order_less_le)
  then have "card (set (keys m) - {k}) \<le> card {k' \<in> set (keys m). k < k'}" by (intro card_mono) simp_all
  moreover have "card (set (keys m)) = length m" using distinct_card [OF assms(1)] by simp
  moreover have "card (set (keys m)) \<le> Suc (card (set (keys m) - {k}))" by (simp add: card_Diff_singleton_if) arith
  ultimately show ?thesis using True assms(2) by linarith
qed

lemma evict_keys: "set (keys (evict_oldest limit m)) \<subseteq> set (keys m)"
  by (auto simp: evict_oldest_def delete_eq_filter)

definition entry_of :: "NalReassembler \<Rightarrow> u32 \<Rightarrow> PendingNal" where
  "entry_of r k = (case map_of (nr_pending r) k of Some e \<Rightarrow> e | None \<Rightarrow> pending_new)"

text \<open>The NALs after a given one that are pending or begin with an arrival; an arrival is a NAL's id and the
  index of one of its chunks.\<close>

definition later_open :: "NalReassembler \<Rightarrow> u32 \<Rightarrow> (u32 \<times> nat) list \<Rightarrow> u32 set" where
  "later_open r nal_id ps = {k. nal_id < k \<and> (k \<in> set (keys (nr_pending r)) \<or> k \<in> fst ` set ps)}"

text \<open>What one arriving chunk does to the entry of a NAL, its own or another's.\<close>

lemma chunk_arrives:
  assumes inv: "reassembler_inv sent r" and fits: "nal_fits (sent k)" and i: "i < length (chunk_nal k (sent k))"
    and few: "card (later_open r nal_id ((k, i) # ps)) < nr_max_pending r"
  defines "r' \<equiv> fst (channel_a_on_datagram r (chunk_nal k (sent k) ! i))"
  defines "out \<equiv> snd (channel_a_on_datagram r (chunk_nal k (sent k) ! i))"
  defines "whole \<equiv> insert i (entry_seen (entry_of r k)) = {..<length (chunk_nal k (sent k))}"
  shows "reassembler_inv sent r'" and "nr_max_pending r' = nr_max_pending r"
    and "later_open r' nal_id ps \<subseteq> later_open r nal_id ((k, i) # ps)"
    and "out = (if whole then Some (k, START_CODE @ sent k) else None)"
    and "entry_seen (entry_of r' nal_id) = (if k \<noteq> nal_id then entry_seen (entry_of r nal_id)
      else if whole then {} else insert i (entry_seen (entry_of r nal_id)))"
proof -
  have n: "length (chunk_nal k (sent k)) = length (pieces (sent k))" by (simp add: chunk_nal_pieces)
  have i': "i < length (pieces (sent k))" using i n by simp
  note step = on_chunk_piece [OF inv fits i', folded entry_of_def n, folded whole_def]
  let ?e = "pending_store (entry_of r k) (piece_header k (pieces (sent k)) i) (pieces (sent k) ! i)"
  let ?m = "if whole then AList.delete k (nr_pending r) else AList.update k ?e (nr_pending r)"
  have r': "r' = fst (on_chunk r (piece_header k (pieces (sent k)) i) (pieces (sent k) ! i))"
    and out: "out = map_option (\<lambda>nal. (k, START_CODE @ nal))
      (snd (on_chunk r (piece_header k (pieces (sent k)) i) (pieces (sent k) ! i)))"
    unfolding r'_def out_def channel_a_step [OF i'] by (simp_all add: split_def Let_def)
  show "reassembler_inv sent r'" "nr_max_pending r' = nr_max_pending r" using step(2,3) r' by simp_all
  show "out = (if whole then Some (k, START_CODE @ sent k) else None)" unfolding out step(1) by simp
  have m: "nr_pending r' = evict_oldest (nr_max_pending r) ?m" using step(4) r' by simp
  have keys: "set (keys ?m) \<subseteq> insert k (set (keys (nr_pending r)))"
    by (auto simp: delete_eq_filter dom_update)
  then have "set (keys (nr_pending r')) \<subseteq> insert k (set (keys (nr_pending r)))"
    unfolding m by (rule order_trans [OF evict_keys])
  then show "later_open r' nal_id ps \<subseteq> later_open r nal_id ((k, i) # ps)" unfolding later_open_def list.set image_insert fst_conv by blast
  have wf: "wf_amap ?m" using inv by (simp add: reassembler_inv_def)
  have "{k' \<in> set (keys ?m). nal_id < k'} \<subseteq> later_open r nal_id ((k, i) # ps)"
    using keys unfolding later_open_def list.set image_insert fst_conv by blast
  then have "card {k' \<in> set (keys ?m). nal_id < k'} < nr_max_pending r"
    using few card_mono [of "later_open r nal_id ((k, i) # ps)" "{k' \<in> set (keys ?m). nal_id < k'}"] by (simp add: later_open_def)
  then have look: "map_of (nr_pending r') nal_id = map_of ?m nal_id"
    unfolding m by (rule evict_keeps [OF wf])
  have ok: "entry_ok (pieces (sent k)) (entry_of r k)"
    using inv entry_ok_new(1) unfolding reassembler_inv_def entry_of_def by (auto split: option.splits)
  have seen: "entry_seen ?e = insert i (entry_seen (entry_of r k))"
    by (rule pending_store_ok(2) [OF ok i' nal_fits_pieces [OF fits]])
  show "entry_seen (entry_of r' nal_id) = (if k \<noteq> nal_id then entry_seen (entry_of r nal_id)
      else if whole then {} else insert i (entry_seen (entry_of r nal_id)))"
    using seen look by (auto simp: entry_of_def map_of_update delete_conv' entry_ok_new(2))
qed

definition chunks_of :: "(u32 \<Rightarrow> bytes) \<Rightarrow> (u32 \<times> nat) list \<Rightarrow> bytes list" where
  "chunks_of sent ps = List.map (\<lambda>(k, i). chunk_nal k (sent k) ! i) ps"

abbreviation indices_of :: "u32 \<Rightarrow> (u32 \<times> nat) list \<Rightarrow> nat list" where
  "indices_of k ps \<equiv> List.map snd (filter (\<lambda>p. fst p = k) ps)"

lemma receive_interleaved:
  assumes fits: "\<forall>k. nal_fits (sent k)"
  shows "reassembler_inv sent r \<Longrightarrow> card (later_open r nal_id ps) < nr_max_pending r \<Longrightarrow>
    list_all (\<lambda>(k, i). i < length (chunk_nal k (sent k))) ps \<Longrightarrow> distinct (indices_of nal_id ps) \<Longrightarrow>
    set (indices_of nal_id ps) \<inter> entry_seen (entry_of r nal_id) = {} \<Longrightarrow>
    (indices_of nal_id ps \<noteq> [] \<Longrightarrow>
      set (indices_of nal_id ps) \<union> entry_seen (entry_of r nal_id) = {..<length (chunk_nal nal_id (sent nal_id))}) \<Longrightarrow>
    filter (\<lambda>p. fst p = nal_id) (snd (receive r (chunks_of sent ps)))
      = (if indices_of nal_id ps = [] then [] else [(nal_id, START_CODE @ sent nal_id)])"
proof (induction ps arbitrary: r)
  case Nil
  show ?case by (simp add: chunks_of_def)
next
  case (Cons p ps)
  obtain k i where p: "p = (k, i)" by (cases p)
  let ?d = "chunk_nal k (sent k) ! i" let ?r = "fst (channel_a_on_datagram r ?d)"
  let ?n = "length (chunk_nal nal_id (sent nal_id))"
  have i: "i < length (chunk_nal k (sent k))" using Cons.prems(3) p by simp
  note arr = chunk_arrives [OF Cons.prems(1) spec [OF fits, of k] i, of nal_id ps, folded p, OF Cons.prems(2)]
  have few: "card (later_open ?r nal_id ps) < nr_max_pending ?r"
    using arr(2) card_mono [OF _ arr(3)] Cons.prems(2) by (simp add: later_open_def)
  have run: "snd (receive r (chunks_of sent (p # ps))) = (case snd (channel_a_on_datagram r ?d) of None \<Rightarrow> [] | Some x \<Rightarrow> [x])
      @ snd (receive ?r (chunks_of sent ps))"
    by (simp add: p chunks_of_def receive_Cons Let_def)
  let ?S = "entry_seen (entry_of r nal_id)"
  have tl: "list_all (\<lambda>(k, i). i < length (chunk_nal k (sent k))) ps" "distinct (indices_of nal_id ps)"
    using Cons.prems(3,4) by (auto split: if_splits)
  show ?case
  proof (cases "k = nal_id")
    case False
    have "filter (\<lambda>p. fst p = nal_id) (snd (receive ?r (chunks_of sent ps)))
      = (if indices_of nal_id ps = [] then [] else [(nal_id, START_CODE @ sent nal_id)])"
      by (rule Cons.IH [OF arr(1) few tl]) (use Cons.prems(5,6) arr(5) False p in auto)
    with False p show ?thesis unfolding run arr(4) by simp
  next
    case True
    have all: "insert i (set (indices_of nal_id ps) \<union> ?S) = {..<?n}" and new: "i \<notin> set (indices_of nal_id ps)" "i \<notin> ?S"
      and rest: "set (indices_of nal_id ps) \<inter> ?S = {}"
      using Cons.prems(4-6) True p by auto
    show ?thesis
    proof (cases "indices_of nal_id ps = []")
      case last: True
      then have whole: "insert i (entry_seen (entry_of r k)) = {..<length (chunk_nal k (sent k))}" using all True by simp
      have "filter (\<lambda>p. fst p = nal_id) (snd (receive ?r (chunks_of sent ps))) = []"
        using Cons.IH [OF arr(1) few tl] last by simp
      then show ?thesis unfolding run arr(4) using whole True p by simp
    next
      case False
      then obtain j where "j \<in> set (indices_of nal_id ps)" by (metis list.set_sel(1))
      then have "j \<in> {..<?n}" "j \<noteq> i" "j \<notin> ?S" using all new rest by auto
      then have no: "insert i (entry_seen (entry_of r k)) \<noteq> {..<length (chunk_nal k (sent k))}" unfolding True by blast
      have "filter (\<lambda>p. fst p = nal_id) (snd (receive ?r (chunks_of sent ps))) = [(nal_id, START_CODE @ sent nal_id)]"
      proof -
        have S': "entry_seen (entry_of ?r nal_id) = insert i ?S" using arr(5) no True by simp
        have "filter (\<lambda>p. fst p = nal_id) (snd (receive ?r (chunks_of sent ps)))
          = (if indices_of nal_id ps = [] then [] else [(nal_id, START_CODE @ sent nal_id)])"
          by (rule Cons.IH [OF arr(1) few tl]; unfold S') (use new rest all in blast)+
        with False show ?thesis by simp
      qed
      then show ?thesis unfolding run arr(4) using no True p by simp
    qed
  qed
qed

text \<open>C18: A NAL whose chunks all arrive is shown.  A receiver that holds no part of a NAL is sent chunks of any NALs,
  mixed in any way, repeated or missing, and among them each chunk of that NAL once, in any order.  Then it hands that NAL
  over, whole and exactly once, unless too many others are under way: as long as fewer NALs with a larger id than
  the receiver has room for are begun.\<close>

theorem video_delivers:
  assumes "\<forall>k. nal_fits (sent k)" and "sent nal_id \<noteq> []" and "reassembler_inv sent r"
    and "nal_id \<notin> set (keys (nr_pending r))"
    and "list_all (\<lambda>(k, i). i < length (chunk_nal k (sent k))) ps"
    and "distinct (indices_of nal_id ps)" and "set (indices_of nal_id ps) = {..<length (chunk_nal nal_id (sent nal_id))}"
    and "card (later_open r nal_id ps) < nr_max_pending r"
  shows "filter (\<lambda>p. fst p = nal_id) (snd (receive r (chunks_of sent ps))) = [(nal_id, START_CODE @ sent nal_id)]"
proof -
  have "entry_seen (entry_of r nal_id) = {}"
    using assms(4) by (simp add: entry_of_def map_of_eq_None_iff [THEN iffD2] entry_ok_new)
  moreover have "0 < length (chunk_nal nal_id (sent nal_id))" using assms(2) by (simp add: chunk_nal_pieces)
  then have "indices_of nal_id ps \<noteq> []" using assms(7) by (metis empty_set lessThan_iff empty_iff)
  ultimately show ?thesis using receive_interleaved [OF assms(1,3,8,5,6)] assms(7) by simp
qed

theorem video_delivers_witness:
  "filter (\<lambda>p. fst p = 3) (snd (receive channel_a_receiver_new
        (chunks_of (\<lambda>k. if k = 3 then replicate 2000 1 else [0x41]) [(3, 1), (4, 0), (2, 0), (3, 0)])))
      = [(3, START_CODE @ replicate 2000 1)]"
proof -
  let ?sent = "\<lambda>k. if k = 3 then replicate 2000 1 else [0x41]" and ?ps = "[(3, 1), (4, 0), (2, 0), (3, 0)]"
  have n: "length (chunk_nal k (?sent k)) = (if k = 3 then 2 else 1)" for k
    by (simp add: chunk_nal_pieces length_pieces div_ceil_def)
  have "later_open channel_a_receiver_new 3 ?ps = {4}"
    by (auto simp: later_open_def channel_a_receiver_new_def reassembler_new_def)
  then have few: "card (later_open channel_a_receiver_new 3 ?ps) < nr_max_pending channel_a_receiver_new"
    by (simp add: channel_a_receiver_new_def reassembler_new_def MAX_PENDING_NALS_def)
  have ps: "list_all (\<lambda>(k, i). i < length (chunk_nal k (?sent k))) ?ps" by (simp only: n) simp
  have whole: "set (indices_of 3 ?ps) = {..<length (chunk_nal 3 (?sent 3))}" using n [of 3] by auto
  have "reassembler_inv ?sent channel_a_receiver_new" "3 \<notin> set (keys (nr_pending channel_a_receiver_new))"
    by (simp_all add: reassembler_inv_def channel_a_receiver_new_def reassembler_new_def)
  from video_delivers [of ?sent, OF _ _ this ps _ whole few] show ?thesis by (simp add: nal_fits_def)
qed
section \<open>The encoder hand-off\<close>

datatype encoder_event = Capture bytes | Recv

text \<open>A run of the encoder task and its reader: the NALs produced and those the reader got.\<close>

fun encoder_run :: "Encoder \<Rightarrow> encoder_event list \<Rightarrow> Encoder \<times> (u32 \<times> bytes) list" where
  "encoder_run s [] = (s, [])"
| "encoder_run s (Capture data # es) = encoder_run (fst (encoder_push s data)) es"
| "encoder_run s (Recv # es) =
     (case video_recv s of
        (s', None) \<Rightarrow> encoder_run s' es
      | (s', Some nal) \<Rightarrow> (let (s'', got) = encoder_run s' es in (s'', nal # got)))"

definition captured :: "encoder_event list \<Rightarrow> bytes" where
  "captured es = concat (List.map (\<lambda>e. case e of Capture data \<Rightarrow> data | Recv \<Rightarrow> []) es)"

text \<open>The NALs of the stream with the ids the task gives them.\<close>

definition numbered :: "u32 \<Rightarrow> bytes list \<Rightarrow> (u32 \<times> bytes) list" where
  "numbered first nals = List.map (\<lambda>(i, nal). (first + word_of_nat i, nal)) (enumerate 0 nals)"

abbreviation critical :: "(u32 \<times> bytes) list \<Rightarrow> (u32 \<times> bytes) list" where
  "critical xs \<equiv> filter (\<lambda>(_, nal). nal_is_critical nal) xs"

lemma numbered_Cons [simp]: "numbered k (x # xs) = (k, x) # numbered (k + 1) xs"
  by (simp add: numbered_def enumerate_Suc_eq comp_def split_def algebra_simps)

lemma numbered_Nil [simp]: "numbered k [] = []"
  by (simp add: numbered_def)

lemma numbered_append: "numbered k (xs @ ys) = numbered k xs @ numbered (k + word_of_nat (length xs)) ys"
  by (induction xs arbitrary: k) (simp_all add: algebra_simps)

lemma encoder_nal_simps:
  "en_critical (encoder_nal nal s) =
     en_critical s @ (if nal_is_critical nal then [(en_next_nal_id s, nal)] else [])"
  "en_next_nal_id (encoder_nal nal s) = en_next_nal_id s + 1"
  "en_splitter (encoder_nal nal s) = en_splitter s"
  "en_latest_delta (encoder_nal nal s) =
     (if nal_is_critical nal then en_latest_delta s else Some (en_next_nal_id s, nal))"
  by (simp_all add: encoder_nal_def Let_def)

lemma fold_encoder_critical:
  "en_critical (fold encoder_nal nals s) = en_critical s @ critical (numbered (en_next_nal_id s) nals)"
  by (induction nals arbitrary: s) (simp_all add: encoder_nal_simps)

lemma fold_encoder_id:
  "en_next_nal_id (fold encoder_nal nals s) = en_next_nal_id s + word_of_nat (length nals)"
  by (induction nals arbitrary: s) (simp_all add: encoder_nal_simps)

lemma fold_encoder_splitter: "en_splitter (fold encoder_nal nals s) = en_splitter s"
  by (induction nals arbitrary: s) (simp_all add: encoder_nal_simps)

text \<open>Critical NALs and deltas never share a lane.\<close>

definition lanes_ok :: "Encoder \<Rightarrow> bool" where
  "lanes_ok s \<longleftrightarrow> (\<forall>x \<in> set (en_critical s). nal_is_critical (snd x))
     \<and> (\<forall>x. en_latest_delta s = Some x \<longrightarrow> \<not> nal_is_critical (snd x))"

lemma fold_encoder_lanes: "lanes_ok s \<Longrightarrow> lanes_ok (fold encoder_nal nals s)"
proof (induction nals arbitrary: s)
  case (Cons nal nals)
  have "lanes_ok (encoder_nal nal s)"
    using Cons.prems by (auto simp: encoder_nal_simps lanes_ok_def)
  with Cons.IH show ?case by simp
qed simp

lemma encoder_push_simps:
  "en_critical (fst (encoder_push s data)) =
     en_critical s @ critical (numbered (en_next_nal_id s) (emitted (sp_buf (en_splitter s) @ data)))"
  "en_next_nal_id (fst (encoder_push s data)) =
     en_next_nal_id s + word_of_nat (length (emitted (sp_buf (en_splitter s) @ data)))"
  "sp_buf (en_splitter (fst (encoder_push s data))) = kept (sp_buf (en_splitter s) @ data)"
  by (simp_all add: encoder_push_def splitter_push_eq fold_encoder_critical fold_encoder_id
      fold_encoder_splitter)

lemma encoder_push_lanes: "lanes_ok s \<Longrightarrow> lanes_ok (fst (encoder_push s data))"
  unfolding encoder_push_def splitter_push_eq
  by (simp, intro fold_encoder_lanes) (simp add: lanes_ok_def)

lemma encoder_run_critical:
  "lanes_ok s \<Longrightarrow> kept (sp_buf (en_splitter s)) = sp_buf (en_splitter s) \<Longrightarrow>
   emitted (sp_buf (en_splitter s)) = [] \<Longrightarrow>
   critical (snd (encoder_run s es)) @ en_critical (fst (encoder_run s es)) =
     en_critical s @ critical (numbered (en_next_nal_id s)
       (emitted (sp_buf (en_splitter s) @ captured es)))"
proof (induction s es rule: encoder_run.induct)
  case (1 s)
  then show ?case by (simp add: captured_def)
next
  case (2 s data es)
  let ?b = "sp_buf (en_splitter s) @ data"
  have k: "kept (kept ?b) = kept ?b" "emitted (kept ?b) = []"
    using emitted_kept_append [of ?b "[]"] by simp_all
  have c: "captured (Capture data # es) = data @ captured es" by (simp add: captured_def)
  show ?case
    using "2.IH" encoder_push_lanes [OF "2.prems"(1), of data] k
      emitted_kept_append(1) [of ?b "captured es"]
    by (simp add: encoder_push_simps c numbered_append)
next
  case (3 s es)
  have c: "captured (Recv # es) = captured es" by (simp add: captured_def)
  show ?case
  proof (cases "en_critical s")
    case (Cons nal rest)
    then have r: "video_recv s = (s\<lparr>en_critical := rest\<rparr>, Some nal)" by (simp add: video_recv_def)
    have "lanes_ok (s\<lparr>en_critical := rest\<rparr>)" "nal_is_critical (snd nal)"
      using "3.prems"(1) Cons by (auto simp: lanes_ok_def)
    with "3.IH"(2) [OF r [symmetric]] "3.prems"(2,3) show ?thesis
      by (simp add: r c Cons split_def Let_def)
  next
    case Nil
    let ?s = "s\<lparr>en_latest_delta := None\<rparr>"
    have r: "video_recv s = (?s, en_latest_delta s)" using Nil by (simp add: video_recv_def)
    have ok: "lanes_ok ?s" using Nil by (simp add: lanes_ok_def)
    show ?thesis
    proof (cases "en_latest_delta s")
      case None
      with "3.IH"(1) [of ?s None] "3.prems"(2,3) r ok show ?thesis by (simp add: c)
    next
      case (Some nal)
      then have "\<not> nal_is_critical (snd nal)" using "3.prems"(1) by (simp add: lanes_ok_def)
      with "3.IH"(2) [of ?s "Some nal" nal] "3.prems"(2,3) r ok Some show ?thesis by (simp add: c split_def Let_def)
    qed
  qed
qed

text \<open>The robot never loses a NAL the decoder cannot do without.  However the encoder's output
  arrives and however slowly the sender reads, the SPS, PPS and IDR NALs the sender got, followed by
  those still queued for it, are exactly those of the captured stream, in order and under their
  stream positions as ids; only deltas are ever superseded.\<close>

theorem critical_nals_never_superseded:
  "critical (snd (encoder_run encoder_new es)) @ en_critical (fst (encoder_run encoder_new es)) =
     critical (numbered 0 (snd (splitter_push splitter_new (captured es))))"
proof -
  have "lanes_ok encoder_new" "kept [] = []" "emitted [] = []"
    by (simp_all add: lanes_ok_def encoder_new_def kept_def emitted_def find_start_codes_def start_codes_from_short)
  then show ?thesis using encoder_run_critical [of encoder_new es]
    by (simp add: splitter_push_eq encoder_new_def splitter_new_def)
qed

end
