(* ===== verification/Gate.thy ===== *)
theory Gate
  imports Video
begin

text \<open>
  The console's decoder gate (\<open>operator-console/video/gate.rs\<close>): \<open>DeltaGate\<close>, which
  holds deltas back after a gap in the NAL ids until the next IDR, and \<open>DeltaSlot\<close>, the short
  queue in front of a playback backend.
\<close>

section \<open>The gate\<close>

definition RESTART_GAP :: u32 where "RESTART_GAP = 1000"
definition NAL_IDR :: u8 where "NAL_IDR = 5"
definition NAL_SPS :: u8 where "NAL_SPS = 7"
definition NAL_PPS :: u8 where "NAL_PPS = 8"

lemmas nal_type_defs = NAL_IDR_def NAL_SPS_def NAL_PPS_def

record GateStats =
  gs_freezes :: nat
  gs_deltas_held :: nat

record DeltaGate =
  dg_next_id :: "u32 option"
  dg_frozen :: bool
  dg_stats :: GateStats

definition gate_new :: DeltaGate where
  "gate_new = \<lparr>dg_next_id = None, dg_frozen = False,
     dg_stats = \<lparr>gs_freezes = 0, gs_deltas_held = 0\<rparr>\<rparr>"

definition u32_saturating_add :: "u32 \<Rightarrow> u32 \<Rightarrow> u32" where
  "u32_saturating_add a b = (if a + b < a then - 1 else a + b)"

definition gate_freeze :: "DeltaGate \<Rightarrow> DeltaGate" where
  "gate_freeze g =
     (if \<not> dg_frozen g
      then g\<lparr>dg_frozen := True,
             dg_stats := (dg_stats g)\<lparr>gs_freezes := gs_freezes (dg_stats g) + 1\<rparr>\<rparr>
      else g)"

text \<open>The part of \<open>admit\<close> after the checks on the expected id.\<close>

definition admit_current :: "DeltaGate \<Rightarrow> u32 \<Rightarrow> u8 \<Rightarrow> DeltaGate \<times> bool" where
  "admit_current g nal_id nal_type =
     (let g = g\<lparr>dg_next_id := Some (nal_id + 1)\<rparr>
      in if nal_type = NAL_SPS \<or> nal_type = NAL_PPS then (g, True)
         else if nal_type = NAL_IDR then (g\<lparr>dg_frozen := False\<rparr>, True)
         else if dg_frozen g
         then (g\<lparr>dg_stats := (dg_stats g)\<lparr>gs_deltas_held := gs_deltas_held (dg_stats g) + 1\<rparr>\<rparr>, False)
         else (g, True))"

definition admit :: "DeltaGate \<Rightarrow> u32 \<Rightarrow> u8 \<Rightarrow> DeltaGate \<times> bool" where
  "admit g nal_id nal_type =
     (let g = (case dg_next_id g of
                 Some expected \<Rightarrow>
                   if u32_saturating_add nal_id RESTART_GAP < expected
                   then gate_new\<lparr>dg_stats := dg_stats g\<rparr> else g
               | None \<Rightarrow> g)
      in case dg_next_id g of
           Some expected \<Rightarrow>
             if nal_id < expected then (g, nal_type = NAL_SPS \<or> nal_type = NAL_PPS)
             else if expected < nal_id then admit_current (gate_freeze g) nal_id nal_type
             else admit_current g nal_id nal_type
         | None \<Rightarrow> admit_current g nal_id nal_type)"

definition playback_overflowed :: "DeltaGate \<Rightarrow> DeltaGate" where
  "playback_overflowed g = gate_freeze g"

section \<open>The slot\<close>

definition DELTA_QUEUE_CAP :: nat where "DELTA_QUEUE_CAP = 8"

record DeltaSlot =
  ds_queue :: "bytes list"

definition slot_new :: DeltaSlot where
  "slot_new = \<lparr>ds_queue = []\<rparr>"

definition slot_offer :: "DeltaSlot \<Rightarrow> bytes \<Rightarrow> DeltaSlot \<times> bool" where
  "slot_offer s bs =
     (if DELTA_QUEUE_CAP \<le> length (ds_queue s) then (s\<lparr>ds_queue := []\<rparr>, False)
      else (s\<lparr>ds_queue := ds_queue s @ [bs]\<rparr>, True))"

definition slot_clear :: "DeltaSlot \<Rightarrow> DeltaSlot" where
  "slot_clear s = s\<lparr>ds_queue := []\<rparr>"

definition slot_take :: "DeltaSlot \<Rightarrow> DeltaSlot \<times> bytes option" where
  "slot_take s = (case ds_queue s of [] \<Rightarrow> (s, None) | b # rest \<Rightarrow> (s\<lparr>ds_queue := rest\<rparr>, Some b))"

section \<open>Freeze, don't smear\<close>

datatype gate_event = Nal u32 u8 | Overflowed

fun gate_step :: "DeltaGate \<Rightarrow> gate_event \<Rightarrow> DeltaGate" where
  "gate_step g (Nal nal_id nal_type) = fst (admit g nal_id nal_type)"
| "gate_step g Overflowed = playback_overflowed g"

definition gate_run :: "gate_event list \<Rightarrow> DeltaGate" where
  "gate_run es = foldl gate_step gate_new es"

fun is_idr :: "gate_event \<Rightarrow> bool" where
  "is_idr (Nal _ t) = (t = NAL_IDR)"
| "is_idr Overflowed = False"

fun nal_ids :: "gate_event list \<Rightarrow> u32 list" where
  "nal_ids [] = []"
| "nal_ids (Nal k _ # es) = k # nal_ids es"
| "nal_ids (Overflowed # es) = nal_ids es"

lemma nal_ids_append [simp]: "nal_ids (es @ fs) = nal_ids es @ nal_ids fs"
  by (induction es rule: nal_ids.induct) auto

text \<open>The events since the last IDR, that IDR included (all of them when there was none), and the
  specification of an undamaged group of pictures: no overflow, and no id skipped between its NALs.\<close>

definition since_idr :: "gate_event list \<Rightarrow> gate_event list" where
  "since_idr es = foldl (\<lambda>acc e. if is_idr e then [e] else acc @ [e]) [] es"

lemma since_idr_snoc [simp]: "since_idr [] = []"
  "since_idr (es @ [e]) = (if is_idr e then [e] else since_idr es @ [e])"
  by (simp_all add: since_idr_def)

definition undamaged :: "gate_event list \<Rightarrow> bool" where
  "undamaged es \<longleftrightarrow> Overflowed \<notin> set es \<and> successively (\<lambda>a b. b = a + 1) (nal_ids es)"

lemma since_idr_suffix: "\<exists>pre. es = pre @ since_idr es"
proof (induction es rule: rev_induct)
  case (snoc e es)
  then obtain pre where "es = pre @ since_idr es" by blast
  then show ?case by (cases "is_idr e") auto
qed simp

lemma nal_ids_Nil_no_nal: "nal_ids es = [] \<Longrightarrow> Nal k t \<notin> set es"
  by (induction es rule: nal_ids.induct) auto

lemma last_since_idr:
  "nal_ids es \<noteq> [] \<Longrightarrow> nal_ids (since_idr es) \<noteq> [] \<and> last (nal_ids (since_idr es)) = last (nal_ids es)"
proof (induction es rule: rev_induct)
  case (snoc e es)
  then show ?case by (cases e) auto
qed simp

lemma since_idr_Nil: "nal_ids es = [] \<Longrightarrow> since_idr es = es"
proof (induction es rule: rev_induct)
  case (snoc e es)
  then show ?case by (cases e) auto
qed simp

lemma next_word: "(a :: u32) < b \<Longrightarrow> a + 1 \<le> b \<and> a < a + 1"
proof -
  assume "a < b"
  then have "unat a + 1 \<le> unat b" by (simp add: word_less_nat_alt)
  moreover have "unat b < 2 ^ 32" using unsigned_less [of b] by simp
  ultimately have "unat (a + 1) = unat a + 1" by (simp add: unat_word_ariths)
  with \<open>unat a + 1 \<le> unat b\<close> show ?thesis by (simp add: word_less_nat_alt word_le_nat_alt)
qed

lemma saturating_add_ge: "a \<le> u32_saturating_add a b"
  by (auto simp: u32_saturating_add_def)

lemma undamaged_snoc:
  "undamaged (es @ [Nal k t]) \<longleftrightarrow>
     undamaged es \<and> (nal_ids es \<noteq> [] \<longrightarrow> k = last (nal_ids es) + 1)"
  by (auto simp: undamaged_def successively_append_iff)

lemma gate_run_snoc [simp]: "gate_run [] = gate_new" "gate_run (es @ [e]) = gate_step (gate_run es) e"
  by (simp_all add: gate_run_def)

lemma gate_freeze_simps [simp]:
  "dg_frozen (gate_freeze g)" "dg_next_id (gate_freeze g) = dg_next_id g"
  by (simp_all add: gate_freeze_def)

lemma admit_current_simps:
  "dg_next_id (fst (admit_current g k t)) = Some (k + 1)"
  "dg_frozen (fst (admit_current g k t)) \<longleftrightarrow> dg_frozen g \<and> t \<noteq> NAL_IDR"
  "snd (admit_current g k t) \<longleftrightarrow> t \<in> {NAL_SPS, NAL_PPS, NAL_IDR} \<or> \<not> dg_frozen g"
  by (auto simp: admit_current_def Let_def nal_type_defs)

lemma admit_in_order:
  assumes "dg_next_id g = Some (l + 1)" and "l < k"
  shows "admit g k t = admit_current (if k = l + 1 then g else gate_freeze g) k t"
proof -
  have "l + 1 \<le> k" using next_word [OF assms(2)] by blast
  then have "\<not> u32_saturating_add k RESTART_GAP < l + 1" "\<not> k < l + 1" "l + 1 < k \<longleftrightarrow> k \<noteq> l + 1"
    using saturating_add_ge [of k RESTART_GAP] by auto
  with assms(1) show ?thesis by (simp add: admit_def)
qed

lemma admit_first: "dg_next_id g = None \<Longrightarrow> admit g k t = admit_current g k t"
  by (simp add: admit_def)

lemma gate_run_state:
  "sorted_wrt (<) (nal_ids es) \<Longrightarrow>
     dg_next_id (gate_run es) = (if nal_ids es = [] then None else Some (last (nal_ids es) + 1))
   \<and> (dg_frozen (gate_run es) \<longleftrightarrow> \<not> undamaged (since_idr es))"
proof (induction es rule: rev_induct)
  case Nil
  then show ?case by (simp add: gate_new_def undamaged_def)
next
  case (snoc e es)
  have sorted: "sorted_wrt (<) (nal_ids es)" using snoc.prems by (simp add: sorted_wrt_append)
  note IH = snoc.IH [OF sorted]
  show ?case
  proof (cases e)
    case Overflowed
    then show ?thesis using IH by (simp add: playback_overflowed_def undamaged_def)
  next
    case (Nal k t)
    define g where "g = gate_run es"
    have idr: "undamaged (since_idr (es @ [Nal k t])) \<longleftrightarrow> t = NAL_IDR \<or>
        undamaged (since_idr es) \<and> (nal_ids es \<noteq> [] \<longrightarrow> k = last (nal_ids es) + 1)"
    proof (cases "nal_ids es = []")
      case True
      then show ?thesis by (simp add: undamaged_snoc since_idr_Nil) (simp add: undamaged_def)
    next
      case False
      then show ?thesis using last_since_idr [OF False] by (simp add: undamaged_snoc) (simp add: undamaged_def)
    qed
    show ?thesis
    proof (cases "nal_ids es = []")
      case True
      then show ?thesis using IH idr admit_first [of "gate_run es" k t]
        by (auto simp add: Nal admit_current_simps simp del: since_idr_snoc)
    next
      case False
      then have "last (nal_ids es) < k"
        using snoc.prems by (simp add: Nal sorted_wrt_append)
      with False IH idr admit_in_order [of "gate_run es" "last (nal_ids es)" k t] show ?thesis
        by (auto simp add: Nal admit_current_simps simp del: since_idr_snoc)
    qed
  qed
qed



end
