(* ===== verification/LossyQueue.thy ===== *)
theory LossyQueue
  imports Video Gate "HOL-Library.Sublist"
begin

unbundle bit_operations_syntax

text \<open>
  The robot's queue of lossy datagrams in front of QUIC (\<open>robot-edge/lossy_queue.rs\<close>): video
  NALs with the drop-stale-deltas rule, one queue per sensor under the \<open>Cut\<close> or
  \<open>Finish\<close> policy, and the alternation between the two classes.
\<close>

section \<open>State\<close>

definition QUICHE_LOSSY_LIMIT :: nat where "QUICHE_LOSSY_LIMIT = 8"
definition VIDEO_MAX_WAIT :: duration where "VIDEO_MAX_WAIT = millis 150"

record QueuedNal =
  qn_type :: u8
  qn_queued_at :: instant
  qn_chunks :: "bytes list"

record LossyStats =
  ls_video_nals_dropped :: nat
  ls_sensor_frames_cut :: nat
  ls_sensor_frames_skipped :: nat
  ls_sensor_slices_dropped :: nat

datatype SensorFramePolicy = Cut | Finish

definition policy_parse :: "string \<Rightarrow> SensorFramePolicy option" where
  "policy_parse name = (if name = ''cut'' then Some Cut else if name = ''finish'' then Some Finish else None)"

record SensorQueue =
  sq_current :: "bytes list"
  sq_started :: bool
  sq_waiting :: "bytes list option"

definition sensor_queue_new :: SensorQueue where
  "sensor_queue_new = \<lparr>sq_current = [], sq_started = False, sq_waiting = None\<rparr>"

definition sq_is_empty :: "SensorQueue \<Rightarrow> bool" where
  "sq_is_empty q = (sq_current q = [] \<and> sq_waiting q = None)"

record LossyQueue =
  lq_video :: "QueuedNal list"
  lq_sensors :: "(u8, SensorQueue) amap"
  lq_sensor_policy :: SensorFramePolicy
  lq_skip_deltas_until_idr :: bool
  lq_video_turn :: bool
  lq_last_sensor :: "u8 option"
  lq_stats :: LossyStats

definition with_sensor_policy :: "SensorFramePolicy \<Rightarrow> LossyQueue" where
  "with_sensor_policy policy = \<lparr>lq_video = [], lq_sensors = [], lq_sensor_policy = policy,
     lq_skip_deltas_until_idr = False, lq_video_turn = False, lq_last_sensor = None,
     lq_stats = \<lparr>ls_video_nals_dropped = 0, ls_sensor_frames_cut = 0,
       ls_sensor_frames_skipped = 0, ls_sensor_slices_dropped = 0\<rparr>\<rparr>"

definition lossy_queue_new :: LossyQueue where
  "lossy_queue_new = with_sensor_policy Cut"

section \<open>Operations\<close>

definition nal_type_of :: "bytes \<Rightarrow> u8" where
  "nal_type_of nal = (case nal of [] \<Rightarrow> 0 | b # _ \<Rightarrow> b AND 0x1F)"

definition count_dropped :: "nat \<Rightarrow> LossyQueue \<Rightarrow> LossyQueue" where
  "count_dropped n q = q\<lparr>lq_stats := (lq_stats q)\<lparr>ls_video_nals_dropped :=
     ls_video_nals_dropped (lq_stats q) + n\<rparr>\<rparr>"

definition push_video_nal :: "LossyQueue \<Rightarrow> u32 \<Rightarrow> bytes \<Rightarrow> instant \<Rightarrow> LossyQueue" where
  "push_video_nal q nal_id nal now =
     (let t = nal_type_of nal
      in if t \<noteq> NAL_SPS \<and> t \<noteq> NAL_PPS \<and> t \<noteq> NAL_IDR \<and> lq_skip_deltas_until_idr q
         then count_dropped 1 q
         else
           let kept = (if t = NAL_SPS \<or> t = NAL_PPS then filter (\<lambda>p. qn_type p \<noteq> t) (lq_video q)
                       else if t = NAL_IDR then filter (\<lambda>p. qn_type p = NAL_SPS \<or> qn_type p = NAL_PPS) (lq_video q)
                       else lq_video q);
               q1 = count_dropped (length (lq_video q) - length kept)
                 (if t = NAL_IDR then q\<lparr>lq_skip_deltas_until_idr := False\<rparr> else q);
               chunks = List.map (\<lambda>c. tag DATAGRAM_TAG_CHANNEL_A c) (chunk_nal nal_id nal)
           in q1\<lparr>lq_video := kept @ [\<lparr>qn_type = t, qn_queued_at = now, qn_chunks = chunks\<rparr>]\<rparr>)"

definition is_delta :: "QueuedNal \<Rightarrow> bool" where
  "is_delta p = (qn_type p \<notin> {NAL_IDR, NAL_SPS, NAL_PPS})"

definition expire_stale_video :: "LossyQueue \<Rightarrow> instant \<Rightarrow> LossyQueue" where
  "expire_stale_video q now =
     (if list_ex (\<lambda>p. is_delta p \<and> VIDEO_MAX_WAIT < duration_since now (qn_queued_at p)) (lq_video q)
      then let kept = filter (\<lambda>p. \<not> is_delta p) (lq_video q)
           in (count_dropped (length (lq_video q) - length kept) q)
                \<lparr>lq_video := kept, lq_skip_deltas_until_idr := True\<rparr>
      else q)"

definition count_skipped :: "nat \<Rightarrow> LossyStats \<Rightarrow> LossyStats" where
  "count_skipped slices st = st\<lparr>ls_sensor_frames_skipped := ls_sensor_frames_skipped st + 1,
     ls_sensor_slices_dropped := ls_sensor_slices_dropped st + slices\<rparr>"

text \<open>The policy's decision for one sensor's queue, with the counters.\<close>

definition sensor_enqueue ::
  "SensorFramePolicy \<Rightarrow> SensorQueue \<Rightarrow> LossyStats \<Rightarrow> bytes list \<Rightarrow> SensorQueue \<times> LossyStats" where
  "sensor_enqueue policy q st datagrams =
     (case policy of
        Cut \<Rightarrow>
          (q\<lparr>sq_current := datagrams, sq_started := False\<rparr>,
           if sq_current q \<noteq> []
           then st\<lparr>ls_sensor_frames_cut := ls_sensor_frames_cut st + 1,
                   ls_sensor_slices_dropped := ls_sensor_slices_dropped st + length (sq_current q)\<rparr>
           else st)
      | Finish \<Rightarrow>
          if sq_current q = [] \<or> \<not> sq_started q
          then (q\<lparr>sq_current := datagrams, sq_started := False\<rparr>,
                if sq_current q \<noteq> [] then count_skipped (length (sq_current q)) st else st)
          else (q\<lparr>sq_waiting := Some datagrams\<rparr>,
                case sq_waiting q of Some old \<Rightarrow> count_skipped (length old) st | None \<Rightarrow> st))"

definition push_sensor_frame :: "LossyQueue \<Rightarrow> u8 \<Rightarrow> bytes list \<Rightarrow> LossyQueue" where
  "push_sensor_frame q sensor_id datagrams =
     (let sq = (case map_of (lq_sensors q) sensor_id of Some sq \<Rightarrow> sq | None \<Rightarrow> sensor_queue_new);
          (sq', st') = sensor_enqueue (lq_sensor_policy q) sq (lq_stats q) datagrams
      in q\<lparr>lq_sensors := sorted_insert sensor_id sq' (lq_sensors q), lq_stats := st'\<rparr>)"

definition pop_video :: "LossyQueue \<Rightarrow> LossyQueue \<times> bytes option" where
  "pop_video q =
     (case lq_video q of
        [] \<Rightarrow> (q, None)
      | front # rest \<Rightarrow>
         (case qn_chunks front of
            [] \<Rightarrow> (q\<lparr>lq_video := rest\<rparr>, None)
          | [c] \<Rightarrow> (q\<lparr>lq_video := rest\<rparr>, Some c)
          | c # cs \<Rightarrow> (q\<lparr>lq_video := front\<lparr>qn_chunks := cs\<rparr> # rest\<rparr>, Some c)))"

text \<open>Round-robin: the first waiting sensor after the last one served, else the first waiting.\<close>

definition next_sensor :: "LossyQueue \<Rightarrow> u8 option" where
  "next_sensor q =
     (let waiting = keys (filter (\<lambda>(_, sq). \<not> sq_is_empty sq) (lq_sensors q))
      in case find (\<lambda>i. case lq_last_sensor q of None \<Rightarrow> True | Some l \<Rightarrow> l < i) waiting of
           Some i \<Rightarrow> Some i
         | None \<Rightarrow> (case waiting of [] \<Rightarrow> None | i # _ \<Rightarrow> Some i))"

definition sensor_dequeue :: "SensorQueue \<Rightarrow> SensorQueue \<times> bytes option" where
  "sensor_dequeue q =
     (let q1 = (if sq_current q = []
                then q\<lparr>sq_current := (case sq_waiting q of Some w \<Rightarrow> w | None \<Rightarrow> []), sq_waiting := None,
                       sq_started := False\<rparr>
                else q);
          slice = (case sq_current q1 of [] \<Rightarrow> None | s # _ \<Rightarrow> Some s);
          q2 = q1\<lparr>sq_current := tl (sq_current q1), sq_started := True\<rparr>
      in (if sq_current q2 = []
          then (case sq_waiting q2 of
                  Some w \<Rightarrow> q2\<lparr>sq_current := w, sq_waiting := None, sq_started := False\<rparr>
                | None \<Rightarrow> q2)
          else q2, slice))"

definition pop_sensor :: "LossyQueue \<Rightarrow> LossyQueue \<times> bytes option" where
  "pop_sensor q =
     (case next_sensor q of
        None \<Rightarrow> (q, None)
      | Some i \<Rightarrow>
         (case map_of (lq_sensors q) i of
            None \<Rightarrow> (q\<lparr>lq_last_sensor := Some i\<rparr>, None)
          | Some sq \<Rightarrow>
             (let (sq', slice) = sensor_dequeue sq
              in (q\<lparr>lq_last_sensor := Some i, lq_sensors := sorted_insert i sq' (lq_sensors q)\<rparr>, slice))))"

definition or_else ::
  "(LossyQueue \<Rightarrow> LossyQueue \<times> bytes option) \<Rightarrow> (LossyQueue \<Rightarrow> LossyQueue \<times> bytes option)
     \<Rightarrow> LossyQueue \<Rightarrow> LossyQueue \<times> bytes option" where
  "or_else f g q = (case f q of (q', Some d) \<Rightarrow> (q', Some d) | (q', None) \<Rightarrow> g q')"

definition lq_pop :: "LossyQueue \<Rightarrow> instant \<Rightarrow> LossyQueue \<times> bytes option" where
  "lq_pop q now =
     (let q1 = expire_stale_video q now;
          first_video = lq_video_turn q1;
          q2 = q1\<lparr>lq_video_turn := \<not> lq_video_turn q1\<rparr>
      in if first_video then or_else pop_video pop_sensor q2 else or_else pop_sensor pop_video q2)"

section \<open>A group of pictures is sent as a prefix\<close>

datatype lq_event = PushNal u32 bytes instant | PushFrame u8 "bytes list" | Pop instant

text \<open>Bookkeeping beside the queue: the tagged chunks of every delta pushed since the last IDR was
  pushed, and every datagram that pops have returned since then.  \<open>delta_out\<close> are those of them that are chunks of
  these deltas.\<close>

record lq_trace =
  tr_queue :: LossyQueue
  tr_gop :: "bytes list"
  tr_out :: "bytes list"

definition delta_out :: "lq_trace \<Rightarrow> bytes list" where
  "delta_out tr = filter (\<lambda>d. d \<in> set (tr_gop tr)) (tr_out tr)"

definition nal_chunks :: "u32 \<Rightarrow> bytes \<Rightarrow> bytes list" where
  "nal_chunks nal_id nal = List.map (tag DATAGRAM_TAG_CHANNEL_A) (chunk_nal nal_id nal)"

definition critical_type :: "u8 \<Rightarrow> bool" where
  "critical_type t = (t \<in> {NAL_IDR, NAL_SPS, NAL_PPS})"

text \<open>The delta chunks still waiting.\<close>

definition waiting_deltas :: "LossyQueue \<Rightarrow> bytes list" where
  "waiting_deltas q = concat (List.map qn_chunks (filter is_delta (lq_video q)))"

fun trace_step :: "lq_trace \<Rightarrow> lq_event \<Rightarrow> lq_trace" where
  "trace_step tr (PushNal nal_id nal now) =
     (let t = nal_type_of nal; q = push_video_nal (tr_queue tr) nal_id nal now
      in if t = NAL_IDR then \<lparr>tr_queue = q, tr_gop = [], tr_out = []\<rparr>
         else if critical_type t then tr\<lparr>tr_queue := q\<rparr>
         else tr\<lparr>tr_queue := q, tr_gop := tr_gop tr @ nal_chunks nal_id nal\<rparr>)"
| "trace_step tr (PushFrame i ds) = tr\<lparr>tr_queue := push_sensor_frame (tr_queue tr) i ds\<rparr>"
| "trace_step tr (Pop now) =
     (let (q, d) = lq_pop (tr_queue tr) now
      in tr\<lparr>tr_queue := q, tr_out := tr_out tr @ (case d of None \<Rightarrow> [] | Some d \<Rightarrow> [d])\<rparr>)"

definition trace_run :: "SensorFramePolicy \<Rightarrow> lq_event list \<Rightarrow> lq_trace" where
  "trace_run policy es =
     foldl trace_step \<lparr>tr_queue = with_sensor_policy policy, tr_gop = [], tr_out = []\<rparr> es"

text \<open>The NAL a datagram carries a chunk of, if any, and the ids of the NALs pushed.  The robot numbers its NALs one
  by one and tags its sensor slices otherwise.\<close>

definition chunk_id :: "bytes \<Rightarrow> u32 option" where
  "chunk_id d = (case d of [] \<Rightarrow> None
     | t # rest \<Rightarrow> if t = DATAGRAM_TAG_CHANNEL_A then map_option (\<lambda>(h, _). ch_nal_id h) (chunk_header_decode rest) else None)"

definition pushed_ids :: "lq_event list \<Rightarrow> u32 list" where
  "pushed_ids es = concat (List.map (\<lambda>e. case e of PushNal k _ _ \<Rightarrow> [k] | _ \<Rightarrow> []) es)"

definition slices_tagged :: "lq_event \<Rightarrow> bool" where
  "slices_tagged e = (case e of PushFrame _ ds \<Rightarrow> list_all (\<lambda>d. chunk_id d = None) ds | _ \<Rightarrow> True)"

lemma chunk_id_nal: "d \<in> set (nal_chunks k nal) \<Longrightarrow> chunk_id d = Some k"
  by (auto simp: nal_chunks_def chunk_id_def tag_def piece_header_def dest!: decode_chunk_nal)

lemma critical_type_iff: "is_delta p \<longleftrightarrow> \<not> critical_type (qn_type p)"
  by (simp add: is_delta_def critical_type_def)

lemma count_dropped_simps [simp]:
  "lq_video (count_dropped n q) = lq_video q"
  "lq_sensors (count_dropped n q) = lq_sensors q"
  "lq_skip_deltas_until_idr (count_dropped n q) = lq_skip_deltas_until_idr q"
  "lq_video_turn (count_dropped n q) = lq_video_turn q"
  "lq_last_sensor (count_dropped n q) = lq_last_sensor q"
  by (simp_all add: count_dropped_def)

text \<open>What pushing a NAL does to the video lane, by kind.\<close>

lemma push_video_nal_video:
  "lq_video (push_video_nal q nal_id nal now) =
     (if \<not> critical_type (nal_type_of nal) \<and> lq_skip_deltas_until_idr q then lq_video q
      else (if nal_type_of nal = NAL_IDR then filter (\<lambda>p. qn_type p = NAL_SPS \<or> qn_type p = NAL_PPS) (lq_video q)
            else if critical_type (nal_type_of nal) then filter (\<lambda>p. qn_type p \<noteq> nal_type_of nal) (lq_video q)
            else lq_video q)
        @ [\<lparr>qn_type = nal_type_of nal, qn_queued_at = now, qn_chunks = nal_chunks nal_id nal\<rparr>])"
  "lq_skip_deltas_until_idr (push_video_nal q nal_id nal now) =
     (lq_skip_deltas_until_idr q \<and> nal_type_of nal \<noteq> NAL_IDR)"
  "lq_sensors (push_video_nal q nal_id nal now) = lq_sensors q"
  "lq_video_turn (push_video_nal q nal_id nal now) = lq_video_turn q"
  by (auto simp: push_video_nal_def Let_def critical_type_def nal_chunks_def nal_type_defs)

lemma push_video_nal_deltas:
  "waiting_deltas (push_video_nal q nal_id nal now) =
     (if nal_type_of nal = NAL_IDR then []
      else if critical_type (nal_type_of nal) \<or> lq_skip_deltas_until_idr q then waiting_deltas q
      else waiting_deltas q @ nal_chunks nal_id nal)"
proof -
  have f1: "filter is_delta (filter (\<lambda>p. qn_type p = NAL_SPS \<or> qn_type p = NAL_PPS) xs) = []" for xs
    by (induction xs) (auto simp: is_delta_def)
  have f2: "filter is_delta (filter (\<lambda>p. qn_type p \<noteq> t) xs) = filter is_delta xs" if "critical_type t" for xs t
    using that by (induction xs) (auto simp: critical_type_iff)
  have idr: "critical_type NAL_IDR" by (simp add: critical_type_def)
  have d: "is_delta \<lparr>qn_type = t, qn_queued_at = now, qn_chunks = cs\<rparr> \<longleftrightarrow> \<not> critical_type t" for t cs
    by (simp add: critical_type_iff)
  show ?thesis
    by (simp add: waiting_deltas_def push_video_nal_video f1 f2 d idr del: filter_filter)
qed

lemma expire_cases:
  obtains (keep) "expire_stale_video q now = q"
      "\<forall>p \<in> set (lq_video q). is_delta p \<longrightarrow> duration_since now (qn_queued_at p) \<le> VIDEO_MAX_WAIT"
  | (drop) "lq_video (expire_stale_video q now) = filter (\<lambda>p. \<not> is_delta p) (lq_video q)"
      "lq_skip_deltas_until_idr (expire_stale_video q now)"
      "lq_sensors (expire_stale_video q now) = lq_sensors q"
      "lq_video_turn (expire_stale_video q now) = lq_video_turn q"
      "lq_last_sensor (expire_stale_video q now) = lq_last_sensor q"
proof (cases "list_ex (\<lambda>p. is_delta p \<and> VIDEO_MAX_WAIT < duration_since now (qn_queued_at p)) (lq_video q)")
  case True
  then show ?thesis by (intro drop) (simp_all add: expire_stale_video_def Let_def)
next
  case False
  then have "expire_stale_video q now = q" by (simp only: expire_stale_video_def if_False)
  moreover have "\<forall>p \<in> set (lq_video q). is_delta p \<longrightarrow> duration_since now (qn_queued_at p) \<le> VIDEO_MAX_WAIT"
    using False by (auto simp: list_ex_iff linorder_not_less)
  ultimately show ?thesis by (rule keep)
qed

lemma pop_sensor_video [simp]:
  "lq_video (fst (pop_sensor q)) = lq_video q"
  "lq_skip_deltas_until_idr (fst (pop_sensor q)) = lq_skip_deltas_until_idr q"
  "lq_video_turn (fst (pop_sensor q)) = lq_video_turn q"
  by (auto simp: pop_sensor_def Let_def split: option.splits prod.splits)

lemma pop_video_cases:
  obtains (empty) "lq_video q = []" "pop_video q = (q, None)"
  | (front) p rest where "lq_video q = p # rest"
      "lq_video (fst (pop_video q)) = (if length (qn_chunks p) \<le> 1 then rest else p\<lparr>qn_chunks := tl (qn_chunks p)\<rparr> # rest)"
      "snd (pop_video q) = (case qn_chunks p of [] \<Rightarrow> None | c # _ \<Rightarrow> Some c)"
      "fst (pop_video q) = q\<lparr>lq_video := lq_video (fst (pop_video q))\<rparr>"
  by (cases "lq_video q") (auto simp: pop_video_def split: list.splits)

lemma pop_video_changes: "lq_video q \<noteq> [] \<Longrightarrow> lq_video (fst (pop_video q)) \<noteq> lq_video q"
proof (cases q rule: pop_video_cases)
  case (front p rest)
  have "p\<lparr>qn_chunks := tl (qn_chunks p)\<rparr> \<noteq> p" if "\<not> length (qn_chunks p) \<le> 1"
  proof
    assume "p\<lparr>qn_chunks := tl (qn_chunks p)\<rparr> = p"
    then have "tl (qn_chunks p) = qn_chunks p" by (metis QueuedNal.select_convs(3) QueuedNal.surjective QueuedNal.update_convs(3))
    with that show False by (cases "qn_chunks p") auto
  qed
  with front show ?thesis by (auto split: if_splits)
qed simp

lemma or_else_simps:
  "fst (or_else f g q) = (if snd (f q) = None then fst (g (fst (f q))) else fst (f q))"
  "snd (or_else f g q) = (if snd (f q) = None then snd (g (fst (f q))) else snd (f q))"
  by (simp_all add: or_else_def split: prod.splits option.splits)

lemma pop_video_cong:
  "lq_video r = lq_video r' \<Longrightarrow> lq_video (fst (pop_video r)) = lq_video (fst (pop_video r'))"
  "lq_video r = lq_video r' \<Longrightarrow> snd (pop_video r) = snd (pop_video r')"
  "lq_skip_deltas_until_idr (fst (pop_video r)) = lq_skip_deltas_until_idr r"
  "lq_sensors (fst (pop_video r)) = lq_sensors r"
  "lq_last_sensor (fst (pop_video r)) = lq_last_sensor r"
  "lq_video_turn (fst (pop_video r)) = lq_video_turn r"
  by (auto simp: pop_video_def split: list.splits)

text \<open>A pop leaves the video lane alone, or pops from it.\<close>

lemma lq_pop_video:
  "lq_video (fst (lq_pop q now)) = lq_video (expire_stale_video q now)
   \<or> lq_video (fst (lq_pop q now)) = lq_video (fst (pop_video (expire_stale_video q now)))"
  "lq_skip_deltas_until_idr (fst (lq_pop q now)) = lq_skip_deltas_until_idr (expire_stale_video q now)"
proof -
  let ?e = "expire_stale_video q now"
  have v: "lq_video (fst (pop_video (?e\<lparr>lq_video_turn := b\<rparr>))) = lq_video (fst (pop_video ?e))"
    "lq_video (fst (pop_video (fst (pop_sensor (?e\<lparr>lq_video_turn := b\<rparr>))))) = lq_video (fst (pop_video ?e))"
    for b by (rule pop_video_cong(1); simp)+
  show "lq_video (fst (lq_pop q now)) = lq_video ?e \<or> lq_video (fst (lq_pop q now)) = lq_video (fst (pop_video ?e))"
    unfolding lq_pop_def Let_def by (simp add: or_else_simps v)
  show "lq_skip_deltas_until_idr (fst (lq_pop q now)) = lq_skip_deltas_until_idr ?e"
    unfolding lq_pop_def Let_def by (simp add: or_else_simps pop_video_cong(3))
qed

text \<open>The sensors' datagrams in the queue.\<close>

definition sq_datagrams :: "SensorQueue \<Rightarrow> bytes set" where
  "sq_datagrams sq = set (sq_current sq) \<union> (case sq_waiting sq of None \<Rightarrow> {} | Some ds \<Rightarrow> set ds)"

definition sensor_datagrams :: "LossyQueue \<Rightarrow> bytes set" where
  "sensor_datagrams q = (\<Union>sq \<in> snd ` set (lq_sensors q). sq_datagrams sq)"

lemma sensor_datagrams_cong: "lq_sensors q = lq_sensors q' \<Longrightarrow> sensor_datagrams q = sensor_datagrams q'"
  by (simp add: sensor_datagrams_def)

lemma sorted_insert_values: "snd ` set (sorted_insert k v m) \<subseteq> insert v (snd ` set m)"
  by (induction m rule: sorted_insert.induct [of _ k v]) auto

lemma insert_datagrams:
  assumes "lq_sensors q' = sorted_insert i sq (lq_sensors q)"
  shows "sensor_datagrams q' \<subseteq> sq_datagrams sq \<union> sensor_datagrams q"
proof -
  have "sensor_datagrams q' \<subseteq> (\<Union>sq' \<in> insert sq (snd ` set (lq_sensors q)). sq_datagrams sq')"
    unfolding sensor_datagrams_def assms by (rule UN_mono [OF sorted_insert_values]) simp
  then show ?thesis by (simp add: sensor_datagrams_def)
qed

lemma lookup_datagrams: "map_of (lq_sensors q) i = Some sq \<Longrightarrow> sq_datagrams sq \<subseteq> sensor_datagrams q"
  unfolding sensor_datagrams_def by (force dest: map_of_SomeD)

lemma dequeue_datagrams:
  "sq_datagrams (fst (sensor_dequeue sq)) \<subseteq> sq_datagrams sq"
  "snd (sensor_dequeue sq) = Some d \<Longrightarrow> d \<in> sq_datagrams sq"
  by (auto simp: sq_datagrams_def sensor_dequeue_def Let_def split: option.splits list.splits if_splits
      dest: list.set_sel(2) [rotated])

lemma pop_sensor_datagrams:
  "sensor_datagrams (fst (pop_sensor q)) \<subseteq> sensor_datagrams q"
  "snd (pop_sensor q) = Some d \<Longrightarrow> d \<in> sensor_datagrams q"
proof -
  show "sensor_datagrams (fst (pop_sensor q)) \<subseteq> sensor_datagrams q"
  proof (cases "\<exists>i sq. next_sensor q = Some i \<and> map_of (lq_sensors q) i = Some sq")
    case True
    then obtain i sq where i: "next_sensor q = Some i" "map_of (lq_sensors q) i = Some sq" by blast
    then have "lq_sensors (fst (pop_sensor q)) = sorted_insert i (fst (sensor_dequeue sq)) (lq_sensors q)"
      by (simp add: pop_sensor_def Let_def split_def)
    from insert_datagrams [OF this] dequeue_datagrams(1) [of sq] lookup_datagrams [OF i(2)] show ?thesis by blast
  next
    case False
    then have "lq_sensors (fst (pop_sensor q)) = lq_sensors q" by (auto simp: pop_sensor_def split: option.splits)
    then show ?thesis using sensor_datagrams_cong by blast
  qed
  show "d \<in> sensor_datagrams q" if "snd (pop_sensor q) = Some d"
  proof -
    from that obtain i sq where "map_of (lq_sensors q) i = Some sq" "snd (sensor_dequeue sq) = Some d"
      by (auto simp: pop_sensor_def Let_def split_def split: option.splits)
    with dequeue_datagrams(2) [of sq d] lookup_datagrams [of q i sq] show ?thesis by blast
  qed
qed

lemma push_frame_datagrams: "sensor_datagrams (push_sensor_frame q i ds) \<subseteq> sensor_datagrams q \<union> set ds"
proof -
  define sq where "sq = (case map_of (lq_sensors q) i of Some sq \<Rightarrow> sq | None \<Rightarrow> sensor_queue_new)"
  define sq' where "sq' = fst (sensor_enqueue (lq_sensor_policy q) sq (lq_stats q) ds)"
  have "sq_datagrams sq \<subseteq> sensor_datagrams q"
    using lookup_datagrams [of q i] unfolding sq_def
    by (cases "map_of (lq_sensors q) i") (simp_all add: sensor_queue_new_def sq_datagrams_def)
  moreover have "sq_datagrams sq' \<subseteq> sq_datagrams sq \<union> set ds"
    by (auto simp: sq'_def sq_datagrams_def sensor_enqueue_def split: SensorFramePolicy.splits option.splits if_splits)
  moreover have "lq_sensors (push_sensor_frame q i ds) = sorted_insert i sq' (lq_sensors q)"
    by (simp add: push_sensor_frame_def Let_def split_def sq_def sq'_def)
  note insert_datagrams [OF this]
  ultimately show ?thesis by blast
qed

text \<open>A pop returns the front video chunk and takes it from the lane, or a sensor's datagram or nothing, and then at
  most a NAL without chunks leaves the lane.\<close>

lemma pop_outcome:
  fixes q now
  defines "e \<equiv> expire_stale_video q now"
  obtains (video) p rest c cs where "lq_video e = p # rest" "qn_chunks p = c # cs" "snd (lq_pop q now) = Some c"
      "lq_video (fst (lq_pop q now)) = (if cs = [] then rest else p\<lparr>qn_chunks := cs\<rparr> # rest)"
    | (other) "snd (lq_pop q now) = None \<or> (\<exists>d \<in> sensor_datagrams q. snd (lq_pop q now) = Some d)"
      "lq_video (fst (lq_pop q now)) = lq_video e
       \<or> (\<exists>p rest. lq_video e = p # rest \<and> qn_chunks p = [] \<and> lq_video (fst (lq_pop q now)) = rest)"
proof -
  define e' where "e' = e\<lparr>lq_video_turn := \<not> lq_video_turn e\<rparr>"
  have v: "lq_video e' = lq_video e" by (simp add: e'_def)
  have "lq_sensors e' = lq_sensors q" unfolding e'_def e_def by (cases q now rule: expire_cases) simp_all
  then have sd: "sensor_datagrams e' = sensor_datagrams q" by (rule sensor_datagrams_cong)
  have pop: "lq_pop q now = (if lq_video_turn e then or_else pop_video pop_sensor e' else or_else pop_sensor pop_video e')"
    by (simp add: lq_pop_def Let_def e'_def e_def)
  have sens: "snd (pop_sensor q') = None \<or> (\<exists>d \<in> sensor_datagrams q. snd (pop_sensor q') = Some d)"
    if "lq_sensors q' = lq_sensors e'" for q'
    using pop_sensor_datagrams(2) [of q'] sensor_datagrams_cong [OF that] sd by (cases "snd (pop_sensor q')") auto
  have same: "lq_video (fst (pop_video (fst (pop_sensor e')))) = lq_video (fst (pop_video e'))"
    "snd (pop_video (fst (pop_sensor e'))) = snd (pop_video e')" by (rule pop_video_cong; simp)+
  show thesis
  proof (cases "snd (pop_video e')")
    case (Some c)
    then obtain p rest cs where p: "lq_video e = p # rest" "qn_chunks p = c # cs"
      by (cases e' rule: pop_video_cases) (auto simp: v split: list.splits)
    then have lane: "lq_video (fst (pop_video e')) = (if cs = [] then rest else p\<lparr>qn_chunks := cs\<rparr> # rest)"
      using Some by (cases e' rule: pop_video_cases) (auto simp: v split: if_splits)
    show thesis
    proof (cases "lq_video_turn e \<or> snd (pop_sensor e') = None")
      case True
      then show thesis using video [OF p] Some lane by (auto simp: pop or_else_simps same)
    next
      case False
      then show thesis using other sens [OF refl] by (auto simp: pop or_else_simps v)
    qed
  next
    case None
    then have lane: "lq_video (fst (pop_video e')) = lq_video e
      \<or> (\<exists>p rest. lq_video e = p # rest \<and> qn_chunks p = [] \<and> lq_video (fst (pop_video e')) = rest)"
      by (cases e' rule: pop_video_cases) (auto simp: v split: list.splits)
    have "lq_sensors (fst (pop_video e')) = lq_sensors e'" by (rule pop_video_cong)
    note r = sens [OF this] sens [OF refl]
    show thesis
    proof (rule other)
      show "snd (lq_pop q now) = None \<or> (\<exists>d \<in> sensor_datagrams q. snd (lq_pop q now) = Some d)"
        using r None by (simp add: pop or_else_simps same)
      show "lq_video (fst (lq_pop q now)) = lq_video e
          \<or> (\<exists>p rest. lq_video e = p # rest \<and> qn_chunks p = [] \<and> lq_video (fst (lq_pop q now)) = rest)"
        using lane None by (simp add: pop or_else_simps same v)
    qed
  qed
qed

lemma lq_pop_datagrams: "sensor_datagrams (fst (lq_pop q now)) \<subseteq> sensor_datagrams q"
proof -
  have e: "lq_sensors (expire_stale_video q now) = lq_sensors q" by (cases q now rule: expire_cases) simp_all
  have pv: "sensor_datagrams (fst (pop_video q')) = sensor_datagrams q'" for q'
    by (rule sensor_datagrams_cong) (rule pop_video_cong)
  have turn: "sensor_datagrams (expire_stale_video q now\<lparr>lq_video_turn := b\<rparr>) = sensor_datagrams q" for b
    by (rule sensor_datagrams_cong) (simp add: e)
  have ps: "sensor_datagrams (fst (pop_sensor q')) \<subseteq> sensor_datagrams q" if "sensor_datagrams q' = sensor_datagrams q" for q'
    using pop_sensor_datagrams(1) [of q'] that by blast
  show ?thesis unfolding lq_pop_def Let_def
    by (simp add: or_else_simps pv ps turn)
qed

text \<open>The invariant of a run: what was sent of the group and what waits make up the group, unless deltas are being
  skipped; every chunk is of a pushed NAL; and the lane tells deltas from the others.\<close>

definition gop_inv :: "u32 set \<Rightarrow> lq_trace \<Rightarrow> bool" where
  "gop_inv ids tr \<longleftrightarrow>
     (if lq_skip_deltas_until_idr (tr_queue tr)
      then filter is_delta (lq_video (tr_queue tr)) = [] \<and> prefix (delta_out tr) (tr_gop tr)
      else delta_out tr @ waiting_deltas (tr_queue tr) = tr_gop tr)
   \<and> (\<forall>d \<in> set (tr_gop tr) \<union> set (tr_out tr). chunk_id d \<in> insert None (Some ` ids))
   \<and> (\<forall>d \<in> set (tr_gop tr). chunk_id d \<noteq> None)
   \<and> (\<forall>d \<in> sensor_datagrams (tr_queue tr). chunk_id d = None)
   \<and> (\<forall>p \<in> set (lq_video (tr_queue tr)). \<forall>d \<in> set (qn_chunks p). chunk_id d \<in> Some ` ids \<and> (d \<in> set (tr_gop tr) \<longleftrightarrow> is_delta p))"

lemma delta_out_queue [simp]: "delta_out (tr\<lparr>tr_queue := q\<rparr>) = delta_out tr"
  by (simp add: delta_out_def)

lemma gop_inv_expire:
  assumes "gop_inv ids tr"
  shows "gop_inv ids (tr\<lparr>tr_queue := expire_stale_video (tr_queue tr) now\<rparr>)"
proof (cases "tr_queue tr" now rule: expire_cases)
  case keep
  with assms show ?thesis by simp
next
  case drop
  have "prefix (delta_out tr) (tr_gop tr)" using assms unfolding gop_inv_def by (metis prefixI)
  with drop assms sensor_datagrams_cong [OF drop(3)] show ?thesis by (auto simp: gop_inv_def delta_out_def)
qed

lemma gop_inv_pop:
  assumes inv: "gop_inv ids tr"
  shows "gop_inv ids (trace_step tr (Pop now))"
proof -
  define q where "q = expire_stale_video (tr_queue tr) now"
  define q' where "q' = fst (lq_pop (tr_queue tr) now)"
  define d where "d = snd (lq_pop (tr_queue tr) now)"
  have invq: "gop_inv ids (tr\<lparr>tr_queue := q\<rparr>)" using gop_inv_expire [OF inv] by (simp add: q_def)
  have skip: "lq_skip_deltas_until_idr q' = lq_skip_deltas_until_idr q"
    using lq_pop_video(2) by (simp add: q_def q'_def)
  have step: "trace_step tr (Pop now) = tr\<lparr>tr_queue := q', tr_out := tr_out tr @ (case d of None \<Rightarrow> [] | Some d \<Rightarrow> [d])\<rparr>"
    by (simp add: d_def q'_def split_def Let_def)
  have sens: "sensor_datagrams q' \<subseteq> sensor_datagrams (tr_queue tr)" unfolding q'_def by (rule lq_pop_datagrams)
  have out: "delta_out (trace_step tr (Pop now))
    = delta_out tr @ (case d of None \<Rightarrow> [] | Some d \<Rightarrow> if d \<in> set (tr_gop tr) then [d] else [])"
    unfolding step by (simp add: delta_out_def split: option.split)
  have out0: "delta_out (tr\<lparr>tr_queue := q\<rparr>) = delta_out tr" by (simp add: delta_out_def)
  show ?thesis
  proof (cases "tr_queue tr" now rule: pop_outcome)
    case (video p rest c cs)
    note v = video [folded q_def q'_def d_def]
    have c: "chunk_id c \<in> Some ` ids" "c \<in> set (tr_gop tr) \<longleftrightarrow> is_delta p"
      using invq v(1,2) by (simp_all add: gop_inv_def)
    have dl: "is_delta (p\<lparr>qn_chunks := cs\<rparr>) = is_delta p" by (simp add: is_delta_def)
    have w: "waiting_deltas q = (if is_delta p then [c] else []) @ waiting_deltas q'"
      using v dl by (simp add: waiting_deltas_def)
    have "delta_out (trace_step tr (Pop now)) @ waiting_deltas q' = delta_out tr @ waiting_deltas q"
      unfolding out w using v(3) c(2) by simp
    moreover have "filter is_delta (lq_video q) = [] \<Longrightarrow> filter is_delta (lq_video q') = [] \<and> \<not> is_delta p"
      using v(1,4) dl by (auto split: if_splits)
    ultimately show ?thesis using invq skip sens v c out out0 dl inv unfolding step
      by (auto simp: gop_inv_def split: if_splits)
  next
    case other
    note o = other [folded q_def q'_def d_def]
    have "d = None \<or> (\<exists>x. d = Some x \<and> chunk_id x = None \<and> x \<notin> set (tr_gop tr))"
    proof (cases d)
      case (Some x)
      then have x: "chunk_id x = None" using o(1) inv by (simp add: gop_inv_def)
      moreover have "x \<notin> set (tr_gop tr)" using x inv unfolding gop_inv_def by metis
      ultimately show ?thesis using Some by simp
    qed simp
    then have same: "delta_out (trace_step tr (Pop now)) = delta_out tr"
      "set (case d of None \<Rightarrow> [] | Some d \<Rightarrow> [d]) \<subseteq> {x. chunk_id x = None}"
      unfolding out by auto
    have "waiting_deltas q' = waiting_deltas q" "set (lq_video q') \<subseteq> set (lq_video q)"
      "filter is_delta (lq_video q) = [] \<Longrightarrow> filter is_delta (lq_video q') = []"
      using o(2) by (auto simp: waiting_deltas_def split: if_splits)
    with invq skip sens same out0 inv show ?thesis unfolding step
      by (auto simp: gop_inv_def)
  qed
qed

lemma gop_inv_push:
  assumes inv: "gop_inv ids tr" and new: "nal_id \<notin> ids"
  shows "gop_inv (insert nal_id ids) (trace_step tr (PushNal nal_id nal now))"
proof -
  let ?t = "nal_type_of nal"
  let ?q = "push_video_nal (tr_queue tr) nal_id nal now"
  have idr: "critical_type NAL_IDR" by (simp add: critical_type_def)
  have sens: "sensor_datagrams ?q = sensor_datagrams (tr_queue tr)"
    by (rule sensor_datagrams_cong) (simp add: push_video_nal_video)
  have id: "chunk_id d = Some nal_id" if "d \<in> set (nal_chunks nal_id nal)" for d
    using chunk_id_nal [OF that] .
  have fresh: "d \<notin> set (nal_chunks nal_id nal)" if "chunk_id d \<in> insert None (Some ` ids)" for d
    using that id [of d] new by auto
  have lane: "\<forall>p \<in> set (lq_video ?q). p \<in> set (lq_video (tr_queue tr))
      \<or> qn_type p = ?t \<and> qn_chunks p = nal_chunks nal_id nal"
    by (auto simp: push_video_nal_video split: if_splits)
  consider "?t = NAL_IDR" | "?t \<noteq> NAL_IDR" "critical_type ?t" | "\<not> critical_type ?t" using idr by metis
  then show ?thesis
  proof cases
    case 1
    then have d: "filter is_delta (lq_video ?q) = []" "\<not> lq_skip_deltas_until_idr ?q"
      using idr by (auto simp: push_video_nal_video is_delta_def filter_empty_conv)
    then have "waiting_deltas ?q = []" by (simp add: waiting_deltas_def)
    with 1 d inv lane id sens show ?thesis
      by (auto simp: gop_inv_def Let_def delta_out_def filter_empty_conv)
  next
    case 2
    then have w: "waiting_deltas ?q = waiting_deltas (tr_queue tr)"
      "lq_skip_deltas_until_idr ?q = lq_skip_deltas_until_idr (tr_queue tr)"
      "filter is_delta (lq_video ?q) = filter is_delta (lq_video (tr_queue tr))"
      by (auto simp: push_video_nal_video push_video_nal_deltas critical_type_iff intro!: filter_cong)
    have "\<forall>d \<in> set (nal_chunks nal_id nal). d \<notin> set (tr_gop tr)" using fresh inv by (auto simp: gop_inv_def)
    then have "\<forall>p \<in> set (lq_video ?q). \<forall>d \<in> set (qn_chunks p).
        chunk_id d \<in> Some ` insert nal_id ids \<and> (d \<in> set (tr_gop tr) \<longleftrightarrow> is_delta p)"
    proof (intro ballI)
      fix p d
      assume p: "p \<in> set (lq_video ?q)" and d: "d \<in> set (qn_chunks p)"
      from lane p consider "p \<in> set (lq_video (tr_queue tr))" | "qn_type p = ?t" "qn_chunks p = nal_chunks nal_id nal" by blast
      then show "chunk_id d \<in> Some ` insert nal_id ids \<and> (d \<in> set (tr_gop tr) \<longleftrightarrow> is_delta p)"
      proof cases
        case 1
        with inv d show ?thesis unfolding gop_inv_def by blast
      next
        case own: 2
        with \<open>\<forall>d \<in> set (nal_chunks nal_id nal). d \<notin> set (tr_gop tr)\<close> d id 2 show ?thesis by (simp add: critical_type_iff)
      qed
    qed
    moreover have "trace_step tr (PushNal nal_id nal now) = tr\<lparr>tr_queue := ?q\<rparr>" using 2 by (simp add: Let_def)
    moreover have "\<forall>d \<in> set (tr_gop tr) \<union> set (tr_out tr). chunk_id d \<in> insert None (Some ` insert nal_id ids)"
      using inv unfolding gop_inv_def by blast
    ultimately show ?thesis using w inv sens unfolding gop_inv_def
      by (simp del: insert_iff image_insert Un_iff trace_step.simps)
  next
    case 3
    then have n: "?t \<noteq> NAL_IDR" using idr by auto
    let ?tr = "tr\<lparr>tr_queue := ?q, tr_gop := tr_gop tr @ nal_chunks nal_id nal\<rparr>"
    have out: "delta_out ?tr = delta_out tr"
      using fresh inv unfolding delta_out_def gop_inv_def by (auto intro!: filter_cong)
    have old: "\<forall>p \<in> set (lq_video (tr_queue tr)). \<forall>d \<in> set (qn_chunks p). d \<notin> set (nal_chunks nal_id nal)"
      using fresh inv unfolding gop_inv_def by blast
    have split: "if lq_skip_deltas_until_idr ?q then filter is_delta (lq_video ?q) = [] \<and> prefix (delta_out ?tr) (tr_gop ?tr)
        else delta_out ?tr @ waiting_deltas ?q = tr_gop ?tr"
      using 3 n inv out by (auto simp: gop_inv_def push_video_nal_video(1,2) push_video_nal_deltas split: if_splits)
    have "\<forall>p \<in> set (lq_video ?q). \<forall>d \<in> set (qn_chunks p).
        chunk_id d \<in> Some ` insert nal_id ids \<and> (d \<in> set (tr_gop ?tr) \<longleftrightarrow> is_delta p)"
    proof (intro ballI)
      fix p d
      assume p: "p \<in> set (lq_video ?q)" and d: "d \<in> set (qn_chunks p)"
      from lane p consider "p \<in> set (lq_video (tr_queue tr))" | "qn_type p = ?t" "qn_chunks p = nal_chunks nal_id nal" by blast
      then show "chunk_id d \<in> Some ` insert nal_id ids \<and> (d \<in> set (tr_gop ?tr) \<longleftrightarrow> is_delta p)"
      proof cases
        case 1
        then have "chunk_id d \<in> Some ` ids" "d \<in> set (tr_gop tr) \<longleftrightarrow> is_delta p" "d \<notin> set (nal_chunks nal_id nal)"
          using inv d old unfolding gop_inv_def by blast+
        then show ?thesis by auto
      next
        case own: 2
        with d id 3 show ?thesis by (simp add: critical_type_iff)
      qed
    qed
    moreover have "\<forall>d \<in> set (tr_gop ?tr) \<union> set (tr_out ?tr). chunk_id d \<in> insert None (Some ` insert nal_id ids)"
    proof
      fix d
      assume "d \<in> set (tr_gop ?tr) \<union> set (tr_out ?tr)"
      then consider "d \<in> set (tr_gop tr) \<union> set (tr_out tr)" | "d \<in> set (nal_chunks nal_id nal)" by auto
      then show "chunk_id d \<in> insert None (Some ` insert nal_id ids)"
        using inv id unfolding gop_inv_def by cases blast+
    qed
    moreover have "\<forall>d \<in> set (tr_gop ?tr). chunk_id d \<noteq> None" using inv id unfolding gop_inv_def by auto
    moreover have "trace_step tr (PushNal nal_id nal now) = ?tr" using 3 n by (simp add: Let_def)
    moreover have "\<forall>d \<in> sensor_datagrams (tr_queue ?tr). chunk_id d = None" using sens inv by (simp add: gop_inv_def)
    ultimately show ?thesis using split unfolding gop_inv_def
      by (simp del: insert_iff image_insert Un_iff trace_step.simps split: if_splits)
  qed
qed

lemma gop_inv_frame:
  assumes "gop_inv ids tr" and "list_all (\<lambda>d. chunk_id d = None) ds"
  shows "gop_inv ids (trace_step tr (PushFrame i ds))"
proof -
  have "lq_video (push_sensor_frame q i ds) = lq_video q"
    "lq_skip_deltas_until_idr (push_sensor_frame q i ds) = lq_skip_deltas_until_idr q" for q
    by (simp_all add: push_sensor_frame_def split_def Let_def)
  with assms push_frame_datagrams [of "tr_queue tr" i ds] show ?thesis
    by (auto simp: gop_inv_def delta_out_def waiting_deltas_def list_all_iff split: if_splits)
qed

lemma gop_inv_run:
  "distinct (pushed_ids es) \<Longrightarrow> list_all slices_tagged es \<Longrightarrow> gop_inv (set (pushed_ids es)) (trace_run policy es)"
proof (induction es rule: rev_induct)
  case Nil
  then show ?case
    by (simp add: trace_run_def gop_inv_def with_sensor_policy_def waiting_deltas_def delta_out_def sensor_datagrams_def)
next
  case (snoc e es)
  have run: "trace_run policy (es @ [e]) = trace_step (trace_run policy es) e"
    by (simp add: trace_run_def)
  have IH: "gop_inv (set (pushed_ids es)) (trace_run policy es)"
    using snoc by (simp add: pushed_ids_def)
  show ?case
  proof (cases e)
    case (PushNal nal_id nal now)
    then have "nal_id \<notin> set (pushed_ids es)" "set (pushed_ids (es @ [e])) = insert nal_id (set (pushed_ids es))"
      using snoc.prems(1) by (auto simp: pushed_ids_def)
    with gop_inv_push [OF IH, of nal_id nal now] show ?thesis unfolding run unfolding PushNal by (simp del: trace_step.simps)
  next
    case (PushFrame i ds)
    then have "set (pushed_ids (es @ [e])) = set (pushed_ids es)" "list_all (\<lambda>d. chunk_id d = None) ds"
      using snoc.prems(2) by (simp_all add: pushed_ids_def slices_tagged_def)
    with gop_inv_frame [OF IH, of ds i] show ?thesis unfolding run unfolding PushFrame by (simp del: trace_step.simps)
  next
    case (Pop now)
    then have "set (pushed_ids (es @ [e])) = set (pushed_ids es)" by (simp add: pushed_ids_def)
    with gop_inv_pop [OF IH, of now] show ?thesis unfolding run unfolding Pop by (simp del: trace_step.simps)
  qed
qed

lemma expired_age:
  "p \<in> set (lq_video (expire_stale_video q now)) \<Longrightarrow>
     p \<in> set (lq_video q) \<and> (is_delta p \<longrightarrow> duration_since now (qn_queued_at p) \<le> VIDEO_MAX_WAIT)"
  by (cases q now rule: expire_cases) auto

lemma popped_age:
  assumes "p \<in> set (lq_video (fst (lq_pop q now)))" and "is_delta p"
  shows "duration_since now (qn_queued_at p) \<le> VIDEO_MAX_WAIT"
proof (cases q now rule: pop_outcome)
  case (video p' rest c cs)
  then consider "p \<in> set rest" | "p = p'\<lparr>qn_chunks := cs\<rparr>" using assms(1) by (auto split: if_splits)
  then show ?thesis
  proof cases
    case 1
    with video(1) expired_age [of p q now] assms(2) show ?thesis by simp
  next
    case 2
    with video(1) expired_age [of p' q now] assms(2) show ?thesis by (simp add: is_delta_def)
  qed
next
  case other
  then have "p \<in> set (lq_video (expire_stale_video q now))" using assms(1) by auto
  with expired_age assms(2) show ?thesis by blast
qed

text \<open>C19: Of each group of pictures, the queue sends a prefix.  In every run of pushes and pops in which no two NALs
  have the same id and sensor slices are not tagged as video, the datagrams that pops have returned since the last IDR was
  pushed and that are chunks of the deltas pushed since then are, in that order, a prefix of those chunks: no
  delta is sent after an earlier one of its group was dropped, and none twice.  While the queue is not skipping,
  nothing of the group is lost at all: what was returned and what waits make it up; while it is, no delta waits.
  And a pop returns video only from the front of a waiting NAL, and neither returns nor leaves a delta that has
  waited longer than 150 ms.\<close>

theorem sends_prefix_of_each_gop:
  fixes policy es now
  assumes "distinct (pushed_ids es)" and "list_all slices_tagged es"
  defines "tr \<equiv> trace_run policy es"
  shows "prefix (delta_out tr) (tr_gop tr)
   \<and> (lq_skip_deltas_until_idr (tr_queue tr) \<or> delta_out tr @ waiting_deltas (tr_queue tr) = tr_gop tr)
   \<and> (lq_skip_deltas_until_idr (tr_queue tr) \<longrightarrow> filter is_delta (lq_video (tr_queue tr)) = [])
   \<and> (\<forall>d. snd (lq_pop (tr_queue tr) now) = Some d \<and> chunk_id d \<noteq> None \<longrightarrow>
       (\<exists>p cs. p \<in> set (lq_video (tr_queue tr)) \<and> qn_chunks p = d # cs
         \<and> (is_delta p \<longrightarrow> duration_since now (qn_queued_at p) \<le> VIDEO_MAX_WAIT)))
   \<and> (\<forall>p \<in> set (lq_video (fst (lq_pop (tr_queue tr) now))).
       is_delta p \<longrightarrow> duration_since now (qn_queued_at p) \<le> VIDEO_MAX_WAIT)"
proof (intro conjI allI impI ballI)
  note inv = gop_inv_run [OF assms(1,2), of policy, folded tr_def, unfolded gop_inv_def]
  show "prefix (delta_out tr) (tr_gop tr)" using inv by (metis prefixI)
  show "lq_skip_deltas_until_idr (tr_queue tr) \<or> delta_out tr @ waiting_deltas (tr_queue tr) = tr_gop tr"
    using inv by metis
  show "filter is_delta (lq_video (tr_queue tr)) = []" if "lq_skip_deltas_until_idr (tr_queue tr)"
    using inv that by metis
  show "\<exists>p cs. p \<in> set (lq_video (tr_queue tr)) \<and> qn_chunks p = d # cs
      \<and> (is_delta p \<longrightarrow> duration_since now (qn_queued_at p) \<le> VIDEO_MAX_WAIT)"
    if "snd (lq_pop (tr_queue tr) now) = Some d \<and> chunk_id d \<noteq> None" for d
  proof (cases "tr_queue tr" now rule: pop_outcome)
    case (video p rest c cs)
    then have "p \<in> set (lq_video (expire_stale_video (tr_queue tr) now))" "c = d" using that by simp_all
    with video(2) expired_age show ?thesis by blast
  next
    case other
    with that inv show ?thesis by auto
  qed
qed (rule popped_age)

theorem sends_prefix_of_each_gop_witness:
  "let tr = trace_run Cut [PushNal 0 [0x65] 0, PushNal 1 [0x61] 0, PushFrame 1 [[4, 1]], PushNal 2 [0x61] 40000000,
       Pop 50000000, Pop 50000000, Pop 50000000, Pop 50000000, PushNal 3 [0x61] 60000000, Pop 60000000]
   in tr_out tr = [[4, 1], hd (nal_chunks 0 [0x65]), hd (nal_chunks 1 [0x61]), hd (nal_chunks 2 [0x61]), hd (nal_chunks 3 [0x61])]
     \<and> prefix (delta_out tr) (nal_chunks 1 [0x61] @ nal_chunks 2 [0x61] @ nal_chunks 3 [0x61])"
proof -
  let ?es = "[PushNal 0 [0x65] 0, PushNal 1 [0x61] 0, PushFrame 1 [[4, 1]], PushNal 2 [0x61] 40000000,
       Pop 50000000, Pop 50000000, Pop 50000000, Pop 50000000, PushNal 3 [0x61] 60000000, Pop 60000000]"
  have "tr_gop (trace_run Cut ?es) = nal_chunks 1 [0x61] @ nal_chunks 2 [0x61] @ nal_chunks 3 [0x61]" by code_simp
  moreover have "tr_out (trace_run Cut ?es) = [[4, 1], hd (nal_chunks 0 [0x65]), hd (nal_chunks 1 [0x61]),
    hd (nal_chunks 2 [0x61]), hd (nal_chunks 3 [0x61])]" by code_simp
  moreover have "distinct (pushed_ids ?es)" "list_all slices_tagged ?es" by code_simp+
  ultimately show ?thesis using sends_prefix_of_each_gop [of ?es Cut] by simp
qed

section \<open>Whole sensor frames under the Finish policy\<close>

datatype sq_event = Enqueue "bytes list" | Dequeue

text \<open>One sensor's queue, the counters, the frames pushed to it and the slices taken from it.\<close>

type_synonym sq_trace = "SensorQueue \<times> LossyStats \<times> bytes list list \<times> bytes list"

fun sq_step :: "sq_trace \<Rightarrow> sq_event \<Rightarrow> sq_trace" where
  "sq_step (q, st, pushed, sent) (Enqueue ds) =
     (let (q', st') = sensor_enqueue Finish q st ds in (q', st', pushed @ [ds], sent))"
| "sq_step (q, st, pushed, sent) Dequeue =
     (let (q', slice) = sensor_dequeue q
      in (q', st, pushed, sent @ (case slice of None \<Rightarrow> [] | Some s \<Rightarrow> [s])))"

definition sq_run :: "LossyStats \<Rightarrow> sq_event list \<Rightarrow> sq_trace" where
  "sq_run st es = foldl sq_step (sensor_queue_new, st, [], []) es"

definition unstarted :: "SensorQueue \<Rightarrow> bytes list list" where
  "unstarted q = (if \<not> sq_started q \<and> sq_current q \<noteq> [] then [sq_current q] else [])
     @ (case sq_waiting q of Some w \<Rightarrow> [w] | None \<Rightarrow> [])"

definition in_flight :: "SensorQueue \<Rightarrow> bytes list" where
  "in_flight q = (if sq_started q then sq_current q else [])"

fun sq_inv :: "sq_trace \<Rightarrow> bool" where
  "sq_inv (q, st, pushed, sent) \<longleftrightarrow>
     (sq_waiting q \<noteq> None \<longrightarrow> sq_started q \<and> sq_current q \<noteq> [])
   \<and> (\<exists>fs. subseq (fs @ unstarted q) pushed \<and> sent @ in_flight q = concat fs)"

lemma sq_inv_enqueue:
  assumes "sq_inv (q, st, pushed, sent)"
  shows "sq_inv (sq_step (q, st, pushed, sent) (Enqueue ds))"
proof -
  from assms obtain fs where w: "sq_waiting q \<noteq> None \<longrightarrow> sq_started q \<and> sq_current q \<noteq> []"
    and fs: "subseq (fs @ unstarted q) pushed" "sent @ in_flight q = concat fs" by auto
  have "subseq fs pushed" using fs(1) by (meson prefixI prefix_imp_subseq subseq_order.trans)
  then have new: "subseq (fs @ [ds]) (pushed @ [ds])" "subseq fs (pushed @ [ds])"
    by (auto intro: list_emb_append_mono list_emb_append2)
  show ?thesis
  proof (cases "sq_current q = [] \<or> \<not> sq_started q")
    case True
    then have none: "sq_waiting q = None" using w by auto
    have "in_flight q = []" using True by (auto simp: in_flight_def)
    with True none fs new show ?thesis
      by (auto simp: sensor_enqueue_def unstarted_def in_flight_def intro!: exI [of _ fs])
  next
    case False
    with fs new show ?thesis
      by (auto simp: sensor_enqueue_def unstarted_def in_flight_def intro!: exI [of _ fs])
  qed
qed

lemma sq_inv_dequeue:
  assumes "sq_inv (q, st, pushed, sent)"
  shows "sq_inv (sq_step (q, st, pushed, sent) Dequeue)"
proof -
  from assms obtain fs where w: "sq_waiting q \<noteq> None \<longrightarrow> sq_started q \<and> sq_current q \<noteq> []"
    and fs: "subseq (fs @ unstarted q) pushed" "sent @ in_flight q = concat fs" by auto
  show ?thesis
  proof (cases "sq_current q")
    case Nil
    then have "sq_waiting q = None" "in_flight q = []" using w by (auto simp: in_flight_def)
    with Nil fs have "subseq fs pushed" "sent = concat fs" by (auto simp: unstarted_def split: if_splits)
    with Nil \<open>sq_waiting q = None\<close> show ?thesis
      by (auto simp: sensor_dequeue_def Let_def unstarted_def in_flight_def intro!: exI [of _ fs])
  next
    case (Cons s cs)
    define fs' where "fs' = fs @ (if sq_started q then [] else [sq_current q])"
    have none: "\<not> sq_started q \<Longrightarrow> sq_waiting q = None" using w by auto
    have sub: "subseq (fs' @ (case sq_waiting q of Some x \<Rightarrow> [x] | None \<Rightarrow> [])) pushed"
      using fs(1) Cons by (cases "sq_started q") (simp_all add: fs'_def unstarted_def)
    have sent: "sent @ s # cs = concat fs'"
      using fs(2) Cons by (auto simp: fs'_def in_flight_def split: if_splits)
    have drop_last: "subseq fs' pushed"
      using sub by (meson prefixI prefix_imp_subseq subseq_order.trans)
    show ?thesis
    proof (cases "cs = [] \<and> sq_waiting q \<noteq> None")
      case True
      then obtain x where "sq_waiting q = Some x" by blast
      with True Cons sub sent drop_last show ?thesis
        by (auto simp: sensor_dequeue_def Let_def unstarted_def in_flight_def intro!: exI [of _ fs'])
    next
      case False
      with Cons sub sent drop_last show ?thesis
        by (auto simp: sensor_dequeue_def Let_def unstarted_def in_flight_def intro!: exI [of _ fs']
          split: option.splits)
    qed
  qed
qed

lemma sq_inv_run: "sq_inv (sq_run st es)"
proof (induction es rule: rev_induct)
  case Nil
  then show ?case by (auto simp: sq_run_def sensor_queue_new_def unstarted_def in_flight_def)
next
  case (snoc e es)
  obtain q st' pushed sent where r: "sq_run st es = (q, st', pushed, sent)" by (cases "sq_run st es")
  have "sq_run st (es @ [e]) = sq_step (sq_run st es) e" by (simp add: sq_run_def)
  with snoc r show ?case using sq_inv_enqueue sq_inv_dequeue by (cases e) auto
qed

text \<open>Under the Finish policy sensor frames arrive whole.  Whatever is pushed and popped, the
  slices of a sensor that have been sent, followed by those of the frame being sent that still wait,
  are exactly the slices of some of the pushed frames, in order and each complete: a frame whose
  sending has started is never cut short.\<close>

theorem finish_sends_whole_frames:
  "case sq_run st es of (q, _, pushed, sent) \<Rightarrow>
     \<exists>fs. subseq fs pushed \<and> sent @ in_flight q = concat fs"
proof -
  obtain q st' pushed sent where r: "sq_run st es = (q, st', pushed, sent)" by (cases "sq_run st es")
  from sq_inv_run [of st es] obtain fs
    where "subseq (fs @ unstarted q) pushed" "sent @ in_flight q = concat fs" by (auto simp: r)
  moreover have "subseq fs pushed" using calculation(1) by (meson prefixI prefix_imp_subseq subseq_order.trans)
  ultimately show ?thesis by (auto simp: r)
qed

section \<open>Progress and alternation\<close>

text \<open>No queued NAL and no queued frame is empty.\<close>

definition lq_wf :: "LossyQueue \<Rightarrow> bool" where
  "lq_wf q \<longleftrightarrow> (\<forall>p \<in> set (lq_video q). qn_chunks p \<noteq> [])
     \<and> sorted_keys (lq_sensors q)
     \<and> (\<forall>i sq. map_of (lq_sensors q) i = Some sq \<longrightarrow>
          (sq_waiting sq \<noteq> None \<longrightarrow> sq_current sq \<noteq> []) \<and> sq_waiting sq \<noteq> Some [])"

definition sensors_waiting :: "LossyQueue \<Rightarrow> bool" where
  "sensors_waiting q \<longleftrightarrow> (\<exists>i sq. map_of (lq_sensors q) i = Some sq \<and> sq_current sq \<noteq> [])"

lemma sensors_waitingI:
  "map_option sq_current (map_of (lq_sensors q) i) = Some (s # cs) \<Longrightarrow> sensors_waiting q"
  by (force simp: sensors_waiting_def)

lemma next_sensor_None: "next_sensor q = None \<longleftrightarrow> (\<forall>(i, sq) \<in> set (lq_sensors q). sq_is_empty sq)"
proof -
  have "keys (filter (\<lambda>(_, sq). \<not> sq_is_empty sq) (lq_sensors q)) = []
      \<longleftrightarrow> (\<forall>(i, sq) \<in> set (lq_sensors q). sq_is_empty sq)"
    by (auto simp: filter_empty_conv)
  then show ?thesis
    by (auto simp: next_sensor_def Let_def find_None_iff split: option.splits list.splits)
qed

lemma next_sensor_Some:
  "next_sensor q = Some i \<Longrightarrow> \<exists>sq. (i, sq) \<in> set (lq_sensors q) \<and> \<not> sq_is_empty sq"
  by (force simp: next_sensor_def Let_def find_Some_iff split: option.splits list.splits
      dest: nth_mem arg_cong [where f = set])

lemma sensor_dequeue_Some:
  "sq_current sq = s # cs \<Longrightarrow> snd (sensor_dequeue sq) = Some s"
  by (simp add: sensor_dequeue_def Let_def)

text \<open>A pop of the sensor class succeeds exactly when a sensor has something waiting.\<close>

lemma pop_sensor_result:
  assumes wf: "lq_wf q"
  shows "snd (pop_sensor q) = None \<longleftrightarrow> \<not> sensors_waiting q"
    and "\<not> sensors_waiting q \<Longrightarrow> pop_sensor q = (q, None)"
proof -
  have sorted: "sorted_keys (lq_sensors q)" using wf by (simp add: lq_wf_def)
  then have dist: "wf_amap (lq_sensors q)" by (rule sorted_keys_wf)
  have mem: "(i, sq) \<in> set (lq_sensors q) \<longleftrightarrow> map_of (lq_sensors q) i = Some sq" for i sq
    using dist by simp
  have empty: "sq_is_empty sq \<longleftrightarrow> sq_current sq = []" if "(i, sq) \<in> set (lq_sensors q)" for i sq
    using wf that unfolding mem lq_wf_def sq_is_empty_def by blast
  have none: "next_sensor q = None \<longleftrightarrow> \<not> sensors_waiting q"
    unfolding next_sensor_None sensors_waiting_def using empty mem by fastforce
  show "\<not> sensors_waiting q \<Longrightarrow> pop_sensor q = (q, None)" using none by (simp add: pop_sensor_def)
  show "snd (pop_sensor q) = None \<longleftrightarrow> \<not> sensors_waiting q"
  proof (cases "next_sensor q")
    case None
    then show ?thesis using none by (simp add: pop_sensor_def)
  next
    case (Some i)
    from next_sensor_Some [OF Some] obtain sq where sq: "(i, sq) \<in> set (lq_sensors q)" "\<not> sq_is_empty sq" by blast
    then obtain s cs where "sq_current sq = s # cs" using empty by (cases "sq_current sq") auto
    then have "snd (sensor_dequeue sq) = Some s" by (rule sensor_dequeue_Some)
    moreover have "map_of (lq_sensors q) i = Some sq" using sq mem by simp
    ultimately show ?thesis using Some none by (auto simp: pop_sensor_def Let_def split_def)
  qed
qed

lemma pop_video_result:
  assumes "lq_wf q"
  shows "snd (pop_video q) = None \<longleftrightarrow> lq_video q = []"
  using assms by (cases q rule: pop_video_cases) (auto simp: lq_wf_def split: list.splits)

lemma lq_wf_expire: "lq_wf q \<Longrightarrow> lq_wf (expire_stale_video q now)"
  by (cases q now rule: expire_cases) (auto simp: lq_wf_def)

lemma sensors_waiting_cong: "lq_sensors q = lq_sensors q' \<Longrightarrow> sensors_waiting q = sensors_waiting q'"
  by (simp add: sensors_waiting_def)

lemma lq_wf_cong: "lq_sensors q = lq_sensors q' \<Longrightarrow> lq_video q = lq_video q' \<Longrightarrow> lq_wf q = lq_wf q'"
  by (simp add: lq_wf_def)

lemma lq_wf_new: "lq_wf (with_sensor_policy policy)"
  by (simp add: lq_wf_def with_sensor_policy_def)

lemma lq_wf_push_nal: "lq_wf q \<Longrightarrow> nal \<noteq> [] \<Longrightarrow> lq_wf (push_video_nal q nal_id nal now)"
proof -
  assume wf: "lq_wf q" and "nal \<noteq> []"
  then have "nal_chunks nal_id nal \<noteq> []" by (simp add: nal_chunks_def chunk_nal_pieces)
  with wf show ?thesis by (auto simp: lq_wf_def push_video_nal_video)
qed

lemma lq_wf_push_frame: "lq_wf q \<Longrightarrow> ds \<noteq> [] \<Longrightarrow> lq_wf (push_sensor_frame q i ds)"
proof -
  assume wf: "lq_wf q" and ds: "ds \<noteq> []"
  define sq where "sq = (case map_of (lq_sensors q) i of Some sq \<Rightarrow> sq | None \<Rightarrow> sensor_queue_new)"
  have sorted: "sorted_keys (lq_sensors q)" using wf by (simp add: lq_wf_def)
  have old: "(sq_waiting sq \<noteq> None \<longrightarrow> sq_current sq \<noteq> []) \<and> sq_waiting sq \<noteq> Some []"
    using wf by (auto simp: sq_def lq_wf_def sensor_queue_new_def split: option.splits)
  have new: "(sq_waiting sq' \<noteq> None \<longrightarrow> sq_current sq' \<noteq> []) \<and> sq_waiting sq' \<noteq> Some []"
    if "sq' = fst (sensor_enqueue (lq_sensor_policy q) sq (lq_stats q) ds)" for sq'
    using old ds that by (auto simp: sensor_enqueue_def split: SensorFramePolicy.splits if_splits)
  have shape: "lq_sensors (push_sensor_frame q i ds) =
      sorted_insert i (fst (sensor_enqueue (lq_sensor_policy q) sq (lq_stats q) ds)) (lq_sensors q)"
    "lq_video (push_sensor_frame q i ds) = lq_video q"
    by (simp_all add: push_sensor_frame_def Let_def split_def sq_def)
  show ?thesis using wf sorted new unfolding lq_wf_def shape by auto
qed

lemma lq_wf_pop_video: "lq_wf q \<Longrightarrow> lq_wf (fst (pop_video q))"
proof (cases q rule: pop_video_cases)
  case (front p rest)
  assume wf: "lq_wf q"
  have "tl (qn_chunks p) \<noteq> []" if "\<not> length (qn_chunks p) \<le> 1"
    using that by (cases "qn_chunks p") auto
  with wf front(1,2) show ?thesis
    by (auto simp: lq_wf_def pop_video_cong(4))
qed simp

lemma lq_wf_pop_sensor: "lq_wf q \<Longrightarrow> lq_wf (fst (pop_sensor q))"
proof -
  assume wf: "lq_wf q"
  have sorted: "sorted_keys (lq_sensors q)" using wf by (simp add: lq_wf_def)
  have ok: "(sq_waiting sq' \<noteq> None \<longrightarrow> sq_current sq' \<noteq> []) \<and> sq_waiting sq' \<noteq> Some []"
    if "sq' = fst (sensor_dequeue sq)" and "(sq_waiting sq \<noteq> None \<longrightarrow> sq_current sq \<noteq> []) \<and> sq_waiting sq \<noteq> Some []"
    for sq sq'
    using that by (auto simp: sensor_dequeue_def Let_def split: option.splits if_splits)
  show ?thesis
  proof (cases "\<exists>i sq. next_sensor q = Some i \<and> map_of (lq_sensors q) i = Some sq")
    case True
    then obtain i sq where i: "next_sensor q = Some i" "map_of (lq_sensors q) i = Some sq" by blast
    have "(sq_waiting sq \<noteq> None \<longrightarrow> sq_current sq \<noteq> []) \<and> sq_waiting sq \<noteq> Some []"
      using wf i(2) unfolding lq_wf_def by blast
    note new = ok [OF refl this]
    have "lq_sensors (fst (pop_sensor q)) = sorted_insert i (fst (sensor_dequeue sq)) (lq_sensors q)"
      using i by (simp add: pop_sensor_def Let_def split_def)
    with wf sorted new show ?thesis unfolding lq_wf_def by auto
  next
    case False
    then have "lq_sensors (fst (pop_sensor q)) = lq_sensors q"
      by (auto simp: pop_sensor_def split: option.splits)
    with wf show ?thesis unfolding lq_wf_def by simp
  qed
qed

lemma lq_wf_pop: "lq_wf q \<Longrightarrow> lq_wf (fst (lq_pop q now))"
proof -
  assume "lq_wf q"
  then have e: "lq_wf (expire_stale_video q now\<lparr>lq_video_turn := b\<rparr>)" for b
    using lq_wf_expire lq_wf_cong [of "expire_stale_video q now\<lparr>lq_video_turn := b\<rparr>" "expire_stale_video q now"]
    by simp
  show ?thesis
    by (simp add: lq_pop_def Let_def or_else_simps lq_wf_pop_video lq_wf_pop_sensor e)
qed

fun nonempty_event :: "lq_event \<Rightarrow> bool" where
  "nonempty_event (PushNal _ nal _) = (nal \<noteq> [])"
| "nonempty_event (PushFrame _ ds) = (ds \<noteq> [])"
| "nonempty_event (Pop _) = True"

lemma lq_wf_run: "list_all nonempty_event es \<Longrightarrow> lq_wf (tr_queue (trace_run policy es))"
proof (induction es rule: rev_induct)
  case Nil
  then show ?case by (simp add: trace_run_def lq_wf_new)
next
  case (snoc e es)
  then have "lq_wf (tr_queue (trace_run policy es))" by simp
  with snoc.prems show ?case
    by (cases e) (auto simp: trace_run_def Let_def split_def lq_wf_push_nal lq_wf_push_frame lq_wf_pop)
qed

text \<open>The queue neither starves a class nor idles.  In every state reached by pushing non-empty
  NALs and frames, a pop returns nothing exactly when, after dropping what is stale, nothing waits;
  when video and sensors both wait, the pop serves the class whose turn it is, leaves the other one
  untouched and passes the turn on, so the two classes strictly alternate.\<close>

theorem pop_serves_both_classes:
  fixes policy :: SensorFramePolicy
  assumes "list_all nonempty_event es"
  defines "q \<equiv> tr_queue (trace_run policy es)"
  shows "(snd (lq_pop q now) = None \<longleftrightarrow>
       lq_video (expire_stale_video q now) = [] \<and> \<not> sensors_waiting q)
   \<and> (lq_video (expire_stale_video q now) \<noteq> [] \<and> sensors_waiting q \<longrightarrow>
       lq_video_turn (fst (lq_pop q now)) = (\<not> lq_video_turn q)
     \<and> (if lq_video_turn q
        then snd (lq_pop q now) = Some (hd (qn_chunks (hd (lq_video (expire_stale_video q now)))))
           \<and> lq_sensors (fst (lq_pop q now)) = lq_sensors q
        else (\<exists>sq. sq \<in> snd ` set (lq_sensors q) \<and> sq_current sq \<noteq> []
                \<and> snd (lq_pop q now) = Some (hd (sq_current sq)))
           \<and> lq_video (fst (lq_pop q now)) = lq_video (expire_stale_video q now)))"
proof -
  define e where "e = expire_stale_video q now"
  define e' where "e' = e\<lparr>lq_video_turn := \<not> lq_video_turn e\<rparr>"
  have wf: "lq_wf q" using lq_wf_run [OF assms(1)] by (simp add: q_def)
  have same: "lq_sensors e = lq_sensors q" "lq_video_turn e = lq_video_turn q"
    by (cases q now rule: expire_cases; simp add: e_def)+
  have wf': "lq_wf e'"
    using lq_wf_expire [OF wf, of now] lq_wf_cong [of e' e] by (simp add: e'_def e_def)
  have sw: "sensors_waiting e' = sensors_waiting q"
    by (rule sensors_waiting_cong) (simp add: e'_def same)
  have v: "lq_video e' = lq_video e" by (simp add: e'_def)
  have pop: "lq_pop q now = (if lq_video_turn q then or_else pop_video pop_sensor e' else or_else pop_sensor pop_video e')"
    by (simp add: lq_pop_def Let_def e'_def e_def [symmetric] same)
  note rs = pop_sensor_result [OF wf'] and rv = pop_video_result [OF wf']
  have vid_ps: "snd (pop_video (fst (pop_sensor e'))) = snd (pop_video e')"
    by (rule pop_video_cong(2)) simp
  have ps_None: "snd (pop_sensor (fst (pop_video e'))) = None \<longleftrightarrow> \<not> sensors_waiting q"
    using pop_sensor_result(1) [OF lq_wf_pop_video [OF wf']] sw
      sensors_waiting_cong [OF pop_video_cong(4) [of e']] by simp
  have none: "snd (lq_pop q now) = None \<longleftrightarrow> lq_video e = [] \<and> \<not> sensors_waiting q"
    using rs(1) rv sw ps_None vid_ps by (auto simp: pop or_else_simps v)
  show ?thesis
  proof (intro conjI impI)
    show "snd (lq_pop q now) = None \<longleftrightarrow> lq_video (expire_stale_video q now) = [] \<and> \<not> sensors_waiting q"
      using none by (simp add: e_def)
    assume both: "lq_video (expire_stale_video q now) \<noteq> [] \<and> sensors_waiting q"
    then have s: "snd (pop_sensor e') \<noteq> None" "snd (pop_video e') \<noteq> None"
      using rs(1) rv sw by (simp_all add: v e_def)
    then show "lq_video_turn (fst (lq_pop q now)) = (\<not> lq_video_turn q)"
      by (simp add: pop or_else_simps pop_video_cong(6)) (simp add: e'_def same)
    show "if lq_video_turn q
        then snd (lq_pop q now) = Some (hd (qn_chunks (hd (lq_video (expire_stale_video q now)))))
           \<and> lq_sensors (fst (lq_pop q now)) = lq_sensors q
        else (\<exists>sq. sq \<in> snd ` set (lq_sensors q) \<and> sq_current sq \<noteq> []
                \<and> snd (lq_pop q now) = Some (hd (sq_current sq)))
           \<and> lq_video (fst (lq_pop q now)) = lq_video (expire_stale_video q now)"
    proof (cases "lq_video_turn q")
      case True
      have "snd (pop_video e') = Some (hd (qn_chunks (hd (lq_video e))))"
        using s(2) both v by (cases e' rule: pop_video_cases) (auto split: list.splits, metis list.sel(1))
      with True s show ?thesis
        by (simp add: pop or_else_simps pop_video_cong(4) e_def [symmetric]) (simp add: e'_def same)
    next
      case False
      from s(1) obtain i where i: "next_sensor e' = Some i" by (auto simp: pop_sensor_def split: option.splits)
      with s(1) obtain sq where sq: "map_of (lq_sensors e') i = Some sq" by (auto simp: pop_sensor_def split: option.splits)
      then have mem: "(i, sq) \<in> set (lq_sensors q)" by (auto dest: map_of_SomeD simp: e'_def same)
      have "snd (pop_sensor e') = snd (sensor_dequeue sq)" using i sq by (simp add: pop_sensor_def Let_def split_def)
      moreover have "sq_current sq \<noteq> []"
      proof
        assume "sq_current sq = []"
        moreover have "sq_waiting sq = None" using calculation wf' sq unfolding lq_wf_def by blast
        ultimately have "snd (sensor_dequeue sq) = None" by (simp add: sensor_dequeue_def Let_def)
        with s(1) \<open>snd (pop_sensor e') = snd (sensor_dequeue sq)\<close> show False by simp
      qed
      moreover have "snd (sensor_dequeue sq) = Some (hd (sq_current sq))"
        using calculation(2) by (cases "sq_current sq") (auto simp: sensor_dequeue_Some)
      ultimately show ?thesis using False s mem
        by (force simp: pop or_else_simps v e_def [symmetric])
    qed
  qed
qed

theorem pop_serves_both_classes_witness:
  "snd (lq_pop (tr_queue (trace_run Cut [PushNal 0 [0x61] 0, PushFrame 1 [[4, 1]]])) 1000) \<noteq> None"
proof -
  let ?es = "[PushNal 0 [0x61] 0, PushFrame 1 [[4, 1]]]"
  have "map_option sq_current (map_of (lq_sensors (tr_queue (trace_run Cut ?es))) 1) = Some [[4, 1]]"
    by code_simp
  then have w: "sensors_waiting (tr_queue (trace_run Cut ?es))" by (rule sensors_waitingI)
  have "list_all nonempty_event ?es" by simp
  from conjunct1 [OF pop_serves_both_classes [OF this, of Cut 1000]] w show ?thesis by blast
qed

end
