(* ===== verification/Rate.thy ===== *)
theory Rate
  imports Floats
begin

text \<open>
  The two token buckets: the robot's adaptive cap on lossy traffic
  (\<open>robot-edge/lossy_rate.rs\<close>) and the fixed cap on forwarded topics
  (\<open>RateCap\<close> in \<open>topic.rs\<close>), with the interface \<open>token_bucket\<close> both
  satisfy.  All rates and token counts are binary64 values.
\<close>

section \<open>The adaptive cap\<close>

definition UPDATE_INTERVAL :: duration where "UPDATE_INTERVAL = millis 100"
definition TARGET_QUEUE_DELAY :: duration where "TARGET_QUEUE_DELAY = millis 20"
definition DECREASE :: fl where "DECREASE = fround_to B64 (8 / 10)"
definition INCREASE_BPS :: fl where "INCREASE_BPS = Fin 250000"
definition MIN_BPS :: fl where "MIN_BPS = Fin 1000000"
definition MAX_BPS :: fl where "MAX_BPS = Fin 50000000"
definition START_BPS :: fl where "START_BPS = Fin 4000000"
definition BURST :: duration where "BURST = millis 25"
definition MIN_BURST_BYTES :: fl where "MIN_BURST_BYTES = Fin 4000"
definition BASE_RTT_WINDOW :: duration where "BASE_RTT_WINDOW = secs 300"

record RateStats =
  rs_decreases :: nat
  rs_min_bps :: fl
  rs_max_bps :: fl
  rs_mean_bps :: fl

record LossyRateControl =
  rc_rate_bps :: fl
  rc_tokens :: fl
  rc_last_refill :: instant
  rc_last_update :: instant
  rc_started :: instant
  rc_weighted_sum :: fl
  rc_last_sent_bytes :: u64
  rc_last_acked_bytes :: u64
  rc_last_trace :: instant
  rc_base_rtt :: "(duration \<times> instant) option"
  rc_stats :: RateStats

definition rate_new :: "instant \<Rightarrow> LossyRateControl" where
  "rate_new now = \<lparr>rc_rate_bps = START_BPS, rc_tokens = MIN_BURST_BYTES, rc_last_refill = now,
     rc_last_update = now, rc_started = now, rc_weighted_sum = Fin 0, rc_last_sent_bytes = 0,
     rc_last_acked_bytes = 0, rc_last_trace = now, rc_base_rtt = None,
     rc_stats = \<lparr>rs_decreases = 0, rs_min_bps = START_BPS, rs_max_bps = START_BPS, rs_mean_bps = Fin 0\<rparr>\<rparr>"

definition rate_stats :: "LossyRateControl \<Rightarrow> instant \<Rightarrow> RateStats" where
  "rate_stats c now =
     (let elapsed = as_secs_f64 (duration_since now (rc_started c));
          since_update = as_secs_f64 (duration_since now (rc_last_update c));
          total = fadd B64 (rc_weighted_sum c) (fmul B64 (rc_rate_bps c) since_update)
      in (rc_stats c)\<lparr>rs_mean_bps := if flt (Fin 0) elapsed then fdiv B64 total elapsed else rc_rate_bps c\<rparr>)"

text \<open>The baseline round trip: the lowest one of the window, restarted by a lower sample or when the
  window has passed.\<close>

definition track_base :: "LossyRateControl \<Rightarrow> instant \<Rightarrow> duration \<Rightarrow> LossyRateControl \<times> duration" where
  "track_base c now srtt =
     (case rc_base_rtt c of
        Some (b, seen_at) \<Rightarrow>
          if b \<le> srtt \<and> duration_since now seen_at < BASE_RTT_WINDOW then (c, b)
          else (c\<lparr>rc_base_rtt := Some (srtt, now)\<rparr>, srtt)
      | None \<Rightarrow> (c\<lparr>rc_base_rtt := Some (srtt, now)\<rparr>, srtt))"

definition rate_update :: "LossyRateControl \<Rightarrow> instant \<Rightarrow> duration \<Rightarrow> u64 \<Rightarrow> u64 \<Rightarrow> LossyRateControl" where
  "rate_update c now srtt sent_bytes acked_bytes =
     (let (c, base) = track_base c now srtt;
          since = duration_since now (rc_last_update c)
      in if since < UPDATE_INTERVAL then c
         else
           let stalled = (rc_last_sent_bytes c < sent_bytes \<and> acked_bytes = rc_last_acked_bytes c);
               c = c\<lparr>rc_weighted_sum := fadd B64 (rc_weighted_sum c) (fmul B64 (rc_rate_bps c) (as_secs_f64 since)),
                     rc_last_update := now, rc_last_sent_bytes := sent_bytes, rc_last_acked_bytes := acked_bytes\<rparr>;
               queue_delay = srtt - base;
               c = (if secs 1 \<le> duration_since now (rc_last_trace c) then c\<lparr>rc_last_trace := now\<rparr> else c);
               c = (if stalled \<or> TARGET_QUEUE_DELAY < queue_delay
                    then c\<lparr>rc_rate_bps := fmul B64 (rc_rate_bps c) DECREASE,
                           rc_stats := (rc_stats c)\<lparr>rs_decreases := rs_decreases (rc_stats c) + 1\<rparr>\<rparr>
                    else c\<lparr>rc_rate_bps := fadd B64 (rc_rate_bps c) INCREASE_BPS\<rparr>);
               rate = fclamp MIN_BPS MAX_BPS (rc_rate_bps c)
           in c\<lparr>rc_rate_bps := rate,
                rc_stats := (rc_stats c)\<lparr>rs_min_bps := fmin (rs_min_bps (rc_stats c)) rate,
                                         rs_max_bps := fmax (rs_max_bps (rc_stats c)) rate\<rparr>\<rparr>)"

definition rate_capacity :: "LossyRateControl \<Rightarrow> fl" where
  "rate_capacity c =
     fmax (fmul B64 (fdiv B64 (rc_rate_bps c) (Fin 8)) (as_secs_f64 BURST)) MIN_BURST_BYTES"

definition rate_refill :: "LossyRateControl \<Rightarrow> instant \<Rightarrow> LossyRateControl" where
  "rate_refill c now =
     (let refill = fmul B64 (fdiv B64 (rc_rate_bps c) (Fin 8)) (as_secs_f64 (duration_since now (rc_last_refill c)))
      in c\<lparr>rc_tokens := fmin (fadd B64 (rc_tokens c) refill) (rate_capacity c), rc_last_refill := now\<rparr>)"

definition has_room :: "LossyRateControl \<Rightarrow> instant \<Rightarrow> nat \<Rightarrow> LossyRateControl \<times> bool" where
  "has_room c now n =
     (let c' = rate_refill c now in (c', fge (rc_tokens c') (fof_int B64 (int n))))"

definition f64_as_usize :: "fl \<Rightarrow> nat" where
  "f64_as_usize x = nat (fto_int 0 (2 ^ 64 - 1) x)"

definition rate_available :: "LossyRateControl \<Rightarrow> instant \<Rightarrow> LossyRateControl \<times> nat" where
  "rate_available c now =
     (let c' = fst (has_room c now 0) in (c', f64_as_usize (fmax (rc_tokens c') (Fin 0))))"

definition rate_consume :: "LossyRateControl \<Rightarrow> nat \<Rightarrow> LossyRateControl" where
  "rate_consume c n = c\<lparr>rc_tokens := fsub B64 (rc_tokens c) (fof_int B64 (int n))\<rparr>"

section \<open>The fixed cap\<close>

definition CAP_BURST :: duration where "CAP_BURST = millis 50"
definition CAP_MIN_BURST_BYTES :: fl where "CAP_MIN_BURST_BYTES = Fin 1500"
definition DEFAULT_MAX_MBPS :: fl where "DEFAULT_MAX_MBPS = Fin 2"
definition CAPPED_BACKLOG_SECS :: fl where "CAPPED_BACKLOG_SECS = Fin 2"
definition DEFAULT_RELIABLE_BACKLOG :: nat where "DEFAULT_RELIABLE_BACKLOG = 4 * 1024 * 1024"
definition MIN_RELIABLE_BACKLOG :: nat where "MIN_RELIABLE_BACKLOG = 1024 * 1024"

definition reliable_backlog :: "fl \<Rightarrow> nat" where
  "reliable_backlog max_mbps =
     (if is_nan max_mbps \<or> fle max_mbps (Fin 0) then DEFAULT_RELIABLE_BACKLOG
      else max (f64_as_usize (fmul B64 (fdiv B64 (fmul B64 max_mbps (Fin 1000000)) (Fin 8)) CAPPED_BACKLOG_SECS))
             MIN_RELIABLE_BACKLOG)"

record RateCap =
  cap_bytes_per_sec :: fl
  cap_burst :: fl
  cap_tokens :: fl
  cap_last :: instant

definition cap_new :: "fl \<Rightarrow> instant \<Rightarrow> RateCap option" where
  "cap_new mbps now =
     (if is_nan mbps \<or> fle mbps (Fin 0) then None
      else let bytes_per_sec = fdiv B64 (fmul B64 mbps (Fin 1000000)) (Fin 8);
               burst = fmax (fmul B64 bytes_per_sec (as_secs_f64 CAP_BURST)) CAP_MIN_BURST_BYTES
           in Some \<lparr>cap_bytes_per_sec = bytes_per_sec, cap_burst = burst, cap_tokens = burst, cap_last = now\<rparr>)"

definition cap_refill :: "RateCap \<Rightarrow> instant \<Rightarrow> RateCap" where
  "cap_refill c now =
     (let dt = as_secs_f64 (duration_since now (cap_last c))
      in c\<lparr>cap_tokens := fmin (fadd B64 (cap_tokens c) (fmul B64 dt (cap_bytes_per_sec c))) (cap_burst c),
           cap_last := now\<rparr>)"

definition cap_available :: "RateCap \<Rightarrow> instant \<Rightarrow> RateCap \<times> nat" where
  "cap_available c now =
     (let c' = cap_refill c now in (c', f64_as_usize (fmax (cap_tokens c') (Fin 0))))"

definition cap_consume :: "RateCap \<Rightarrow> nat \<Rightarrow> RateCap" where
  "cap_consume c n = c\<lparr>cap_tokens := fsub B64 (cap_tokens c) (fof_int B64 (int n))\<rparr>"

section \<open>How the cap adapts\<close>

datatype rate_op = Update instant duration u64 u64 | Room instant nat | Consume nat

fun rate_step :: "LossyRateControl \<Rightarrow> rate_op \<Rightarrow> LossyRateControl" where
  "rate_step c (Update now srtt sent acked) = rate_update c now srtt sent acked"
| "rate_step c (Room now n) = fst (has_room c now n)"
| "rate_step c (Consume n) = rate_consume c n"

definition rate_run :: "instant \<Rightarrow> rate_op list \<Rightarrow> LossyRateControl" where
  "rate_run t0 ops = foldl rate_step (rate_new t0) ops"

lemma rate_run_snoc [simp]: "rate_run t0 (ops @ [x]) = rate_step (rate_run t0 ops) x"
  by (simp add: rate_run_def)

definition rate_is :: "LossyRateControl \<Rightarrow> rat \<Rightarrow> bool" where
  "rate_is c r \<longleftrightarrow> rc_rate_bps c = Fin r \<and> 1000000 \<le> r \<and> r \<le> 50000000
     \<and> (\<exists>lo hi. rs_min_bps (rc_stats c) = Fin lo \<and> rs_max_bps (rc_stats c) = Fin hi
          \<and> 1000000 \<le> lo \<and> lo \<le> r \<and> r \<le> hi \<and> hi \<le> 50000000)"

definition baseline :: "LossyRateControl \<Rightarrow> instant \<Rightarrow> duration \<Rightarrow> duration" where
  "baseline c now srtt = snd (track_base c now srtt)"

definition congested :: "LossyRateControl \<Rightarrow> instant \<Rightarrow> duration \<Rightarrow> u64 \<Rightarrow> u64 \<Rightarrow> bool" where
  "congested c now srtt sent acked \<longleftrightarrow>
     rc_last_sent_bytes c < sent \<and> acked = rc_last_acked_bytes c
   \<or> baseline c now srtt + millis 20 < srtt"

lemma fclamp_Fin: "lo \<le> hi \<Longrightarrow> fclamp (Fin lo) (Fin hi) (Fin x) = Fin (max lo (min hi x))"
  by (auto simp: fclamp_def)

lemma fmin_Fin [simp]: "fmin (Fin x) (Fin y) = Fin (min x y)"
  and fmax_Fin [simp]: "fmax (Fin x) (Fin y) = Fin (max x y)"
  by (auto simp: fmin_def fmax_def is_nan_def)

lemma DECREASE_val: "\<exists>d. DECREASE = Fin d \<and> \<bar>d - 4/5\<bar> \<le> 1 / 10 ^ 16"
proof -
  have "DECREASE = Fin (3602879701896397 / 4503599627370496)" by code_simp
  then show ?thesis by (intro exI [of _ "3602879701896397 / 4503599627370496"]) simp
qed

lemma rnd64_near: "\<bar>x\<bar> \<le> 2 ^ 27 \<Longrightarrow> fround_to B64 x = Fin (rnd B64 x) \<and> \<bar>rnd B64 x - x\<bar> \<le> 1 / 2 ^ 26"
  using rnd_error [of x 27 B64] fround_to_small(1) [of x "2 ^ 27" B64] by (simp add: p2_def)

lemma cut_near:
  assumes "1000000 \<le> r" "r \<le> 50000000"
  shows "\<exists>x. fmul B64 (Fin r) DECREASE = Fin x \<and> \<bar>x - 4/5 * r\<bar> \<le> 1 / 1000000"
proof -
  obtain d where d: "DECREASE = Fin d" "\<bar>d - 4/5\<bar> \<le> 1 / 10 ^ 16" using DECREASE_val by blast
  have "r * \<bar>d - 4/5\<bar> \<le> 50000000 * (1 / 10 ^ 16)" using assms d by (intro mult_mono) auto
  moreover have "\<bar>r * d - 4/5 * r\<bar> = r * \<bar>d - 4/5\<bar>"
    using assms abs_mult [of r "d - 4/5"] by (simp add: algebra_simps)
  ultimately have m: "\<bar>r * d - 4/5 * r\<bar> \<le> 50000000 * (1 / 10 ^ 16)" by linarith
  moreover have "(50000000 * (1 / 10 ^ 16) :: rat) \<le> 1" by simp
  ultimately have "r * d \<le> 4/5 * r + 1" "4/5 * r - 1 \<le> r * d" unfolding abs_le_iff by linarith+
  then have "\<bar>r * d\<bar> \<le> 2 ^ 27" using assms by simp
  from rnd64_near [OF this] have near: "fround_to B64 (r * d) = Fin (rnd B64 (r * d))"
    "\<bar>rnd B64 (r * d) - r * d\<bar> \<le> 1 / 2 ^ 26" by blast+
  have "(1 / 2 ^ 26 + 50000000 * (1 / 10 ^ 16) :: rat) \<le> 1 / 1000000" by simp
  with near(2) m have "\<bar>rnd B64 (r * d) - 4/5 * r\<bar> \<le> 1 / 1000000" unfolding abs_le_iff by linarith
  then show ?thesis unfolding d(1) fmul.simps near(1) by blast
qed

lemma raise_near:
  assumes "1000000 \<le> r" "r \<le> 50000000"
  shows "\<exists>x. fadd B64 (Fin r) INCREASE_BPS = Fin x \<and> \<bar>x - (r + 250000)\<bar> \<le> 1 / 1000000"
  using rnd64_near [of "r + 250000"] assms by (auto simp: INCREASE_BPS_def abs_le_iff)

lemma track_base_rate: "rc_rate_bps (fst (track_base c now s)) = rc_rate_bps c"
  "rc_stats (fst (track_base c now s)) = rc_stats c"
  "rc_last_update (fst (track_base c now s)) = rc_last_update c"
  "rc_last_sent_bytes (fst (track_base c now s)) = rc_last_sent_bytes c"
  "rc_last_acked_bytes (fst (track_base c now s)) = rc_last_acked_bytes c"
  by (auto simp: track_base_def split: option.splits)

lemma rate_update_early:
  assumes "now < rc_last_update c + millis 100"
  shows "rate_update c now srtt sent acked = fst (track_base c now srtt)"
proof -
  have "duration_since now (rc_last_update (fst (track_base c now srtt))) < UPDATE_INTERVAL"
    using assms by (auto simp: track_base_rate duration_since_def UPDATE_INTERVAL_def millis_def)
  then show ?thesis by (simp add: rate_update_def case_prod_beta Let_def)
qed

definition rate_after :: "LossyRateControl \<Rightarrow> instant \<Rightarrow> duration \<Rightarrow> u64 \<Rightarrow> u64 \<Rightarrow> fl" where
  "rate_after c now srtt sent acked =
     fclamp MIN_BPS MAX_BPS
       (if congested c now srtt sent acked then fmul B64 (rc_rate_bps c) DECREASE
        else fadd B64 (rc_rate_bps c) INCREASE_BPS)"

lemma rate_update_due:
  assumes "rc_last_update c + millis 100 \<le> now"
  shows "rc_rate_bps (rate_update c now srtt sent acked) = rate_after c now srtt sent acked"
    and "rs_min_bps (rc_stats (rate_update c now srtt sent acked)) =
           fmin (rs_min_bps (rc_stats c)) (rate_after c now srtt sent acked)"
    and "rs_max_bps (rc_stats (rate_update c now srtt sent acked)) =
           fmax (rs_max_bps (rc_stats c)) (rate_after c now srtt sent acked)"
    and "rc_last_update (rate_update c now srtt sent acked) = now"
    and "rc_base_rtt (rate_update c now srtt sent acked) = rc_base_rtt (fst (track_base c now srtt))"
proof -
  obtain c' b where tb: "track_base c now srtt = (c', b)" by (cases "track_base c now srtt")
  have eq: "rc_rate_bps c' = rc_rate_bps c" "rc_stats c' = rc_stats c" "rc_last_update c' = rc_last_update c"
    "rc_last_sent_bytes c' = rc_last_sent_bytes c" "rc_last_acked_bytes c' = rc_last_acked_bytes c"
    using track_base_rate [of c now srtt] by (simp_all add: tb)
  have due: "\<not> duration_since now (rc_last_update c) < UPDATE_INTERVAL"
    using assms by (simp add: duration_since_def UPDATE_INTERVAL_def)
  have cong: "congested c now srtt sent acked \<longleftrightarrow>
      (rc_last_sent_bytes c < sent \<and> acked = rc_last_acked_bytes c) \<or> TARGET_QUEUE_DELAY < srtt - b"
    by (auto simp: congested_def baseline_def tb TARGET_QUEUE_DELAY_def)
  show "rc_rate_bps (rate_update c now srtt sent acked) = rate_after c now srtt sent acked"
    by (simp add: rate_update_def tb eq due Let_def rate_after_def cong)
  show "rs_min_bps (rc_stats (rate_update c now srtt sent acked)) =
           fmin (rs_min_bps (rc_stats c)) (rate_after c now srtt sent acked)"
    by (simp add: rate_update_def tb eq due Let_def rate_after_def cong)
  show "rs_max_bps (rc_stats (rate_update c now srtt sent acked)) =
           fmax (rs_max_bps (rc_stats c)) (rate_after c now srtt sent acked)"
    by (simp add: rate_update_def tb eq due Let_def rate_after_def cong)
  show "rc_last_update (rate_update c now srtt sent acked) = now"
    by (simp add: rate_update_def tb eq due Let_def)
  show "rc_base_rtt (rate_update c now srtt sent acked) = rc_base_rtt (fst (track_base c now srtt))"
    by (simp add: rate_update_def tb eq due Let_def)
qed

lemma clamp_near: "\<bar>x - y\<bar> \<le> e \<Longrightarrow> \<bar>max lo (min hi x) - max lo (min hi y)\<bar> \<le> (e :: rat)"
  by (auto simp: max_def min_def abs_le_iff)

lemma rate_after_near:
  assumes "rate_is c r"
  shows "\<exists>r'. rate_after c now srtt sent acked = Fin r' \<and> 1000000 \<le> r' \<and> r' \<le> 50000000
    \<and> \<bar>r' - (if congested c now srtt sent acked then max 1000000 (4/5 * r)
             else min 50000000 (r + 250000))\<bar> \<le> 1 / 1000000
    \<and> (congested c now srtt sent acked \<longrightarrow> r' \<le> max 1000000 (4/5 * r + 1 / 1000000))"
proof -
  have r: "rc_rate_bps c = Fin r" "1000000 \<le> r" "r \<le> 50000000" using assms by (auto simp: rate_is_def)
  show ?thesis
  proof (cases "congested c now srtt sent acked")
    case True
    obtain x where x: "fmul B64 (Fin r) DECREASE = Fin x" "\<bar>x - 4/5 * r\<bar> \<le> 1 / 1000000"
      using cut_near r by blast
    have "max 1000000 (min 50000000 (4/5 * r)) = max 1000000 (4/5 * r)" using r by (simp add: min_def)
    moreover have "max 1000000 (min 50000000 x) \<le> max 1000000 (4/5 * r + 1 / 1000000)"
      using x(2) unfolding abs_le_iff by (intro max.mono min.coboundedI2) (simp, linarith)
    ultimately show ?thesis using clamp_near [OF x(2), of 1000000 50000000] True
      by (auto simp: rate_after_def r x MIN_BPS_def MAX_BPS_def fclamp_Fin)
  next
    case False
    obtain x where x: "fadd B64 (Fin r) INCREASE_BPS = Fin x" "\<bar>x - (r + 250000)\<bar> \<le> 1 / 1000000"
      using raise_near r by blast
    have "max 1000000 (min 50000000 (r + 250000)) = min 50000000 (r + 250000)" using r by (auto simp: min_def max_def)
    then show ?thesis using clamp_near [OF x(2), of 1000000 50000000] False
      by (auto simp: rate_after_def r x MIN_BPS_def MAX_BPS_def fclamp_Fin)
  qed
qed

lemma rate_is_update: "rate_is c r \<Longrightarrow> \<exists>r'. rate_is (rate_update c now srtt sent acked) r'"
proof (cases "now < rc_last_update c + millis 100")
  case True
  then show "rate_is c r \<Longrightarrow> ?thesis" by (auto simp: rate_update_early rate_is_def track_base_rate)
next
  case False
  assume r: "rate_is c r"
  from rate_after_near [OF r] obtain r' where
    r': "rate_after c now srtt sent acked = Fin r'" "1000000 \<le> r'" "r' \<le> 50000000" by blast
  from r obtain lo hi where "rs_min_bps (rc_stats c) = Fin lo" "rs_max_bps (rc_stats c) = Fin hi"
    "1000000 \<le> lo" "lo \<le> r" "r \<le> hi" "hi \<le> 50000000" by (auto simp: rate_is_def)
  with r' False show ?thesis
    by (intro exI [of _ r']) (auto simp: rate_is_def rate_update_due intro!: exI)
qed

lemma rate_is_run: "\<exists>r. rate_is (rate_run t0 ops) r"
proof -
  have run: "\<exists>r. rate_is (foldl rate_step c ops) r" if "\<exists>r. rate_is c r" for c
    using that
  proof (induction ops arbitrary: c)
    case (Cons x ops)
    have "\<exists>r. rate_is (rate_step c x) r" using Cons.prems
    proof (cases x)
      case (Update now srtt sent acked)
      then show ?thesis using Cons.prems rate_is_update by auto
    qed (auto simp: has_room_def rate_refill_def rate_consume_def Let_def rate_is_def)
    then show ?case using Cons.IH by simp
  qed simp
  have "rate_is (rate_new t0) 4000000" by (simp add: rate_is_def rate_new_def START_BPS_def)
  then show ?thesis unfolding rate_run_def by (intro run exI)
qed

text \<open>The samples of a run, and the baseline they give while the first of them is in the window.\<close>

fun samples :: "rate_op list \<Rightarrow> (instant \<times> duration) list" where
  "samples [] = []"
| "samples (Update now srtt sent acked # ops) = (now, srtt) # samples ops"
| "samples (_ # ops) = samples ops"

lemma samples_append [simp]: "samples (xs @ ys) = samples xs @ samples ys"
  by (induction xs rule: samples.induct) auto

definition base_is :: "LossyRateControl \<Rightarrow> instant \<Rightarrow> duration \<Rightarrow> bool" where
  "base_is c t0 b \<longleftrightarrow> (\<exists>at_time. rc_base_rtt c = Some (b, at_time) \<and> t0 \<le> at_time)"

lemma rate_update_base: "rc_base_rtt (rate_update c now srtt sent acked) = rc_base_rtt (fst (track_base c now srtt))"
  using rate_update_early [of now c srtt sent acked] rate_update_due(5) [of c now srtt sent acked]
  by (cases "now < rc_last_update c + millis 100") auto

lemma base_is_track:
  assumes "base_is c t0 b" and "t0 \<le> now" and "now < t0 + secs 300"
  shows "base_is (fst (track_base c now srtt)) t0 (min b srtt)" and "baseline c now srtt = min b srtt"
  using assms
  by (auto simp: base_is_def track_base_def baseline_def BASE_RTT_WINDOW_def duration_since_def min_def
      split: if_splits)

lemma base_is_run:
  assumes "\<forall>(t, s) \<in> set (samples ops). t0 \<le> t \<and> t < t0 + secs 300"
  shows "if samples ops = [] then rc_base_rtt (rate_run t0 ops) = None
    else base_is (rate_run t0 ops) t0 (Min (snd ` set (samples ops)))"
  using assms
proof (induction ops rule: rev_induct)
  case Nil
  then show ?case by (simp add: rate_run_def rate_new_def)
next
  case (snoc x ops)
  let ?c = "rate_run t0 ops"
  show ?case
  proof (cases x)
    case (Update now srtt sent acked)
    have t: "t0 \<le> now" "now < t0 + secs 300" using snoc.prems Update by auto
    show ?thesis
    proof (cases "samples ops = []")
      case True
      then have "rc_base_rtt ?c = None" using snoc by simp
      then show ?thesis using True Update t
        by (simp add: base_is_def rate_update_base track_base_def)
    next
      case False
      then have "base_is ?c t0 (Min (snd ` set (samples ops)))" using snoc by simp
      from base_is_track(1) [OF this t, of srtt] False Update show ?thesis
        by (simp add: base_is_def rate_update_base min.commute)
    qed
  qed (use snoc in \<open>auto simp: base_is_def has_room_def rate_refill_def rate_consume_def Let_def\<close>)
qed

text \<open>What a run's operations alone say of it: the last update that counted, with its counters of bytes sent and
  acknowledged; and the lowest round trip of the window, with its time.\<close>

fun counted :: "instant \<times> u64 \<times> u64 \<Rightarrow> rate_op list \<Rightarrow> instant \<times> u64 \<times> u64" where
  "counted c [] = c"
| "counted c (Update now srtt sent acked # ops) =
     counted (if fst c + millis 100 \<le> now then (now, sent, acked) else c) ops"
| "counted c (_ # ops) = counted c ops"

fun window_low :: "(duration \<times> instant) option \<Rightarrow> (instant \<times> duration) list \<Rightarrow> (duration \<times> instant) option" where
  "window_low b [] = b"
| "window_low b ((now, srtt) # xs) = window_low
     (case b of Some (low, since) \<Rightarrow> if low \<le> srtt \<and> now < since + secs 300 then b else Some (srtt, now)
      | None \<Rightarrow> Some (srtt, now)) xs"

lemma rate_update_counted:
  "(rc_last_update (rate_update c now srtt sent acked), rc_last_sent_bytes (rate_update c now srtt sent acked),
    rc_last_acked_bytes (rate_update c now srtt sent acked))
   = (if rc_last_update c + millis 100 \<le> now then (now, sent, acked)
      else (rc_last_update c, rc_last_sent_bytes c, rc_last_acked_bytes c))"
proof (cases "rc_last_update c + millis 100 \<le> now")
  case False
  then show ?thesis by (simp add: rate_update_early track_base_rate)
next
  case True
  then have "\<not> now - rc_last_update c < millis 100" by simp
  with True show ?thesis
    by (simp add: rate_update_def case_prod_beta Let_def track_base_rate duration_since_def UPDATE_INTERVAL_def)
qed

lemma run_counted:
  "(rc_last_update (foldl rate_step c ops), rc_last_sent_bytes (foldl rate_step c ops), rc_last_acked_bytes (foldl rate_step c ops))
   = counted (rc_last_update c, rc_last_sent_bytes c, rc_last_acked_bytes c) ops"
proof (induction ops arbitrary: c)
  case (Cons x ops)
  show ?case
  proof (cases x)
    case (Update now srtt sent acked)
    then show ?thesis using Cons.IH [of "rate_step c x"] rate_update_counted [of c now srtt sent acked] by simp
  qed (use Cons.IH [of "rate_step c x"] in \<open>simp_all add: has_room_def rate_refill_def rate_consume_def Let_def\<close>)
qed simp

lemma track_base_low:
  "rc_base_rtt (fst (track_base c now srtt)) = window_low (rc_base_rtt c) [(now, srtt)]"
  by (auto simp: track_base_def baseline_def BASE_RTT_WINDOW_def duration_since_def secs_def split: option.splits if_splits)

lemma run_low: "rc_base_rtt (foldl rate_step c ops) = window_low (rc_base_rtt c) (samples ops)"
proof (induction ops arbitrary: c)
  case (Cons x ops)
  show ?case
  proof (cases x)
    case (Update now srtt sent acked)
    then show ?thesis using Cons.IH [of "rate_step c x"] by (simp add: rate_update_base track_base_low)
  qed (use Cons.IH [of "rate_step c x"] in \<open>simp_all add: has_room_def rate_refill_def rate_consume_def Let_def\<close>)
qed simp

lemma window_low_snoc: "window_low b (xs @ [x]) = window_low (window_low b xs) [x]"
  by (induction xs arbitrary: b) auto

lemma baseline_low: "window_low (rc_base_rtt c) [(now, srtt)] = Some (b, since) \<Longrightarrow> baseline c now srtt = b"
  by (auto simp: track_base_def baseline_def BASE_RTT_WINDOW_def duration_since_def secs_def split: option.splits if_splits)

text \<open>C22: The adaptive cap.  After any operations, the cap and the reported extremes stay between 1 and
  50 Mbps, the extremes around it.  An update less than 100 ms after the last update that was not itself that early (or
  after the start) changes nothing but the baseline.  A later one cuts the cap to four fifths (but not below
  1 Mbps) exactly when bytes were sent since that update with none newly acknowledged, or the smoothed round trip
  is more than 20 ms over the baseline, and raises it by 250 kbps (but not above 50 Mbps) otherwise, up to a
  millionth of a bit of float rounding.  The baseline is the lowest round trip seen, kept until a lower one or for
  300 s; so for the first 300 s it is the smallest so far.\<close>

theorem rate_cap_adapts:
  fixes ops now
  defines "c \<equiv> \<lambda>t0 ops. rate_run t0 ops"
  shows "\<exists>r lo hi t s a base since. rc_rate_bps (c t0 ops) = Fin r \<and> rs_min_bps (rc_stats (c t0 ops)) = Fin lo
    \<and> rs_max_bps (rc_stats (c t0 ops)) = Fin hi
    \<and> 1000000 \<le> lo \<and> lo \<le> r \<and> r \<le> hi \<and> hi \<le> 50000000
    \<and> counted (t0, 0, 0) ops = (t, s, a)
    \<and> window_low None (samples (ops @ [Update now srtt sent acked])) = Some (base, since)
    \<and> (if now < t + millis 100
       then rate_update (c t0 ops) now srtt sent acked = (c t0 ops)\<lparr>rc_base_rtt := Some (base, since)\<rparr>
       else \<exists>r'. rc_rate_bps (rate_update (c t0 ops) now srtt sent acked) = Fin r'
          \<and> \<bar>r' - (if s < sent \<and> acked = a \<or> base + millis 20 < srtt then max 1000000 (4/5 * r)
                   else min 50000000 (r + 250000))\<bar> \<le> 1 / 1000000)
    \<and> ((\<forall>(t, s) \<in> set (samples (ops @ [Update now srtt sent acked])). t0 \<le> t \<and> t < t0 + secs 300) \<longrightarrow>
        base = Min (snd ` set (samples (ops @ [Update now srtt sent acked]))))"
proof -
  obtain r where r: "rate_is (c t0 ops) r" unfolding c_def using rate_is_run by blast
  then obtain lo hi where lh: "rc_rate_bps (c t0 ops) = Fin r" "rs_min_bps (rc_stats (c t0 ops)) = Fin lo"
    "rs_max_bps (rc_stats (c t0 ops)) = Fin hi"
    "1000000 \<le> lo" "lo \<le> r" "r \<le> hi" "hi \<le> 50000000" by (auto simp: rate_is_def)
  obtain t s a where tsa: "counted (t0, 0, 0) ops = (t, s, a)" by (cases "counted (t0, 0, 0) ops")
  then have hist: "rc_last_update (c t0 ops) = t" "rc_last_sent_bytes (c t0 ops) = s" "rc_last_acked_bytes (c t0 ops) = a"
    using run_counted [of "rate_new t0" ops] by (simp_all add: c_def rate_run_def) (simp_all add: rate_new_def)
  have run: "rc_base_rtt (c t0 ops) = window_low None (samples ops)"
    using run_low [of "rate_new t0" ops] by (simp add: c_def rate_run_def) (simp add: rate_new_def)
  have low: "window_low None (samples (ops @ [Update now srtt sent acked])) = window_low (rc_base_rtt (c t0 ops)) [(now, srtt)]"
    unfolding run by (simp add: window_low_snoc [of None "samples ops"])
  obtain base since where base: "window_low (rc_base_rtt (c t0 ops)) [(now, srtt)] = Some (base, since)"
    by (cases "window_low (rc_base_rtt (c t0 ops)) [(now, srtt)]") (auto split: option.splits if_splits)
  have baseline: "baseline (c t0 ops) now srtt = base" by (rule baseline_low [OF base])
  have track: "fst (track_base (c t0 ops) now srtt) = (c t0 ops)\<lparr>rc_base_rtt := Some (base, since)\<rparr>"
    using base track_base_low(1) [of "c t0 ops" now srtt] by (auto simp: track_base_def split: option.splits if_splits)
  have cong: "congested (c t0 ops) now srtt sent acked \<longleftrightarrow> s < sent \<and> acked = a \<or> base + millis 20 < srtt"
    by (auto simp: congested_def baseline hist)
  have min: "base = Min (snd ` set (samples (ops @ [Update now srtt sent acked])))"
    if w: "\<forall>(t, s) \<in> set (samples (ops @ [Update now srtt sent acked])). t0 \<le> t \<and> t < t0 + secs 300"
  proof -
    have inv: "if samples ops = [] then rc_base_rtt (c t0 ops) = None
      else base_is (c t0 ops) t0 (Min (snd ` set (samples ops)))"
      unfolding c_def by (rule base_is_run) (use w in auto)
    have t: "t0 \<le> now" "now < t0 + secs 300" using w by auto
    show ?thesis
    proof (cases "samples ops = []")
      case True
      then show ?thesis using inv base by simp
    next
      case False
      then have "base_is (c t0 ops) t0 (Min (snd ` set (samples ops)))" using inv by simp
      from base_is_track(2) [OF this t, of srtt] baseline False show ?thesis by (simp add: min.commute)
    qed
  qed
  from rate_after_near [OF r, of now srtt sent acked] obtain r' where r':
    "rate_after (c t0 ops) now srtt sent acked = Fin r'"
    "\<bar>r' - (if s < sent \<and> acked = a \<or> base + millis 20 < srtt then max 1000000 (4/5 * r)
             else min 50000000 (r + 250000))\<bar> \<le> 1 / 1000000" unfolding cong by blast
  have step: "if now < t + millis 100
       then rate_update (c t0 ops) now srtt sent acked = (c t0 ops)\<lparr>rc_base_rtt := Some (base, since)\<rparr>
       else \<exists>r'. rc_rate_bps (rate_update (c t0 ops) now srtt sent acked) = Fin r'
          \<and> \<bar>r' - (if s < sent \<and> acked = a \<or> base + millis 20 < srtt then max 1000000 (4/5 * r)
                   else min 50000000 (r + 250000))\<bar> \<le> 1 / 1000000"
    using rate_update_early [of now "c t0 ops" srtt sent acked] rate_update_due(1) [of "c t0 ops" now srtt sent acked]
      r' hist(1) track by (simp add: not_less)
  show ?thesis
    by (intro exI [of _ r] exI [of _ lo] exI [of _ hi] exI [of _ t] exI [of _ s] exI [of _ a] exI [of _ base] exI [of _ since]
        conjI impI; (fact lh tsa step trans [OF low base] | (rule min, assumption)))
qed

theorem rate_cap_adapts_witness:
  "rc_base_rtt (rate_update (rate_run 0 [Update (millis 100) (millis 5) 0 0]) (millis 150) (millis 4) 9 0) = Some (millis 4, millis 150)"
  using rate_cap_adapts [of 0 "[Update (millis 100) (millis 5) 0 0]" "millis 150" "millis 4" 9 0]
  by (auto simp: millis_def secs_def)

text \<open>Updates that keep seeing a queue.\<close>

fun queue_updates :: "instant \<Rightarrow> duration \<Rightarrow> instant \<Rightarrow> rate_op list \<Rightarrow> bool" where
  "queue_updates t0 b t [] = True"
| "queue_updates t0 b t (Update now srtt sent acked # ops) =
     (t + millis 100 \<le> now \<and> t0 \<le> now \<and> now < t0 + secs 300 \<and> b + millis 20 < srtt
      \<and> queue_updates t0 b now ops)"
| "queue_updates t0 b t (_ # ops) = False"

lemma queue_update_step:
  assumes "rate_is c r" and "rc_base_rtt c = Some (b, t0)"
    and "rc_last_update c + millis 100 \<le> now" "t0 \<le> now" "now < t0 + secs 300" "b + millis 20 < srtt"
  shows "\<exists>r'. rate_is (rate_update c now srtt sent acked) r' \<and> r' \<le> max 1000000 (4/5 * r + 1 / 1000000)
    \<and> rc_base_rtt (rate_update c now srtt sent acked) = Some (b, t0)
    \<and> rc_last_update (rate_update c now srtt sent acked) = now"
proof -
  have tb: "track_base c now srtt = (c, b)"
    using assms by (simp add: track_base_def BASE_RTT_WINDOW_def duration_since_def less_diff_conv2)
  have "congested c now srtt sent acked" using assms by (simp add: congested_def baseline_def tb)
  with rate_after_near [OF assms(1), of now srtt sent acked] rate_update_due(1) [OF assms(3), of srtt sent acked]
  obtain r' where r': "rc_rate_bps (rate_update c now srtt sent acked) = Fin r'"
    "r' \<le> max 1000000 (4/5 * r + 1 / 1000000)" by auto
  obtain r2 where "rate_is (rate_update c now srtt sent acked) r2"
    using rate_is_update [OF assms(1)] by blast
  with r'(1) have "rate_is (rate_update c now srtt sent acked) r'" by (simp add: rate_is_def)
  with r' assms(2) show ?thesis
    by (intro exI [of _ r']) (auto simp: rate_update_base rate_update_due(4) [OF assms(3)] tb abs_le_iff)
qed

lemma queue_updates_cut:
  assumes "rate_is c r" and "rc_base_rtt c = Some (b, t0)"
    and "queue_updates t0 b (rc_last_update c) ops" and "r \<le> max 1000000 (50000000 * (4/5) ^ k + 5)"
  shows "\<exists>r'. rate_is (foldl rate_step c ops) r'
    \<and> r' \<le> max 1000000 (50000000 * (4/5) ^ (k + length ops) + 5)"
  using assms
proof (induction ops arbitrary: c r k)
  case (Cons x ops)
  then obtain now srtt sent acked where x: "x = Update now srtt sent acked" by (cases x) auto
  obtain r' where r': "rate_is (rate_update c now srtt sent acked) r'"
    "r' \<le> max 1000000 (4/5 * r + 1 / 1000000)"
    "rc_base_rtt (rate_update c now srtt sent acked) = Some (b, t0)"
    "rc_last_update (rate_update c now srtt sent acked) = now"
    using queue_update_step [OF Cons.prems(1,2), of now srtt sent acked] Cons.prems(3)
    unfolding x queue_updates.simps by blast
  have "r' \<le> max 1000000 (50000000 * (4/5) ^ Suc k + 5)"
    using r'(2) Cons.prems(4) by (auto simp: max_def split: if_splits)
  with Cons.IH [OF r'(1,3), of "Suc k"] Cons.prems(3) r'(4) x show ?case by simp
qed auto

text \<open>The cap yields.  Whatever happened before, when eighteen updates in a row, each at least 100 ms
  after the one before, find the smoothed round trip more than 20 ms over the baseline, the cap is at
  its floor of 1 Mbps.\<close>

theorem rate_cap_yields:
  assumes "rc_base_rtt (rate_run t0 ops) = Some (b, t1)"
    and "queue_updates t1 b (rc_last_update (rate_run t0 ops)) us" and "18 \<le> length us"
  shows "rc_rate_bps (rate_run t0 (ops @ us)) = Fin 1000000"
proof -
  obtain r where r: "rate_is (rate_run t0 ops) r" using rate_is_run by blast
  then have "r \<le> max 1000000 (50000000 * (4/5) ^ 0 + 5)" by (auto simp: rate_is_def)
  from queue_updates_cut [OF r assms(1,2) this] obtain r' where r': "rate_is (rate_run t0 (ops @ us)) r'"
    "r' \<le> max 1000000 (50000000 * (4/5) ^ (0 + length us) + 5)" by (auto simp: rate_run_def)
  define x :: rat where "x = (4/5) ^ length us"
  have "x \<le> (4/5) ^ 18" unfolding x_def using assms(3) by (intro power_decreasing) auto
  also have "\<dots> \<le> 19 / 1000" by code_simp
  finally have "50000000 * (4/5) ^ (0 + length us) + 5 \<le> (1000000 :: rat)" by (simp add: x_def)
  with r'(2) have "r' \<le> 1000000" by linarith
  with r'(1) show ?thesis by (auto simp: rate_is_def)
qed

definition eighteen :: "rate_op list" where
  "eighteen = List.map (\<lambda>i. Update (millis (100 * (i + 2))) (millis 30) 0 0) [0..<18]"

theorem rate_cap_yields_witness:
  "rc_rate_bps (rate_run 0 ([Update (millis 100) (millis 2) 0 0] @ eighteen)) = Fin 1000000"
proof (rule rate_cap_yields)
  show base: "rc_base_rtt (rate_run 0 [Update (millis 100) (millis 2) 0 0]) = Some (millis 2, millis 100)"
    by (simp add: rate_run_def rate_update_base track_base_def rate_new_def)
  have "rc_last_update (rate_run 0 [Update (millis 100) (millis 2) 0 0]) = millis 100"
    using rate_update_due(4) [of "rate_new 0" "millis 100"] by (simp add: rate_run_def rate_new_def)
  moreover have "queue_updates (millis 100) (millis 2) (millis 100) eighteen" by code_simp
  ultimately show "queue_updates (millis 100) (millis 2)
      (rc_last_update (rate_run 0 [Update (millis 100) (millis 2) 0 0])) eighteen" by simp
  show "18 \<le> length eighteen" by (simp add: eighteen_def)
qed

section \<open>Token buckets\<close>

text \<open>Values that are floats, and the relative rounding error.\<close>

lemma rnd_relative:
  assumes "0 \<le> x" and "x = 0 \<or> p2 (- 1022) \<le> x"
  shows "rnd B64 x \<le> x * (1 + 1 / 2 ^ 52)"
proof (cases "x = 0")
  case False
  with assms have x: "0 < x" "p2 (- 1022) \<le> x" by auto
  have "- 1022 \<le> ilog2 x" using x(2) by (rule ilog2_ge)
  then have "\<bar>rnd B64 x - x\<bar> \<le> p2 (ilog2 x + 1 - 53)"
    using rnd_error [of x "ilog2 x + 1" B64] ilog2_bounds(2) [OF x(1)] x(1) by simp
  moreover have "p2 (ilog2 x + 1 - 53) = p2 (ilog2 x) / 2 ^ 52" by (simp add: p2_diff p2_add) (simp add: p2_def)
  moreover have "p2 (ilog2 x) / 2 ^ 52 \<le> x / 2 ^ 52"
    using ilog2_bounds(1) [OF x(1)] by (rule divide_right_mono) simp
  ultimately have "rnd B64 x - x \<le> x / 2 ^ 52" unfolding abs_le_iff by linarith
  then show ?thesis by (simp add: algebra_simps)
qed simp

lemma is_float_grid:
  assumes "rnd B64 x = x" and "0 < x"
  obtains m where "x = of_int m * p2 (quantum B64 x)" and "0 < m" and "m \<le> 2 ^ 53"
proof -
  let ?q = "quantum B64 x"
  have rp: "x = of_int (rne (x / p2 ?q)) * p2 ?q"
    using assms by (simp add: rnd_def round_pos_def Let_def)
  have "x / p2 ?q < 2 ^ 53" using scaled_lt [OF assms(2), of B64] by simp
  then have "rne (x / p2 ?q) \<le> 2 ^ 53" using rne_le_int [of "x / p2 ?q" "2 ^ 53"] by simp
  moreover have "0 < rne (x / p2 ?q)"
    using rp assms(2) p2_pos [of ?q] by (metis of_int_0_less_iff zero_less_mult_pos2)
  ultimately show ?thesis using rp that by blast
qed

text \<open>Subtracting a whole number of bytes a bucket holds is exact.\<close>

lemma fsub_exact:
  assumes "rnd B64 x = x" and "of_nat n \<le> x" and "x < 2 ^ 53"
  shows "fsub B64 (Fin x) (fof_int B64 (int n)) = Fin (x - of_nat n) \<and> rnd B64 (x - of_nat n) = x - of_nat n"
proof (cases "x = 0")
  case True
  then show ?thesis using assms by (simp add: fsub_def fof_int_def)
next
  case False
  have x: "0 < x" using False assms(2) by (metis of_nat_0_le_iff order_antisym_conv order_trans not_le)
  let ?q = "quantum B64 x"
  obtain m where m: "x = of_int m * p2 ?q" "0 < m" "m \<le> 2 ^ 53" by (rule is_float_grid [OF assms(1) x])
  have "ilog2 x < 53" using assms(3) x by (intro ilog2_less) (simp_all add: p2_def)
  then have q: "?q \<le> 0" "-1074 \<le> ?q" by (auto simp: quantum_def)
  have n: "of_nat n = (of_int (int n * 2 ^ nat (- ?q)) :: rat) * p2 ?q" using q(1) by (auto simp: p2_def)
  then have diff: "x - of_nat n = of_int (m - int n * 2 ^ nat (- ?q)) * p2 ?q"
    using m(1) by (simp add: left_diff_distrib)
  have "0 \<le> x - of_nat n" using assms(2) by simp
  then have nn: "0 \<le> m - int n * 2 ^ nat (- ?q)" unfolding diff by (metis mult_less_0_iff not_less of_int_0_le_iff p2_pos zero_le_mult_iff)
  moreover have le: "m - int n * 2 ^ nat (- ?q) \<le> 2 ^ 53"
  proof -
    have "0 \<le> int n * 2 ^ nat (- ?q)" by simp
    with m(3) show ?thesis by linarith
  qed
  ultimately have ex: "rnd B64 (x - of_nat n) = x - of_nat n"
    unfolding diff using q(2) by (intro rnd_exact) auto
  have "(of_nat n :: rat) < 2 ^ 53" using assms(2,3) by linarith
  then have "n < 2 ^ 53" by (metis of_nat_less_iff of_nat_numeral of_nat_power)
  then have "fof_int B64 (int n) = Fin (of_nat n)"
    using fround_to_of_int [of "int n" B64] by (simp add: fof_int_def)
  moreover have "fround_to B64 (x - of_nat n) = Fin (rnd B64 (x - of_nat n))"
    using assms(2,3) by (intro fround_to_small(1) [of _ "2 ^ 53"]) auto
  ultimately show ?thesis using ex by (simp add: fsub_def)
qed

text \<open>A float's integer part is below it.\<close>

lemma f64_as_usize_iff:
  assumes "0 \<le> x" and "x < 2 ^ 63"
  shows "n \<le> f64_as_usize (fmax (Fin x) (Fin 0)) \<longleftrightarrow> of_nat n \<le> x"
proof -
  have "\<lfloor>x\<rfloor> < 2 ^ 63" using assms(2) by (simp add: floor_less_iff)
  moreover have "0 \<le> \<lfloor>x\<rfloor>" using assms(1) by simp
  ultimately have "f64_as_usize (fmax (Fin x) (Fin 0)) = nat \<lfloor>x\<rfloor>"
    using assms(1) by (simp add: f64_as_usize_def trunc_rat_def max_def min_def)
  moreover have "n \<le> nat \<lfloor>x\<rfloor> \<longleftrightarrow> int n \<le> \<lfloor>x\<rfloor>" using assms(1) by (simp add: le_nat_iff)
  ultimately show ?thesis by (simp add: le_floor_iff)
qed

lemma rnd_idem: "0 \<le> x \<Longrightarrow> rnd f (rnd f x) = rnd f x"
proof (cases "x = 0")
  case False
  assume "0 \<le> x"
  with False have x: "0 < x" by simp
  let ?q = "quantum f x"
  have r: "rnd f x = of_int (rne (x / p2 ?q)) * p2 ?q"
    using x by (simp add: rnd_def round_pos_def Let_def)
  have "x / p2 ?q < 2 ^ prec f" by (rule scaled_lt [OF x])
  then have "rne (x / p2 ?q) \<le> 2 ^ prec f" using rne_le_int [of "x / p2 ?q" "2 ^ prec f"] by simp
  moreover have "0 \<le> rne (x / p2 ?q)" using rne_ge_int [of 0 "x / p2 ?q"] x by (simp add: less_imp_le)
  ultimately show ?thesis unfolding r by (intro rnd_exact) (auto simp: quantum_def)
qed simp

text \<open>Elapsed seconds, in both roundings.\<close>

lemma as_secs_bounds:
  assumes "d < 2 ^ 80"
  shows "\<exists>s. as_secs_f64 d = Fin s \<and> 0 \<le> s \<and> s \<le> of_nat d / 1000000000 * (1 + 1 / 2 ^ 50)
    \<and> s \<le> 2 ^ 51 \<and> (s = 0 \<or> 1 / 2 ^ 30 \<le> s)"
proof -
  let ?s = "d div 1000000000" and ?n = "d mod 1000000000"
  let ?y = "of_nat ?s + frac_secs ?n"
  have d: "of_nat d = (of_nat ?s * 1000000000 + of_nat ?n :: rat)"
    by (metis of_nat_add of_nat_mult of_nat_numeral div_mult_mod_eq)
  have "?s < 2 ^ 51 - 1" using assms by (simp add: less_mult_imp_div_less)
  then have "int ?s < int (2 ^ 51 - 1)" by (simp only: of_nat_less_iff)
  then have sl: "int ?s \<le> 2 ^ 51 - 1" by simp
  then have "fof_int B64 (int ?s) = Fin (of_nat ?s)"
    using fround_to_of_int [of "int ?s" B64] by (simp add: fof_int_def)
  then have eq: "as_secs_f64 d = fround_to B64 ?y" by (simp add: as_secs_f64_alt)
  have n: "?n = 0 \<or> 1 \<le> ?n" by linarith
  have fr0: "0 \<le> frac_secs ?n" "frac_secs ?n \<le> 1" by (simp_all add: nanos_div(2,3))
  have fr: "frac_secs ?n \<le> of_nat ?n / 1000000000 * (1 + 1 / 2 ^ 52)"
    unfolding frac_secs_def
  proof (rule rnd_relative)
    have "p2 (- 1022) \<le> p2 (- 30)" by simp
    also have "p2 (- 30) \<le> 1 / 1000000000" by (simp add: p2_def)
    finally show "of_nat ?n / 1000000000 = (0 :: rat) \<or> p2 (- 1022) \<le> of_nat ?n / 1000000000"
      using n by (auto intro: order_trans divide_right_mono)
  qed simp
  have fr1: "frac_secs ?n = 0 \<or> 1 / 2 ^ 30 \<le> frac_secs ?n"
  proof (cases "?n = 0")
    case False
    then have "(1 :: rat) \<le> of_nat ?n" using n by (metis of_nat_1 of_nat_le_iff)
    then have "p2 (- 30) \<le> of_nat ?n / 1000000000" by (simp add: p2_def)
    then have "rnd B64 (p2 (- 30)) \<le> frac_secs ?n" unfolding frac_secs_def by (rule rnd_mono)
    moreover have "rnd B64 (of_int 1 * p2 (- 30)) = of_int 1 * p2 (- 30)" by (rule rnd_exact) auto
    ultimately show ?thesis by (simp add: p2_def)
  qed (simp add: frac_secs_def)
  have y0: "0 \<le> ?y" using fr0 by simp
  have "(of_int (int ?s) :: rat) \<le> of_int (2 ^ 51 - 1)" using sl by (simp only: of_int_le_iff)
  then have y1: "?y \<le> of_int (2 ^ 51)" using fr0 by simp
  have fin: "as_secs_f64 d = Fin (rnd B64 ?y)"
    unfolding eq using y0 y1 by (intro fround_to_small(1) [of _ "2 ^ 51"]) auto
  have ylo: "?y = 0 \<or> 1 / 2 ^ 30 \<le> ?y"
    using fr1 fr0 by (cases "?s = 0") (auto intro: order_trans [of _ 1])
  have "p2 (- 1022) \<le> p2 (- 30)" by simp
  then have tiny: "p2 (- 1022) \<le> 1 / 2 ^ 30" by (simp add: p2_def)
  have yle: "?y \<le> of_nat d / 1000000000 * (1 + 1 / 2 ^ 52)"
    using fr unfolding d by (simp add: field_simps)
  have "rnd B64 ?y \<le> ?y * (1 + 1 / 2 ^ 52)"
    using rnd_relative [OF y0] ylo tiny by linarith
  also have "\<dots> \<le> of_nat d / 1000000000 * (1 + 1 / 2 ^ 52) * (1 + 1 / 2 ^ 52)"
    using yle by (rule mult_right_mono) simp
  also have "\<dots> \<le> of_nat d / 1000000000 * (1 + 1 / 2 ^ 50)"
    unfolding mult.assoc by (rule mult_left_mono) simp_all
  finally have up: "rnd B64 ?y \<le> of_nat d / 1000000000 * (1 + 1 / 2 ^ 50)" .
  have "rnd B64 ?y \<le> of_int (2 ^ 51)" using y1 by (rule rnd_le_int) simp
  moreover have "rnd B64 ?y = 0 \<or> 1 / 2 ^ 30 \<le> rnd B64 ?y"
  proof (cases "?y = 0")
    case False
    then have "p2 (- 30) \<le> ?y" using ylo by (simp add: p2_def)
    then have "rnd B64 (of_int 1 * p2 (- 30)) \<le> rnd B64 ?y" using rnd_mono by simp
    moreover have "rnd B64 (of_int 1 * p2 (- 30)) = of_int 1 * p2 (- 30)" by (rule rnd_exact) auto
    ultimately show ?thesis by (simp add: p2_def)
  qed simp
  ultimately show ?thesis using fin up rnd_nonneg [OF y0, of B64] by auto
qed

lemma refill_level:
  assumes L: "rnd B64 L = L" "0 \<le> L" "L \<le> 2 ^ 40" and B: "rnd B64 B = B" "0 < B" "B \<le> 2 ^ 40"
    and b: "1 / 2 ^ 10 \<le> b" "b \<le> 2 ^ 40" and d: "d < 2 ^ 80"
  shows "\<exists>L'. fmin (fadd B64 (Fin L) (fmul B64 (Fin b) (as_secs_f64 d))) (Fin B) = Fin L'
    \<and> rnd B64 L' = L' \<and> 0 \<le> L' \<and> L' \<le> B
    \<and> L' \<le> L + b * (1 + 1 / 2 ^ 48) / 1000000000 * of_nat d + B / 2 ^ 52"
proof -
  obtain s where s: "as_secs_f64 d = Fin s" "0 \<le> s" "s \<le> of_nat d / 1000000000 * (1 + 1 / 2 ^ 50)"
    "s \<le> 2 ^ 51" "s = 0 \<or> 1 / 2 ^ 30 \<le> s" using as_secs_bounds [OF d] by blast
  let ?R = "rnd B64 (b * s)"
  have "1 / 2 ^ 10 * (1 / 2 ^ 30) \<le> b * s" if "1 / 2 ^ 30 \<le> s" using that b by (intro mult_mono) auto
  then have bs: "b * s = 0 \<or> 1 / 2 ^ 40 \<le> b * s" using s(5) by auto
  have bs0: "0 \<le> b * s" using b(1) s(2) by (intro mult_nonneg_nonneg) (simp_all add: order_trans [of 0 "1 / 2 ^ 10"])
  have bs1: "b * s \<le> 2 ^ 91" using mult_mono [OF b(2) s(4)] s(2) by simp
  have "p2 (- 1022) \<le> p2 (- 40)" by simp
  then have tiny: "p2 (- 1022) \<le> 1 / 2 ^ 40" by (simp add: p2_def)
  have R: "?R \<le> b * s * (1 + 1 / 2 ^ 52)" using rnd_relative [OF bs0] bs tiny by linarith
  have R0: "0 \<le> ?R" using bs0 by (rule rnd_nonneg)
  have big: "(2 ^ 100 :: rat) < p2 (qmax B64 + int (prec B64))" by (simp add: p2_def)
  have "b * s * (1 + 1 / 2 ^ 52) \<le> 2 ^ 91 * (1 + 1 / 2 ^ 52)" using bs1 by (rule mult_right_mono) simp
  then have R1: "?R \<le> 2 ^ 92" using R by simp
  then have fm: "fmul B64 (Fin b) (as_secs_f64 d) = Fin ?R"
    unfolding s(1) fmul.simps using R0 big by (intro fround_to_rnd) auto
  let ?y = "L + ?R"
  have y0: "0 \<le> ?y" using L R0 by simp
  have yt: "?R = 0 \<or> p2 (- 1022) \<le> ?y"
  proof (cases "b * s = 0")
    case False
    then have "p2 (- 40) \<le> b * s" using bs by (simp add: p2_def)
    then have "rnd B64 (of_int 1 * p2 (- 40)) \<le> ?R" using rnd_mono by simp
    moreover have "rnd B64 (of_int 1 * p2 (- 40)) = of_int 1 * p2 (- 40)" by (rule rnd_exact) auto
    ultimately have "p2 (- 40) \<le> ?R" by simp
    with \<open>p2 (- 1022) \<le> p2 (- 40)\<close> L(2) show ?thesis by linarith
  next
    case True
    then show ?thesis by (simp only: rnd_0) simp
  qed
  have ry: "rnd B64 ?y \<le> ?y * (1 + 1 / 2 ^ 52)"
  proof (cases "?R = 0")
    case True
    have "L * 1 \<le> L * (1 + 1 / 2 ^ 52)" using L(2) by (intro mult_left_mono) auto
    then show ?thesis using True L(1) by simp
  qed (use yt rnd_relative [OF y0] in auto)
  have "?y * (1 + 1 / 2 ^ 52) \<le> (2 ^ 93) * (1 + 1 / 2 ^ 52)"
    using L(3) R1 by (intro mult_right_mono) auto
  then have "rnd B64 ?y \<le> 2 ^ 94" using ry by simp
  then have fa: "fadd B64 (Fin L) (Fin ?R) = Fin (rnd B64 ?y)"
    unfolding fadd.simps using rnd_nonneg [OF y0, of B64] big by (intro fround_to_rnd) auto
  let ?L = "min (rnd B64 ?y) B"
  have grow: "?L \<le> ?y + B / 2 ^ 52"
  proof (cases "?y \<le> B")
    case True
    then have "?y / 2 ^ 52 \<le> B / 2 ^ 52" by (simp add: divide_right_mono)
    then show ?thesis using ry by (simp add: algebra_simps min_le_iff_disj)
  next
    case False
    moreover have "0 \<le> B / 2 ^ 52" using B by simp
    ultimately show ?thesis by linarith
  qed
  have "b * s \<le> b * (of_nat d / 1000000000 * (1 + 1 / 2 ^ 50))"
    using b(1) by (intro mult_left_mono s(3)) (simp add: order_trans [of 0 "1 / 2 ^ 10"])
  then have "b * s * (1 + 1 / 2 ^ 52) \<le> b * (of_nat d / 1000000000 * (1 + 1 / 2 ^ 50)) * (1 + 1 / 2 ^ 52)"
    by (rule mult_right_mono) simp
  also have "\<dots> = (b * of_nat d / 1000000000) * ((1 + 1 / 2 ^ 50) * (1 + 1 / 2 ^ 52))" by simp
  also have "\<dots> \<le> (b * of_nat d / 1000000000) * (1 + 1 / 2 ^ 48)"
    using b(1) by (intro mult_left_mono) (simp_all add: order_trans [of 0 "1 / 2 ^ 10"])
  finally have Rle: "?R \<le> b * (1 + 1 / 2 ^ 48) / 1000000000 * of_nat d"
    using R by (simp add: mult.commute mult.left_commute)
  have "?L \<le> L + b * (1 + 1 / 2 ^ 48) / 1000000000 * of_nat d + B / 2 ^ 52"
    using grow Rle by linarith
  moreover have "rnd B64 ?L = ?L" using B(1) rnd_idem [OF y0] by (simp add: min_def)
  moreover have "0 \<le> ?L" using rnd_nonneg [OF y0, of B64] B by simp
  moreover have "?L \<le> B" by simp
  ultimately show ?thesis unfolding fm fa fmin_Fin by blast
qed

text \<open>The bucket's contract.\<close>

locale token_bucket =
  fixes room :: "'s \<Rightarrow> instant \<Rightarrow> nat \<Rightarrow> 's \<times> bool" and spend :: "'s \<Rightarrow> nat \<Rightarrow> 's"
    and ok :: "'s \<Rightarrow> bool" and level burst rate :: "'s \<Rightarrow> rat" and since :: "'s \<Rightarrow> instant"
  assumes nonneg: "ok s \<Longrightarrow> 0 \<le> level s \<and> 0 \<le> rate s \<and> 0 \<le> burst s"
    and room_ok: "ok s \<Longrightarrow> since s \<le> t \<Longrightarrow> t < 2 ^ 80 \<Longrightarrow>
      ok (fst (room s t n)) \<and> since (fst (room s t n)) = t \<and> burst (fst (room s t n)) = burst s
      \<and> rate (fst (room s t n)) = rate s"
    and room_level: "ok s \<Longrightarrow> since s \<le> t \<Longrightarrow> t < 2 ^ 80 \<Longrightarrow>
      level (fst (room s t n)) \<le> level s + rate s * of_nat (t - since s) + burst s / 2 ^ 52"
    and room_burst: "ok s \<Longrightarrow> since s \<le> t \<Longrightarrow> t < 2 ^ 80 \<Longrightarrow> level (fst (room s t n)) \<le> burst s"
    and room_iff: "ok s \<Longrightarrow> since s \<le> t \<Longrightarrow> t < 2 ^ 80 \<Longrightarrow>
      snd (room s t n) \<longleftrightarrow> of_nat n \<le> level (fst (room s t n))"
    and spend: "ok s \<Longrightarrow> of_nat n \<le> level s \<Longrightarrow>
      ok (spend s n) \<and> level (spend s n) = level s - of_nat n \<and> since (spend s n) = since s
      \<and> burst (spend s n) = burst s \<and> rate (spend s n) = rate s"

text \<open>The bytes a sender admits: before each item it checks for room for an upper bound \<open>n\<close> of its
  size, and charges its actual size \<open>m\<close>.\<close>

fun bucket_run ::
  "('s \<Rightarrow> instant \<Rightarrow> nat \<Rightarrow> 's \<times> bool) \<Rightarrow> ('s \<Rightarrow> nat \<Rightarrow> 's) \<Rightarrow> 's \<Rightarrow> (instant \<times> nat \<times> nat) list \<Rightarrow> 's \<times> nat" where
  "bucket_run room spend s [] = (s, 0)"
| "bucket_run room spend s ((t, n, m) # os) =
     (let (s', fits) = room s t n
      in if fits then let (s'', k) = bucket_run room spend (spend s' m) os in (s'', m + k)
         else bucket_run room spend s' os)"

definition offers :: "instant \<Rightarrow> instant \<Rightarrow> (instant \<times> nat \<times> nat) list \<Rightarrow> bool" where
  "offers t0 t1 os \<longleftrightarrow> sorted (t0 # List.map fst os @ [t1]) \<and> t1 < 2 ^ 80 \<and> list_all (\<lambda>(t, n, m). m \<le> n) os"

lemma offers_simps:
  "offers t0 t1 [] \<longleftrightarrow> t0 \<le> t1 \<and> t1 < 2 ^ 80"
  "offers t0 t1 ((t, n, m) # os) \<longleftrightarrow> t0 \<le> t \<and> m \<le> n \<and> offers t t1 os"
  by (auto simp: offers_def)

lemma offers_less: "offers t0 t1 os \<Longrightarrow> t0 < 2 ^ 80"
  by (auto simp: offers_def)

context token_bucket
begin

lemma admitted_le:
  "ok s \<Longrightarrow> offers (since s) t1 os \<Longrightarrow>
    of_nat (snd (bucket_run room spend s os)) \<le>
      level s + rate s * of_nat (t1 - since s) + of_nat (length os) * (burst s / 2 ^ 52)"
proof (induction os arbitrary: s)
  case Nil
  then show ?case using nonneg [of s] by simp
next
  case (Cons offer os)
  obtain t n m where offer: "offer = (t, n, m)" by (cases offer)
  obtain s' fits where rm: "room s t n = (s', fits)" by (cases "room s t n")
  have t: "since s \<le> t" "m \<le> n" "offers t t1 os" using Cons.prems(2) by (simp_all add: offer offers_simps)
  have t1: "t < 2 ^ 80" "t \<le> t1" using offers_less [OF t(3)] t(3) by (auto simp: offers_def)
  note at_t = Cons.prems(1) t(1) t1(1)
  have s': "ok s'" "since s' = t" "burst s' = burst s" "rate s' = rate s"
    "level s' \<le> level s + rate s * of_nat (t - since s) + burst s / 2 ^ 52" "fits \<longleftrightarrow> of_nat n \<le> level s'"
    using room_ok [OF at_t, of n] room_level [OF at_t, of n] room_iff [OF at_t, of n] by (auto simp: rm)
  have split: "(of_nat (t1 - since s) :: rat) = of_nat (t - since s) + of_nat (t1 - t)"
    using t(1) t1(2) by (simp flip: of_nat_add)
  show ?case
  proof (cases fits)
    case True
    have "(of_nat m :: rat) \<le> of_nat n" using t(2) by simp
    then have m: "of_nat m \<le> level s'" using s'(6) True by linarith
    note sp = spend [OF s'(1) m]
    have "of_nat (snd (bucket_run room spend (spend s' m) os)) \<le>
      level s' - of_nat m + rate s * of_nat (t1 - t) + of_nat (length os) * (burst s / 2 ^ 52)"
      using Cons.IH [of "spend s' m"] sp t(3) s' by simp
    with s'(5) show ?thesis using True
      by (simp add: offer rm split case_prod_beta distrib_left distrib_right add_divide_distrib)
  next
    case False
    have "of_nat (snd (bucket_run room spend s' os)) \<le>
      level s' + rate s * of_nat (t1 - t) + of_nat (length os) * (burst s / 2 ^ 52)"
      using Cons.IH [of s'] t(3) s' by simp
    with s'(5) show ?thesis using False
      by (simp add: offer rm split distrib_left distrib_right add_divide_distrib)
  qed
qed

end

section \<open>Both buckets\<close>

definition cap_room :: "RateCap \<Rightarrow> instant \<Rightarrow> nat \<Rightarrow> RateCap \<times> bool" where
  "cap_room c now n = (let (c', k) = cap_available c now in (c', n \<le> k))"

fun fval :: "fl \<Rightarrow> rat" where
  "fval (Fin x) = x"
| "fval _ = 0"

definition is_float :: "fl \<Rightarrow> bool" where
  "is_float a \<longleftrightarrow> a = Fin (fval a) \<and> rnd B64 (fval a) = fval a \<and> 0 \<le> fval a \<and> fval a \<le> 2 ^ 40"

definition cap_ok :: "RateCap \<Rightarrow> bool" where
  "cap_ok c \<longleftrightarrow> is_float (cap_tokens c) \<and> is_float (cap_burst c) \<and> 0 < fval (cap_burst c)
     \<and> is_float (cap_bytes_per_sec c) \<and> 1 / 2 ^ 10 \<le> fval (cap_bytes_per_sec c)"

definition per_ns :: "fl \<Rightarrow> rat" where
  "per_ns bytes_per_sec = fval bytes_per_sec * (1 + 1 / 2 ^ 48) / 1000000000"

definition rate_bytes :: "LossyRateControl \<Rightarrow> fl" where
  "rate_bytes c = fdiv B64 (rc_rate_bps c) (Fin 8)"

definition lossy_ok :: "LossyRateControl \<Rightarrow> bool" where
  "lossy_ok c \<longleftrightarrow> is_float (rc_tokens c) \<and> is_float (rate_capacity c) \<and> 0 < fval (rate_capacity c)
     \<and> is_float (rate_bytes c) \<and> 1 / 2 ^ 10 \<le> fval (rate_bytes c)"

lemma is_float_Fin: "is_float (Fin x) \<longleftrightarrow> rnd B64 x = x \<and> 0 \<le> x \<and> x \<le> 2 ^ 40"
  by (simp add: is_float_def)

lemma is_floatE: "is_float a \<Longrightarrow> (\<And>x. a = Fin x \<Longrightarrow> rnd B64 x = x \<Longrightarrow> 0 \<le> x \<Longrightarrow> x \<le> 2 ^ 40 \<Longrightarrow> P) \<Longrightarrow> P"
  by (auto simp: is_float_def)

lemma refill_float:
  assumes "is_float L" "is_float B" "0 < fval B" "is_float b" "1 / 2 ^ 10 \<le> fval b" "d < 2 ^ 80"
  shows "is_float (fmin (fadd B64 L (fmul B64 b (as_secs_f64 d))) B)
    \<and> fval (fmin (fadd B64 L (fmul B64 b (as_secs_f64 d))) B) \<le> fval B
    \<and> fval (fmin (fadd B64 L (fmul B64 b (as_secs_f64 d))) B) \<le> fval L + per_ns b * of_nat d + fval B / 2 ^ 52"
proof -
  obtain l bb r where e: "L = Fin l" "B = Fin bb" "b = Fin r" using assms(1,2,4) by (auto elim!: is_floatE)
  have "\<exists>L'. fmin (fadd B64 (Fin l) (fmul B64 (Fin r) (as_secs_f64 d))) (Fin bb) = Fin L'
    \<and> rnd B64 L' = L' \<and> 0 \<le> L' \<and> L' \<le> bb
    \<and> L' \<le> l + r * (1 + 1 / 2 ^ 48) / 1000000000 * of_nat d + bb / 2 ^ 52"
    by (rule refill_level) (use assms e in \<open>auto simp: is_float_Fin\<close>)
  then obtain L' where L': "fmin (fadd B64 (Fin l) (fmul B64 (Fin r) (as_secs_f64 d))) (Fin bb) = Fin L'"
    "rnd B64 L' = L'" "0 \<le> L'" "L' \<le> bb"
    "L' \<le> l + r * (1 + 1 / 2 ^ 48) / 1000000000 * of_nat d + bb / 2 ^ 52" by blast
  have "L' \<le> 2 ^ 40" using L'(4) assms(2) by (simp add: e is_float_Fin)
  with L' show ?thesis unfolding e L'(1) by (simp add: is_float_Fin per_ns_def)
qed

lemma spend_float:
  assumes "is_float L" "of_nat n \<le> fval L"
  shows "is_float (fsub B64 L (fof_int B64 (int n))) \<and> fval (fsub B64 L (fof_int B64 (int n))) = fval L - of_nat n"
proof -
  obtain l where l: "L = Fin l" "rnd B64 l = l" "0 \<le> l" "l \<le> 2 ^ 40" using assms(1) by (rule is_floatE)
  have "l < 2 ^ 53" using l(4) by (rule le_less_trans) simp
  from fsub_exact [OF l(2) _ this, of n] assms(2) l show ?thesis
    by (auto simp: is_float_Fin intro: order_trans [of _ l])
qed

lemma fmul_commute: "fmul f a b = fmul f b a"
  by (cases a; cases b) (auto simp: mult.commute)

interpretation cap: token_bucket cap_room cap_consume cap_ok "\<lambda>c. fval (cap_tokens c)"
  "\<lambda>c. fval (cap_burst c)" "\<lambda>c. per_ns (cap_bytes_per_sec c)" cap_last
proof
  fix c :: RateCap and t n
  assume ok: "cap_ok c" and t: "cap_last c \<le> t" "t < 2 ^ 80"
  have d: "t - cap_last c < 2 ^ 80" using t by linarith
  have lv: "is_float (fmin (fadd B64 (cap_tokens c) (fmul B64 (cap_bytes_per_sec c) (as_secs_f64 (t - cap_last c)))) (cap_burst c))
    \<and> fval (fmin (fadd B64 (cap_tokens c) (fmul B64 (cap_bytes_per_sec c) (as_secs_f64 (t - cap_last c)))) (cap_burst c)) \<le> fval (cap_burst c)
    \<and> fval (fmin (fadd B64 (cap_tokens c) (fmul B64 (cap_bytes_per_sec c) (as_secs_f64 (t - cap_last c)))) (cap_burst c))
       \<le> fval (cap_tokens c) + per_ns (cap_bytes_per_sec c) * of_nat (t - cap_last c) + fval (cap_burst c) / 2 ^ 52"
    by (rule refill_float) (use ok d in \<open>auto simp: cap_ok_def\<close>)
  have st: "fst (cap_room c t n) = cap_refill c t"
    by (simp add: cap_room_def cap_available_def Let_def)
  have rf: "cap_tokens (cap_refill c t) = fmin (fadd B64 (cap_tokens c) (fmul B64 (cap_bytes_per_sec c) (as_secs_f64 (t - cap_last c)))) (cap_burst c)"
    by (simp add: cap_refill_def duration_since_def fmul_commute)
  have same: "cap_burst (cap_refill c t) = cap_burst c" "cap_bytes_per_sec (cap_refill c t) = cap_bytes_per_sec c"
    "cap_last (cap_refill c t) = t" by (simp_all add: cap_refill_def)
  show "cap_ok (fst (cap_room c t n)) \<and> cap_last (fst (cap_room c t n)) = t
    \<and> fval (cap_burst (fst (cap_room c t n))) = fval (cap_burst c)
    \<and> per_ns (cap_bytes_per_sec (fst (cap_room c t n))) = per_ns (cap_bytes_per_sec c)"
    using ok lv by (simp add: st same cap_ok_def rf)
  show "fval (cap_tokens (fst (cap_room c t n))) \<le> fval (cap_tokens c)
      + per_ns (cap_bytes_per_sec c) * of_nat (t - cap_last c) + fval (cap_burst c) / 2 ^ 52"
    using lv by (simp add: st rf)
  show "fval (cap_tokens (fst (cap_room c t n))) \<le> fval (cap_burst c)" using lv by (simp add: st rf)
  have "is_float (cap_tokens (cap_refill c t))" using lv by (simp add: rf)
  then obtain l where l: "cap_tokens (cap_refill c t) = Fin l" "0 \<le> l" "l \<le> 2 ^ 40" by (rule is_floatE)
  then show "snd (cap_room c t n) \<longleftrightarrow> of_nat n \<le> fval (cap_tokens (fst (cap_room c t n)))"
    using f64_as_usize_iff [of l n] unfolding st
    by (simp add: cap_room_def cap_available_def Let_def le_less_trans)
next
  fix c :: RateCap and n
  assume ok: "cap_ok c"
  then show "0 \<le> fval (cap_tokens c) \<and> 0 \<le> per_ns (cap_bytes_per_sec c) \<and> 0 \<le> fval (cap_burst c)"
    by (simp add: cap_ok_def is_float_def per_ns_def)
  assume "of_nat n \<le> fval (cap_tokens c)"
  with ok spend_float [of "cap_tokens c" n]
  show "cap_ok (cap_consume c n) \<and> fval (cap_tokens (cap_consume c n)) = fval (cap_tokens c) - of_nat n
    \<and> cap_last (cap_consume c n) = cap_last c \<and> fval (cap_burst (cap_consume c n)) = fval (cap_burst c)
    \<and> per_ns (cap_bytes_per_sec (cap_consume c n)) = per_ns (cap_bytes_per_sec c)"
    by (simp add: cap_ok_def cap_consume_def)
qed

interpretation lossy: token_bucket has_room rate_consume lossy_ok "\<lambda>c. fval (rc_tokens c)"
  "\<lambda>c. fval (rate_capacity c)" "\<lambda>c. per_ns (rate_bytes c)" rc_last_refill
proof
  fix c :: LossyRateControl and t n
  assume ok: "lossy_ok c" and t: "rc_last_refill c \<le> t" "t < 2 ^ 80"
  have d: "t - rc_last_refill c < 2 ^ 80" using t by linarith
  have st: "fst (has_room c t n) = rate_refill c t" by (simp add: has_room_def Let_def)
  let ?L = "fmin (fadd B64 (rc_tokens c) (fmul B64 (rate_bytes c) (as_secs_f64 (t - rc_last_refill c)))) (rate_capacity c)"
  have lv: "is_float ?L \<and> fval ?L \<le> fval (rate_capacity c)
    \<and> fval ?L \<le> fval (rc_tokens c) + per_ns (rate_bytes c) * of_nat (t - rc_last_refill c) + fval (rate_capacity c) / 2 ^ 52"
    by (rule refill_float) (use ok d in \<open>auto simp: lossy_ok_def\<close>)
  have rf: "rc_tokens (rate_refill c t) = ?L"
    by (simp add: rate_refill_def duration_since_def rate_bytes_def)
  have same: "rate_capacity (rate_refill c t) = rate_capacity c" "rate_bytes (rate_refill c t) = rate_bytes c"
    "rc_last_refill (rate_refill c t) = t" by (simp_all add: rate_refill_def rate_capacity_def rate_bytes_def)
  show "lossy_ok (fst (has_room c t n)) \<and> rc_last_refill (fst (has_room c t n)) = t
    \<and> fval (rate_capacity (fst (has_room c t n))) = fval (rate_capacity c)
    \<and> per_ns (rate_bytes (fst (has_room c t n))) = per_ns (rate_bytes c)"
    using ok lv by (simp add: st same lossy_ok_def rf)
  show "fval (rc_tokens (fst (has_room c t n))) \<le> fval (rc_tokens c)
      + per_ns (rate_bytes c) * of_nat (t - rc_last_refill c) + fval (rate_capacity c) / 2 ^ 52"
    using lv by (simp add: st rf)
  show "fval (rc_tokens (fst (has_room c t n))) \<le> fval (rate_capacity c)" using lv by (simp add: st rf)
  have "is_float (rc_tokens (rate_refill c t))" using lv by (simp add: rf)
  then obtain l where l: "rc_tokens (rate_refill c t) = Fin l" "0 \<le> l" "l \<le> 2 ^ 40" "rnd B64 l = l" by (rule is_floatE)
  have "fge (Fin l) (fof_int B64 (int n)) \<longleftrightarrow> of_nat n \<le> l"
  proof (cases "n \<le> 2 ^ 53")
    case True
    then have "int n \<le> int (2 ^ 53)" by (simp only: of_nat_le_iff)
    then show ?thesis using fround_to_of_int [of "int n" B64] by (simp add: fof_int_def)
  next
    case False
    then have "(2 ^ 53 :: rat) \<le> of_nat n" by (metis nat_le_linear of_nat_le_iff of_nat_numeral of_nat_power)
    moreover from this have "fle (fround_to B64 (of_int (2 ^ 53))) (fof_int B64 (int n))"
      unfolding fof_int_def by (intro fround_to_mono) simp
    then have "fle (Fin (2 ^ 53)) (fof_int B64 (int n))" using fround_to_of_int [of "2 ^ 53" B64] by simp
    moreover have "l < 2 ^ 53" using l(3) by (rule le_less_trans) simp
    ultimately show ?thesis by (cases "fof_int B64 (int n)") (auto simp: fge_def)
  qed
  then show "snd (has_room c t n) \<longleftrightarrow> of_nat n \<le> fval (rc_tokens (fst (has_room c t n)))"
    unfolding st by (simp add: has_room_def Let_def l(1))
next
  fix c :: LossyRateControl and n
  assume ok: "lossy_ok c"
  then show "0 \<le> fval (rc_tokens c) \<and> 0 \<le> per_ns (rate_bytes c) \<and> 0 \<le> fval (rate_capacity c)"
    by (simp add: lossy_ok_def is_float_def per_ns_def)
  assume "of_nat n \<le> fval (rc_tokens c)"
  with ok spend_float [of "rc_tokens c" n]
  show "lossy_ok (rate_consume c n) \<and> fval (rc_tokens (rate_consume c n)) = fval (rc_tokens c) - of_nat n
    \<and> rc_last_refill (rate_consume c n) = rc_last_refill c \<and> fval (rate_capacity (rate_consume c n)) = fval (rate_capacity c)
    \<and> per_ns (rate_bytes (rate_consume c n)) = per_ns (rate_bytes c)"
    by (simp add: lossy_ok_def rate_consume_def rate_capacity_def rate_bytes_def)
qed

text \<open>What the two configurations give.\<close>

lemma fround_near:
  assumes "p2 (- 1022) \<le> x" and "x \<le> 2 ^ 52"
  shows "\<exists>y. fround_to B64 x = Fin y \<and> rnd B64 y = y \<and> 0 \<le> y \<and> y \<le> x * (1 + 1 / 2 ^ 52)"
proof -
  have x: "0 \<le> x" using assms(1) p2_pos [of "- 1022"] by linarith
  then have "fround_to B64 x = Fin (rnd B64 x)"
    using assms(2) by (intro fround_to_small(1) [of _ "2 ^ 52"]) auto
  with rnd_relative [OF x] assms(1) rnd_idem [OF x] rnd_nonneg [OF x] show ?thesis by blast
qed

lemma fround_ge_int: "of_int n \<le> x \<Longrightarrow> \<bar>n\<bar> \<le> 2 ^ 53 \<Longrightarrow> fround_to B64 x = Fin y \<Longrightarrow> of_int n \<le> y"
  using fround_to_mono [of "of_int n" x B64] fround_to_of_int [of n B64] by simp

lemma tiny: "p2 (- 1022) \<le> 1 / 2 ^ 20"
proof -
  have "p2 (- 1022) \<le> p2 (- 20)" by simp
  then show ?thesis by (simp add: p2_def)
qed

lemma burst_near:
  assumes "fof = Fin v" "v \<le> w * (1 + 1 / 2 ^ 50)" "1 / 2 ^ 10 \<le> v" "v \<le> 1" "0 \<le> w"
    and "rnd B64 b = b" "1 / 2 ^ 10 \<le> b" "b \<le> r * (1 + 1 / 2 ^ 50)" "b \<le> 2 ^ 38" "0 \<le> r"
    and "k = of_int kk" "0 < kk" "kk \<le> 10000"
  shows "is_float (fmax (fmul B64 (Fin b) fof) (Fin k)) \<and> 0 < fval (fmax (fmul B64 (Fin b) fof) (Fin k))
    \<and> fval (fmax (fmul B64 (Fin b) fof) (Fin k)) \<le> max k (r * w) * (1 + 1 / 2 ^ 48)
    \<and> k \<le> fval (fmax (fmul B64 (Fin b) fof) (Fin k))"
proof -
  have "1 / 2 ^ 10 * (1 / 2 ^ 10) \<le> b * v" using assms by (intro mult_mono) auto
  then have lo: "p2 (- 1022) \<le> b * v" using tiny by simp
  have b0: "0 \<le> b" using assms(7) by (simp add: order_trans [of 0 "1 / 2 ^ 10"])
  have hi: "b * v \<le> 2 ^ 38 * 1" using assms b0 by (intro mult_mono) auto
  then have "b * v \<le> 2 ^ 52" by simp
  from fround_near [OF lo this] obtain y where y: "fround_to B64 (b * v) = Fin y" "rnd B64 y = y" "0 \<le> y"
    "y \<le> b * v * (1 + 1 / 2 ^ 52)" by blast
  have v0: "0 \<le> v" using assms(3) by (simp add: order_trans [of 0 "1 / 2 ^ 10"])
  have "b * v \<le> (r * (1 + 1 / 2 ^ 50)) * (w * (1 + 1 / 2 ^ 50))"
    using assms b0 v0 by (intro mult_mono) auto
  then have "b * v * (1 + 1 / 2 ^ 52) \<le> (r * (1 + 1 / 2 ^ 50)) * (w * (1 + 1 / 2 ^ 50)) * (1 + 1 / 2 ^ 52)"
    by (rule mult_right_mono) simp
  also have "\<dots> = (r * w) * ((1 + 1 / 2 ^ 50) * (1 + 1 / 2 ^ 50) * (1 + 1 / 2 ^ 52))" by simp
  also have "\<dots> \<le> (r * w) * (1 + 1 / 2 ^ 48)" using assms by (intro mult_left_mono) auto
  finally have yu: "y \<le> (r * w) * (1 + 1 / 2 ^ 48)" using y(4) by linarith
  also have "\<dots> \<le> max k (r * w) * (1 + 1 / 2 ^ 48)" by (rule mult_right_mono) auto
  finally have y1: "y \<le> max k (r * w) * (1 + 1 / 2 ^ 48)" .
  have k0: "0 < k" "k \<le> 10000" using assms(11-13) by auto
  have "k * 1 \<le> max k (r * w) * (1 + 1 / 2 ^ 48)" using k0 by (intro mult_mono) auto
  then have k1: "k \<le> max k (r * w) * (1 + 1 / 2 ^ 48)" by simp
  have "b * v * (1 + 1 / 2 ^ 52) \<le> 2 ^ 38 * (1 + 1 / 2 ^ 52)" using hi by (intro mult_right_mono) auto
  then have y2: "y \<le> 2 ^ 40" using y(4) by simp
  have "rnd B64 k = k" unfolding assms(11) using assms(12,13) by (intro rnd_of_int) auto
  then show ?thesis using y k0 y1 k1 y2
    by (simp add: assms(1) is_float_Fin max_def)
qed

lemma BURST_secs: "as_secs_f64 BURST = Fin (3602879701896397 / 144115188075855872)"
  by code_simp

lemma CAP_BURST_secs: "as_secs_f64 CAP_BURST = Fin (3602879701896397 / 72057594037927936)"
  by code_simp

lemma bytes_near:
  assumes "1 / 2 ^ 8 \<le> x" and "x \<le> 2 ^ 37"
  shows "\<exists>b. fround_to B64 x = Fin b \<and> rnd B64 b = b \<and> 1 / 2 ^ 10 \<le> b \<and> b \<le> 2 ^ 38
    \<and> b \<le> x * (1 + 1 / 2 ^ 52)"
proof -
  have "p2 (- 1022) \<le> x" using tiny assms(1) by simp
  moreover have "x \<le> 2 ^ 52" using assms(2) by simp
  ultimately obtain b where b: "fround_to B64 x = Fin b" "rnd B64 b = b" "b \<le> x * (1 + 1 / 2 ^ 52)"
    using fround_near by blast
  have "x * (1 + 1 / 2 ^ 52) \<le> 2 ^ 37 * (1 + 1 / 2 ^ 52)" using assms(2) by (intro mult_right_mono) auto
  then have up: "b \<le> 2 ^ 38" using b(3) by simp
  have "p2 (- 8) \<le> x" using assms(1) by (simp add: p2_def)
  then have "fle (fround_to B64 (p2 (- 8))) (fround_to B64 x)" by (rule fround_to_mono)
  moreover have "fround_to B64 (p2 (- 8)) = Fin (p2 (- 8))"
    using rnd_exact [of 1 B64 "- 8"] fround_to_small(1) [of "p2 (- 8)" 1 B64] by (simp add: p2_def)
  ultimately have "1 / 2 ^ 10 \<le> b" using b(1) by (simp add: p2_def)
  with b up show ?thesis by blast
qed

lemma conform:
  assumes "T \<le> L + rr * (1 + 1 / 2 ^ 48) / 1000000000 * d + k * (B / 2 ^ 52)"
    and "L \<le> B" "B \<le> bb * (1 + 1 / 2 ^ 48)" "rr \<le> r * (1 + 1 / 2 ^ 50)"
    and "0 \<le> r" "0 \<le> bb" "0 \<le> d" "(0 :: rat) \<le> k"
  shows "T \<le> (bb * (1 + k / 2 ^ 52) + r * d / 1000000000) * (1 + 1 / 2 ^ 40)"
proof -
  have "L + k * (B / 2 ^ 52) \<le> B * (1 + k / 2 ^ 52)" using assms(2) by (simp add: field_simps)
  also have "\<dots> \<le> bb * (1 + 1 / 2 ^ 48) * (1 + k / 2 ^ 52)" using assms by (intro mult_right_mono) auto
  also have "\<dots> = bb * (1 + k / 2 ^ 52) * (1 + 1 / 2 ^ 48)" by simp
  also have "\<dots> \<le> bb * (1 + k / 2 ^ 52) * (1 + 1 / 2 ^ 40)" using assms by (intro mult_left_mono) auto
  finally have one: "L + k * (B / 2 ^ 52) \<le> bb * (1 + k / 2 ^ 52) * (1 + 1 / 2 ^ 40)" .
  have "rr * (1 + 1 / 2 ^ 48) / 1000000000 * d \<le> r * (1 + 1 / 2 ^ 50) * (1 + 1 / 2 ^ 48) / 1000000000 * d"
    using assms by (intro mult_right_mono divide_right_mono) auto
  also have "\<dots> = r * d / 1000000000 * ((1 + 1 / 2 ^ 50) * (1 + 1 / 2 ^ 48))" by simp
  also have "\<dots> \<le> r * d / 1000000000 * (1 + 1 / 2 ^ 40)" using assms by (intro mult_left_mono) auto
  finally have "rr * (1 + 1 / 2 ^ 48) / 1000000000 * d \<le> r * d / 1000000000 * (1 + 1 / 2 ^ 40)" .
  with one assms(1) show ?thesis unfolding distrib_right by linarith
qed

lemma cap_new_facts:
  assumes "cap_new (Fin x) t0 = Some c" and "1 / 100 \<le> x" and "x \<le> 100000"
  shows "cap_ok c \<and> cap_last c = t0 \<and> cap_tokens c = cap_burst c
    \<and> fval (cap_burst c) \<le> max 1500 (6250 * x) * (1 + 1 / 2 ^ 48)
    \<and> fval (cap_bytes_per_sec c) \<le> 125000 * x * (1 + 1 / 2 ^ 50)"
proof -
  have "1 / 2 ^ 8 \<le> x * 1000000" "x * 1000000 \<le> 2 ^ 37" using assms by auto
  from bytes_near [OF this] obtain a where a: "fround_to B64 (x * 1000000) = Fin a" "a \<le> x * 1000000 * (1 + 1 / 2 ^ 52)"
    by blast
  have a1: "10000 \<le> a" using fround_ge_int [OF _ _ a(1), of 10000] assms(2) by simp
  have "x * 1000000 * (1 + 1 / 2 ^ 52) \<le> 100000000000 * (1 + 1 / 2 ^ 52)" using assms by (intro mult_right_mono) auto
  then have a2: "a \<le> 2 ^ 37" using a(2) by simp
  have "1 / 2 ^ 8 \<le> a / 8" "a / 8 \<le> 2 ^ 37" using a1 a2 by auto
  from bytes_near [OF this] obtain b where b: "fround_to B64 (a / 8) = Fin b" "rnd B64 b = b" "1 / 2 ^ 10 \<le> b"
    "b \<le> 2 ^ 38" "b \<le> a / 8 * (1 + 1 / 2 ^ 52)" by blast
  have "a / 8 * (1 + 1 / 2 ^ 52) \<le> x * 1000000 * (1 + 1 / 2 ^ 52) / 8 * (1 + 1 / 2 ^ 52)"
    using a(2) by (intro mult_right_mono divide_right_mono) auto
  also have "\<dots> = (125000 * x) * ((1 + 1 / 2 ^ 52) * (1 + 1 / 2 ^ 52))" by simp
  also have "\<dots> \<le> (125000 * x) * (1 + 1 / 2 ^ 50)" using assms by (intro mult_left_mono) auto
  finally have bu: "b \<le> 125000 * x * (1 + 1 / 2 ^ 50)" using b(5) by linarith
  let ?B = "fmax (fmul B64 (Fin b) (as_secs_f64 CAP_BURST)) (Fin 1500)"
  have B: "is_float ?B \<and> 0 < fval ?B \<and> fval ?B \<le> max 1500 (125000 * x * (1 / 20)) * (1 + 1 / 2 ^ 48) \<and> 1500 \<le> fval ?B"
    by (rule burst_near [OF CAP_BURST_secs _ _ _ _ b(2,3) bu b(4), where kk = 1500]) (use assms in auto)
  have c: "c = \<lparr>cap_bytes_per_sec = Fin b, cap_burst = ?B, cap_tokens = ?B, cap_last = t0\<rparr>"
    using assms(1,2) by (simp add: cap_new_def is_nan_def a(1) b(1) CAP_MIN_BURST_BYTES_def Let_def split: if_splits)
  have "b \<le> 2 ^ 40" using b(4) by simp
  moreover have "0 \<le> b" using b(3) by (simp add: order_trans [of 0 "1 / 2 ^ 10"])
  ultimately have "is_float (Fin b)" using b(2) by (simp add: is_float_Fin)
  with B b(3) bu show ?thesis by (simp add: c cap_ok_def)
qed

lemma lossy_facts:
  assumes "rate_is c r" and "rc_tokens c = Fin 4000"
  shows "lossy_ok c \<and> 4000 \<le> fval (rate_capacity c)
    \<and> fval (rate_capacity c) \<le> max 4000 (r / 320) * (1 + 1 / 2 ^ 48)
    \<and> fval (rate_bytes c) \<le> r / 8 * (1 + 1 / 2 ^ 50)"
proof -
  have r: "rc_rate_bps c = Fin r" "1000000 \<le> r" "r \<le> 50000000" using assms(1) by (auto simp: rate_is_def)
  have "1 / 2 ^ 8 \<le> r / 8" "r / 8 \<le> 2 ^ 37" using r by auto
  from bytes_near [OF this] obtain b where b: "fround_to B64 (r / 8) = Fin b" "rnd B64 b = b" "1 / 2 ^ 10 \<le> b"
    "b \<le> 2 ^ 38" "b \<le> r / 8 * (1 + 1 / 2 ^ 52)" by blast
  have rb: "rate_bytes c = Fin b" by (simp add: rate_bytes_def r(1) b(1))
  have "r / 8 * (1 + 1 / 2 ^ 52) \<le> r / 8 * (1 + 1 / 2 ^ 50)" using r by (intro mult_left_mono) auto
  then have bu: "b \<le> r / 8 * (1 + 1 / 2 ^ 50)" using b(5) by linarith
  let ?B = "fmax (fmul B64 (Fin b) (as_secs_f64 BURST)) (Fin 4000)"
  have B: "is_float ?B \<and> 0 < fval ?B \<and> fval ?B \<le> max 4000 (r / 8 * (1 / 40)) * (1 + 1 / 2 ^ 48) \<and> 4000 \<le> fval ?B"
    by (rule burst_near [OF BURST_secs _ _ _ _ b(2,3) bu b(4), where kk = 4000]) (use r in auto)
  have cap: "rate_capacity c = ?B"
    using rb by (simp add: rate_capacity_def rate_bytes_def MIN_BURST_BYTES_def)
  have "b \<le> 2 ^ 40" using b(4) by simp
  moreover have "0 \<le> b" using b(3) by (simp add: order_trans [of 0 "1 / 2 ^ 10"])
  ultimately have "is_float (Fin b)" using b(2) by (simp add: is_float_Fin)
  moreover have "rnd B64 4000 = 4000" using rnd_of_int [of 4000 B64] by simp
  ultimately show ?thesis using B b(3) bu by (simp add: rb cap lossy_ok_def assms(2) is_float_Fin)
qed

fun is_update :: "rate_op \<Rightarrow> bool" where
  "is_update (Update _ _ _ _) = True"
| "is_update _ = False"

lemma updates_keep_tokens:
  "list_all is_update us \<Longrightarrow> rc_tokens (rate_run t0 us) = Fin 4000 \<and> rc_last_refill (rate_run t0 us) = t0"
proof (induction us rule: rev_induct)
  case Nil
  then show ?case by (simp add: rate_run_def rate_new_def MIN_BURST_BYTES_def)
next
  case (snoc u us)
  have tr: "rc_tokens (fst (track_base c n s)) = rc_tokens c" "rc_last_refill (fst (track_base c n s)) = rc_last_refill c"
    for c n s by (auto simp: track_base_def split: option.splits)
  have "rc_tokens (rate_update c n s a b) = rc_tokens c \<and> rc_last_refill (rate_update c n s a b) = rc_last_refill c"
    for c n s a b using tr [of c n s] by (auto simp: rate_update_def Let_def case_prod_beta)
  with snoc show ?case by (cases u) auto
qed

text \<open>Both token buckets pace what they admit.  A sender that checks for room before each item and
  charges at most what it checked for never gets more bytes out of the bucket, over any stretch of
  time, than its burst plus its rate times the time passed: the topic cap of x Mbps admits at most
  the larger of 1500 bytes and 50 ms of the rate, plus the rate; the robot's adaptive cap at a rate r
  at most the larger of 4000 bytes and 25 ms of the rate, plus the rate.  The factors beyond that
  bound what float rounding can add.\<close>

theorem buckets_pace:
  assumes "offers t0 t1 os"
  shows "(cap_new (Fin x) t0 = Some c \<and> 1 / 100 \<le> x \<and> x \<le> 100000 \<longrightarrow>
      of_nat (snd (bucket_run cap_room cap_consume c os)) \<le>
        (max 1500 (6250 * x) * (1 + of_nat (length os) / 2 ^ 52)
          + 125000 * x * of_nat (t1 - t0) / 1000000000) * (1 + 1 / 2 ^ 40))
   \<and> (list_all is_update us \<and> rc_rate_bps (rate_run t0 us) = Fin r \<longrightarrow>
      of_nat (snd (bucket_run has_room rate_consume (rate_run t0 us) os)) \<le>
        (max 4000 (r / 320) * (1 + of_nat (length os) / 2 ^ 52)
          + r / 8 * of_nat (t1 - t0) / 1000000000) * (1 + 1 / 2 ^ 40))"
proof (intro conjI impI; elim conjE)
  assume c: "cap_new (Fin x) t0 = Some c" "1 / 100 \<le> x" "x \<le> 100000"
  note f = cap_new_facts [OF c]
  from cap.admitted_le [of c t1 os] f assms
  have "of_nat (snd (bucket_run cap_room cap_consume c os)) \<le> fval (cap_burst c)
    + fval (cap_bytes_per_sec c) * (1 + 1 / 2 ^ 48) / 1000000000 * of_nat (t1 - t0)
    + of_nat (length os) * (fval (cap_burst c) / 2 ^ 52)" by (simp only: per_ns_def)
  then show "of_nat (snd (bucket_run cap_room cap_consume c os)) \<le>
        (max 1500 (6250 * x) * (1 + of_nat (length os) / 2 ^ 52)
          + 125000 * x * of_nat (t1 - t0) / 1000000000) * (1 + 1 / 2 ^ 40)"
    by (rule conform) (use f c in auto)
next
  assume us: "list_all is_update us" and r: "rc_rate_bps (rate_run t0 us) = Fin r"
  have ri: "rate_is (rate_run t0 us) r" using rate_is_run [of t0 us] r by (auto simp: rate_is_def)
  note k = updates_keep_tokens [OF us, of t0]
  note f = lossy_facts [OF ri conjunct1 [OF k]]
  from lossy.admitted_le [of "rate_run t0 us" t1 os] f k assms
  have "of_nat (snd (bucket_run has_room rate_consume (rate_run t0 us) os)) \<le> 4000
    + fval (rate_bytes (rate_run t0 us)) * (1 + 1 / 2 ^ 48) / 1000000000 * of_nat (t1 - t0)
    + of_nat (length os) * (fval (rate_capacity (rate_run t0 us)) / 2 ^ 52)" by (simp only: per_ns_def fval.simps)
  then show "of_nat (snd (bucket_run has_room rate_consume (rate_run t0 us) os)) \<le>
        (max 4000 (r / 320) * (1 + of_nat (length os) / 2 ^ 52)
          + r / 8 * of_nat (t1 - t0) / 1000000000) * (1 + 1 / 2 ^ 40)"
    by (rule conform) (use f ri in \<open>auto simp: rate_is_def\<close>)
qed

definition two_offers :: "(instant \<times> nat \<times> nat) list" where
  "two_offers = [(millis 1, 1350, 900), (millis 2, 1350, 900)]"

theorem buckets_pace_witness:
  "of_nat (snd (bucket_run has_room rate_consume (rate_run 0 []) two_offers))
    \<le> (max 4000 (4000000 / 320) * (1 + of_nat (length two_offers) / 2 ^ 52)
       + 4000000 / 8 * of_nat (millis 2 - 0) / 1000000000) * (1 + 1 / (2 :: rat) ^ 40)"
  by (rule mp [OF conjunct2 [OF buckets_pace]])
    (simp_all add: offers_def two_offers_def millis_def rate_run_def rate_new_def START_BPS_def)

end
