(* ===== verification/Topic.thy ===== *)
theory Topic
  imports Wire Rate "HOL-Library.Sublist"
begin

text \<open>
  Topic forwarding (\<open>roboprotocol-core/topic.rs\<close>): the sample format with its key check, the
  outbox that queues samples for one connection (latest-wins datagrams and two reliable lanes)
  and the reader that reassembles a lane.  The rate cap of the same file is in theory Rate.
  Strings are their UTF-8 bytes.
\<close>

section \<open>Samples\<close>

definition TOPIC_STREAM_MAGIC :: u8 where "TOPIC_STREAM_MAGIC = 0x54"
definition TOPIC_STREAM_VERSION :: u8 where "TOPIC_STREAM_VERSION = 1"
definition MAX_TOPIC_SAMPLE :: nat where "MAX_TOPIC_SAMPLE = 16 * 1024 * 1024"

text \<open>\<open>"robotele/"\<close>.\<close>

definition RESERVED_PREFIX :: bytes where
  "RESERVED_PREFIX = [0x72, 0x6F, 0x62, 0x6F, 0x74, 0x65, 0x6C, 0x65, 0x2F]"

datatype TopicMode = Latest | Reliable

definition topic_mode_parse :: "string \<Rightarrow> TopicMode option" where
  "topic_mode_parse s =
     (if s = ''latest'' then Some Latest else if s = ''reliable'' then Some Reliable else None)"

fun topic_mode_name :: "TopicMode \<Rightarrow> string" where
  "topic_mode_name Latest = ''latest''"
| "topic_mode_name Reliable = ''reliable''"

record TopicSample =
  ts_key :: bytes
  ts_attachment :: bytes
  ts_payload :: bytes

datatype TopicError =
    Short | KeyNotUtf8 | BadKey bytes | ReservedKey bytes | TooLarge nat | BadStreamHeader

text \<open>\<open>std::str::from_utf8\<close> accepts a byte string: well-formed sequences only, no surrogates, no
  overlong forms, nothing above U+10FFFF.\<close>

definition continuation :: "u8 \<Rightarrow> bool" where
  "continuation b \<longleftrightarrow> 0x80 \<le> b \<and> b \<le> 0xBF"

fun utf8_valid :: "bytes \<Rightarrow> bool" where
  "utf8_valid [] = True"
| "utf8_valid (a # bs) =
     (if a < 0x80 then utf8_valid bs
      else case bs of [] \<Rightarrow> False | b # cs \<Rightarrow>
        if 0xC2 \<le> a \<and> a \<le> 0xDF then continuation b \<and> utf8_valid cs
        else case cs of [] \<Rightarrow> False | c # ds \<Rightarrow>
          if 0xE0 \<le> a \<and> a \<le> 0xEF
          then (if a = 0xE0 then 0xA0 \<le> b \<and> b \<le> 0xBF else if a = 0xED then 0x80 \<le> b \<and> b \<le> 0x9F else continuation b)
            \<and> continuation c \<and> utf8_valid ds
          else case ds of [] \<Rightarrow> False | d # es \<Rightarrow>
            0xF0 \<le> a \<and> a \<le> 0xF4
            \<and> (if a = 0xF0 then 0x90 \<le> b \<and> b \<le> 0xBF else if a = 0xF4 then 0x80 \<le> b \<and> b \<le> 0x8F else continuation b)
            \<and> continuation c \<and> continuation d \<and> utf8_valid es)"

definition concrete_key :: "bytes \<Rightarrow> bool" where
  "concrete_key key \<longleftrightarrow>
     key \<noteq> [] \<and> length key \<le> 65535 \<and> hd key \<noteq> 0x2F \<and> last key \<noteq> 0x2F
     \<and> \<not> sublist [0x2F, 0x2F] key \<and> list_all (\<lambda>b. b \<notin> {0x2A, 0x24, 0x3F, 0x23}) key"

definition check_key :: "bytes \<Rightarrow> TopicError + unit" where
  "check_key key =
     (if \<not> concrete_key key then Inl (BadKey key)
      else if prefix RESERVED_PREFIX key then Inl (ReservedKey key)
      else Inr ())"

definition encoded_len :: "TopicSample \<Rightarrow> nat" where
  "encoded_len s = 2 + length (ts_key s) + 4 + length (ts_attachment s) + length (ts_payload s)"

definition sample_encode :: "TopicSample \<Rightarrow> bytes" where
  "sample_encode s =
     be16 (word_of_nat (length (ts_key s))) @ ts_key s
     @ be32 (word_of_nat (length (ts_attachment s))) @ ts_attachment s @ ts_payload s"

definition sample_decode :: "bytes \<Rightarrow> TopicError + TopicSample" where
  "sample_decode bs =
     (if MAX_TOPIC_SAMPLE < length bs then Inl (TooLarge (length bs))
      else case get_range 0 2 bs of None \<Rightarrow> Inl Short | Some k \<Rightarrow>
        let key_len = unat (of_be16 k)
        in case get_range 2 (2 + key_len) bs of None \<Rightarrow> Inl Short | Some key \<Rightarrow>
          if \<not> utf8_valid key then Inl KeyNotUtf8
          else case check_key key of Inl e \<Rightarrow> Inl e | Inr _ \<Rightarrow>
            let rest = drop (2 + key_len) bs
            in case get_range 0 4 rest of None \<Rightarrow> Inl Short | Some a \<Rightarrow>
              let att_len = unat (of_be32 a)
              in case get_range 4 (4 + att_len) rest of None \<Rightarrow> Inl Short | Some attachment \<Rightarrow>
                Inr \<lparr>ts_key = key, ts_attachment = attachment, ts_payload = drop (4 + att_len) rest\<rparr>)"

section \<open>The outbox\<close>

definition SMALL_SAMPLE_MAX :: nat where "SMALL_SAMPLE_MAX = 16 * 1024"

datatype ReliableLane = Small | Large

record OutboxStats =
  os_latest_sent :: nat
  os_latest_superseded :: nat
  os_latest_oversize :: nat
  os_reliable_queued :: nat
  os_reliable_large :: nat
  os_reliable_dropped :: nat

record Lane =
  ln_buf :: bytes
  ln_started :: bool
  ln_consumed :: nat
  ln_frames :: "(bytes \<times> nat) list"

record TopicOutbox =
  ob_latest :: "(bytes, bytes) amap"
  ob_order :: "bytes list"
  ob_lanes :: "ReliableLane \<Rightarrow> Lane"
  ob_large_pending :: "(bytes, nat) amap"
  ob_reliable_backlog :: nat
  ob_stats :: OutboxStats

definition lane_new :: Lane where
  "lane_new = \<lparr>ln_buf = [], ln_started = False, ln_consumed = 0, ln_frames = []\<rparr>"

definition with_backlog :: "nat \<Rightarrow> TopicOutbox" where
  "with_backlog backlog =
     \<lparr>ob_latest = [], ob_order = [], ob_lanes = (\<lambda>_. lane_new), ob_large_pending = [],
      ob_reliable_backlog = backlog,
      ob_stats = \<lparr>os_latest_sent = 0, os_latest_superseded = 0, os_latest_oversize = 0,
                  os_reliable_queued = 0, os_reliable_large = 0, os_reliable_dropped = 0\<rparr>\<rparr>"

definition outbox_new :: TopicOutbox where
  "outbox_new = with_backlog DEFAULT_RELIABLE_BACKLOG"

definition push_latest :: "TopicOutbox \<Rightarrow> TopicSample \<Rightarrow> TopicOutbox" where
  "push_latest ob sample =
     (let d = DATAGRAM_TAG_TOPIC # sample_encode sample;
          old = map_of (ob_latest ob) (ts_key sample);
          ob = ob\<lparr>ob_latest := AList.update (ts_key sample) d (ob_latest ob)\<rparr>
      in if old \<noteq> None
         then ob\<lparr>ob_stats := (ob_stats ob)\<lparr>os_latest_superseded := os_latest_superseded (ob_stats ob) + 1\<rparr>\<rparr>
         else ob\<lparr>ob_order := ob_order ob @ [ts_key sample]\<rparr>)"

definition routed :: "TopicOutbox \<Rightarrow> TopicSample \<Rightarrow> ReliableLane" where
  "routed ob sample =
     (if SMALL_SAMPLE_MAX < encoded_len sample \<or> map_of (ob_large_pending ob) (ts_key sample) \<noteq> None
      then Large else Small)"

definition too_much :: "TopicOutbox \<Rightarrow> TopicSample \<Rightarrow> bool" where
  "too_much ob sample \<longleftrightarrow>
     MAX_TOPIC_SAMPLE < encoded_len sample
   \<or> ob_reliable_backlog ob < length (ln_buf (ob_lanes ob (routed ob sample))) + 4 + encoded_len sample"

definition lane_write :: "Lane \<Rightarrow> TopicSample \<Rightarrow> Lane" where
  "lane_write l sample =
     (let l = (if ln_started l then l
               else l\<lparr>ln_buf := ln_buf l @ [TOPIC_STREAM_MAGIC, TOPIC_STREAM_VERSION], ln_started := True\<rparr>)
      in l\<lparr>ln_buf := ln_buf l @ be32 (word_of_nat (encoded_len sample)) @ sample_encode sample\<rparr>)"

definition push_reliable :: "TopicOutbox \<Rightarrow> TopicSample \<Rightarrow> TopicOutbox" where
  "push_reliable ob sample =
     (let lane = routed ob sample; st = ob_stats ob
      in if too_much ob sample
         then ob\<lparr>ob_stats := st\<lparr>os_reliable_dropped := os_reliable_dropped st + 1\<rparr>\<rparr>
         else
           let l = lane_write (ob_lanes ob lane) sample;
               st = st\<lparr>os_reliable_queued := os_reliable_queued st + 1\<rparr>
           in if lane = Large
              then ob\<lparr>ob_lanes := (ob_lanes ob)(lane := l\<lparr>ln_frames := ln_frames l @ [(ts_key sample, ln_consumed l + length (ln_buf l))]\<rparr>),
                      ob_large_pending :=
                        (let n = (case map_of (ob_large_pending ob) (ts_key sample) of Some n \<Rightarrow> n | None \<Rightarrow> 0)
                         in AList.update (ts_key sample) (n + 1) (ob_large_pending ob)),
                      ob_stats := st\<lparr>os_reliable_large := os_reliable_large st + 1\<rparr>\<rparr>
              else ob\<lparr>ob_lanes := (ob_lanes ob)(lane := l), ob_stats := st\<rparr>)"

definition outbox_push :: "TopicOutbox \<Rightarrow> TopicMode \<Rightarrow> TopicSample \<Rightarrow> TopicOutbox" where
  "outbox_push ob mode sample =
     (case mode of Latest \<Rightarrow> push_latest ob sample | Reliable \<Rightarrow> push_reliable ob sample)"

definition has_datagram :: "TopicOutbox \<Rightarrow> bool" where
  "has_datagram ob \<longleftrightarrow> ob_order ob \<noteq> []"

text \<open>The loop of \<open>pop_datagram\<close>, over the queued keys; \<open>None\<close> is the panic of its \<open>expect\<close>.\<close>

fun pop_loop :: "nat \<Rightarrow> bytes list \<Rightarrow> TopicOutbox \<Rightarrow> (TopicOutbox \<times> bytes option) option" where
  "pop_loop max_len [] ob = Some (ob\<lparr>ob_order := []\<rparr>, None)"
| "pop_loop max_len (key # order) ob =
     (case map_of (ob_latest ob) key of
        None \<Rightarrow> None
      | Some d \<Rightarrow>
          let ob = ob\<lparr>ob_order := order, ob_latest := AList.delete key (ob_latest ob)\<rparr>; st = ob_stats ob
          in if length d \<le> max_len
             then Some (ob\<lparr>ob_stats := st\<lparr>os_latest_sent := os_latest_sent st + 1\<rparr>\<rparr>, Some d)
             else pop_loop max_len order (ob\<lparr>ob_stats := st\<lparr>os_latest_oversize := os_latest_oversize st + 1\<rparr>\<rparr>))"

definition pop_datagram :: "TopicOutbox \<Rightarrow> nat \<Rightarrow> (TopicOutbox \<times> bytes option) option" where
  "pop_datagram ob max_len = pop_loop max_len (ob_order ob) ob"

definition reliable_pending :: "TopicOutbox \<Rightarrow> ReliableLane \<Rightarrow> bytes" where
  "reliable_pending ob lane = ln_buf (ob_lanes ob lane)"

definition pending_minus :: "bytes \<Rightarrow> (bytes, nat) amap \<Rightarrow> (bytes, nat) amap" where
  "pending_minus key m =
     (case map_of m key of
        None \<Rightarrow> m
      | Some n \<Rightarrow> if n - 1 = 0 then AList.delete key m else AList.update key (n - 1) m)"

fun release_frames :: "nat \<Rightarrow> (bytes \<times> nat) list \<Rightarrow> (bytes, nat) amap \<Rightarrow> (bytes \<times> nat) list \<times> (bytes, nat) amap" where
  "release_frames consumed [] m = ([], m)"
| "release_frames consumed ((key, end_at) # fs) m =
     (if end_at \<le> consumed then release_frames consumed fs (pending_minus key m) else ((key, end_at) # fs, m))"

definition consume_reliable :: "TopicOutbox \<Rightarrow> ReliableLane \<Rightarrow> nat \<Rightarrow> TopicOutbox" where
  "consume_reliable ob lane n =
     (let l = ob_lanes ob lane;
          n = min n (length (ln_buf l));
          l = l\<lparr>ln_buf := drop n (ln_buf l), ln_consumed := ln_consumed l + n\<rparr>;
          (frames, pending) = release_frames (ln_consumed l) (ln_frames l) (ob_large_pending ob)
      in ob\<lparr>ob_lanes := (ob_lanes ob)(lane := l\<lparr>ln_frames := frames\<rparr>), ob_large_pending := pending\<rparr>)"

section \<open>The stream reader\<close>

record TopicStreamReader =
  tr_buf :: bytes
  tr_header_seen :: bool
  tr_failed :: bool

definition reader_new :: TopicStreamReader where
  "reader_new = \<lparr>tr_buf = [], tr_header_seen = False, tr_failed = False\<rparr>"

definition reader_fail :: "TopicStreamReader \<Rightarrow> TopicStreamReader" where
  "reader_fail r = r\<lparr>tr_failed := True, tr_buf := []\<rparr>"

text \<open>The frame loop: the samples, the errors, and the bytes left, or \<open>None\<close> where the stream fails.\<close>

function read_frames :: "bytes \<Rightarrow> TopicSample list \<times> TopicError list \<times> bytes option" where
  "read_frames bs =
     (case get_range 0 4 bs of
        None \<Rightarrow> ([], [], Some bs)
      | Some len_bytes \<Rightarrow>
          let len = unat (of_be32 len_bytes)
          in if MAX_TOPIC_SAMPLE < len then ([], [TooLarge len], None)
             else case get_range 4 (4 + len) bs of
               None \<Rightarrow> ([], [], Some bs)
             | Some frame \<Rightarrow>
                 let (samples, errors, rest) = read_frames (drop (4 + len) bs)
                 in case sample_decode frame of
                      Inr s \<Rightarrow> (s # samples, errors, rest)
                    | Inl e \<Rightarrow> (samples, e # errors, rest))"
  by pat_completeness auto
termination
  by (relation "measure length") (auto simp: get_range_def split: if_splits)

declare read_frames.simps [simp del]

definition reader_push :: "TopicStreamReader \<Rightarrow> bytes \<Rightarrow> TopicStreamReader \<times> TopicSample list \<times> TopicError list" where
  "reader_push r data =
     (if tr_failed r then (r, [], [])
      else
        let buf = tr_buf r @ data
        in if \<not> tr_header_seen r \<and> length buf < 2 then (r\<lparr>tr_buf := buf\<rparr>, [], [])
           else if \<not> tr_header_seen r \<and> take 2 buf \<noteq> [TOPIC_STREAM_MAGIC, TOPIC_STREAM_VERSION]
           then (reader_fail r, [], [BadStreamHeader])
           else
             let buf = (if tr_header_seen r then buf else drop 2 buf);
                 r = r\<lparr>tr_header_seen := True\<rparr>;
                 (samples, errors, rest) = read_frames buf
             in case rest of
                  Some kept_bytes \<Rightarrow> (r\<lparr>tr_buf := kept_bytes\<rparr>, samples, errors)
                | None \<Rightarrow> (reader_fail r, samples, errors))"

section \<open>The sample format\<close>

definition sample_ok :: "TopicSample \<Rightarrow> bool" where
  "sample_ok s \<longleftrightarrow> utf8_valid (ts_key s) \<and> check_key (ts_key s) = Inr () \<and> encoded_len s \<le> MAX_TOPIC_SAMPLE"

lemma get_range_head [simp]: "length xs = n \<Longrightarrow> get_range 0 n (xs @ ys) = Some xs"
  by (simp add: get_range_def slice_def)

lemma get_range_after [simp]:
  "length pre = a \<Longrightarrow> length xs = n \<Longrightarrow> get_range a (a + n) (pre @ xs @ ys) = Some xs"
  by (simp add: get_range_def slice_def)

lemma get_range_Some:
  "get_range a b bs = Some xs \<longleftrightarrow> a \<le> b \<and> b \<le> length bs \<and> xs = take (b - a) (drop a bs)"
  by (auto simp: get_range_def slice_def)

lemma take_drop_glue: "take n (drop m xs) @ drop (m + n) xs = drop m xs"
  by (metis append_take_drop_id drop_drop add.commute)

lemma check_key_length: "check_key key = Inr () \<Longrightarrow> length key \<le> 65535"
  by (auto simp: check_key_def concrete_key_def split: if_splits)

lemma unat_of_nat_lt: "n < 2 ^ LENGTH('a) \<Longrightarrow> unat (word_of_nat n :: 'a::len word) = n"
  by (simp add: unat_of_nat)

lemma length_sample_encode [simp]: "length (sample_encode s) = encoded_len s"
  by (simp add: sample_encode_def encoded_len_def)

lemma sample_decode_encode:
  assumes "sample_ok s"
  shows "sample_decode (sample_encode s) = Inr s"
proof -
  have k: "length (ts_key s) < 2 ^ LENGTH(16)" "length (ts_attachment s) < 2 ^ LENGTH(32)"
    using assms check_key_length [of "ts_key s"]
    by (auto simp: sample_ok_def encoded_len_def MAX_TOPIC_SAMPLE_def)
  let ?k = "be16 (word_of_nat (length (ts_key s)))" and ?a = "be32 (word_of_nat (length (ts_attachment s)))"
  let ?rest = "?a @ ts_attachment s @ ts_payload s"
  have dr: "drop (2 + length (ts_key s)) (sample_encode s) = ?rest" by (simp add: sample_encode_def)
  have g1: "get_range 0 2 (sample_encode s) = Some ?k" by (simp add: sample_encode_def)
  have g2: "get_range 2 (2 + length (ts_key s)) (sample_encode s) = Some (ts_key s)"
    unfolding sample_encode_def by (rule get_range_after) simp_all
  have g3: "get_range 0 4 ?rest = Some ?a" by simp
  have g4: "get_range 4 (4 + length (ts_attachment s)) ?rest = Some (ts_attachment s)"
    by (rule get_range_after) simp_all
  show ?thesis using assms k unfolding sample_ok_def
    by (simp add: sample_decode_def g1 g2 [simplified] g3 g4 [simplified] dr [simplified] unat_of_nat_lt Let_def)
qed

lemma sample_decode_canonical:
  assumes "sample_decode bs = Inr s"
  shows "sample_encode s = bs \<and> sample_ok s"
proof -
  let ?kl = "unat (of_be16 (take 2 bs))"
  let ?rest = "drop (2 + ?kl) bs"
  let ?al = "unat (of_be32 (take 4 ?rest))"
  have len: "length bs \<le> MAX_TOPIC_SAMPLE" and two: "2 + ?kl \<le> length bs" and four: "4 + ?al \<le> length ?rest"
    and key: "ts_key s = take ?kl (drop 2 bs)" and att: "ts_attachment s = take ?al (drop 4 ?rest)"
    and pay: "ts_payload s = drop (4 + ?al) ?rest"
    and ok: "utf8_valid (ts_key s)" "check_key (ts_key s) = Inr ()"
    using assms
    by (auto simp: sample_decode_def get_range_Some Let_def split: if_splits option.splits sum.splits)
  have lk: "length (ts_key s) = ?kl" "length (ts_attachment s) = ?al" using two four by (simp_all add: key att)
  have hd2: "be16 (word_of_nat (length (ts_key s))) = take 2 bs"
    using two unfolding lk by (simp add: be16_of_be16)
  have hd4: "be32 (word_of_nat (length (ts_attachment s))) = take 4 ?rest"
    using four unfolding lk by (simp add: be32_of_be32)
  have "sample_encode s = take 2 bs @ take ?kl (drop 2 bs) @ take 4 ?rest @ take ?al (drop 4 ?rest) @ drop (4 + ?al) ?rest"
    unfolding sample_encode_def hd2 hd4 unfolding key att pay ..
  also have "take ?al (drop 4 ?rest) @ drop (4 + ?al) ?rest = drop 4 ?rest"
    by (rule take_drop_glue)
  also have "take 4 ?rest @ drop 4 ?rest = ?rest" by (rule append_take_drop_id)
  also have "take ?kl (drop 2 bs) @ ?rest = drop 2 bs"
    by (rule take_drop_glue)
  also have "take 2 bs @ drop 2 bs = bs" by simp
  finally have enc: "sample_encode s = bs" .
  with len ok show ?thesis using length_sample_encode [of s] by (simp add: sample_ok_def)
qed

text \<open>A key's chunks, the parts between its slashes.\<close>

fun key_chunks :: "bytes \<Rightarrow> bytes list" where
  "key_chunks [] = [[]]"
| "key_chunks (b # bs) =
     (if b = 0x2F then [] # key_chunks bs else (b # hd (key_chunks bs)) # tl (key_chunks bs))"

lemma key_chunks_empty:
  "key_chunks bs \<noteq> []"
  "hd (key_chunks bs) = [] \<longleftrightarrow> bs = [] \<or> hd bs = 0x2F"
  "[] \<in> set (tl (key_chunks bs)) \<longleftrightarrow> (bs \<noteq> [] \<and> last bs = 0x2F) \<or> sublist [0x2F, 0x2F] bs"
proof (induction bs)
  case (Cons b bs)
  { case 1 show ?case by simp }
  { case 2 show ?case by simp }
  { case 3
    have "[] \<in> set (key_chunks bs) \<longleftrightarrow> hd (key_chunks bs) = [] \<or> [] \<in> set (tl (key_chunks bs))"
      using Cons.IH(1) by (cases "key_chunks bs") auto
    moreover have "prefix [0x2F, 0x2F] (b # bs) \<longleftrightarrow> b = 0x2F \<and> bs \<noteq> [] \<and> hd bs = 0x2F"
      by (cases bs) auto
    ultimately show ?case using Cons.IH(2,3) by (auto simp: sublist_Cons_right) }
qed auto

lemma concrete_key_chunks:
  "concrete_key key \<longleftrightarrow> length key \<le> 65535 \<and> [] \<notin> set (key_chunks key) \<and> set key \<inter> {0x2A, 0x24, 0x3F, 0x23} = {}"
proof -
  have "[] \<in> set (key_chunks key) \<longleftrightarrow> hd (key_chunks key) = [] \<or> [] \<in> set (tl (key_chunks key))"
    using key_chunks_empty(1) [of key] by (cases "key_chunks key") auto
  then show ?thesis unfolding concrete_key_def key_chunks_empty by (auto simp: list_all_iff)
qed

text \<open>C23: The topic sample format.  A byte string decodes exactly when it is the encoding of a sample of
  at most 16 MiB whose key is valid UTF-8 of at most 65535 bytes, has no empty chunk (so it is not empty and no
  slash begins, ends or follows another in it), none of the wildcard characters \<open>* $ ? #\<close>, and is not under the
  reserved prefix; and then it decodes to that sample.  Nothing else is accepted and no sample has two encodings.\<close>

theorem topic_sample_codec:
  "sample_decode bs = Inr s \<longleftrightarrow>
     bs = sample_encode s \<and> length bs \<le> 16 * 1024 * 1024 \<and> utf8_valid (ts_key s) \<and> length (ts_key s) \<le> 65535
   \<and> [] \<notin> set (key_chunks (ts_key s)) \<and> set (ts_key s) \<inter> {0x2A, 0x24, 0x3F, 0x23} = {}
   \<and> \<not> prefix RESERVED_PREFIX (ts_key s)"
proof -
  have "check_key (ts_key s) = Inr () \<longleftrightarrow> concrete_key (ts_key s) \<and> \<not> prefix RESERVED_PREFIX (ts_key s)"
    by (simp add: check_key_def)
  moreover have "sample_decode bs = Inr s \<longleftrightarrow> sample_ok s \<and> bs = sample_encode s"
    using sample_decode_canonical sample_decode_encode by blast
  ultimately show ?thesis by (auto simp: sample_ok_def concrete_key_chunks MAX_TOPIC_SAMPLE_def)
qed

definition goal_sample :: TopicSample where
  "goal_sample = \<lparr>ts_key = [0x61, 0x2F, 0xC3, 0xA9], ts_attachment = [1, 2], ts_payload = [3]\<rparr>"

theorem topic_sample_codec_witness:
  "sample_decode (sample_encode goal_sample) = Inr goal_sample
   \<and> sample_decode (sample_encode (goal_sample\<lparr>ts_key := [0x2F, 0x61]\<rparr>)) \<noteq> Inr (goal_sample\<lparr>ts_key := [0x2F, 0x61]\<rparr>)"
proof
  show "sample_decode (sample_encode goal_sample) = Inr goal_sample"
    unfolding topic_sample_codec by code_simp
  show "sample_decode (sample_encode (goal_sample\<lparr>ts_key := [0x2F, 0x61]\<rparr>)) \<noteq> Inr (goal_sample\<lparr>ts_key := [0x2F, 0x61]\<rparr>)"
    unfolding topic_sample_codec by simp
qed

section \<open>The reader\<close>

definition frame_encode :: "bytes \<Rightarrow> bytes" where
  "frame_encode frame = be32 (word_of_nat (length frame)) @ frame"

definition frame_decode :: "bytes \<Rightarrow> (bytes \<times> bytes) option" where
  "frame_decode bs =
     (case get_range 0 4 bs of None \<Rightarrow> None | Some l \<Rightarrow>
        if MAX_TOPIC_SAMPLE < unat (of_be32 l) then None
        else case get_range 4 (4 + unat (of_be32 l)) bs of None \<Rightarrow> None
             | Some frame \<Rightarrow> Some (frame, drop (4 + unat (of_be32 l)) bs))"

function raw_frames :: "bytes \<Rightarrow> bytes list" where
  "raw_frames bs = (case frame_decode bs of None \<Rightarrow> [] | Some (x, rest) \<Rightarrow> x # raw_frames rest)"
  by pat_completeness auto
termination
  by (relation "measure length")
    (auto simp: frame_decode_def get_range_def split: option.splits if_splits)

declare raw_frames.simps [simp del]

interpretation topic_frames: codec_stream frame_encode frame_decode
  "\<lambda>f. length f \<le> MAX_TOPIC_SAMPLE" raw_frames
proof
  fix x rest :: bytes
  assume x: "length x \<le> MAX_TOPIC_SAMPLE"
  then have n: "unat (word_of_nat (length x) :: u32) = length x"
    by (intro unat_of_nat_lt) (simp add: MAX_TOPIC_SAMPLE_def)
  let ?l = "be32 (word_of_nat (length x))"
  have "get_range 0 4 (frame_encode x @ rest) = Some ?l" by (simp add: frame_encode_def)
  moreover have "get_range 4 (4 + length x) (?l @ x @ rest) = Some x" by (rule get_range_after) simp_all
  ultimately show "frame_decode (frame_encode x @ rest) = Some (x, rest)"
    using x by (simp add: frame_decode_def n) (simp add: frame_encode_def n)
next
  show "raw_frames bs = (case frame_decode bs of None \<Rightarrow> [] | Some (x, rest) \<Rightarrow> x # raw_frames rest)" for bs
    by (rule raw_frames.simps)
qed

lemma read_frames_decode:
  "read_frames bs = (case frame_decode bs of
      None \<Rightarrow> (case get_range 0 4 bs of
          Some l \<Rightarrow> if MAX_TOPIC_SAMPLE < unat (of_be32 l) then ([], [TooLarge (unat (of_be32 l))], None)
                   else ([], [], Some bs)
        | None \<Rightarrow> ([], [], Some bs))
    | Some (frame, rest) \<Rightarrow>
        (let (samples, errors, r) = read_frames rest
         in case sample_decode frame of Inr s \<Rightarrow> (s # samples, errors, r) | Inl e \<Rightarrow> (samples, e # errors, r)))"
  by (subst read_frames.simps) (auto simp: frame_decode_def Let_def split: option.splits)

lemma frame_decode_append: "frame_decode xs = Some (f, rest) \<Longrightarrow> frame_decode (xs @ ys) = Some (f, rest @ ys)"
  by (auto simp: frame_decode_def get_range_Some get_range_def slice_def split: option.splits if_splits)

lemma frame_decode_length: "frame_decode xs = Some (f, rest) \<Longrightarrow> length rest < length xs"
  by (auto simp: frame_decode_def get_range_def split: option.splits if_splits)

lemma read_frames_append:
  "read_frames xs = (s, e, r) \<Longrightarrow>
   read_frames (xs @ ys) =
     (case r of None \<Rightarrow> (s, e, None)
      | Some rest \<Rightarrow> let (s', e', r') = read_frames (rest @ ys) in (s @ s', e @ e', r'))"
proof (induction xs arbitrary: s e r rule: length_induct)
  case (1 xs)
  show ?case
  proof (cases "frame_decode xs")
    case None
    show ?thesis
    proof (cases "r = None")
      case True
      then obtain l where l: "get_range 0 4 xs = Some l" "MAX_TOPIC_SAMPLE < unat (of_be32 l)"
        "s = []" "e = [TooLarge (unat (of_be32 l))]"
        using "1.prems" None by (subst (asm) read_frames_decode) (auto split: option.splits if_splits)
      then have "get_range 0 4 (xs @ ys) = Some l" by (auto simp: get_range_Some)
      then have "read_frames (xs @ ys) = ([], [TooLarge (unat (of_be32 l))], None)"
        using l by (subst read_frames.simps) (simp add: Let_def)
      with l True show ?thesis by simp
    next
      case False
      then have "s = []" "e = []" "r = Some xs"
        using "1.prems" None by (subst (asm) read_frames_decode, auto split: option.splits if_splits)+
      then show ?thesis by (simp add: case_prod_beta)
    qed
  next
    case (Some p)
    obtain f rest where p: "p = (f, rest)" by (cases p)
    obtain s1 e1 r1 where r1: "read_frames rest = (s1, e1, r1)" by (cases "read_frames rest")
    have IH: "read_frames (rest @ ys) = (case r1 of None \<Rightarrow> (s1, e1, None)
      | Some rest \<Rightarrow> let (s', e', r') = read_frames (rest @ ys) in (s1 @ s', e1 @ e', r'))"
      using "1.IH" frame_decode_length [of xs f rest] Some p r1 by blast
    have "read_frames xs = (case sample_decode f of Inr x \<Rightarrow> (x # s1, e1, r1) | Inl er \<Rightarrow> (s1, er # e1, r1))"
      by (subst read_frames_decode) (simp add: Some p r1)
    moreover have "read_frames (xs @ ys) = (let (samples, errors, r) = read_frames (rest @ ys)
         in case sample_decode f of Inr x \<Rightarrow> (x # samples, errors, r) | Inl er \<Rightarrow> (samples, er # errors, r))"
      by (subst read_frames_decode) (simp add: frame_decode_append [OF Some [unfolded p]])
    ultimately show ?thesis using "1.prems" IH
      by (auto simp: Let_def case_prod_beta split: sum.splits option.splits)
  qed
qed

lemma reader_push_short:
  "\<not> tr_failed r \<Longrightarrow> \<not> tr_header_seen r \<Longrightarrow>
    reader_push (r\<lparr>tr_buf := tr_buf r @ xs\<rparr>) ys = reader_push r (xs @ ys)"
  by (cases r) (simp add: reader_push_def reader_fail_def Let_def del: take_append drop_append)

lemma reader_push_append:
  assumes "reader_push r xs = (r1, s1, e1)" and "reader_push r1 ys = (r2, s2, e2)"
  shows "reader_push r (xs @ ys) = (r2, s1 @ s2, e1 @ e2)"
proof -
  consider "tr_failed r"
    | "\<not> tr_failed r" "\<not> tr_header_seen r" "length (tr_buf r @ xs) < 2"
    | "\<not> tr_failed r" "\<not> tr_header_seen r" "2 \<le> length (tr_buf r @ xs)"
        "take 2 (tr_buf r @ xs) \<noteq> [TOPIC_STREAM_MAGIC, TOPIC_STREAM_VERSION]"
    | "\<not> tr_failed r"
        "tr_header_seen r \<or> 2 \<le> length (tr_buf r @ xs) \<and> take 2 (tr_buf r @ xs) = [TOPIC_STREAM_MAGIC, TOPIC_STREAM_VERSION]"
    by linarith
  then show ?thesis
  proof cases
    case 1
    with assms show ?thesis by (auto simp: reader_push_def)
  next
    case 2
    then have "r1 = r\<lparr>tr_buf := tr_buf r @ xs\<rparr>" "s1 = []" "e1 = []" using assms(1) by (auto simp: reader_push_def)
    with 2 assms(2) reader_push_short [of r xs ys] show ?thesis by simp
  next
    case 3
    then have "r1 = reader_fail r" "s1 = []" "e1 = [BadStreamHeader]" using assms(1)
      by (auto simp: reader_push_def Let_def)
    moreover from this have "r2 = reader_fail r" "s2 = []" "e2 = []" using assms(2)
      by (auto simp: reader_push_def reader_fail_def)
    ultimately show ?thesis using 3 by (auto simp: reader_push_def Let_def)
  next
    case 4
    define buf where "buf = (if tr_header_seen r then tr_buf r @ xs else drop 2 (tr_buf r @ xs))"
    obtain s e k where rf: "read_frames buf = (s, e, k)" by (cases "read_frames buf")
    have one: "reader_push r xs = (case k of
        Some kept_bytes \<Rightarrow> (r\<lparr>tr_header_seen := True, tr_buf := kept_bytes\<rparr>, s, e)
      | None \<Rightarrow> (reader_fail (r\<lparr>tr_header_seen := True\<rparr>), s, e))"
      using 4 rf by (auto simp: reader_push_def Let_def buf_def split: option.splits if_splits)
    have "(if tr_header_seen r then tr_buf r @ xs @ ys else drop 2 (tr_buf r @ xs @ ys)) = buf @ ys"
      using 4 by (auto simp: buf_def)
    then have both: "reader_push r (xs @ ys) = (let (s', e', k') = read_frames (buf @ ys) in case k' of
        Some kept_bytes \<Rightarrow> (r\<lparr>tr_header_seen := True, tr_buf := kept_bytes\<rparr>, s', e')
      | None \<Rightarrow> (reader_fail (r\<lparr>tr_header_seen := True\<rparr>), s', e'))"
      using 4 by (auto simp: reader_push_def Let_def split: option.splits if_splits)
    show ?thesis
    proof (cases k)
      case None
      then have "r1 = reader_fail (r\<lparr>tr_header_seen := True\<rparr>)" "s1 = s" "e1 = e" using one assms(1) by auto
      moreover from this have "r2 = r1" "s2 = []" "e2 = []" using assms(2) by (auto simp: reader_push_def reader_fail_def)
      ultimately show ?thesis using both read_frames_append [OF rf, of ys] None by simp
    next
      case (Some rest)
      then have r1: "r1 = r\<lparr>tr_header_seen := True, tr_buf := rest\<rparr>" "s1 = s" "e1 = e" using one assms(1) by auto
      obtain s' e' k' where rf': "read_frames (rest @ ys) = (s', e', k')" by (cases "read_frames (rest @ ys)")
      have whole: "read_frames (buf @ ys) = (s @ s', e @ e', k')"
        using read_frames_append [OF rf, of ys] Some rf' by simp
      show ?thesis using assms(2) 4(1) unfolding both whole r1
        by (cases r; cases k') (auto simp: reader_push_def reader_fail_def rf')
    qed
  qed
qed

fun reader_run :: "TopicStreamReader \<Rightarrow> bytes list \<Rightarrow> TopicStreamReader \<times> TopicSample list \<times> TopicError list" where
  "reader_run r [] = (r, [], [])"
| "reader_run r (d # ds) =
     (let (r1, s1, e1) = reader_push r d; (r2, s2, e2) = reader_run r1 ds in (r2, s1 @ s2, e1 @ e2))"

lemma reader_run_push: "reader_run r (d # ds) = reader_push r (concat (d # ds))"
proof (induction ds arbitrary: r d)
  case Nil
  then show ?case by (simp add: case_prod_beta)
next
  case (Cons d' ds)
  obtain r1 s1 e1 where one: "reader_push r d = (r1, s1, e1)" by (cases "reader_push r d")
  obtain r2 s2 e2 where two: "reader_push r1 (concat (d' # ds)) = (r2, s2, e2)"
    by (cases "reader_push r1 (concat (d' # ds))")
  from reader_push_append [OF one two] Cons.IH [of r1 d'] one two show ?case by simp
qed

lemma reader_run_concat: "reader_run reader_new ds = reader_push reader_new (concat ds)"
  using reader_run_push [of reader_new] by (cases ds) (simp_all add: reader_push_def reader_new_def)

text \<open>A frame as the outbox writes it, and the stream of a list of samples.\<close>

definition sample_frame :: "TopicSample \<Rightarrow> bytes" where
  "sample_frame s = frame_encode (sample_encode s)"

definition lane_stream :: "TopicSample list \<Rightarrow> bytes" where
  "lane_stream ss = [TOPIC_STREAM_MAGIC, TOPIC_STREAM_VERSION] @ concat (List.map sample_frame ss)"

lemma length_sample_frame [simp]: "length (sample_frame s) = 4 + encoded_len s"
  by (simp add: sample_frame_def frame_encode_def)

lemma read_frames_samples:
  "list_all sample_ok ss \<Longrightarrow> frame_decode torn = None \<Longrightarrow> length torn < 4 + MAX_TOPIC_SAMPLE \<Longrightarrow>
    (\<And>l. get_range 0 4 torn = Some l \<Longrightarrow> unat (of_be32 l) \<le> MAX_TOPIC_SAMPLE) \<Longrightarrow>
    read_frames (concat (List.map sample_frame ss) @ torn) = (ss, [], Some torn)"
proof (induction ss)
  case Nil
  then show ?case by (subst read_frames_decode) (auto split: option.splits)
next
  case (Cons s ss)
  have ok: "sample_ok s" "length (sample_encode s) \<le> MAX_TOPIC_SAMPLE" using Cons.prems by (auto simp: sample_ok_def)
  have d: "frame_decode (sample_frame s @ concat (List.map sample_frame ss) @ torn)
      = Some (sample_encode s, concat (List.map sample_frame ss) @ torn)"
    unfolding sample_frame_def by (rule topic_frames.dec_enc [OF ok(2)])
  show ?case using Cons d sample_decode_encode [OF ok(1)]
    by (subst read_frames_decode) simp
qed

text \<open>What a reader that has seen a prefix of a stream has returned: the samples whose frames are complete.\<close>

fun whole_frames :: "nat \<Rightarrow> TopicSample list \<Rightarrow> TopicSample list" where
  "whole_frames n [] = []"
| "whole_frames n (s # ss) =
     (if length (sample_frame s) \<le> n then s # whole_frames (n - length (sample_frame s)) ss else [])"

lemma torn_frame:
  assumes "sample_ok s" and "n < length (sample_frame s)"
  shows "frame_decode (take n (sample_frame s)) = None"
    and "get_range 0 4 (take n (sample_frame s)) = Some l \<Longrightarrow> unat (of_be32 l) \<le> MAX_TOPIC_SAMPLE"
proof -
  let ?l = "be32 (word_of_nat (encoded_len s))"
  have max: "encoded_len s \<le> MAX_TOPIC_SAMPLE" using assms(1) by (simp add: sample_ok_def)
  then have n: "unat (word_of_nat (encoded_len s) :: u32) = encoded_len s"
    by (intro unat_of_nat_lt) (simp add: MAX_TOPIC_SAMPLE_def)
  have fr: "sample_frame s = ?l @ sample_encode s" by (simp add: sample_frame_def frame_encode_def)
  have l: "get_range 0 4 (take n (sample_frame s)) = (if n < 4 then None else Some ?l)"
    using assms(2) unfolding fr by (auto simp: get_range_def slice_def)
  show "get_range 0 4 (take n (sample_frame s)) = Some l \<Longrightarrow> unat (of_be32 l) \<le> MAX_TOPIC_SAMPLE"
    using max n l by (auto split: if_splits)
  have "get_range 4 (4 + encoded_len s) (take n (sample_frame s)) = None"
    using assms(2) by (simp add: get_range_def)
  then show "frame_decode (take n (sample_frame s)) = None"
    using l n by (simp add: frame_decode_def)
qed

lemma read_frames_prefix:
  "list_all sample_ok ss \<Longrightarrow> \<exists>rest. read_frames (take n (concat (List.map sample_frame ss))) = (whole_frames n ss, [], Some rest)"
proof (induction ss arbitrary: n)
  case Nil
  then show ?case by (subst read_frames.simps) (simp add: get_range_def)
next
  case (Cons s ss)
  have ok: "sample_ok s" "encoded_len s \<le> MAX_TOPIC_SAMPLE" using Cons.prems by (auto simp: sample_ok_def)
  show ?case
  proof (cases "length (sample_frame s) \<le> n")
    case True
    then have t: "take n (concat (List.map sample_frame (s # ss))) =
      sample_frame s @ take (n - length (sample_frame s)) (concat (List.map sample_frame ss))" by simp
    have "frame_decode (sample_frame s @ take (n - length (sample_frame s)) (concat (List.map sample_frame ss)))
      = Some (sample_encode s, take (n - length (sample_frame s)) (concat (List.map sample_frame ss)))"
      unfolding sample_frame_def by (rule topic_frames.dec_enc) (simp add: ok(2))
    moreover obtain rest where "read_frames (take (n - length (sample_frame s)) (concat (List.map sample_frame ss)))
      = (whole_frames (n - length (sample_frame s)) ss, [], Some rest)"
      using Cons.IH [of "n - length (sample_frame s)"] Cons.prems by auto
    ultimately show ?thesis unfolding t using True sample_decode_encode [OF ok(1)]
      by (subst read_frames_decode) simp
  next
    case False
    then have lt: "n < length (sample_frame s)" by simp
    then have t: "take n (concat (List.map sample_frame (s # ss))) = take n (sample_frame s)" by simp
    have "read_frames (concat (List.map sample_frame []) @ take n (sample_frame s)) = ([], [], Some (take n (sample_frame s)))"
      using torn_frame [OF ok(1) lt] ok(2) lt by (intro read_frames_samples) auto
    then show ?thesis unfolding t using False by simp
  qed
qed

lemma reader_prefix:
  assumes "list_all sample_ok ss"
  shows "\<exists>r. reader_push reader_new (take n (lane_stream ss)) = (r, whole_frames (n - 2) ss, [])"
proof (cases "n < 2")
  case True
  then have "length (take n (lane_stream ss)) < 2" by simp
  moreover have "whole_frames 0 ss = []" by (cases ss) simp_all
  ultimately show ?thesis using True by (simp add: reader_push_def reader_new_def)
next
  case False
  then have t: "take n (lane_stream ss) =
      [TOPIC_STREAM_MAGIC, TOPIC_STREAM_VERSION] @ take (n - 2) (concat (List.map sample_frame ss))"
    unfolding lane_stream_def by (simp add: numeral_2_eq_2 take_Cons' split: nat.split)
  obtain rest where "read_frames (take (n - 2) (concat (List.map sample_frame ss))) = (whole_frames (n - 2) ss, [], Some rest)"
    using read_frames_prefix [OF assms] by blast
  then show ?thesis unfolding t by (simp add: reader_push_def reader_new_def)
qed

lemma prefix_whole_frames: "prefix (whole_frames n ss) ss"
  by (induction n ss rule: whole_frames.induct) auto

lemma whole_frames_all: "length (concat (List.map sample_frame ss)) \<le> n \<Longrightarrow> whole_frames n ss = ss"
  by (induction ss arbitrary: n) auto

text \<open>C24: the reliable stream reader.  However the stream is cut into reads, the samples and errors
  returned over all of them are those of one read of the whole stream; and of a stream of valid samples
  it has returned, error-free and in order, exactly those whose frames have arrived completely.\<close>

theorem topic_reader_correct:
  "reader_run reader_new ds = reader_push reader_new (concat ds)
   \<and> (list_all sample_ok ss \<and> prefix (concat ds) (lane_stream ss) \<longrightarrow>
        snd (reader_run reader_new ds) = (whole_frames (length (concat ds) - 2) ss, [])
      \<and> (concat ds = lane_stream ss \<longrightarrow> snd (reader_run reader_new ds) = (ss, [])))"
proof (intro conjI impI; (elim conjE)?)
  show run: "reader_run reader_new ds = reader_push reader_new (concat ds)" by (rule reader_run_concat)
  assume ok: "list_all sample_ok ss" and pre: "prefix (concat ds) (lane_stream ss)"
  then have "concat ds = take (length (concat ds)) (lane_stream ss)" by (auto simp: prefix_def)
  with reader_prefix [OF ok, of "length (concat ds)"]
  show del: "snd (reader_run reader_new ds) = (whole_frames (length (concat ds) - 2) ss, [])"
    unfolding run by (metis snd_conv)
  assume all: "concat ds = lane_stream ss"
  have "whole_frames (length (concat ds) - 2) ss = ss"
    unfolding all by (rule whole_frames_all) (simp add: lane_stream_def)
  with del show "snd (reader_run reader_new ds) = (ss, [])" by simp
qed

theorem topic_reader_correct_witness:
  "snd (reader_run reader_new [take 9 (lane_stream [goal_sample]), drop 9 (lane_stream [goal_sample])])
     = ([goal_sample], [])"
proof -
  let ?ds = "[take 9 (lane_stream [goal_sample]), drop 9 (lane_stream [goal_sample])]"
  have "list_all sample_ok [goal_sample]" by code_simp
  moreover have all: "concat ?ds = lane_stream [goal_sample]" by simp
  moreover have "prefix (concat ?ds) (lane_stream [goal_sample])" unfolding all by simp
  ultimately show ?thesis using topic_reader_correct [of ?ds "[goal_sample]"] by blast
qed

section \<open>The outbox over a session\<close>

datatype outbox_op = Push TopicMode TopicSample | PopDatagram nat | Take ReliableLane nat

text \<open>What the session sees of one operation: a sample queued on a lane or refused, a datagram taken
  (or none), bytes taken from a lane.\<close>

datatype outbox_out =
    Superseded | Queued ReliableLane TopicSample | Refused TopicSample
  | Popped "bytes option" | Taken ReliableLane bytes

fun outbox_step :: "TopicOutbox \<Rightarrow> outbox_op \<Rightarrow> (TopicOutbox \<times> outbox_out) option" where
  "outbox_step ob (Push Latest s) = Some (outbox_push ob Latest s, Superseded)"
| "outbox_step ob (Push Reliable s) =
     Some (outbox_push ob Reliable s, if too_much ob s then Refused s else Queued (routed ob s) s)"
| "outbox_step ob (PopDatagram n) = map_option (\<lambda>(ob', d). (ob', Popped d)) (pop_datagram ob n)"
| "outbox_step ob (Take lane n) = Some (consume_reliable ob lane n, Taken lane (take n (reliable_pending ob lane)))"

fun outbox_run :: "TopicOutbox \<Rightarrow> outbox_op list \<Rightarrow> (TopicOutbox \<times> outbox_out list) option" where
  "outbox_run ob [] = Some (ob, [])"
| "outbox_run ob (x # xs) =
     (case outbox_step ob x of None \<Rightarrow> None | Some (ob', out) \<Rightarrow>
        map_option (\<lambda>(ob'', outs). (ob'', out # outs)) (outbox_run ob' xs))"

subsection \<open>Latest mode\<close>

text \<open>The abstract queue: the samples waiting, one per key, oldest key first.\<close>

fun wait_push :: "TopicSample list \<Rightarrow> TopicSample \<Rightarrow> TopicSample list" where
  "wait_push [] s = [s]"
| "wait_push (w # ws) s = (if ts_key w = ts_key s then s # ws else w # wait_push ws s)"

fun wait_pop :: "nat \<Rightarrow> TopicSample list \<Rightarrow> TopicSample list \<times> TopicSample option" where
  "wait_pop n [] = ([], None)"
| "wait_pop n (w # ws) = (if 1 + encoded_len w \<le> n then (ws, Some w) else wait_pop n ws)"

fun wait_run :: "TopicSample list \<Rightarrow> outbox_op list \<Rightarrow> TopicSample list \<times> TopicSample option list" where
  "wait_run ws [] = (ws, [])"
| "wait_run ws (Push Latest s # xs) = wait_run (wait_push ws s) xs"
| "wait_run ws (PopDatagram n # xs) =
     (let (ws', d) = wait_pop n ws; (ws'', ds) = wait_run ws' xs in (ws'', d # ds))"
| "wait_run ws (_ # xs) = wait_run ws xs"

definition topic_datagram :: "TopicSample \<Rightarrow> bytes" where
  "topic_datagram s = DATAGRAM_TAG_TOPIC # sample_encode s"

definition latest_rel :: "TopicOutbox \<Rightarrow> TopicSample list \<Rightarrow> bool" where
  "latest_rel ob ws \<longleftrightarrow>
     ob_order ob = List.map ts_key ws \<and> distinct (List.map ts_key ws)
   \<and> map_of (ob_latest ob) = map_of (List.map (\<lambda>w. (ts_key w, topic_datagram w)) ws)"

lemma keys_wait_push:
  "List.map ts_key (wait_push ws s) =
     (if ts_key s \<in> ts_key ` set ws then List.map ts_key ws else List.map ts_key ws @ [ts_key s])"
  by (induction ws s rule: wait_push.induct) auto

lemma map_wait_push:
  "map_of (List.map (\<lambda>w. (ts_key w, f w)) (wait_push ws s)) =
     (map_of (List.map (\<lambda>w. (ts_key w, f w)) ws))(ts_key s \<mapsto> f s)"
  by (induction ws s rule: wait_push.induct) (auto simp: fun_eq_iff)

lemma map_of_waiting_None:
  "map_of (List.map (\<lambda>w. (ts_key w, f w)) ws) k = None \<longleftrightarrow> k \<notin> ts_key ` set ws"
  by (induction ws) auto

lemma latest_rel_push: "latest_rel ob ws \<Longrightarrow> latest_rel (push_latest ob s) (wait_push ws s)"
  using map_of_waiting_None [of topic_datagram ws "ts_key s"]
  by (cases "ts_key s \<in> ts_key ` set ws")
    (auto simp: latest_rel_def push_latest_def Let_def keys_wait_push map_wait_push topic_datagram_def)

lemma latest_rel_reliable [simp]:
  "latest_rel (push_reliable ob s) ws \<longleftrightarrow> latest_rel ob ws"
  "latest_rel (consume_reliable ob lane n) ws \<longleftrightarrow> latest_rel ob ws"
  by (auto simp: latest_rel_def push_reliable_def consume_reliable_def Let_def case_prod_beta)

lemma latest_rel_stats [simp]: "latest_rel (ob\<lparr>ob_stats := st\<rparr>) ws \<longleftrightarrow> latest_rel ob ws"
  by (simp add: latest_rel_def)

lemma latest_rel_pop:
  assumes "latest_rel ob ws"
  shows "\<exists>ob'. pop_loop n (List.map ts_key ws) ob = Some (ob', map_option topic_datagram (snd (wait_pop n ws)))
    \<and> latest_rel ob' (fst (wait_pop n ws))"
  using assms
proof (induction ws arbitrary: ob)
  case Nil
  then show ?case by (auto simp: latest_rel_def)
next
  case (Cons w ws)
  have look: "map_of (ob_latest ob) (ts_key w) = Some (topic_datagram w)" using Cons.prems by (simp add: latest_rel_def)
  have fresh: "ts_key w \<notin> ts_key ` set ws" using Cons.prems by (simp add: latest_rel_def)
  then have "map_of (List.map (\<lambda>w. (ts_key w, topic_datagram w)) ws) (ts_key w) = None"
    by (simp add: map_of_waiting_None)
  then have rel: "latest_rel (ob\<lparr>ob_order := List.map ts_key ws, ob_latest := AList.delete (ts_key w) (ob_latest ob)\<rparr>) ws"
    using Cons.prems by (auto simp: latest_rel_def fun_eq_iff)
  have len: "length (topic_datagram w) = 1 + encoded_len w" by (simp add: topic_datagram_def)
  show ?case
  proof (cases "1 + encoded_len w \<le> n")
    case True
    with look rel len show ?thesis by (simp add: Let_def)
  next
    case False
    with look len Cons.IH [of "ob\<lparr>ob_order := List.map ts_key ws, ob_latest := AList.delete (ts_key w) (ob_latest ob),
      ob_stats := (ob_stats ob)\<lparr>os_latest_oversize := os_latest_oversize (ob_stats ob) + 1\<rparr>\<rparr>"] rel
    show ?thesis by (simp add: Let_def)
  qed
qed

fun popped :: "outbox_out list \<Rightarrow> bytes option list" where
  "popped [] = []"
| "popped (Popped d # outs) = d # popped outs"
| "popped (_ # outs) = popped outs"

lemma latest_rel_run:
  "latest_rel ob ws \<Longrightarrow> \<exists>ob' outs. outbox_run ob xs = Some (ob', outs) \<and> latest_rel ob' (fst (wait_run ws xs))
    \<and> popped outs = List.map (map_option topic_datagram) (snd (wait_run ws xs))"
proof (induction xs arbitrary: ob ws)
  case (Cons x xs)
  show ?case
  proof (cases x)
    case (Push mode s)
    show ?thesis
    proof (cases mode)
      case Latest
      from Cons.IH [OF latest_rel_push [OF Cons.prems], of s] show ?thesis
        by (auto simp: Push Latest outbox_push_def)
    next
      case Reliable
      from Cons.IH [of "push_reliable ob s" ws] Cons.prems show ?thesis
        by (auto simp: Push Reliable outbox_push_def)
    qed
  next
    case (PopDatagram n)
    obtain ws' d where w: "wait_pop n ws = (ws', d)" by (cases "wait_pop n ws")
    obtain ob1 where p: "pop_datagram ob n = Some (ob1, map_option topic_datagram d)" "latest_rel ob1 ws'"
      using latest_rel_pop [OF Cons.prems, of n] Cons.prems w by (auto simp: pop_datagram_def latest_rel_def)
    from Cons.IH [OF p(2)] w p(1) show ?thesis by (auto simp: PopDatagram case_prod_beta)
  next
    case (Take lane n)
    from Cons.IH [of "consume_reliable ob lane n" ws] Cons.prems show ?thesis by (auto simp: Take)
  qed
qed simp

text \<open>C25: latest-mode forwarding.  The outbox never panics, whatever is pushed, popped or taken; and the
  datagrams it hands out are exactly those of an abstract queue that keeps, per key, only the newest
  sample not yet sent, in the order in which the keys began to wait, and skips what does not fit.\<close>

theorem outbox_latest_refines_queue:
  "\<exists>ob outs. outbox_run (with_backlog n) xs = Some (ob, outs)
     \<and> popped outs = List.map (map_option topic_datagram) (snd (wait_run [] xs))
     \<and> ob_order ob = List.map ts_key (fst (wait_run [] xs))"
proof -
  have "latest_rel (with_backlog n) []" by (simp add: latest_rel_def with_backlog_def)
  from latest_rel_run [OF this, of xs] show ?thesis by (auto simp: latest_rel_def)
qed

subsection \<open>Reliable mode\<close>

fun queued :: "ReliableLane \<Rightarrow> outbox_out list \<Rightarrow> TopicSample list" where
  "queued lane [] = []"
| "queued lane (Queued l s # outs) = (if l = lane then s # queued lane outs else queued lane outs)"
| "queued lane (_ # outs) = queued lane outs"

fun taken :: "ReliableLane \<Rightarrow> outbox_out list \<Rightarrow> bytes" where
  "taken lane [] = []"
| "taken lane (Taken l bs # outs) = (if l = lane then bs @ taken lane outs else taken lane outs)"
| "taken lane (_ # outs) = taken lane outs"

lemma queued_append [simp]: "queued lane (xs @ ys) = queued lane xs @ queued lane ys"
  by (induction lane xs rule: queued.induct) auto

lemma taken_append [simp]: "taken lane (xs @ ys) = taken lane xs @ taken lane ys"
  by (induction lane xs rule: taken.induct) auto

text \<open>Where the frames of a lane's samples end, counted in the lane's bytes.\<close>

fun frame_ends :: "nat \<Rightarrow> TopicSample list \<Rightarrow> (bytes \<times> nat) list" where
  "frame_ends k [] = []"
| "frame_ends k (s # ss) = (ts_key s, k + 4 + encoded_len s) # frame_ends (k + 4 + encoded_len s) ss"

definition lane_bytes :: "TopicSample list \<Rightarrow> bytes" where
  "lane_bytes ss = (if ss = [] then [] else lane_stream ss)"

definition lane_inv :: "Lane \<Rightarrow> TopicSample list \<Rightarrow> bytes \<Rightarrow> bool" where
  "lane_inv l ss taken_bytes \<longleftrightarrow>
     taken_bytes @ ln_buf l = lane_bytes ss \<and> ln_started l = (ss \<noteq> []) \<and> ln_consumed l = length taken_bytes"

definition pending_of :: "(bytes \<times> nat) list \<Rightarrow> bytes \<Rightarrow> nat option" where
  "pending_of fs k = (let n = length (filter (\<lambda>f. fst f = k) fs) in if n = 0 then None else Some n)"

definition outbox_inv :: "nat \<Rightarrow> TopicOutbox \<Rightarrow> outbox_out list \<Rightarrow> bool" where
  "outbox_inv n ob outs \<longleftrightarrow>
     ob_reliable_backlog ob = n
   \<and> (\<forall>lane. lane_inv (ob_lanes ob lane) (queued lane outs) (taken lane outs)
        \<and> length (ln_buf (ob_lanes ob lane)) \<le> n + 2)
   \<and> ln_frames (ob_lanes ob Small) = []
   \<and> ln_frames (ob_lanes ob Large) = filter (\<lambda>f. length (taken Large outs) < snd f) (frame_ends 2 (queued Large outs))
   \<and> map_of (ob_large_pending ob) = pending_of (ln_frames (ob_lanes ob Large))"

lemma lane_bytes_snoc:
  "lane_bytes (ss @ [s]) =
     (if ss = [] then [TOPIC_STREAM_MAGIC, TOPIC_STREAM_VERSION] else lane_bytes ss)
       @ be32 (word_of_nat (encoded_len s)) @ sample_encode s"
  by (simp add: lane_bytes_def lane_stream_def sample_frame_def frame_encode_def)

lemma lane_inv_write:
  "lane_inv l ss tb \<Longrightarrow> lane_inv (lane_write l s) (ss @ [s]) tb"
  by (cases "ss = []") (auto simp: lane_inv_def lane_write_def lane_bytes_def lane_stream_def sample_frame_def frame_encode_def Let_def)

lemma lane_write_facts:
  "length (ln_buf (lane_write l s)) \<le> length (ln_buf l) + 2 + 4 + encoded_len s"
  "ln_started l \<Longrightarrow> length (ln_buf (lane_write l s)) = length (ln_buf l) + 4 + encoded_len s"
  "ln_frames (lane_write l s) = ln_frames l" "ln_consumed (lane_write l s) = ln_consumed l"
  by (simp_all add: lane_write_def Let_def)

lemma length_lane_bytes: "ss \<noteq> [] \<Longrightarrow> length (lane_bytes ss) = 2 + (\<Sum>s\<leftarrow>ss. 4 + encoded_len s)"
  by (simp add: lane_bytes_def lane_stream_def length_concat comp_def)

lemma frame_ends_snoc:
  "frame_ends k (ss @ [s]) = frame_ends k ss @ [(ts_key s, k + (\<Sum>t\<leftarrow>ss. 4 + encoded_len t) + 4 + encoded_len s)]"
  by (induction ss arbitrary: k) (auto simp: algebra_simps)

lemma frame_ends_keys: "List.map fst (frame_ends k ss) = List.map ts_key ss"
  by (induction k ss rule: frame_ends.induct) auto

lemma frame_ends_gt: "f \<in> set (frame_ends k ss) \<Longrightarrow> k + 4 < snd f"
  by (induction k ss rule: frame_ends.induct) (auto simp: encoded_len_def)

lemma release_frames_ends:
  assumes "map_of m = pending_of (filter (\<lambda>f. c < snd f) (frame_ends k ss))" and "c \<le> c'"
  shows "fst (release_frames c' (filter (\<lambda>f. c < snd f) (frame_ends k ss)) m) = filter (\<lambda>f. c' < snd f) (frame_ends k ss)
   \<and> map_of (snd (release_frames c' (filter (\<lambda>f. c < snd f) (frame_ends k ss)) m))
       = pending_of (filter (\<lambda>f. c' < snd f) (frame_ends k ss))"
  using assms(1)
proof (induction ss arbitrary: k m)
  case Nil
  then show ?case by simp
next
  case (Cons s ss)
  let ?e = "k + 4 + encoded_len s"
  have later: "filter (\<lambda>f. c' < snd f) (frame_ends ?e ss) = frame_ends ?e ss" if "c' < ?e" for c'
    unfolding filter_id_conv using that by (blast dest: frame_ends_gt intro: less_trans [OF that] le_less_trans [OF le_add1])
  consider "?e \<le> c" | "c < ?e" "?e \<le> c'" | "c' < ?e" by linarith
  then show ?case
  proof cases
    case 1
    then show ?thesis using Cons.IH [of m ?e] Cons.prems assms(2) by simp
  next
    case 2
    let ?fs = "filter (\<lambda>f. c < snd f) (frame_ends ?e ss)"
    have m: "map_of m = pending_of ((ts_key s, ?e) # ?fs)" using Cons.prems 2 by simp
    have "map_of (pending_minus (ts_key s) m) = pending_of ?fs"
    proof
      fix x
      show "map_of (pending_minus (ts_key s) m) x = pending_of ?fs x"
        using m by (auto simp: pending_minus_def pending_of_def Let_def)
    qed
    from Cons.IH [OF this] 2 show ?thesis by simp
  next
    case 3
    then show ?thesis using Cons.prems assms(2) later [of c] later [of c'] by simp
  qed
qed

lemma outbox_inv_init: "outbox_inv n (with_backlog n) []"
  by (auto simp: outbox_inv_def with_backlog_def lane_new_def lane_inv_def lane_bytes_def pending_of_def)

lemma outbox_inv_take:
  assumes "outbox_inv n ob outs"
  shows "outbox_inv n (consume_reliable ob lane k) (outs @ [Taken lane (take k (reliable_pending ob lane))])"
proof -
  let ?l = "ob_lanes ob lane"
  define tb where "tb = (\<lambda>lane. taken lane outs)"
  have tb: "taken l outs = tb l" for l by (simp add: tb_def)
  have inv: "lane_inv (ob_lanes ob l) (queued l outs) (tb l)" "length (ln_buf (ob_lanes ob l)) \<le> n + 2"
    "ln_frames (ob_lanes ob Small) = []"
    "ln_frames (ob_lanes ob Large) = filter (\<lambda>f. length (tb Large) < snd f) (frame_ends 2 (queued Large outs))"
    "map_of (ob_large_pending ob) = pending_of (ln_frames (ob_lanes ob Large))" for l
    using assms by (auto simp: outbox_inv_def tb_def)
  let ?t = "take k (ln_buf ?l)"
  have con: "ln_consumed ?l + min k (length (ln_buf ?l)) = length (tb lane @ ?t)"
    using inv(1) [of lane] by (simp add: lane_inv_def min.commute)
  have dr: "drop (min k (length (ln_buf ?l))) (ln_buf ?l) = drop k (ln_buf ?l)" by (simp add: min_def)
  define fr where "fr = release_frames (ln_consumed ?l + min k (length (ln_buf ?l))) (ln_frames ?l) (ob_large_pending ob)"
  have ob': "consume_reliable ob lane k = ob\<lparr>ob_lanes := (ob_lanes ob)(lane := ?l\<lparr>ln_buf := drop k (ln_buf ?l),
      ln_consumed := length (tb lane @ ?t), ln_frames := fst fr\<rparr>), ob_large_pending := snd fr\<rparr>"
    by (simp only: consume_reliable_def Let_def fr_def case_prod_beta dr con) (simp add: con)
  have buf: "lane_inv (?l\<lparr>ln_buf := drop k (ln_buf ?l), ln_consumed := length (tb lane @ ?t), ln_frames := fst fr\<rparr>)
      (queued lane outs) (tb lane @ ?t)"
    using inv(1) [of lane] by (simp add: lane_inv_def)
  show ?thesis
  proof (cases lane)
    case Small
    then have fr: "fr = ([], ob_large_pending ob)" by (simp add: fr_def inv(3))
    show ?thesis using assms inv buf unfolding ob' unfolding Small fr
      by (auto simp: outbox_inv_def reliable_pending_def tb intro: le_trans [OF diff_le_self])
  next
    case Large
    have "fst fr = filter (\<lambda>f. length (tb Large @ ?t) < snd f) (frame_ends 2 (queued Large outs))
      \<and> map_of (snd fr) = pending_of (fst fr)"
      using release_frames_ends [of "ob_large_pending ob" "length (tb Large)" 2 "queued Large outs" "length (tb Large @ ?t)"]
        inv(4,5) unfolding fr_def con by (simp add: Large)
    then show ?thesis using assms inv buf unfolding ob' unfolding Large
      by (auto simp: outbox_inv_def reliable_pending_def tb intro: le_trans [OF diff_le_self])
  qed
qed

lemma outbox_inv_reliable:
  assumes "outbox_inv n ob outs"
  shows "outbox_inv n (push_reliable ob s)
    (outs @ [if too_much ob s then Refused s else Queued (routed ob s) s])"
proof (cases "too_much ob s")
  case True
  then show ?thesis using assms by (simp add: push_reliable_def outbox_inv_def Let_def)
next
  case False
  let ?L = "routed ob s"
  have room: "length (ln_buf (ob_lanes ob ?L)) + 4 + encoded_len s \<le> n"
    using False assms by (simp add: too_much_def outbox_inv_def)
  have w: "lane_inv (lane_write (ob_lanes ob ?L) s) (queued ?L outs @ [s]) (taken ?L outs)"
    using assms by (intro lane_inv_write) (simp add: outbox_inv_def)
  have len: "length (ln_buf (lane_write (ob_lanes ob ?L) s)) \<le> n + 2"
    using lane_write_facts(1) [of "ob_lanes ob ?L" s] room by linarith
  show ?thesis
  proof (cases ?L)
    case Small
    then show ?thesis using False assms w len lane_write_facts(3) [of "ob_lanes ob Small" s]
      by (auto simp: push_reliable_def outbox_inv_def Let_def)
  next
    case Large
    let ?l = "lane_write (ob_lanes ob Large) s"
    have "length (taken Large outs) + length (ln_buf ?l) = length (lane_bytes (queued Large outs @ [s]))"
      using w Large by (simp add: lane_inv_def) (metis length_append)
    then have e: "ln_consumed ?l + length (ln_buf ?l) = 2 + (\<Sum>t\<leftarrow>queued Large outs. 4 + encoded_len t) + 4 + encoded_len s"
      using w Large by (simp add: lane_inv_def length_lane_bytes)
    have e': "length (taken Large outs) + length (ln_buf ?l) = 2 + (\<Sum>t\<leftarrow>queued Large outs. 4 + encoded_len t) + 4 + encoded_len s"
      using w Large e by (simp add: lane_inv_def)
    have "0 < length (ln_buf ?l)" by (simp add: lane_write_def Let_def)
    then have gt: "length (taken Large outs) < ln_consumed ?l + length (ln_buf ?l)"
      using w Large by (simp add: lane_inv_def)
    have pend: "map_of (ob_large_pending ob) = pending_of (ln_frames (ob_lanes ob Large))"
      using assms by (simp add: outbox_inv_def)
    have "(map_of (ob_large_pending ob))(ts_key s \<mapsto>
        (case map_of (ob_large_pending ob) (ts_key s) of Some n \<Rightarrow> n | None \<Rightarrow> 0) + 1)
      = pending_of (ln_frames (ob_lanes ob Large) @ [(ts_key s, e)])" for e
      unfolding pend by (auto simp: pending_of_def Let_def fun_eq_iff)
    then show ?thesis using False assms w len Large gt [unfolded e] lane_write_facts(3,4) [of "ob_lanes ob Large" s]
      by (auto simp: push_reliable_def outbox_inv_def Let_def frame_ends_snoc e e' lane_inv_def)
  qed
qed

lemma outbox_inv_latest: "outbox_inv n ob outs \<Longrightarrow> outbox_inv n (push_latest ob s) (outs @ [Superseded])"
  by (simp add: outbox_inv_def push_latest_def Let_def)

lemma pop_loop_keeps:
  "pop_loop k order ob = Some (ob', d) \<Longrightarrow>
    ob_lanes ob' = ob_lanes ob \<and> ob_large_pending ob' = ob_large_pending ob
    \<and> ob_reliable_backlog ob' = ob_reliable_backlog ob"
  by (induction k order ob rule: pop_loop.induct) (auto simp: Let_def split: option.splits if_splits)

lemma outbox_inv_step:
  assumes "outbox_inv n ob outs" and "outbox_step ob x = Some (ob', out)"
  shows "outbox_inv n ob' (outs @ [out])"
proof (cases x)
  case (Push mode s)
  with assms show ?thesis
    using outbox_inv_latest [OF assms(1), of s] outbox_inv_reliable [OF assms(1), of s]
    by (cases mode) (auto simp: outbox_push_def)
next
  case (PopDatagram k)
  with assms show ?thesis
    by (auto simp: pop_datagram_def outbox_inv_def dest!: pop_loop_keeps)
next
  case (Take lane k)
  with assms outbox_inv_take [OF assms(1)] show ?thesis by auto
qed

lemma outbox_inv_run:
  "outbox_inv n ob outs \<Longrightarrow> outbox_run ob xs = Some (ob', outs') \<Longrightarrow> outbox_inv n ob' (outs @ outs')"
proof (induction xs arbitrary: ob outs outs')
  case (Cons x xs)
  then obtain ob1 out outs1 where "outbox_step ob x = Some (ob1, out)" "outbox_run ob1 xs = Some (ob', outs1)"
    "outs' = out # outs1" by (auto split: option.splits)
  with Cons.IH [of ob1 "outs @ [out]"] outbox_inv_step [OF Cons.prems(1)] show ?case by simp
qed simp

lemma queued_pushed:
  "outbox_run ob xs = Some (ob', outs) \<Longrightarrow> s \<in> set (queued lane outs) \<Longrightarrow> Push Reliable s \<in> set xs"
proof (induction xs arbitrary: ob outs)
  case (Cons x xs)
  then obtain ob1 out outs1 where st: "outbox_step ob x = Some (ob1, out)" "outbox_run ob1 xs = Some (ob', outs1)"
    "outs = out # outs1" by (auto split: option.splits)
  show ?case
  proof (cases "s \<in> set (queued lane outs1)")
    case True
    with Cons.IH [OF st(2)] show ?thesis by simp
  next
    case False
    with Cons.prems(2) st(1,3) show ?thesis
      by (cases "(ob, x)" rule: outbox_step.cases) (auto split: if_splits)
  qed
qed simp

lemma whole_frames_key:
  "\<forall>f \<in> set (frame_ends k ss). fst f = key \<longrightarrow> snd f \<le> k + n \<Longrightarrow>
    filter (\<lambda>s. ts_key s = key) (whole_frames n ss) = filter (\<lambda>s. ts_key s = key) ss"
proof (induction n ss arbitrary: k rule: whole_frames.induct)
  case (2 n s ss)
  show ?case
  proof (cases "length (sample_frame s) \<le> n")
    case True
    then have "k + (4 + encoded_len s) + (n - length (sample_frame s)) = k + n" by simp
    with "2.IH" [OF True, of "k + 4 + encoded_len s"] "2.prems" True show ?thesis by (simp add: add.assoc)
  next
    case False
    then have "filter (\<lambda>s. ts_key s = key) (s # ss) = []"
    proof -
      have "k + n < snd f" if "f \<in> set (frame_ends k (s # ss))" for f
        using that False frame_ends_gt [of f "k + 4 + encoded_len s" ss] by auto
      then have no: "fst f \<noteq> key" if "f \<in> set (frame_ends k (s # ss))" for f
        using that "2.prems" by (metis not_less)
      have "fst ` set (frame_ends k (s # ss)) = ts_key ` set (s # ss)"
        using arg_cong [OF frame_ends_keys [of k "s # ss"], of set] by (simp only: set_map)
      with no have "key \<notin> ts_key ` set (s # ss)" by (metis image_iff)
      then show ?thesis by (auto simp: filter_empty_conv)
    qed
    then show ?thesis using False by simp
  qed
qed simp

lemma routed_history:
  assumes "outbox_inv n ob outs"
  shows "routed ob s = (if SMALL_SAMPLE_MAX < encoded_len s
      \<or> (\<exists>f \<in> set (frame_ends 2 (queued Large outs)). fst f = ts_key s \<and> length (taken Large outs) < snd f)
    then Large else Small)"
proof -
  have "map_of (ob_large_pending ob) (ts_key s) \<noteq> None \<longleftrightarrow>
      (\<exists>f \<in> set (frame_ends 2 (queued Large outs)). fst f = ts_key s \<and> length (taken Large outs) < snd f)"
    using assms by (auto simp: outbox_inv_def pending_of_def Let_def filter_empty_conv)
  then show ?thesis by (simp add: routed_def)
qed

text \<open>C26: Reliable forwarding, end to end.  In every run, what a peer's reader has returned for the bytes
  the transport took from a lane is, without errors and in order, a prefix of the samples queued on
  that lane, and all of them once the lane is empty; only samples that were pushed are queued, and the bytes waiting
  on a lane never exceed the backlog by more than the stream header.  The next sample pushed goes to the large lane
  exactly if it is over 16 KiB or a sample of its key has not been taken whole from there (so when it goes to the small one,
  the peer has all of its key's samples of the large one, if the transport delivers what it took); and it is refused
  exactly if it is over 16 MiB or does not fit into the backlog behind what waits on its lane.\<close>

theorem outbox_reliable_delivers:
  assumes run: "outbox_run (with_backlog n) xs = Some (ob, outs)"
    and ok: "list_all (\<lambda>x. case x of Push _ s \<Rightarrow> sample_ok s | _ \<Rightarrow> True) xs"
  shows "(\<exists>got. snd (reader_push reader_new (taken lane outs)) = (got, []) \<and> prefix got (queued lane outs)
      \<and> (reliable_pending ob lane = [] \<longrightarrow> got = queued lane outs)
      \<and> (lane = Large \<and> routed ob s = Small \<longrightarrow>
           filter (\<lambda>t. ts_key t = ts_key s) got = filter (\<lambda>t. ts_key t = ts_key s) (queued Large outs)))
    \<and> set (queued lane outs) \<subseteq> {s. Push Reliable s \<in> set xs}
    \<and> length (reliable_pending ob lane) \<le> n + 2
    \<and> map_option snd (outbox_step ob (Push Reliable s)) =
        (let large = 16 * 1024 < encoded_len s
           \<or> (\<exists>f \<in> set (frame_ends 2 (queued Large outs)). fst f = ts_key s \<and> length (taken Large outs) < snd f);
             own = (if large then Large else Small)
         in Some (if 16 * 1024 * 1024 < encoded_len s \<or> n < length (reliable_pending ob own) + 4 + encoded_len s
                  then Refused s else Queued own s))"
proof (intro conjI)
  have inv: "outbox_inv n ob outs" using outbox_inv_run [OF outbox_inv_init run] by simp
  show sub: "set (queued lane outs) \<subseteq> {s. Push Reliable s \<in> set xs}" using queued_pushed [OF run] by blast
  show "length (reliable_pending ob lane) \<le> n + 2" using inv by (simp add: outbox_inv_def reliable_pending_def)
  have "ob_reliable_backlog ob = n" using inv by (simp add: outbox_inv_def)
  with routed_history [OF inv, of s]
  show "map_option snd (outbox_step ob (Push Reliable s)) =
        (let large = 16 * 1024 < encoded_len s
           \<or> (\<exists>f \<in> set (frame_ends 2 (queued Large outs)). fst f = ts_key s \<and> length (taken Large outs) < snd f);
             own = (if large then Large else Small)
         in Some (if 16 * 1024 * 1024 < encoded_len s \<or> n < length (reliable_pending ob own) + 4 + encoded_len s
                  then Refused s else Queued own s))"
    by (simp add: too_much_def reliable_pending_def SMALL_SAMPLE_MAX_def MAX_TOPIC_SAMPLE_def Let_def)
  have oks: "list_all sample_ok (queued lane outs)"
    using sub ok by (fastforce simp: list_all_iff)
  have li: "taken lane outs @ ln_buf (ob_lanes ob lane) = lane_bytes (queued lane outs)"
    using inv by (simp add: outbox_inv_def lane_inv_def)
  let ?n = "length (taken lane outs)"
  let ?got = "whole_frames (?n - 2) (queued lane outs)"
  have got: "snd (reader_push reader_new (taken lane outs)) = (?got, [])"
  proof (cases "queued lane outs = []")
    case True
    then have "taken lane outs = []" using li by (simp add: lane_bytes_def)
    then show ?thesis using True by (simp add: reader_push_def reader_new_def)
  next
    case False
    then have "taken lane outs = take ?n (lane_stream (queued lane outs))"
      using li by (metis append_eq_conv_conj lane_bytes_def)
    with reader_prefix [OF oks, of ?n] show ?thesis by (metis snd_conv)
  qed
  have all: "?got = queued lane outs" if "reliable_pending ob lane = []"
  proof (cases "queued lane outs = []")
    case False
    then have "taken lane outs = lane_stream (queued lane outs)"
      using li that by (simp add: reliable_pending_def lane_bytes_def)
    then show ?thesis by (intro whole_frames_all) (simp add: lane_stream_def)
  qed simp
  have key: "filter (\<lambda>t. ts_key t = ts_key s) ?got = filter (\<lambda>t. ts_key t = ts_key s) (queued Large outs)"
    if "lane = Large" "routed ob s = Small"
  proof -
    have "map_of (ob_large_pending ob) (ts_key s) = None" using that(2) by (simp add: routed_def split: if_splits)
    then have "filter (\<lambda>f. fst f = ts_key s) (filter (\<lambda>f. ?n < snd f) (frame_ends 2 (queued Large outs))) = []"
      using inv that(1) by (simp add: outbox_inv_def pending_of_def Let_def split: if_splits)
    then have le: "snd f \<le> ?n" if "f \<in> set (frame_ends 2 (queued Large outs))" "fst f = ts_key s" for f
      using that by (auto simp: filter_empty_conv not_less)
    have "\<forall>f \<in> set (frame_ends 2 (queued Large outs)). fst f = ts_key s \<longrightarrow> snd f \<le> 2 + (?n - 2)"
      using le frame_ends_gt by fastforce
    from whole_frames_key [OF this] that(1) show ?thesis by simp
  qed
  show "\<exists>got. snd (reader_push reader_new (taken lane outs)) = (got, []) \<and> prefix got (queued lane outs)
      \<and> (reliable_pending ob lane = [] \<longrightarrow> got = queued lane outs)
      \<and> (lane = Large \<and> routed ob s = Small \<longrightarrow>
           filter (\<lambda>t. ts_key t = ts_key s) got = filter (\<lambda>t. ts_key t = ts_key s) (queued Large outs))"
    using got prefix_whole_frames all key by blast
qed

theorem outbox_reliable_delivers_witness:
  "\<exists>ob outs got. outbox_run (with_backlog 100) [Push Reliable goal_sample, Take Small 100] = Some (ob, outs)
     \<and> queued Small outs = [goal_sample]
     \<and> snd (reader_push reader_new (taken Small outs)) = (got, []) \<and> got = [goal_sample]"
proof -
  obtain ob outs where run: "outbox_run (with_backlog 100) [Push Reliable goal_sample, Take Small 100] = Some (ob, outs)"
    by simp
  have ok: "sample_ok goal_sample" by code_simp
  have el: "encoded_len goal_sample = 13" by code_simp
  have r: "routed (with_backlog 100) goal_sample = Small" "\<not> too_much (with_backlog 100) goal_sample"
    by code_simp+
  then have outs: "queued Small outs = [goal_sample]" using run by auto
  have pend: "reliable_pending ob Small = []"
    using run r el by (auto simp: reliable_pending_def consume_reliable_def outbox_push_def push_reliable_def
        lane_write_def with_backlog_def lane_new_def Let_def case_prod_beta)
  have "list_all (\<lambda>x. case x of Push _ s \<Rightarrow> sample_ok s | _ \<Rightarrow> True) [Push Reliable goal_sample, Take Small 100]"
    using ok by simp
  from conjunct1 [OF outbox_reliable_delivers [OF run this, of Small]] pend outs run show ?thesis by auto
qed

end
