(* ===== verification/Sensor.thy ===== *)
theory Sensor
  imports Video Floats
begin

text \<open>
  Sensor slices (\<open>roboprotocol-core/sensor.rs\<close>): a frame of fixed-size elements is dealt out
  over datagrams that each decode on their own, and the receiver's assembler emits frames,
  complete or partial.  The encodings of that file are in theory Sensor_Formats.
\<close>

section \<open>Slices\<close>

definition SLICE_HEADER_LEN :: nat where "SLICE_HEADER_LEN = 1 + 4 + 8 + 2 + 2"
definition DEFAULT_SLICE_PAYLOAD :: nat where "DEFAULT_SLICE_PAYLOAD = MAX_CHUNK_PAYLOAD"

record SliceHeader =
  sh_sensor_id :: u8
  sh_frame_seq :: u32
  sh_capture_time_us :: u64
  sh_slice_index :: u16
  sh_slice_count :: u16

definition slice_header_encode :: "SliceHeader \<Rightarrow> bytes" where
  "slice_header_encode h =
     [sh_sensor_id h] @ be32 (sh_frame_seq h) @ be64 (sh_capture_time_us h)
     @ be16 (sh_slice_index h) @ be16 (sh_slice_count h)"

definition slice_header_decode :: "bytes \<Rightarrow> (SliceHeader \<times> bytes) option" where
  "slice_header_decode bs =
     (if length bs < SLICE_HEADER_LEN then None
      else let h = \<lparr>sh_sensor_id = bs ! 0, sh_frame_seq = of_be32 (slice 1 5 bs),
                    sh_capture_time_us = of_be64 (slice 5 13 bs), sh_slice_index = of_be16 (slice 13 15 bs),
                    sh_slice_count = of_be16 (slice 15 17 bs)\<rparr>
           in if sh_slice_count h \<le> sh_slice_index h then None else Some (h, drop SLICE_HEADER_LEN bs))"

interpretation slice_header: codec slice_header_encode slice_header_decode
  "\<lambda>h. sh_slice_index h < sh_slice_count h"
  by unfold_locales
    (auto simp: slice_header_encode_def slice_header_decode_def SLICE_HEADER_LEN_def slice_def nth_append Let_def not_le)

datatype SliceError =
    ZeroElementSize | ElementTooLarge nat nat | PartialElement nat nat | TooManySlices nat

definition slice_count :: "nat \<Rightarrow> nat \<Rightarrow> nat \<Rightarrow> SliceError + u16" where
  "slice_count element_count element_size max_payload =
     (if element_size = 0 then Inl ZeroElementSize
      else let per_slice = max_payload div element_size
           in if per_slice = 0 then Inl (ElementTooLarge element_size max_payload)
              else let needed = max (div_ceil element_count per_slice) 1
                   in if needed \<le> 65535 then Inr (word_of_nat needed) else Inl (TooManySlices needed))"

text \<open>The loop of \<open>interleave\<close>: element \<open>i\<close> is appended to slice \<open>i % n\<close>.\<close>

fun deal :: "nat \<Rightarrow> nat \<Rightarrow> bytes list \<Rightarrow> bytes list \<Rightarrow> bytes list" where
  "deal n i [] slices = slices"
| "deal n i (e # es) slices = deal n (i + 1) es (slices[i mod n := slices ! (i mod n) @ e])"

definition interleave :: "bytes \<Rightarrow> nat \<Rightarrow> nat \<Rightarrow> SliceError + bytes list" where
  "interleave elements element_size max_payload =
     (if element_size = 0 then Inl ZeroElementSize
      else if length elements mod element_size \<noteq> 0 then Inl (PartialElement (length elements) element_size)
      else case slice_count (length elements div element_size) element_size max_payload of
             Inl e \<Rightarrow> Inl e
           | Inr n \<Rightarrow> Inr (deal (unat n) 0 (chunks_exact element_size elements) (replicate (unat n) [])))"

definition slice_frame :: "u8 \<Rightarrow> u32 \<Rightarrow> u64 \<Rightarrow> bytes \<Rightarrow> nat \<Rightarrow> nat \<Rightarrow> SliceError + bytes list" where
  "slice_frame sensor_id frame_seq capture_time_us elements element_size max_payload =
     map_sum id (\<lambda>payloads.
         List.map (\<lambda>(k, payload).
             DATAGRAM_TAG_SENSOR_SLICE
             # slice_header_encode \<lparr>sh_sensor_id = sensor_id, sh_frame_seq = frame_seq,
                 sh_capture_time_us = capture_time_us, sh_slice_index = word_of_nat k,
                 sh_slice_count = word_of_nat (length payloads)\<rparr>
             @ payload) (enumerate 0 payloads))
       (interleave elements element_size max_payload)"

section \<open>Assembled frames\<close>

record AssembledFrame =
  af_sensor_id :: u8
  af_frame_seq :: u32
  af_capture_time_us :: u64
  af_slices :: "bytes option list"

record Deinterleaved =
  di_bytes :: bytes
  di_present :: "bool list"

definition slices_received :: "AssembledFrame \<Rightarrow> nat" where
  "slices_received f = length (filter (\<lambda>s. s \<noteq> None) (af_slices f))"

definition frame_complete :: "AssembledFrame \<Rightarrow> bool" where
  "frame_complete f \<longleftrightarrow> list_all (\<lambda>s. s \<noteq> None) (af_slices f)"

definition completeness :: "AssembledFrame \<Rightarrow> fl" where
  "completeness f = fdiv B32 (fof_int B32 (int (slices_received f))) (fof_int B32 (int (length (af_slices f))))"

text \<open>\<open>xs[a..a + n].copy_from_slice(ys)\<close>, for \<open>n\<close> the length of \<open>ys\<close>.\<close>

definition copy_at :: "nat \<Rightarrow> 'a list \<Rightarrow> 'a list \<Rightarrow> 'a list" where
  "copy_at a ys xs = take a xs @ ys @ drop (a + length ys) xs"

fun place_slice :: "nat \<Rightarrow> nat \<Rightarrow> nat \<Rightarrow> nat \<Rightarrow> bytes list \<Rightarrow> Deinterleaved \<Rightarrow> Deinterleaved" where
  "place_slice n element_size element_count idx [] d = d"
| "place_slice n element_size element_count idx (e # es) d =
     (if element_count \<le> idx then d
      else place_slice n element_size element_count (idx + n) es
             \<lparr>di_bytes = copy_at (idx * element_size) e (di_bytes d), di_present = (di_present d)[idx := True]\<rparr>)"

fun place_slices :: "nat \<Rightarrow> nat \<Rightarrow> nat \<Rightarrow> nat \<Rightarrow> bytes option list \<Rightarrow> Deinterleaved \<Rightarrow> Deinterleaved" where
  "place_slices n element_size element_count k [] d = d"
| "place_slices n element_size element_count k (None # ss) d = place_slices n element_size element_count (k + 1) ss d"
| "place_slices n element_size element_count k (Some s # ss) d =
     place_slices n element_size element_count (k + 1) ss
       (place_slice n element_size element_count k (chunks_exact element_size s) d)"

definition deinterleave :: "AssembledFrame \<Rightarrow> nat \<Rightarrow> nat \<Rightarrow> Deinterleaved" where
  "deinterleave f element_size element_count =
     (let d = \<lparr>di_bytes = replicate (element_count * element_size) 0, di_present = replicate element_count False\<rparr>
      in if element_size = 0 then d
         else place_slices (length (af_slices f)) element_size element_count 0 (af_slices f) d)"

definition received_elements :: "AssembledFrame \<Rightarrow> nat \<Rightarrow> bytes" where
  "received_elements f element_size =
     (if element_size = 0 then []
      else concat (List.map (\<lambda>s. case s of None \<Rightarrow> []
             | Some s \<Rightarrow> take (length s - length s mod element_size) s) (af_slices f)))"

section \<open>The assembler\<close>

record AssemblyStats =
  as_frames_complete :: nat
  as_frames_partial :: nat
  as_frames_superseded :: nat
  as_slices_late :: nat
  as_slices_duplicate :: nat
  as_slices_inconsistent :: nat

record PendingFrame =
  pf_frame :: AssembledFrame
  pf_first_seen_us :: u64

record FrameAssembler =
  fa_deadline_us :: u64
  fa_max_pending :: nat
  fa_pending :: "(u32, PendingFrame) amap"
  fa_last_emitted :: "u32 option"
  fa_stats :: AssemblyStats

definition assembler_new :: "u64 \<Rightarrow> nat \<Rightarrow> FrameAssembler" where
  "assembler_new deadline_us max_pending =
     \<lparr>fa_deadline_us = deadline_us, fa_max_pending = max max_pending 1, fa_pending = [], fa_last_emitted = None,
      fa_stats = \<lparr>as_frames_complete = 0, as_frames_partial = 0, as_frames_superseded = 0,
                  as_slices_late = 0, as_slices_duplicate = 0, as_slices_inconsistent = 0\<rparr>\<rparr>"

definition deadline_for_rate :: "fl \<Rightarrow> u64" where
  "deadline_for_rate rate_hz =
     word_of_int (fto_int 0 (2 ^ 64 - 1) (fdiv B32 (Fin 1500000) (fmax rate_hz (fround_to B32 (1 / 10)))))"

text \<open>\<open>None\<close> is the panic of \<open>expect\<close>.\<close>

definition emit :: "FrameAssembler \<Rightarrow> u32 \<Rightarrow> (FrameAssembler \<times> AssembledFrame) option" where
  "emit a seq =
     (case map_of (fa_pending a) seq of
        None \<Rightarrow> None
      | Some p \<Rightarrow>
          let frame = pf_frame p;
              pending = AList.delete seq (fa_pending a);
              st = fa_stats a;
              st = (if frame_complete frame then st\<lparr>as_frames_complete := as_frames_complete st + 1\<rparr>
                    else st\<lparr>as_frames_partial := as_frames_partial st + 1\<rparr>);
              older = filter (\<lambda>s. s < seq) (keys pending)
          in Some (a\<lparr>fa_pending := filter (\<lambda>(s, _). s \<notin> set older) pending,
                     fa_stats := st\<lparr>as_frames_superseded := as_frames_superseded st + length older\<rparr>,
                     fa_last_emitted := Some seq\<rparr>, frame))"

definition frame_new :: "SliceHeader \<Rightarrow> u64 \<Rightarrow> PendingFrame" where
  "frame_new h now_us =
     \<lparr>pf_frame = \<lparr>af_sensor_id = sh_sensor_id h, af_frame_seq = sh_frame_seq h,
                  af_capture_time_us = sh_capture_time_us h,
                  af_slices = replicate (unat (sh_slice_count h)) None\<rparr>,
      pf_first_seen_us = now_us\<rparr>"

text \<open>\<open>None\<close> is a panic: of \<open>expect\<close>, or of the index of a slice beyond its frame's count.\<close>

definition on_slice ::
  "FrameAssembler \<Rightarrow> SliceHeader \<Rightarrow> bytes \<Rightarrow> u64 \<Rightarrow> (FrameAssembler \<times> AssembledFrame list) option" where
  "on_slice a h payload now_us =
     (let st = fa_stats a; seq = sh_frame_seq h; i = unat (sh_slice_index h)
      in if (case fa_last_emitted a of None \<Rightarrow> False | Some l \<Rightarrow> seq \<le> l)
         then Some (a\<lparr>fa_stats := st\<lparr>as_slices_late := as_slices_late st + 1\<rparr>\<rparr>, [])
         else
           let entry = (case map_of (fa_pending a) seq of Some p \<Rightarrow> p | None \<Rightarrow> frame_new h now_us);
               a = a\<lparr>fa_pending := sorted_insert seq entry (fa_pending a)\<rparr>;
               slices = af_slices (pf_frame entry)
           in if length slices \<noteq> unat (sh_slice_count h)
              then Some (a\<lparr>fa_stats := st\<lparr>as_slices_inconsistent := as_slices_inconsistent st + 1\<rparr>\<rparr>, [])
              else if length slices \<le> i then None
              else if slices ! i \<noteq> None
              then Some (a\<lparr>fa_stats := st\<lparr>as_slices_duplicate := as_slices_duplicate st + 1\<rparr>\<rparr>, [])
              else
                let frame = (pf_frame entry)\<lparr>af_slices := slices[i := Some payload]\<rparr>;
                    a = a\<lparr>fa_pending := sorted_insert seq (entry\<lparr>pf_frame := frame\<rparr>) (fa_pending a)\<rparr>
                in if frame_complete frame then map_option (\<lambda>(a, f). (a, [f])) (emit a seq)
                   else if fa_max_pending a < length (fa_pending a)
                   then (case keys (fa_pending a) of [] \<Rightarrow> None | oldest # _ \<Rightarrow> map_option (\<lambda>(a, f). (a, [f])) (emit a oldest))
                   else Some (a, []))"

definition u64_saturating_sub :: "u64 \<Rightarrow> u64 \<Rightarrow> u64" where
  "u64_saturating_sub a b = (if b \<le> a then a - b else 0)"

definition expired_frames :: "FrameAssembler \<Rightarrow> u64 \<Rightarrow> u32 list" where
  "expired_frames a now_us =
     keys (filter (\<lambda>(_, p). fa_deadline_us a \<le> u64_saturating_sub now_us (pf_first_seen_us p)) (fa_pending a))"

fun emit_all :: "FrameAssembler \<Rightarrow> u32 list \<Rightarrow> (FrameAssembler \<times> AssembledFrame list) option" where
  "emit_all a [] = Some (a, [])"
| "emit_all a (seq # seqs) =
     (if seq \<in> set (keys (fa_pending a))
      then (case emit a seq of None \<Rightarrow> None | Some (a', f) \<Rightarrow> map_option (\<lambda>(a'', fs). (a'', f # fs)) (emit_all a' seqs))
      else emit_all a seqs)"

definition assembler_poll :: "FrameAssembler \<Rightarrow> u64 \<Rightarrow> (FrameAssembler \<times> AssembledFrame list) option" where
  "assembler_poll a now_us = emit_all a (expired_frames a now_us)"

lemma concat_chunks_exact: "0 < n \<Longrightarrow> n dvd length xs \<Longrightarrow> concat (chunks_exact n xs) = xs"
proof (induction n xs rule: chunks_exact.induct)
  case (1 n xs)
  show ?case
  proof (cases "length xs < n")
    case True
    then have "xs = []" using "1.prems" by (auto dest: nat_dvd_not_less)
    then show ?thesis by simp
  next
    case False
    then have "n dvd length (drop n xs)" using "1.prems" by simp
    with "1.IH" "1.prems" False show ?thesis by (subst chunks_exact.simps) auto
  qed
qed

section \<open>Dealing elements out and putting them back\<close>

definition dealt :: "nat \<Rightarrow> nat \<Rightarrow> nat \<Rightarrow> nat list" where
  "dealt n m k = filter (\<lambda>i. i mod n = k) [0..<m]"

lemma deal_append: "deal n i (xs @ ys) slices = deal n (i + length xs) ys (deal n i xs slices)"
  by (induction n i xs slices rule: deal.induct) simp_all

lemma deal_dealt:
  assumes "0 < n"
  shows "deal n 0 es (replicate n []) = List.map (\<lambda>k. concat (List.map ((!) es) (dealt n (length es) k))) [0..<n]"
proof (induction es rule: rev_induct)
  case Nil
  then show ?case by (simp add: dealt_def map_replicate_const)
next
  case (snoc e es)
  have nth: "List.map ((!) (es @ [e])) (dealt n (length es) k) = List.map ((!) es) (dealt n (length es) k)" for k
    by (rule map_cong) (auto simp: dealt_def nth_append)
  show ?case
    by (rule nth_equalityI)
      (use assms in \<open>auto simp: deal_append snoc nth_list_update nth [unfolded dealt_def] dealt_def\<close>)
qed

lemma dealt_arith:
  assumes "k < n"
  shows "\<exists>c. dealt n m k = List.map (\<lambda>j. k + j * n) [0..<c] \<and> (\<forall>j. j < c \<longleftrightarrow> k + j * n < m)"
proof (induction m)
  case 0
  then show ?case by (auto simp: dealt_def intro: exI [of _ 0])
next
  case (Suc m)
  then obtain c where c: "dealt n m k = List.map (\<lambda>j. k + j * n) [0..<c]" "\<And>j. j < c \<longleftrightarrow> k + j * n < m" by blast
  show ?case
  proof (cases "m mod n = k")
    case True
    then have m: "m = k + (m div n) * n" by (metis mod_mult_div_eq mult.commute)
    have "j < c \<longleftrightarrow> j < m div n" for j
    proof -
      have "j < c \<longleftrightarrow> k + j * n < k + (m div n) * n" using c(2) m by simp
      also have "\<dots> \<longleftrightarrow> j < m div n" using assms by simp
      finally show ?thesis .
    qed
    then have cd: "c = m div n" by (metis linorder_neqE_nat less_irrefl)
    have "dealt n (Suc m) k = dealt n m k @ [m]" using True by (simp add: dealt_def)
    then have "dealt n (Suc m) k = List.map (\<lambda>j. k + j * n) [0..<Suc c]" using c(1) cd m by simp
    moreover have "j < Suc c \<longleftrightarrow> k + j * n < Suc m" for j
    proof -
      have "k + j * n < Suc m \<longleftrightarrow> k + j * n \<le> k + (m div n) * n" using m by linarith
      also have "\<dots> \<longleftrightarrow> j \<le> m div n" using assms by simp
      finally show ?thesis using cd by auto
    qed
    ultimately show ?thesis by blast
  next
    case False
    have "dealt n (Suc m) k = dealt n m k" using False by (simp add: dealt_def)
    moreover have "k + j * n < Suc m \<longleftrightarrow> k + j * n < m" for j
    proof -
      have "(k + j * n) mod n = k" using assms by simp
      then have "k + j * n \<noteq> m" using False by metis
      then show ?thesis by linarith
    qed
    ultimately show ?thesis using c by (intro exI [of _ c]) simp
  qed
qed

lemma copy_at_concat:
  assumes "i < m" and "length e = s" and "\<And>j. j < m \<Longrightarrow> length (f j) = s"
  shows "copy_at (i * s) e (concat (List.map f [0..<m])) = concat (List.map (f(i := e)) [0..<m])"
proof -
  have split: "[0..<m] = [0..<i] @ i # [Suc i..<m]" using assms(1)
    using upt_add_eq_append [of 0 i "m - i"] by (simp add: upt_conv_Cons)
  have len: "length (concat (List.map f [0..<i])) = i * s"
  proof -
    have "List.map length (List.map f [0..<i]) = replicate i s"
      using assms(1,3) by (intro nth_equalityI) auto
    then show ?thesis by (simp only: length_concat sum_list_replicate) simp
  qed
  have same: "List.map (f(i := e)) [0..<i] = List.map f [0..<i]" "List.map (f(i := e)) [Suc i..<m] = List.map f [Suc i..<m]"
    by auto
  show ?thesis unfolding split copy_at_def using len assms(1,2) assms(3) [of i] same by simp
qed

text \<open>What a display holds when the elements of \<open>S\<close> have arrived.\<close>

definition shown :: "bytes list \<Rightarrow> nat \<Rightarrow> nat set \<Rightarrow> Deinterleaved" where
  "shown E s S = \<lparr>di_bytes = concat (List.map (\<lambda>i. if i \<in> S then E ! i else replicate s 0) [0..<length E]),
                  di_present = List.map (\<lambda>i. i \<in> S) [0..<length E]\<rparr>"

lemma shown_insert:
  assumes "i < length E" and "\<forall>e \<in> set E. length e = s"
  shows "\<lparr>di_bytes = copy_at (i * s) (E ! i) (di_bytes (shown E s S)), di_present = (di_present (shown E s S))[i := True]\<rparr>
    = shown E s (insert i S)"
proof -
  have "copy_at (i * s) (E ! i) (concat (List.map (\<lambda>j. if j \<in> S then E ! j else replicate s 0) [0..<length E]))
      = concat (List.map ((\<lambda>j. if j \<in> S then E ! j else replicate s 0)(i := E ! i)) [0..<length E])"
    by (rule copy_at_concat) (use assms in auto)
  moreover have "(\<lambda>j. if j \<in> S then E ! j else replicate s 0)(i := E ! i) = (\<lambda>j. if j \<in> insert i S then E ! j else replicate s 0)"
    by auto
  moreover have "(List.map (\<lambda>j. j \<in> S) [0..<length E])[i := True] = List.map (\<lambda>j. j \<in> insert i S) [0..<length E]"
    using assms(1) by (intro nth_equalityI) (auto simp: nth_list_update)
  ultimately show ?thesis by (simp only: shown_def Deinterleaved.simps)
qed

lemma place_slice_shown:
  assumes "\<forall>e \<in> set E. length e = s"
  shows "\<forall>j < length es. es ! j = E ! (k + j * n) \<and> k + j * n < length E \<Longrightarrow>
    place_slice n s (length E) k es (shown E s S) = shown E s (S \<union> (\<lambda>j. k + j * n) ` {..<length es})"
proof (induction es arbitrary: k S)
  case (Cons e es)
  have e: "e = E ! k" "k < length E" using Cons.prems by auto
  have rest: "\<forall>j < length es. es ! j = E ! (k + n + j * n) \<and> k + n + j * n < length E"
    using Cons.prems by (auto simp: add.assoc dest: spec [of _ "Suc _"])
  have "(\<lambda>j. k + j * n) ` {..<Suc (length es)} = insert k ((\<lambda>j. k + n + j * n) ` {..<length es})"
    by (simp add: lessThan_Suc_eq_insert_0 image_image add.assoc)
  moreover have "place_slice n s (length E) k (e # es) (shown E s S)
      = place_slice n s (length E) (k + n) es (shown E s (insert k S))"
    using e by (simp add: shown_insert [OF e(2) assms])
  ultimately show ?case using Cons.IH [OF rest, of "insert k S"] by simp
qed simp

lemma place_slices_shown:
  assumes E: "\<forall>e \<in> set E. length e = s" "0 < s" and n: "0 < n"
    and pay: "\<And>k. k < n \<Longrightarrow> pay k = concat (List.map ((!) E) (dealt n (length E) k))"
  shows "k + length ss = n \<Longrightarrow> \<forall>j < length ss. ss ! j = (if k + j \<in> R then Some (pay (k + j)) else None) \<Longrightarrow>
    place_slices n s (length E) k ss (shown E s S)
      = shown E s (S \<union> {i. i < length E \<and> k \<le> i mod n \<and> i mod n \<in> R})"
proof (induction ss arbitrary: k S)
  case Nil
  have "{i. i < length E \<and> k \<le> i mod n \<and> i mod n \<in> R} = {}"
    using Nil.prems(1) n by (auto simp: not_le)
  then show ?case by (simp only: place_slices.simps Un_empty_right)
next
  case (Cons x ss)
  have kn: "k < n" using Cons.prems(1) by simp
  have rest: "\<forall>j < length ss. ss ! j = (if k + 1 + j \<in> R then Some (pay (k + 1 + j)) else None)"
    using Cons.prems(2) by (auto dest: spec [of _ "Suc _"])
  have x: "x = (if k \<in> R then Some (pay k) else None)" using Cons.prems(2) by (auto dest: spec [of _ 0])
  have later: "{i. i < length E \<and> k \<le> i mod n \<and> i mod n \<in> R}
      = {i. i < length E \<and> i mod n = k \<and> k \<in> R} \<union> {i. i < length E \<and> k + 1 \<le> i mod n \<and> i mod n \<in> R}"
    by (auto simp: le_less)
  show ?case
  proof (cases "k \<in> R")
    case False
    with Cons.IH [of "k + 1"] Cons.prems(1) rest x later show ?thesis by simp
  next
    case True
    obtain c where c: "dealt n (length E) k = List.map (\<lambda>j. k + j * n) [0..<c]"
      "\<And>j. j < c \<longleftrightarrow> k + j * n < length E" using dealt_arith [OF kn] by blast
    have ch: "chunks_exact s (pay k) = List.map ((!) E) (dealt n (length E) k)"
    proof -
      have "\<forall>e \<in> set (List.map ((!) E) (dealt n (length E) k)). length e = s"
        using E(1) by (auto simp: dealt_def)
      from chunks_exact_concat [OF E(2) this] show ?thesis by (simp add: pay [OF kn])
    qed
    have cls: "(\<lambda>j. k + j * n) ` {..<c} = {i. i < length E \<and> i mod n = k \<and> k \<in> R}"
    proof -
      have "(\<lambda>j. k + j * n) ` {..<c} = set (dealt n (length E) k)" unfolding c(1) by auto
      then show ?thesis using True by (auto simp: dealt_def)
    qed
    have "place_slice n s (length E) k (chunks_exact s (pay k)) (shown E s S)
        = shown E s (S \<union> (\<lambda>j. k + j * n) ` {..<length (chunks_exact s (pay k))})"
      by (rule place_slice_shown [OF E(1)]) (use c in \<open>auto simp: ch\<close>)
    also have "length (chunks_exact s (pay k)) = c" by (simp add: ch c(1))
    finally have "place_slice n s (length E) k (chunks_exact s (pay k)) (shown E s S)
        = shown E s (S \<union> {i. i < length E \<and> i mod n = k \<and> k \<in> R})" unfolding cls .
    with Cons.IH [of "k + 1"] Cons.prems(1) rest x True later show ?thesis by (simp add: Un_assoc)
  qed
qed

text \<open>A frame's datagrams.\<close>

lemma slice_count_Inr:
  "slice_count m s maxp = Inr n \<longleftrightarrow>
     0 < s \<and> s \<le> maxp \<and> max (div_ceil m (maxp div s)) 1 \<le> 65535 \<and> n = word_of_nat (max (div_ceil m (maxp div s)) 1)"
  by (auto simp: slice_count_def Let_def div_eq_0_iff not_less)

lemma unat_u16: "n \<le> 65535 \<Longrightarrow> unat (word_of_nat n :: u16) = n"
  by (simp add: unat_of_nat)

lemma interleave_Inr:
  assumes "interleave elements s maxp = Inr payloads"
  defines "E \<equiv> chunks_exact s elements"
  shows "0 < s \<and> s \<le> maxp \<and> s dvd length elements \<and> length E = length elements div s
    \<and> length payloads = max (div_ceil (length E) (maxp div s)) 1 \<and> length payloads \<le> 65535
    \<and> payloads = List.map (\<lambda>k. concat (List.map ((!) E) (dealt (length payloads) (length E) k))) [0..<length payloads]"
proof -
  have s: "s \<noteq> 0" "length elements mod s = 0" using assms(1) by (auto simp: interleave_def split: if_splits)
  then obtain n where n: "slice_count (length elements div s) s maxp = Inr n"
    "payloads = deal (unat n) 0 E (replicate (unat n) [])"
    using assms(1) by (auto simp: interleave_def E_def split: sum.splits)
  have len: "length E = length elements div s" using s by (simp add: E_def length_chunks_exact)
  let ?n = "max (div_ceil (length elements div s) (maxp div s)) 1"
  have un: "s \<le> maxp" "?n \<le> 65535" "unat n = ?n" using n(1) by (auto simp: slice_count_Inr unat_u16)
  then have "0 < unat n" by simp
  from deal_dealt [OF this, of E] n(2) have p: "payloads = List.map (\<lambda>k. concat (List.map ((!) E) (dealt (unat n) (length E) k))) [0..<unat n]"
    by simp
  then have "length payloads = unat n" by simp
  with p s un len show ?thesis by (auto simp: mod_eq_0_iff_dvd)
qed

lemma slice_frame_Inr:
  "slice_frame sid seq cap elements s maxp = Inr ds \<longleftrightarrow>
    (\<exists>payloads. interleave elements s maxp = Inr payloads \<and>
      ds = List.map (\<lambda>k. DATAGRAM_TAG_SENSOR_SLICE # slice_header_encode \<lparr>sh_sensor_id = sid, sh_frame_seq = seq,
          sh_capture_time_us = cap, sh_slice_index = word_of_nat k, sh_slice_count = word_of_nat (length payloads)\<rparr>
          @ payloads ! k) [0..<length payloads])"
proof -
  have "List.map f (enumerate 0 ps) = List.map (\<lambda>k. f (k, ps ! k)) [0..<length ps]"
    for f :: "nat \<times> bytes \<Rightarrow> bytes" and ps
    by (rule nth_equalityI) (auto simp: nth_enumerate_eq)
  then show ?thesis by (auto simp: slice_frame_def map_sum_def split: sum.splits)
qed

text \<open>The receiver's side of one datagram.\<close>

definition receive_slice :: "bytes \<Rightarrow> (SliceHeader \<times> bytes) option" where
  "receive_slice d = (case untag d of None \<Rightarrow> None
     | Some (t, rest) \<Rightarrow> if t = DATAGRAM_TAG_SENSOR_SLICE then slice_header_decode rest else None)"

lemma receive_slice_sent:
  assumes "k < n" and "n \<le> 65535"
  shows "receive_slice (DATAGRAM_TAG_SENSOR_SLICE # slice_header_encode \<lparr>sh_sensor_id = sid, sh_frame_seq = seq,
      sh_capture_time_us = cap, sh_slice_index = word_of_nat k, sh_slice_count = word_of_nat n\<rparr> @ payload)
    = Some (\<lparr>sh_sensor_id = sid, sh_frame_seq = seq, sh_capture_time_us = cap,
        sh_slice_index = word_of_nat k, sh_slice_count = word_of_nat n\<rparr>, payload)"
proof -
  have "(word_of_nat k :: u16) < word_of_nat n" using assms by (simp add: word_less_nat_alt unat_u16)
  then show ?thesis
    using slice_header.dec_enc [of "\<lparr>sh_sensor_id = sid, sh_frame_seq = seq, sh_capture_time_us = cap,
        sh_slice_index = word_of_nat k, sh_slice_count = word_of_nat n\<rparr>" payload]
    by (simp add: receive_slice_def untag_def)
qed

lemma length_dealt_le:
  assumes "0 < n" "0 < per" "k < n" "n = max (div_ceil m per) 1"
  shows "length (dealt n m k) \<le> per"
proof -
  obtain c where c: "dealt n m k = List.map (\<lambda>j. k + j * n) [0..<c]" "\<And>j. j < c \<longleftrightarrow> k + j * n < m"
    using dealt_arith [OF assms(3)] by blast
  have "m \<le> n * per" using div_ceil_le_iff [OF assms(2), of m n] assms(4) by simp
  then have "\<not> k + per * n < m" by (simp add: mult.commute)
  then show ?thesis using c by (metis diff_zero length_map length_upt not_less)
qed

text \<open>The frame a receiver has when the slices of \<open>R\<close> arrived.\<close>

definition frame_of :: "bytes list \<Rightarrow> nat set \<Rightarrow> bytes option list" where
  "frame_of ds R = List.map (\<lambda>k. if k \<in> R then map_option snd (receive_slice (ds ! k)) else None) [0..<length ds]"

lemma slice_frame_sent:
  assumes "slice_frame sid seq cap elements s maxp = Inr ds"
  obtains ps where "interleave elements s maxp = Inr ps" and "length ps = length ds"
    and "\<And>k. k < length ps \<Longrightarrow> ps ! k = concat (List.map ((!) (chunks_exact s elements))
      (dealt (length ps) (length (chunks_exact s elements)) k))"
    and "\<And>k. k < length ps \<Longrightarrow> ds ! k = DATAGRAM_TAG_SENSOR_SLICE # slice_header_encode \<lparr>sh_sensor_id = sid,
      sh_frame_seq = seq, sh_capture_time_us = cap, sh_slice_index = word_of_nat k, sh_slice_count = word_of_nat (length ps)\<rparr>
      @ ps ! k"
    and "\<And>k. k < length ps \<Longrightarrow> receive_slice (ds ! k) = Some (\<lparr>sh_sensor_id = sid, sh_frame_seq = seq,
      sh_capture_time_us = cap, sh_slice_index = word_of_nat k, sh_slice_count = word_of_nat (length ps)\<rparr>, ps ! k)"
proof -
  let ?E = "chunks_exact s elements"
  obtain ps where ps: "interleave elements s maxp = Inr ps"
    "ds = List.map (\<lambda>k. DATAGRAM_TAG_SENSOR_SLICE # slice_header_encode \<lparr>sh_sensor_id = sid, sh_frame_seq = seq,
          sh_capture_time_us = cap, sh_slice_index = word_of_nat k, sh_slice_count = word_of_nat (length ps)\<rparr>
          @ ps ! k) [0..<length ps]" using assms by (auto simp: slice_frame_Inr)
  note i = interleave_Inr [OF ps(1)]
  have n: "length ps \<le> 65535" using i by auto
  have pk: "ps ! k = concat (List.map ((!) ?E) (dealt (length ps) (length ?E) k))" if "k < length ps" for k
    using i that by (metis (no_types, lifting) diff_zero length_upt nth_map nth_upt add_0)
  have rc: "receive_slice (ds ! k) = Some (\<lparr>sh_sensor_id = sid, sh_frame_seq = seq, sh_capture_time_us = cap,
      sh_slice_index = word_of_nat k, sh_slice_count = word_of_nat (length ps)\<rparr>, ps ! k)" if "k < length ps" for k
    using receive_slice_sent [OF that n] that ps(2) by simp
  show thesis by (rule that [OF ps(1) _ pk _ rc]) (simp_all add: ps(2))
qed

lemma slice_frame_nonempty:
  assumes "slice_frame sid seq cap elements s maxp = Inr ds"
  shows "0 < length ds"
proof -
  obtain ps where ps: "interleave elements s maxp = Inr ps" "length ps = length ds" using slice_frame_sent [OF assms] .
  then show ?thesis using interleave_Inr [OF ps(1)] by linarith
qed

text \<open>What putting the arrived slices together gives.\<close>

lemma deinterleave_frame_of:
  assumes "slice_frame sid seq cap elements s maxp = Inr ds" and "af_slices f = frame_of ds R"
  shows "deinterleave f s (length elements div s)
    = shown (chunks_exact s elements) s {i. i < length elements div s \<and> i mod length ds \<in> R}"
proof -
  let ?E = "chunks_exact s elements"
  obtain ps where ps: "interleave elements s maxp = Inr ps" "length ps = length ds"
    and pk: "\<And>k. k < length ps \<Longrightarrow> ps ! k = concat (List.map ((!) ?E) (dealt (length ps) (length ?E) k))"
    and rc: "\<And>k. k < length ps \<Longrightarrow> receive_slice (ds ! k) = Some (\<lparr>sh_sensor_id = sid, sh_frame_seq = seq,
      sh_capture_time_us = cap, sh_slice_index = word_of_nat k, sh_slice_count = word_of_nat (length ps)\<rparr>, ps ! k)"
    using slice_frame_sent [OF assms(1)] by metis
  note i = interleave_Inr [OF ps(1)]
  have s: "0 < s" "s \<le> maxp" and lE: "length ?E = length elements div s" and n: "0 < length ps" using i by (auto simp: max_def)
  have Es: "\<forall>e \<in> set ?E. length e = s" by (simp add: chunks_exact_lengths)
  have fr: "af_slices f = List.map (\<lambda>k. if k \<in> R then Some (ps ! k) else None) [0..<length ps]"
    unfolding assms(2) frame_of_def using rc ps(2) by (intro nth_equalityI) auto
  have "deinterleave f s (length ?E) = place_slices (length ps) s (length ?E) 0 (af_slices f) (shown ?E s {})"
  proof -
    have "concat (List.map (\<lambda>i. replicate s 0) [0..<m]) = replicate (m * s) (0 :: u8)" for m
      by (induction m) (simp_all add: replicate_add [symmetric] add.commute)
    then have "shown ?E s {} = \<lparr>di_bytes = replicate (length ?E * s) 0, di_present = replicate (length ?E) False\<rparr>"
      by (simp add: shown_def map_replicate_const)
    then show ?thesis using s by (simp add: deinterleave_def fr)
  qed
  also have "\<dots> = shown ?E s ({} \<union> {i. i < length ?E \<and> 0 \<le> i mod length ps \<and> i mod length ps \<in> R})"
    by (rule place_slices_shown [OF Es s(1) n, of "\<lambda>k. ps ! k"]) (use pk in \<open>auto simp: fr\<close>)
  finally show ?thesis by (simp add: lE ps(2))
qed

text \<open>The receiver's loop over the datagrams that arrive, each with its arrival time.\<close>

fun slices_in :: "FrameAssembler \<Rightarrow> (bytes \<times> u64) list \<Rightarrow> (FrameAssembler \<times> AssembledFrame list) option" where
  "slices_in a [] = Some (a, [])"
| "slices_in a ((d, now_us) # ds) =
     (case receive_slice d of None \<Rightarrow> slices_in a ds
      | Some (h, payload) \<Rightarrow>
          (case on_slice a h payload now_us of None \<Rightarrow> None
           | Some (a', fs) \<Rightarrow> map_option (\<lambda>(a'', fs'). (a'', fs @ fs')) (slices_in a' ds)))"

lemma frame_of_insert:
  assumes "k < length ds" and "receive_slice (ds ! k) = Some (h, p)"
  shows "(frame_of ds R)[k := Some p] = frame_of ds (insert k R)"
  using assms by (auto simp: frame_of_def nth_list_update intro!: nth_equalityI)

lemma frame_of_full:
  assumes "\<And>k. k < length ds \<Longrightarrow> receive_slice (ds ! k) \<noteq> None"
  shows "(\<forall>x \<in> set (frame_of ds R). x \<noteq> None) \<longleftrightarrow> {..<length ds} \<subseteq> R"
  using assms by (fastforce simp: frame_of_def)

text \<open>What the assembler holds of one frame whose slices in \<open>R\<close> arrived, the first of them at \<open>t0\<close>: the
  frame so far, or nothing once it is complete.\<close>

definition frame_held :: "AssembledFrame \<Rightarrow> bytes list \<Rightarrow> u64 \<Rightarrow> nat set \<Rightarrow> FrameAssembler \<Rightarrow> bool" where
  "frame_held f ds t0 R a \<longleftrightarrow> 1 \<le> fa_max_pending a \<and>
     (if {..<length ds} \<subseteq> R then fa_pending a = [] \<and> fa_last_emitted a = Some (af_frame_seq f)
      else fa_last_emitted a = None \<and>
        fa_pending a = (if R = {} then []
          else [(af_frame_seq f, \<lparr>pf_frame = f\<lparr>af_slices := frame_of ds R\<rparr>, pf_first_seen_us = t0\<rparr>)]))"

definition frame_ready :: "AssembledFrame \<Rightarrow> bytes list \<Rightarrow> nat set \<Rightarrow> AssembledFrame list" where
  "frame_ready f ds R = (if {..<length ds} \<subseteq> R then [f\<lparr>af_slices := frame_of ds R\<rparr>] else [])"

lemma on_slice_held:
  assumes held: "frame_held f ds t0 R a" and R: "R \<subseteq> {..<length ds}" and k: "k < length ds" and len: "length ds \<le> 65535"
    and rc: "\<And>j. j < length ds \<Longrightarrow> receive_slice (ds ! j) = Some (\<lparr>sh_sensor_id = af_sensor_id f, sh_frame_seq = af_frame_seq f,
      sh_capture_time_us = af_capture_time_us f, sh_slice_index = word_of_nat j, sh_slice_count = word_of_nat (length ds)\<rparr>, ps j)"
    and t0: "R = {} \<Longrightarrow> t = t0"
  shows "\<exists>a' fs. slices_in a [(ds ! k, t)] = Some (a', fs) \<and> frame_held f ds t0 (insert k R) a'
    \<and> fa_deadline_us a' = fa_deadline_us a \<and> frame_ready f ds (insert k R) = frame_ready f ds R @ fs"
proof -
  define h where "h = (\<lparr>sh_sensor_id = af_sensor_id f, sh_frame_seq = af_frame_seq f, sh_capture_time_us = af_capture_time_us f,
    sh_slice_index = word_of_nat k, sh_slice_count = word_of_nat (length ds)\<rparr> :: SliceHeader)"
  let ?seq = "af_frame_seq f"
  have h: "unat (sh_slice_index h) = k" "unat (sh_slice_count h) = length ds" "sh_frame_seq h = af_frame_seq f"
    "sh_sensor_id h = af_sensor_id f" "sh_capture_time_us h = af_capture_time_us f"
    using k len by (simp_all add: unat_u16 h_def)
  have one: "slices_in a [(ds ! k, t)] = on_slice a h (ps k) t"
    by (simp add: rc [OF k] h_def split: option.splits prod.splits)
  have ins: "insert k R \<subseteq> {..<length ds}" using R k by auto
  show ?thesis
  proof (cases "{..<length ds} \<subseteq> R")
    case True
    then have "insert k R = R" using k by auto
    with True held show ?thesis unfolding one by (simp add: on_slice_def frame_held_def frame_ready_def Let_def h)
  next
    case False
    have none: "fa_last_emitted a = None" using held False by (simp add: frame_held_def)
    define e where "e = (\<lparr>pf_frame = f\<lparr>af_slices := frame_of ds R\<rparr>, pf_first_seen_us = t0\<rparr> :: PendingFrame)"
    have entry: "(case map_of (fa_pending a) ?seq of Some p \<Rightarrow> p | None \<Rightarrow> frame_new h t) = e"
    proof (cases "R = {}")
      case True
      then have "fa_pending a = []" "t = t0" using held False t0 by (simp_all add: frame_held_def)
      moreover have "replicate (length ds) None = frame_of ds R" using True by (auto simp: frame_of_def intro!: nth_equalityI)
      ultimately show ?thesis unfolding e_def by (cases f) (simp add: frame_new_def h)
    qed (use False held in \<open>simp add: frame_held_def e_def\<close>)
    have pend: "sorted_insert ?seq x (fa_pending a) = [(?seq, x)]" for x
      using False held by (cases "R = {}") (simp_all add: frame_held_def)
    have le: "length (frame_of ds R) = length ds" by (simp add: frame_of_def)
    show ?thesis
    proof (cases "k \<in> R")
      case True
      then have there: "frame_of ds R ! k \<noteq> None" "insert k R = R" "R \<noteq> {}"
        using k rc [OF k] by (auto simp: frame_of_def)
      define st where "st = (fa_stats a)\<lparr>as_slices_duplicate := as_slices_duplicate (fa_stats a) + 1\<rparr>"
      have slices: "af_slices (pf_frame e) = frame_of ds R" by (simp add: e_def)
      have "on_slice a h (ps k) t = Some (a\<lparr>fa_pending := [(?seq, e)], fa_stats := st\<rparr>, [])"
        using there(1) k none h by (simp add: on_slice_def Let_def entry pend le slices st_def)
      moreover have "frame_held f ds t0 R (a\<lparr>fa_pending := [(?seq, e)], fa_stats := st\<rparr>)"
        using False held none there(3) by (simp add: frame_held_def e_def)
      ultimately show ?thesis unfolding one there(2) by simp
    next
      case kR: False
      then have fresh: "frame_of ds R ! k = None" using k by (simp add: frame_of_def)
      have upd: "(frame_of ds R)[k := Some (ps k)] = frame_of ds (insert k R)"
        by (rule frame_of_insert [OF k rc [OF k]])
      let ?e = "e\<lparr>pf_frame := (pf_frame e)\<lparr>af_slices := frame_of ds (insert k R)\<rparr>\<rparr>"
      let ?a = "a\<lparr>fa_pending := [(?seq, ?e)]\<rparr>"
      have comp: "frame_complete (pf_frame ?e) \<longleftrightarrow> {..<length ds} \<subseteq> insert k R"
        using frame_of_full [of ds "insert k R"] rc by (simp add: frame_complete_def list_all_iff)
      have nk: "\<not> length ds \<le> k" "\<not> fa_max_pending a < 1" using k held by (simp_all add: frame_held_def)
      have os: "on_slice a h (ps k) t = (if frame_complete (pf_frame ?e) then map_option (\<lambda>(a, f). (a, [f])) (emit ?a ?seq)
         else Some (?a, []))"
        using none fresh nk
        by (simp add: on_slice_def Let_def entry pend h le e_def upd)
      show ?thesis
      proof (cases "{..<length ds} \<subseteq> insert k R")
        case True
        then show ?thesis using held False unfolding one os comp
          by (simp add: emit_def Let_def frame_held_def frame_ready_def e_def)
      next
        case False
        then show ?thesis using held \<open>\<not> {..<length ds} \<subseteq> R\<close> none unfolding one os comp
          by (simp add: frame_held_def frame_ready_def e_def)
      qed
    qed
  qed
qed

lemma slices_in_Cons:
  "slices_in a [x] = Some (a', fs) \<Longrightarrow> slices_in a (x # xs) = map_option (\<lambda>(a'', fs'). (a'', fs @ fs')) (slices_in a' xs)"
  by (cases x) (auto split: option.splits prod.splits simp: option.map_id)

lemma slices_in_held:
  assumes len: "length ds \<le> 65535"
    and rc: "\<And>j. j < length ds \<Longrightarrow> receive_slice (ds ! j) = Some (\<lparr>sh_sensor_id = af_sensor_id f, sh_frame_seq = af_frame_seq f,
      sh_capture_time_us = af_capture_time_us f, sh_slice_index = word_of_nat j, sh_slice_count = word_of_nat (length ds)\<rparr>, ps j)"
  shows "frame_held f ds t0 R a \<Longrightarrow> R \<subseteq> {..<length ds} \<Longrightarrow> (\<forall>(k, t) \<in> set xs. k < length ds) \<Longrightarrow>
    (R = {} \<Longrightarrow> xs \<noteq> [] \<Longrightarrow> snd (hd xs) = t0) \<Longrightarrow>
    \<exists>a' fs. slices_in a (List.map (\<lambda>(k, t). (ds ! k, t)) xs) = Some (a', fs) \<and> frame_held f ds t0 (R \<union> fst ` set xs) a'
      \<and> fa_deadline_us a' = fa_deadline_us a \<and> frame_ready f ds (R \<union> fst ` set xs) = frame_ready f ds R @ fs"
proof (induction xs arbitrary: a R)
  case (Cons x xs)
  obtain k t where x: "x = (k, t)" by (cases x)
  have k: "k < length ds" using Cons.prems x by auto
  obtain a1 fs where a1: "slices_in a [(ds ! k, t)] = Some (a1, fs)" "frame_held f ds t0 (insert k R) a1"
    "fa_deadline_us a1 = fa_deadline_us a" "frame_ready f ds (insert k R) = frame_ready f ds R @ fs"
    using on_slice_held [OF Cons.prems(1,2) k len rc, of t] Cons.prems(4) x by auto
  have "insert k R \<subseteq> {..<length ds}" using Cons.prems(2) k by auto
  with Cons.IH [OF a1(2)] Cons.prems(3) obtain a2 fs' where a2:
    "slices_in a1 (List.map (\<lambda>(k, t). (ds ! k, t)) xs) = Some (a2, fs')" "frame_held f ds t0 (insert k R \<union> fst ` set xs) a2"
    "fa_deadline_us a2 = fa_deadline_us a1" "frame_ready f ds (insert k R \<union> fst ` set xs) = frame_ready f ds (insert k R) @ fs'"
    by auto
  have "insert k R \<union> fst ` set xs = R \<union> fst ` set (x # xs)" by (auto simp: x)
  with a1 a2 slices_in_Cons [OF a1(1)] show ?case by (simp add: x)
qed auto

lemma poll_held:
  assumes held: "frame_held f ds t0 R a" and R: "R \<noteq> {}" and f: "af_slices f = frame_of ds R"
    and t: "t0 \<le> now_us" "fa_deadline_us a \<le> now_us - t0"
  shows "\<exists>a' fs. assembler_poll a now_us = Some (a', fs) \<and> frame_ready f ds R @ fs = [f]"
proof (cases "{..<length ds} \<subseteq> R")
  case True
  then show ?thesis using held f
    by (cases f) (simp add: assembler_poll_def expired_frames_def frame_held_def frame_ready_def)
next
  case False
  then show ?thesis using held f R t
    by (cases f) (simp add: assembler_poll_def expired_frames_def frame_held_def frame_ready_def u64_saturating_sub_def emit_def Let_def)
qed

text \<open>C27: slicing degrades evenly.  When a frame is sliced, there are as many datagrams as its elements
  need at the given payload size (one for an empty frame), none larger than tag, header and payload.
  Whichever of them arrive, at least one, in any order and any number of times, a new assembler that decodes
  them and is polled once the deadline has passed since the first emits exactly one frame, with the frame's
  sensor, sequence number and capture time, and putting it together gives every element of the arrived
  slices in its place, every other element zero and marked absent: element i is shown exactly when slice i
  modulo the number of slices arrived.  If all arrived, the elements are the sender's.\<close>

theorem slicing_degrades_evenly:
  assumes "slice_frame sid seq cap elements s maxp = Inr ds"
    and "arrivals \<noteq> []" and "\<forall>(k, t) \<in> set arrivals. k < length ds"
    and "snd (hd arrivals) \<le> now_us" and "deadline_us \<le> now_us - snd (hd arrivals)"
  shows "length ds = max (div_ceil (length elements div s) (maxp div s)) 1
    \<and> (\<forall>d \<in> set ds. length d \<le> 1 + SLICE_HEADER_LEN + maxp)
    \<and> (\<exists>a fs a' fs' f.
         slices_in (assembler_new deadline_us m) (List.map (\<lambda>(k, t). (ds ! k, t)) arrivals) = Some (a, fs)
       \<and> assembler_poll a now_us = Some (a', fs') \<and> fs @ fs' = [f]
       \<and> af_sensor_id f = sid \<and> af_frame_seq f = seq \<and> af_capture_time_us f = cap
       \<and> deinterleave f s (length elements div s)
           = shown (chunks_exact s elements) s {i. i < length elements div s \<and> i mod length ds \<in> fst ` set arrivals}
       \<and> ({..<length ds} \<subseteq> fst ` set arrivals \<longrightarrow> di_bytes (deinterleave f s (length elements div s)) = elements))"
proof -
  let ?E = "chunks_exact s elements"
  obtain ps where ps: "interleave elements s maxp = Inr ps" "length ps = length ds"
    and pk: "\<And>k. k < length ps \<Longrightarrow> ps ! k = concat (List.map ((!) ?E) (dealt (length ps) (length ?E) k))"
    and dk: "\<And>k. k < length ps \<Longrightarrow> ds ! k = DATAGRAM_TAG_SENSOR_SLICE # slice_header_encode \<lparr>sh_sensor_id = sid,
      sh_frame_seq = seq, sh_capture_time_us = cap, sh_slice_index = word_of_nat k, sh_slice_count = word_of_nat (length ps)\<rparr>
      @ ps ! k"
    and rc: "\<And>k. k < length ps \<Longrightarrow> receive_slice (ds ! k) = Some (\<lparr>sh_sensor_id = sid, sh_frame_seq = seq,
      sh_capture_time_us = cap, sh_slice_index = word_of_nat k, sh_slice_count = word_of_nat (length ps)\<rparr>, ps ! k)"
    using slice_frame_sent [OF assms(1)] by metis
  note i = interleave_Inr [OF ps(1)]
  have s: "0 < s" "s \<le> maxp" and lE: "length ?E = length elements div s" using i by auto
  have n: "length ds = length ps" "0 < length ps" "length ps \<le> 65535"
    "length ps = max (div_ceil (length ?E) (maxp div s)) 1" using i ps(2) by (auto simp: max_def)
  have Es: "\<forall>e \<in> set ?E. length e = s" by (simp add: chunks_exact_lengths)
  define f where "f = \<lparr>af_sensor_id = sid, af_frame_seq = seq, af_capture_time_us = cap, af_slices = frame_of ds (fst ` set arrivals)\<rparr>"
  define R where "R = fst ` set arrivals"
  have fR: "af_slices f = frame_of ds R" by (simp add: f_def R_def)
  note d = deinterleave_frame_of [OF assms(1) fR]
  have small: "length (ds ! k) \<le> 1 + SLICE_HEADER_LEN + maxp" if "k < length ps" for k
  proof -
    have len: "length x = s" if "x \<in> set (List.map ((!) ?E) (dealt (length ps) (length ?E) k))" for x
      using that Es by (auto simp: dealt_def)
    have "length (ps ! k) = length (dealt (length ps) (length ?E) k) * s"
      unfolding pk [OF that] length_concat using len
      by (simp add: map_idI sum_list_triv flip: sum_list_replicate cong: map_cong)
    also have "\<dots> \<le> maxp div s * s"
      using length_dealt_le [OF n(2) _ that n(4)] s by (intro mult_right_mono) (simp_all add: div_greater_zero_iff)
    also have "\<dots> \<le> maxp" by simp
    finally show ?thesis using dk [OF that] by (simp add: slice_header_encode_def SLICE_HEADER_LEN_def)
  qed
  have whole: "di_bytes (deinterleave f s (length elements div s)) = elements" if "{..<length ds} \<subseteq> R"
  proof -
    have "i mod length ds \<in> R" for i
    proof -
      have "i mod length ds < length ds" using n(1,2) by simp
      with that show ?thesis by blast
    qed
    then have "{i. i < length elements div s \<and> i mod length ds \<in> R} = {..<length ?E}" using lE by auto
    then have "di_bytes (deinterleave f s (length elements div s))
      = concat (List.map (\<lambda>i. if i \<in> {..<length ?E} then ?E ! i else replicate s 0) [0..<length ?E])"
      unfolding d by (simp only: shown_def Deinterleaved.simps)
    also have "List.map (\<lambda>i. if i \<in> {..<length ?E} then ?E ! i else replicate s 0) [0..<length ?E]
      = List.map ((!) ?E) [0..<length ?E]" by (rule map_cong) auto
    finally have "di_bytes (deinterleave f s (length elements div s)) = concat (List.map ((!) ?E) [0..<length ?E])" .
    also have "\<dots> = concat ?E" by (simp add: map_nth)
    also have "\<dots> = elements" using i s by (intro concat_chunks_exact) auto
    finally show ?thesis .
  qed
  obtain a fs where a: "slices_in (assembler_new deadline_us m) (List.map (\<lambda>(k, t). (ds ! k, t)) arrivals) = Some (a, fs)"
    "frame_held f ds (snd (hd arrivals)) R a" "fa_deadline_us a = deadline_us" "frame_ready f ds R = fs"
  proof -
    have "\<not> {..<length ds} \<subseteq> {}" using n by auto
    then have "frame_held f ds (snd (hd arrivals)) {} (assembler_new deadline_us m)" "frame_ready f ds {} = []"
      by (simp_all add: frame_held_def frame_ready_def assembler_new_def)
    moreover have "receive_slice (ds ! k) = Some (\<lparr>sh_sensor_id = af_sensor_id f, sh_frame_seq = af_frame_seq f,
        sh_capture_time_us = af_capture_time_us f, sh_slice_index = word_of_nat k, sh_slice_count = word_of_nat (length ds)\<rparr>, ps ! k)"
      if "k < length ds" for k using rc that n(1) by (simp add: f_def)
    ultimately show thesis
      using slices_in_held [of ds f "(!) ps" "snd (hd arrivals)" "{}" "assembler_new deadline_us m" arrivals] n(1,3) assms(3) that
      by (auto simp: R_def assembler_new_def)
  qed
  obtain a' fs' where p: "assembler_poll a now_us = Some (a', fs')" "fs @ fs' = [f]"
    using poll_held [OF a(2) _ fR assms(4)] assms(2,5) a(3,4) R_def by auto
  have id: "af_sensor_id f = sid" "af_frame_seq f = seq" "af_capture_time_us f = cap" by (simp_all add: f_def)
  have all: "\<forall>d \<in> set ds. length d \<le> 1 + SLICE_HEADER_LEN + maxp"
    using small n(1) by (metis in_set_conv_nth)
  have "length ds = max (div_ceil (length elements div s) (maxp div s)) 1" using n lE by simp
  with a(1) p id all d whole show ?thesis unfolding R_def by blast
qed

theorem slicing_degrades_evenly_witness:
  "\<exists>ds a fs a' fs' f. slice_frame 3 1 9 [1, 2, 3, 4, 5, 6] 2 3 = Inr ds \<and> length ds = 3
    \<and> slices_in (assembler_new 50 2) [(ds ! 2, 100), (ds ! 0, 110), (ds ! 2, 120)] = Some (a, fs)
    \<and> assembler_poll a 150 = Some (a', fs') \<and> fs @ fs' = [f] \<and> af_frame_seq f = 1
    \<and> deinterleave f 2 3 = \<lparr>di_bytes = [1, 2, 0, 0, 5, 6], di_present = [True, False, True]\<rparr>"
proof -
  let ?xs = "[(2, 100), (0, 110), (2, 120)] :: (nat \<times> u64) list"
  have three: "length [1, 2, 3, 4, 5, 6 :: u8] div 2 = 3" by simp
  obtain ds where ds: "slice_frame 3 1 9 [1, 2, 3, 4, 5, 6] 2 3 = Inr ds" "length ds = 3"
  proof -
    have "(case slice_frame 3 1 9 [1, 2, 3, 4, 5, 6] 2 3 of Inl _ \<Rightarrow> 0 | Inr ds \<Rightarrow> length ds) = 3" by code_simp
    then show thesis using that by (cases "slice_frame 3 1 9 [1, 2, 3, 4, 5, 6] 2 3") auto
  qed
  have "\<forall>(k, t) \<in> set ?xs. k < length ds" by (simp add: ds)
  moreover have "?xs \<noteq> []" "snd (hd ?xs) \<le> 150" "50 \<le> 150 - snd (hd ?xs)" by simp_all
  ultimately have "\<exists>a fs a' fs' f. slices_in (assembler_new 50 2) (List.map (\<lambda>(k, t). (ds ! k, t)) ?xs) = Some (a, fs)
    \<and> assembler_poll a 150 = Some (a', fs') \<and> fs @ fs' = [f] \<and> af_frame_seq f = 1
    \<and> deinterleave f 2 3 = shown (chunks_exact 2 [1, 2, 3, 4, 5, 6]) 2 {i. i < 3 \<and> i mod length ds \<in> fst ` set ?xs}"
    using slicing_degrades_evenly [OF ds(1), of ?xs 150 50 2, unfolded three] by blast
  then have "\<exists>a fs a' fs' f. slices_in (assembler_new 50 2) [(ds ! 2, 100), (ds ! 0, 110), (ds ! 2, 120)] = Some (a, fs)
    \<and> assembler_poll a 150 = Some (a', fs') \<and> fs @ fs' = [f] \<and> af_frame_seq f = 1
    \<and> deinterleave f 2 3 = shown (chunks_exact 2 [1, 2, 3, 4, 5, 6]) 2 {i. i < 3 \<and> i mod length ds \<in> fst ` set ?xs}"
    by (simp only: list.map prod.case)
  then obtain a fs a' fs' f where
    f: "slices_in (assembler_new 50 2) [(ds ! 2, 100), (ds ! 0, 110), (ds ! 2, 120)] = Some (a, fs)"
    "assembler_poll a 150 = Some (a', fs')" "fs @ fs' = [f]" "af_frame_seq f = 1"
    "deinterleave f 2 3 = shown (chunks_exact 2 [1, 2, 3, 4, 5, 6]) 2 {i. i < 3 \<and> i mod length ds \<in> fst ` set ?xs}"
    by blast
  have "[0..<3] = [0, 1, 2 :: nat]" by code_simp
  moreover have "chunks_exact 2 [1, 2, 3, 4, 5, 6 :: u8] = [[1, 2], [3, 4], [5, 6]]" by code_simp
  moreover have "replicate 2 0 = [0, 0 :: u8]" by code_simp
  ultimately have "deinterleave f 2 3 = \<lparr>di_bytes = [1, 2, 0, 0, 5, 6], di_present = [True, False, True]\<rparr>"
    unfolding f(5) ds(2) by (simp add: shown_def)
  with ds f(1-4) show ?thesis by blast
qed

section \<open>What the assembler emits\<close>

text \<open>The frames a sender has sliced: for each sequence number its sensor, capture time and payloads.\<close>

type_synonym sent_frames = "u32 \<Rightarrow> u8 \<times> u64 \<times> bytes list"

definition sent_slice :: "sent_frames \<Rightarrow> u32 \<Rightarrow> nat \<Rightarrow> SliceHeader \<times> bytes" where
  "sent_slice sent seq k = (case sent seq of (sid, cap, ps) \<Rightarrow>
     (\<lparr>sh_sensor_id = sid, sh_frame_seq = seq, sh_capture_time_us = cap, sh_slice_index = word_of_nat k,
       sh_slice_count = word_of_nat (length ps)\<rparr>, ps ! k))"

definition n_slices :: "sent_frames \<Rightarrow> u32 \<Rightarrow> nat" where
  "n_slices sent seq = length (snd (snd (sent seq)))"

datatype sensor_event = SliceArrives u32 nat u64 | Poll u64

fun sensor_step :: "sent_frames \<Rightarrow> FrameAssembler \<Rightarrow> sensor_event \<Rightarrow> (FrameAssembler \<times> AssembledFrame list) option" where
  "sensor_step sent a (SliceArrives seq k now_us) =
     (case sent_slice sent seq k of (h, payload) \<Rightarrow> on_slice a h payload now_us)"
| "sensor_step sent a (Poll now_us) = assembler_poll a now_us"

fun sensor_run :: "sent_frames \<Rightarrow> FrameAssembler \<Rightarrow> sensor_event list \<Rightarrow> (FrameAssembler \<times> AssembledFrame list) option" where
  "sensor_run sent a [] = Some (a, [])"
| "sensor_run sent a (e # es) =
     (case sensor_step sent a e of None \<Rightarrow> None | Some (a', fs) \<Rightarrow>
        map_option (\<lambda>(a'', fs'). (a'', fs @ fs')) (sensor_run sent a' es))"

fun genuine :: "sent_frames \<Rightarrow> sensor_event \<Rightarrow> bool" where
  "genuine sent (SliceArrives seq k _) \<longleftrightarrow> k < n_slices sent seq"
| "genuine sent (Poll _) \<longleftrightarrow> True"

definition frame_from :: "sent_frames \<Rightarrow> u32 \<Rightarrow> AssembledFrame \<Rightarrow> bool" where
  "frame_from sent seq f \<longleftrightarrow>
     af_frame_seq f = seq \<and> af_sensor_id f = fst (sent seq) \<and> af_capture_time_us f = fst (snd (sent seq))
   \<and> length (af_slices f) = n_slices sent seq
   \<and> (\<forall>k < n_slices sent seq. af_slices f ! k \<in> {None, Some (snd (snd (sent seq)) ! k)})"

definition emitted_before :: "FrameAssembler \<Rightarrow> u32 \<Rightarrow> bool" where
  "emitted_before a seq \<longleftrightarrow> (\<exists>l. fa_last_emitted a = Some l \<and> seq \<le> l)"

definition assembler_inv :: "sent_frames \<Rightarrow> FrameAssembler \<Rightarrow> bool" where
  "assembler_inv sent a \<longleftrightarrow>
     sorted_keys (fa_pending a) \<and> 0 < fa_max_pending a
   \<and> (\<forall>(seq, p) \<in> set (fa_pending a).
        frame_from sent seq (pf_frame p) \<and> \<not> frame_complete (pf_frame p) \<and> \<not> emitted_before a seq)"

definition slice_held :: "FrameAssembler \<Rightarrow> u32 \<Rightarrow> nat \<Rightarrow> bool" where
  "slice_held a seq k \<longleftrightarrow> emitted_before a seq
     \<or> (\<exists>p. map_of (fa_pending a) seq = Some p \<and> k < length (af_slices (pf_frame p)) \<and> af_slices (pf_frame p) ! k \<noteq> None)"

text \<open>Emitting one frame.\<close>

lemma emit_facts:
  assumes "sorted_keys (fa_pending a)" and "map_of (fa_pending a) seq = Some p" and "\<not> emitted_before a seq"
  obtains a' where "emit a seq = Some (a', pf_frame p)"
    and "fa_pending a' = filter (\<lambda>(s, _). seq < s) (fa_pending a)"
    and "fa_last_emitted a' = Some seq" and "fa_max_pending a' = fa_max_pending a"
    and "fa_deadline_us a' = fa_deadline_us a"
    and "\<And>s. emitted_before a s \<Longrightarrow> emitted_before a' s"
proof -
  define older where "older = filter (\<lambda>s. s < seq) (keys (AList.delete seq (fa_pending a)))"
  have "s \<in> set older \<longleftrightarrow> s < seq" if "(s, v) \<in> set (fa_pending a)" for s v
    using that by (force simp: delete_eq_filter older_def)
  then have "filter (\<lambda>(s, _). s \<notin> set older) (AList.delete seq (fa_pending a)) = filter (\<lambda>(s, _). seq < s) (fa_pending a)"
    unfolding delete_eq_filter filter_filter
    by (intro filter_cong refl) (auto split: prod.splits simp: neq_iff)
  moreover have "emitted_before a' s" if "emitted_before a s" "fa_last_emitted a' = Some seq" for a' :: FrameAssembler and s
    using that assms(3) by (auto simp: emitted_before_def)
  ultimately show thesis using assms(2)
    by (intro that [of "fst (the (emit a seq))"]) (auto simp: emit_def Let_def older_def)
qed

lemma oldest_pending: "m = (k, v) # m' \<Longrightarrow> sorted_keys m \<Longrightarrow> map_of m k = Some v"
  by simp

text \<open>One slice.\<close>

definition step_ok :: "sent_frames \<Rightarrow> FrameAssembler \<Rightarrow> FrameAssembler \<Rightarrow> AssembledFrame list \<Rightarrow> bool" where
  "step_ok sent a a' fs \<longleftrightarrow>
     assembler_inv sent a' \<and> fa_max_pending a' = fa_max_pending a \<and> fa_deadline_us a' = fa_deadline_us a
   \<and> (\<forall>s k. slice_held a s k \<longrightarrow> slice_held a' s k)
   \<and> sorted_wrt (<) (List.map af_frame_seq fs)
   \<and> (\<forall>f \<in> set fs. frame_from sent (af_frame_seq f) f \<and> \<not> emitted_before a (af_frame_seq f))
   \<and> fa_last_emitted a' = (if fs = [] then fa_last_emitted a else Some (af_frame_seq (last fs)))"

lemma step_ok_emit:
  assumes sorted: "sorted_keys (fa_pending a)" and maxp: "0 < fa_max_pending a"
    and fr: "\<And>s x. (s, x) \<in> set (fa_pending a) \<Longrightarrow> frame_from sent s (pf_frame x) \<and> \<not> emitted_before a s"
    and nc: "\<And>s x. (s, x) \<in> set (fa_pending a) \<Longrightarrow> seq < s \<Longrightarrow> \<not> frame_complete (pf_frame x)"
    and p: "map_of (fa_pending a) seq = Some p"
  shows "\<exists>a'. emit a seq = Some (a', pf_frame p) \<and> step_ok sent a a' [pf_frame p]
    \<and> fa_pending a' = filter (\<lambda>(s, _). seq < s) (fa_pending a)"
proof -
  have f: "frame_from sent seq (pf_frame p)" "\<not> emitted_before a seq" using fr [OF map_of_SomeD [OF p]] by auto
  then have seq: "af_frame_seq (pf_frame p) = seq" by (simp add: frame_from_def)
  obtain a' where a': "emit a seq = Some (a', pf_frame p)"
    "fa_pending a' = filter (\<lambda>(s, _). seq < s) (fa_pending a)" "fa_last_emitted a' = Some seq"
    "fa_max_pending a' = fa_max_pending a" "fa_deadline_us a' = fa_deadline_us a"
    "\<And>s. emitted_before a s \<Longrightarrow> emitted_before a' s"
    using emit_facts [OF sorted p f(2)] by blast
  have inv: "assembler_inv sent a'" using fr nc sorted maxp a'
    by (auto simp: assembler_inv_def emitted_before_def)
  have held: "slice_held a' s k" if "slice_held a s k" for s k
  proof (cases "emitted_before a' s")
    case True
    then show ?thesis by (simp add: slice_held_def)
  next
    case False
    then have "seq < s" using a'(3) by (auto simp: emitted_before_def)
    with that False a'(2,6) sorted show ?thesis
      by (auto simp: slice_held_def map_of_filter_key sorted_keys_wf)
  qed
  have "step_ok sent a a' [pf_frame p]" unfolding step_ok_def using inv held f seq a'(3,4,5) by simp
  with a'(1,2) show ?thesis by blast
qed

lemma step_ok_stats:
  "assembler_inv sent a \<Longrightarrow> step_ok sent a (a\<lparr>fa_stats := st\<rparr>) [] \<and> (slice_held a s k \<longrightarrow> slice_held (a\<lparr>fa_stats := st\<rparr>) s k)"
  by (simp_all add: step_ok_def assembler_inv_def emitted_before_def slice_held_def)

lemma on_slice_ok:
  assumes inv: "assembler_inv sent a" and k: "k < n_slices sent seq" "n_slices sent seq \<le> 65535"
    and full: "length (fa_pending a) \<le> fa_max_pending a"
  shows "\<exists>a' fs. on_slice a (fst (sent_slice sent seq k)) (snd (sent_slice sent seq k)) now_us = Some (a', fs)
    \<and> step_ok sent a a' fs \<and> slice_held a' seq k \<and> length (fa_pending a') \<le> fa_max_pending a"
proof -
  obtain sid cap ps where sent: "sent seq = (sid, cap, ps)" by (cases "sent seq")
  have n: "n_slices sent seq = length ps" "snd (snd (sent seq)) = ps" by (simp_all add: n_slices_def sent)
  define h where "h = fst (sent_slice sent seq k)"
  have h: "sh_frame_seq h = seq" "unat (sh_slice_index h) = k" "unat (sh_slice_count h) = length ps"
    "sh_sensor_id h = sid" "sh_capture_time_us h = cap" "snd (sent_slice sent seq k) = ps ! k"
    using k n by (simp_all add: h_def sent_slice_def sent unat_u16)
  have sorted: "sorted_keys (fa_pending a)" and maxp: "0 < fa_max_pending a" using inv by (simp_all add: assembler_inv_def)
  show ?thesis
  proof (cases "emitted_before a seq")
    case True
    then obtain l where "fa_last_emitted a = Some l" "seq \<le> l" by (auto simp: emitted_before_def)
    then have "on_slice a h (ps ! k) now_us = Some (a\<lparr>fa_stats := (fa_stats a)\<lparr>as_slices_late := as_slices_late (fa_stats a) + 1\<rparr>\<rparr>, [])"
      by (simp add: on_slice_def h(1) Let_def)
    moreover have "slice_held a seq k" using True by (simp add: slice_held_def)
    ultimately show ?thesis using step_ok_stats [OF inv, of _ seq k] full unfolding h_def [symmetric] h(6) by fastforce
  next
    case False
    then have fresh: "\<not> (case fa_last_emitted a of None \<Rightarrow> False | Some l \<Rightarrow> seq \<le> l)"
      by (auto simp: emitted_before_def split: option.splits)
    let ?e = "case map_of (fa_pending a) seq of Some p \<Rightarrow> p | None \<Rightarrow> frame_new h now_us"
    have e: "frame_from sent seq (pf_frame ?e)"
    proof (cases "map_of (fa_pending a) seq")
      case None
      then show ?thesis using n by (simp add: frame_new_def frame_from_def h sent)
    next
      case (Some p)
      then show ?thesis using inv map_of_SomeD [OF Some] by (auto simp: assembler_inv_def)
    qed
    have notnew: "af_slices (pf_frame ?e) ! k = None" if "map_of (fa_pending a) seq = None"
      using that k n by (simp add: frame_new_def h)
    let ?s = "af_slices (pf_frame ?e)"
    have ls: "length ?s = length ps" using e n by (simp add: frame_from_def)
    show ?thesis
    proof (cases "?s ! k = None")
      case False
      then obtain p where p: "map_of (fa_pending a) seq = Some p" "af_slices (pf_frame p) ! k \<noteq> None"
        using notnew by (cases "map_of (fa_pending a) seq") auto
      have same: "sorted_insert seq p (fa_pending a) = fa_pending a" using sorted p(1) by (rule sorted_insert_same)
      have "on_slice a h (ps ! k) now_us
          = Some (a\<lparr>fa_stats := (fa_stats a)\<lparr>as_slices_duplicate := as_slices_duplicate (fa_stats a) + 1\<rparr>\<rparr>, [])"
        using fresh p ls k n by (simp add: on_slice_def h Let_def same)
      moreover have "slice_held a seq k" using p ls k n by (simp add: slice_held_def)
      ultimately show ?thesis using step_ok_stats [OF inv, of _ seq k] full unfolding h_def [symmetric] h(6) by fastforce
    next
      case True
      define p where "p = ?e\<lparr>pf_frame := (pf_frame ?e)\<lparr>af_slices := ?s[k := Some (ps ! k)]\<rparr>\<rparr>"
      define a1 where "a1 = a\<lparr>fa_pending := sorted_insert seq p (fa_pending a)\<rparr>"
      have pf: "frame_from sent seq (pf_frame p)"
        using e k n by (auto simp: frame_from_def p_def nth_list_update)
      have sorted1: "sorted_keys (fa_pending a1)" using sorted by (simp add: a1_def)
      have map1: "map_of (fa_pending a1) = (map_of (fa_pending a))(seq \<mapsto> p)" using sorted by (simp add: a1_def)
      have held1: "slice_held a1 s j" if held: "slice_held a s j" for s j
      proof (cases "emitted_before a s")
        case True
        then show ?thesis by (simp add: slice_held_def emitted_before_def a1_def)
      next
        case False
        then obtain q where q: "map_of (fa_pending a) s = Some q" "j < length (af_slices (pf_frame q))"
          "af_slices (pf_frame q) ! j \<noteq> None" using held by (auto simp: slice_held_def)
        then have "map_of (fa_pending a1) s = Some (if s = seq then p else q)
          \<and> j < length (af_slices (pf_frame (if s = seq then p else q)))
          \<and> af_slices (pf_frame (if s = seq then p else q)) ! j \<noteq> None"
          by (cases "j = k") (auto simp: map1 p_def)
        then show ?thesis unfolding slice_held_def by blast
      qed
      have new1: "slice_held a1 seq k" using ls k n by (simp add: slice_held_def map1 p_def)
      have os: "on_slice a h (ps ! k) now_us =
          (if frame_complete (pf_frame p) then map_option (\<lambda>(a, f). (a, [f])) (emit a1 seq)
           else if fa_max_pending a1 < length (fa_pending a1)
           then (case keys (fa_pending a1) of [] \<Rightarrow> None | oldest # _ \<Rightarrow> map_option (\<lambda>(a, f). (a, [f])) (emit a1 oldest))
           else Some (a1, []))"
        using fresh True ls k n unfolding a1_def p_def by (simp add: on_slice_def h Let_def)
      have len1: "length (fa_pending a1) \<le> Suc (fa_max_pending a)"
        using full sorted by (simp add: a1_def length_sorted_insert)
      have unemitted: "\<not> emitted_before a1 s" if "(s, x) \<in> set (fa_pending a1)" for s x
        using that inv \<open>\<not> emitted_before a seq\<close> sorted
        by (auto simp: a1_def map_of_sorted_insert_set assembler_inv_def emitted_before_def split: if_splits)
      have fr1: "frame_from sent s (pf_frame x)" if "(s, x) \<in> set (fa_pending a1)" for s x
        using that inv pf sorted by (auto simp: a1_def map_of_sorted_insert_set assembler_inv_def split: if_splits)
      have nc1: "\<not> frame_complete (pf_frame x)" if "(s, x) \<in> set (fa_pending a1)" "s \<noteq> seq" for s x
        using that inv sorted by (auto simp: a1_def map_of_sorted_insert_set assembler_inv_def split: if_splits)
      have lift: "step_ok sent a a' fs" if "step_ok sent a1 a' fs" for a' fs
        using that held1 by (auto simp: step_ok_def a1_def emitted_before_def)
      have maxp1: "0 < fa_max_pending a1" using maxp by (simp add: a1_def)
      show ?thesis
      proof (cases "frame_complete (pf_frame p)")
        case True
        have "\<exists>a'. emit a1 seq = Some (a', pf_frame p) \<and> step_ok sent a1 a' [pf_frame p]
            \<and> fa_pending a' = filter (\<lambda>(s, _). seq < s) (fa_pending a1)"
          by (rule step_ok_emit [OF sorted1 maxp1]) (use fr1 unemitted nc1 map1 in auto)
        then obtain a' where a': "emit a1 seq = Some (a', pf_frame p)" "step_ok sent a1 a' [pf_frame p]"
          "fa_pending a' = filter (\<lambda>(s, _). seq < s) (fa_pending a1)" by blast
        have "\<exists>x. (seq, x) \<in> set (fa_pending a1)" using map1 map_of_SomeD [of "fa_pending a1" seq p] by auto
        then have "length (fa_pending a') < length (fa_pending a1)"
          unfolding a'(3) by (auto intro!: length_filter_less)
        then have "length (fa_pending a') \<le> fa_max_pending a" using len1 by linarith
        moreover have "slice_held a' seq k" using a'(2) new1 by (auto simp: step_ok_def)
        ultimately show ?thesis using lift [OF a'(2)] a'(1) True
          unfolding h_def [symmetric] h(6) os by auto
      next
        case False
        then have inv1: "assembler_inv sent a1"
          using sorted1 maxp1 fr1 unemitted nc1 map1 sorted_keys_wf [OF sorted1]
          by (auto simp: assembler_inv_def) (metis fun_upd_same map_of_eq_Some_iff option.inject)
        show ?thesis
        proof (cases "fa_max_pending a1 < length (fa_pending a1)")
          case True
          then obtain o' po rest where o': "fa_pending a1 = (o', po) # rest"
            by (cases "fa_pending a1") auto
          then have po: "map_of (fa_pending a1) o' = Some po" by simp
          have "\<exists>a'. emit a1 o' = Some (a', pf_frame po) \<and> step_ok sent a1 a' [pf_frame po]
              \<and> fa_pending a' = filter (\<lambda>(s, _). o' < s) (fa_pending a1)"
            by (rule step_ok_emit [OF sorted1 maxp1 _ _ po]) (use fr1 unemitted inv1 in \<open>auto simp: assembler_inv_def\<close>)
          then obtain a' where a': "emit a1 o' = Some (a', pf_frame po)" "step_ok sent a1 a' [pf_frame po]"
            "fa_pending a' = filter (\<lambda>(s, _). o' < s) (fa_pending a1)" by blast
          have "length (fa_pending a') < length (fa_pending a1)"
            unfolding a'(3) o' by (auto intro!: le_imp_less_Suc length_filter_le)
          then have "length (fa_pending a') \<le> fa_max_pending a" using len1 by linarith
          moreover have "slice_held a' seq k" using a'(2) new1 by (auto simp: step_ok_def)
          ultimately show ?thesis using lift [OF a'(2)] a'(1) True False o'
            unfolding h_def [symmetric] h(6) os by auto
        next
          case False
          have "step_ok sent a1 a1 []" using inv1 by (simp add: step_ok_def)
          with lift new1 False \<open>\<not> frame_complete (pf_frame p)\<close> show ?thesis
            unfolding h_def [symmetric] h(6) os by (auto simp: a1_def)
        qed
      qed
    qed
  qed
qed

text \<open>A poll.\<close>

lemma step_ok_trans:
  assumes "step_ok sent a a1 fs" and "step_ok sent a1 a2 fs'"
  shows "step_ok sent a a2 (fs @ fs')"
proof -
  have lt: "af_frame_seq f < af_frame_seq f'" if "f \<in> set fs" "f' \<in> set fs'" for f f'
  proof -
    have ne: "fs \<noteq> []" using that by auto
    then have "fa_last_emitted a1 = Some (af_frame_seq (last fs))" using assms(1) by (simp add: step_ok_def)
    then have "af_frame_seq (last fs) < af_frame_seq f'"
      using assms(2) that by (auto simp: step_ok_def emitted_before_def not_le)
    moreover have "af_frame_seq f \<le> af_frame_seq (last fs)"
    proof -
      have "sorted_wrt (<) (List.map af_frame_seq (butlast fs @ [last fs]))" using assms(1) ne by (simp add: step_ok_def)
      moreover have "f \<in> set (butlast fs @ [last fs])" using that(1) ne by simp
      ultimately show ?thesis by (auto simp: sorted_wrt_append)
    qed
    ultimately show ?thesis by (rule le_less_trans [rotated])
  qed
  have em: "emitted_before a1 s" if "emitted_before a s" for s
  proof (cases "fs = []")
    case False
    then have "last fs \<in> set fs" by simp
    then have "\<not> emitted_before a (af_frame_seq (last fs))" using assms(1) by (simp add: step_ok_def)
    moreover have "fa_last_emitted a1 = Some (af_frame_seq (last fs))" using False assms(1) by (simp add: step_ok_def)
    ultimately show ?thesis using that by (fastforce simp: emitted_before_def not_le intro: less_imp_le le_less_trans)
  qed (use that assms(1) in \<open>simp add: step_ok_def emitted_before_def\<close>)
  show ?thesis using assms lt em unfolding step_ok_def
    by (auto simp: sorted_wrt_append)
qed

lemma step_ok_refl: "assembler_inv sent a \<Longrightarrow> step_ok sent a a []"
  by (simp add: step_ok_def)

lemma emit_all_ok:
  "assembler_inv sent a \<Longrightarrow> \<exists>a' fs. emit_all a seqs = Some (a', fs) \<and> step_ok sent a a' fs
    \<and> set (fa_pending a') \<subseteq> set (fa_pending a) \<and> length (fa_pending a') \<le> length (fa_pending a)
    \<and> (\<forall>seq \<in> set seqs. seq \<notin> set (keys (fa_pending a')))"
proof (induction seqs arbitrary: a)
  case Nil
  then show ?case by (auto simp: step_ok_refl)
next
  case (Cons seq seqs)
  show ?case
  proof (cases "seq \<in> set (keys (fa_pending a))")
    case True
    then obtain p where p: "map_of (fa_pending a) seq = Some p" by (metis map_of_eq_None_iff not_Some_eq set_map)
    have "\<exists>a'. emit a seq = Some (a', pf_frame p) \<and> step_ok sent a a' [pf_frame p]
        \<and> fa_pending a' = filter (\<lambda>(s, _). seq < s) (fa_pending a)"
      by (rule step_ok_emit [OF _ _ _ _ p]) (use Cons.prems in \<open>auto simp: assembler_inv_def\<close>)
    then obtain a1 where a1: "emit a seq = Some (a1, pf_frame p)" "step_ok sent a a1 [pf_frame p]"
      "fa_pending a1 = filter (\<lambda>(s, _). seq < s) (fa_pending a)" by blast
    then have "assembler_inv sent a1" by (simp add: step_ok_def)
    from Cons.IH [OF this] obtain a2 fs where a2: "emit_all a1 seqs = Some (a2, fs)" "step_ok sent a1 a2 fs"
      "set (fa_pending a2) \<subseteq> set (fa_pending a1)" "length (fa_pending a2) \<le> length (fa_pending a1)"
      "\<forall>s \<in> set seqs. s \<notin> set (keys (fa_pending a2))" by blast
    have "seq \<notin> set (keys (fa_pending a1))" by (auto simp: a1(3))
    then have "seq \<notin> set (keys (fa_pending a2))" using a2(3) by auto
    moreover have "length (fa_pending a1) \<le> length (fa_pending a)" by (simp add: a1(3))
    moreover have "set (fa_pending a1) \<subseteq> set (fa_pending a)" by (simp add: a1(3) filter_is_subset)
    ultimately show ?thesis using True a1(1) a2 step_ok_trans [OF a1(2) a2(2)] by auto
  next
    case False
    from Cons.IH [OF Cons.prems] obtain a2 fs where a2: "emit_all a seqs = Some (a2, fs)" "step_ok sent a a2 fs"
      "set (fa_pending a2) \<subseteq> set (fa_pending a)" "length (fa_pending a2) \<le> length (fa_pending a)"
      "\<forall>s \<in> set seqs. s \<notin> set (keys (fa_pending a2))" by blast
    then have "seq \<notin> set (keys (fa_pending a2))" using False by auto
    with a2 False show ?thesis by auto
  qed
qed

lemma poll_ok:
  assumes "assembler_inv sent a"
  shows "\<exists>a' fs. assembler_poll a now_us = Some (a', fs) \<and> step_ok sent a a' fs
    \<and> length (fa_pending a') \<le> length (fa_pending a)
    \<and> (\<forall>(s, p) \<in> set (fa_pending a'). u64_saturating_sub now_us (pf_first_seen_us p) < fa_deadline_us a)"
proof -
  obtain a' fs where a': "emit_all a (expired_frames a now_us) = Some (a', fs)" "step_ok sent a a' fs"
    "set (fa_pending a') \<subseteq> set (fa_pending a)" "length (fa_pending a') \<le> length (fa_pending a)"
    "\<forall>s \<in> set (expired_frames a now_us). s \<notin> set (keys (fa_pending a'))"
    using emit_all_ok [OF assms] by blast
  have "u64_saturating_sub now_us (pf_first_seen_us p) < fa_deadline_us a" if "(s, p) \<in> set (fa_pending a')" for s p
  proof (rule ccontr)
    assume "\<not> ?thesis"
    then have "s \<in> set (expired_frames a now_us)" using that a'(3) by (force simp: expired_frames_def not_less)
    with a'(5) that show False by force
  qed
  with a' show ?thesis by (auto simp: assembler_poll_def)
qed

text \<open>Runs.\<close>

lemma sensor_run_ok:
  assumes "\<And>seq. n_slices sent seq \<le> 65535"
  shows "assembler_inv sent a \<Longrightarrow> length (fa_pending a) \<le> fa_max_pending a \<Longrightarrow> list_all (genuine sent) es \<Longrightarrow>
    \<exists>a' fs. sensor_run sent a es = Some (a', fs) \<and> step_ok sent a a' fs
      \<and> length (fa_pending a') \<le> fa_max_pending a
      \<and> (\<forall>seq k now_us. SliceArrives seq k now_us \<in> set es \<longrightarrow> slice_held a' seq k)"
proof (induction es arbitrary: a)
  case Nil
  then show ?case by (simp add: step_ok_refl)
next
  case (Cons e es)
  have "\<exists>a1 fs. sensor_step sent a e = Some (a1, fs) \<and> step_ok sent a a1 fs
    \<and> length (fa_pending a1) \<le> fa_max_pending a
    \<and> (\<forall>seq k now_us. e = SliceArrives seq k now_us \<longrightarrow> slice_held a1 seq k)"
  proof (cases e)
    case (SliceArrives seq k now_us)
    with Cons.prems have k: "k < n_slices sent seq" by simp
    from on_slice_ok [OF Cons.prems(1) k assms Cons.prems(2), of now_us] SliceArrives show ?thesis
      by (auto simp: case_prod_beta)
  next
    case (Poll now_us)
    with poll_ok [OF Cons.prems(1), of now_us] Cons.prems(2) show ?thesis by fastforce
  qed
  then obtain a1 fs where a1: "sensor_step sent a e = Some (a1, fs)" "step_ok sent a a1 fs"
    "length (fa_pending a1) \<le> fa_max_pending a" "\<And>seq k now_us. e = SliceArrives seq k now_us \<Longrightarrow> slice_held a1 seq k"
    by blast
  then have inv1: "assembler_inv sent a1" "fa_max_pending a1 = fa_max_pending a" by (simp_all add: step_ok_def)
  have "length (fa_pending a1) \<le> fa_max_pending a1" "list_all (genuine sent) es"
    using inv1(2) a1(3) Cons.prems(3) by simp_all
  from Cons.IH [OF inv1(1) this] obtain a2 fs' where a2:
    "sensor_run sent a1 es = Some (a2, fs')" "step_ok sent a1 a2 fs'" "length (fa_pending a2) \<le> fa_max_pending a"
    "\<And>seq k now_us. SliceArrives seq k now_us \<in> set es \<Longrightarrow> slice_held a2 seq k" unfolding inv1(2) by blast
  have "slice_held a2 seq k" if "slice_held a1 seq k" for seq k using that a2(2) by (simp add: step_ok_def)
  with a1 a2 step_ok_trans [OF a1(2) a2(2)] show ?case by auto
qed

text \<open>C28: the sensor assembler.  From a fresh assembler, whichever slices of the sender's frames arrive,
  in any order and multiplicity, with polls at any time: nothing panics; the frames emitted are in
  strictly increasing sequence order, each with its own sensor and capture time and every slice either
  missing or exactly the one sent; at most the configured number of frames is held; once all slices of
  a frame have arrived, it or a newer frame has been emitted; and after a poll no held frame has
  reached its deadline.\<close>

theorem assembler_emits_in_order:
  assumes "\<forall>seq. n_slices sent seq \<le> 65535" and "list_all (genuine sent) es"
  shows "\<exists>a fs. sensor_run sent (assembler_new deadline m) es = Some (a, fs)
    \<and> sorted_wrt (<) (List.map af_frame_seq fs)
    \<and> (\<forall>f \<in> set fs. frame_from sent (af_frame_seq f) f)
    \<and> length (fa_pending a) \<le> max m 1
    \<and> ((\<forall>k < n_slices sent seq. \<exists>now_us. SliceArrives seq k now_us \<in> set es) \<and> n_slices sent seq \<noteq> 0
         \<longrightarrow> (\<exists>f \<in> set fs. seq \<le> af_frame_seq f))
    \<and> (\<exists>a' fs'. assembler_poll a now_us = Some (a', fs')
         \<and> (\<forall>(s, p) \<in> set (fa_pending a'). u64_saturating_sub now_us (pf_first_seen_us p) < deadline))"
proof -
  let ?a = "assembler_new deadline m"
  have "assembler_inv sent ?a" "length (fa_pending ?a) \<le> fa_max_pending ?a"
    by (simp_all add: assembler_inv_def assembler_new_def)
  from sensor_run_ok [OF _ this assms(2)] assms(1) obtain a fs where
    a: "sensor_run sent ?a es = Some (a, fs)" "step_ok sent ?a a fs" "length (fa_pending a) \<le> fa_max_pending ?a"
    "\<And>seq k now_us. SliceArrives seq k now_us \<in> set es \<Longrightarrow> slice_held a seq k" by blast
  have inv: "assembler_inv sent a" using a(2) by (simp add: step_ok_def)
  have all: "\<exists>f \<in> set fs. seq \<le> af_frame_seq f"
    if arr: "\<forall>k < n_slices sent seq. \<exists>now_us. SliceArrives seq k now_us \<in> set es" and n: "n_slices sent seq \<noteq> 0"
  proof -
    have held: "slice_held a seq k" if "k < n_slices sent seq" for k using arr that a(4) by blast
    have "emitted_before a seq"
    proof (rule ccontr)
      assume no: "\<not> emitted_before a seq"
      then obtain p where p: "map_of (fa_pending a) seq = Some p" using held [of 0] n by (auto simp: slice_held_def)
      then have fr: "frame_from sent seq (pf_frame p)" "\<not> frame_complete (pf_frame p)"
        using inv map_of_SomeD [OF p] by (auto simp: assembler_inv_def)
      then obtain k where "k < length (af_slices (pf_frame p))" "af_slices (pf_frame p) ! k = None"
        by (auto simp: frame_complete_def list_all_length)
      with held [of k] no p fr(1) show False by (auto simp: slice_held_def frame_from_def)
    qed
    then obtain l where l: "fa_last_emitted a = Some l" "seq \<le> l" by (auto simp: emitted_before_def)
    then have "fs \<noteq> []" using a(2) by (auto simp: step_ok_def assembler_new_def)
    then have "last fs \<in> set fs" "fa_last_emitted a = Some (af_frame_seq (last fs))" using a(2) by (simp_all add: step_ok_def)
    with l show ?thesis by auto
  qed
  have "fa_deadline_us a = deadline" using a(2) by (simp add: step_ok_def assembler_new_def)
  with poll_ok [OF inv, of now_us] have "\<exists>a' fs'. assembler_poll a now_us = Some (a', fs')
         \<and> (\<forall>(s, p) \<in> set (fa_pending a'). u64_saturating_sub now_us (pf_first_seen_us p) < deadline)" by blast
  with a all show ?thesis by (intro exI [of _ a] exI [of _ fs]) (auto simp: step_ok_def assembler_new_def)
qed

definition two_frames :: sent_frames where
  "two_frames seq = (3, 100, if seq = 1 then [[1, 2], [3]] else if seq = 2 then [[4]] else [])"

theorem assembler_emits_in_order_witness:
  "\<exists>a fs. sensor_run two_frames (assembler_new 50000 2) [SliceArrives 1 1 0, SliceArrives 2 0 5, SliceArrives 1 0 6] = Some (a, fs)
    \<and> List.map af_frame_seq fs = [2] \<and> length (fa_pending a) \<le> 2"
proof -
  let ?es = "[SliceArrives 1 1 0, SliceArrives 2 0 5, SliceArrives 1 0 6]"
  have g: "\<forall>seq. n_slices two_frames seq \<le> 65535" "list_all (genuine two_frames) ?es"
    by (auto simp: n_slices_def two_frames_def)
  have "map_option (\<lambda>(a, fs). List.map af_frame_seq fs) (sensor_run two_frames (assembler_new 50000 2) ?es) = Some [2]"
    by code_simp
  with assembler_emits_in_order [OF g, of 50000 2 1 0] show ?thesis by auto
qed

end
