(* ===== verification/Sensor_Formats.thy ===== *)
theory Sensor_Formats
  imports Sensor
begin

text \<open>
  The sensor encodings of \<open>roboprotocol-core/sensor.rs\<close>: point sets, range images and depth maps as
  frames of fixed-size elements, and the descriptors that announce them.  Values of type \<open>f32\<close> that
  do not travel as bits are modelled by the values they denote (theory Floats), so the sign of a zero
  and the payload of a NaN are not distinguished.
\<close>

section \<open>Point sets\<close>

text \<open>\<open>(value / scale).round()\<close>, when it is a finite value in the range of \<open>i16\<close>.\<close>

definition quantize_i16 :: "fl \<Rightarrow> fl \<Rightarrow> u16 option" where
  "quantize_i16 v scale =
     (let q = fround (fdiv B32 v scale)
      in if is_finite q \<and> fge q (fof_int B32 (-32768)) \<and> fle q (fof_int B32 32767)
         then Some (word_of_int (fto_int (-32768) 32767 q)) else None)"

record PointFormat =
  pf_scale_m :: fl
  pf_intensity :: bool
  pf_doppler_scale_mps :: "fl option"
  pf_snr :: bool

record Point =
  pt_x :: fl
  pt_y :: fl
  pt_z :: fl
  pt_intensity :: u8
  pt_doppler_mps :: fl
  pt_snr :: u8

definition point_default :: Point where
  "point_default = \<lparr>pt_x = Fin 0, pt_y = Fin 0, pt_z = Fin 0, pt_intensity = 0, pt_doppler_mps = Fin 0, pt_snr = 0\<rparr>"

definition point_element_size :: "PointFormat \<Rightarrow> nat" where
  "point_element_size f =
     6 + of_bool (pf_intensity f) + (if pf_doppler_scale_mps f \<noteq> None then 2 else 0) + of_bool (pf_snr f)"

text \<open>One point as an element, \<open>None\<close> when it is dropped.\<close>

definition point_element :: "PointFormat \<Rightarrow> Point \<Rightarrow> bytes option" where
  "point_element f p =
     (case (quantize_i16 (pt_x p) (pf_scale_m f), quantize_i16 (pt_y p) (pf_scale_m f),
            quantize_i16 (pt_z p) (pf_scale_m f),
            (case pf_doppler_scale_mps f of
               Some scale \<Rightarrow> map_option Some (quantize_i16 (pt_doppler_mps p) scale)
             | None \<Rightarrow> Some None)) of
        (Some x, Some y, Some z, Some doppler) \<Rightarrow>
          Some (be16 x @ be16 y @ be16 z
            @ (if pf_intensity f then [pt_intensity p] else [])
            @ (case doppler of Some d \<Rightarrow> be16 d | None \<Rightarrow> [])
            @ (if pf_snr f then [pt_snr p] else []))
      | _ \<Rightarrow> None)"

fun points_encode :: "PointFormat \<Rightarrow> Point list \<Rightarrow> bytes \<times> nat" where
  "points_encode f [] = ([], 0)"
| "points_encode f (p # ps) =
     (let (out, dropped) = points_encode f ps
      in case point_element f p of None \<Rightarrow> (out, dropped + 1) | Some e \<Rightarrow> (e @ out, dropped))"

definition i16_at :: "bytes \<Rightarrow> nat \<Rightarrow> fl" where
  "i16_at e k = fof_int B32 (sint (of_be16 [e ! k, e ! (k + 1)]))"

definition point_of_element :: "PointFormat \<Rightarrow> bytes \<Rightarrow> Point" where
  "point_of_element f e =
     (let p = point_default\<lparr>pt_x := fmul B32 (i16_at e 0) (pf_scale_m f),
                            pt_y := fmul B32 (i16_at e 2) (pf_scale_m f),
                            pt_z := fmul B32 (i16_at e 4) (pf_scale_m f)\<rparr>;
          k = 6;
          (p, k) = (if pf_intensity f then (p\<lparr>pt_intensity := e ! k\<rparr>, k + 1) else (p, k));
          (p, k) = (case pf_doppler_scale_mps f of
                      Some scale \<Rightarrow> (p\<lparr>pt_doppler_mps := fmul B32 (i16_at e k) scale\<rparr>, k + 2)
                    | None \<Rightarrow> (p, k))
      in if pf_snr f then p\<lparr>pt_snr := e ! k\<rparr> else p)"

definition points_decode :: "PointFormat \<Rightarrow> bytes \<Rightarrow> Point list" where
  "points_decode f bs = List.map (point_of_element f) (chunks_exact (point_element_size f) bs)"

section \<open>Range images\<close>

record RangeImageFormat =
  rf_beams :: u16
  rf_columns :: u16
  rf_range_scale_m :: fl
  rf_intensity :: bool

record RangeImage =
  ri_beams :: u16
  ri_columns :: u16
  ri_ranges_m :: "fl list"
  ri_intensity :: bytes
  ri_columns_present :: "bool list"

definition range_element_size :: "RangeImageFormat \<Rightarrow> nat" where
  "range_element_size f = unat (rf_beams f) * (2 + of_bool (rf_intensity f))"

definition range_element_count :: "RangeImageFormat \<Rightarrow> nat" where
  "range_element_count f = unat (rf_columns f)"

definition range_len :: "RangeImageFormat \<Rightarrow> nat" where
  "range_len f = unat (rf_beams f) * unat (rf_columns f)"

definition quantize_range :: "fl \<Rightarrow> fl \<Rightarrow> u16" where
  "quantize_range r scale =
     (let q = fround (fdiv B32 r scale)
      in if is_finite q \<and> flt (Fin 0) q \<and> fle q (fof_int B32 65535)
         then word_of_int (fto_int 0 65535 q) else 0)"

definition range_column :: "RangeImageFormat \<Rightarrow> fl list \<Rightarrow> bytes option \<Rightarrow> nat \<Rightarrow> bytes" where
  "range_column f ranges_m intensity c =
     concat (List.map (\<lambda>b. be16 (quantize_range (ranges_m ! (b * unat (rf_columns f) + c)) (rf_range_scale_m f)))
       [0..<unat (rf_beams f)])
     @ (case intensity of
          Some i \<Rightarrow> if rf_intensity f then List.map (\<lambda>b. i ! (b * unat (rf_columns f) + c)) [0..<unat (rf_beams f)] else []
        | None \<Rightarrow> [])"

definition range_encode :: "RangeImageFormat \<Rightarrow> fl list \<Rightarrow> bytes option \<Rightarrow> bytes option" where
  "range_encode f ranges_m intensity =
     (if length ranges_m \<noteq> range_len f \<or> rf_intensity f \<and> map_option length intensity \<noteq> Some (range_len f) then None
      else Some (concat (List.map (range_column f ranges_m intensity) [0..<unat (rf_columns f)])))"

text \<open>The inner loop of \<open>decode\<close> over the beams of one column.\<close>

fun range_column_decode ::
  "RangeImageFormat \<Rightarrow> nat \<Rightarrow> bytes \<Rightarrow> nat list \<Rightarrow> fl list \<times> bytes \<Rightarrow> fl list \<times> bytes" where
  "range_column_decode f c e [] st = st"
| "range_column_decode f c e (b # bs) (ranges_m, intensity) =
     (let i = b * unat (rf_columns f) + c
      in range_column_decode f c e bs
           (ranges_m[i := fmul B32 (fof_int B32 (uint (of_be16 [e ! (2 * b), e ! (2 * b + 1)]))) (rf_range_scale_m f)],
            if rf_intensity f then intensity[i := e ! (2 * unat (rf_beams f) + b)] else intensity))"

definition range_decode :: "RangeImageFormat \<Rightarrow> Deinterleaved \<Rightarrow> RangeImage" where
  "range_decode f d =
     (let (ranges_m, intensity) =
            foldl (\<lambda>st (c, e). range_column_decode f c e [0..<unat (rf_beams f)] st)
              (replicate (range_len f) (Fin 0), replicate (range_len f) 0)
              (take (unat (rf_columns f)) (enumerate 0 (chunks_exact (max (range_element_size f) 1) (di_bytes d))))
      in \<lparr>ri_beams = rf_beams f, ri_columns = rf_columns f, ri_ranges_m = ranges_m, ri_intensity = intensity,
          ri_columns_present = di_present d\<rparr>)"

text \<open>\<open>TAU\<close> as an \<open>f32\<close>; \<open>sin_cos\<close> is the platform's, a parameter.\<close>

definition TAU :: fl where "TAU = Fin (13176795 / 2097152)"

definition point_at :: "(fl \<Rightarrow> fl \<times> fl) \<Rightarrow> RangeImage \<Rightarrow> nat \<Rightarrow> fl \<Rightarrow> nat \<Rightarrow> Point list option" where
  "point_at sin_cos img b elevation c =
     (let i = b * unat (ri_columns img) + c
      in if length (ri_ranges_m img) \<le> i then None
         else let r = ri_ranges_m img ! i; (sin_el, cos_el) = sin_cos elevation
              in if fle r (Fin 0) then Some []
                 else let (sin_az, cos_az) = sin_cos (fdiv B32 (fmul B32 TAU (fof_int B32 (int c)))
                                                       (fof_int B32 (uint (ri_columns img))))
                      in Some [point_default\<lparr>pt_x := fmul B32 (fmul B32 r cos_el) cos_az,
                                             pt_y := fmul B32 (fmul B32 r cos_el) sin_az,
                                             pt_z := fmul B32 r sin_el,
                                             pt_intensity := (if i < length (ri_intensity img) then ri_intensity img ! i else 0)\<rparr>])"

definition range_to_points :: "(fl \<Rightarrow> fl \<times> fl) \<Rightarrow> RangeImage \<Rightarrow> fl list \<Rightarrow> Point list option" where
  "range_to_points sin_cos img elevations =
     map_option concat (those (concat
       (List.map (\<lambda>(b, elevation). List.map (point_at sin_cos img b elevation) [0..<unat (ri_columns img)])
         (take (unat (ri_beams img)) (enumerate 0 elevations)))))"

section \<open>Depth maps\<close>

record DepthFormat =
  df_width :: u16
  df_height :: u16
  df_segment_width :: u16

record DepthImage =
  dm_width :: u16
  dm_height :: u16
  dm_depth_mm :: "u16 list"

definition DEFAULT_DEPTH_SEGMENT_WIDTH :: u16 where "DEFAULT_DEPTH_SEGMENT_WIDTH = 32"

definition depth_format_new :: "u16 \<Rightarrow> u16 \<Rightarrow> DepthFormat" where
  "depth_format_new width height =
     \<lparr>df_width = width, df_height = height, df_segment_width = min DEFAULT_DEPTH_SEGMENT_WIDTH (max width 1)\<rparr>"

definition segments_per_row :: "DepthFormat \<Rightarrow> nat" where
  "segments_per_row f = div_ceil (unat (df_width f)) (max (unat (df_segment_width f)) 1)"

definition depth_element_size :: "DepthFormat \<Rightarrow> nat" where
  "depth_element_size f = unat (df_segment_width f) * 2"

definition depth_element_count :: "DepthFormat \<Rightarrow> nat" where
  "depth_element_count f = unat (df_height f) * segments_per_row f"

definition depth_segment :: "DepthFormat \<Rightarrow> u16 list \<Rightarrow> nat \<Rightarrow> bytes" where
  "depth_segment f row seg =
     (let sw = unat (df_segment_width f)
      in concat (List.map (\<lambda>x. be16 (if x < length row then row ! x else 0)) [seg * sw..<(seg + 1) * sw]))"

text \<open>\<open>chunks_exact(w)\<close> panics for \<open>w = 0\<close>: the outer \<open>None\<close>.\<close>

definition depth_encode :: "DepthFormat \<Rightarrow> u16 list \<Rightarrow> bytes option option" where
  "depth_encode f depth_mm =
     (let w = unat (df_width f); sw = unat (df_segment_width f)
      in if length depth_mm \<noteq> w * unat (df_height f) \<or> sw = 0 then Some None
         else if w = 0 then None
         else Some (Some (concat (List.map (\<lambda>row. concat (List.map (depth_segment f row) [0..<segments_per_row f]))
                            (chunks_exact w depth_mm)))))"

fun depth_segment_decode :: "nat \<Rightarrow> nat \<Rightarrow> nat \<Rightarrow> bytes list \<Rightarrow> u16 list \<Rightarrow> u16 list" where
  "depth_segment_decode w y x [] depth_mm = depth_mm"
| "depth_segment_decode w y x (px # pxs) depth_mm =
     depth_segment_decode w y (x + 1) pxs
       (if x < w then depth_mm[y * w + x := of_be16 px] else depth_mm)"

definition depth_decode :: "DepthFormat \<Rightarrow> Deinterleaved \<Rightarrow> DepthImage" where
  "depth_decode f d =
     (let w = unat (df_width f); sw = unat (df_segment_width f); spr = segments_per_row f
      in \<lparr>dm_width = df_width f, dm_height = df_height f,
          dm_depth_mm =
            foldl (\<lambda>img (i, e). depth_segment_decode w (i div spr) ((i mod spr) * sw) (chunks_exact 2 e) img)
              (replicate (w * unat (df_height f)) 0)
              (take (depth_element_count f)
                (enumerate 0 (chunks_exact (max (depth_element_size f) 1) (di_bytes d))))\<rparr>)"

section \<open>Descriptors\<close>

record DepthIntrinsics =
  in_fx :: fl
  in_fy :: fl
  in_cx :: fl
  in_cy :: fl

datatype SensorEncoding =
    PointsEncoding PointFormat
  | RangeEncoding RangeImageFormat "fl list"
  | DepthEncoding DepthFormat DepthIntrinsics

datatype SensorData = PointsData "Point list" | RangeData RangeImage | DepthData DepthImage

fun sample_count :: "SensorData \<Rightarrow> nat" where
  "sample_count (PointsData points) = length points"
| "sample_count (RangeData img) = length (filter (flt (Fin 0)) (ri_ranges_m img))"
| "sample_count (DepthData img) = length (filter (\<lambda>d. 0 < d) (dm_depth_mm img))"

fun encoding_element_size :: "SensorEncoding \<Rightarrow> nat" where
  "encoding_element_size (PointsEncoding f) = point_element_size f"
| "encoding_element_size (RangeEncoding f _) = range_element_size f"
| "encoding_element_size (DepthEncoding f _) = depth_element_size f"

fun encoding_element_count :: "SensorEncoding \<Rightarrow> nat option" where
  "encoding_element_count (PointsEncoding _) = None"
| "encoding_element_count (RangeEncoding f _) = Some (range_element_count f)"
| "encoding_element_count (DepthEncoding f _) = Some (depth_element_count f)"

fun encoding_decode :: "SensorEncoding \<Rightarrow> AssembledFrame \<Rightarrow> SensorData" where
  "encoding_decode (PointsEncoding f) frame =
     PointsData (points_decode f (received_elements frame (point_element_size f)))"
| "encoding_decode (RangeEncoding f _) frame =
     RangeData (range_decode f (deinterleave frame (range_element_size f) (range_element_count f)))"
| "encoding_decode (DepthEncoding f _) frame =
     DepthData (depth_decode f (deinterleave frame (depth_element_size f) (depth_element_count f)))"

record SensorDescriptor =
  sd_sensor_id :: u8
  sd_label :: bytes
  sd_encoding :: SensorEncoding
  sd_max_hz :: u8
  sd_max_bitrate_kbps :: u32
  sd_mount_position_m :: "fl list"
  sd_mount_orientation_xyzw :: "fl list"

text \<open>The error messages, one constructor per message.\<close>

datatype DescriptorError =
    MaxHzIsZero | PointScalesNotPositive | RangeImageDims | BeamElevations nat nat
  | DepthDims | FocalLengths | Slicing SliceError

definition positive :: "fl \<Rightarrow> bool" where
  "positive v \<longleftrightarrow> is_finite v \<and> flt (Fin 0) v"

fun encoding_error :: "SensorEncoding \<Rightarrow> DescriptorError option" where
  "encoding_error (PointsEncoding f) =
     (if \<not> positive (pf_scale_m f) \<or> (case pf_doppler_scale_mps f of None \<Rightarrow> False | Some s \<Rightarrow> \<not> positive s)
      then Some PointScalesNotPositive else None)"
| "encoding_error (RangeEncoding f elevations) =
     (if rf_beams f = 0 \<or> rf_columns f = 0 \<or> \<not> positive (rf_range_scale_m f) then Some RangeImageDims
      else if length elevations \<noteq> unat (rf_beams f) then Some (BeamElevations (length elevations) (unat (rf_beams f)))
      else None)"
| "encoding_error (DepthEncoding f i) =
     (if df_width f = 0 \<or> df_height f = 0 \<or> df_segment_width f = 0 \<or> df_width f < df_segment_width f then Some DepthDims
      else if \<not> (positive (in_fx i) \<and> positive (in_fy i)) then Some FocalLengths
      else None)"

definition descriptor_validate :: "SensorDescriptor \<Rightarrow> DescriptorError + unit" where
  "descriptor_validate d =
     (if sd_max_hz d = 0 then Inl MaxHzIsZero
      else case encoding_error (sd_encoding d) of
             Some e \<Rightarrow> Inl e
           | None \<Rightarrow>
               let count = (case encoding_element_count (sd_encoding d) of None \<Rightarrow> 0 | Some n \<Rightarrow> n)
               in case slice_count count (encoding_element_size (sd_encoding d)) DEFAULT_SLICE_PAYLOAD of
                    Inl e \<Rightarrow> Inl (Slicing e)
                  | Inr _ \<Rightarrow> Inr ())"

section \<open>Depth maps survive slicing\<close>

lemma depth_segment_decode_nth:
  "0 < w \<Longrightarrow> p < length img \<Longrightarrow>
    depth_segment_decode w y x0 pxs img ! p =
      (if p div w = y \<and> x0 \<le> p mod w \<and> p mod w < x0 + length pxs then of_be16 (pxs ! (p mod w - x0)) else img ! p)"
proof (induction pxs arbitrary: x0 img)
  case (Cons px pxs)
  have here: "(if x0 < w then img[y * w + x0 := of_be16 px] else img) ! p
      = (if p div w = y \<and> p mod w = x0 then of_be16 px else img ! p)"
  proof (cases "x0 < w")
    case True
    have "p = y * w + x0 \<longleftrightarrow> p div w = y \<and> p mod w = x0"
      using True by (auto simp: div_mult_mod_eq [symmetric])
    with True Cons.prems show ?thesis by (auto simp: nth_list_update)
  next
    case False
    have "p mod w < w" using Cons.prems by simp
    with False show ?thesis by auto
  qed
  have nth: "(px # pxs) ! (p mod w - x0) = pxs ! (p mod w - Suc x0)" if "Suc x0 \<le> p mod w"
    using that by (simp add: nth_Cons')
  show ?case using Cons.prems Cons.IH [of "if x0 < w then img[y * w + x0 := of_be16 px] else img" "x0 + 1"] here nth
    by (auto simp: not_less_eq_eq le_Suc_eq)
qed auto

lemma length_depth_segment_decode [simp]: "length (depth_segment_decode w y x0 pxs img) = length img"
  by (induction pxs arbitrary: x0 img) auto

definition depth_owner :: "DepthFormat \<Rightarrow> nat \<Rightarrow> nat" where
  "depth_owner f p =
     (p div unat (df_width f)) * segments_per_row f + (p mod unat (df_width f)) div unat (df_segment_width f)"

lemma depth_seg_lt:
  assumes "0 < unat (df_width f)" "0 < unat (df_segment_width f)"
  shows "(p mod unat (df_width f)) div unat (df_segment_width f) < segments_per_row f"
proof -
  have "p mod unat (df_width f) < unat (df_width f)" using assms by simp
  also have "\<dots> \<le> segments_per_row f * unat (df_segment_width f)"
  proof -
    have "max (unat (df_segment_width f)) 1 = unat (df_segment_width f)" using assms(2) by simp
    then show ?thesis using div_ceil_mult_ge [OF assms(2), of "unat (df_width f)"] by (simp only: segments_per_row_def)
  qed
  finally show ?thesis using assms by (simp add: div_less_iff_less_mult)
qed

lemma depth_owner_iff:
  assumes "0 < unat (df_width f)" "0 < unat (df_segment_width f)"
  shows "depth_owner f p = i \<longleftrightarrow>
    p div unat (df_width f) = i div segments_per_row f
    \<and> (i mod segments_per_row f) * unat (df_segment_width f) \<le> p mod unat (df_width f)
    \<and> p mod unat (df_width f) < (i mod segments_per_row f) * unat (df_segment_width f) + unat (df_segment_width f)"
proof -
  let ?x = "p mod unat (df_width f)" and ?sw = "unat (df_segment_width f)" and ?spr = "segments_per_row f"
  have "s * ?sw \<le> ?x \<and> ?x < s * ?sw + ?sw \<longleftrightarrow> ?x div ?sw = s" for s
    using assms(2) by (metis div_nat_eqI dividend_less_div_times mult.commute mult_Suc_right add.commute times_div_less_eq_dividend)
  moreover have "depth_owner f p = i \<longleftrightarrow> p div unat (df_width f) = i div ?spr \<and> ?x div ?sw = i mod ?spr"
    using depth_seg_lt [OF assms, of p] by (auto simp: depth_owner_def)
  ultimately show ?thesis by blast
qed

lemma depth_fold_length [simp]:
  "length (foldl (\<lambda>img (i, e). depth_segment_decode w (i div spr) ((i mod spr) * sw) (chunks_exact 2 e) img) img0 D)
    = length img0"
  by (induction D arbitrary: img0) (auto simp: case_prod_beta)

lemma depth_fold:
  assumes pos: "0 < unat (df_width f)" "0 < unat (df_segment_width f)"
    and es: "\<forall>e \<in> set D. length e = depth_element_size f" and p: "p < length img0"
  shows "foldl (\<lambda>img (i, e). depth_segment_decode (unat (df_width f)) (i div segments_per_row f)
        ((i mod segments_per_row f) * unat (df_segment_width f)) (chunks_exact 2 e) img) img0 (enumerate 0 D) ! p
    = (if depth_owner f p < length D
       then of_be16 (chunks_exact 2 (D ! depth_owner f p) ! (p mod unat (df_width f) mod unat (df_segment_width f)))
       else img0 ! p)"
  using es
proof (induction D rule: rev_induct)
  case (snoc e D)
  let ?w = "unat (df_width f)" and ?sw = "unat (df_segment_width f)" and ?n = "length D"
  let ?fold = "foldl (\<lambda>img (i, e). depth_segment_decode ?w (i div segments_per_row f)
        ((i mod segments_per_row f) * ?sw) (chunks_exact 2 e) img) img0"
  have enum: "enumerate 0 (D @ [e]) = enumerate 0 D @ [(?n, e)]" by (simp add: enumerate_append_eq)
  have len: "length e = ?sw * 2" using snoc.prems by (simp add: depth_element_size_def)
  then have le: "length (chunks_exact 2 e) = ?sw" by (simp add: length_chunks_exact)
  have IH: "?fold (enumerate 0 D) ! p = (if depth_owner f p < ?n
     then of_be16 (chunks_exact 2 (D ! depth_owner f p) ! (p mod ?w mod ?sw)) else img0 ! p)" using snoc by simp
  have "?fold (enumerate 0 (D @ [e])) ! p =
      (if depth_owner f p = ?n then of_be16 (chunks_exact 2 e ! (p mod ?w - (?n mod segments_per_row f) * ?sw))
       else ?fold (enumerate 0 D) ! p)"
    unfolding enum using depth_segment_decode_nth [OF pos(1), of p "?fold (enumerate 0 D)"] p
    by (simp add: depth_owner_iff [OF pos] le)
  moreover have "p mod ?w - (?n mod segments_per_row f) * ?sw = p mod ?w mod ?sw" if "depth_owner f p = ?n"
  proof -
    have "(p mod ?w) div ?sw = ?n mod segments_per_row f"
      using depth_seg_lt [OF pos, of p] unfolding that [symmetric] depth_owner_def by simp
    then show ?thesis by (simp add: minus_div_mult_eq_mod [symmetric])
  qed
  ultimately show ?case using IH by (auto simp: nth_append not_less)
qed simp

text \<open>The elements of an encoded map.\<close>

definition depth_elements :: "DepthFormat \<Rightarrow> u16 list \<Rightarrow> bytes list" where
  "depth_elements f px = concat (List.map (\<lambda>row. List.map (depth_segment f row) [0..<segments_per_row f])
     (chunks_exact (unat (df_width f)) px))"

lemma concat_map_nth:
  "(\<And>x. x \<in> set xs \<Longrightarrow> length (g x) = n) \<Longrightarrow> j < n \<Longrightarrow> i < length xs \<Longrightarrow>
    concat (List.map g xs) ! (i * n + j) = g (xs ! i) ! j"
proof (induction xs arbitrary: i)
  case (Cons x xs)
  show ?case
  proof (cases i)
    case 0
    then show ?thesis using Cons.prems by (simp add: nth_append)
  next
    case (Suc i')
    then show ?thesis using Cons by (simp add: nth_append)
  qed
qed simp

lemma concat_of_concats: "concat (List.map (\<lambda>x. concat (g x)) xs) = concat (concat (List.map g xs))"
  by (induction xs) auto

lemma length_concat_const:
  "(\<And>x. x \<in> set xs \<Longrightarrow> length (g x) = n) \<Longrightarrow> length (concat (List.map g xs)) = length xs * n"
  by (induction xs) auto

lemma length_depth_segment: "length (depth_segment f row seg) = depth_element_size f"
  by (simp add: depth_segment_def Let_def length_concat comp_def sum_list_triv depth_element_size_def)

lemma depth_segment_pixel:
  assumes "k < unat (df_segment_width f)"
  shows "of_be16 (chunks_exact 2 (depth_segment f row seg) ! k) =
    (let x = seg * unat (df_segment_width f) + k in if x < length row then row ! x else 0)"
proof -
  let ?sw = "unat (df_segment_width f)"
  let ?px = "\<lambda>x. be16 (if x < length row then row ! x else 0)"
  have "chunks_exact 2 (depth_segment f row seg) = List.map ?px [seg * ?sw..<(seg + 1) * ?sw]"
    unfolding depth_segment_def Let_def by (rule chunks_exact_concat) auto
  then show ?thesis using assms by (simp add: Let_def)
qed

lemma chunks_exact_replicate: "0 < n \<Longrightarrow> chunks_exact n (replicate (k * n) x) = replicate k (replicate n x)"
proof -
  assume "0 < n"
  moreover have "replicate (k * n) x = concat (replicate k (replicate n x))"
    by (induction k) (simp_all add: replicate_add)
  ultimately show ?thesis by (simp add: chunks_exact_concat)
qed

lemma depth_owner_less:
  assumes "0 < unat (df_width f)" "0 < unat (df_segment_width f)" and "p < unat (df_width f) * unat (df_height f)"
  shows "depth_owner f p < depth_element_count f"
proof -
  have y: "p div unat (df_width f) < unat (df_height f)"
    using assms by (simp add: div_less_iff_less_mult mult.commute)
  have "depth_owner f p < (p div unat (df_width f) + 1) * segments_per_row f"
    using depth_seg_lt [OF assms(1,2), of p] by (simp add: depth_owner_def)
  also have "\<dots> \<le> unat (df_height f) * segments_per_row f" using y by (intro mult_right_mono) auto
  finally show ?thesis by (simp add: depth_element_count_def)
qed

lemma of_be16_zeros: "of_be16 (replicate 2 0) = 0"
  by code_simp

lemma depth_decode_elements:
  assumes pos: "0 < unat (df_width f)" "0 < unat (df_segment_width f)"
    and len: "length px = unat (df_width f) * unat (df_height f)"
  defines "E \<equiv> depth_elements f px"
  shows "length E = depth_element_count f" and "\<forall>e \<in> set E. length e = depth_element_size f"
    and "dm_depth_mm (depth_decode f (shown E (depth_element_size f) S)) =
      List.map (\<lambda>p. if depth_owner f p \<in> S then px ! p else 0) [0..<length px]"
proof -
  let ?w = "unat (df_width f)" and ?h = "unat (df_height f)" and ?sw = "unat (df_segment_width f)"
  let ?spr = "segments_per_row f" and ?es = "depth_element_size f"
  have rows: "length (chunks_exact ?w px) = ?h" using pos len by (simp add: length_chunks_exact)
  show lE: "length E = depth_element_count f"
    unfolding E_def depth_elements_def using length_concat_const [of "chunks_exact ?w px" "\<lambda>row. List.map (depth_segment f row) [0..<?spr]" ?spr] rows
    by (simp add: depth_element_count_def)
  show es: "\<forall>e \<in> set E. length e = ?es" by (auto simp: E_def depth_elements_def length_depth_segment)
  have es0: "0 < ?es" using pos by (simp add: depth_element_size_def)
  define D where "D = List.map (\<lambda>i. if i \<in> S then E ! i else replicate ?es 0) [0..<length E]"
  have D: "\<forall>e \<in> set D. length e = ?es" using es by (auto simp: D_def)
  have "di_bytes (shown E ?es S) = concat D" by (simp add: shown_def D_def)
  moreover have "chunks_exact ?es (concat D) = D" using D es0 by (intro chunks_exact_concat) auto
  moreover have "length D = depth_element_count f" by (simp add: D_def lE)
  moreover have "max ?es 1 = ?es" using es0 by simp
  ultimately have img: "dm_depth_mm (depth_decode f (shown E ?es S)) =
      foldl (\<lambda>img (i, e). depth_segment_decode ?w (i div ?spr) ((i mod ?spr) * ?sw) (chunks_exact 2 e) img)
        (replicate (?w * ?h) 0) (enumerate 0 D)"
    by (simp add: depth_decode_def Let_def)
  have pix: "of_be16 (chunks_exact 2 (D ! depth_owner f p) ! (p mod ?w mod ?sw)) =
      (if depth_owner f p \<in> S then px ! p else 0)" if p: "p < length px" and o: "depth_owner f p < length D" for p
  proof -
    let ?y = "p div ?w" and ?x = "p mod ?w"
    have y: "?y < ?h" using p len pos by (simp add: div_less_iff_less_mult mult.commute)
    have seg: "?x div ?sw < ?spr" by (rule depth_seg_lt [OF pos])
    have E: "E ! depth_owner f p = depth_segment f (chunks_exact ?w px ! ?y) (?x div ?sw)"
      unfolding E_def depth_elements_def depth_owner_def using y seg rows
      by (subst concat_map_nth [where n = ?spr]) auto
    have row: "chunks_exact ?w px ! ?y = slice (?y * ?w) ((?y + 1) * ?w) px"
      using pos y rows len by (intro chunks_exact_nth) auto
    have k: "?x mod ?sw < ?sw" using pos by simp
    have x: "?x div ?sw * ?sw + ?x mod ?sw = ?x" by simp
    have xl: "?x < ?w" using pos by simp
    have "(?y + 1) * ?w \<le> length px"
    proof -
      have "(?y + 1) * ?w \<le> ?h * ?w" using y by (intro mult_right_mono) auto
      then show ?thesis by (simp add: len mult.commute)
    qed
    then have "length (chunks_exact ?w px ! ?y) = ?w" and "chunks_exact ?w px ! ?y ! ?x = px ! p"
      using xl by (auto simp: row slice_def)
    then have orig: "of_be16 (chunks_exact 2 (depth_segment f (chunks_exact ?w px ! ?y) (?x div ?sw)) ! (?x mod ?sw)) = px ! p"
      using depth_segment_pixel [OF k, of "chunks_exact ?w px ! ?y" "?x div ?sw"] xl by (simp add: Let_def x)
    have "of_be16 (chunks_exact 2 (replicate ?es 0) ! (?x mod ?sw)) = 0"
      using k chunks_exact_replicate [of 2 ?sw "0 :: u8"] of_be16_zeros by (simp add: depth_element_size_def)
    then show ?thesis using o orig E by (simp add: D_def)
  qed
  show "dm_depth_mm (depth_decode f (shown E ?es S)) = List.map (\<lambda>p. if depth_owner f p \<in> S then px ! p else 0) [0..<length px]"
  proof (rule nth_equalityI)
    show "length (dm_depth_mm (depth_decode f (shown E ?es S))) = length (List.map (\<lambda>p. if depth_owner f p \<in> S then px ! p else 0) [0..<length px])"
      unfolding img using len by simp
    fix p assume "p < length (dm_depth_mm (depth_decode f (shown E ?es S)))"
    then have p: "p < length px" using len unfolding img by simp
    then have pr: "p < length (replicate (?w * ?h) (0 :: u16))" using len by simp
    have o: "depth_owner f p < length D"
      using depth_owner_less [OF pos, of p] p len by (simp add: D_def lE)
    show "dm_depth_mm (depth_decode f (shown E ?es S)) ! p
        = List.map (\<lambda>p. if depth_owner f p \<in> S then px ! p else 0) [0..<length px] ! p"
      unfolding img using depth_fold [OF pos D pr] pix [OF p o] o p by simp
  qed
qed

text \<open>C29: depth maps survive loss.  An encoded depth map has the descriptor's size; and whichever slices of
  it arrive, decoding what arrived gives every pixel of the arrived slices exactly and zero (no depth)
  for every other pixel: pixel p travels in the slice that owns its segment.  With all slices it is the
  map that was encoded.\<close>

theorem depth_survives_loss:
  assumes "depth_encode f px = Some (Some bs)"
    and "slice_frame sid seq cap bs (depth_element_size f) maxp = Inr ds" and "af_slices fr = frame_of ds R"
  shows "length bs = depth_element_count f * depth_element_size f
    \<and> encoding_decode (DepthEncoding f i) fr = DepthData \<lparr>dm_width = df_width f, dm_height = df_height f,
        dm_depth_mm = List.map (\<lambda>p. if depth_owner f p mod length ds \<in> R then px ! p else 0) [0..<length px]\<rparr>
    \<and> ({..<length ds} \<subseteq> R \<longrightarrow>
        encoding_decode (DepthEncoding f i) fr = DepthData \<lparr>dm_width = df_width f, dm_height = df_height f, dm_depth_mm = px\<rparr>)"
proof -
  let ?es = "depth_element_size f"
  have w: "0 < unat (df_width f)" "0 < unat (df_segment_width f)" and len: "length px = unat (df_width f) * unat (df_height f)"
    and bs: "bs = concat (depth_elements f px)"
    using assms(1) by (auto simp: depth_encode_def Let_def depth_elements_def concat_of_concats split: if_splits)
  note E = depth_decode_elements [OF w len]
  have es: "0 < ?es" using w(2) by (simp add: depth_element_size_def)
  have size: "length bs = depth_element_count f * ?es"
    using E(1,2) unfolding bs length_concat by (simp add: sum_list_triv flip: sum_list_replicate cong: map_cong)
  have chunks: "chunks_exact ?es bs = depth_elements f px" unfolding bs using E(2) es by (intro chunks_exact_concat) auto
  have count: "length bs div ?es = depth_element_count f" using size es by simp
  let ?S = "{i. i < depth_element_count f \<and> i mod length ds \<in> R}"
  have dec: "encoding_decode (DepthEncoding f i) fr = DepthData (depth_decode f (shown (depth_elements f px) ?es ?S))"
    using deinterleave_frame_of [OF assms(2,3)] unfolding count chunks by simp
  have own: "depth_owner f p < depth_element_count f" if "p < length px" for p
    using that unfolding len by (rule depth_owner_less [OF w])
  have img: "depth_decode f (shown (depth_elements f px) ?es ?S) = \<lparr>dm_width = df_width f, dm_height = df_height f,
      dm_depth_mm = List.map (\<lambda>p. if depth_owner f p mod length ds \<in> R then px ! p else 0) [0..<length px]\<rparr>"
  proof (rule DepthImage.equality)
    show "dm_depth_mm (depth_decode f (shown (depth_elements f px) ?es ?S)) = dm_depth_mm \<lparr>dm_width = df_width f,
      dm_height = df_height f,
      dm_depth_mm = List.map (\<lambda>p. if depth_owner f p mod length ds \<in> R then px ! p else 0) [0..<length px]\<rparr>"
      unfolding E(3) using own by simp
  qed (simp_all add: depth_decode_def Let_def)
  have "List.map (\<lambda>p. if depth_owner f p mod length ds \<in> R then px ! p else 0) [0..<length px] = px"
    if "{..<length ds} \<subseteq> R"
  proof -
    have "0 < length ds" using slice_frame_nonempty [OF assms(2)] .
    then have "k mod length ds \<in> R" for k using that by auto
    then show ?thesis by (simp add: map_nth)
  qed
  then show ?thesis using size dec img by auto
qed

definition depth_3x2 :: DepthFormat where
  "depth_3x2 = \<lparr>df_width = 3, df_height = 2, df_segment_width = 2\<rparr>"

theorem depth_survives_loss_witness:
  "\<exists>ds. slice_frame 1 2 3 [0, 1, 0, 2, 0, 3, 0, 0, 0, 4, 0, 5, 0, 6, 0, 0] 4 4 = Inr ds \<and>
    encoding_decode (DepthEncoding depth_3x2 \<lparr>in_fx = Fin 1, in_fy = Fin 1, in_cx = Fin 0, in_cy = Fin 0\<rparr>)
      \<lparr>af_sensor_id = 1, af_frame_seq = 2, af_capture_time_us = 3, af_slices = frame_of ds {0, 1, 3}\<rparr>
    = DepthData \<lparr>dm_width = 3, dm_height = 2, dm_depth_mm = [1, 2, 3, 0, 0, 6]\<rparr>"
proof -
  let ?bs = "[0, 1, 0, 2, 0, 3, 0, 0, 0, 4, 0, 5, 0, 6, 0, 0] :: bytes"
  have enc: "depth_encode depth_3x2 [1, 2, 3, 4, 5, 6] = Some (Some ?bs)" by code_simp
  have es: "depth_element_size depth_3x2 = 4" by code_simp
  have "map_sum id length (slice_frame 1 2 3 ?bs 4 4) = Inr 4" by code_simp
  then obtain ds where ds: "slice_frame 1 2 3 ?bs 4 4 = Inr ds" "length ds = 4"
    by (cases "slice_frame 1 2 3 ?bs 4 4") auto
  have o: "List.map (depth_owner depth_3x2) [0..<6] = [0, 0, 1, 2, 2, 3]" by code_simp
  have fmt: "df_width depth_3x2 = 3" "df_height depth_3x2 = 2" by (simp_all add: depth_3x2_def)
  have px: "List.map (\<lambda>p. if depth_owner depth_3x2 p mod 4 \<in> {0, 1, 3} then [1, 2, 3, 4, 5, 6] ! p else 0) [0..<6]
    = [1, 2, 3, 0, 0, 6 :: u16]" by code_simp
  let ?fr = "\<lparr>af_sensor_id = 1, af_frame_seq = 2, af_capture_time_us = 3, af_slices = frame_of ds {0, 1, 3}\<rparr>"
  have sl: "slice_frame 1 2 3 ?bs (depth_element_size depth_3x2) 4 = Inr ds" using ds(1) es by simp
  have fr: "af_slices ?fr = frame_of ds {0, 1, 3}" by simp
  have six: "length [1, 2, 3, 4, 5, 6 :: u16] = 6" by simp
  note conjunct1 [OF conjunct2 [OF depth_survives_loss [OF enc sl fr]]]
  from this [unfolded six ds(2) px fmt] ds(1) show ?thesis by blast
qed

section \<open>Accuracy of the quantised encodings\<close>

text \<open>Two values within 0.52 steps of each other.\<close>

definition within_step :: "fl \<Rightarrow> fl \<Rightarrow> fl \<Rightarrow> bool" where
  "within_step scale a b \<longleftrightarrow> (case (scale, a, b) of (Fin s, Fin x, Fin y) \<Rightarrow> \<bar>x - y\<bar> \<le> 52/100 * s | _ \<Rightarrow> False)"

text \<open>Scales for which the bound holds: from a micrometre to a thousand kilometres.\<close>

definition sane_scale :: "fl \<Rightarrow> bool" where
  "sane_scale scale \<longleftrightarrow> (case scale of Fin s \<Rightarrow> 1 / 2 ^ 20 \<le> s \<and> s \<le> 2 ^ 20 | _ \<Rightarrow> False)"

lemma sane_scaleE: "sane_scale scale \<Longrightarrow> (\<And>s. scale = Fin s \<Longrightarrow> 1 / 2 ^ 20 \<le> s \<Longrightarrow> s \<le> 2 ^ 20 \<Longrightarrow> P) \<Longrightarrow> P"
  by (auto simp: sane_scale_def split: fl.splits)

lemma product_near:
  assumes s: "1 / 2 ^ 20 \<le> s" "s \<le> 2 ^ 20" and n: "\<bar>n\<bar> \<le> (65536 :: int)"
  obtains y where "fmul B32 (fof_int B32 n) (Fin s) = Fin y" and "\<bar>y - of_int n * s\<bar> \<le> s / 128"
proof -
  define j where "j = ilog2 s + 1"
  have s0: "0 < s" using s(1) by (rule less_le_trans [rotated]) simp
  have j: "p2 (j - 1) \<le> s" "s < p2 j" using ilog2_bounds [OF s0] by (simp_all add: j_def)
  have "p2 (- 20) \<le> s" using s(1) by (simp add: p2_def)
  then have jlo: "- 19 \<le> j" using ilog2_ge [of "- 20" s] by (simp add: j_def)
  have "p2 (j - 1) < p2 21" using j(1) s(2) by (rule_tac le_less_trans [of _ s]) (simp_all add: p2_def)
  then have jhi: "j \<le> 21" by simp
  have p16: "p2 (16 + j) = 65536 * p2 j" by (simp add: p2_add) (simp add: p2_def)
  have "\<bar>of_int n\<bar> \<le> (65536 :: rat)" using n by (metis of_int_abs of_int_le_iff of_int_numeral)
  then have "\<bar>of_int n * s\<bar> \<le> 65536 * s" using s0 by (simp add: abs_mult)
  also have "\<dots> \<le> p2 (16 + j)" using j(2) by (simp add: p16)
  finally have b: "\<bar>of_int n * s\<bar> \<le> p2 (16 + j)" .
  have e: "\<bar>rnd B32 (of_int n * s) - of_int n * s\<bar> \<le> p2 (16 + j - 24)"
    using rnd_error [OF b, of B32] jlo by simp
  have "p2 (16 + j - 24) = p2 (j - 1) / 128" by (simp add: p2_diff p2_add) (simp add: p2_def)
  then have e': "\<bar>rnd B32 (of_int n * s) - of_int n * s\<bar> \<le> s / 128" using e j(1) by linarith
  have "p2 (16 + j) \<le> p2 37" using jhi by simp
  moreover have "\<bar>rnd B32 (of_int n * s)\<bar> \<le> \<bar>of_int n * s\<bar> + s / 128" using e' unfolding abs_le_iff by linarith
  ultimately have "\<bar>rnd B32 (of_int n * s)\<bar> \<le> p2 37 + 2 ^ 20" using b s s0 by linarith
  also have "p2 37 + 2 ^ 20 < p2 (qmax B32 + int (prec B32))" by (simp add: p2_def)
  finally have "\<bar>rnd B32 (of_int n * s)\<bar> < p2 (qmax B32 + int (prec B32))" .
  moreover have "fof_int B32 n = Fin (of_int n)" unfolding fof_int_def by (rule fround_to_of_int) (use n in simp)
  ultimately show thesis using that [OF _ e'] by (simp add: fround_to_rnd)
qed

lemma quotient_near:
  assumes s: "0 < s" and q: "fround (fdiv B32 (Fin x) (Fin s)) = Fin (of_int n)" and n: "\<bar>n\<bar> \<le> (65535 :: int)"
  shows "\<bar>of_int n * s - x\<bar> \<le> (1 / 2 + 1 / 256) * s"
proof -
  have q': "fround (fround_to B32 (x / s)) = Fin (of_int n)" using q s by simp
  then obtain t where t: "fround_to B32 (x / s) = Fin t" and "Fin (of_int (round_away t)) = Fin (of_int n)"
    by (cases "fround_to B32 (x / s)") auto
  then have rt: "round_away t = n" by simp
  have rt': "t = rnd B32 (x / s)" using t fround_to_cases [of B32 "x / s"] by (auto split: if_splits)
  have tn: "\<bar>of_int n - t\<bar> \<le> 1 / 2" using round_away_error [of t] rt by simp
  have n': "\<bar>of_int n\<bar> \<le> (65535 :: rat)" using n by (metis of_int_abs of_int_le_iff of_int_numeral)
  have "\<bar>x / s\<bar> < 65536"
  proof (rule ccontr)
    assume "\<not> \<bar>x / s\<bar> < 65536"
    then have "65536 \<le> x / s \<or> x / s \<le> - 65536" unfolding abs_less_iff by linarith
    then consider "of_int 65536 \<le> x / s" | "x / s \<le> of_int (- 65536)" by auto
    then have "65536 \<le> \<bar>t\<bar>"
    proof cases
      case 1
      then have "of_int 65536 \<le> t" unfolding rt' by (rule rnd_ge_int) simp
      then show ?thesis by simp
    next
      case 2
      then have "t \<le> of_int (- 65536)" unfolding rt' by (rule rnd_le_int) simp
      then show ?thesis by simp
    qed
    with tn n' show False by linarith
  qed
  then have "\<bar>rnd B32 (x / s) - x / s\<bar> \<le> p2 (16 - 24)" using rnd_error [of "x / s" 16 B32] by (simp add: p2_def)
  then have "\<bar>t - x / s\<bar> \<le> 1 / 256" unfolding rt' by (simp add: p2_def)
  with tn have "\<bar>of_int n - x / s\<bar> \<le> 1 / 2 + 1 / 256" by linarith
  then have "\<bar>of_int n - x / s\<bar> * s \<le> (1 / 2 + 1 / 256) * s" using s by (intro mult_right_mono) auto
  moreover have "\<bar>of_int n - x / s\<bar> * s = \<bar>of_int n * s - x\<bar>"
  proof -
    have "\<bar>of_int n - x / s\<bar> * s = \<bar>(of_int n - x / s) * s\<bar>" using s by (simp only: abs_mult abs_of_pos)
    then show ?thesis using s by (simp add: left_diff_distrib)
  qed
  ultimately show ?thesis by simp
qed

lemma quantized_near:
  assumes "1 / 2 ^ 20 \<le> s" "s \<le> 2 ^ 20" and "fround (fdiv B32 v (Fin s)) = Fin (of_int n)" and "\<bar>n\<bar> \<le> (65535 :: int)"
    and "n \<noteq> 0 \<or> is_finite v"
  shows "within_step (Fin s) (fmul B32 (fof_int B32 n) (Fin s)) v"
proof -
  have s: "0 < s" using assms(1) by (rule less_le_trans [rotated]) simp
  obtain x where x: "v = Fin x" using assms(3,5) s by (cases v) (auto simp: finf_of_sign_def split: if_splits)
  obtain y where y: "fmul B32 (fof_int B32 n) (Fin s) = Fin y" "\<bar>y - of_int n * s\<bar> \<le> s / 128"
    using product_near [OF assms(1,2), of n] assms(4) by auto
  have "\<bar>y - x\<bar> \<le> (1 / 2 + 1 / 256) * s + s / 128"
    using quotient_near [OF s assms(3) [unfolded x] assms(4)] y(2) by linarith
  also have "\<dots> \<le> 52 / 100 * s" using s by simp
  finally show ?thesis by (simp add: within_step_def x y)
qed

lemma fto_int_of_int: "lo \<le> n \<Longrightarrow> n \<le> hi \<Longrightarrow> fto_int lo hi (Fin (of_int n)) = n"
  by (auto simp: trunc_rat_def simp flip: of_int_minus)

lemma fround_Fin: "fround a = Fin y \<Longrightarrow> \<exists>n. y = of_int n"
  by (cases a) auto

lemma quantize_i16_Some:
  "quantize_i16 v scale = Some w \<longleftrightarrow>
    (\<exists>n. fround (fdiv B32 v scale) = Fin (of_int n) \<and> - 32768 \<le> n \<and> n \<le> 32767 \<and> w = word_of_int n)"
proof -
  have b: "fof_int B32 (- 32768) = Fin (of_int (- 32768))" "fof_int B32 32767 = Fin (of_int 32767)"
    unfolding fof_int_def by (rule fround_to_of_int, simp)+
  show ?thesis
  proof
    assume q: "quantize_i16 v scale = Some w"
    then obtain y where y: "fround (fdiv B32 v scale) = Fin y"
      by (cases "fround (fdiv B32 v scale)") (auto simp: quantize_i16_def)
    then obtain n where n: "y = of_int n" using fround_Fin by blast
    have "of_int (- 32768) \<le> (of_int n :: rat) \<and> of_int n \<le> (of_int 32767 :: rat)
        \<and> w = word_of_int (fto_int (- 32768) 32767 (Fin (of_int n)))"
      using q unfolding quantize_i16_def y n b Let_def by (simp split: if_splits)
    then show "\<exists>n. fround (fdiv B32 v scale) = Fin (of_int n) \<and> - 32768 \<le> n \<and> n \<le> 32767 \<and> w = word_of_int n"
      unfolding of_int_le_iff using y n fto_int_of_int [of "- 32768" n 32767] by metis
  next
    assume "\<exists>n. fround (fdiv B32 v scale) = Fin (of_int n) \<and> - 32768 \<le> n \<and> n \<le> 32767 \<and> w = word_of_int n"
    then obtain n where n: "fround (fdiv B32 v scale) = Fin (of_int n)" "- 32768 \<le> n" "n \<le> 32767" "w = word_of_int n" by blast
    then have "(of_int (- 32768) :: rat) \<le> of_int n" "(of_int n :: rat) \<le> of_int 32767" by (simp_all only: of_int_le_iff)
    then show "quantize_i16 v scale = Some w"
      unfolding quantize_i16_def n(1) b Let_def using fto_int_of_int [OF n(2,3)] n(4) by simp
  qed
qed

lemma sint_word_of_int_u16: "- 32768 \<le> n \<Longrightarrow> n \<le> 32767 \<Longrightarrow> sint (word_of_int n :: u16) = n"
  by (simp add: int_word_sint)

lemma quantize_i16_near:
  assumes "sane_scale scale" and "quantize_i16 v scale = Some w"
  shows "within_step scale (fmul B32 (fof_int B32 (sint w)) scale) v"
proof -
  obtain s where s: "scale = Fin s" "1 / 2 ^ 20 \<le> s" "s \<le> 2 ^ 20" using assms(1) by (rule sane_scaleE)
  obtain n where n: "fround (fdiv B32 v scale) = Fin (of_int n)" "- 32768 \<le> n" "n \<le> 32767" "w = word_of_int n"
    using assms(2) by (auto simp: quantize_i16_Some)
  have s0: "0 < s" using s(2) by (rule less_le_trans [rotated]) simp
  have "is_finite v" using n(1) s0 by (cases v) (auto simp: s(1) finf_of_sign_def split: if_splits)
  then have "within_step (Fin s) (fmul B32 (fof_int B32 n) (Fin s)) v"
    using n by (intro quantized_near [OF s(2,3)]) (auto simp: s(1))
  then show ?thesis using n(2-4) by (simp add: s(1) sint_word_of_int_u16)
qed

text \<open>A value within the range of the format is not dropped.\<close>

lemma quantize_i16_kept:
  assumes "sane_scale scale" and "scale = Fin s" and "\<bar>x\<bar> \<le> 32767 * s"
  shows "quantize_i16 (Fin x) scale \<noteq> None"
proof -
  have "1 / 2 ^ 20 \<le> s" using assms(1,2) by (simp add: sane_scale_def)
  then have s0: "0 < s" by (rule less_le_trans [rotated]) simp
  have "\<bar>x / s\<bar> = \<bar>x\<bar> / s" using s0 by (simp add: abs_divide)
  then have "\<bar>x / s\<bar> \<le> of_int 32767" using assms(3) s0 by (simp add: pos_divide_le_eq)
  then have t: "fround_to B32 (x / s) = Fin (rnd B32 (x / s))" "\<bar>rnd B32 (x / s)\<bar> \<le> of_int 32767"
    using fround_to_small [of "x / s" 32767 B32] by simp_all
  let ?n = "round_away (rnd B32 (x / s))"
  have q: "fround (fdiv B32 (Fin x) scale) = Fin (of_int ?n)" using s0 t by (simp add: assms(2))
  have "(of_int ?n :: rat) < of_int 32768 \<and> of_int (- 32768) < (of_int ?n :: rat)"
    using round_away_error [of "rnd B32 (x / s)"] t(2) unfolding abs_le_iff of_int_minus of_int_numeral by linarith
  then have "?n < 32768 \<and> - 32768 < ?n" unfolding of_int_less_iff .
  then have "- 32768 \<le> ?n" "?n \<le> 32767" by linarith+
  then show ?thesis using q quantize_i16_Some by blast
qed

section \<open>Point sets survive quantisation\<close>

text \<open>What a decoded point owes to the one that was encoded, for the fields the format carries.\<close>

definition point_close :: "PointFormat \<Rightarrow> Point \<Rightarrow> Point \<Rightarrow> bool" where
  "point_close f p q \<longleftrightarrow>
     within_step (pf_scale_m f) (pt_x q) (pt_x p) \<and> within_step (pf_scale_m f) (pt_y q) (pt_y p)
     \<and> within_step (pf_scale_m f) (pt_z q) (pt_z p)
     \<and> pt_intensity q = (if pf_intensity f then pt_intensity p else 0)
     \<and> (case pf_doppler_scale_mps f of None \<Rightarrow> pt_doppler_mps q = Fin 0
        | Some scale \<Rightarrow> within_step scale (pt_doppler_mps q) (pt_doppler_mps p))
     \<and> pt_snr q = (if pf_snr f then pt_snr p else 0)"

definition sane_point_format :: "PointFormat \<Rightarrow> bool" where
  "sane_point_format f \<longleftrightarrow> sane_scale (pf_scale_m f) \<and> pred_option sane_scale (pf_doppler_scale_mps f)"

text \<open>The points whose carried values fit the format.\<close>

definition fits :: "fl \<Rightarrow> fl \<Rightarrow> bool" where
  "fits scale v \<longleftrightarrow> (case (scale, v) of (Fin s, Fin x) \<Rightarrow> \<bar>x\<bar> \<le> 32767 * s | _ \<Rightarrow> False)"

definition point_fits :: "PointFormat \<Rightarrow> Point \<Rightarrow> bool" where
  "point_fits f p \<longleftrightarrow> fits (pf_scale_m f) (pt_x p) \<and> fits (pf_scale_m f) (pt_y p) \<and> fits (pf_scale_m f) (pt_z p)
     \<and> (case pf_doppler_scale_mps f of None \<Rightarrow> True | Some scale \<Rightarrow> fits scale (pt_doppler_mps p))"

lemma fits_kept: "sane_scale scale \<Longrightarrow> fits scale v \<Longrightarrow> quantize_i16 v scale \<noteq> None"
  using quantize_i16_kept by (auto simp: fits_def split: fl.splits)

lemma point_element_Some:
  "point_element f p = Some e \<longleftrightarrow>
    (\<exists>x y z. quantize_i16 (pt_x p) (pf_scale_m f) = Some x \<and> quantize_i16 (pt_y p) (pf_scale_m f) = Some y
      \<and> quantize_i16 (pt_z p) (pf_scale_m f) = Some z
      \<and> (case pf_doppler_scale_mps f of
           None \<Rightarrow> e = be16 x @ be16 y @ be16 z @ (if pf_intensity f then [pt_intensity p] else [])
             @ (if pf_snr f then [pt_snr p] else [])
         | Some scale \<Rightarrow> \<exists>d. quantize_i16 (pt_doppler_mps p) scale = Some d
             \<and> e = be16 x @ be16 y @ be16 z @ (if pf_intensity f then [pt_intensity p] else []) @ be16 d
               @ (if pf_snr f then [pt_snr p] else [])))"
  by (auto simp: point_element_def split: option.splits)

lemma point_element_kept:
  assumes "sane_point_format f" and "point_fits f p"
  shows "point_element f p \<noteq> None"
proof -
  have "quantize_i16 (pt_x p) (pf_scale_m f) \<noteq> None" "quantize_i16 (pt_y p) (pf_scale_m f) \<noteq> None"
    "quantize_i16 (pt_z p) (pf_scale_m f) \<noteq> None"
    "\<And>scale. pf_doppler_scale_mps f = Some scale \<Longrightarrow> quantize_i16 (pt_doppler_mps p) scale \<noteq> None"
    using assms by (simp_all add: sane_point_format_def point_fits_def fits_kept)
  then show ?thesis by (auto simp: point_element_def split: option.splits)
qed

lemma of_be16_pair: "of_be16 [be16 w ! 0, be16 w ! Suc 0] = w"
proof -
  have "[be16 w ! 0, be16 w ! Suc 0] = be16 w"
    by (rule nth_equalityI) (auto simp: less_Suc_eq numeral_2_eq_2)
  then show ?thesis by simp
qed

lemma i16_at_be16: "length a = k \<Longrightarrow> i16_at (a @ be16 w @ b) k = fof_int B32 (sint w)"
  by (simp add: i16_at_def nth_append of_be16_pair)

lemma length_point_element: "point_element f p = Some e \<Longrightarrow> length e = point_element_size f"
  by (cases "pf_doppler_scale_mps f") (auto simp: point_element_Some point_element_size_def)

lemma be16_nonempty [simp]: "be16 w \<noteq> []"
  by (simp flip: length_0_conv)

text \<open>Reading an element back.\<close>

lemma point_of_element_close:
  assumes "sane_point_format f" and "point_element f p = Some e"
  shows "point_close f p (point_of_element f e)"
proof (cases "pf_doppler_scale_mps f")
  case None
  obtain x y z where q: "quantize_i16 (pt_x p) (pf_scale_m f) = Some x" "quantize_i16 (pt_y p) (pf_scale_m f) = Some y"
    "quantize_i16 (pt_z p) (pf_scale_m f) = Some z"
    and e: "e = be16 x @ be16 y @ be16 z @ (if pf_intensity f then [pt_intensity p] else []) @ (if pf_snr f then [pt_snr p] else [])"
    using assms(2) None by (auto simp: point_element_Some)
  have at: "i16_at e 0 = fof_int B32 (sint x)" "i16_at e 2 = fof_int B32 (sint y)" "i16_at e 4 = fof_int B32 (sint z)"
    unfolding e using i16_at_be16 [of "[]" 0 x] i16_at_be16 [of "be16 x" 2 y] i16_at_be16 [of "be16 x @ be16 y" 4 z] by simp_all
  have s: "sane_scale (pf_scale_m f)" using assms(1) by (simp add: sane_point_format_def)
  have fields: "pf_intensity f \<Longrightarrow> e ! 6 = pt_intensity p"
    "pf_snr f \<Longrightarrow> e ! (if pf_intensity f then 7 else 6) = pt_snr p"
    by (auto simp: e nth_append)
  show ?thesis using quantize_i16_near [OF s q(1)] quantize_i16_near [OF s q(2)] quantize_i16_near [OF s q(3)] fields
    by (auto simp: point_close_def point_of_element_def None at point_default_def Let_def)
next
  case (Some scale)
  obtain x y z d where q: "quantize_i16 (pt_x p) (pf_scale_m f) = Some x" "quantize_i16 (pt_y p) (pf_scale_m f) = Some y"
    "quantize_i16 (pt_z p) (pf_scale_m f) = Some z" "quantize_i16 (pt_doppler_mps p) scale = Some d"
    and e: "e = be16 x @ be16 y @ be16 z @ (if pf_intensity f then [pt_intensity p] else []) @ be16 d @ (if pf_snr f then [pt_snr p] else [])"
    using assms(2) Some by (auto simp: point_element_Some)
  have at: "i16_at e 0 = fof_int B32 (sint x)" "i16_at e 2 = fof_int B32 (sint y)" "i16_at e 4 = fof_int B32 (sint z)"
    unfolding e using i16_at_be16 [of "[]" 0 x] i16_at_be16 [of "be16 x" 2 y] i16_at_be16 [of "be16 x @ be16 y" 4 z] by simp_all
  have dat: "i16_at e (if pf_intensity f then 7 else 6) = fof_int B32 (sint d)"
    unfolding e using i16_at_be16 [of "be16 x @ be16 y @ be16 z @ (if pf_intensity f then [pt_intensity p] else [])" _ d] by simp
  have s: "sane_scale (pf_scale_m f)" "sane_scale scale" using assms(1) Some by (simp_all add: sane_point_format_def)
  have fields: "pf_intensity f \<Longrightarrow> e ! 6 = pt_intensity p"
    "pf_snr f \<Longrightarrow> e ! (if pf_intensity f then 9 else 8) = pt_snr p"
    by (auto simp: e nth_append)
  show ?thesis using quantize_i16_near [OF s(1) q(1)] quantize_i16_near [OF s(1) q(2)] quantize_i16_near [OF s(1) q(3)]
    quantize_i16_near [OF s(2) q(4)] fields dat
    by (simp add: point_close_def point_of_element_def Some at point_default_def Let_def split: if_splits)
qed

definition dropped :: "PointFormat \<Rightarrow> Point \<Rightarrow> bool" where
  "dropped f p \<longleftrightarrow> point_element f p = None"

lemma points_encode_alt:
  "points_encode f ps = (concat (List.map (the \<circ> point_element f) (filter (Not \<circ> dropped f) ps)),
     length (filter (dropped f) ps))"
  by (induction ps) (auto simp: dropped_def split: option.splits)

lemma points_decode_encode:
  "points_decode f (fst (points_encode f ps)) =
    List.map (point_of_element f \<circ> the \<circ> point_element f) (filter (Not \<circ> dropped f) ps)"
proof -
  have "0 < point_element_size f" by (simp add: point_element_size_def)
  then have "chunks_exact (point_element_size f) (fst (points_encode f ps))
    = List.map (the \<circ> point_element f) (filter (Not \<circ> dropped f) ps)"
    unfolding points_encode_alt fst_conv
    by (intro chunks_exact_concat) (auto simp: dropped_def length_point_element)
  then show ?thesis by (simp add: points_decode_def)
qed

text \<open>Point sets survive quantisation.  For any scales between a millionth and a million, encoding
  a set of points never fails; a point is dropped only when a value the format carries does not fit
  (beyond 32767 steps, or not finite), the count returned is exactly the dropped points, and decoding
  the bytes gives the others back in order, every coordinate and speed within 0.52 of a step, the
  intensity and SNR bytes exactly, and the fields the format leaves out at their defaults.\<close>

theorem points_survive_quantisation:
  assumes "sane_point_format f"
  shows "length (fst (points_encode f ps)) = (length ps - snd (points_encode f ps)) * point_element_size f
    \<and> snd (points_encode f ps) = length (filter (dropped f) ps)
    \<and> list_all (\<lambda>p. dropped f p \<longrightarrow> \<not> point_fits f p) ps
    \<and> list_all2 (point_close f) (filter (Not \<circ> dropped f) ps) (points_decode f (fst (points_encode f ps)))"
proof -
  let ?kept = "filter (Not \<circ> dropped f) ps"
  have k: "point_element f p = Some (the (point_element f p))" if "p \<in> set ?kept" for p
    using that by (auto simp: dropped_def)
  have "length (concat (List.map (the \<circ> point_element f) ?kept)) = length ?kept * point_element_size f"
    using length_point_element [OF k] by (intro length_concat_const) simp
  moreover have "length ?kept = length ps - length (filter (dropped f) ps)"
    using sum_length_filter_compl [of "dropped f" ps] by (simp add: comp_def)
  moreover have "list_all2 (point_close f) ?kept (points_decode f (fst (points_encode f ps)))"
  proof -
    have "\<forall>p \<in> set ?kept. point_close f p (point_of_element f (the (point_element f p)))"
      using point_of_element_close [OF assms k] by blast
    then show ?thesis unfolding points_decode_encode by (simp add: list_all2_map2 list_all2_same)
  qed
  moreover have "list_all (\<lambda>p. dropped f p \<longrightarrow> \<not> point_fits f p) ps"
    unfolding list_all_iff dropped_def using point_element_kept [OF assms] by blast
  ultimately show ?thesis by (simp add: points_encode_alt)
qed

definition half_metre :: PointFormat where
  "half_metre = \<lparr>pf_scale_m = Fin (1 / 2), pf_intensity = True, pf_doppler_scale_mps = None, pf_snr = False\<rparr>"

definition three_points :: "Point list" where
  "three_points = [point_default\<lparr>pt_x := Fin 1, pt_y := Fin (- 3 / 4), pt_intensity := 7, pt_snr := 5\<rparr>,
     point_default\<lparr>pt_x := NaN\<rparr>, point_default\<lparr>pt_z := Fin 2\<rparr>]"

theorem points_survive_quantisation_witness:
  "sane_point_format half_metre \<and> snd (points_encode half_metre three_points) = 1
   \<and> points_decode half_metre (fst (points_encode half_metre three_points))
     = [point_default\<lparr>pt_x := Fin 1, pt_y := Fin (- 1), pt_intensity := 7\<rparr>, point_default\<lparr>pt_z := Fin 2\<rparr>]
   \<and> list_all2 (point_close half_metre) [three_points ! 0, three_points ! 2]
       (points_decode half_metre (fst (points_encode half_metre three_points)))"
proof -
  have f: "sane_point_format half_metre" by (simp add: sane_point_format_def half_metre_def sane_scale_def)
  have d: "filter (Not \<circ> dropped half_metre) three_points = [three_points ! 0, three_points ! 2]" by code_simp
  have "snd (points_encode half_metre three_points) = 1" by code_simp
  moreover have "points_decode half_metre (fst (points_encode half_metre three_points))
     = [point_default\<lparr>pt_x := Fin 1, pt_y := Fin (- 1), pt_intensity := 7\<rparr>, point_default\<lparr>pt_z := Fin 2\<rparr>]" by code_simp
  ultimately show ?thesis using f conjunct2 [OF conjunct2 [OF conjunct2 [OF points_survive_quantisation [OF f, of three_points]]]]
    unfolding d by blast
qed

section \<open>Announced encodings can be sent\<close>

lemma slice_count_ok:
  "slice_count n s maxp = Inr k \<Longrightarrow> 0 < s \<and> s \<le> maxp \<and> div_ceil n (maxp div s) \<le> 65535"
  by (auto simp: slice_count_def Let_def div_greater_zero_iff split: if_splits)

lemma slice_frame_ok:
  assumes "0 < s" "s \<le> maxp" "length bs = n * s" "div_ceil n (maxp div s) \<le> 65535"
  shows "\<exists>ds. slice_frame sid seq cap bs s maxp = Inr ds"
proof -
  have "0 < maxp div s" using assms(1,2) by (simp add: div_greater_zero_iff)
  then have "\<exists>k. slice_count n s maxp = Inr k" using assms by (simp add: slice_count_def Let_def)
  then show ?thesis using assms(1,3) by (auto simp: slice_frame_def interleave_def)
qed

lemma length_range_column:
  "(rf_intensity f \<Longrightarrow> i \<noteq> None) \<Longrightarrow> length (range_column f rs i c) = range_element_size f"
  by (cases i) (auto simp: range_column_def length_concat comp_def sum_list_triv range_element_size_def)

lemma length_range_encode:
  assumes "range_encode f rs i = Some bs"
  shows "length bs = range_element_count f * range_element_size f"
proof -
  have i: "rf_intensity f \<Longrightarrow> i \<noteq> None" and bs: "bs = concat (List.map (range_column f rs i) [0..<unat (rf_columns f)])"
    using assms by (auto simp: range_encode_def split: if_splits)
  then show ?thesis using length_range_column [of f i rs] unfolding bs
    by (subst length_concat_const [of _ _ "range_element_size f"]) (auto simp: range_element_count_def)
qed

lemma length_depth_encode:
  assumes "depth_encode f px = Some (Some bs)"
  shows "length bs = depth_element_count f * depth_element_size f"
proof -
  have w: "0 < unat (df_width f)" "0 < unat (df_segment_width f)" and len: "length px = unat (df_width f) * unat (df_height f)"
    and bs: "bs = concat (depth_elements f px)"
    using assms by (auto simp: depth_encode_def Let_def depth_elements_def concat_of_concats split: if_splits)
  show ?thesis unfolding bs length_concat using depth_decode_elements(1,2) [OF w len]
    by (simp add: sum_list_triv flip: sum_list_replicate cong: map_cong)
qed

text \<open>A validated descriptor can be sent.  When a descriptor passes validation, every frame of its
  encoding can be encoded and sliced with the default payload, with no error and no panic: a range image
  or a depth map of the announced dimensions always, a point set of up to 65,535 points always.\<close>

theorem valid_descriptors_slice:
  assumes "descriptor_validate d = Inr ()"
  shows "case sd_encoding d of
      PointsEncoding f \<Rightarrow> (\<forall>ps. length ps \<le> 65535 \<longrightarrow>
        (\<exists>ds. slice_frame sid seq cap (fst (points_encode f ps)) (point_element_size f) DEFAULT_SLICE_PAYLOAD = Inr ds))
    | RangeEncoding f elevations \<Rightarrow> (\<forall>rs i. length rs = range_len f
          \<and> (rf_intensity f \<longrightarrow> map_option length i = Some (range_len f)) \<longrightarrow>
        (\<exists>bs ds. range_encode f rs i = Some bs
          \<and> slice_frame sid seq cap bs (range_element_size f) DEFAULT_SLICE_PAYLOAD = Inr ds))
    | DepthEncoding f _ \<Rightarrow> (\<forall>px. length px = unat (df_width f) * unat (df_height f) \<longrightarrow>
        (\<exists>bs ds. depth_encode f px = Some (Some bs)
          \<and> slice_frame sid seq cap bs (depth_element_size f) DEFAULT_SLICE_PAYLOAD = Inr ds))"
proof -
  have sz: "0 < s \<and> s \<le> DEFAULT_SLICE_PAYLOAD \<and> div_ceil n (DEFAULT_SLICE_PAYLOAD div s) \<le> 65535"
    if "s = encoding_element_size (sd_encoding d)"
      "n = (case encoding_element_count (sd_encoding d) of None \<Rightarrow> 0 | Some n \<Rightarrow> n)" for s n
    using assms that slice_count_ok [of n s DEFAULT_SLICE_PAYLOAD]
    by (auto simp: descriptor_validate_def Let_def split: if_splits option.splits sum.splits)
  have err: "encoding_error (sd_encoding d) = None"
    using assms by (simp add: descriptor_validate_def split: if_splits option.splits)
  show ?thesis
  proof (cases "sd_encoding d")
    case (PointsEncoding f)
    have s: "0 < point_element_size f" "point_element_size f \<le> DEFAULT_SLICE_PAYLOAD"
      using sz [OF refl refl] by (simp_all add: PointsEncoding)
    have "\<exists>ds. slice_frame sid seq cap (fst (points_encode f ps)) (point_element_size f) DEFAULT_SLICE_PAYLOAD = Inr ds"
      if "length ps \<le> 65535" for ps
    proof (rule slice_frame_ok [OF s])
      let ?kept = "filter (Not \<circ> dropped f) ps"
      show "length (fst (points_encode f ps)) = length ?kept * point_element_size f"
        unfolding points_encode_alt fst_conv
        by (rule length_concat_const) (auto simp: dropped_def length_point_element)
      have "0 < DEFAULT_SLICE_PAYLOAD div point_element_size f" using s by (simp add: div_greater_zero_iff)
      moreover have "length ?kept \<le> 65535" using that length_filter_le order_trans by blast
      ultimately show "div_ceil (length ?kept) (DEFAULT_SLICE_PAYLOAD div point_element_size f) \<le> 65535"
        by (subst div_ceil_le_iff) (auto intro: order_trans [of _ "65535 * 1"] mult_left_mono)
    qed
    then show ?thesis by (simp add: PointsEncoding)
  next
    case (RangeEncoding f elevations)
    have "\<exists>bs ds. range_encode f rs i = Some bs
        \<and> slice_frame sid seq cap bs (range_element_size f) DEFAULT_SLICE_PAYLOAD = Inr ds"
      if "length rs = range_len f" "rf_intensity f \<longrightarrow> map_option length i = Some (range_len f)" for rs i
    proof -
      have "range_encode f rs i \<noteq> None" using that by (auto simp: range_encode_def)
      then obtain bs where bs: "range_encode f rs i = Some bs" by blast
      then show ?thesis using sz [OF refl refl] slice_frame_ok [OF _ _ length_range_encode [OF bs]]
        by (simp add: RangeEncoding)
    qed
    then show ?thesis by (simp add: RangeEncoding)
  next
    case (DepthEncoding f i)
    have w: "unat (df_width f) \<noteq> 0" "unat (df_segment_width f) \<noteq> 0"
      using err by (simp_all add: DepthEncoding unat_eq_0 split: if_splits)
    have "\<exists>bs ds. depth_encode f px = Some (Some bs)
          \<and> slice_frame sid seq cap bs (depth_element_size f) DEFAULT_SLICE_PAYLOAD = Inr ds"
      if "length px = unat (df_width f) * unat (df_height f)" for px
    proof -
      have "\<exists>bs. depth_encode f px = Some (Some bs)" unfolding depth_encode_def Let_def using that w by simp
      then obtain bs where bs: "depth_encode f px = Some (Some bs)" by blast
      then show ?thesis using sz [OF refl refl] slice_frame_ok [OF _ _ length_depth_encode [OF bs]]
        by (simp add: DepthEncoding)
    qed
    then show ?thesis by (simp add: DepthEncoding)
  qed
qed

definition two_beams :: SensorDescriptor where
  "two_beams = \<lparr>sd_sensor_id = 1, sd_label = [], sd_encoding = RangeEncoding
       \<lparr>rf_beams = 2, rf_columns = 1, rf_range_scale_m = Fin (1 / 4), rf_intensity = False\<rparr> [Fin 0, Fin (1 / 8)],
     sd_max_hz = 10, sd_max_bitrate_kbps = 0, sd_mount_position_m = [], sd_mount_orientation_xyzw = []\<rparr>"

theorem valid_descriptors_slice_witness:
  "\<exists>bs ds. range_encode \<lparr>rf_beams = 2, rf_columns = 1, rf_range_scale_m = Fin (1 / 4), rf_intensity = False\<rparr>
      [Fin 1, Fin (1 / 2)] None = Some bs \<and> slice_frame 1 0 7 bs 4 DEFAULT_SLICE_PAYLOAD = Inr ds"
proof -
  let ?f = "\<lparr>rf_beams = 2, rf_columns = 1, rf_range_scale_m = Fin (1 / 4), rf_intensity = False\<rparr>"
  have ok: "descriptor_validate two_beams = Inr ()" by code_simp
  have e: "sd_encoding two_beams = RangeEncoding ?f [Fin 0, Fin (1 / 8)]" by (simp add: two_beams_def)
  have "length [Fin 1, Fin (1 / 2)] = range_len ?f" "range_element_size ?f = 4" by code_simp+
  moreover have "\<not> rf_intensity ?f" by simp
  ultimately show ?thesis using valid_descriptors_slice [OF ok, of 1 0 7] unfolding e SensorEncoding.case by metis
qed

end
