(* ===== verification/Bulk.thy ===== *)
theory Bulk
  imports Topic "HOL-Library.Product_Lexorder" "HOL-Library.Sublist"
begin

text \<open>
  Bulk objects: the header and the receiver of \<open>roboprotocol-core/bulk.rs\<close>, the occupancy grid it
  carries, and the robot's sender of \<open>robot-edge/bulk_sender.rs\<close>.  Each object travels on a stream of
  its own.  The QUIC connection is a parameter of the sender's model: its state has the type \<open>'c\<close>, and
  \<open>stream_send\<close> and \<open>stream_priority\<close> are functions on it.
\<close>

section \<open>The header\<close>

definition BULK_FORMAT :: u8 where "BULK_FORMAT = 1"
definition BULK_HEADER_LEN :: nat where "BULK_HEADER_LEN = 1 + 1 + 1 + 1 + 4 + 8 + 8"
definition MAX_BULK_OBJECT :: u64 where "MAX_BULK_OBJECT = 64 * 1024 * 1024"

datatype BulkKind = OccupancyGridKind | KeyframeCloud | DepthSnapshot | Blob

fun kind_to_u8 :: "BulkKind \<Rightarrow> u8" where
  "kind_to_u8 OccupancyGridKind = 1"
| "kind_to_u8 KeyframeCloud = 2"
| "kind_to_u8 DepthSnapshot = 3"
| "kind_to_u8 Blob = 255"

definition kind_from_u8 :: "u8 \<Rightarrow> BulkKind option" where
  "kind_from_u8 v =
     (if v = 1 then Some OccupancyGridKind else if v = 2 then Some KeyframeCloud
      else if v = 3 then Some DepthSnapshot else if v = 255 then Some Blob else None)"

record BulkHeader =
  bh_kind :: BulkKind
  bh_source_id :: u8
  bh_encoding :: u8
  bh_version :: u32
  bh_length :: u64
  bh_capture_time_us :: u64

definition bulk_header_encode :: "BulkHeader \<Rightarrow> bytes" where
  "bulk_header_encode h =
     [BULK_FORMAT, kind_to_u8 (bh_kind h), bh_source_id h, bh_encoding h]
     @ be32 (bh_version h) @ be64 (bh_length h) @ be64 (bh_capture_time_us h)"

datatype BulkError =
    ShortHeader | UnknownFormat u8 | UnknownKind u8 | BulkTooLarge u64 | TooLong | BulkTruncated u64 u64

definition bulk_header_decode :: "bytes \<Rightarrow> BulkError + BulkHeader" where
  "bulk_header_decode bs =
     (if length bs < BULK_HEADER_LEN then Inl ShortHeader
      else if bs ! 0 \<noteq> BULK_FORMAT then Inl (UnknownFormat (bs ! 0))
      else case kind_from_u8 (bs ! 1) of
             None \<Rightarrow> Inl (UnknownKind (bs ! 1))
           | Some kind \<Rightarrow>
               let len = of_be64 (slice 8 16 bs)
               in if MAX_BULK_OBJECT < len then Inl (BulkTooLarge len)
                  else Inr \<lparr>bh_kind = kind, bh_source_id = bs ! 2, bh_encoding = bs ! 3,
                            bh_version = of_be32 (slice 4 8 bs), bh_length = len,
                            bh_capture_time_us = of_be64 (slice 16 24 bs)\<rparr>)"

type_synonym bulk_key = "BulkKind \<times> u8"

definition bulk_header_key :: "BulkHeader \<Rightarrow> bulk_key" where
  "bulk_header_key h = (bh_kind h, bh_source_id h)"

definition is_bulk_stream :: "u64 \<Rightarrow> bool" where
  "is_bulk_stream stream_id \<longleftrightarrow> stream_id mod 4 = 3"

section \<open>The receiver\<close>

record BulkObject =
  bo_header :: BulkHeader
  bo_bytes :: bytes

record BulkStats =
  bs_completed :: nat
  bs_superseded :: nat
  bs_rejected :: nat

record Partial =
  pa_header :: "BulkHeader option"
  pa_bytes :: bytes

record BulkReceiver =
  br_streams :: "(u64, Partial) amap"
  br_latest :: "(bulk_key, u32) amap"
  br_dropped :: "u64 list"
  br_stats :: BulkStats

definition bulk_receiver_new :: BulkReceiver where
  "bulk_receiver_new = \<lparr>br_streams = [], br_latest = [], br_dropped = [],
     br_stats = \<lparr>bs_completed = 0, bs_superseded = 0, bs_rejected = 0\<rparr>\<rparr>"

abbreviation count_superseded :: "nat \<Rightarrow> BulkReceiver \<Rightarrow> BulkReceiver" where
  "count_superseded n r \<equiv> r\<lparr>br_stats := (br_stats r)\<lparr>bs_superseded := bs_superseded (br_stats r) + n\<rparr>\<rparr>"

abbreviation count_rejected :: "BulkReceiver \<Rightarrow> BulkReceiver" where
  "count_rejected r \<equiv> r\<lparr>br_stats := (br_stats r)\<lparr>bs_rejected := bs_rejected (br_stats r) + 1\<rparr>\<rparr>"

abbreviation count_completed :: "BulkReceiver \<Rightarrow> BulkReceiver" where
  "count_completed r \<equiv> r\<lparr>br_stats := (br_stats r)\<lparr>bs_completed := bs_completed (br_stats r) + 1\<rparr>\<rparr>"

definition drop_stream :: "u64 \<Rightarrow> BulkReceiver \<Rightarrow> BulkReceiver" where
  "drop_stream stream_id r =
     (if stream_id \<in> set (keys (br_streams r))
      then r\<lparr>br_streams := AList.delete stream_id (br_streams r), br_dropped := List.insert stream_id (br_dropped r)\<rparr>
      else r)"

definition on_header :: "u64 \<Rightarrow> BulkHeader \<Rightarrow> BulkReceiver \<Rightarrow> BulkReceiver" where
  "on_header stream_id h r =
     (let latest = (case map_of (br_latest r) (bulk_header_key h) of None \<Rightarrow> bh_version h | Some v \<Rightarrow> max v (bh_version h));
          r = r\<lparr>br_latest := AList.update (bulk_header_key h) latest (br_latest r)\<rparr>;
          stale = keys (filter (\<lambda>(i, p). i \<noteq> stream_id \<and> (case pa_header p of None \<Rightarrow> False
              | Some ho \<Rightarrow> bulk_header_key ho = bulk_header_key h \<and> bh_version ho < bh_version h)) (br_streams r));
          r = count_superseded (length stale) (fold drop_stream stale r)
      in if bh_version h < latest then count_superseded 1 (drop_stream stream_id r) else r)"

definition reject :: "u64 \<Rightarrow> BulkReceiver \<Rightarrow> BulkReceiver" where
  "reject stream_id r = count_rejected (drop_stream stream_id r)"

text \<open>The end of \<open>on_data\<close>, once the bytes are in and the header, if complete, has been read.\<close>

definition finish_data :: "BulkReceiver \<Rightarrow> u64 \<Rightarrow> bool \<Rightarrow> BulkReceiver \<times> (BulkError + BulkObject option)" where
  "finish_data r stream_id fin =
     (case map_of (br_streams r) stream_id of
        None \<Rightarrow> (r, Inr None)
      | Some p \<Rightarrow>
          let have = length (pa_bytes p)
          in if (case pa_header p of None \<Rightarrow> False | Some h \<Rightarrow> unat (bh_length h) < have)
             then (reject stream_id r, Inl TooLong)
             else if \<not> fin then (r, Inr None)
             else
               let r = r\<lparr>br_streams := AList.delete stream_id (br_streams r)\<rparr>
               in case pa_header p of
                    None \<Rightarrow> (count_rejected r, Inl ShortHeader)
                  | Some h \<Rightarrow>
                      if have \<noteq> unat (bh_length h)
                      then (count_rejected r, Inl (BulkTruncated (word_of_nat have) (bh_length h)))
                      else if (case map_of (br_latest r) (bulk_header_key h) of None \<Rightarrow> False | Some v \<Rightarrow> bh_version h < v)
                      then (count_superseded 1 r, Inr None)
                      else (count_completed r, Inr (Some \<lparr>bo_header = h, bo_bytes = pa_bytes p\<rparr>)))"

definition bulk_on_data ::
  "BulkReceiver \<Rightarrow> u64 \<Rightarrow> bytes \<Rightarrow> bool \<Rightarrow> BulkReceiver \<times> (BulkError + BulkObject option)" where
  "bulk_on_data r stream_id data fin =
     (if stream_id \<in> set (br_dropped r)
      then (if fin then r\<lparr>br_dropped := List.remove1 stream_id (br_dropped r)\<rparr> else r, Inr None)
      else
        let p = (case map_of (br_streams r) stream_id of Some p \<Rightarrow> p | None \<Rightarrow> \<lparr>pa_header = None, pa_bytes = []\<rparr>);
            p = p\<lparr>pa_bytes := pa_bytes p @ data\<rparr>;
            put = (\<lambda>p. r\<lparr>br_streams := AList.update stream_id p (br_streams r)\<rparr>)
        in if pa_header p = None \<and> BULK_HEADER_LEN \<le> length (pa_bytes p)
           then (case bulk_header_decode (pa_bytes p) of
                   Inl e \<Rightarrow> (reject stream_id (put p), Inl e)
                 | Inr h \<Rightarrow>
                     finish_data (on_header stream_id h
                       (put \<lparr>pa_header = Some h, pa_bytes = drop BULK_HEADER_LEN (pa_bytes p)\<rparr>)) stream_id fin)
           else finish_data (put p) stream_id fin)"

definition bulk_on_reset :: "BulkReceiver \<Rightarrow> u64 \<Rightarrow> BulkReceiver" where
  "bulk_on_reset r stream_id =
     (let r = r\<lparr>br_dropped := List.remove1 stream_id (br_dropped r)\<rparr>
      in if stream_id \<in> set (keys (br_streams r))
         then count_superseded 1 (r\<lparr>br_streams := AList.delete stream_id (br_streams r)\<rparr>) else r)"

section \<open>Occupancy grids\<close>

definition OCCUPANCY_GRID_HEADER_LEN :: nat where "OCCUPANCY_GRID_HEADER_LEN = 20"

record OccupancyGrid =
  og_width :: u32
  og_height :: u32
  og_resolution_mm :: u32
  og_origin_x_mm :: u32
  og_origin_y_mm :: u32
  og_cells :: bytes

definition grid_encode :: "OccupancyGrid \<Rightarrow> bytes" where
  "grid_encode g = be32 (og_width g) @ be32 (og_height g) @ be32 (og_resolution_mm g)
     @ be32 (og_origin_x_mm g) @ be32 (og_origin_y_mm g) @ og_cells g"

definition grid_decode :: "bytes \<Rightarrow> OccupancyGrid option" where
  "grid_decode bs =
     (case get_range 0 OCCUPANCY_GRID_HEADER_LEN bs of
        None \<Rightarrow> None
      | Some h \<Rightarrow>
          let u = (\<lambda>i. of_be32 (slice i (i + 4) h)); width = u 0; height = u 4;
              cells = drop OCCUPANCY_GRID_HEADER_LEN bs
          in if word_of_nat (length cells) = (ucast width * ucast height :: u64)
             then Some \<lparr>og_width = width, og_height = height, og_resolution_mm = u 8,
                        og_origin_x_mm = u 12, og_origin_y_mm = u 16, og_cells = cells\<rparr>
             else None)"

text \<open>One pixel: \<open>255u8.saturating_sub((occupied as u16 * 255 / 100) as u8)\<close> for a cell that is
  neither free nor unknown.\<close>

definition pgm_pixel :: "u8 \<Rightarrow> u8" where
  "pgm_pixel c =
     (if c = 0 then 255 else if c = 255 then 128
      else 255 - ucast ((ucast c * 255 :: u16) div 100))"

fun decimal :: "nat \<Rightarrow> bytes" where
  "decimal n = (if n < 10 then [48 + word_of_nat n] else decimal (n div 10) @ [48 + word_of_nat (n mod 10)])"

declare decimal.simps [simp del]

definition to_pgm :: "OccupancyGrid \<Rightarrow> bytes" where
  "to_pgm g = [80, 53, 10] @ decimal (unat (og_width g)) @ [32] @ decimal (unat (og_height g)) @ [10, 50, 53, 53, 10]
     @ concat (List.map (List.map pgm_pixel) (rev (chunks (max (unat (og_width g)) 1) (og_cells g))))"

section \<open>The sender\<close>

definition CHUNK :: nat where "CHUNK = 16 * 1024"
definition BULK_URGENCY :: u8 where "BULK_URGENCY = 7"

record BulkSendStats =
  ss_published :: nat
  ss_completed :: nat
  ss_superseded :: nat

record Outgoing =
  ou_stream_id :: u64
  ou_data :: bytes
  ou_offset :: nat

type_synonym send_key = "u8 \<times> u8"

record BulkSender =
  sn_next_stream_id :: u64
  sn_active :: "(send_key, Outgoing) amap"
  sn_waiting :: "(send_key, bytes) amap"
  sn_stats :: BulkSendStats

definition bulk_sender_new :: BulkSender where
  "bulk_sender_new = \<lparr>sn_next_stream_id = 3, sn_active = [], sn_waiting = [],
     sn_stats = \<lparr>ss_published = 0, ss_completed = 0, ss_superseded = 0\<rparr>\<rparr>"

definition pending_bytes :: "BulkSender \<Rightarrow> nat" where
  "pending_bytes s =
     sum_list (List.map (\<lambda>(_, out). length (ou_data out) - ou_offset out) (sn_active s))
     + sum_list (List.map (\<lambda>(_, d). length d) (sn_waiting s))"

definition allocate_stream :: "BulkSender \<Rightarrow> BulkSender \<times> u64" where
  "allocate_stream s = (s\<lparr>sn_next_stream_id := sn_next_stream_id s + 4\<rparr>, sn_next_stream_id s)"

text \<open>The connection's operations: the outcome of \<open>stream_send\<close> is the number of bytes accepted, or an
  error that waits (\<open>Done\<close>, \<open>StreamLimit\<close>) or fails.\<close>

datatype send_error = SendBlocked | SendFailed

type_synonym 'c stream_send = "'c \<Rightarrow> u64 \<Rightarrow> bytes \<Rightarrow> bool \<Rightarrow> 'c \<times> (send_error + nat)"
type_synonym 'c stream_priority = "'c \<Rightarrow> u64 \<Rightarrow> u8 \<Rightarrow> bool \<Rightarrow> 'c"

definition sender_start ::
  "'c stream_priority \<Rightarrow> 'c \<Rightarrow> send_key \<Rightarrow> bytes \<Rightarrow> BulkSender \<Rightarrow> 'c \<times> BulkSender" where
  "sender_start prio conn key data s =
     (let (s, stream_id) = allocate_stream s
      in (prio conn stream_id BULK_URGENCY False,
          s\<lparr>sn_active := sorted_insert key \<lparr>ou_stream_id = stream_id, ou_data = data, ou_offset = 0\<rparr> (sn_active s)\<rparr>))"

definition bulk_publish ::
  "'c stream_priority \<Rightarrow> 'c \<Rightarrow> BulkHeader \<Rightarrow> bytes \<Rightarrow> BulkSender \<Rightarrow> 'c \<times> BulkSender" where
  "bulk_publish prio conn h payload s =
     (let key = (kind_to_u8 (bh_kind h), bh_source_id h);
          data = bulk_header_encode h @ payload;
          s = s\<lparr>sn_stats := (sn_stats s)\<lparr>ss_published := ss_published (sn_stats s) + 1\<rparr>\<rparr>
      in if key \<in> set (keys (sn_active s))
         then (conn, s\<lparr>sn_waiting := sorted_insert key data (sn_waiting s),
                 sn_stats := (sn_stats s)\<lparr>ss_superseded := ss_superseded (sn_stats s)
                   + of_bool (key \<in> set (keys (sn_waiting s)))\<rparr>\<rparr>)
         else sender_start prio conn key data s)"

text \<open>The loop of \<open>pump\<close> over one object.  The result is \<open>None\<close> on a panic: a slice whose start is
  beyond its end, or a budget that goes below zero; both need a connection that accepts more bytes than
  it was given.  Otherwise the connection, the object, the budget left, the bytes written, and whether
  the object is finished.\<close>

function pump_object ::
  "'c stream_send \<Rightarrow> 'c stream_priority \<Rightarrow> 'c \<Rightarrow> Outgoing \<Rightarrow> nat \<Rightarrow> nat
    \<Rightarrow> ('c \<times> Outgoing \<times> nat \<times> nat \<times> bool) option" where
  "pump_object send prio conn out left written =
     (if left = 0 then Some (conn, out, left, written, False)
      else
        let start = ou_offset out;
            e = min (start + min CHUNK left) (length (ou_data out));
            fin = (e = length (ou_data out))
        in if e < start then None
           else case send conn (ou_stream_id out) (slice start e (ou_data out)) fin of
                  (conn, Inr n) \<Rightarrow>
                    let conn = (if start = 0 \<and> 0 < n then prio conn (ou_stream_id out) BULK_URGENCY False else conn);
                        out = out\<lparr>ou_offset := start + n\<rparr>
                    in if left < n then None
                       else if fin \<and> ou_offset out = length (ou_data out) then Some (conn, out, left - n, written + n, True)
                       else if n < e - start then Some (conn, out, left - n, written + n, False)
                       else pump_object send prio conn out (left - n) (written + n)
                | (conn, Inl SendBlocked) \<Rightarrow> Some (conn, out, left, written, False)
                | (conn, Inl SendFailed) \<Rightarrow> Some (conn, out, left, written, True))"
  by pat_completeness auto
termination
proof (relation "measure (\<lambda>(_, _, _, out, _, _). length (ou_data out) + 1 - ou_offset out)", goal_cases)
  case 1
  then show ?case by simp
next
  case 2
  then show ?case by (auto simp: CHUNK_def min_def split: if_splits)
qed

declare pump_object.simps [simp del]

fun pump_objects ::
  "'c stream_send \<Rightarrow> 'c stream_priority \<Rightarrow> 'c \<Rightarrow> (send_key, Outgoing) amap \<Rightarrow> nat \<Rightarrow> nat
    \<Rightarrow> ('c \<times> (send_key, Outgoing) amap \<times> nat \<times> send_key list) option" where
  "pump_objects send prio conn [] left written = Some (conn, [], written, [])"
| "pump_objects send prio conn ((key, out) # rest) left written =
     (case pump_object send prio conn out left written of
        None \<Rightarrow> None
      | Some (conn, out, left, written, ended) \<Rightarrow>
          let finished = (if ended then [key] else [])
          in if left = 0 then Some (conn, (key, out) # rest, written, finished)
             else map_option (\<lambda>(conn, rest, written, fs). (conn, (key, out) # rest, written, finished @ fs))
                    (pump_objects send prio conn rest left written))"

fun finish_objects :: "'c stream_priority \<Rightarrow> 'c \<Rightarrow> send_key list \<Rightarrow> BulkSender \<Rightarrow> 'c \<times> BulkSender" where
  "finish_objects prio conn [] s = (conn, s)"
| "finish_objects prio conn (key # finished) s =
     (let complete = (case map_of (sn_active s) key of None \<Rightarrow> False | Some out \<Rightarrow> ou_offset out = length (ou_data out));
          s = s\<lparr>sn_active := AList.delete key (sn_active s),
                sn_stats := (sn_stats s)\<lparr>ss_completed := ss_completed (sn_stats s) + of_bool complete\<rparr>\<rparr>;
          (conn, s) =
            (case map_of (sn_waiting s) key of
               None \<Rightarrow> (conn, s)
             | Some next \<Rightarrow> sender_start prio conn key next (s\<lparr>sn_waiting := AList.delete key (sn_waiting s)\<rparr>))
      in finish_objects prio conn finished s)"

text \<open>\<open>usize::MAX\<close> stands for no budget.\<close>

definition bulk_pump ::
  "'c stream_send \<Rightarrow> 'c stream_priority \<Rightarrow> 'c \<Rightarrow> nat option \<Rightarrow> BulkSender \<Rightarrow> ('c \<times> BulkSender \<times> nat) option" where
  "bulk_pump send prio conn budget s =
     (let left = (case budget of None \<Rightarrow> 2 ^ 64 - 1 | Some b \<Rightarrow> b)
      in map_option (\<lambda>(conn, active, written, finished).
             let (conn, s) = finish_objects prio conn finished (s\<lparr>sn_active := active\<rparr>) in (conn, s, written))
           (pump_objects send prio conn (sn_active s) left 0))"

definition bulk_header :: "BulkKind \<Rightarrow> u8 \<Rightarrow> u8 \<Rightarrow> u32 \<Rightarrow> bytes \<Rightarrow> u64 \<Rightarrow> BulkHeader" where
  "bulk_header kind source_id encoding version payload now_micros =
     \<lparr>bh_kind = kind, bh_source_id = source_id, bh_encoding = encoding, bh_version = version,
      bh_length = word_of_nat (length payload), bh_capture_time_us = now_micros\<rparr>"

section \<open>Bulk objects arrive whole\<close>

lemma kind_round [simp]: "kind_from_u8 (kind_to_u8 k) = Some k"
  by (cases k) (simp_all add: kind_from_u8_def)

lemma length_bulk_header_encode [simp]: "length (bulk_header_encode h) = BULK_HEADER_LEN"
  by (simp add: bulk_header_encode_def BULK_HEADER_LEN_def)

lemma bulk_header_decode_encode:
  "bulk_header_decode (bulk_header_encode h @ rest) =
    (if MAX_BULK_OBJECT < bh_length h then Inl (BulkTooLarge (bh_length h)) else Inr h)"
  by (simp add: bulk_header_decode_def bulk_header_encode_def BULK_HEADER_LEN_def slice_def Let_def)

text \<open>What the streams carry, and the state of a network that delivers their bytes: how many of each
  stream's bytes have arrived, the streams that ended, those of them that were reset, and the objects
  and errors the receiver returned, in order.\<close>

type_synonym bulk_objects = "u64 \<Rightarrow> BulkHeader \<times> bytes"

definition wire :: "bulk_objects \<Rightarrow> u64 \<Rightarrow> bytes" where
  "wire objs sid = bulk_header_encode (fst (objs sid)) @ snd (objs sid)"

definition whole_objects :: "bulk_objects \<Rightarrow> bool" where
  "whole_objects objs \<longleftrightarrow> (\<forall>sid. unat (bh_length (fst (objs sid))) = length (snd (objs sid)))"

record bulk_net =
  bn_rx :: BulkReceiver
  bn_got :: "u64 \<Rightarrow> nat"
  bn_ended :: "u64 set"
  bn_reset :: "u64 set"
  bn_out :: "(u64 \<times> BulkObject) list"
  bn_errors :: "BulkError list"

definition net_new :: bulk_net where
  "net_new = \<lparr>bn_rx = bulk_receiver_new, bn_got = (\<lambda>_. 0), bn_ended = {}, bn_reset = {}, bn_out = [], bn_errors = []\<rparr>"

inductive bulk_step :: "bulk_objects \<Rightarrow> bulk_net \<Rightarrow> bulk_net \<Rightarrow> bool" for objs where
  data: "sid \<notin> bn_ended s \<Longrightarrow> bn_got s sid + n \<le> length (wire objs sid)
    \<Longrightarrow> fin \<longrightarrow> bn_got s sid + n = length (wire objs sid)
    \<Longrightarrow> bulk_on_data (bn_rx s) sid (slice (bn_got s sid) (bn_got s sid + n) (wire objs sid)) fin = (rx, res)
    \<Longrightarrow> bulk_step objs s (s\<lparr>bn_rx := rx, bn_got := (bn_got s)(sid := bn_got s sid + n),
          bn_ended := (if fin then insert sid (bn_ended s) else bn_ended s),
          bn_out := bn_out s @ (case res of Inr (Some obj) \<Rightarrow> [(sid, obj)] | _ \<Rightarrow> []),
          bn_errors := bn_errors s @ (case res of Inl e \<Rightarrow> [e] | _ \<Rightarrow> [])\<rparr>)"
| reset: "sid \<notin> bn_ended s
    \<Longrightarrow> bulk_step objs s (s\<lparr>bn_rx := bulk_on_reset (bn_rx s) sid, bn_ended := insert sid (bn_ended s),
          bn_reset := insert sid (bn_reset s)\<rparr>)"

inductive_cases bulk_stepE: "bulk_step objs s s'"

text \<open>Maps after the receiver's updates.\<close>

lemmas amap_conv = AList.update_conv' AList.delete_conv'

lemma mem_keys_iff: "k \<in> set (keys m) \<longleftrightarrow> map_of m k \<noteq> None"
  by (simp add: map_of_eq_None_iff)

lemma drop_stream_fields:
  "map_of (br_streams (drop_stream sid r)) = (map_of (br_streams r))(sid := None)"
  "set (br_dropped (drop_stream sid r)) = set (br_dropped r) \<union> (if map_of (br_streams r) sid = None then {} else {sid})"
  "br_latest (drop_stream sid r) = br_latest r" "br_stats (drop_stream sid r) = br_stats r"
  "wf_amap (br_streams r) \<Longrightarrow> wf_amap (br_streams (drop_stream sid r))"
  unfolding drop_stream_def mem_keys_iff by (auto simp: amap_conv fun_eq_iff)

lemma drop_streams_fields:
  "wf_amap (br_streams r) \<Longrightarrow>
    map_of (br_streams (fold drop_stream ss r)) = (\<lambda>i. if i \<in> set ss then None else map_of (br_streams r) i)
    \<and> set (br_dropped (fold drop_stream ss r)) = set (br_dropped r) \<union> {i \<in> set ss. map_of (br_streams r) i \<noteq> None}
    \<and> br_latest (fold drop_stream ss r) = br_latest r \<and> br_stats (fold drop_stream ss r) = br_stats r
    \<and> wf_amap (br_streams (fold drop_stream ss r))"
proof (induction ss arbitrary: r)
  case (Cons s ss)
  have "wf_amap (br_streams (drop_stream s r))" using Cons.prems by (rule drop_stream_fields)
  from Cons.IH [OF this] show ?case by (auto simp: drop_stream_fields fun_eq_iff)
qed simp

text \<open>The streams a header makes stale.\<close>

definition stale_for :: "u64 \<Rightarrow> BulkHeader \<Rightarrow> BulkReceiver \<Rightarrow> u64 \<Rightarrow> bool" where
  "stale_for sid h r i \<longleftrightarrow> i \<noteq> sid \<and> (\<exists>p ho. map_of (br_streams r) i = Some p \<and> pa_header p = Some ho
     \<and> bulk_header_key ho = bulk_header_key h \<and> bh_version ho < bh_version h)"

definition newest :: "BulkHeader \<Rightarrow> BulkReceiver \<Rightarrow> u32" where
  "newest h r = (case map_of (br_latest r) (bulk_header_key h) of None \<Rightarrow> bh_version h | Some v \<Rightarrow> max v (bh_version h))"

lemma on_header_fields:
  assumes wf: "wf_amap (br_streams r)" and live: "map_of (br_streams r) sid \<noteq> None"
  shows "map_of (br_streams (on_header sid h r)) = (\<lambda>i. if stale_for sid h r i \<or> i = sid \<and> bh_version h < newest h r
      then None else map_of (br_streams r) i)"
    and "set (br_dropped (on_header sid h r)) = set (br_dropped r) \<union> {i. stale_for sid h r i}
      \<union> (if bh_version h < newest h r then {sid} else {})"
    and "map_of (br_latest (on_header sid h r)) = (map_of (br_latest r))(bulk_header_key h \<mapsto> newest h r)"
    and "wf_amap (br_streams (on_header sid h r))"
    and "bs_completed (br_stats (on_header sid h r)) = bs_completed (br_stats r)"
    and "bs_rejected (br_stats (on_header sid h r)) = bs_rejected (br_stats r)"
proof -
  let ?r = "r\<lparr>br_latest := AList.update (bulk_header_key h) (newest h r) (br_latest r)\<rparr>"
  let ?stale = "keys (filter (\<lambda>(i, p). i \<noteq> sid \<and> (case pa_header p of None \<Rightarrow> False
              | Some ho \<Rightarrow> bulk_header_key ho = bulk_header_key h \<and> bh_version ho < bh_version h)) (br_streams r))"
  have stale: "set ?stale = {i. stale_for sid h r i}"
    using wf by (force simp: stale_for_def split: option.splits)
  have eq: "on_header sid h r = (let r' = count_superseded (length ?stale) (fold drop_stream ?stale ?r)
      in if bh_version h < newest h r then count_superseded 1 (drop_stream sid r') else r')"
    by (simp add: on_header_def newest_def Let_def)
  have wf': "wf_amap (br_streams ?r)" using wf by simp
  note d = drop_streams_fields [OF wf', of ?stale]
  have sub: "map_of (br_streams r) i \<noteq> None" if "stale_for sid h r i" for i using that by (auto simp: stale_for_def)
  have nsid: "\<not> stale_for sid h r sid" by (simp add: stale_for_def)
  show "map_of (br_streams (on_header sid h r)) = (\<lambda>i. if stale_for sid h r i \<or> i = sid \<and> bh_version h < newest h r
      then None else map_of (br_streams r) i)"
    unfolding eq Let_def using d stale by (auto simp: drop_stream_fields fun_eq_iff)
  show "set (br_dropped (on_header sid h r)) = set (br_dropped r) \<union> {i. stale_for sid h r i}
      \<union> (if bh_version h < newest h r then {sid} else {})"
    unfolding eq Let_def using d stale sub nsid live by (auto simp: drop_stream_fields)
  show "map_of (br_latest (on_header sid h r)) = (map_of (br_latest r))(bulk_header_key h \<mapsto> newest h r)"
    unfolding eq Let_def using d by (simp add: drop_stream_fields amap_conv)
  show "wf_amap (br_streams (on_header sid h r))"
    unfolding eq Let_def using d by (simp add: drop_stream_fields)
  show "bs_completed (br_stats (on_header sid h r)) = bs_completed (br_stats r)"
    "bs_rejected (br_stats (on_header sid h r)) = bs_rejected (br_stats r)"
    unfolding eq Let_def using d by (simp_all add: drop_stream_fields)
qed

text \<open>What holds of a network that delivers whole objects.\<close>

type_synonym versions = "bulk_key \<Rightarrow> u32 option"

definition live_stream :: "bulk_objects \<Rightarrow> (u64 \<Rightarrow> nat) \<Rightarrow> versions \<Rightarrow> u64 \<Rightarrow> Partial \<Rightarrow> bool" where
  "live_stream objs got latest sid p \<longleftrightarrow>
     (case pa_header p of
        None \<Rightarrow> got sid < BULK_HEADER_LEN \<and> pa_bytes p = take (got sid) (wire objs sid)
      | Some h \<Rightarrow> h = fst (objs sid) \<and> BULK_HEADER_LEN \<le> got sid
          \<and> pa_bytes p = take (got sid - BULK_HEADER_LEN) (snd (objs sid)) \<and> bh_length h \<le> MAX_BULK_OBJECT
          \<and> latest (bulk_header_key h) = Some (bh_version h))"

definition outdated :: "bulk_objects \<Rightarrow> versions \<Rightarrow> u64 \<Rightarrow> bool" where
  "outdated objs latest sid \<longleftrightarrow> MAX_BULK_OBJECT < bh_length (fst (objs sid))
     \<or> (\<exists>v. latest (bulk_header_key (fst (objs sid))) = Some v \<and> bh_version (fst (objs sid)) < v)"

definition versions_of :: "BulkReceiver \<Rightarrow> versions" where "versions_of r = map_of (br_latest r)"

lemma versions_of_update [simp]:
  "versions_of (r\<lparr>br_streams := m\<rparr>) = versions_of r" "versions_of (r\<lparr>br_dropped := d\<rparr>) = versions_of r"
  "versions_of (r\<lparr>br_stats := st\<rparr>) = versions_of r"
  by (simp_all add: versions_of_def)

definition in_order :: "(u64 \<times> BulkObject) list \<Rightarrow> bool" where
  "in_order out \<longleftrightarrow> sorted_wrt (\<lambda>(_, a) (_, b). bulk_header_key (bo_header a) = bulk_header_key (bo_header b)
     \<longrightarrow> bh_version (bo_header a) \<le> bh_version (bo_header b)) out"

definition delivered_ok :: "bulk_objects \<Rightarrow> versions \<Rightarrow> u64 set \<Rightarrow> u64 \<times> BulkObject \<Rightarrow> bool" where
  "delivered_ok objs latest ended e \<longleftrightarrow> fst e \<in> ended
     \<and> snd e = \<lparr>bo_header = fst (objs (fst e)), bo_bytes = snd (objs (fst e))\<rparr>
     \<and> (\<exists>v. latest (bulk_header_key (fst (objs (fst e)))) = Some v \<and> bh_version (fst (objs (fst e))) \<le> v)"

definition streams_ok :: "bulk_objects \<Rightarrow> bulk_net \<Rightarrow> bool" where
  "streams_ok objs s \<longleftrightarrow> wf_amap (br_streams (bn_rx s))
     \<and> (\<forall>sid p. map_of (br_streams (bn_rx s)) sid = Some p \<longrightarrow> sid \<notin> bn_ended s \<and> sid \<notin> set (br_dropped (bn_rx s))
          \<and> live_stream objs (bn_got s) (versions_of (bn_rx s)) sid p)
     \<and> (\<forall>sid. sid \<notin> bn_ended s \<and> 0 < bn_got s sid \<and> map_of (br_streams (bn_rx s)) sid = None
          \<longrightarrow> sid \<in> set (br_dropped (bn_rx s)))
     \<and> (\<forall>sid \<in> set (br_dropped (bn_rx s)). outdated objs (versions_of (bn_rx s)) sid)
     \<and> (\<forall>k v. versions_of (bn_rx s) k = Some v \<longrightarrow> (\<exists>sid. bulk_header_key (fst (objs sid)) = k
          \<and> bh_version (fst (objs sid)) = v \<and> BULK_HEADER_LEN \<le> bn_got s sid))"

definition output_ok :: "bulk_objects \<Rightarrow> bulk_net \<Rightarrow> bool" where
  "output_ok objs s \<longleftrightarrow> (\<forall>e \<in> set (bn_out s). delivered_ok objs (versions_of (bn_rx s)) (bn_ended s) e)
     \<and> in_order (bn_out s) \<and> distinct (List.map fst (bn_out s))
     \<and> (\<forall>sid \<in> bn_ended s. sid \<in> fst ` set (bn_out s) \<or> sid \<in> bn_reset s \<or> outdated objs (versions_of (bn_rx s)) sid)
     \<and> bn_reset s \<subseteq> bn_ended s
     \<and> (\<forall>e \<in> set (bn_errors s). \<exists>l. e = BulkTooLarge l \<and> MAX_BULK_OBJECT < l)
     \<and> bs_completed (br_stats (bn_rx s)) = length (bn_out s)
     \<and> bs_rejected (br_stats (bn_rx s)) = length (bn_errors s)"

definition net_inv :: "bulk_objects \<Rightarrow> bulk_net \<Rightarrow> bool" where
  "net_inv objs s \<longleftrightarrow> streams_ok objs s \<and> output_ok objs s"

definition grows :: "versions \<Rightarrow> versions \<Rightarrow> bool" where
  "grows l l' \<longleftrightarrow> (\<forall>k v. l k = Some v \<longrightarrow> (\<exists>v'. l' k = Some v' \<and> v \<le> v'))"

lemma grows_refl [simp]: "grows l l"
  by (auto simp: grows_def)

lemma outdated_grows: "outdated objs l sid \<Longrightarrow> grows l l' \<Longrightarrow> outdated objs l' sid"
  unfolding outdated_def grows_def by (meson less_le_trans)

lemma delivered_grows: "delivered_ok objs l E e \<Longrightarrow> grows l l' \<Longrightarrow> E \<subseteq> E' \<Longrightarrow> delivered_ok objs l' E' e"
  unfolding delivered_ok_def grows_def by (meson order_trans subsetD)

lemma streams_okI:
  assumes "wf_amap (br_streams (bn_rx s))"
    and "\<And>sid p. map_of (br_streams (bn_rx s)) sid = Some p \<Longrightarrow> sid \<notin> bn_ended s \<and> sid \<notin> set (br_dropped (bn_rx s))
          \<and> live_stream objs (bn_got s) (versions_of (bn_rx s)) sid p"
    and "\<And>sid. sid \<notin> bn_ended s \<Longrightarrow> 0 < bn_got s sid \<Longrightarrow> map_of (br_streams (bn_rx s)) sid = None
          \<Longrightarrow> sid \<in> set (br_dropped (bn_rx s))"
    and "\<And>sid. sid \<in> set (br_dropped (bn_rx s)) \<Longrightarrow> outdated objs (versions_of (bn_rx s)) sid"
    and "\<And>k v. versions_of (bn_rx s) k = Some v \<Longrightarrow> \<exists>sid. bulk_header_key (fst (objs sid)) = k
          \<and> bh_version (fst (objs sid)) = v \<and> BULK_HEADER_LEN \<le> bn_got s sid"
  shows "streams_ok objs s"
  unfolding streams_ok_def using assms by simp

lemma streams_okD:
  assumes "streams_ok objs s"
  shows "wf_amap (br_streams (bn_rx s))"
    and "map_of (br_streams (bn_rx s)) sid = Some p \<Longrightarrow> sid \<notin> bn_ended s \<and> sid \<notin> set (br_dropped (bn_rx s))
          \<and> live_stream objs (bn_got s) (versions_of (bn_rx s)) sid p"
    and "sid \<notin> bn_ended s \<Longrightarrow> 0 < bn_got s sid \<Longrightarrow> map_of (br_streams (bn_rx s)) sid = None
          \<Longrightarrow> sid \<in> set (br_dropped (bn_rx s))"
    and "sid \<in> set (br_dropped (bn_rx s)) \<Longrightarrow> outdated objs (versions_of (bn_rx s)) sid"
    and "versions_of (bn_rx s) k = Some v \<Longrightarrow> \<exists>sid. bulk_header_key (fst (objs sid)) = k
          \<and> bh_version (fst (objs sid)) = v \<and> BULK_HEADER_LEN \<le> bn_got s sid"
  using assms unfolding streams_ok_def by blast+

text \<open>A change of the receiver that leaves the output alone.\<close>

lemma output_ok_grows:
  assumes "output_ok objs s" and "grows (versions_of (bn_rx s)) (versions_of rx)"
    and "bs_completed (br_stats rx) = bs_completed (br_stats (bn_rx s))"
    and "bs_rejected (br_stats rx) = bs_rejected (br_stats (bn_rx s)) + length errs"
    and "\<forall>e \<in> set errs. \<exists>l. e = BulkTooLarge l \<and> MAX_BULK_OBJECT < l"
  shows "output_ok objs (s\<lparr>bn_rx := rx, bn_got := got, bn_errors := bn_errors s @ errs\<rparr>)"
  using assms unfolding output_ok_def
  by (auto intro: outdated_grows delivered_grows [OF _ _ subset_refl])

lemma net_inv_new: "net_inv objs net_new"
  by (simp add: net_inv_def streams_ok_def output_ok_def net_new_def bulk_receiver_new_def in_order_def versions_of_def)

text \<open>Ending a stream the receiver no longer follows.\<close>

lemma output_ok_end:
  assumes "output_ok objs s" and "outdated objs (versions_of (bn_rx s)) sid \<or> sid \<in> R"
    and "versions_of rx = versions_of (bn_rx s)" "bs_completed (br_stats rx) = bs_completed (br_stats (bn_rx s))"
    "bs_rejected (br_stats rx) = bs_rejected (br_stats (bn_rx s))" and "bn_reset s \<subseteq> R" "R \<subseteq> insert sid (bn_reset s)"
  shows "output_ok objs (s\<lparr>bn_rx := rx, bn_ended := insert sid (bn_ended s), bn_reset := R\<rparr>)"
proof -
  have "delivered_ok objs l (insert sid (bn_ended s)) e" if "delivered_ok objs l (bn_ended s) e" for l e
    using delivered_grows [OF that grows_refl] by blast
  then show ?thesis using assms unfolding output_ok_def by auto
qed

lemma streams_ok_end:
  assumes ok: "streams_ok objs s" and none: "map_of m sid = None"
    and m: "\<And>i. i \<noteq> sid \<Longrightarrow> map_of m i = map_of (br_streams (bn_rx s)) i" "wf_amap m"
    and d: "\<And>i. i \<noteq> sid \<Longrightarrow> i \<in> set d \<longleftrightarrow> i \<in> set (br_dropped (bn_rx s))" "sid \<in> set d \<Longrightarrow> outdated objs (versions_of (bn_rx s)) sid"
  shows "streams_ok objs (s\<lparr>bn_rx := (bn_rx s)\<lparr>br_streams := m, br_dropped := d, br_stats := st\<rparr>, bn_ended := insert sid (bn_ended s), bn_reset := R\<rparr>)"
proof -
  have v: "versions_of ((bn_rx s)\<lparr>br_streams := m, br_dropped := d, br_stats := st\<rparr>) = versions_of (bn_rx s)" by (simp add: versions_of_def)
  show ?thesis
  proof (rule streams_okI, goal_cases)
    case 1 then show ?case using m by simp
  next
    case (2 i p)
    then have "i \<noteq> sid" using none by auto
    with 2 m(1) [of i] d(1) [of i] streams_okD(2) [OF ok, of i p] show ?case by (simp add: v)
  next
    case (3 i)
    then show ?case using m(1) [of i] d(1) [of i] streams_okD(3) [OF ok, of i] by simp
  next
    case (4 i)
    then show ?case using d streams_okD(4) [OF ok, of i] by (cases "i = sid") (simp_all add: v)
  next
    case (5 k w)
    then show ?case using streams_okD(5) [OF ok, of k w] by (simp add: v)
  qed
qed

lemma wire_header: "BULK_HEADER_LEN \<le> g \<Longrightarrow>
  take g (wire objs sid) = bulk_header_encode (fst (objs sid)) @ take (g - BULK_HEADER_LEN) (snd (objs sid))"
  by (simp add: wire_def)

lemma slice_wire: "take g (wire objs sid) @ slice g (g + n) (wire objs sid) = take (g + n) (wire objs sid)"
  by (simp add: slice_def take_add)

text \<open>A stream the receiver follows, or has not heard of yet.\<close>

lemma followed:
  assumes "streams_ok objs s" and "sid \<notin> bn_ended s" and "sid \<notin> set (br_dropped (bn_rx s))"
  defines "p \<equiv> (case map_of (br_streams (bn_rx s)) sid of Some p \<Rightarrow> p | None \<Rightarrow> \<lparr>pa_header = None, pa_bytes = []\<rparr>)"
  shows "live_stream objs (bn_got s) (versions_of (bn_rx s)) sid p"
proof (cases "map_of (br_streams (bn_rx s)) sid")
  case None
  then have "bn_got s sid = 0" using assms(1-3) by (auto simp: streams_ok_def)
  then show ?thesis by (simp add: p_def None live_stream_def BULK_HEADER_LEN_def)
next
  case (Some q)
  then show ?thesis using assms(1) by (simp add: p_def streams_ok_def)
qed

text \<open>More bytes of a stream the receiver follows, up to its header.\<close>

lemma streams_ok_more:
  assumes ok: "streams_ok objs s" and sid: "sid \<notin> bn_ended s" "sid \<notin> set (br_dropped (bn_rx s))"
    and p: "live_stream objs ((bn_got s)(sid := g)) (versions_of (bn_rx s)) sid p" and g: "bn_got s sid \<le> g"
  shows "streams_ok objs (s\<lparr>bn_rx := (bn_rx s)\<lparr>br_streams := AList.update sid p (br_streams (bn_rx s))\<rparr>, bn_got := (bn_got s)(sid := g)\<rparr>)"
proof -
  have v: "versions_of ((bn_rx s)\<lparr>br_streams := m\<rparr>) = versions_of (bn_rx s)" for m by (simp add: versions_of_def)
  have l: "live_stream objs ((bn_got s)(sid := g)) l i q \<longleftrightarrow> live_stream objs (bn_got s) l i q" if "i \<noteq> sid" for i q l
    using that by (simp add: live_stream_def split: option.split)
  show ?thesis
  proof (rule streams_okI, goal_cases)
    case 1 then show ?case using streams_okD(1) [OF ok] by simp
  next
    case (2 i q)
    then show ?case using streams_okD(2) [OF ok, of i q] sid p l by (auto simp: v amap_conv split: if_splits)
  next
    case (3 i)
    then show ?case using streams_okD(3) [OF ok, of i] by (auto simp: amap_conv split: if_splits)
  next
    case (4 i)
    then show ?case using streams_okD(4) [OF ok, of i] by (simp add: v)
  next
    case (5 k w)
    then obtain i where i: "bulk_header_key (fst (objs i)) = k" "bh_version (fst (objs i)) = w" "BULK_HEADER_LEN \<le> bn_got s i"
      using streams_okD(5) [OF ok, of k w] by (auto simp: v)
    then show ?case using g by (intro exI [of _ i]) auto
  qed
qed

lemma output_ok_more:
  assumes "output_ok objs s"
  shows "output_ok objs (s\<lparr>bn_rx := (bn_rx s)\<lparr>br_streams := m\<rparr>, bn_got := g\<rparr>)"
proof -
  have "versions_of ((bn_rx s)\<lparr>br_streams := m\<rparr>) = versions_of (bn_rx s)" by (simp add: versions_of_def)
  with assms show ?thesis by (simp add: output_ok_def)
qed

text \<open>The bytes that complete a stream's header.\<close>

lemma newest_facts:
  "versions_of r (bulk_header_key h) = Some v \<Longrightarrow> newest h r = max v (bh_version h)"
  "bh_version h \<le> newest h r"
  "newest h r = bh_version h \<or> versions_of r (bulk_header_key h) = Some (newest h r)"
  "newest h (r\<lparr>br_streams := m\<rparr>) = newest h r"
  by (auto simp: newest_def versions_of_def max_def split: option.splits)

lemma streams_ok_header:
  assumes ok: "streams_ok objs s" and sid: "sid \<notin> bn_ended s" "sid \<notin> set (br_dropped (bn_rx s))"
    and h: "h = fst (objs sid)" "bh_length h \<le> MAX_BULK_OBJECT" and g: "bn_got s sid \<le> g" "BULK_HEADER_LEN \<le> g"
  defines "r1 \<equiv> (bn_rx s)\<lparr>br_streams := AList.update sid \<lparr>pa_header = Some h,
      pa_bytes = take (g - BULK_HEADER_LEN) (snd (objs sid))\<rparr> (br_streams (bn_rx s))\<rparr>"
  shows "streams_ok objs (s\<lparr>bn_rx := on_header sid h r1, bn_got := (bn_got s)(sid := g)\<rparr>)"
    and "grows (versions_of (bn_rx s)) (versions_of (on_header sid h r1))"
proof -
  let ?v = "versions_of (bn_rx s)" and ?nv = "newest h (bn_rx s)"
  have wf: "wf_amap (br_streams r1)" and m1: "map_of (br_streams r1) = (map_of (br_streams (bn_rx s)))(sid \<mapsto>
      \<lparr>pa_header = Some h, pa_bytes = take (g - BULK_HEADER_LEN) (snd (objs sid))\<rparr>)"
    using streams_okD(1) [OF ok] by (simp_all add: r1_def amap_conv)
  have nv: "newest h r1 = ?nv" by (simp add: r1_def newest_facts)
  have live1: "map_of (br_streams r1) sid \<noteq> None" by (simp add: m1)
  note f = on_header_fields [OF wf live1, of h, unfolded nv]
  have v': "versions_of (on_header sid h r1) = ?v(bulk_header_key h \<mapsto> ?nv)"
    unfolding versions_of_def f(3) by (simp add: r1_def)
  show gr: "grows ?v (versions_of (on_header sid h r1))"
    unfolding v' grows_def using newest_facts(1) [of "bn_rx s" h] by auto
  have stale: "\<exists>p. map_of (br_streams (bn_rx s)) i = Some p \<and> pa_header p = Some (fst (objs i)) \<and> i \<noteq> sid
      \<and> bulk_header_key (fst (objs i)) = bulk_header_key h \<and> bh_version (fst (objs i)) < bh_version h"
    if "stale_for sid h r1 i" for i
    using that streams_okD(2) [OF ok, of i] by (auto simp: stale_for_def m1 live_stream_def split: if_splits)
  have dr: "br_dropped r1 = br_dropped (bn_rx s)" by (simp add: r1_def)
  show "streams_ok objs (s\<lparr>bn_rx := on_header sid h r1, bn_got := (bn_got s)(sid := g)\<rparr>)"
  proof (rule streams_okI, goal_cases)
    case 1 then show ?case using f(4) by simp
  next
    case (2 i q)
    then have q: "map_of (br_streams r1) i = Some q" "\<not> stale_for sid h r1 i" "\<not> (i = sid \<and> bh_version h < ?nv)"
      by (auto simp: f(1) split: if_splits)
    have drop: "i \<notin> set (br_dropped (on_header sid h r1))" if "i \<notin> set (br_dropped (bn_rx s))"
      unfolding f(2) dr using q(2,3) that by auto
    show ?case
    proof (cases "i = sid")
      case True
      then have "bh_version h = ?nv" using q(3) newest_facts(2) [of h "bn_rx s"] by simp
      then show ?thesis using q(1) sid h(2) g drop True by (auto simp: m1 live_stream_def v' simp flip: h(1))
    next
      case False
      then have old: "map_of (br_streams (bn_rx s)) i = Some q" using q(1) by (simp add: m1)
      note o = streams_okD(2) [OF ok old]
      have "live_stream objs ((bn_got s)(sid := g)) (?v(bulk_header_key h \<mapsto> ?nv)) i q"
      proof (cases "pa_header q")
        case None
        then show ?thesis using o False by (simp add: live_stream_def)
      next
        case (Some ho)
        then have ho: "ho = fst (objs i)" "?v (bulk_header_key ho) = Some (bh_version ho)" using o by (auto simp: live_stream_def)
        have "?nv = bh_version ho" if k: "bulk_header_key ho = bulk_header_key h"
        proof -
          have "\<not> bh_version ho < bh_version h" using q(2) old Some k False by (simp add: stale_for_def m1)
          then show ?thesis using newest_facts(1) [of "bn_rx s" h "bh_version ho"] ho(2) k by (simp add: max_def not_less)
        qed
        then show ?thesis using o Some False by (auto simp: live_stream_def)
      qed
      then show ?thesis using o drop by (simp add: v')
    qed
  next
    case (3 i)
    then show ?case using streams_okD(3) [OF ok, of i] by (cases "i = sid") (auto simp: f(1,2) m1 dr split: if_splits)
  next
    case (4 i)
    then consider "i \<in> set (br_dropped (bn_rx s))" | "stale_for sid h r1 i" | "i = sid" "bh_version h < ?nv"
      by (auto simp: f(2) dr split: if_splits)
    then have "outdated objs (versions_of (on_header sid h r1)) i"
    proof cases
      case 1
      then show ?thesis using streams_okD(4) [OF ok] outdated_grows gr by blast
    next
      case 2
      then show ?thesis using stale newest_facts(2) [of h "bn_rx s"] by (fastforce simp: outdated_def v' intro: less_le_trans)
    next
      case 3
      then show ?thesis by (simp add: outdated_def v' flip: h(1))
    qed
    then show ?case by simp
  next
    case (5 k w)
    then consider "k = bulk_header_key h" "w = bh_version h" | "?v k = Some w"
      using newest_facts(3) [of h "bn_rx s"] by (auto simp: v' split: if_splits)
    then show ?case
    proof cases
      case 1
      then show ?thesis using h g by (intro exI [of _ sid]) simp
    next
      case 2
      then obtain i where i: "bulk_header_key (fst (objs i)) = k" "bh_version (fst (objs i)) = w" "BULK_HEADER_LEN \<le> bn_got s i"
        using streams_okD(5) [OF ok, of k w] by auto
      then show ?thesis using g by (intro exI [of _ i]) auto
    qed
  qed
qed

text \<open>What \<open>finish_data\<close> does with the stream of a state that keeps the invariant.\<close>

lemma finish_data_more:
  assumes "streams_ok objs s" and "whole_objects objs"
  shows "finish_data (bn_rx s) sid False = (bn_rx s, Inr None)"
proof (cases "map_of (br_streams (bn_rx s)) sid")
  case (Some p)
  have "length (pa_bytes p) \<le> unat (bh_length h)" if "pa_header p = Some h" for h
    using streams_okD(2) [OF assms(1) Some] assms(2) that by (auto simp: live_stream_def whole_objects_def)
  then show ?thesis by (auto simp: finish_data_def Some Let_def not_less split: option.splits)
qed (simp add: finish_data_def)

lemma finish_data_end:
  assumes inv: "net_inv objs s" and whole: "whole_objects objs" and g: "bn_got s sid = length (wire objs sid)"
    and sid: "sid \<notin> bn_ended s"
    and fd: "finish_data (bn_rx s) sid True = (rx, res)"
  shows "net_inv objs (s\<lparr>bn_rx := rx, bn_ended := insert sid (bn_ended s),
      bn_out := bn_out s @ (case res of Inr (Some obj) \<Rightarrow> [(sid, obj)] | _ \<Rightarrow> []),
      bn_errors := bn_errors s @ (case res of Inl e \<Rightarrow> [e] | _ \<Rightarrow> [])\<rparr>)"
proof -
  have ok: "streams_ok objs s" and out: "output_ok objs s" using inv by (simp_all add: net_inv_def)
  let ?h = "fst (objs sid)"
  have got: "0 < bn_got s sid" "BULK_HEADER_LEN \<le> bn_got s sid" unfolding g wire_def by (simp_all add: BULK_HEADER_LEN_def)
  show ?thesis
  proof (cases "map_of (br_streams (bn_rx s)) sid")
    case None
    then have "outdated objs (versions_of (bn_rx s)) sid"
      using streams_okD(3) [OF ok sid got(1)] streams_okD(4) [OF ok] by blast
    moreover have "rx = bn_rx s" "res = Inr None" using fd None by (auto simp: finish_data_def)
    ultimately show ?thesis
      using streams_ok_end [OF ok None refl streams_okD(1) [OF ok] refl, where st = "br_stats (bn_rx s)" and R = "bn_reset s"]
        output_ok_end [OF out, where sid = sid and R = "bn_reset s" and rx = "bn_rx s"]
      by (simp add: net_inv_def subset_insertI)
  next
    case (Some p)
    have p: "pa_header p = Some ?h" "pa_bytes p = snd (objs sid)" "versions_of (bn_rx s) (bulk_header_key ?h) = Some (bh_version ?h)"
      using streams_okD(2) [OF ok Some] got g by (auto simp: live_stream_def wire_def split: option.splits)
    have len: "length (snd (objs sid)) = unat (bh_length ?h)" using whole by (simp add: whole_objects_def)
    have rx: "rx = count_completed ((bn_rx s)\<lparr>br_streams := AList.delete sid (br_streams (bn_rx s))\<rparr>)"
      "res = Inr (Some \<lparr>bo_header = ?h, bo_bytes = snd (objs sid)\<rparr>)"
      using fd p len by (auto simp: finish_data_def Some Let_def versions_of_def)
    have st: "streams_ok objs (s\<lparr>bn_rx := rx, bn_ended := insert sid (bn_ended s)\<rparr>)"
      using streams_ok_end [OF ok, where m = "AList.delete sid (br_streams (bn_rx s))" and sid = sid
          and d = "br_dropped (bn_rx s)" and R = "bn_reset s"]
        streams_okD(1,2,4) [OF ok] Some by (simp add: amap_conv rx(1))
    have v: "versions_of rx = versions_of (bn_rx s)" by (simp add: versions_of_def rx(1))
    have old: "\<forall>e \<in> set (bn_out s). delivered_ok objs (versions_of (bn_rx s)) (bn_ended s) e"
      and ord: "in_order (bn_out s)" and dis: "distinct (List.map fst (bn_out s))" using out by (simp_all add: output_ok_def)
    have new: "sid \<notin> fst ` set (bn_out s)" using old sid by (auto simp: delivered_ok_def)
    have "in_order (bn_out s @ [(sid, \<lparr>bo_header = ?h, bo_bytes = snd (objs sid)\<rparr>)])"
      using ord old p(3) by (fastforce simp: in_order_def sorted_wrt_append delivered_ok_def)
    moreover have "delivered_ok objs (versions_of (bn_rx s)) (insert sid (bn_ended s)) e"
      if "e \<in> set (bn_out s @ [(sid, \<lparr>bo_header = ?h, bo_bytes = snd (objs sid)\<rparr>)])" for e
      using that old p(3) delivered_grows [OF _ grows_refl subset_insertI] by (auto simp: delivered_ok_def)
    ultimately have "output_ok objs (s\<lparr>bn_rx := rx, bn_ended := insert sid (bn_ended s),
        bn_out := bn_out s @ [(sid, \<lparr>bo_header = ?h, bo_bytes = snd (objs sid)\<rparr>)]\<rparr>)"
      using out new dis unfolding output_ok_def by (auto simp: v rx(1))
    then show ?thesis using st unfolding net_inv_def by (simp add: rx(2) streams_ok_def)
  qed
qed

lemma net_inv_reset:
  assumes inv: "net_inv objs s" and sid: "sid \<notin> bn_ended s"
  shows "net_inv objs (s\<lparr>bn_rx := bulk_on_reset (bn_rx s) sid, bn_ended := insert sid (bn_ended s),
      bn_reset := insert sid (bn_reset s)\<rparr>)"
proof -
  have ok: "streams_ok objs s" and out: "output_ok objs s" using inv by (simp_all add: net_inv_def)
  obtain m st where rx: "bulk_on_reset (bn_rx s) sid = (bn_rx s)\<lparr>br_streams := m,
      br_dropped := List.remove1 sid (br_dropped (bn_rx s)), br_stats := st\<rparr>"
    and m: "map_of m = (map_of (br_streams (bn_rx s)))(sid := None)" "wf_amap m"
    and st: "bs_completed st = bs_completed (br_stats (bn_rx s))" "bs_rejected st = bs_rejected (br_stats (bn_rx s))"
  proof (cases "map_of (br_streams (bn_rx s)) sid")
    case None
    then have "bulk_on_reset (bn_rx s) sid = (bn_rx s)\<lparr>br_streams := br_streams (bn_rx s),
        br_dropped := List.remove1 sid (br_dropped (bn_rx s)), br_stats := br_stats (bn_rx s)\<rparr>"
      unfolding bulk_on_reset_def Let_def mem_keys_iff by simp
    then show thesis by (rule that) (use None streams_okD(1) [OF ok] in \<open>auto simp: fun_eq_iff\<close>)
  next
    case (Some p)
    then have "bulk_on_reset (bn_rx s) sid = (bn_rx s)\<lparr>br_streams := AList.delete sid (br_streams (bn_rx s)),
        br_dropped := List.remove1 sid (br_dropped (bn_rx s)),
        br_stats := (br_stats (bn_rx s))\<lparr>bs_superseded := bs_superseded (br_stats (bn_rx s)) + 1\<rparr>\<rparr>"
      unfolding bulk_on_reset_def Let_def mem_keys_iff by simp
    then show thesis by (rule that) (use streams_okD(1) [OF ok] in \<open>simp_all add: amap_conv\<close>)
  qed
  have d: "sid \<in> set (List.remove1 sid (br_dropped (bn_rx s))) \<Longrightarrow> outdated objs (versions_of (bn_rx s)) sid"
    using streams_okD(4) [OF ok, of sid] notin_set_remove1 by metis
  have s1: "streams_ok objs (s\<lparr>bn_rx := bulk_on_reset (bn_rx s) sid, bn_ended := insert sid (bn_ended s),
      bn_reset := insert sid (bn_reset s)\<rparr>)"
    unfolding rx using m d by (intro streams_ok_end [OF ok]) simp_all
  have "versions_of (bulk_on_reset (bn_rx s) sid) = versions_of (bn_rx s)" by (simp add: rx versions_of_def)
  then have "output_ok objs (s\<lparr>bn_rx := bulk_on_reset (bn_rx s) sid, bn_ended := insert sid (bn_ended s),
      bn_reset := insert sid (bn_reset s)\<rparr>)"
    by (intro output_ok_end [OF out]) (simp_all add: rx st subset_insertI)
  with s1 show ?thesis by (simp add: net_inv_def)
qed

text \<open>The bytes of a stream the receiver dropped.\<close>

lemma net_inv_skip:
  assumes inv: "net_inv objs s" and sid: "sid \<in> set (br_dropped (bn_rx s))" and g: "bn_got s sid \<le> g"
  shows "net_inv objs (s\<lparr>bn_got := (bn_got s)(sid := g)\<rparr>)"
proof -
  have ok: "streams_ok objs s" and out: "output_ok objs s" using inv by (simp_all add: net_inv_def)
  have "streams_ok objs (s\<lparr>bn_got := (bn_got s)(sid := g)\<rparr>)"
  proof (rule streams_okI, goal_cases)
    case 1 then show ?case using streams_okD(1) [OF ok] by simp
  next
    case (2 i p)
    then have "i \<noteq> sid" using streams_okD(2) [OF ok, of i p] sid by auto
    then show ?case using 2 streams_okD(2) [OF ok, of i p] by (simp add: live_stream_def split: option.splits)
  next
    case (3 i)
    then show ?case using streams_okD(3) [OF ok, of i] sid by (simp split: if_splits)
  next
    case (4 i)
    then show ?case using streams_okD(4) [OF ok, of i] by simp
  next
    case (5 k w)
    then obtain i where i: "bulk_header_key (fst (objs i)) = k" "bh_version (fst (objs i)) = w" "BULK_HEADER_LEN \<le> bn_got s i"
      using streams_okD(5) [OF ok, of k w] by auto
    then show ?case using g by (intro exI [of _ i]) auto
  qed
  with out show ?thesis by (simp add: net_inv_def output_ok_def)
qed

lemma net_inv_reject:
  assumes inv: "net_inv objs s" and sid: "sid \<notin> bn_ended s" and large: "MAX_BULK_OBJECT < bh_length (fst (objs sid))"
  shows "net_inv objs (s\<lparr>bn_rx := reject sid ((bn_rx s)\<lparr>br_streams := AList.update sid p (br_streams (bn_rx s))\<rparr>),
      bn_errors := bn_errors s @ [BulkTooLarge (bh_length (fst (objs sid)))]\<rparr>)"
proof -
  have ok: "streams_ok objs s" and out: "output_ok objs s" using inv by (simp_all add: net_inv_def)
  let ?r = "reject sid ((bn_rx s)\<lparr>br_streams := AList.update sid p (br_streams (bn_rx s))\<rparr>)"
  have v: "versions_of ?r = versions_of (bn_rx s)" by (simp add: versions_of_def reject_def drop_stream_fields)
  have m: "map_of (br_streams ?r) = (map_of (br_streams (bn_rx s)))(sid := None)"
    "set (br_dropped ?r) = insert sid (set (br_dropped (bn_rx s)))" "wf_amap (br_streams ?r)"
    using streams_okD(1) [OF ok] by (auto simp: reject_def drop_stream_fields amap_conv)
  have "streams_ok objs (s\<lparr>bn_rx := ?r, bn_errors := bn_errors s @ [BulkTooLarge (bh_length (fst (objs sid)))]\<rparr>)"
  proof (rule streams_okI, goal_cases)
    case 1 then show ?case using m by simp
  next
    case (2 i q)
    then show ?case using streams_okD(2) [OF ok, of i q] by (simp add: m v split: if_splits)
  next
    case (3 i)
    then show ?case using streams_okD(3) [OF ok, of i] by (auto simp: m split: if_splits)
  next
    case (4 i)
    then show ?case using streams_okD(4) [OF ok, of i] large by (auto simp: m v outdated_def)
  next
    case (5 k w)
    then show ?case using streams_okD(5) [OF ok, of k w] by (simp add: v)
  qed
  moreover have "bs_completed (br_stats ?r) = bs_completed (br_stats (bn_rx s))"
    "bs_rejected (br_stats ?r) = bs_rejected (br_stats (bn_rx s)) + 1"
    by (simp_all add: reject_def drop_stream_fields)
  then have "output_ok objs (s\<lparr>bn_rx := ?r, bn_got := bn_got s, bn_errors := bn_errors s @ [BulkTooLarge (bh_length (fst (objs sid)))]\<rparr>)"
    using large by (intro output_ok_grows [OF out]) (simp_all add: v)
  ultimately show ?thesis by (simp add: net_inv_def)
qed

text \<open>A stream that ends when the receiver does not follow it.\<close>

lemma net_inv_end_dropped:
  assumes inv: "net_inv objs s" and sid: "sid \<in> set (br_dropped (bn_rx s))"
    and d: "d = br_dropped (bn_rx s) \<or> d = List.remove1 sid (br_dropped (bn_rx s))"
  shows "net_inv objs (s\<lparr>bn_rx := (bn_rx s)\<lparr>br_dropped := d\<rparr>, bn_ended := insert sid (bn_ended s)\<rparr>)"
proof -
  have ok: "streams_ok objs s" and out: "output_ok objs s" using inv by (simp_all add: net_inv_def)
  have o: "outdated objs (versions_of (bn_rx s)) sid" using streams_okD(4) [OF ok sid] .
  have none: "map_of (br_streams (bn_rx s)) sid = None" using streams_okD(2) [OF ok, of sid] sid by (cases "map_of (br_streams (bn_rx s)) sid") auto
  have "streams_ok objs (s\<lparr>bn_rx := (bn_rx s)\<lparr>br_dropped := d\<rparr>, bn_ended := insert sid (bn_ended s)\<rparr>)"
    using streams_ok_end [OF ok none refl streams_okD(1) [OF ok], where st = "br_stats (bn_rx s)" and R = "bn_reset s" and d = d] d o
    by auto
  moreover have "output_ok objs (s\<lparr>bn_rx := (bn_rx s)\<lparr>br_dropped := d\<rparr>, bn_ended := insert sid (bn_ended s)\<rparr>)"
    using output_ok_end [OF out, where sid = sid and R = "bn_reset s" and rx = "(bn_rx s)\<lparr>br_dropped := d\<rparr>"] o
    by (simp add: subset_insertI)
  ultimately show ?thesis by (simp add: net_inv_def)
qed

lemma followed_bytes:
  assumes "live_stream objs got l sid p" and "got sid + n \<le> length (wire objs sid)"
  defines "bs \<equiv> pa_bytes p @ slice (got sid) (got sid + n) (wire objs sid)"
  shows "pa_header p = None \<Longrightarrow> bs = take (got sid + n) (wire objs sid) \<and> length bs = got sid + n"
    and "pa_header p = Some h \<Longrightarrow> h = fst (objs sid) \<and> BULK_HEADER_LEN \<le> got sid \<and> bh_length h \<le> MAX_BULK_OBJECT
      \<and> l (bulk_header_key h) = Some (bh_version h) \<and> bs = take (got sid + n - BULK_HEADER_LEN) (snd (objs sid))"
proof -
  show "bs = take (got sid + n) (wire objs sid) \<and> length bs = got sid + n" if "pa_header p = None"
  proof -
    have "bs = take (got sid + n) (wire objs sid)"
      using assms(1) that slice_wire by (simp add: live_stream_def bs_def)
    then show ?thesis using assms(2) by simp
  qed
  show "h = fst (objs sid) \<and> BULK_HEADER_LEN \<le> got sid \<and> bh_length h \<le> MAX_BULK_OBJECT
      \<and> l (bulk_header_key h) = Some (bh_version h) \<and> bs = take (got sid + n - BULK_HEADER_LEN) (snd (objs sid))"
    if "pa_header p = Some h"
  proof -
    have lv: "h = fst (objs sid) \<and> BULK_HEADER_LEN \<le> got sid \<and> bh_length h \<le> MAX_BULK_OBJECT
      \<and> l (bulk_header_key h) = Some (bh_version h) \<and> pa_bytes p = take (got sid - BULK_HEADER_LEN) (snd (objs sid))"
      using assms(1) unfolding live_stream_def that by (simp only: option.case) blast
    then have g: "BULK_HEADER_LEN \<le> got sid" by blast
    have "slice (got sid) (got sid + n) (wire objs sid)
        = slice (got sid - BULK_HEADER_LEN) (got sid + n - BULK_HEADER_LEN) (snd (objs sid))"
      unfolding wire_def using g by (subst slice_append2) simp_all
    moreover have eq: "got sid + n - BULK_HEADER_LEN = (got sid - BULK_HEADER_LEN) + n" using g by simp
    moreover have "pa_bytes p = take (got sid - BULK_HEADER_LEN) (snd (objs sid))" using lv by blast
    ultimately have "bs = take (got sid + n - BULK_HEADER_LEN) (snd (objs sid))"
      unfolding bs_def eq take_add by (simp add: slice_def)
    with lv show ?thesis by blast
  qed
qed

lemma bulk_on_data_followed:
  assumes "sid \<notin> set (br_dropped r)" and "p = (case map_of (br_streams r) sid of Some p \<Rightarrow> p | None \<Rightarrow> \<lparr>pa_header = None, pa_bytes = []\<rparr>)"
    and "bs = pa_bytes p @ data"
  shows "bulk_on_data r sid data fin =
    (let put = (\<lambda>p. r\<lparr>br_streams := AList.update sid p (br_streams r)\<rparr>)
     in if pa_header p = None \<and> BULK_HEADER_LEN \<le> length bs
        then (case bulk_header_decode bs of
               Inl e \<Rightarrow> (reject sid (put (p\<lparr>pa_bytes := bs\<rparr>)), Inl e)
             | Inr h \<Rightarrow> finish_data (on_header sid h (put \<lparr>pa_header = Some h, pa_bytes = drop BULK_HEADER_LEN bs\<rparr>)) sid fin)
        else finish_data (put (p\<lparr>pa_bytes := bs\<rparr>)) sid fin)"
  unfolding bulk_on_data_def assms(3) Let_def using assms(1) unfolding assms(2) [symmetric] by (simp split: sum.split)

text \<open>Bytes of a stream, before its end is looked at: the state in which \<open>finish_data\<close> runs.\<close>

lemma net_inv_data:
  assumes inv: "net_inv objs s" and whole: "whole_objects objs" and sid: "sid \<notin> bn_ended s"
    and n: "bn_got s sid + n \<le> length (wire objs sid)" and fin: "fin \<longrightarrow> bn_got s sid + n = length (wire objs sid)"
    and od: "bulk_on_data (bn_rx s) sid (slice (bn_got s sid) (bn_got s sid + n) (wire objs sid)) fin = (rx, res)"
  shows "net_inv objs (s\<lparr>bn_rx := rx, bn_got := (bn_got s)(sid := bn_got s sid + n),
          bn_ended := (if fin then insert sid (bn_ended s) else bn_ended s),
          bn_out := bn_out s @ (case res of Inr (Some obj) \<Rightarrow> [(sid, obj)] | _ \<Rightarrow> []),
          bn_errors := bn_errors s @ (case res of Inl e \<Rightarrow> [e] | _ \<Rightarrow> [])\<rparr>)"
proof -
  let ?g = "bn_got s sid + n" and ?got = "(bn_got s)(sid := bn_got s sid + n)" and ?h = "fst (objs sid)"
  have ok: "streams_ok objs s" and out: "output_ok objs s" using inv by (simp_all add: net_inv_def)
  have finish: ?thesis
    if s2: "net_inv objs (s\<lparr>bn_rx := r2, bn_got := ?got\<rparr>)" and fd: "finish_data r2 sid fin = (rx, res)" for r2
  proof (cases fin)
    case False
    then have "rx = r2" "res = Inr None"
      using finish_data_more [OF _ whole, of "s\<lparr>bn_rx := r2, bn_got := ?got\<rparr>" sid] s2 fd by (auto simp: net_inv_def)
    then show ?thesis using s2 False by simp
  next
    case True
    have ended: "net_inv objs (s'\<lparr>bn_rx := rx, bn_ended := insert sid (bn_ended s'),
          bn_out := bn_out s' @ (case res of Inr (Some obj) \<Rightarrow> [(sid, obj)] | _ \<Rightarrow> []),
          bn_errors := bn_errors s' @ (case res of Inl e \<Rightarrow> [e] | _ \<Rightarrow> [])\<rparr>)"
      if "s' = s\<lparr>bn_rx := r2, bn_got := ?got\<rparr>" for s'
      using finish_data_end [OF _ whole, of s' sid rx res] s2 fd True fin sid by (simp add: that)
    from ended [OF refl] show ?thesis using True by (cases s) simp
  qed
  show ?thesis
  proof (cases "sid \<in> set (br_dropped (bn_rx s))")
    case True
    let ?d = "if fin then List.remove1 sid (br_dropped (bn_rx s)) else br_dropped (bn_rx s)"
    have rx: "rx = (bn_rx s)\<lparr>br_dropped := ?d\<rparr>" "res = Inr None" using od True by (auto simp: bulk_on_data_def)
    have skip: "net_inv objs (s\<lparr>bn_got := ?got\<rparr>)" by (rule net_inv_skip [OF inv True]) simp
    show ?thesis
    proof (cases fin)
      case False
      with skip rx show ?thesis by simp
    next
      case f: True
      show ?thesis using net_inv_end_dropped [OF skip, of sid ?d] True f rx by (cases s) simp
    qed
  next
    case False
    define p where "p = (case map_of (br_streams (bn_rx s)) sid of Some p \<Rightarrow> p | None \<Rightarrow> \<lparr>pa_header = None, pa_bytes = []\<rparr>)"
    define bs where "bs = pa_bytes p @ slice (bn_got s sid) ?g (wire objs sid)"
    have live: "live_stream objs (bn_got s) (versions_of (bn_rx s)) sid p"
      unfolding p_def by (rule followed [OF ok sid False])
    note b = followed_bytes [OF live n, folded bs_def]
    let ?put = "\<lambda>p. (bn_rx s)\<lparr>br_streams := AList.update sid p (br_streams (bn_rx s))\<rparr>"
    have od': "(if pa_header p = None \<and> BULK_HEADER_LEN \<le> length bs
       then (case bulk_header_decode bs of
               Inl e \<Rightarrow> (reject sid (?put (p\<lparr>pa_bytes := bs\<rparr>)), Inl e)
             | Inr h \<Rightarrow> finish_data (on_header sid h (?put \<lparr>pa_header = Some h, pa_bytes = drop BULK_HEADER_LEN bs\<rparr>)) sid fin)
       else finish_data (?put (p\<lparr>pa_bytes := bs\<rparr>)) sid fin) = (rx, res)"
      using od bulk_on_data_followed [OF False p_def bs_def, of fin] by (simp only: Let_def)
    consider (more) "\<not> (pa_header p = None \<and> BULK_HEADER_LEN \<le> length bs)"
      | (large) "pa_header p = None" "BULK_HEADER_LEN \<le> length bs" "MAX_BULK_OBJECT < bh_length ?h"
      | (header) "pa_header p = None" "BULK_HEADER_LEN \<le> length bs" "\<not> MAX_BULK_OBJECT < bh_length ?h" by blast
    then show ?thesis
    proof cases
      case more
      have "live_stream objs ?got (versions_of (bn_rx s)) sid (p\<lparr>pa_bytes := bs\<rparr>)"
      proof (cases "pa_header p")
        case None
        have g: "bs = take ?g (wire objs sid)" "length bs = ?g" using b(1) [OF None] by blast+
        have "length bs < BULK_HEADER_LEN" using more None by simp
        then have "?g < BULK_HEADER_LEN" unfolding g(2) .
        then show ?thesis using None g(1) by (simp add: live_stream_def)
      next
        case (Some h)
        then show ?thesis using b(2) [OF Some] by (auto simp: live_stream_def)
      qed
      from streams_ok_more [OF ok sid False this]
      have s2: "net_inv objs (s\<lparr>bn_rx := ?put (p\<lparr>pa_bytes := bs\<rparr>), bn_got := ?got\<rparr>)"
        unfolding net_inv_def by (intro conjI output_ok_more [OF out]) simp_all
      have "finish_data (?put (p\<lparr>pa_bytes := bs\<rparr>)) sid fin = (rx, res)" using od' unfolding if_not_P [OF more] .
      then show ?thesis by (rule finish [OF s2])
    next
      case large
      have g: "BULK_HEADER_LEN \<le> ?g" using b(1) large by simp
      have dec: "bulk_header_decode bs = Inl (BulkTooLarge (bh_length ?h))"
        using b(1) large wire_header [OF g, of objs sid] by (simp add: bulk_header_decode_encode)
      let ?s = "s\<lparr>bn_rx := reject sid (?put (p\<lparr>pa_bytes := bs\<rparr>)), bn_errors := bn_errors s @ [BulkTooLarge (bh_length ?h)]\<rparr>"
      have rx: "rx = reject sid (?put (p\<lparr>pa_bytes := bs\<rparr>))" "res = Inl (BulkTooLarge (bh_length ?h))"
        using od' large dec by simp_all
      have r: "net_inv objs ?s" by (rule net_inv_reject [OF inv sid large(3)])
      have sd: "sid \<in> set (br_dropped (bn_rx ?s))" by (simp add: reject_def drop_stream_fields amap_conv)
      have g2: "net_inv objs (?s\<lparr>bn_got := ?got\<rparr>)" using net_inv_skip [OF r sd, of ?g] by simp
      show ?thesis
      proof (cases fin)
        case False
        with g2 rx show ?thesis by (cases s) simp
      next
        case True
        show ?thesis using net_inv_end_dropped [OF g2, of sid "br_dropped (bn_rx ?s)"] sd True rx by (cases s) simp
      qed
    next
      case header
      have g: "BULK_HEADER_LEN \<le> ?g" using b(1) header by simp
      have dec: "bulk_header_decode bs = Inr ?h" and rest: "drop BULK_HEADER_LEN bs = take (?g - BULK_HEADER_LEN) (snd (objs sid))"
        using b(1) header wire_header [OF g, of objs sid] by (simp_all add: bulk_header_decode_encode)
      let ?r1 = "?put \<lparr>pa_header = Some ?h, pa_bytes = take (?g - BULK_HEADER_LEN) (snd (objs sid))\<rparr>"
      have le: "bh_length ?h \<le> MAX_BULK_OBJECT" using header by simp
      note h = streams_ok_header [OF ok sid False refl le _ g]
      have wf: "wf_amap (br_streams ?r1)" and live1: "map_of (br_streams ?r1) sid \<noteq> None"
        using streams_okD(1) [OF ok] by (simp_all add: amap_conv)
      have "output_ok objs (s\<lparr>bn_rx := on_header sid ?h ?r1, bn_got := ?got, bn_errors := bn_errors s @ []\<rparr>)"
        using h(2) on_header_fields(5,6) [OF wf live1] by (intro output_ok_grows [OF out]) simp_all
      then have "net_inv objs (s\<lparr>bn_rx := on_header sid ?h ?r1, bn_got := ?got\<rparr>)" using h(1) by (simp add: net_inv_def)
      then show ?thesis using od' header dec rest by (intro finish) auto
    qed
  qed
qed

lemma net_inv_step:
  assumes "bulk_step objs s s'" and "whole_objects objs" and "net_inv objs s"
  shows "net_inv objs s'"
  using assms(1)
proof cases
  case (data sid n fin rx res)
  then show ?thesis unfolding data(1) by (intro net_inv_data [OF assms(3,2)])
next
  case (reset sid)
  then show ?thesis unfolding reset(1) by (intro net_inv_reset [OF assms(3)])
qed

lemma net_inv_run: "(bulk_step objs)\<^sup>*\<^sup>* s s' \<Longrightarrow> whole_objects objs \<Longrightarrow> net_inv objs s \<Longrightarrow> net_inv objs s'"
  by (induction rule: rtranclp_induct) (auto intro: net_inv_step)

text \<open>C30: bulk objects arrive whole.  When the streams carry whole objects, then however their bytes are
  cut up, in whatever order the streams advance, and whichever streams are reset: every object handed to
  the application is exactly the header and the bytes of one stream that ended, at most once; the
  versions of one object never go backwards; the only error is for an object over the size limit; and a
  stream that ended without a reset and within the limit was handed over, unless the header of a newer
  version of the same object has arrived.\<close>

theorem bulk_objects_arrive_whole:
  assumes "whole_objects objs" and "(bulk_step objs)\<^sup>*\<^sup>* net_new s"
  shows "(\<forall>e \<in> set (bn_out s). fst e \<in> bn_ended s
        \<and> snd e = \<lparr>bo_header = fst (objs (fst e)), bo_bytes = snd (objs (fst e))\<rparr>)
    \<and> distinct (List.map fst (bn_out s)) \<and> in_order (bn_out s)
    \<and> (\<forall>e \<in> set (bn_errors s). \<exists>l > MAX_BULK_OBJECT. e = BulkTooLarge l)
    \<and> (\<forall>sid \<in> bn_ended s - bn_reset s. bh_length (fst (objs sid)) \<le> MAX_BULK_OBJECT
        \<and> (\<forall>new. bulk_header_key (fst (objs new)) = bulk_header_key (fst (objs sid)) \<and> BULK_HEADER_LEN \<le> bn_got s new
             \<longrightarrow> bh_version (fst (objs new)) \<le> bh_version (fst (objs sid)))
        \<longrightarrow> sid \<in> fst ` set (bn_out s))"
proof -
  have inv: "net_inv objs s" using net_inv_run [OF assms(2,1) net_inv_new] .
  then have ok: "streams_ok objs s" and out: "output_ok objs s" by (simp_all add: net_inv_def)
  have "sid \<in> fst ` set (bn_out s)"
    if sid: "sid \<in> bn_ended s - bn_reset s" "bh_length (fst (objs sid)) \<le> MAX_BULK_OBJECT"
      and new: "\<forall>new. bulk_header_key (fst (objs new)) = bulk_header_key (fst (objs sid)) \<and> BULK_HEADER_LEN \<le> bn_got s new
             \<longrightarrow> bh_version (fst (objs new)) \<le> bh_version (fst (objs sid))" for sid
  proof (rule ccontr)
    assume "sid \<notin> fst ` set (bn_out s)"
    then have "outdated objs (versions_of (bn_rx s)) sid" using out sid(1) by (auto simp: output_ok_def)
    then obtain v where v: "versions_of (bn_rx s) (bulk_header_key (fst (objs sid))) = Some v" "bh_version (fst (objs sid)) < v"
      using sid(2) by (auto simp: outdated_def not_less [symmetric])
    from streams_okD(5) [OF ok v(1)] new v(2) show False by (meson leD)
  qed
  moreover have "\<forall>e \<in> set (bn_out s). fst e \<in> bn_ended s
      \<and> snd e = \<lparr>bo_header = fst (objs (fst e)), bo_bytes = snd (objs (fst e))\<rparr>"
    using out unfolding output_ok_def delivered_ok_def by blast
  moreover have "distinct (List.map fst (bn_out s))" "in_order (bn_out s)"
    "\<forall>e \<in> set (bn_errors s). \<exists>l > MAX_BULK_OBJECT. e = BulkTooLarge l"
    using out unfolding output_ok_def by blast+
  ultimately show ?thesis by blast
qed

text \<open>A run: the second version of an object overtakes the first.\<close>

definition two_maps :: bulk_objects where
  "two_maps sid =
     (if sid = 7 then (\<lparr>bh_kind = OccupancyGridKind, bh_source_id = 0, bh_encoding = 1, bh_version = 2, bh_length = 1,
        bh_capture_time_us = 5\<rparr>, [9])
      else (\<lparr>bh_kind = OccupancyGridKind, bh_source_id = 0, bh_encoding = 1, bh_version = 1, bh_length = 2,
        bh_capture_time_us = 4\<rparr>, [1, 2]))"

definition first_map :: BulkReceiver where
  "first_map = \<lparr>br_streams = [(3, \<lparr>pa_header = Some (fst (two_maps 3)), pa_bytes = [1]\<rparr>)],
     br_latest = [((OccupancyGridKind, 0), 1)], br_dropped = [],
     br_stats = \<lparr>bs_completed = 0, bs_superseded = 0, bs_rejected = 0\<rparr>\<rparr>"

definition second_map :: "u64 list \<Rightarrow> BulkReceiver" where
  "second_map d = \<lparr>br_streams = [], br_latest = [((OccupancyGridKind, 0), 2)], br_dropped = d,
     br_stats = \<lparr>bs_completed = 1, bs_superseded = 1, bs_rejected = 0\<rparr>\<rparr>"

lemma two_maps_steps:
  "bulk_on_data bulk_receiver_new 3 (slice 0 25 (wire two_maps 3)) False = (first_map, Inr None)"
  "bulk_on_data first_map 7 (wire two_maps 7) True
    = (second_map [3], Inr (Some \<lparr>bo_header = fst (two_maps 7), bo_bytes = [9]\<rparr>))"
  "bulk_on_data (second_map [3]) 3 (slice 25 26 (wire two_maps 3)) True = (second_map [], Inr None)"
  "length (wire two_maps 3) = 26" "length (wire two_maps 7) = 25"
      apply code_simp
     apply code_simp
    apply code_simp
   apply code_simp
  apply code_simp
  done

lemma bulk_step_to:
  assumes "sid \<notin> bn_ended s" "bn_got s sid + n \<le> length (wire objs sid)"
    "fin \<longrightarrow> bn_got s sid + n = length (wire objs sid)"
    "bulk_on_data (bn_rx s) sid (slice (bn_got s sid) (bn_got s sid + n) (wire objs sid)) fin = (rx, res)"
  obtains s' where "bulk_step objs s s'" "bn_rx s' = rx" "bn_got s' = (bn_got s)(sid := bn_got s sid + n)"
    "bn_ended s' = (if fin then insert sid (bn_ended s) else bn_ended s)"
    "bn_out s' = bn_out s @ (case res of Inr (Some obj) \<Rightarrow> [(sid, obj)] | _ \<Rightarrow> [])"
  by (rule that [OF bulk_step.data [OF assms]]) simp_all

theorem bulk_objects_arrive_whole_witness:
  "whole_objects two_maps \<and> (\<exists>s. (bulk_step two_maps)\<^sup>*\<^sup>* net_new s \<and> bn_ended s = {3, 7}
    \<and> List.map fst (bn_out s) = [7] \<and> in_order (bn_out s))"
proof -
  note steps = two_maps_steps
  have whole: "whole_objects two_maps" by (simp add: whole_objects_def two_maps_def)
  have new: "bn_rx net_new = bulk_receiver_new" "bn_got net_new = (\<lambda>_. 0)" "bn_ended net_new = {}" "bn_out net_new = []"
    by (simp_all add: net_new_def)
  obtain s1 where s1: "bulk_step two_maps net_new s1" "bn_rx s1 = first_map" "bn_got s1 = (\<lambda>_. 0)(3 := 25)"
    "bn_ended s1 = {}" "bn_out s1 = []"
    by (rule bulk_step_to [of 3 net_new 25 two_maps False first_map "Inr None"]) (simp_all add: new steps)
  obtain s2 where s2: "bulk_step two_maps s1 s2" "bn_rx s2 = second_map [3]" "bn_got s2 = (\<lambda>_. 0)(3 := 25, 7 := 25)"
    "bn_ended s2 = {7}" "List.map fst (bn_out s2) = [7]"
    by (rule bulk_step_to [of 7 s1 25 two_maps True "second_map [3]" "Inr (Some \<lparr>bo_header = fst (two_maps 7), bo_bytes = [9]\<rparr>)"])
      (simp_all add: s1 steps)
  obtain s3 where s3: "bulk_step two_maps s2 s3" "bn_ended s3 = {3, 7}" "List.map fst (bn_out s3) = [7]"
    by (rule bulk_step_to [of 3 s2 1 two_maps True "second_map []" "Inr None"]) (simp_all add: s2 steps)
  have run: "(bulk_step two_maps)\<^sup>*\<^sup>* net_new s3"
    using s1(1) s2(1) s3(1) by (meson converse_rtranclp_into_rtranclp rtranclp.rtrancl_refl)
  have "in_order (bn_out s3)"
    by (rule conjunct1 [OF conjunct2 [OF conjunct2 [OF bulk_objects_arrive_whole [OF whole run]]]])
  then show ?thesis using whole run s3(2,3) by (intro conjI exI [of _ s3])
qed

section \<open>The sender\<close>

text \<open>What the connection promises: \<open>sent c sid\<close> is the bytes accepted on a stream and whether its end was.
  A call accepts a prefix of what it is given, the end only with the last byte; an error accepts nothing;
  no call touches another stream.\<close>

definition quiche_laws :: "'c stream_send \<Rightarrow> 'c stream_priority \<Rightarrow> ('c \<Rightarrow> u64 \<Rightarrow> bytes \<times> bool) \<Rightarrow> bool" where
  "quiche_laws send prio sent \<longleftrightarrow>
     (\<forall>c sid d fin c' r. send c sid d fin = (c', r) \<longrightarrow>
        (case r of Inl _ \<Rightarrow> sent c' sid = sent c sid
         | Inr n \<Rightarrow> n \<le> length d \<and> sent c' sid = (fst (sent c sid) @ take n d, fin \<and> n = length d))
        \<and> (\<forall>i. i \<noteq> sid \<longrightarrow> sent c' i = sent c i))
     \<and> (\<forall>c sid u i. sent (prio c sid u i) = sent c)"

definition never_fails :: "'c stream_send \<Rightarrow> bool" where
  "never_fails send \<longleftrightarrow> (\<forall>c sid d fin. snd (send c sid d fin) \<noteq> Inl SendFailed)"

text \<open>An object being sent: some of its bytes are accepted, and not its end.\<close>

definition sending :: "('c \<Rightarrow> u64 \<Rightarrow> bytes \<times> bool) \<Rightarrow> 'c \<Rightarrow> Outgoing \<Rightarrow> bool" where
  "sending sent c out \<longleftrightarrow> ou_offset out < length (ou_data out)
     \<and> sent c (ou_stream_id out) = (take (ou_offset out) (ou_data out), False)"

definition sent_upto :: "('c \<Rightarrow> u64 \<Rightarrow> bytes \<times> bool) \<Rightarrow> 'c \<Rightarrow> Outgoing \<Rightarrow> bool" where
  "sent_upto sent c out \<longleftrightarrow> ou_offset out \<le> length (ou_data out)
     \<and> sent c (ou_stream_id out) = (take (ou_offset out) (ou_data out), ou_offset out = length (ou_data out))"

lemma sending_iff: "sending sent c out \<longleftrightarrow> sent_upto sent c out \<and> ou_offset out < length (ou_data out)"
  by (auto simp: sending_def sent_upto_def)

lemma quiche_lawsD:
  assumes "quiche_laws send prio sent" and "send c sid d fin = (c', r)"
  shows "r = Inl e \<Longrightarrow> sent c' sid = sent c sid"
    and "r = Inr n \<Longrightarrow> n \<le> length d \<and> sent c' sid = (fst (sent c sid) @ take n d, fin \<and> n = length d)"
    and "i \<noteq> sid \<Longrightarrow> sent c' i = sent c i" and "sent (prio c'' sid' u' b) = sent c''"
  using assms unfolding quiche_laws_def by (force split: sum.splits)+

definition pump_object_result where
  "pump_object_result send sent c out left written c' out' left' written' ended \<longleftrightarrow>
     ou_stream_id out' = ou_stream_id out \<and> ou_data out' = ou_data out \<and> sent_upto sent c' out'
     \<and> (\<forall>i. i \<noteq> ou_stream_id out \<longrightarrow> sent c' i = sent c i) \<and> left' + written' = left + (written :: nat)
     \<and> (\<not> ended \<longrightarrow> ou_offset out' < length (ou_data out'))
     \<and> (never_fails send \<longrightarrow> ended \<longrightarrow> ou_offset out' = length (ou_data out'))"

lemma pump_object_spec:
  assumes laws: "quiche_laws send prio sent"
  shows "sending sent c out \<Longrightarrow> \<exists>c' out' left' written' ended.
    pump_object send prio c out left written = Some (c', out', left', written', ended)
    \<and> pump_object_result send sent c out left written c' out' left' written' ended"
proof (induction "length (ou_data out) - ou_offset out" arbitrary: c out left written rule: less_induct)
  case less
  let ?sid = "ou_stream_id out" and ?data = "ou_data out" and ?start = "ou_offset out"
  let ?e = "min (?start + min CHUNK left) (length ?data)"
  let ?fin = "?e = length ?data"
  have s: "?start < length ?data" "sent c ?sid = (take ?start ?data, False)" using less.prems by (simp_all add: sending_def)
  show ?case
  proof (cases "left = 0")
    case True
    then show ?thesis using s by (subst pump_object.simps) (auto simp: pump_object_result_def sent_upto_def)
  next
    case False
    have e: "?start < ?e" "?e \<le> length ?data" "?e - ?start \<le> left" using False s(1) by (auto simp: CHUNK_def)
    obtain c1 r where send: "send c ?sid (slice ?start ?e ?data) ?fin = (c1, r)" by (rule prod.exhaust)
    note law = quiche_lawsD [OF laws send]
    note step = pump_object.simps [of send prio c out left written, unfolded Let_def send prod.case]
    show ?thesis
    proof (cases r)
      case (Inl err)
      have "pump_object_result send sent c out left written c1 out left written (err = SendFailed)"
        using s law(1) [OF Inl] law(3) send Inl unfolding pump_object_result_def sent_upto_def never_fails_def
        by (auto dest: spec) (metis snd_conv)
      moreover have "pump_object send prio c out left written = Some (c1, out, left, written, err = SendFailed)"
        using step False e by (cases err) (simp_all add: Inl)
      ultimately show ?thesis by blast
    next
      case (Inr n)
      let ?out = "out\<lparr>ou_offset := ?start + n\<rparr>" and ?c = "if ?start = 0 \<and> 0 < n then prio c1 ?sid BULK_URGENCY False else c1"
      have len: "length (slice ?start ?e ?data) = ?e - ?start" using e by simp
      have n: "n \<le> ?e - ?start" "sent c1 ?sid = (take ?start ?data @ take n (slice ?start ?e ?data), ?fin \<and> n = ?e - ?start)"
        using law(2) [OF Inr] s(2) len by simp_all
      have le: "?start + n \<le> ?e" using n(1) e(1) by linarith
      have "take ?start ?data @ take n (slice ?start ?e ?data) = take (?start + n) ?data"
        using n(1) by (simp add: slice_def take_add min_absorb1 del: min.bounded_iff)
      moreover have "?fin \<and> n = ?e - ?start \<longleftrightarrow> ?start + n = length ?data" using le e by linarith
      ultimately have upto: "sent_upto sent ?c ?out"
        using n(2) le e(2) law(4) by (simp add: sent_upto_def)
      have other: "\<forall>i. i \<noteq> ?sid \<longrightarrow> sent ?c i = sent c i" using law(3,4) by simp
      have step': "pump_object send prio c out left written =
          (if ?fin \<and> ?start + n = length ?data then Some (?c, ?out, left - n, written + n, True)
           else if n < ?e - ?start then Some (?c, ?out, left - n, written + n, False)
           else pump_object send prio ?c ?out (left - n) (written + n))"
        using step False e n(1) by (simp add: Inr del: min.bounded_iff)
      consider (whole) "?fin \<and> ?start + n = length ?data" | (short) "\<not> (?fin \<and> ?start + n = length ?data)" "n < ?e - ?start"
        | (more) "\<not> (?fin \<and> ?start + n = length ?data)" "\<not> n < ?e - ?start" by blast
      then show ?thesis
      proof cases
        case whole
        then have "pump_object_result send sent c out left written ?c ?out (left - n) (written + n) True"
          using upto other n(1) e(3) by (simp add: pump_object_result_def)
        then show ?thesis using step' whole by (metis (no_types, lifting))
      next
        case short
        then have "?start + n < length ?data" using e(2) by linarith
        then have "pump_object_result send sent c out left written ?c ?out (left - n) (written + n) False"
          using upto other n(1) e(3) by (simp add: pump_object_result_def)
        then show ?thesis using step' short by (metis (no_types, lifting))
      next
        case more
        then have eq: "?start + n = ?e" using le by linarith
        then have lt: "?start + n < length ?data" using more e(2) by linarith
        have sg: "sending sent ?c ?out" using upto lt by (simp add: sending_iff)
        have "length (ou_data ?out) - ou_offset ?out < length ?data - ?start"
        proof -
          have "0 < n" using eq e(1) by linarith
          then show ?thesis using lt by simp
        qed
        from less.hyps [OF this sg, of "left - n" "written + n"] obtain c' out' left' written' ended where
          r: "pump_object send prio ?c ?out (left - n) (written + n) = Some (c', out', left', written', ended)"
          "pump_object_result send sent ?c ?out (left - n) (written + n) c' out' left' written' ended" by blast
        have "pump_object_result send sent c out left written c' out' left' written' ended"
          using r(2) other n(1) e(3) by (auto simp: pump_object_result_def)
        then show ?thesis using step' more r(1) by (metis (no_types, lifting))
      qed
    qed
  qed
qed

text \<open>All the objects being sent.\<close>

definition pumped where
  "pumped send sent c F kv kv' \<longleftrightarrow> fst kv' = fst kv \<and> ou_stream_id (snd kv') = ou_stream_id (snd kv)
     \<and> ou_data (snd kv') = ou_data (snd kv) \<and> sent_upto sent c (snd kv')
     \<and> (fst kv \<notin> F \<longrightarrow> ou_offset (snd kv') < length (ou_data (snd kv')))
     \<and> (never_fails send \<longrightarrow> fst kv \<in> F \<longrightarrow> ou_offset (snd kv') = length (ou_data (snd kv')))"

abbreviation stream_ids :: "('k \<times> Outgoing) list \<Rightarrow> u64 list" where
  "stream_ids m \<equiv> List.map (\<lambda>e. ou_stream_id (snd e)) m"

lemma pumped_idle:
  "list_all (\<lambda>e. sending sent c (snd e)) act \<Longrightarrow> (\<And>i. i \<in> set (stream_ids act) \<Longrightarrow> sent c' i = sent c i)
    \<Longrightarrow> F \<inter> set (keys act) = {} \<Longrightarrow> list_all2 (pumped send sent c' F) act act"
  by (auto simp: list_all2_same list_all_iff pumped_def sending_def sent_upto_def)

lemma pumped_other:
  "list_all2 (pumped send sent c F) act act' \<Longrightarrow> (\<And>i. i \<in> set (stream_ids act) \<Longrightarrow> sent c' i = sent c i)
    \<Longrightarrow> F' \<inter> set (keys act) = F \<inter> set (keys act) \<Longrightarrow> list_all2 (pumped send sent c' F') act act'"
proof (induction rule: list_all2_induct)
  case (Cons kv act kv' act')
  then have "pumped send sent c' F' kv kv'" by (auto simp: pumped_def sent_upto_def)
  with Cons show ?case by auto
qed simp

lemma pump_objects_spec:
  assumes laws: "quiche_laws send prio sent"
  shows "list_all (\<lambda>e. sending sent c (snd e)) act \<Longrightarrow> distinct (stream_ids act) \<Longrightarrow> wf_amap act \<Longrightarrow>
    \<exists>c' act' written' fs. pump_objects send prio c act left written = Some (c', act', written', fs)
      \<and> list_all2 (pumped send sent c' (set fs)) act act' \<and> set fs \<subseteq> set (keys act) \<and> distinct fs
      \<and> (\<forall>i. i \<notin> set (stream_ids act) \<longrightarrow> sent c' i = sent c i) \<and> written' \<le> left + written"
proof (induction act arbitrary: c left written)
  case (Cons kv rest)
  obtain key out where kv: "kv = (key, out)" by (rule prod.exhaust)
  have sg: "sending sent c out" using Cons.prems by (simp add: kv)
  obtain c1 out1 left1 written1 ended where po: "pump_object send prio c out left written = Some (c1, out1, left1, written1, ended)"
    and r: "pump_object_result send sent c out left written c1 out1 left1 written1 ended"
    using pump_object_spec [OF laws sg] by blast
  have r1: "ou_stream_id out1 = ou_stream_id out" "ou_data out1 = ou_data out" "sent_upto sent c1 out1"
    "\<And>i. i \<noteq> ou_stream_id out \<Longrightarrow> sent c1 i = sent c i" "left1 + written1 = left + written"
    "\<not> ended \<Longrightarrow> ou_offset out1 < length (ou_data out1)"
    "never_fails send \<Longrightarrow> ended \<Longrightarrow> ou_offset out1 = length (ou_data out1)"
    using r unfolding pump_object_result_def by blast+
  have nk: "key \<notin> set (keys rest)" "ou_stream_id out \<notin> set (stream_ids rest)" using Cons.prems by (simp_all add: kv)
  have rest1: "list_all (\<lambda>e. sending sent c1 (snd e)) rest"
    unfolding list_all_iff
  proof
    fix x assume x: "x \<in> set rest"
    then have "ou_stream_id (snd x) \<in> set (stream_ids rest)" by simp
    then have "ou_stream_id (snd x) \<noteq> ou_stream_id out" using nk(2) by metis
    moreover have "sending sent c (snd x)" using Cons.prems(1) x by (simp add: list_all_iff)
    ultimately show "sending sent c1 (snd x)" using r1(4) by (simp add: sending_def)
  qed
  have head: "pumped send sent c1 F (key, out) (key, out1)" if "key \<in> F \<longleftrightarrow> ended" for F
    using r1 that by (simp add: pumped_def)
  show ?case
  proof (cases "left1 = 0")
    case True
    let ?fs = "if ended then [key] else []"
    have "list_all2 (pumped send sent c1 (set ?fs)) rest rest"
      using nk by (intro pumped_idle [OF rest1]) auto
    moreover have "pump_objects send prio c (kv # rest) left written = Some (c1, (key, out1) # rest, written1, ?fs)"
      by (simp add: kv po True)
    ultimately show ?thesis using head [of "set ?fs"] r1(4,5) by (auto simp: kv)
  next
    case False
    have d: "distinct (stream_ids rest)" "wf_amap rest" using Cons.prems by (simp_all add: kv)
    obtain c2 rest' written2 fs where pr: "pump_objects send prio c1 rest left1 written1 = Some (c2, rest', written2, fs)"
      and all: "list_all2 (pumped send sent c2 (set fs)) rest rest'" and fs: "set fs \<subseteq> set (keys rest)" "distinct fs"
      and oth: "\<And>i. i \<notin> set (stream_ids rest) \<Longrightarrow> sent c2 i = sent c1 i" and w: "written2 \<le> left1 + written1"
      using Cons.IH [OF rest1 d, of left1 written1] by blast
    let ?fs = "(if ended then [key] else []) @ fs"
    have "pump_objects send prio c (kv # rest) left written = Some (c2, (key, out1) # rest', written2, ?fs)"
      using False by (simp add: kv po pr)
    moreover have "pumped send sent c2 (set ?fs) (key, out) (key, out1)"
    proof -
      have "key \<in> set ?fs \<longleftrightarrow> ended" using nk(1) fs(1) by auto
      moreover have "sent c2 (ou_stream_id out1) = sent c1 (ou_stream_id out1)" using oth nk(2) r1(1) by simp
      ultimately show ?thesis using head [of "set ?fs"] r1(1,2) by (auto simp: pumped_def sent_upto_def)
    qed
    moreover have "list_all2 (pumped send sent c2 (set ?fs)) rest rest'"
      using nk(1) by (intro pumped_other [OF all]) auto
    moreover have "sent c2 i = sent c i" if "i \<notin> set (stream_ids (kv # rest))" for i
      using that oth [of i] r1(4) [of i] by (simp add: kv)
    ultimately show ?thesis using fs nk(1) w r1(5) by (auto simp: kv)
  qed
qed simp

text \<open>Runs of the sender, over a connection it shares with nothing else: publishing, pumping, and handing
  out a stream id for another use.\<close>

datatype bulk_event = Publish BulkHeader bytes | Pump "nat option" | Allocate

fun bulk_run ::
  "'c stream_send \<Rightarrow> 'c stream_priority \<Rightarrow> 'c \<Rightarrow> BulkSender \<Rightarrow> bulk_event list \<Rightarrow> ('c \<times> BulkSender) option" where
  "bulk_run send prio c s [] = Some (c, s)"
| "bulk_run send prio c s (Publish h payload # es) =
     (case bulk_publish prio c h payload s of (c, s) \<Rightarrow> bulk_run send prio c s es)"
| "bulk_run send prio c s (Pump budget # es) =
     (case bulk_pump send prio c budget s of None \<Rightarrow> None | Some (c, s, _) \<Rightarrow> bulk_run send prio c s es)"
| "bulk_run send prio c s (Allocate # es) = bulk_run send prio c (fst (allocate_stream s)) es"

text \<open>The versions published of an object, in order, and of those the ones a stream was started for.\<close>

definition published :: "send_key \<Rightarrow> bulk_event list \<Rightarrow> bytes list" where
  "published k es = concat (List.map (\<lambda>e. case e of Publish h payload \<Rightarrow>
     (if (kind_to_u8 (bh_kind h), bh_source_id h) = k then [bulk_header_encode h @ payload] else []) | _ \<Rightarrow> []) es)"

type_synonym starts = "(u64 \<times> send_key \<times> bytes) list"

definition started :: "send_key \<Rightarrow> starts \<Rightarrow> bytes list" where
  "started k st = List.map (\<lambda>e. snd (snd e)) (filter (\<lambda>e. fst (snd e) = k) st)"

definition waiting_for :: "BulkSender \<Rightarrow> send_key \<Rightarrow> bytes list" where
  "waiting_for s k = (case map_of (sn_waiting s) k of None \<Rightarrow> [] | Some d \<Rightarrow> [d])"

lemma started_append: "started k (st @ [(sid, k', d)]) = started k st @ (if k' = k then [d] else [])"
  by (simp add: started_def)

text \<open>The invariant, with the keys \<open>F\<close> whose objects \<open>pump\<close> has finished and not yet removed.\<close>

definition ids_ok :: "nat \<Rightarrow> starts \<Rightarrow> BulkSender \<Rightarrow> bool" where
  "ids_ok m st s \<longleftrightarrow> (\<exists>n. unat (sn_next_stream_id s) = 4 * n + 3 \<and> n + length (sn_waiting s) \<le> m)
     \<and> distinct (List.map fst st) \<and> (\<forall>e \<in> set st. fst e < sn_next_stream_id s)"

definition sent_ok :: "('c \<Rightarrow> u64 \<Rightarrow> bytes \<times> bool) \<Rightarrow> starts \<Rightarrow> 'c \<Rightarrow> bool" where
  "sent_ok sent st c \<longleftrightarrow>
     (\<forall>e \<in> set st. snd (snd e) \<noteq> []
        \<and> (\<exists>n \<le> length (snd (snd e)). sent c (fst e) = (take n (snd (snd e)), n = length (snd (snd e)))))
     \<and> (\<forall>sid. sid \<notin> fst ` set st \<longrightarrow> sent c sid = ([], False))"

definition active_ok :: "('c \<Rightarrow> u64 \<Rightarrow> bytes \<times> bool) \<Rightarrow> send_key set \<Rightarrow> starts \<Rightarrow> 'c \<Rightarrow> BulkSender \<Rightarrow> bool" where
  "active_ok sent F st c s \<longleftrightarrow>
     (\<forall>k out. map_of (sn_active s) k = Some out \<longrightarrow> (ou_stream_id out, k, ou_data out) \<in> set st
        \<and> sent_upto sent c out \<and> (k \<notin> F \<longrightarrow> ou_offset out < length (ou_data out)))"

definition ended_ok :: "('c \<Rightarrow> u64 \<Rightarrow> bytes \<times> bool) \<Rightarrow> starts \<Rightarrow> 'c \<Rightarrow> BulkSender \<Rightarrow> bool" where
  "ended_ok sent st c s \<longleftrightarrow>
     (\<forall>e \<in> set st. snd (sent c (fst e))
        \<or> (\<exists>out. map_of (sn_active s) (fst (snd e)) = Some out \<and> ou_stream_id out = fst e))"

definition queue_ok :: "(send_key \<Rightarrow> bytes list) \<Rightarrow> starts \<Rightarrow> BulkSender \<Rightarrow> bool" where
  "queue_ok pubs st s \<longleftrightarrow> sorted_keys (sn_active s) \<and> sorted_keys (sn_waiting s)
     \<and> (\<forall>k. map_of (sn_waiting s) k \<noteq> None \<longrightarrow> map_of (sn_active s) k \<noteq> None \<and> map_of (sn_waiting s) k \<noteq> Some [])
     \<and> (\<forall>k. subseq (started k st @ waiting_for s k) (pubs k)
          \<and> (pubs k \<noteq> [] \<longrightarrow> started k st @ waiting_for s k \<noteq> [] \<and> last (started k st @ waiting_for s k) = last (pubs k)))"

definition sender_inv where
  "sender_inv send sent m pubs F st c s \<longleftrightarrow> ids_ok m st s \<and> sent_ok sent st c \<and> active_ok sent F st c s
     \<and> queue_ok pubs st s \<and> (never_fails send \<longrightarrow> ended_ok sent st c s)"

lemma sender_inv_new:
  assumes "\<And>sid. sent c sid = ([], False)"
  shows "sender_inv send sent 0 (\<lambda>_. []) {} [] c bulk_sender_new"
  using assms by (simp add: sender_inv_def ids_ok_def sent_ok_def active_ok_def queue_ok_def ended_ok_def
    bulk_sender_new_def started_def waiting_for_def)

text \<open>Starting an object on a fresh stream.\<close>

lemma sender_inv_start:
  assumes laws: "quiche_laws send prio sent" and ids: "ids_ok m st s" "sent_ok sent st c" and act: "active_ok sent F st c s"
    and q: "sorted_keys (sn_active s)" "sorted_keys (sn_waiting s)" "\<And>k. map_of (sn_waiting s) k \<noteq> None \<Longrightarrow> map_of (sn_active s) k \<noteq> None \<and> map_of (sn_waiting s) k \<noteq> Some []"
    and ended: "never_fails send \<longrightarrow> ended_ok sent st c s"
    and new: "map_of (sn_active s) key = None" "map_of (sn_waiting s) key = None" "data \<noteq> []"
    and m: "Suc m < 2 ^ 61"
    and start: "sender_start prio c key data s = (c', s')"
    and pubs: "\<And>k. subseq (started k st @ (if k = key then [data] else waiting_for s k)) (pubs k)
          \<and> (pubs k \<noteq> [] \<longrightarrow> started k st @ (if k = key then [data] else waiting_for s k) \<noteq> []
               \<and> last (started k st @ (if k = key then [data] else waiting_for s k)) = last (pubs k))"
  shows "sender_inv send sent (Suc m) pubs F (st @ [(sn_next_stream_id s, key, data)]) c' s'"
proof -
  let ?id = "sn_next_stream_id s" and ?st = "st @ [(sn_next_stream_id s, key, data)]"
  let ?out = "\<lparr>ou_stream_id = ?id, ou_data = data, ou_offset = 0\<rparr>"
  have s': "s' = s\<lparr>sn_next_stream_id := ?id + 4, sn_active := sorted_insert key ?out (sn_active s)\<rparr>"
    and c': "sent c' = sent c"
    using start laws by (auto simp: sender_start_def allocate_stream_def quiche_laws_def)
  obtain n where n: "unat ?id = 4 * n + 3" "n + length (sn_waiting s) \<le> m" using ids(1) by (auto simp: ids_ok_def)
  have "unat ?id + unat (4 :: u64) < 2 ^ 64" using n m by simp
  then have next_id: "unat (?id + 4) = unat ?id + 4" using iffD1 [OF unat_add_lem, of ?id 4] by simp
  have lt: "fst e < ?id" if "e \<in> set st" for e using ids(1) that by (auto simp: ids_ok_def)
  have fresh: "?id \<notin> fst ` set st" using lt by fastforce
  have none: "sent c ?id = ([], False)" using ids(2) fresh by (simp add: sent_ok_def)
  have "?id < ?id + 4" using next_id by (simp add: word_less_nat_alt)
  then have "\<forall>e \<in> set ?st. fst e < ?id + 4" using lt by (auto dest!: lt intro: less_trans)
  then have "ids_ok (Suc m) ?st s'"
    using ids(1) n next_id fresh unfolding ids_ok_def s' by (intro conjI exI [of _ "Suc n"]) simp_all
  moreover have "sent_ok sent ?st c'" using ids(2) none new(3) by (auto simp: sent_ok_def c')
  moreover have "active_ok sent F ?st c' s'"
    using act none new(3) q(1) by (auto simp: active_ok_def s' c' sent_upto_def)
  moreover have "ended_ok sent ?st c' s'" if "ended_ok sent st c s"
    using that new(1) q(1) unfolding ended_ok_def by (auto simp: s' c')
  moreover have "queue_ok pubs ?st s'"
  proof -
    have eq: "started k ?st @ waiting_for s' k = started k st @ (if k = key then [data] else waiting_for s k)" for k
      using new(2) by (auto simp: s' started_append waiting_for_def)
    have "map_of (sn_active s') k \<noteq> None \<and> map_of (sn_waiting s') k \<noteq> Some []" if "map_of (sn_waiting s') k \<noteq> None" for k
      using q(1) q(3) [of k] that by (simp add: s')
    then show ?thesis unfolding queue_ok_def eq using q(1,2) pubs by (simp add: s')
  qed
  ultimately show ?thesis using ended by (simp add: sender_inv_def)
qed

lemma queue_okD:
  assumes "queue_ok pubs st s"
  shows "sorted_keys (sn_active s)" "sorted_keys (sn_waiting s)"
    "map_of (sn_waiting s) k \<noteq> None \<Longrightarrow> map_of (sn_active s) k \<noteq> None \<and> map_of (sn_waiting s) k \<noteq> Some []"
    "subseq (started k st @ waiting_for s k) (pubs k)
      \<and> (pubs k \<noteq> [] \<longrightarrow> started k st @ waiting_for s k \<noteq> [] \<and> last (started k st @ waiting_for s k) = last (pubs k))"
  using assms unfolding queue_ok_def by blast+

lemma bulk_header_nonempty [simp]: "bulk_header_encode h \<noteq> []"
  by (simp add: bulk_header_encode_def)

lemma subseq_left: "subseq (xs @ ys) zs \<Longrightarrow> subseq xs zs"
  using list_emb_appendD [of "(=)" xs ys zs] list_emb_append2 by blast

lemma sender_inv_mono: "sender_inv send sent m pubs F st c s \<Longrightarrow> m \<le> m' \<Longrightarrow> sender_inv send sent m' pubs F st c s"
  unfolding sender_inv_def ids_ok_def by (meson le_trans)

lemma sender_inv_publish:
  assumes laws: "quiche_laws send prio sent" and inv: "sender_inv send sent m pubs {} st c s"
    and m: "Suc m < 2 ^ 61" and pub: "bulk_publish prio c h payload s = (c', s')"
  defines "key \<equiv> (kind_to_u8 (bh_kind h), bh_source_id h)" and "data \<equiv> bulk_header_encode h @ payload"
  shows "\<exists>st'. sender_inv send sent (Suc m) (pubs(key := pubs key @ [data])) {} st' c' s'"
proof -
  let ?s = "s\<lparr>sn_stats := (sn_stats s)\<lparr>ss_published := ss_published (sn_stats s) + 1\<rparr>\<rparr>"
  let ?pubs = "pubs(key := pubs key @ [data])"
  have ids: "ids_ok m st s" "sent_ok sent st c" and act: "active_ok sent {} st c s" and q: "queue_ok pubs st s"
    and ended: "never_fails send \<longrightarrow> ended_ok sent st c s" using inv by (simp_all add: sender_inv_def)
  have sub: "subseq (started key st) (pubs key)"
    using queue_okD(4) [OF q, of key] subseq_left by blast
  show ?thesis
  proof (cases "map_of (sn_active s) key")
    case None
    then have w: "map_of (sn_waiting s) key = None" using queue_okD(3) [OF q, of key] by blast
    have start: "sender_start prio c key data ?s = (c', s')"
      using pub None unfolding bulk_publish_def Let_def mem_keys_iff key_def data_def by simp
    have "sender_inv send sent (Suc m) ?pubs {} (st @ [(sn_next_stream_id ?s, key, data)]) c' s'"
    proof (rule sender_inv_start [OF laws _ _ _ _ _ _ _ _ _ _ m start])
      show "ids_ok m st ?s" "active_ok sent {} st c ?s" "never_fails send \<longrightarrow> ended_ok sent st c ?s"
        using ids act ended by (simp_all add: ids_ok_def active_ok_def ended_ok_def)
      show "subseq (started k st @ (if k = key then [data] else waiting_for ?s k)) (?pubs k)
          \<and> (?pubs k \<noteq> [] \<longrightarrow> started k st @ (if k = key then [data] else waiting_for ?s k) \<noteq> []
               \<and> last (started k st @ (if k = key then [data] else waiting_for ?s k)) = last (?pubs k))" for k
        using queue_okD(4) [OF q, of k] sub by (auto simp: waiting_for_def list_emb_append_mono)
    qed (use ids queue_okD [OF q] None w in \<open>simp_all add: data_def\<close>)
    then show ?thesis by blast
  next
    case (Some out)
    then have s': "c' = c" "sn_next_stream_id s' = sn_next_stream_id s" "sn_active s' = sn_active s"
      "sn_waiting s' = sorted_insert key data (sn_waiting s)"
      using pub unfolding bulk_publish_def Let_def mem_keys_iff key_def data_def by auto
    have "length (sn_waiting s') \<le> Suc (length (sn_waiting s))"
      using queue_okD(2) [OF q] by (simp add: s' length_sorted_insert)
    moreover obtain n where "unat (sn_next_stream_id s) = 4 * n + 3" "n + length (sn_waiting s) \<le> m"
      using ids(1) by (auto simp: ids_ok_def)
    ultimately have "ids_ok (Suc m) st s'"
      using ids(1) unfolding ids_ok_def s'(2) by (intro conjI exI [of _ n]) simp_all
    moreover have "queue_ok ?pubs st s'"
    proof -
      have eq: "started k st @ waiting_for s' k = (if k = key then started k st @ [data] else started k st @ waiting_for s k)" for k
        using queue_okD(2) [OF q] by (simp add: waiting_for_def s')
      have "subseq (started k st @ waiting_for s' k) (?pubs k) \<and> (?pubs k \<noteq> [] \<longrightarrow> started k st @ waiting_for s' k \<noteq> []
          \<and> last (started k st @ waiting_for s' k) = last (?pubs k))" for k
        unfolding eq using queue_okD(4) [OF q, of k] sub by (auto simp: list_emb_append_mono)
      moreover have "map_of (sn_active s') k \<noteq> None \<and> map_of (sn_waiting s') k \<noteq> Some []" if "map_of (sn_waiting s') k \<noteq> None" for k
        using that Some queue_okD(2) [OF q] queue_okD(3) [OF q, of k] by (auto simp: s' data_def split: if_splits)
      ultimately show ?thesis using queue_okD(1,2) [OF q] unfolding queue_ok_def by (simp add: s')
    qed
    ultimately have "sender_inv send sent (Suc m) ?pubs {} st c' s'"
      using ids act ended by (simp add: sender_inv_def active_ok_def ended_ok_def s')
    then show ?thesis by blast
  qed
qed

lemma length_delete_Some: "map_of m k = Some v \<Longrightarrow> wf_amap m \<Longrightarrow> length m = Suc (length (AList.delete k m))"
proof (induction m)
  case (Cons kv m)
  obtain k' v' where kv: "kv = (k', v')" by (cases kv)
  show ?case
  proof (cases "k' = k")
    case True
    then have "k \<notin> set (keys m)" using Cons.prems kv by simp
    then show ?thesis using True by (simp add: kv delete_id)
  next
    case False
    with Cons show ?thesis by (simp add: kv)
  qed
qed simp

text \<open>Removing what is finished, and starting what waits.\<close>

lemma sender_inv_finish:
  assumes laws: "quiche_laws send prio sent" and m: "m < 2 ^ 61"
  shows "sender_inv send sent m pubs (set fs) st c s \<Longrightarrow> distinct fs \<Longrightarrow> set fs \<subseteq> set (keys (sn_active s)) \<Longrightarrow>
    (\<And>k out. never_fails send \<Longrightarrow> k \<in> set fs \<Longrightarrow> map_of (sn_active s) k = Some out \<Longrightarrow> ou_offset out = length (ou_data out)) \<Longrightarrow>
    \<exists>st' c' s'. finish_objects prio c fs s = (c', s') \<and> sender_inv send sent m pubs {} st' c' s'"
proof (induction fs arbitrary: st c s)
  case (Cons key fs)
  have ids: "ids_ok m st s" "sent_ok sent st c" and act: "active_ok sent (set (key # fs)) st c s" and q: "queue_ok pubs st s"
    and ended: "never_fails send \<longrightarrow> ended_ok sent st c s" using Cons.prems(1) by (simp_all add: sender_inv_def)
  obtain out where out: "map_of (sn_active s) key = Some out" using Cons.prems(3) mem_keys_iff [of key "sn_active s"] by auto
  let ?stats = "(sn_stats s)\<lparr>ss_completed := ss_completed (sn_stats s) + of_bool (ou_offset out = length (ou_data out))\<rparr>"
  let ?s = "s\<lparr>sn_active := AList.delete key (sn_active s), sn_stats := ?stats\<rparr>"
  have sorted: "sorted_keys (AList.delete key (sn_active s))"
    using queue_okD(1) [OF q] by (simp add: delete_eq_filter sorted_wrt_filter)
  have act1: "active_ok sent (set fs) st c ?s" using act by (auto simp: active_ok_def)
  have ended1: "ended_ok sent st c ?s" if nf: "never_fails send"
  proof -
    have whole: "snd (sent c (ou_stream_id out))"
      using act [unfolded active_ok_def, rule_format, OF out] Cons.prems(4) [OF nf _ out] by (simp add: sent_upto_def)
    show ?thesis using ended nf whole out unfolding ended_ok_def by fastforce
  qed
  have rest: "\<exists>st' c' s'. finish_objects prio c1 fs s1 = (c', s') \<and> sender_inv send sent m pubs {} st' c' s'"
    if inv: "sender_inv send sent m pubs (set fs) st1 c1 s1"
      and a: "\<And>k. k \<noteq> key \<Longrightarrow> map_of (sn_active s1) k = map_of (sn_active s) k" for st1 c1 s1
  proof (rule Cons.IH [OF inv])
    show "distinct fs" using Cons.prems(2) by simp
    have a': "map_of (sn_active s1) k = map_of (sn_active s) k" if "k \<in> set fs" for k
      using a [of k] that Cons.prems(2) by auto
    show "set fs \<subseteq> set (keys (sn_active s1))" using a' Cons.prems(3) unfolding subset_iff mem_keys_iff by simp
    fix k o' assume "never_fails send" "k \<in> set fs" "map_of (sn_active s1) k = Some o'"
    then show "ou_offset o' = length (ou_data o')" using a' Cons.prems(4) [of k o'] by simp
  qed
  show ?case
  proof (cases "map_of (sn_waiting s) key")
    case None
    have "map_of (sn_active ?s) k \<noteq> None \<and> map_of (sn_waiting ?s) k \<noteq> Some []" if "map_of (sn_waiting ?s) k \<noteq> None" for k
      using that None queue_okD(3) [OF q, of k] by auto
    moreover have "waiting_for ?s k = waiting_for s k" for k by (simp add: waiting_for_def)
    ultimately have "queue_ok pubs st ?s" using queue_okD(2,4) [OF q] sorted unfolding queue_ok_def by simp
    then have "sender_inv send sent m pubs (set fs) st c ?s"
      using ids act1 ended1 by (auto simp: sender_inv_def ids_ok_def)
    from rest [OF this] show ?thesis by (simp add: out None Let_def)
  next
    case (Some data)
    let ?w = "?s\<lparr>sn_waiting := AList.delete key (sn_waiting s)\<rparr>"
    obtain c1 s1 where start: "sender_start prio c key data ?w = (c1, s1)" by (rule prod.exhaust)
    obtain n where n: "unat (sn_next_stream_id s) = 4 * n + 3" "n + length (sn_waiting s) \<le> m" using ids(1) by (auto simp: ids_ok_def)
    have "length (sn_waiting s) = Suc (length (AList.delete key (sn_waiting s)))"
      using Some sorted_keys_wf [OF queue_okD(2) [OF q]] by (rule length_delete_Some)
    then have m1: "n + length (AList.delete key (sn_waiting s)) \<le> m - 1" "0 < m" using n by simp_all
    have "sender_inv send sent (Suc (m - 1)) pubs (set fs) (st @ [(sn_next_stream_id ?w, key, data)]) c1 s1"
    proof (rule sender_inv_start [OF laws _ _ _ _ _ _ _ _ _ _ _ start])
      show "ids_ok (m - 1) st ?w" using ids(1) n m1 by (auto simp: ids_ok_def)
      show "sent_ok sent st c" "active_ok sent (set fs) st c ?w" "never_fails send \<longrightarrow> ended_ok sent st c ?w"
        using ids act1 ended1 by (simp_all add: active_ok_def ended_ok_def)
      show "sorted_keys (sn_active ?w)" using sorted by simp
      show "sorted_keys (sn_waiting ?w)" using queue_okD(2) [OF q] by (simp add: delete_eq_filter sorted_wrt_filter)
      show "map_of (sn_waiting ?w) k \<noteq> None \<Longrightarrow> map_of (sn_active ?w) k \<noteq> None \<and> map_of (sn_waiting ?w) k \<noteq> Some []" for k
        using queue_okD(3) [OF q, of k] by (auto split: if_splits)
      show "data \<noteq> []" using queue_okD(3) [OF q, of key] Some by auto
      show "subseq (started k st @ (if k = key then [data] else waiting_for ?w k)) (pubs k)
          \<and> (pubs k \<noteq> [] \<longrightarrow> started k st @ (if k = key then [data] else waiting_for ?w k) \<noteq> []
               \<and> last (started k st @ (if k = key then [data] else waiting_for ?w k)) = last (pubs k))" for k
        using queue_okD(4) [OF q, of k] Some by (auto simp: waiting_for_def)
    qed (use m m1 in \<open>simp_all\<close>)
    then have inv1: "sender_inv send sent m pubs (set fs) (st @ [(sn_next_stream_id ?w, key, data)]) c1 s1" using m1 by simp
    have "map_of (sn_active s1) k = map_of (sn_active s) k" if "k \<noteq> key" for k
      using start that sorted by (auto simp: sender_start_def allocate_stream_def)
    from rest [OF inv1 this] start show ?thesis by (simp add: out Some Let_def)
  qed
qed (auto simp: sender_inv_def)

lemma pumped_keys: "list_all2 (pumped send sent c F) act act' \<Longrightarrow> keys act' = keys act"
  by (induction rule: list_all2_induct) (auto simp: pumped_def)

lemma pumped_map_of:
  "list_all2 (pumped send sent c F) act act' \<Longrightarrow>
    rel_option (\<lambda>out out'. pumped send sent c F (k, out) (k, out')) (map_of act k) (map_of act' k)"
proof (induction rule: list_all2_induct)
  case (Cons kv act kv' act')
  obtain k1 o1 k2 o2 where kv: "kv = (k1, o1)" "kv' = (k2, o2)" by (cases kv; cases kv')
  have "k2 = k1" using Cons(1) by (simp add: kv pumped_def)
  with Cons show ?case by (simp add: kv)
qed simp

lemma sender_inv_pump:
  assumes laws: "quiche_laws send prio sent" and inv: "sender_inv send sent m pubs {} st c s" and m: "m < 2 ^ 61"
  shows "\<exists>c' s' w st'. bulk_pump send prio c budget s = Some (c', s', w) \<and> sender_inv send sent m pubs {} st' c' s'
    \<and> (\<forall>b. budget = Some b \<longrightarrow> w \<le> b)"
proof -
  let ?act = "sn_active s" and ?left = "case budget of None \<Rightarrow> 2 ^ 64 - 1 | Some b \<Rightarrow> b"
  have ids: "ids_ok m st s" "sent_ok sent st c" and act: "active_ok sent {} st c s" and q: "queue_ok pubs st s"
    and ended: "never_fails send \<longrightarrow> ended_ok sent st c s" using inv by (simp_all add: sender_inv_def)
  have wf: "wf_amap ?act" by (rule sorted_keys_wf [OF queue_okD(1) [OF q]])
  have dst: "distinct (List.map fst st)" using ids(1) by (simp add: ids_ok_def)
  have entry: "(ou_stream_id out, k, ou_data out) \<in> set st \<and> sending sent c out" if "map_of ?act k = Some out" for k out
    using act that unfolding active_ok_def sending_iff by blast
  have entry': "(ou_stream_id (snd e), fst e, ou_data (snd e)) \<in> set st \<and> sending sent c (snd e)" if "e \<in> set ?act" for e
    using entry [of "fst e" "snd e"] that wf by (simp add: map_of_eq_Some_iff)
  have all: "list_all (\<lambda>e. sending sent c (snd e)) ?act" using entry' by (simp add: list_all_iff)
  have dist: "distinct (stream_ids ?act)"
    unfolding distinct_map
  proof
    show "distinct ?act" using wf by (simp add: distinct_map)
    show "inj_on (\<lambda>e. ou_stream_id (snd e)) (set ?act)"
    proof (rule inj_onI)
      fix a b assume ab: "a \<in> set ?act" "b \<in> set ?act" "ou_stream_id (snd a) = ou_stream_id (snd b)"
      then have "fst a = fst b" using entry' [OF ab(1)] entry' [OF ab(2)] eq_key_imp_eq_value [OF dst] by (metis fst_conv)
      then show "a = b" using ab(1,2) wf by (metis eq_key_imp_eq_value prod.collapse)
    qed
  qed
  obtain c' act' w fs where po: "pump_objects send prio c ?act ?left 0 = Some (c', act', w, fs)"
    and pd: "list_all2 (pumped send sent c' (set fs)) ?act act'" and fs: "set fs \<subseteq> set (keys ?act)" "distinct fs"
    and oth: "\<And>i. i \<notin> set (stream_ids ?act) \<Longrightarrow> sent c' i = sent c i" and w: "w \<le> ?left + 0"
    using pump_objects_spec [OF laws all dist wf, of ?left 0] by blast
  note keys' = pumped_keys [OF pd] and rel = pumped_map_of [OF pd]
  have some: "\<exists>out'. map_of act' k = Some out' \<and> pumped send sent c' (set fs) (k, out) (k, out')" if "map_of ?act k = Some out" for k out
    using rel [of k] that by (auto simp: option_rel_Some1)
  have some': "\<exists>out. map_of ?act k = Some out \<and> pumped send sent c' (set fs) (k, out) (k, out')" if "map_of act' k = Some out'" for k out'
    using rel [of k] that by (auto simp: option_rel_Some2)
  have stream: "\<exists>out. map_of ?act (fst (snd e)) = Some out \<and> ou_stream_id out = fst e \<and> ou_data out = snd (snd e)"
    if e: "e \<in> set st" "fst e \<in> set (stream_ids ?act)" for e
  proof -
    obtain a where a: "a \<in> set ?act" "ou_stream_id (snd a) = fst e" using e(2) by auto
    then have "(fst e, fst a, ou_data (snd a)) = e" using entry' [OF a(1)] e(1) eq_key_imp_eq_value [OF dst]
      by (metis prod.collapse)
    then have "fst (snd e) = fst a" "snd (snd e) = ou_data (snd a)" by (metis fst_conv snd_conv)+
    then show ?thesis using a wf by (intro exI [of _ "snd a"]) simp
  qed
  let ?s = "s\<lparr>sn_active := act'\<rparr>"
  have sent': "sent_ok sent st c'"
  proof -
    have "snd (snd e) \<noteq> [] \<and> (\<exists>n \<le> length (snd (snd e)). sent c' (fst e) = (take n (snd (snd e)), n = length (snd (snd e))))"
      if e: "e \<in> set st" for e
    proof (cases "fst e \<in> set (stream_ids ?act)")
      case True
      from stream [OF e True] obtain out where o: "map_of ?act (fst (snd e)) = Some out" "ou_stream_id out = fst e" "ou_data out = snd (snd e)" by blast
      from some [OF o(1)] obtain out' where o': "sent_upto sent c' out'" "ou_stream_id out' = fst e" "ou_data out' = snd (snd e)"
        using o(2,3) by (auto simp: pumped_def)
      then have "sent c' (fst e) = (take (ou_offset out') (snd (snd e)), ou_offset out' = length (snd (snd e)))"
        "ou_offset out' \<le> length (snd (snd e))" by (simp_all add: sent_upto_def)
      moreover have "snd (snd e) \<noteq> []" using ids(2) e by (simp add: sent_ok_def)
      ultimately show ?thesis by blast
    next
      case False
      then show ?thesis using ids(2) e oth by (simp add: sent_ok_def)
    qed
    moreover have "sent c' i = ([], False)" if "i \<notin> fst ` set st" for i
    proof -
      have "i \<notin> set (stream_ids ?act)" using that entry' by force
      then show ?thesis using oth ids(2) that by (simp add: sent_ok_def)
    qed
    ultimately show ?thesis by (simp add: sent_ok_def)
  qed
  have act1: "active_ok sent (set fs) st c' ?s"
    unfolding active_ok_def
  proof (intro allI impI)
    fix k out' assume "map_of (sn_active ?s) k = Some out'"
    then obtain out where o: "map_of ?act k = Some out" "pumped send sent c' (set fs) (k, out) (k, out')"
      using some' [of k out'] by auto
    then show "(ou_stream_id out', k, ou_data out') \<in> set st \<and> sent_upto sent c' out'
        \<and> (k \<notin> set fs \<longrightarrow> ou_offset out' < length (ou_data out'))"
      using entry [OF o(1)] by (auto simp: pumped_def)
  qed
  have ended1: "ended_ok sent st c' ?s" if nf: "never_fails send"
    unfolding ended_ok_def
  proof
    fix e assume e: "e \<in> set st"
    show "snd (sent c' (fst e)) \<or> (\<exists>out. map_of (sn_active ?s) (fst (snd e)) = Some out \<and> ou_stream_id out = fst e)"
    proof (cases "fst e \<in> set (stream_ids ?act)")
      case True
      from stream [OF e True] some show ?thesis by (fastforce simp: pumped_def)
    next
      case False
      have "\<not> (\<exists>out. map_of ?act (fst (snd e)) = Some out \<and> ou_stream_id out = fst e)"
        using False by (force dest!: map_of_SomeD)
      then have "snd (sent c (fst e))" using ended nf e unfolding ended_ok_def by blast
      then show ?thesis using oth [OF False] by simp
    qed
  qed
  have "queue_ok pubs st ?s"
  proof -
    have "map_of act' k \<noteq> None" if "map_of ?act k \<noteq> None" for k
      using some [of k] that by auto
    moreover have "waiting_for ?s k = waiting_for s k" for k by (simp add: waiting_for_def)
    ultimately show ?thesis using queue_okD [OF q] keys' unfolding queue_ok_def by simp
  qed
  then have inv1: "sender_inv send sent m pubs (set fs) st c' ?s"
    using ids(1) sent' act1 ended1 by (simp add: sender_inv_def ids_ok_def)
  have "\<exists>st' c'' s'. finish_objects prio c' fs ?s = (c'', s') \<and> sender_inv send sent m pubs {} st' c'' s'"
  proof (rule sender_inv_finish [OF laws m inv1 fs(2)])
    show "set fs \<subseteq> set (keys (sn_active ?s))" using fs(1) keys' by simp
    fix k out assume "never_fails send" "k \<in> set fs" "map_of (sn_active ?s) k = Some out"
    then show "ou_offset out = length (ou_data out)" using some' [of k out] by (auto simp: pumped_def)
  qed
  then obtain st' c'' s' where "finish_objects prio c' fs ?s = (c'', s')" "sender_inv send sent m pubs {} st' c'' s'" by blast
  then have "bulk_pump send prio c budget s = Some (c'', s', w)" "sender_inv send sent m pubs {} st' c'' s'"
    using po by (simp_all add: bulk_pump_def Let_def)
  moreover have "w \<le> b" if "budget = Some b" for b using w that by simp
  ultimately show ?thesis by blast
qed

lemma published_Cons:
  "published k (Publish h payload # es) =
    (if (kind_to_u8 (bh_kind h), bh_source_id h) = k then [bulk_header_encode h @ payload] else []) @ published k es"
  "published k (Pump b # es) = published k es" "published k (Allocate # es) = published k es" "published k [] = []"
  by (simp_all add: published_def)

lemma sender_inv_allocate:
  assumes inv: "sender_inv send sent m pubs {} st c s" and m: "Suc m < 2 ^ 61"
  shows "sender_inv send sent (Suc m) pubs {} st c (fst (allocate_stream s))"
proof -
  let ?id = "sn_next_stream_id s"
  have ids: "ids_ok m st s" using inv by (simp add: sender_inv_def)
  then obtain n where n: "unat ?id = 4 * n + 3" "n + length (sn_waiting s) \<le> m" by (auto simp: ids_ok_def)
  have "unat ?id + unat (4 :: u64) < 2 ^ 64" using n m by simp
  then have next_id: "unat (?id + 4) = unat ?id + 4" using iffD1 [OF unat_add_lem, of ?id 4] by simp
  then have "?id < ?id + 4" by (simp add: word_less_nat_alt)
  then have "\<forall>e \<in> set st. fst e < ?id + 4" using ids by (auto simp: ids_ok_def intro: less_trans)
  then have "ids_ok (Suc m) st (fst (allocate_stream s))"
    using ids n next_id unfolding ids_ok_def allocate_stream_def by (intro conjI exI [of _ "Suc n"]) simp_all
  then show ?thesis using inv
    by (simp add: sender_inv_def allocate_stream_def active_ok_def ended_ok_def queue_ok_def waiting_for_def)
qed

lemma sender_inv_run:
  assumes laws: "quiche_laws send prio sent"
  shows "sender_inv send sent m pubs {} st c s \<Longrightarrow> m + length es < 2 ^ 61 \<Longrightarrow>
    \<exists>c' s' st'. bulk_run send prio c s es = Some (c', s')
      \<and> sender_inv send sent (m + length es) (\<lambda>k. pubs k @ published k es) {} st' c' s'"
proof (induction es arbitrary: m pubs st c s)
  case Nil
  then show ?case by (auto simp: published_Cons)
next
  case (Cons e es)
  have m: "Suc m < 2 ^ 61" "m < 2 ^ 61" using Cons.prems(2) by simp_all
  show ?case
  proof (cases e)
    case (Publish h payload)
    obtain c1 s1 where pub: "bulk_publish prio c h payload s = (c1, s1)" by (rule prod.exhaust)
    let ?pubs = "pubs((kind_to_u8 (bh_kind h), bh_source_id h) := pubs (kind_to_u8 (bh_kind h), bh_source_id h) @ [bulk_header_encode h @ payload])"
    obtain st1 where "sender_inv send sent (Suc m) ?pubs {} st1 c1 s1"
      using sender_inv_publish [OF laws Cons.prems(1) m(1) pub] by blast
    from Cons.IH [OF this] Cons.prems(2) obtain c' s' st' where
      r: "bulk_run send prio c1 s1 es = Some (c', s')" "sender_inv send sent (Suc m + length es) (\<lambda>k. ?pubs k @ published k es) {} st' c' s'"
      by auto
    have "(\<lambda>k. ?pubs k @ published k es) = (\<lambda>k. pubs k @ published k (e # es))"
      by (simp add: fun_eq_iff Publish published_Cons)
    then show ?thesis using r pub by (auto simp: Publish)
  next
    case (Pump budget)
    obtain c1 s1 w st1 where p: "bulk_pump send prio c budget s = Some (c1, s1, w)" "sender_inv send sent m pubs {} st1 c1 s1"
      using sender_inv_pump [OF laws Cons.prems(1) m(2), of budget] by blast
    have "sender_inv send sent (Suc m) pubs {} st1 c1 s1" by (rule sender_inv_mono [OF p(2)]) simp
    from Cons.IH [OF this] Cons.prems(2) p(1) show ?thesis by (auto simp: Pump published_Cons)
  next
    case Allocate
    from Cons.IH [OF sender_inv_allocate [OF Cons.prems(1) m(1)]] Cons.prems(2)
    show ?thesis by (auto simp: Allocate published_Cons)
  qed
qed

text \<open>C31: the bulk sender sends whole objects.  Over a connection that accepts a prefix of what it is
  offered, any sequence of publishing, pumping with any budgets and handing out stream ids never panics;
  each stream is used for one object, and carries a prefix of one published version, ended exactly when
  all of it was accepted; other streams are untouched; the versions that were started, and the one that
  waits, are some of the published ones in their order, the newest published always among them; and if
  the connection never fails, a version that was started is either still being sent or was sent whole:
  none is abandoned for a newer one.\<close>

theorem bulk_sender_sends_whole_objects:
  assumes "quiche_laws send prio sent" and "\<forall>sid. sent c sid = ([], False)" and "length es < 2 ^ 61"
  shows "\<exists>c' s st. bulk_run send prio c bulk_sender_new es = Some (c', s) \<and> distinct (List.map fst st)
    \<and> (\<forall>e \<in> set st. \<exists>n \<le> length (snd (snd e)). sent c' (fst e) = (take n (snd (snd e)), n = length (snd (snd e))))
    \<and> (\<forall>sid. sid \<notin> fst ` set st \<longrightarrow> sent c' sid = ([], False))
    \<and> (\<forall>k. subseq (started k st @ waiting_for s k) (published k es)
        \<and> (published k es \<noteq> [] \<longrightarrow> started k st @ waiting_for s k \<noteq> []
            \<and> last (started k st @ waiting_for s k) = last (published k es)))
    \<and> (never_fails send \<longrightarrow> (\<forall>e \<in> set st. snd (sent c' (fst e))
        \<or> (\<exists>out. map_of (sn_active s) (fst (snd e)) = Some out \<and> ou_stream_id out = fst e)))"
proof -
  have "sender_inv send sent 0 (\<lambda>_. []) {} [] c bulk_sender_new" by (rule sender_inv_new) (simp add: assms(2))
  from sender_inv_run [OF assms(1) this, of es] assms(3) obtain c' s st where
    r: "bulk_run send prio c bulk_sender_new es = Some (c', s)"
    and inv: "sender_inv send sent (length es) (\<lambda>k. published k es) {} st c' s" by auto
  have "ids_ok (length es) st s" "sent_ok sent st c'" "queue_ok (\<lambda>k. published k es) st s"
    "never_fails send \<longrightarrow> ended_ok sent st c' s" using inv by (simp_all add: sender_inv_def)
  with r show ?thesis unfolding ids_ok_def sent_ok_def queue_ok_def ended_ok_def
    by (intro exI [of _ c'] exI [of _ s] exI [of _ st] conjI) blast+
qed

text \<open>A connection that takes at most twenty bytes at a time.\<close>

definition slow_send :: "(u64 \<Rightarrow> bytes \<times> bool) stream_send" where
  "slow_send c sid d fin = (let n = min 20 (length d)
     in (c(sid := (fst (c sid) @ take n d, fin \<and> n = length d)), Inr n))"

definition slow_prio :: "(u64 \<Rightarrow> bytes \<times> bool) stream_priority" where "slow_prio c sid u i = c"

definition slow_sent :: "(u64 \<Rightarrow> bytes \<times> bool) \<Rightarrow> u64 \<Rightarrow> bytes \<times> bool" where "slow_sent c sid = c sid"

definition map_version :: "u32 \<Rightarrow> bulk_event" where
  "map_version v = Publish \<lparr>bh_kind = OccupancyGridKind, bh_source_id = 0, bh_encoding = 1, bh_version = v, bh_length = 3,
     bh_capture_time_us = 0\<rparr> [1, 2, 3]"

definition map_run :: "bulk_event list" where
  "map_run = [map_version 1, Pump (Some 5), map_version 2, map_version 3, Pump None, Pump None, Pump None]"

theorem bulk_sender_sends_whole_objects_witness:
  "quiche_laws slow_send slow_prio slow_sent \<and>
    (\<exists>c s st. bulk_run slow_send slow_prio (\<lambda>_. ([], False)) bulk_sender_new map_run = Some (c, s)
      \<and> sn_stats s = \<lparr>ss_published = 3, ss_completed = 1, ss_superseded = 1\<rparr>
      \<and> subseq (started (1, 0) st @ waiting_for s (1, 0)) (published (1, 0) map_run))"
proof -
  have laws: "quiche_laws slow_send slow_prio slow_sent"
    by (auto simp: quiche_laws_def slow_send_def slow_prio_def slow_sent_def Let_def fun_eq_iff)
  have len: "length map_run < 2 ^ 61" by (simp add: map_run_def)
  have "\<forall>sid. slow_sent (\<lambda>_. ([], False)) sid = ([], False)" by (simp add: slow_sent_def)
  note sends = bulk_sender_sends_whole_objects [where sent = slow_sent and c = "\<lambda>_. ([], False)", OF laws this len]
  have "map_option (\<lambda>(_, s). sn_stats s) (bulk_run slow_send slow_prio (\<lambda>_. ([], False)) bulk_sender_new map_run)
    = Some \<lparr>ss_published = 3, ss_completed = 1, ss_superseded = 1\<rparr>" by code_simp
  with laws sends show ?thesis by fastforce
qed

section \<open>Occupancy grids\<close>

text \<open>A grid with the cells its dimensions announce is read back from its bytes.\<close>

lemma grid_decode_encode:
  assumes "length (og_cells g) = unat (og_width g) * unat (og_height g)"
  shows "grid_decode (grid_encode g) = Some g"
proof -
  have "unat (og_width g) * unat (og_height g) < 2 ^ 64"
    using mult_strict_mono [of "unat (og_width g)" "2 ^ 32" "unat (og_height g)" "2 ^ 32"]
      unsigned_less [of "og_width g"] unsigned_less [of "og_height g"] by simp
  then have "(word_of_nat (length (og_cells g)) :: u64) = ucast (og_width g) * ucast (og_height g)"
    unfolding assms by (simp add: word_unat_eq_iff unat_word_ariths unat_of_nat unsigned_ucast_eq take_bit_nat_eq_self)
  moreover have "get_range 0 OCCUPANCY_GRID_HEADER_LEN (grid_encode g) = Some (take 20 (grid_encode g))"
    by (simp add: get_range_def grid_encode_def OCCUPANCY_GRID_HEADER_LEN_def slice_def)
  ultimately show ?thesis
    by (simp add: grid_decode_def Let_def grid_encode_def OCCUPANCY_GRID_HEADER_LEN_def slice_def)
qed

end
