(* ===== verification/Channel_B.thy ===== *)
theory Channel_B
  imports Profile Sensor
begin

text \<open>Channel B on the robot (robot-edge's \<open>channel_b.rs\<close>): the teleoperation command, which is the
  velocity/attitude block followed by the arm's Cartesian block, and the telemetry record; and the
  benchmark payloads of \<open>bench.rs\<close>, which travel on the same channel.  The FlatBuffers frame around
  the fields is generated code; a decoder that uses it takes it as a parameter.  An \<open>f32\<close> field is
  its bit pattern.\<close>

datatype ChannelBCategory = CatCommand | CatTelemetry | CatHaptic

record ChannelBFrameData =
  cb_timestamp :: u64
  cb_seq :: u64
  cb_tick_id :: u32
  cb_category :: ChannelBCategory
  cb_region_id :: u8
  cb_fields :: bytes

definition ALL_REGIONS :: u8 where "ALL_REGIONS = 0xFF"

section \<open>Commands\<close>

record TeleopCommand =
  tc_vx :: u32
  tc_vy :: u32
  tc_turn :: u32
  tc_attitude_r :: u32
  tc_attitude_p :: u32
  tc_attitude_y :: u32
  tc_arm_x :: i16
  tc_arm_z :: i16
  tc_claw :: u8

definition VELOCITY_ATTITUDE_STANDARD_LEN :: nat where "VELOCITY_ATTITUDE_STANDARD_LEN = 12"
definition CARTESIAN_STANDARD_LEN :: nat where "CARTESIAN_STANDARD_LEN = 8"

definition tc_velocity_attitude :: "TeleopCommand \<Rightarrow> VelocityAttitudeCommand" where
  "tc_velocity_attitude c =
     \<lparr>va_vx = tc_vx c, va_vy = tc_vy c, va_turn = tc_turn c, va_roll = tc_attitude_r c,
      va_pitch = tc_attitude_p c, va_yaw = tc_attitude_y c\<rparr>"

text \<open>The casts \<open>i16 as f32\<close> and \<open>f32 as i16\<close>, the second saturating.\<close>

definition i16_as_f32 :: "i16 \<Rightarrow> u32" where
  "i16_as_f32 w = f32_to_bits (fof_int B32 (sint w))"

definition f32_as_i16 :: "u32 \<Rightarrow> i16" where
  "f32_as_i16 v = word_of_int (fto_int (-32768) 32767 (f32_of_bits v))"

definition tc_arm :: "TeleopCommand \<Rightarrow> CartesianCommand" where
  "tc_arm c =
     \<lparr>ca_x = i16_as_f32 (tc_arm_x c), ca_y = f32_to_bits (Fin 0), ca_z = i16_as_f32 (tc_arm_z c),
      ca_gripper = tc_claw c\<rparr>"

definition tc_pack :: "TeleopCommand \<Rightarrow> bytes" where
  "tc_pack c = va_pack_standard (tc_velocity_attitude c) @ ca_pack_standard (tc_arm c)"

definition tc_unpack :: "bytes \<Rightarrow> TeleopCommand option" where
  "tc_unpack bs =
     Option.bind (Option.bind (get_range 0 VELOCITY_ATTITUDE_STANDARD_LEN bs) va_unpack_standard) (\<lambda>va.
     Option.bind (Option.bind
         (get_range VELOCITY_ATTITUDE_STANDARD_LEN
            (VELOCITY_ATTITUDE_STANDARD_LEN + CARTESIAN_STANDARD_LEN) bs) ca_unpack_standard) (\<lambda>arm.
     Some \<lparr>tc_vx = va_vx va, tc_vy = va_vy va, tc_turn = va_turn va, tc_attitude_r = va_roll va,
           tc_attitude_p = va_pitch va, tc_attitude_y = va_yaw va, tc_arm_x = f32_as_i16 (ca_x arm),
           tc_arm_z = f32_as_i16 (ca_z arm), tc_claw = ca_gripper arm\<rparr>))"

section \<open>Telemetry\<close>

record TelemetryData =
  td_battery :: u8
  td_roll :: u32
  td_pitch :: u32
  td_yaw :: u32
  td_motors :: "u32 list"

definition TELEMETRY_HEADER_LEN :: nat where "TELEMETRY_HEADER_LEN = 7"

text \<open>\<open>((v * 100.0).round() as i16).to_be_bytes()\<close> and its inverse.\<close>

definition angle_pack :: "u32 \<Rightarrow> bytes" where
  "angle_pack v =
     be16 (word_of_int (fto_int (-32768) 32767 (fround (fmul B32 (f32_of_bits v) (Fin 100)))))"

definition angle_unpack :: "bytes \<Rightarrow> u32" where
  "angle_unpack bs = f32_to_bits (fdiv B32 (fof_int B32 (sint (of_be16 bs))) (Fin 100))"

definition telemetry_pack :: "TelemetryData \<Rightarrow> bytes" where
  "telemetry_pack t =
     td_battery t # angle_pack (td_roll t) @ angle_pack (td_pitch t) @ angle_pack (td_yaw t)
       @ concat (List.map angle_pack (td_motors t))"

definition telemetry_unpack :: "bytes \<Rightarrow> TelemetryData option" where
  "telemetry_unpack bs =
     (if length bs < TELEMETRY_HEADER_LEN \<or> (length bs - TELEMETRY_HEADER_LEN) mod 2 \<noteq> 0 then None
      else Some
        \<lparr>td_battery = bs ! 0, td_roll = angle_unpack (slice 1 3 bs),
         td_pitch = angle_unpack (slice 3 5 bs), td_yaw = angle_unpack (slice 5 7 bs),
         td_motors = List.map angle_unpack (chunks_exact 2 (drop TELEMETRY_HEADER_LEN bs))\<rparr>)"

section \<open>Benchmark payloads\<close>

definition BENCH_ECHO_TICK_ID :: u32 where "BENCH_ECHO_TICK_ID = 0xEC40EC40"

datatype BenchMode = BenchEcho | BenchCount | BenchSend

definition bench_mode_parse :: "string \<Rightarrow> BenchMode option" where
  "bench_mode_parse s =
     (if s = ''echo'' then Some BenchEcho
      else if s = ''count'' then Some BenchCount
      else if s = ''send'' then Some BenchSend else None)"

definition RAW_HEADER_LEN :: nat where "RAW_HEADER_LEN = 16"
definition BENCH_SLICE_THRESHOLD :: nat where "BENCH_SLICE_THRESHOLD = DEFAULT_SLICE_PAYLOAD"
definition BENCH_SENSOR_ID :: u8 where "BENCH_SENSOR_ID = 0xFE"
definition BENCH_ELEMENT_SIZE :: nat where "BENCH_ELEMENT_SIZE = 64"

text \<open>\<open>now\<close> is the bit pattern of the system clock's reading, an \<open>f64\<close> of seconds.\<close>

definition raw_payload :: "u64 \<Rightarrow> nat \<Rightarrow> u64 \<Rightarrow> bytes" where
  "raw_payload seq payload_bytes now =
     be64 seq @ be64 now @ replicate (max payload_bytes RAW_HEADER_LEN - RAW_HEADER_LEN) 0"

definition next_multiple_of :: "nat \<Rightarrow> nat \<Rightarrow> nat" where
  "next_multiple_of n m = div_ceil n m * m"

definition sliced_payload :: "u64 \<Rightarrow> nat \<Rightarrow> u64 \<Rightarrow> bytes" where
  "sliced_payload seq payload_bytes now =
     (let out = raw_payload seq payload_bytes now
      in out @ replicate (next_multiple_of (length out) BENCH_ELEMENT_SIZE - length out) 0)"

section \<open>Commands on the wire\<close>

lemma field_bytes_Standard: "field_bytes Standard = 2"
  by (simp add: field_bytes_def)

lemma length_tc_pack: "length (tc_pack c) = 20"
  by (simp add: tc_pack_def va_pack_standard_def ca_pack_standard_def length_va_pack length_ca_pack
      field_bytes_Standard)

lemma i16_as_f32_exact: "i16_as_f32 w = f32_to_bits (fdiv B32 (fof_int B32 (sint w)) (Fin 1))"
proof -
  have "fof_int B32 (sint w) = Fin (of_int (sint w))"
    using sint16_bounds [of w] fround_to_of_int [of "sint w" B32] by (simp add: fof_int_def)
  then show ?thesis
    using sint16_bounds [of w] fround_to_of_int [of "sint w" B32] by (simp add: i16_as_f32_def)
qed

lemma i16_stable:
  "unpack_scaled (pack_scaled (i16_as_f32 w) (Fin 1) Standard) (Fin 1) Standard = Some (i16_as_f32 w)"
proof -
  have "quantize (-32768) 32767 (i16_as_f32 w) (Fin 1) = sint w"
    unfolding i16_as_f32_exact
    by (rule quantize_reads_back) (use sint16_bounds [of w] in \<open>simp_all add: scale_ok_def\<close>)
  then show ?thesis by (simp add: i16_as_f32_exact)
qed

lemma f32_as_i16_as_f32: "f32_as_i16 (i16_as_f32 w) = w"
proof -
  define n where "n = sint w"
  have w: "word_of_int n = w" by (simp add: n_def)
  have b: "-32768 \<le> n" "n \<le> 32767" using sint16_bounds [of w] by (simp_all add: n_def)
  have f: "fof_int B32 n = Fin (of_int n)" using b fround_to_of_int [of n B32] unfolding fof_int_def by simp
  have "f32_of_bits (f32_to_bits (Fin (of_int n * p2 0))) = Fin (of_int n * p2 0)"
    using b by (intro f32_of_to_bits_exact) simp_all
  then have "f32_as_i16 (i16_as_f32 w) = word_of_int n" using b f
    by (simp add: f32_as_i16_def i16_as_f32_def n_def [symmetric] trunc_rat_def del: f32_to_bits.simps)
  then show ?thesis using w by simp
qed

lemma zero_stable:
  "unpack_scaled (pack_scaled (f32_to_bits (Fin 0)) (Fin 1) Standard) (Fin 1) Standard = Some (f32_to_bits (Fin 0))"
  using i16_stable [of 0] by (simp add: i16_as_f32_def fof_int_def fround_to_def)

lemma tc_unpack_append:
  assumes "length va = 12" and "length ca = 8"
  shows "tc_unpack (va @ ca @ rest) =
     Option.bind (va_unpack va Standard) (\<lambda>va. Option.bind (ca_unpack ca Standard) (\<lambda>arm.
     Some \<lparr>tc_vx = va_vx va, tc_vy = va_vy va, tc_turn = va_turn va, tc_attitude_r = va_roll va,
           tc_attitude_p = va_pitch va, tc_attitude_y = va_yaw va, tc_arm_x = f32_as_i16 (ca_x arm),
           tc_arm_z = f32_as_i16 (ca_z arm), tc_claw = ca_gripper arm\<rparr>))"
  using assms by (simp add: tc_unpack_def get_range_def slice_def va_unpack_standard_def ca_unpack_standard_def
      VELOCITY_ATTITUDE_STANDARD_LEN_def CARTESIAN_STANDARD_LEN_def)

lemma tc_unpack_None: "tc_unpack bs = None \<longleftrightarrow> length bs < 20"
proof (cases "length bs < 20")
  case True
  then show ?thesis
    by (auto simp: tc_unpack_def get_range_def VELOCITY_ATTITUDE_STANDARD_LEN_def CARTESIAN_STANDARD_LEN_def
        split: bind_splits)
next
  case False
  then have "bs = take 12 bs @ take 8 (drop 12 bs) @ drop 20 bs"
    using append_take_drop_id [of 8 "drop 12 bs"] append_take_drop_id [of 12 bs] by simp
  then show ?thesis using False
      tc_unpack_append [of "take 12 bs" "take 8 (drop 12 bs)" "drop 20 bs"]
    by (auto simp: va_unpack_None ca_unpack_None field_bytes_Standard split: bind_splits)
qed

lemma tc_pack_arrives:
  obtains va where "va_unpack (va_pack (tc_velocity_attitude c) Standard) Standard = Some va"
    and "tc_unpack (tc_pack c @ rest) = Some \<lparr>tc_vx = va_vx va, tc_vy = va_vy va, tc_turn = va_turn va,
      tc_attitude_r = va_roll va, tc_attitude_p = va_pitch va, tc_attitude_y = va_yaw va,
      tc_arm_x = tc_arm_x c, tc_arm_z = tc_arm_z c, tc_claw = tc_claw c\<rparr>"
proof -
  let ?va = "va_pack (tc_velocity_attitude c) Standard" and ?ca = "ca_pack (tc_arm c) Standard"
  have len: "length ?va = 12" "length ?ca = 8" by (simp_all add: length_va_pack length_ca_pack field_bytes_Standard)
  obtain va where va: "va_unpack ?va Standard = Some va"
    using velocity_attitude_unpack_total [of "tc_velocity_attitude c" Standard "[]"] by auto
  obtain k where k: "ca_unpack (?ca @ []) Standard = Some k"
    using ca_unpack_None [of ?ca Standard] len by (cases "ca_unpack ?ca Standard") (auto simp: field_bytes_Standard)
  have arm: "ca_x k = ca_x (tc_arm c)" "ca_z k = ca_z (tc_arm c)" "ca_gripper k = tc_claw c"
    using ca_unpack_pack [OF k] i16_stable zero_stable
    by (simp_all add: position_scale_def tc_arm_def unpack_pack_u8 del: pack_scaled.simps unpack_scaled.simps pack_u8.simps unpack_u8.simps)
  have "tc_unpack (tc_pack c @ rest) = Some \<lparr>tc_vx = va_vx va, tc_vy = va_vy va, tc_turn = va_turn va,
      tc_attitude_r = va_roll va, tc_attitude_p = va_pitch va, tc_attitude_y = va_yaw va,
      tc_arm_x = tc_arm_x c, tc_arm_z = tc_arm_z c, tc_claw = tc_claw c\<rparr>"
    using tc_unpack_append [OF len, of rest] va k arm
    by (simp add: tc_pack_def va_pack_standard_def ca_pack_standard_def tc_arm_def f32_as_i16_as_f32)
  with va that show ?thesis by blast
qed

text \<open>The teleoperation command.  It is always 20 bytes, and a buffer is refused exactly when it
  is shorter.  The arm's two 16-bit positions and the claw arrive exactly, whatever they are,
  although they travel through floats; the six velocity and attitude fields arrive as the two
  decimals the wire carries, so that sending what arrived again gives the same bytes.\<close>

theorem teleop_command_wire:
  "length (tc_pack c) = 20 \<and> (tc_unpack bs = None \<longleftrightarrow> length bs < 20)
   \<and> (\<exists>c'. tc_unpack (tc_pack c @ rest) = Some c'
       \<and> tc_arm_x c' = tc_arm_x c \<and> tc_arm_z c' = tc_arm_z c \<and> tc_claw c' = tc_claw c
       \<and> tc_pack c' = tc_pack c)"
proof (intro conjI)
  show "length (tc_pack c) = 20" by (rule length_tc_pack)
  show "tc_unpack bs = None \<longleftrightarrow> length bs < 20" by (rule tc_unpack_None)
  obtain va where va: "va_unpack (va_pack (tc_velocity_attitude c) Standard) Standard = Some va"
    and c': "tc_unpack (tc_pack c @ rest) = Some \<lparr>tc_vx = va_vx va, tc_vy = va_vy va, tc_turn = va_turn va,
      tc_attitude_r = va_roll va, tc_attitude_p = va_pitch va, tc_attitude_y = va_yaw va,
      tc_arm_x = tc_arm_x c, tc_arm_z = tc_arm_z c, tc_claw = tc_claw c\<rparr>" (is "_ = Some ?c'") by (rule tc_pack_arrives)
  have "tc_velocity_attitude ?c' = va" by (simp add: tc_velocity_attitude_def)
  then have "va_pack (tc_velocity_attitude ?c') Standard = va_pack (tc_velocity_attitude c) Standard"
    using va_pack_unpack [OF va] by (simp add: length_va_pack field_bytes_Standard)
  then have "tc_pack ?c' = tc_pack c" by (simp add: tc_pack_def va_pack_standard_def ca_pack_standard_def tc_arm_def)
  then show "\<exists>c'. tc_unpack (tc_pack c @ rest) = Some c'
       \<and> tc_arm_x c' = tc_arm_x c \<and> tc_arm_z c' = tc_arm_z c \<and> tc_claw c' = tc_claw c
       \<and> tc_pack c' = tc_pack c"
    using c' by (intro exI [of _ ?c']) simp
qed

section \<open>Telemetry on the wire\<close>

lemma length_angle_pack [simp]: "length (angle_pack v) = 2"
  by (simp add: angle_pack_def be16_def)

lemma length_telemetry_pack: "length (telemetry_pack t) = 7 + 2 * length (td_motors t)"
  by (simp add: telemetry_pack_def length_concat comp_def sum_list_triv)

text \<open>The saturating cast alone does what the codec of the command's fields does with its clamp.\<close>

lemma angle_pack_scaled: "angle_pack v = pack_scaled v (Fin 100) Standard"
proof -
  have c: "fof_int B32 (- 32768) = Fin (- 32768)" "fof_int B32 32767 = Fin 32767"
    using fround_to_of_int [of "-32768" B32] fround_to_of_int [of 32767 B32] by (simp_all add: fof_int_def)
  have "fto_int (-32768) 32767 (fround x) = fto_int (-32768) 32767 (fclamp (Fin (-32768)) (Fin 32767) (fround x))" for x
    by (cases x) (auto simp: fclamp_def trunc_rat_def)
  then show ?thesis by (simp add: angle_pack_def quantize_def c)
qed

lemma angle_unpack_scaled: "length bs = 2 \<Longrightarrow> unpack_scaled bs (Fin 100) Standard = Some (angle_unpack bs)"
  by (simp add: angle_unpack_def)

lemma angle_stable: "length bs = 2 \<Longrightarrow> angle_pack (angle_unpack bs) = bs"
  unfolding angle_pack_scaled
  by (rule pack_unpack_scaled [OF _ angle_unpack_scaled]) (simp_all add: field_bytes_Standard scale_ok_def)

text \<open>Telemetry read and sent again is the same bytes, and every buffer of the right shape is read.\<close>

lemma telemetry_stable:
  assumes "telemetry_unpack bs = Some t"
  shows "telemetry_pack t = bs"
proof -
  from assms have len: "7 \<le> length bs" "even (length bs - 7)"
    by (auto simp: telemetry_unpack_def TELEMETRY_HEADER_LEN_def split: if_splits)
  have parts: "concat (chunks_exact 2 (drop 7 bs)) = drop 7 bs"
    using len concat_chunks_exact [of 2 "drop 7 bs"] by auto
  have two: "\<forall>c \<in> set (chunks_exact 2 (drop 7 bs)). length c = 2" by (auto simp: chunks_exact_lengths)
  have "length (take 7 bs) = 7" using len(1) by simp
  then obtain a b c d e f g where h: "take 7 bs = [a, b, c, d, e, f, g]"
    by (auto simp: length_Suc_conv eval_nat_numeral simp del: length_take)
  have bs: "bs = [a, b, c, d, e, f, g] @ drop 7 bs" unfolding h [symmetric] by simp
  have read: "bs ! 0 = a" "slice 1 3 bs = [b, c]" "slice 3 5 bs = [d, e]" "slice 5 7 bs = [f, g]"
    by (subst bs, simp add: slice_def)+
  have t: "t = \<lparr>td_battery = a, td_roll = angle_unpack [b, c], td_pitch = angle_unpack [d, e],
      td_yaw = angle_unpack [f, g], td_motors = map angle_unpack (chunks_exact 2 (drop 7 bs))\<rparr>"
    using assms read len by (auto simp: telemetry_unpack_def TELEMETRY_HEADER_LEN_def)
  have "map (\<lambda>x. angle_pack (angle_unpack x)) (chunks_exact 2 (drop 7 bs)) = chunks_exact 2 (drop 7 bs)"
    using two by (simp add: angle_stable map_idI)
  then have "telemetry_pack t = [a, b, c, d, e, f, g] @ drop 7 bs"
    using parts by (simp add: t telemetry_pack_def angle_stable comp_def)
  with bs show ?thesis by simp
qed

end
