(* ===== verification/Robot_Model.thy ===== *)
theory Robot_Model
  imports Channel_B
begin

text \<open>The one robot robot-edge supports (\<open>xgo_profile.rs\<close>): the profile and the camera it describes to the
  console.  Limits are \<open>f32\<close> bit patterns of the degrees.\<close>

definition degrees :: "rat \<Rightarrow> u32" where
  "degrees x = f32_to_bits (Fin x)"

definition MAX_VELOCITY_DEG_S :: u32 where "MAX_VELOCITY_DEG_S = degrees 600"
definition LOWER_RANGE :: "u32 \<times> u32" where "LOWER_RANGE = (degrees (-65), degrees 73)"
definition MIDDLE_RANGE :: "u32 \<times> u32" where "MIDDLE_RANGE = (degrees (-66), degrees 93)"
definition UPPER_RANGE :: "u32 \<times> u32" where "UPPER_RANGE = (degrees (-31), degrees 31)"
definition ARM_REGION_ID :: u8 where "ARM_REGION_ID = 4"

definition name_of :: "string \<Rightarrow> bytes" where
  "name_of s = List.map (\<lambda>c. word_of_nat (of_char c)) s"

definition LEG_NAMES :: "bytes list" where
  "LEG_NAMES = List.map name_of [''leg_front_left'', ''leg_front_right'', ''leg_rear_right'', ''leg_rear_left'']"

definition joint_of :: "u8 \<Rightarrow> u32 \<times> u32 \<Rightarrow> JointDescriptor" where
  "joint_of region_id limits =
     \<lparr>jd_min_limit = fst limits, jd_max_limit = snd limits, jd_max_velocity = MAX_VELOCITY_DEG_S,
      jd_has_torque_sensing = False, jd_region_id = region_id\<rparr>"

definition leg_region :: "nat \<Rightarrow> BodyRegionDescriptor" where
  "leg_region i =
     \<lparr>rd_region_id = word_of_nat i, rd_name = LEG_NAMES ! i, rd_joint_start = word_of_nat (i * 3), rd_joint_count = 3,
      rd_has_force_torque_sensor = False, rd_command_shape = VelocityAttitude\<rparr>"

definition arm_region :: BodyRegionDescriptor where
  "arm_region =
     \<lparr>rd_region_id = ARM_REGION_ID, rd_name = name_of ''arm'', rd_joint_start = 12, rd_joint_count = 3,
      rd_has_force_torque_sensor = False, rd_command_shape = CartesianEndEffector\<rparr>"

definition xgo_lite_v2_profile :: RobotProfile where
  "xgo_lite_v2_profile =
     \<lparr>rp_dof_count = 15,
      rp_joints = concat (List.map (\<lambda>i. List.map (joint_of (word_of_nat i)) [LOWER_RANGE, MIDDLE_RANGE, UPPER_RANGE]) [0..<4])
        @ replicate 3 (joint_of ARM_REGION_ID (degrees (-90), degrees 90)),
      rp_regions = List.map leg_region [0..<4] @ [arm_region],
      rp_base_type = QuadrupedLegs\<rparr>"

definition xgo_lite_v2_camera :: CameraDescriptor where
  "xgo_lite_v2_camera =
     \<lparr>cam_camera_id = 0, cam_label = name_of ''front'', cam_codec = H264, cam_resolution_w = 640, cam_resolution_h = 480,
      cam_max_fps = 30, cam_min_bitrate_kbps = 500, cam_max_bitrate_kbps = 4000\<rparr>"

text \<open>The joints a region names are those that name the region.\<close>

definition region_owns_its_joints :: "RobotProfile \<Rightarrow> BodyRegionDescriptor \<Rightarrow> bool" where
  "region_owns_its_joints p r \<longleftrightarrow> selected_indices (\<lambda>id. id = rd_region_id r) 0 (rp_joints p)
     = [unat (rd_joint_start r)..<unat (rd_joint_start r) + unat (rd_joint_count r)]"

lemma xgo_joints:
  "List.map jd_region_id (rp_joints xgo_lite_v2_profile) = [0, 0, 0, 1, 1, 1, 2, 2, 2, 3, 3, 3, 4, 4, 4]"
  by (simp add: xgo_lite_v2_profile_def joint_of_def upt_rec ARM_REGION_ID_def numeral_eq_Suc)

lemma xgo_regions:
  "List.map (\<lambda>r. (rd_region_id r, rd_command_shape r)) (rp_regions xgo_lite_v2_profile)
     = [(0, VelocityAttitude), (1, VelocityAttitude), (2, VelocityAttitude), (3, VelocityAttitude), (4, CartesianEndEffector)]"
  by (simp add: xgo_lite_v2_profile_def leg_region_def arm_region_def upt_rec ARM_REGION_ID_def)

text \<open>The described robot is the one the commands are made for.  Its profile has as many joints as degrees of
  freedom, and every region names exactly the joints that name it; its legs share one velocity and attitude
  block, then comes the arm's block; and at the standard quantisation those two blocks are, byte for byte, the
  two halves of a packed teleoperation command, while the telemetry's fifteen joints fill thirty bytes.  Its
  base needs no dynamic balance and can move sideways.\<close>

theorem xgo_profile_fits_the_commands:
  "length (rp_joints xgo_lite_v2_profile) = unat (rp_dof_count xgo_lite_v2_profile)
   \<and> list_all (region_owns_its_joints xgo_lite_v2_profile) (rp_regions xgo_lite_v2_profile)
   \<and> derive_command_layout xgo_lite_v2_profile [] Standard
       = [BlockVelocityAttitude 0 12, BlockCartesianEndEffector ARM_REGION_ID 12 8]
   \<and> take 12 (tc_pack c) = va_pack_standard (tc_velocity_attitude c)
   \<and> drop 12 (tc_pack c) = ca_pack_standard (tc_arm c) \<and> length (tc_pack c) = 12 + 8
   \<and> List.map (\<lambda>f. (fo_byte_offset f, fo_byte_len f)) (derive_layout xgo_lite_v2_profile [] Standard)
       = List.map (\<lambda>i. (word_of_nat (2 * i), 2)) [0..<15]
   \<and> \<not> requires_dynamic_balance_override (rp_base_type xgo_lite_v2_profile)
   \<and> lateral_velocity_meaningful (rp_base_type xgo_lite_v2_profile)"
proof (intro conjI)
  have va: "length (va_pack_standard v) = 12" and ca: "length (ca_pack_standard a) = 8" for v a
    by (simp_all add: va_pack_standard_def ca_pack_standard_def length_va_pack length_ca_pack field_bytes_Standard)
  show "take 12 (tc_pack c) = va_pack_standard (tc_velocity_attitude c)"
    and "drop 12 (tc_pack c) = ca_pack_standard (tc_arm c)" and "length (tc_pack c) = 12 + 8"
    by (simp_all add: tc_pack_def va ca)
  show "length (rp_joints xgo_lite_v2_profile) = unat (rp_dof_count xgo_lite_v2_profile)"
    using arg_cong [OF xgo_joints, of length] by (simp add: xgo_lite_v2_profile_def)
  show "list_all (region_owns_its_joints xgo_lite_v2_profile) (rp_regions xgo_lite_v2_profile)"
    by code_simp
  show "derive_command_layout xgo_lite_v2_profile [] Standard
       = [BlockVelocityAttitude 0 12, BlockCartesianEndEffector ARM_REGION_ID 12 8]"
    by code_simp
  show "List.map (\<lambda>f. (fo_byte_offset f, fo_byte_len f)) (derive_layout xgo_lite_v2_profile [] Standard)
       = List.map (\<lambda>i. (word_of_nat (2 * i), 2)) [0..<15]" by code_simp
  show "\<not> requires_dynamic_balance_override (rp_base_type xgo_lite_v2_profile)"
    "lateral_velocity_meaningful (rp_base_type xgo_lite_v2_profile)"
    by (simp_all add: xgo_lite_v2_profile_def requires_dynamic_balance_override_def lateral_velocity_meaningful_def)
qed

end
