(* ===== verification/Recording.thy ===== *)
theory Recording
  imports Wire Safety
begin

text \<open>Local recording: the record framing and the rotation and retention decisions
  (roboprotocol-core's \<open>recording.rs\<close>), and the pipeline that uses them (crate
  roboprotocol-recording): the bounded ring of a category, its segments, and the body of its writer
  thread.  The directory is a list of named files; the disk's answers (whether a file could be
  created) are an argument of the writer's step.\<close>

section \<open>Records\<close>

definition CONTROL_SOURCE_SENTINEL :: u8 where "CONTROL_SOURCE_SENTINEL = 0xFF"

fun control_source_byte :: "ControlSource \<Rightarrow> u8" where
  "control_source_byte EStop = 0"
| "control_source_byte EmergencySafeParking = 1"
| "control_source_byte ActiveImpedanceHold = 2"
| "control_source_byte FullTeleoperation = 3"
| "control_source_byte SemiAutonomous = 4"

definition RECORD_HEADER_LEN :: nat where "RECORD_HEADER_LEN = 4 + 8 + 1"

record RecordHeader =
  rh_capture_us :: u64
  rh_control_source :: u8

definition encode_record :: "RecordHeader \<Rightarrow> bytes \<Rightarrow> bytes" where
  "encode_record header payload =
     be32 (word_of_nat (length payload)) @ be64 (rh_capture_us header) @ [rh_control_source header]
       @ payload"

text \<open>One call of the iterator's \<open>next\<close>: the record and the buffer that is left.\<close>

definition next_record :: "bytes \<Rightarrow> ((RecordHeader \<times> bytes) \<times> bytes) option" where
  "next_record buf =
     (if length buf < RECORD_HEADER_LEN then None
      else
        let record_len = unat (of_be32 (slice 0 4 buf));
            total = RECORD_HEADER_LEN + record_len
        in if length buf < total then None
           else Some ((\<lparr>rh_capture_us = of_be64 (slice 4 12 buf), rh_control_source = buf ! 12\<rparr>,
                       slice RECORD_HEADER_LEN total buf), drop total buf))"

lemma next_record_shorter: "next_record buf = Some (r, rest) \<Longrightarrow> length rest < length buf"
  by (auto simp: next_record_def RECORD_HEADER_LEN_def Let_def split: if_splits)

function decode_records :: "bytes \<Rightarrow> (RecordHeader \<times> bytes) list" where
  "decode_records buf =
     (case next_record buf of
        None \<Rightarrow> []
      | Some (r, rest) \<Rightarrow> r # decode_records rest)"
  by pat_completeness auto
termination by (relation "measure length") (auto intro: next_record_shorter)

declare decode_records.simps [simp del]

section \<open>Rotation and retention\<close>

record RotationThresholds =
  rt_max_segment_bytes :: nat
  rt_max_segment_duration :: duration

definition should_rotate :: "nat \<Rightarrow> instant \<Rightarrow> instant \<Rightarrow> RotationThresholds \<Rightarrow> bool" where
  "should_rotate current_size opened_at now limits \<longleftrightarrow>
     rt_max_segment_bytes limits \<le> current_size \<or>
     rt_max_segment_duration limits \<le> duration_since now opened_at"

record SegmentMeta =
  sg_size_bytes :: nat

text \<open>The loop over the segments, oldest first, at index \<open>i\<close>; the last one is never reached.\<close>

fun delete_loop :: "nat \<Rightarrow> SegmentMeta list \<Rightarrow> nat \<Rightarrow> nat \<Rightarrow> nat list" where
  "delete_loop i [] total_size budget = []"
| "delete_loop i [newest] total_size budget = []"
| "delete_loop i (seg # segs) total_size budget =
     (if total_size \<le> budget then []
      else i # delete_loop (i + 1) segs (total_size - sg_size_bytes seg) budget)"

definition segments_to_delete_for_budget :: "SegmentMeta list \<Rightarrow> nat \<Rightarrow> nat \<Rightarrow> nat list" where
  "segments_to_delete_for_budget existing incoming_bytes budget_bytes =
     delete_loop 0 existing (sum_list (List.map sg_size_bytes existing) + incoming_bytes) budget_bytes"

section \<open>The ring of a category\<close>

datatype Category =
  VideoA | ChannelBCommand | ChannelBTelemetry | ChannelBHaptic | ActionTriggerC | KeyPress

fun dirname :: "Category \<Rightarrow> string" where
  "dirname VideoA = ''video-a''"
| "dirname ChannelBCommand = ''channel-b-command''"
| "dirname ChannelBTelemetry = ''channel-b-telemetry''"
| "dirname ChannelBHaptic = ''channel-b-haptic''"
| "dirname ActionTriggerC = ''action-trigger-c''"
| "dirname KeyPress = ''key-press''"

record CategoryConfig =
  cfg_category :: Category
  cfg_ring_capacity :: nat
  cfg_max_segment_bytes :: nat
  cfg_max_segment_duration :: duration
  cfg_max_total_bytes :: nat
  cfg_flush_interval :: duration
  cfg_start_active :: bool

record Record =
  rec_capture_us :: u64
  rec_control_source :: u8
  rec_payload :: bytes

record CategoryState =
  cs_ring :: "Record list"
  cs_capacity :: nat
  cs_active :: bool
  cs_dropped :: nat
  cs_bytes_enqueued :: nat
  cs_shutdown :: bool

record CategoryStats =
  cst_bytes_enqueued :: nat
  cst_records_dropped :: nat
  cst_active :: bool

definition category_state_new :: "nat \<Rightarrow> bool \<Rightarrow> CategoryState" where
  "category_state_new capacity start_active =
     \<lparr>cs_ring = [], cs_capacity = max capacity 1, cs_active = start_active, cs_dropped = 0,
      cs_bytes_enqueued = 0, cs_shutdown = False\<rparr>"

definition ring_push :: "CategoryState \<Rightarrow> Record \<Rightarrow> CategoryState" where
  "ring_push s r =
     (let s = s\<lparr>cs_bytes_enqueued := cs_bytes_enqueued s + length (rec_payload r)\<rparr>;
          s = (if cs_capacity s \<le> length (cs_ring s)
               then s\<lparr>cs_ring := tl (cs_ring s), cs_dropped := cs_dropped s + 1\<rparr> else s)
      in s\<lparr>cs_ring := cs_ring s @ [r]\<rparr>)"

text \<open>\<open>drain\<close> once its wait is over.\<close>

definition ring_drain :: "CategoryState \<Rightarrow> CategoryState \<times> Record list" where
  "ring_drain s = (s\<lparr>cs_ring := []\<rparr>, cs_ring s)"

definition ring_stats :: "CategoryState \<Rightarrow> CategoryStats" where
  "ring_stats s =
     \<lparr>cst_bytes_enqueued = cs_bytes_enqueued s, cst_records_dropped = cs_dropped s,
      cst_active = cs_active s\<rparr>"

section \<open>The recorder\<close>

type_synonym Recorder = "(Category, CategoryState) amap"

definition recorder_start :: "CategoryConfig list \<Rightarrow> Recorder" where
  "recorder_start config =
     foldl (\<lambda>m c. AList.update (cfg_category c)
              (category_state_new (cfg_ring_capacity c) (cfg_start_active c)) m) [] config"

definition recorder_enqueue :: "Recorder \<Rightarrow> Category \<Rightarrow> Record \<Rightarrow> Recorder" where
  "recorder_enqueue r category rec =
     (case map_of r category of
        None \<Rightarrow> r
      | Some state \<Rightarrow>
          if cs_active state then AList.update category (ring_push state rec) r else r)"

definition recorder_set_active :: "Recorder \<Rightarrow> Category \<Rightarrow> bool \<Rightarrow> Recorder" where
  "recorder_set_active r category active =
     (case map_of r category of
        None \<Rightarrow> r
      | Some state \<Rightarrow> AList.update category (state\<lparr>cs_active := active\<rparr>) r)"

definition recorder_is_active :: "Recorder \<Rightarrow> Category \<Rightarrow> bool" where
  "recorder_is_active r category =
     (case map_of r category of None \<Rightarrow> False | Some state \<Rightarrow> cs_active state)"

definition recorder_stats :: "Recorder \<Rightarrow> Category \<Rightarrow> CategoryStats option" where
  "recorder_stats r category = map_option ring_stats (map_of r category)"

definition recorder_shutdown :: "Recorder \<Rightarrow> Recorder" where
  "recorder_shutdown r = List.map (\<lambda>(c, s). (c, s\<lparr>cs_shutdown := True\<rparr>)) r"

section \<open>Segments and the writer thread\<close>

text \<open>The files of a category's directory by their start time.  The file name is that time printed with
  20 digits, so the order of the names is the order of the numbers, and the directory is kept
  sorted.  A file's content is what the disk holds; the bytes a segment has written but not yet
  handed to the file are its buffer.\<close>

type_synonym segment_dir = "(u64, bytes) amap"

record OpenSegment =
  os_name :: u64
  os_buffer :: bytes
  os_size_bytes :: nat
  os_opened_at :: instant

definition append_file :: "u64 \<Rightarrow> bytes \<Rightarrow> segment_dir \<Rightarrow> segment_dir" where
  "append_file name bs dir = List.map (\<lambda>(n, content). (n, if n = name then content @ bs else content)) dir"

definition segment_create :: "segment_dir \<Rightarrow> u64 \<Rightarrow> instant \<Rightarrow> segment_dir \<times> OpenSegment" where
  "segment_create dir start_capture_us now =
     (case map_of dir start_capture_us of
        None \<Rightarrow> sorted_insert start_capture_us [] dir
      | Some _ \<Rightarrow> dir,
      \<lparr>os_name = start_capture_us, os_buffer = [], os_size_bytes = 0, os_opened_at = now\<rparr>)"

text \<open>How much of its buffer the buffered writer passes on at a write is the library's choice:
  \<open>spill\<close> bytes of it.\<close>

definition write_record ::
  "segment_dir \<Rightarrow> OpenSegment \<Rightarrow> RecordHeader \<Rightarrow> bytes \<Rightarrow> nat \<Rightarrow> segment_dir \<times> OpenSegment" where
  "write_record dir seg header payload spill =
     (let buf = encode_record header payload;
          buffer = os_buffer seg @ buf
      in (append_file (os_name seg) (take spill buffer) dir,
          seg\<lparr>os_buffer := drop spill buffer, os_size_bytes := os_size_bytes seg + length buf\<rparr>))"

definition segment_flush :: "segment_dir \<Rightarrow> OpenSegment \<Rightarrow> segment_dir \<times> OpenSegment" where
  "segment_flush dir seg = (append_file (os_name seg) (os_buffer seg) dir, seg\<lparr>os_buffer := []\<rparr>)"

definition list_segments :: "segment_dir \<Rightarrow> (u64 \<times> SegmentMeta) list" where
  "list_segments dir = List.map (\<lambda>(n, content). (n, \<lparr>sg_size_bytes = length content\<rparr>)) dir"

definition enforce_retention :: "segment_dir \<Rightarrow> nat \<Rightarrow> nat \<Rightarrow> segment_dir" where
  "enforce_retention dir incoming_bytes budget_bytes =
     (let existing = list_segments dir;
          to_delete = segments_to_delete_for_budget (List.map snd existing) incoming_bytes budget_bytes
      in foldl (\<lambda>d idx. AList.delete (fst (existing ! idx)) d) dir to_delete)"

record Writer =
  w_dir :: segment_dir
  w_segment :: "OpenSegment option"
  w_last_flush :: instant

definition writer_new :: "segment_dir \<Rightarrow> instant \<Rightarrow> Writer" where
  "writer_new dir now = \<lparr>w_dir = dir, w_segment = None, w_last_flush = now\<rparr>"

definition writer_flush :: "Writer \<Rightarrow> Writer" where
  "writer_flush w =
     (case w_segment w of
        None \<Rightarrow> w
      | Some seg \<Rightarrow>
          let (dir, seg) = segment_flush (w_dir w) seg in w\<lparr>w_dir := dir, w_segment := Some seg\<rparr>)"

text \<open>One record of a batch.  \<open>create_ok\<close> is whether the disk let a new file be opened.\<close>

definition write_one :: "CategoryConfig \<Rightarrow> instant \<Rightarrow> bool \<Rightarrow> nat \<Rightarrow> Writer \<Rightarrow> Record \<Rightarrow> Writer" where
  "write_one config now create_ok spill w record =
     (let limits = \<lparr>rt_max_segment_bytes = cfg_max_segment_bytes config,
                        rt_max_segment_duration = cfg_max_segment_duration config\<rparr>;
          needs_rotate = (case w_segment w of
              Some seg \<Rightarrow> should_rotate (os_size_bytes seg) (os_opened_at seg) now limits
            | None \<Rightarrow> True);
          w = (if needs_rotate then
                 let w = writer_flush w;
                     dir = enforce_retention (w_dir w) (length (rec_payload record))
                       (cfg_max_total_bytes config)
                 in if create_ok then
                      let (dir, seg) = segment_create dir (rec_capture_us record) now
                      in w\<lparr>w_dir := dir, w_segment := Some seg\<rparr>
                    else w\<lparr>w_dir := dir, w_segment := None\<rparr>
               else w)
      in case w_segment w of
           None \<Rightarrow> w
         | Some seg \<Rightarrow>
             let (dir, seg) = write_record (w_dir w) seg
                   \<lparr>rh_capture_us = rec_capture_us record, rh_control_source = rec_control_source record\<rparr>
                   (rec_payload record) spill
             in w\<lparr>w_dir := dir, w_segment := Some seg\<rparr>)"

text \<open>The check after each batch, and the end of the thread.\<close>

definition flush_check :: "CategoryConfig \<Rightarrow> instant \<Rightarrow> Writer \<Rightarrow> Writer" where
  "flush_check config now w =
     (if cfg_flush_interval config \<le> duration_since now (w_last_flush w)
      then (writer_flush w)\<lparr>w_last_flush := now\<rparr> else w)"

definition writer_finish :: "Writer \<Rightarrow> Writer" where
  "writer_finish w = writer_flush w"

section \<open>Framing\<close>

definition frame :: "RecordHeader \<times> bytes \<Rightarrow> bytes" where
  "frame r = encode_record (fst r) (snd r)"

definition frame_ok :: "RecordHeader \<times> bytes \<Rightarrow> bool" where
  "frame_ok r \<longleftrightarrow> length (snd r) < 2 ^ 32"

abbreviation log_bytes :: "(RecordHeader \<times> bytes) list \<Rightarrow> bytes" where
  "log_bytes rs \<equiv> concat (map frame rs)"

lemma length_frame [simp]: "length (frame r) = 13 + length (snd r)"
  by (simp add: frame_def encode_record_def)

lemma next_record_frame: "frame_ok r \<Longrightarrow> next_record (frame r @ rest) = Some (r, rest)"
  by (cases r) (simp add: frame_ok_def next_record_def frame_def encode_record_def RECORD_HEADER_LEN_def
      slice_append2 slice_full slice_def nth_append take_bit_nat_eq_self unat_of_nat Let_def)

lemma next_record_torn: "frame_ok r \<Longrightarrow> k < length (frame r) \<Longrightarrow> next_record (take k (frame r)) = None"
  by (cases r) (auto simp: frame_ok_def next_record_def frame_def encode_record_def RECORD_HEADER_LEN_def
      slice_full take_bit_nat_eq_self unat_of_nat Let_def min_def)

interpretation record_stream: codec_stream frame next_record frame_ok decode_records
  by unfold_locales (simp add: next_record_frame, simp add: decode_records.simps)

lemma decode_log: "list_all frame_ok rs \<Longrightarrow> decode_records (log_bytes rs) = rs"
  using record_stream.items_concat_torn [of rs "[]"] by (simp add: next_record_def RECORD_HEADER_LEN_def)

lemma decode_log_prefix:
  assumes "list_all frame_ok rs"
  shows "\<exists>j. decode_records (take k (log_bytes rs)) = take j rs
    \<and> length (log_bytes (take j rs)) \<le> k
    \<and> (j < length rs \<longrightarrow> k < length (log_bytes (take (Suc j) rs)))"
  using assms
proof (induction rs arbitrary: k)
  case Nil
  then show ?case by (simp add: decode_records.simps next_record_def RECORD_HEADER_LEN_def)
next
  case (Cons r rs)
  show ?case
  proof (cases "k < length (frame r)")
    case True
    then have "decode_records (take k (log_bytes (r # rs))) = take 0 (r # rs)"
      using next_record_torn [of r k] Cons.prems by (simp add: decode_records.simps)
    with True show ?thesis by (intro exI [of _ 0]) simp
  next
    case False
    from Cons.IH [of "k - length (frame r)"] Cons.prems obtain j where
      j: "decode_records (take (k - length (frame r)) (log_bytes rs)) = take j rs"
         "length (log_bytes (take j rs)) \<le> k - length (frame r)"
         "j < length rs \<longrightarrow> k - length (frame r) < length (log_bytes (take (Suc j) rs))" by auto
    have "decode_records (take k (log_bytes (r # rs))) = take (Suc j) (r # rs)"
      using False j(1) next_record_frame [of r "take (k - length (frame r)) (log_bytes rs)"] Cons.prems
      by (subst decode_records.simps) simp
    with False j(2,3) show ?thesis by (intro exI [of _ "Suc j"]) auto
  qed
qed

section \<open>Retention\<close>

lemma delete_loop_prefix:
  "\<exists>m. delete_loop i segs n budget = [i..<i + m] \<and> (segs \<noteq> [] \<longrightarrow> m < length segs) \<and> (segs = [] \<longrightarrow> m = 0)
     \<and> (n - sum_list (map sg_size_bytes (take m segs)) \<le> budget \<or> m = length segs - 1)
     \<and> (\<forall>m' < m. budget < n - sum_list (map sg_size_bytes (take m' segs)))"
proof (induction i segs n budget rule: delete_loop.induct)
  case (3 i seg s segs n budget)
  show ?case
  proof (cases "n \<le> budget")
    case False
    with 3 obtain m where m: "delete_loop (i + 1) (s # segs) (n - sg_size_bytes seg) budget = [i + 1..<i + 1 + m]"
      "m < length (s # segs)"
      "n - sg_size_bytes seg - sum_list (map sg_size_bytes (take m (s # segs))) \<le> budget \<or> m = length (s # segs) - 1"
      "\<forall>m' < m. budget < n - sg_size_bytes seg - sum_list (map sg_size_bytes (take m' (s # segs)))" by auto
    have "[i..<i + Suc m] = i # [i + 1..<i + 1 + m]" by (simp add: upt_conv_Cons del: upt_Suc)
    moreover have "budget < n - sum_list (map sg_size_bytes (take m' (seg # s # segs)))" if "m' < Suc m" for m'
      using that False m(4) by (cases m') (auto simp: diff_diff_left)
    ultimately show ?thesis using m(1-3) False
      by (intro exI [of _ "Suc m"]) (auto simp: diff_diff_left)
  qed (auto intro!: exI [of _ 0])
qed auto

lemma delete_first: "distinct (keys d) \<Longrightarrow> d \<noteq> [] \<Longrightarrow> AList.delete (fst (hd d)) d = tl d"
  by (cases d) (auto intro: AList.delete_idem)

lemma delete_firsts:
  "distinct (keys d) \<Longrightarrow> m \<le> length d
    \<Longrightarrow> foldl (\<lambda>d idx. AList.delete (fst (xs ! idx)) d) d [0..<m] = drop m d" if "map fst xs = keys d"
  using that
proof (induction m)
  case (Suc m)
  have m: "m < length d" using Suc.prems by simp
  have "fst (xs ! m) = keys d ! m" using Suc.prems(3) m by (metis length_map nth_map)
  also have "\<dots> = fst (hd (drop m d))" using m by (simp add: hd_drop_conv_nth)
  finally have "AList.delete (fst (xs ! m)) (drop m d) = tl (drop m d)"
    using delete_first [of "drop m d"] m Suc.prems(1) by (simp add: drop_map [symmetric])
  then show ?case using Suc by (simp add: drop_Suc tl_drop)
qed simp

abbreviation dir_size :: "segment_dir \<Rightarrow> nat" where
  "dir_size d \<equiv> sum_list (map (\<lambda>e. length (snd e)) d)"

lemma retention_drops:
  assumes "distinct (keys dir)"
  shows "\<exists>m. enforce_retention dir incoming budget = drop m dir \<and> (dir \<noteq> [] \<longrightarrow> m < length dir)
    \<and> (dir_size (drop m dir) + incoming \<le> budget \<or> length (drop m dir) \<le> 1)
    \<and> (\<forall>m' < m. budget < dir_size (drop m' dir) + incoming)"
proof -
  let ?metas = "map snd (list_segments dir)" and ?n = "dir_size dir + incoming"
  have sizes: "map sg_size_bytes ?metas = map (\<lambda>e. length (snd e)) dir"
    by (simp add: list_segments_def split_beta comp_def)
  have len: "length ?metas = length dir" by (simp add: list_segments_def)
  have split: "dir_size dir = dir_size (take k dir) + dir_size (drop k dir)" for k
    by (simp only: sum_list_append [symmetric] map_append [symmetric] append_take_drop_id)
  have "sum_list (map sg_size_bytes (take k ?metas)) = dir_size (take k dir)" for k
    unfolding take_map [symmetric] sizes by (simp add: take_map)
  then have left: "?n - sum_list (map sg_size_bytes (take k ?metas)) = dir_size (drop k dir) + incoming" for k
    using split [of k] by simp
  from delete_loop_prefix [of 0 ?metas ?n budget] obtain m where
    m: "delete_loop 0 ?metas ?n budget = [0..<0 + m]" "?metas \<noteq> [] \<longrightarrow> m < length ?metas" "?metas = [] \<longrightarrow> m = 0"
       "dir_size (drop m dir) + incoming \<le> budget \<or> m = length ?metas - 1"
       "\<forall>m' < m. budget < dir_size (drop m' dir) + incoming" unfolding left by blast
  have "map fst (list_segments dir) = keys dir" by (simp add: list_segments_def split_beta comp_def)
  from delete_firsts [OF this assms, of m] have "enforce_retention dir incoming budget = drop m dir"
    using m(1-3) len
    by (simp add: enforce_retention_def segments_to_delete_for_budget_def sizes Let_def del: map_map) force
  moreover have "dir \<noteq> [] \<longrightarrow> m < length dir" using m(2) len by force
  ultimately show ?thesis using m(4,5) len by (intro exI [of _ m]) auto
qed

section \<open>The ring keeps the newest records\<close>

lemma ring_push_one:
  assumes "cs_ring s = drop (length ys - cs_capacity s) ys" and "0 < cs_capacity s"
  shows "cs_ring (ring_push s r) = drop (length (ys @ [r]) - cs_capacity s) (ys @ [r])"
    and "cs_dropped (ring_push s r) = cs_dropped s + (length (ys @ [r]) - cs_capacity s) - (length ys - cs_capacity s)"
    and "cs_capacity (ring_push s r) = cs_capacity s"
  using assms by (auto simp: ring_push_def Let_def drop_Suc tl_drop Suc_diff_le)

lemma ring_push_all:
  assumes "cs_ring s = drop (length ys - cs_capacity s) ys" and "0 < cs_capacity s"
  shows "cs_ring (foldl ring_push s rs) = drop (length (ys @ rs) - cs_capacity s) (ys @ rs)
    \<and> cs_dropped (foldl ring_push s rs)
        = cs_dropped s + (length (ys @ rs) - cs_capacity s) - (length ys - cs_capacity s)"
  using assms
proof (induction rs arbitrary: s ys)
  case (Cons r rs)
  from Cons.IH [of "ring_push s r" "ys @ [r]"] ring_push_one [OF Cons.prems, of r] Cons.prems
  show ?case by simp
qed simp

text \<open>Between two drains the ring of a new category holds exactly the newest records that fit, and the
  counter of dropped ones says how many it gave up.\<close>

lemma ring_keeps_newest:
  "cs_ring (foldl ring_push (category_state_new c active) rs) = drop (length rs - max c 1) rs
   \<and> cs_dropped (foldl ring_push (category_state_new c active) rs) = length rs - max c 1"
  using ring_push_all [of "category_state_new c active" "[]" rs] by (simp add: category_state_new_def)

section \<open>Runs of the writer\<close>

datatype writer_event = WriteRec Record instant nat | FlushCheck instant

fun writer_step :: "CategoryConfig \<Rightarrow> Writer \<Rightarrow> writer_event \<Rightarrow> Writer" where
  "writer_step config w (WriteRec r now spill) = write_one config now True spill w r"
| "writer_step config w (FlushCheck now) = flush_check config now w"

definition writer_run :: "CategoryConfig \<Rightarrow> instant \<Rightarrow> writer_event list \<Rightarrow> Writer" where
  "writer_run config start evs = foldl (writer_step config) (writer_new [] start) evs"

fun written_records :: "writer_event list \<Rightarrow> Record list" where
  "written_records [] = []"
| "written_records (WriteRec r now spill # evs) = r # written_records evs"
| "written_records (FlushCheck now # evs) = written_records evs"

definition as_log :: "Record \<Rightarrow> RecordHeader \<times> bytes" where
  "as_log r = (\<lparr>rh_capture_us = rec_capture_us r, rh_control_source = rec_control_source r\<rparr>, rec_payload r)"

lemma written_records_append: "written_records (evs @ evs') = written_records evs @ written_records evs'"
  by (induction evs rule: written_records.induct) simp_all

text \<open>What the state of the writer means: the records so far are the deleted ones, those of the closed
  segments, and those of the open segment, whose last bytes may still be in its buffer.\<close>

definition writer_holds ::
  "Writer \<Rightarrow> (RecordHeader \<times> bytes) list \<Rightarrow> (u64 \<times> (RecordHeader \<times> bytes) list) list
    \<Rightarrow> (RecordHeader \<times> bytes) list \<Rightarrow> bool" where
  "writer_holds w old shut open_recs \<longleftrightarrow>
     (case w_segment w of
        None \<Rightarrow> w_dir w = [] \<and> old = [] \<and> shut = [] \<and> open_recs = []
      | Some seg \<Rightarrow> \<exists>disk. disk @ os_buffer seg = log_bytes open_recs
          \<and> os_size_bytes seg = length (log_bytes open_recs) \<and> open_recs \<noteq> []
          \<and> w_dir w = map (\<lambda>(n, rs). (n, log_bytes rs)) shut @ [(os_name seg, disk)])"

definition names_below :: "Writer \<Rightarrow> u64 \<Rightarrow> bool" where
  "names_below w t \<longleftrightarrow> sorted_wrt (<) (keys (w_dir w)) \<and> list_all (\<lambda>n. n < t) (keys (w_dir w))"

text \<open>The bytes of shut segments and of the open one stay bounded.\<close>

definition sizes_ok :: "CategoryConfig \<Rightarrow> nat \<Rightarrow> (u64 \<times> (RecordHeader \<times> bytes) list) list
    \<Rightarrow> (RecordHeader \<times> bytes) list \<Rightarrow> bool" where
  "sizes_ok config p shut open_recs \<longleftrightarrow>
     sum_list (map (\<lambda>(n, rs). length (log_bytes rs)) shut)
       \<le> max (cfg_max_total_bytes config) (cfg_max_segment_bytes config + 13 + p)
     \<and> length (log_bytes open_recs) \<le> cfg_max_segment_bytes config + 13 + p
     \<and> (\<forall>(n, rs) \<in> set shut. length (log_bytes rs) \<le> cfg_max_segment_bytes config + 13 + p)"

text \<open>Records are only given up when the budget asks for it: what is kept, with the segment last given up and
  the record then about to be written, is over the budget.\<close>

definition pressed :: "CategoryConfig \<Rightarrow> nat \<Rightarrow> (RecordHeader \<times> bytes) list
    \<Rightarrow> (u64 \<times> (RecordHeader \<times> bytes) list) list \<Rightarrow> bool" where
  "pressed config p old shut \<longleftrightarrow> (old \<noteq> [] \<longrightarrow>
     cfg_max_total_bytes config < sum_list (map (\<lambda>(n, rs). length (log_bytes rs)) shut)
       + (cfg_max_segment_bytes config + 13 + p) + p)"

definition writer_inv :: "CategoryConfig \<Rightarrow> nat \<Rightarrow> (RecordHeader \<times> bytes) list \<Rightarrow> Writer \<Rightarrow> bool" where
  "writer_inv config p all_recs w \<longleftrightarrow>
     (\<exists>old shut open_recs. all_recs = old @ concat (map snd shut) @ open_recs
        \<and> writer_holds w old shut open_recs \<and> sizes_ok config p shut open_recs \<and> pressed config p old shut)"

lemma append_file_last:
  "n \<notin> set (keys d) \<Longrightarrow> append_file n bs (d @ [(n, c)]) = d @ [(n, c @ bs)]"
  by (induction d) (auto simp: append_file_def)

lemma keys_append_file [simp]: "keys (append_file n bs d) = keys d"
  by (simp add: append_file_def split_beta comp_def)

lemma sorted_insert_end: "list_all (\<lambda>n. n < k) (keys d) \<Longrightarrow> sorted_insert k v d = d @ [(k, v)]"
  by (induction d) auto

lemma flush_holds:
  assumes "writer_holds w old shut open_recs" and "distinct (keys (w_dir w))"
  shows "writer_holds (writer_flush w) old shut open_recs"
    and "w_segment w = Some seg \<Longrightarrow>
      w_dir (writer_flush w) = map (\<lambda>(n, rs). (n, log_bytes rs)) (shut @ [(os_name seg, open_recs)])"
proof -
  have "writer_holds (writer_flush w) old shut open_recs
     \<and> (w_segment w = Some seg \<longrightarrow> w_dir (writer_flush w) = map (\<lambda>(n, rs). (n, log_bytes rs)) (shut @ [(os_name seg, open_recs)]))"
    for seg
  proof (cases "w_segment w")
    case (Some s)
    with assms(1) obtain disk where d: "disk @ os_buffer s = log_bytes open_recs"
      "os_size_bytes s = length (log_bytes open_recs)" "open_recs \<noteq> []"
      "w_dir w = map (\<lambda>(n, rs). (n, log_bytes rs)) shut @ [(os_name s, disk)]"
      by (auto simp: writer_holds_def)
    have "os_name s \<notin> set (keys (map (\<lambda>(n, rs). (n, log_bytes rs)) shut))"
      using assms(2) unfolding d(4) by simp
    from append_file_last [OF this, of "os_buffer s" disk]
    have "w_dir (writer_flush w) = map (\<lambda>(n, rs). (n, log_bytes rs)) (shut @ [(os_name s, open_recs)])"
      by (simp only: writer_flush_def segment_flush_def Some d(4) prod.case option.case Let_def) (simp add: d(1))
    with d(1-3) Some show ?thesis
      by (auto simp: writer_flush_def segment_flush_def writer_holds_def)
  qed (use assms in \<open>simp add: writer_flush_def writer_holds_def\<close>)
  then show "writer_holds (writer_flush w) old shut open_recs"
    and "w_segment w = Some seg \<Longrightarrow>
      w_dir (writer_flush w) = map (\<lambda>(n, rs). (n, log_bytes rs)) (shut @ [(os_name seg, open_recs)])"
    by blast+
qed

lemma keys_writer_flush [simp]: "keys (w_dir (writer_flush w)) = keys (w_dir w)"
  by (simp add: writer_flush_def segment_flush_def split: option.split)


lemma enforce_holds:
  assumes dir: "w_dir w = map (\<lambda>(n, rs). (n, log_bytes rs)) (shut @ [(n, rs)])"
    and sorted: "sorted_wrt (<) (keys (w_dir w))"
  shows "\<exists>m \<le> length shut. enforce_retention (w_dir w) incoming budget
      = map (\<lambda>(n, rs). (n, log_bytes rs)) (drop m (shut @ [(n, rs)]))
    \<and> (sum_list (map (\<lambda>(n, rs). length (log_bytes rs)) (drop m (shut @ [(n, rs)]))) \<le> budget
       \<or> drop m (shut @ [(n, rs)]) = [(n, rs)])
    \<and> (m = 0 \<or> budget < length (log_bytes (snd ((shut @ [(n, rs)]) ! (m - 1))))
        + sum_list (map (\<lambda>(n, rs). length (log_bytes rs)) (drop m (shut @ [(n, rs)]))) + incoming)"
proof -
  have "distinct (keys (w_dir w))" using sorted by (simp add: strict_sorted_iff)
  from retention_drops [OF this, of incoming budget] obtain m where
    m: "enforce_retention (w_dir w) incoming budget = drop m (w_dir w)" "w_dir w \<noteq> [] \<longrightarrow> m < length (w_dir w)"
    "dir_size (drop m (w_dir w)) + incoming \<le> budget \<or> length (drop m (w_dir w)) \<le> 1"
    "\<forall>m' < m. budget < dir_size (drop m' (w_dir w)) + incoming" by blast
  from m(2) dir have le: "m \<le> length shut" by simp
  have sz: "dir_size (drop k (w_dir w)) = sum_list (map (\<lambda>(n, rs). length (log_bytes rs)) (drop k (shut @ [(n, rs)])))" for k
    by (simp only: dir drop_map [symmetric] map_map) (simp add: comp_def case_prod_unfold)
  have "drop m (shut @ [(n, rs)]) = [(n, rs)]" if "length (drop m (w_dir w)) \<le> 1"
    using that le dir by simp
  with m(3) sz [of m] have "sum_list (map (\<lambda>(n, rs). length (log_bytes rs)) (drop m (shut @ [(n, rs)]))) \<le> budget
      \<or> drop m (shut @ [(n, rs)]) = [(n, rs)]" by linarith
  moreover have "m = 0 \<or> budget < length (log_bytes (snd ((shut @ [(n, rs)]) ! (m - 1))))
        + sum_list (map (\<lambda>(n, rs). length (log_bytes rs)) (drop m (shut @ [(n, rs)]))) + incoming"
  proof (cases m)
    case (Suc k)
    then have "drop k (shut @ [(n, rs)]) = (shut @ [(n, rs)]) ! k # drop m (shut @ [(n, rs)])"
      using le by (intro Cons_nth_drop_Suc [symmetric, of k, folded Suc]) simp
    then have "dir_size (drop k (w_dir w)) = length (log_bytes (snd ((shut @ [(n, rs)]) ! k)))
        + sum_list (map (\<lambda>(n, rs). length (log_bytes rs)) (drop m (shut @ [(n, rs)])))"
      unfolding sz by (simp add: case_prod_unfold)
    moreover have "budget < dir_size (drop k (w_dir w)) + incoming" using m(4) Suc by simp
    ultimately show ?thesis by (simp add: Suc)
  qed simp
  moreover have "enforce_retention (w_dir w) incoming budget
      = map (\<lambda>(n, rs). (n, log_bytes rs)) (drop m (shut @ [(n, rs)]))" using m(1) dir by (simp only: drop_map)
  ultimately show ?thesis using le by blast
qed

lemma write_holds:
  assumes "disk @ os_buffer seg = log_bytes rs" and "os_size_bytes seg = length (log_bytes rs)"
    and dir: "dir = map (\<lambda>(n, rs). (n, log_bytes rs)) shut @ [(os_name seg, disk)]"
    and "distinct (keys dir)" and wr: "write_record dir seg (fst r) (snd r) spill = (dir', seg')"
  shows "\<exists>disk'. dir' = map (\<lambda>(n, rs). (n, log_bytes rs)) shut @ [(os_name seg, disk')]
      \<and> disk' @ os_buffer seg' = log_bytes (rs @ [r])
      \<and> os_size_bytes seg' = length (log_bytes (rs @ [r])) \<and> os_name seg' = os_name seg"
proof -
  let ?b = "os_buffer seg @ frame r"
  have "os_name seg \<notin> set (keys (map (\<lambda>(n, rs). (n, log_bytes rs)) shut))"
    using assms(4) unfolding dir by simp
  from append_file_last [OF this, of "take spill ?b" disk]
  have "dir' = map (\<lambda>(n, rs). (n, log_bytes rs)) shut @ [(os_name seg, disk @ take spill ?b)]"
    using wr by (auto simp: write_record_def frame_def Let_def dir)
  moreover have "disk @ take spill ?b @ os_buffer seg' = log_bytes (rs @ [r])"
    using wr assms(1) append_take_drop_id [of spill ?b]
    by (auto simp: write_record_def frame_def Let_def simp del: append_take_drop_id take_append drop_append)
  moreover have "os_size_bytes seg' = length (log_bytes (rs @ [r])) \<and> os_name seg' = os_name seg"
    using wr assms(2) by (auto simp: write_record_def Let_def encode_record_def)
  ultimately show ?thesis by (intro exI [of _ "disk @ take spill ?b"]) simp
qed

lemma new_segment:
  assumes "list_all (\<lambda>n. n < t) (keys dir)"
  shows "segment_create dir t now = (dir @ [(t, [])],
     \<lparr>os_name = t, os_buffer = [], os_size_bytes = 0, os_opened_at = now\<rparr>)"
proof -
  have "map_of dir t = None" using assms by (auto simp: map_of_eq_None_iff list_all_iff)
  then show ?thesis using sorted_insert_end [OF assms] by (simp add: segment_create_def)
qed

text \<open>What a record does: it goes to the open segment, or to a new one after the retention.\<close>

lemma write_one_inv:
  assumes inv: "writer_inv config p recs w" and names: "names_below w (rec_capture_us r)"
    and len: "length (rec_payload r) \<le> p"
  shows "writer_inv config p (recs @ [as_log r]) (write_one config now True spill w r)"
    and "sorted_wrt (<) (keys (w_dir (write_one config now True spill w r)))
      \<and> list_all (\<lambda>n. n \<le> rec_capture_us r) (keys (w_dir (write_one config now True spill w r)))"
proof -
  let ?w' = "write_one config now True spill w r" and ?t = "rec_capture_us r"
  let ?files = "map (\<lambda>(n, rs). (n, log_bytes rs))"
  let ?M = "cfg_max_segment_bytes config + 13 + p"
  let ?bytes = "\<lambda>shut. sum_list (map (\<lambda>(n, rs). length (log_bytes rs)) shut)"
  from inv obtain old shut open_recs where
    recs: "recs = old @ concat (map snd shut) @ open_recs"
    and holds: "writer_holds w old shut open_recs" and sizes: "sizes_ok config p shut open_recs"
    and pressed: "pressed config p old shut"
    by (auto simp: writer_inv_def)
  from names have sorted: "sorted_wrt (<) (keys (w_dir w))" and below: "list_all (\<lambda>n. n < ?t) (keys (w_dir w))"
    by (auto simp: names_below_def)
  have dist: "distinct (keys (w_dir w))" using sorted by (simp add: strict_sorted_iff)
  have one: "length (log_bytes [as_log r]) \<le> 13 + p" using len by (simp add: as_log_def)
  have fresh: "writer_inv config p (recs @ [as_log r]) ?w'
      \<and> sorted_wrt (<) (keys (w_dir ?w')) \<and> list_all (\<lambda>n. n \<le> ?t) (keys (w_dir ?w'))"
    if rot: "\<And>dir seg. segment_create (enforce_retention (w_dir (writer_flush w)) (length (rec_payload r))
          (cfg_max_total_bytes config)) ?t now = (dir, seg)
        \<Longrightarrow> w_segment ?w' = Some (snd (write_record dir seg (fst (as_log r)) (snd (as_log r)) spill))
          \<and> w_dir ?w' = fst (write_record dir seg (fst (as_log r)) (snd (as_log r)) spill)"
    and kept: "enforce_retention (w_dir (writer_flush w)) (length (rec_payload r)) (cfg_max_total_bytes config)
        = ?files shut'" "recs = old' @ concat (map snd shut')"
        "?bytes shut' \<le> max (cfg_max_total_bytes config) ?M"
        "sorted_wrt (<) (keys (?files shut'))" "list_all (\<lambda>n. n < ?t) (keys (?files shut'))"
        "\<forall>(n, rs) \<in> set shut'. length (log_bytes rs) \<le> ?M" "pressed config p old' shut'"
    for old' shut'
  proof -
    let ?seg = "\<lparr>os_name = ?t, os_buffer = [], os_size_bytes = 0, os_opened_at = now\<rparr>"
    let ?wr = "write_record (?files shut' @ [(?t, [])]) ?seg (fst (as_log r)) (snd (as_log r)) spill"
    from rot new_segment [OF kept(5), of now] have w': "w_segment ?w' = Some (snd ?wr)" "w_dir ?w' = fst ?wr"
      unfolding kept(1) by auto
    have d: "distinct (keys (?files shut' @ [(?t, [])]))"
      using kept(4,5) by (auto simp: strict_sorted_iff list_all_iff)
    obtain dir' seg' where wr: "?wr = (dir', seg')" by fastforce
    from write_holds [OF _ _ _ d wr, of "[]" "[]" shut'] obtain disk' where
      "dir' = ?files shut' @ [(?t, disk')]" "disk' @ os_buffer seg' = log_bytes [as_log r]"
      "os_size_bytes seg' = length (log_bytes [as_log r])" "os_name seg' = ?t" by auto
    then have "writer_holds ?w' old' shut' [as_log r]" by (auto simp: writer_holds_def w' wr)
    moreover have "sizes_ok config p shut' [as_log r]" using kept(3,6) one by (simp add: sizes_ok_def)
    moreover have "keys (w_dir ?w') = keys (?files shut') @ [?t]"
      using \<open>dir' = _\<close> by (simp add: w' wr)
    ultimately show ?thesis using kept(2,4,5,7)
      by (auto simp: writer_inv_def sorted_wrt_append list_all_iff intro: less_imp_le)
  qed
  have "writer_inv config p (recs @ [as_log r]) ?w'
      \<and> sorted_wrt (<) (keys (w_dir ?w')) \<and> list_all (\<lambda>n. n \<le> ?t) (keys (w_dir ?w'))"
  proof (cases "w_segment w")
    case None
    with holds have e: "w_dir w = []" "old = []" "shut = []" "open_recs = []" by (auto simp: writer_holds_def)
    show ?thesis
      by (rule fresh [of "[]" "[]"])
        (use None e recs in \<open>auto simp: write_one_def as_log_def writer_flush_def enforce_retention_def
           segments_to_delete_for_budget_def list_segments_def Let_def pressed_def split: prod.splits\<close>)
  next
    case (Some seg)
    with holds obtain disk where d: "disk @ os_buffer seg = log_bytes open_recs"
      "os_size_bytes seg = length (log_bytes open_recs)" "open_recs \<noteq> []"
      "w_dir w = ?files shut @ [(os_name seg, disk)]" by (auto simp: writer_holds_def)
    show ?thesis
    proof (cases "should_rotate (os_size_bytes seg) (os_opened_at seg) now
        \<lparr>rt_max_segment_bytes = cfg_max_segment_bytes config, rt_max_segment_duration = cfg_max_segment_duration config\<rparr>")
      case True
      have f: "w_dir (writer_flush w) = ?files (shut @ [(os_name seg, open_recs)])"
        using flush_holds(2) [OF holds dist Some] .
      have sf: "sorted_wrt (<) (keys (w_dir (writer_flush w)))" using sorted by simp
      from enforce_holds [OF f sf] obtain m where m: "m \<le> length shut"
        "enforce_retention (w_dir (writer_flush w)) (length (rec_payload r)) (cfg_max_total_bytes config)
           = ?files (drop m (shut @ [(os_name seg, open_recs)]))"
        "?bytes (drop m (shut @ [(os_name seg, open_recs)])) \<le> cfg_max_total_bytes config
         \<or> drop m (shut @ [(os_name seg, open_recs)]) = [(os_name seg, open_recs)]"
        "m = 0 \<or> cfg_max_total_bytes config < length (log_bytes (snd ((shut @ [(os_name seg, open_recs)]) ! (m - 1))))
          + ?bytes (drop m (shut @ [(os_name seg, open_recs)])) + length (rec_payload r)" by blast
      let ?all = "shut @ [(os_name seg, open_recs)]"
      have each: "\<forall>(n, rs) \<in> set ?all. length (log_bytes rs) \<le> ?M" using sizes by (auto simp: sizes_ok_def)
      have ks: "keys (?files (drop m ?all)) = drop m (keys (w_dir (writer_flush w)))"
        by (simp only: f drop_map)
      show ?thesis
      proof (rule fresh [of "drop m ?all" "old @ concat (map snd (take m ?all))"])
        show "recs = (old @ concat (map snd (take m ?all))) @ concat (map snd (drop m ?all))"
          unfolding append_assoc concat_append [symmetric] map_append [symmetric] append_take_drop_id recs by simp
        show "\<forall>(n, rs) \<in> set (drop m ?all). length (log_bytes rs) \<le> ?M"
          using each set_drop_subset [of m ?all] by blast
        show "pressed config p (old @ concat (map snd (take m ?all))) (drop m ?all)"
        proof (cases m)
          case 0
          then show ?thesis using pressed by (auto simp: pressed_def)
        next
          case (Suc k)
          have "?all ! k \<in> set ?all" using m(1) Suc by (intro nth_mem) simp
          then have "length (log_bytes (snd (?all ! k))) \<le> ?M" using each by (auto simp: case_prod_unfold)
          moreover have "cfg_max_total_bytes config < length (log_bytes (snd (?all ! k))) + ?bytes (drop m ?all) + length (rec_payload r)"
            using m(4) Suc by simp
          ultimately have "cfg_max_total_bytes config < ?bytes (drop m ?all) + ?M + p" using len by linarith
          then show ?thesis unfolding pressed_def by blast
        qed
        show "?bytes (drop m ?all) \<le> max (cfg_max_total_bytes config) ?M"
          using m(3)
        proof
          assume "drop m ?all = [(os_name seg, open_recs)]"
          with sizes show ?thesis by (simp only: sizes_ok_def) (simp add: le_max_iff_disj)
        qed simp
        show "sorted_wrt (<) (keys (?files (drop m ?all)))"
          unfolding ks using sf by (rule sorted_wrt_drop)
        show "list_all (\<lambda>n. n < ?t) (keys (?files (drop m ?all)))"
          unfolding ks using below set_drop_subset [of m "keys (w_dir w)"]
          by (simp only: list_all_iff keys_writer_flush) blast
      qed (use m(2) True Some in \<open>auto simp: write_one_def as_log_def writer_flush_def Let_def split: prod.splits\<close>)
    next
      case False
      let ?wr = "write_record (w_dir w) seg (fst (as_log r)) (snd (as_log r)) spill"
      have w': "w_segment ?w' = Some (snd ?wr)" "w_dir ?w' = fst ?wr"
        using False Some by (simp_all add: write_one_def as_log_def Let_def split: prod.splits)
      obtain dir' seg' where e: "?wr = (dir', seg')" by fastforce
      from write_holds [OF d(1,2,4) dist e] obtain disk' where
        wr: "dir' = ?files shut @ [(os_name seg, disk')]" "disk' @ os_buffer seg' = log_bytes (open_recs @ [as_log r])"
        "os_size_bytes seg' = length (log_bytes (open_recs @ [as_log r]))" "os_name seg' = os_name seg" by blast
      then have "writer_holds ?w' old shut (open_recs @ [as_log r])" by (auto simp: writer_holds_def w' e)
      moreover have "length (log_bytes open_recs) < cfg_max_segment_bytes config"
        using False d(2) by (simp add: should_rotate_def)
      then have "sizes_ok config p shut (open_recs @ [as_log r])"
        using sizes one by (simp add: sizes_ok_def)
      moreover have dir: "w_dir ?w' = dir'" using w'(2) e by simp
      then have "keys (w_dir ?w') = keys (w_dir w)" unfolding dir wr(1) d(4) by simp
      ultimately show ?thesis using recs sorted below pressed
        by (auto simp: writer_inv_def list_all_iff intro: less_imp_le)
    qed
  qed
  then show "writer_inv config p (recs @ [as_log r]) ?w'"
    and "sorted_wrt (<) (keys (w_dir ?w')) \<and> list_all (\<lambda>n. n \<le> ?t) (keys (w_dir ?w'))" by blast+
qed


definition run_inv :: "CategoryConfig \<Rightarrow> nat \<Rightarrow> Record list \<Rightarrow> Writer \<Rightarrow> bool" where
  "run_inv config p rs w \<longleftrightarrow>
     writer_inv config p (map as_log rs) w \<and> sorted_wrt (<) (keys (w_dir w))
     \<and> list_all (\<lambda>n. rs \<noteq> [] \<and> n \<le> rec_capture_us (last rs)) (keys (w_dir w))"

lemma flush_inv: "run_inv config p rs w \<Longrightarrow> run_inv config p rs (writer_flush w)"
  using flush_holds(1) [of w] by (fastforce simp: run_inv_def writer_inv_def strict_sorted_iff)

lemma flush_time_holds [simp]: "writer_holds (w\<lparr>w_last_flush := t\<rparr>) old shut rs = writer_holds w old shut rs"
  by (cases "w_segment w") (simp_all add: writer_holds_def)

lemma flush_time_inv [simp]: "run_inv config p rs (w\<lparr>w_last_flush := t\<rparr>) = run_inv config p rs w"
  by (simp add: run_inv_def writer_inv_def)

lemma writer_run_inv:
  assumes "sorted_wrt (<) (map rec_capture_us (written_records evs))"
    and "list_all (\<lambda>r. length (rec_payload r) \<le> p) (written_records evs)"
  shows "run_inv config p (written_records evs) (writer_run config start evs)"
  using assms
proof (induction evs rule: rev_induct)
  case Nil
  then show ?case
    by (auto simp: run_inv_def writer_run_def writer_new_def writer_inv_def writer_holds_def sizes_ok_def pressed_def)
next
  case (snoc e evs)
  let ?w = "writer_run config start evs" and ?rs = "written_records evs"
  have run: "writer_run config start (evs @ [e]) = writer_step config ?w e" by (simp add: writer_run_def)
  from snoc have IH: "run_inv config p ?rs ?w"
    by (simp add: written_records_append sorted_wrt_append)
  show ?case
  proof (cases e)
    case (FlushCheck now)
    with IH flush_inv [OF IH] show ?thesis
      by (simp add: run [unfolded FlushCheck] written_records_append flush_check_def)
  next
    case (WriteRec r now spill)
    have newer: "\<forall>x \<in> set ?rs. rec_capture_us x < rec_capture_us r"
      using snoc.prems(1) WriteRec by (simp add: written_records_append sorted_wrt_append)
    have "names_below ?w (rec_capture_us r)"
      unfolding names_below_def
    proof
      show "sorted_wrt (<) (keys (w_dir ?w))" using IH by (simp add: run_inv_def)
      show "list_all (\<lambda>n. n < rec_capture_us r) (keys (w_dir ?w))"
        using IH newer last_in_set [of ?rs] unfolding run_inv_def list_all_iff
        by (meson le_less_trans)
    qed
    moreover have "writer_inv config p (map as_log ?rs) ?w" using IH by (simp add: run_inv_def)
    moreover have "length (rec_payload r) \<le> p"
      using snoc.prems(2) WriteRec by (simp add: written_records_append)
    ultimately show ?thesis
      using write_one_inv [of config p "map as_log ?rs" ?w r now spill] WriteRec
      by (simp add: run [unfolded WriteRec] written_records_append run_inv_def)
  qed
qed

text \<open>The records a replay tool reads from the directory, segment by segment.\<close>

definition replay :: "segment_dir \<Rightarrow> (RecordHeader \<times> bytes) list" where
  "replay dir = concat (map (\<lambda>f. decode_records (snd f)) dir)"

lemma replay_append: "replay (d @ d') = replay d @ replay d'"
  by (simp add: replay_def)

lemma replay_closed:
  "list_all frame_ok (concat (map snd shut))
    \<Longrightarrow> replay (map (\<lambda>(n, rs). (n, log_bytes rs)) shut) = concat (map snd shut)"
  by (induction shut) (auto simp: decode_log replay_def)

lemma writer_inv_replay:
  assumes "writer_inv config p recs w" and "list_all frame_ok recs"
  shows "\<exists>old kept lost. recs = old @ kept @ lost \<and> replay (w_dir w) = kept
    \<and> dir_size (w_dir w) \<le> max (cfg_max_total_bytes config) (cfg_max_segment_bytes config + 13 + p)
        + (cfg_max_segment_bytes config + 13 + p)"
proof -
  from assms(1) obtain old shut open_recs where
    recs: "recs = old @ concat (map snd shut) @ open_recs"
    and holds: "writer_holds w old shut open_recs" and sizes: "sizes_ok config p shut open_recs"
    by (auto simp: writer_inv_def)
  show ?thesis
  proof (cases "w_segment w")
    case None
    with holds recs show ?thesis by (auto simp: writer_holds_def replay_def)
  next
    case (Some seg)
    with holds obtain disk where d: "disk @ os_buffer seg = log_bytes open_recs"
      "w_dir w = map (\<lambda>(n, rs). (n, log_bytes rs)) shut @ [(os_name seg, disk)]" by (auto simp: writer_holds_def)
    have disk: "disk = take (length disk) (log_bytes open_recs)" using d(1) by (metis append_eq_conv_conj)
    have ok: "list_all frame_ok (concat (map snd shut))" "list_all frame_ok open_recs"
      using assms(2) recs by (simp_all add: list_all_append)
    from decode_log_prefix [OF ok(2), of "length disk"] obtain j where
      j: "decode_records disk = take j open_recs" using disk by auto
    have "replay (w_dir w) = concat (map snd shut) @ take j open_recs"
      using replay_closed [OF ok(1)] j by (simp add: d(2) replay_append) (simp add: replay_def)
    moreover have "dir_size (w_dir w) = sum_list (map (\<lambda>(n, rs). length (log_bytes rs)) shut) + length disk"
      by (simp add: d(2) comp_def case_prod_unfold)
    moreover have "length disk \<le> length (log_bytes open_recs)" using d(1) by (metis le_add1 length_append)
    ultimately show ?thesis using sizes recs append_take_drop_id [of j open_recs]
      by (intro exI [of _ old] exI [of _ "concat (map snd shut) @ take j open_recs"] exI [of _ "drop j open_recs"])
        (auto simp: sizes_ok_def)
  qed
qed

lemma flushed_replay:
  assumes "writer_inv config p recs w" and "list_all frame_ok recs" and "distinct (keys (w_dir w))"
  shows "\<exists>old. recs = old @ replay (w_dir (writer_finish w)) \<and> (recs \<noteq> [] \<longrightarrow> replay (w_dir (writer_finish w)) \<noteq> [])
    \<and> (old \<noteq> [] \<longrightarrow> cfg_max_total_bytes config
        < dir_size (w_dir (writer_finish w)) + (cfg_max_segment_bytes config + 13 + p) + p)"
proof -
  from assms(1) obtain old shut open_recs where
    recs: "recs = old @ concat (map snd shut) @ open_recs" and holds: "writer_holds w old shut open_recs"
    and pressed: "pressed config p old shut"
    by (auto simp: writer_inv_def)
  have ok: "list_all frame_ok (concat (map snd shut))" "list_all frame_ok open_recs"
    using assms(2) recs by (simp_all add: list_all_append)
  show ?thesis
  proof (cases "w_segment w")
    case None
    with holds recs show ?thesis
      by (simp add: writer_holds_def replay_def writer_finish_def writer_flush_def)
  next
    case (Some seg)
    have "replay (w_dir (writer_finish w)) = concat (map snd shut) @ open_recs"
      using flush_holds(2) [OF holds assms(3) Some] replay_closed [OF ok(1)] decode_log [OF ok(2)]
      by (simp add: replay_append writer_finish_def) (simp add: replay_def)
    moreover have "open_recs \<noteq> []" using holds Some by (auto simp: writer_holds_def)
    moreover have "dir_size (w_dir (writer_finish w))
      = sum_list (map (\<lambda>(n, rs). length (log_bytes rs)) shut) + length (log_bytes open_recs)"
      unfolding writer_finish_def flush_holds(2) [OF holds assms(3) Some] by (simp add: comp_def case_prod_unfold)
    ultimately show ?thesis using recs pressed by (intro exI [of _ old]) (auto simp: pressed_def)
  qed
qed


text \<open>Three records, the first segment rotated out of the budget.\<close>

definition tiny_config :: CategoryConfig where
  "tiny_config = \<lparr>cfg_category = KeyPress, cfg_ring_capacity = 8, cfg_max_segment_bytes = 14,
     cfg_max_segment_duration = secs 60, cfg_max_total_bytes = 20, cfg_flush_interval = secs 1,
     cfg_start_active = True\<rparr>"

definition three_writes :: "writer_event list" where
  "three_writes =
     [WriteRec \<lparr>rec_capture_us = 1, rec_control_source = 255, rec_payload = [10, 11]\<rparr> 0 0,
      WriteRec \<lparr>rec_capture_us = 2, rec_control_source = 255, rec_payload = [12]\<rparr> 5 9, FlushCheck 7,
      WriteRec \<lparr>rec_capture_us = 3, rec_control_source = 255, rec_payload = [13, 14]\<rparr> 9 20]"


end
