(* ===== verification/Actuator.thy ===== *)
theory Actuator
  imports Channel_B
begin

text \<open>The actuator bridge of robot-edge: the commands and events exchanged with the bridge process
  (\<open>bridge/protocol.rs\<close>, whose JSON text form is the serde library's) and the supervisor that
  restarts it (\<open>bridge/process.rs\<close>).  The process itself is outside the program; the supervisor's
  model takes how long each run of it lasted.\<close>

section \<open>Commands and events\<close>

datatype BridgeCommand =
  Move fl fl u64 | Turn fl u64 | Attitude char fl u64 | Action u8 u64 | Motor u8 fl u64
  | Arm fl fl u64 | Claw u8 u64 | Stop u64 | Heartbeat u64 | Query u64 | Estop u64 | EstopClear u64

fun bridge_seq :: "BridgeCommand \<Rightarrow> u64" where
  "bridge_seq (Move x y seq) = seq"
| "bridge_seq (Turn step seq) = seq"
| "bridge_seq (Attitude axis data seq) = seq"
| "bridge_seq (Action i seq) = seq"
| "bridge_seq (Motor i angle seq) = seq"
| "bridge_seq (Arm x z seq) = seq"
| "bridge_seq (Claw pos seq) = seq"
| "bridge_seq (Stop seq) = seq"
| "bridge_seq (Heartbeat seq) = seq"
| "bridge_seq (Query seq) = seq"
| "bridge_seq (Estop seq) = seq"
| "bridge_seq (EstopClear seq) = seq"

datatype BridgeEvent =
  EvAck "u64 option" bool "string option"
  | EvTelemetry fl "fl list" u8 fl fl fl
  | EvStatus string "string option"
  | EvLog string string

datatype SupervisorEvent = FromBridge BridgeEvent | ProcessDied nat bool | GaveUp

section \<open>The supervisor\<close>

record BridgeConfig =
  bc_max_restart_attempts :: nat
  bc_restart_window :: duration

definition bridge_config_default :: BridgeConfig where
  "bridge_config_default = \<lparr>bc_max_restart_attempts = 3, bc_restart_window = secs 60\<rparr>"

record Supervisor =
  sv_attempts :: nat
  sv_window_start :: instant

definition supervisor_new :: "instant \<Rightarrow> Supervisor" where
  "supervisor_new now = \<lparr>sv_attempts = 0, sv_window_start = now\<rparr>"

definition backoff_for :: "nat \<Rightarrow> duration" where
  "backoff_for attempt = millis (200 * 2 ^ min attempt 5)"

definition record_failure_and_maybe_give_up ::
  "BridgeConfig \<Rightarrow> Supervisor \<Rightarrow> instant \<Rightarrow> Supervisor \<times> SupervisorEvent \<times> bool" where
  "record_failure_and_maybe_give_up config s now =
     (let s = (if bc_restart_window config < duration_since now (sv_window_start s)
               then s\<lparr>sv_attempts := 0, sv_window_start := now\<rparr> else s);
          s = s\<lparr>sv_attempts := sv_attempts s + 1\<rparr>
      in if bc_max_restart_attempts config < sv_attempts s then (s, GaveUp, False)
         else (s, ProcessDied (sv_attempts s) True, True))"

text \<open>The supervisor's outer loop over the process's runs: each run lasts \<open>d\<close> (zero when it could not
  be started) and is followed by the back-off.  The result is the events it reports, each with its
  time, and whether it is still supervising when the list of runs ends.\<close>

fun supervise ::
  "BridgeConfig \<Rightarrow> Supervisor \<Rightarrow> instant \<Rightarrow> duration list \<Rightarrow> (instant \<times> SupervisorEvent) list \<times> bool" where
  "supervise config s now [] = ([], True)"
| "supervise config s now (d # runs) =
     (let now = now + d;
          (s, event, continue) = record_failure_and_maybe_give_up config s now
      in if \<not> continue then ([(now, event)], False)
         else
           let (events, up) = supervise config s (now + backoff_for (sv_attempts s)) runs
           in ((now, event) # events, up))"

section \<open>Restarts are bounded\<close>

lemma record_failure_within:
  assumes "now \<le> sv_window_start s + bc_restart_window config"
  shows "record_failure_and_maybe_give_up config s now =
    (s\<lparr>sv_attempts := sv_attempts s + 1\<rparr>,
     if bc_max_restart_attempts config < sv_attempts s + 1 then GaveUp else ProcessDied (sv_attempts s + 1) True,
     sv_attempts s + 1 \<le> bc_max_restart_attempts config)"
  using assms by (auto simp: record_failure_and_maybe_give_up_def duration_since_def Let_def)

text \<open>How long the process may live in all, over \<open>n\<close> more restarts from attempt \<open>a\<close>, back-offs included.\<close>

definition crash_time :: "nat \<Rightarrow> nat \<Rightarrow> duration list \<Rightarrow> duration" where
  "crash_time a n runs = sum_list (take (n + 1) runs) + sum_list (map backoff_for [a + 1..<a + n + 1])"

lemma crash_time_Suc:
  "crash_time a (Suc n) (d # runs) = d + backoff_for (a + 1) + crash_time (a + 1) n runs"
  by (simp add: crash_time_def upt_conv_Cons del: upt_Suc)

lemma supervise_crash_loop:
  assumes "bc_max_restart_attempts config = sv_attempts s + n" and "n < length runs"
    and "now + crash_time (sv_attempts s) n runs \<le> sv_window_start s + bc_restart_window config"
  shows "map snd (fst (supervise config s now runs))
      = map (\<lambda>k. ProcessDied k True) [sv_attempts s + 1..<sv_attempts s + n + 1] @ [GaveUp]
    \<and> \<not> snd (supervise config s now runs)"
  using assms
proof (induction n arbitrary: s now runs)
  case 0
  then obtain d rest where runs: "runs = d # rest" by (cases runs) auto
  with 0 have "now + d \<le> sv_window_start s + bc_restart_window config" by (simp add: crash_time_def)
  with 0 runs show ?case by (simp add: record_failure_within Let_def)
next
  case (Suc n)
  then obtain d rest where runs: "runs = d # rest" by (cases runs) auto
  let ?s = "s\<lparr>sv_attempts := sv_attempts s + 1\<rparr>" and ?now = "now + d + backoff_for (sv_attempts s + 1)"
  from Suc.prems(3) runs have t: "?now + crash_time (sv_attempts ?s) n rest \<le> sv_window_start ?s + bc_restart_window config"
    using crash_time_Suc [of "sv_attempts s" n d rest] by simp
  then have w: "now + d \<le> sv_window_start s + bc_restart_window config" by simp
  have IH: "map snd (fst (supervise config ?s ?now rest))
      = map (\<lambda>k. ProcessDied k True) [sv_attempts ?s + 1..<sv_attempts ?s + n + 1] @ [GaveUp]
    \<and> \<not> snd (supervise config ?s ?now rest)"
    by (rule Suc.IH) (use Suc.prems runs t in simp_all)
  have r: "[sv_attempts s + 1..<sv_attempts s + Suc n + 1]
      = (sv_attempts s + 1) # [sv_attempts ?s + 1..<sv_attempts ?s + n + 1]"
    by (simp add: upt_conv_Cons del: upt_Suc)
  obtain evs up where e: "supervise config ?s ?now rest = (evs, up)" by fastforce
  have "supervise config s now runs = ((now + d, ProcessDied (sv_attempts s + 1) True) # evs, up)"
    using Suc.prems(1) e by (simp add: runs record_failure_within [OF w] Let_def)
  with IH e show ?case unfolding r by simp
qed

text \<open>Whatever happens, an event is a death that will be retried, numbered within the limit, or the last
  word.\<close>

definition in_limit :: "BridgeConfig \<Rightarrow> SupervisorEvent \<Rightarrow> bool" where
  "in_limit config e \<longleftrightarrow> (\<exists>k. e = ProcessDied k True \<and> 1 \<le> k \<and> k \<le> bc_max_restart_attempts config)"

lemma supervise_events:
  "\<exists>deaths. list_all (in_limit config) deaths
     \<and> map snd (fst (supervise config s now runs)) = deaths @ (if snd (supervise config s now runs) then [] else [GaveUp])
     \<and> length deaths + (if snd (supervise config s now runs) then 0 else 1) \<le> length runs"
proof (induction config s now runs rule: supervise.induct)
  case (2 config s now d runs)
  obtain s' e c where r: "record_failure_and_maybe_give_up config s (now + d) = (s', e, c)" by (metis prod_cases3)
  show ?case
  proof (cases c)
    case True
    then have e: "in_limit config e"
      using r by (auto simp: record_failure_and_maybe_give_up_def in_limit_def Let_def split: if_splits)
    obtain evs up where sup: "supervise config s' (now + d + backoff_for (sv_attempts s')) runs = (evs, up)" by fastforce
    from 2 [OF refl r [symmetric] refl refl] True sup obtain deaths where
      "list_all (in_limit config) deaths" "map snd evs = deaths @ (if up then [] else [GaveUp])"
      "length deaths + (if up then 0 else 1) \<le> length runs" by auto
    with e True r sup show ?thesis by (intro exI [of _ "e # deaths"]) (simp add: Let_def)
  next
    case False
    then have "e = GaveUp"
      using r by (auto simp: record_failure_and_maybe_give_up_def Let_def split: if_splits)
    with False r show ?thesis by (intro exI [of _ "[]"]) (simp add: Let_def)
  qed
qed simp

text \<open>C33: a bridge process that keeps crashing is given up on.  If its first runs up to one more than the
  allowed restarts, with the back-offs between them, fit in the restart window, the supervisor reports
  exactly that many numbered deaths, then that it gave up, and stops; under the default configuration
  any four runs of at most 14 seconds do.  In every case its reports are deaths numbered within the
  limit, each announcing a retry, with at most one give-up, at the very end.\<close>

theorem supervisor_gives_up_on_crash_loop:
  "(bc_max_restart_attempts config < length runs
      \<and> crash_time 0 (bc_max_restart_attempts config) runs \<le> bc_restart_window config
    \<longrightarrow> map snd (fst (supervise config (supervisor_new t) t runs))
          = map (\<lambda>k. ProcessDied k True) [1..<bc_max_restart_attempts config + 1] @ [GaveUp]
        \<and> \<not> snd (supervise config (supervisor_new t) t runs))
   \<and> (list_all (\<lambda>d. d \<le> secs 14) runs \<and> 4 \<le> length runs
    \<longrightarrow> map snd (fst (supervise bridge_config_default (supervisor_new t) t runs))
          = [ProcessDied 1 True, ProcessDied 2 True, ProcessDied 3 True, GaveUp])
   \<and> (\<exists>deaths. list_all (in_limit config) deaths
        \<and> map snd (fst (supervise config s now runs))
            = deaths @ (if snd (supervise config s now runs) then [] else [GaveUp]))"
proof (intro conjI impI)
  let ?n = "bc_max_restart_attempts config"
  assume "?n < length runs \<and> crash_time 0 ?n runs \<le> bc_restart_window config"
  then show "map snd (fst (supervise config (supervisor_new t) t runs))
          = map (\<lambda>k. ProcessDied k True) [1..<?n + 1] @ [GaveUp]"
    and "\<not> snd (supervise config (supervisor_new t) t runs)"
    using supervise_crash_loop [of config "supervisor_new t" ?n runs t] by (simp_all add: supervisor_new_def)
next
  assume short: "list_all (\<lambda>d. d \<le> secs 14) runs \<and> 4 \<le> length runs"
  then have "length (take 4 runs) = 4" by simp
  then obtain a b c d where four: "take 4 runs = [a, b, c, d]"
    by (auto simp: length_Suc_conv eval_nat_numeral simp del: length_take)
  moreover from four have "{a, b, c, d} \<subseteq> set runs" using set_take_subset [of 4 runs] four by simp
  ultimately have "a \<le> secs 14" "b \<le> secs 14" "c \<le> secs 14" "d \<le> secs 14"
    using short by (auto simp: list_all_iff)
  with four have "crash_time 0 3 runs \<le> secs 60"
    by (simp add: crash_time_def secs_def backoff_for_def millis_def upt_rec)
  then show "map snd (fst (supervise bridge_config_default (supervisor_new t) t runs))
          = [ProcessDied 1 True, ProcessDied 2 True, ProcessDied 3 True, GaveUp]"
    using supervise_crash_loop [of bridge_config_default "supervisor_new t" 3 runs t] short
    by (simp add: supervisor_new_def bridge_config_default_def upt_rec)
next
  show "\<exists>deaths. list_all (in_limit config) deaths
        \<and> map snd (fst (supervise config s now runs))
            = deaths @ (if snd (supervise config s now runs) then [] else [GaveUp])"
    using supervise_events by blast
qed

theorem supervisor_gives_up_on_crash_loop_witness:
  "map snd (fst (supervise bridge_config_default (supervisor_new 7) 7 [secs 1, 0, secs 2, secs 14, 5]))
     = [ProcessDied 1 True, ProcessDied 2 True, ProcessDied 3 True, GaveUp]"
  using supervisor_gives_up_on_crash_loop [of bridge_config_default "[secs 1, 0, secs 2, secs 14, 5]" 7]
  by (simp add: secs_def)

end
