(* ===== verification/Autonomy.thy ===== *)
theory Autonomy
  imports Channel_B Recording
begin

text \<open>The channel C sidecar of robot-edge (\<open>zenoh_bridge.rs\<close>): the freshness-gated autonomy goal, and
  the three publishers, whose queues are bounded so that they never block.  The Zenoh session is
  outside the program: a queue's receiving end is modelled by the argument that says whether it had
  room.\<close>

section \<open>The autonomy goal\<close>

definition AUTONOMY_GOAL_TTL :: duration where "AUTONOMY_GOAL_TTL = millis 500"
definition AUTONOMY_MAX_VX :: fl where "AUTONOMY_MAX_VX = Fin 15"
definition AUTONOMY_MAX_VY :: fl where "AUTONOMY_MAX_VY = Fin 12"
definition AUTONOMY_MAX_TURN :: fl where "AUTONOMY_MAX_TURN = Fin 60"

record AutonomyVelocity =
  av_vx :: fl
  av_vy :: fl
  av_turn :: fl

definition velocity_default :: AutonomyVelocity where
  "velocity_default = \<lparr>av_vx = Fin 0, av_vy = Fin 0, av_turn = Fin 0\<rparr>"

definition decode_autonomy_velocity :: "bytes \<Rightarrow> AutonomyVelocity" where
  "decode_autonomy_velocity payload =
     (if length payload \<noteq> 12 then velocity_default
      else
        let f = (\<lambda>i. f32_of_bits (of_be32 (slice i (i + 4) payload)));
            vx = f 0; vy = f 4; turn = f 8
        in if \<not> (is_finite vx \<and> is_finite vy \<and> is_finite turn) then velocity_default
           else \<lparr>av_vx = fclamp (fneg AUTONOMY_MAX_VX) AUTONOMY_MAX_VX vx,
                 av_vy = fclamp (fneg AUTONOMY_MAX_VY) AUTONOMY_MAX_VY vy,
                 av_turn = fclamp (fneg AUTONOMY_MAX_TURN) AUTONOMY_MAX_TURN turn\<rparr>)"

definition as_millis :: "duration \<Rightarrow> nat" where
  "as_millis d = d div 1000000"

record AutonomyGoal =
  ag_last_seen_ms :: nat
  ag_velocity :: AutonomyVelocity
  ag_epoch :: instant

definition goal_new :: "instant \<Rightarrow> AutonomyGoal" where
  "goal_new now = \<lparr>ag_last_seen_ms = 0, ag_velocity = velocity_default, ag_epoch = now\<rparr>"

definition mark_seen :: "AutonomyGoal \<Rightarrow> instant \<Rightarrow> bytes \<Rightarrow> AutonomyGoal" where
  "mark_seen g now payload =
     g\<lparr>ag_velocity := decode_autonomy_velocity payload,
       ag_last_seen_ms := as_millis (duration_since now (ag_epoch g)) + 1\<rparr>"

definition goal_asserted :: "AutonomyGoal \<Rightarrow> instant \<Rightarrow> bool" where
  "goal_asserted g now =
     (if ag_last_seen_ms g = 0 then False
      else as_millis (duration_since now (ag_epoch g)) + 1 - ag_last_seen_ms g
             < as_millis AUTONOMY_GOAL_TTL)"

definition goal_velocity :: "AutonomyGoal \<Rightarrow> instant \<Rightarrow> AutonomyVelocity" where
  "goal_velocity g now = (if goal_asserted g now then ag_velocity g else velocity_default)"

section \<open>The publishers\<close>

definition VIDEO_CRITICAL_QUEUE :: nat where "VIDEO_CRITICAL_QUEUE = 32"

record VideoSink =
  vs_critical :: "bytes list"
  vs_capacity :: nat
  vs_delta :: "bytes option"
  vs_subscribed :: bool

definition video_sink_publish :: "VideoSink \<Rightarrow> bytes \<Rightarrow> bool \<Rightarrow> VideoSink" where
  "video_sink_publish s payload is_critical =
     (if \<not> vs_subscribed s then s
      else if is_critical then
        (if length (vs_critical s) < vs_capacity s
         then s\<lparr>vs_critical := vs_critical s @ [payload]\<rparr> else s)
      else s\<lparr>vs_delta := Some payload\<rparr>)"

definition annexb_nal_type :: "bytes \<Rightarrow> u8 option" where
  "annexb_nal_type payload = (if 4 < length payload then Some (payload ! 4 AND 0x1f) else None)"

text \<open>The telemetry queue holds one sample; a full queue keeps the one it has.\<close>

definition telemetry_sink_publish :: "TelemetryData option \<Rightarrow> TelemetryData \<Rightarrow> TelemetryData option" where
  "telemetry_sink_publish queue data = (case queue of None \<Rightarrow> Some data | Some d \<Rightarrow> Some d)"

definition COMMAND_REPEAT :: duration where "COMMAND_REPEAT = millis 250"

definition encode_command :: "ControlSource \<Rightarrow> TeleopCommand \<Rightarrow> bytes" where
  "encode_command source cmd =
     [control_source_byte source]
     @ concat (List.map be32 [tc_vx cmd, tc_vy cmd, tc_turn cmd, tc_attitude_r cmd, tc_attitude_p cmd,
                              tc_attitude_y cmd])
     @ be16 (tc_arm_x cmd) @ be16 (tc_arm_z cmd) @ [tc_claw cmd]"

record CommandSink =
  ks_last :: "(bytes \<times> instant) option"

text \<open>\<open>publish_at\<close>: the state after it, and what was put in the queue.  \<open>room\<close> is whether the queue
  had room.\<close>

definition publish_at ::
  "CommandSink \<Rightarrow> instant \<Rightarrow> bool \<Rightarrow> ControlSource \<Rightarrow> TeleopCommand \<Rightarrow> CommandSink \<times> bytes option" where
  "publish_at s now room source cmd =
     (let payload = encode_command source cmd
      in if (case ks_last s of
               Some (sent, sent_at) \<Rightarrow> sent = payload \<and> duration_since now sent_at < COMMAND_REPEAT
             | None \<Rightarrow> False)
         then (s, None)
         else if room then (s\<lparr>ks_last := Some (payload, now)\<rparr>, Some payload)
         else (s, None))"

definition inert_command_sink :: CommandSink where
  "inert_command_sink = \<lparr>ks_last = None\<rparr>"

text \<open>The task that drains the video queues: it replays the last SPS and PPS to a new subscriber.  An
  event is what its \<open>select\<close> picked; the result is what it puts on the topic.\<close>

datatype video_task_event = CriticalNal bytes | Resubscribed | DeltaChanged "bytes option"

record VideoTask =
  vt_sps :: "bytes option"
  vt_pps :: "bytes option"

definition video_task_new :: VideoTask where
  "video_task_new = \<lparr>vt_sps = None, vt_pps = None\<rparr>"

fun video_task_step :: "VideoTask \<Rightarrow> video_task_event \<Rightarrow> VideoTask \<times> bytes list" where
  "video_task_step t (CriticalNal payload) =
     (if annexb_nal_type payload = Some 7 then t\<lparr>vt_sps := Some payload\<rparr>
      else if annexb_nal_type payload = Some 8 then t\<lparr>vt_pps := Some payload\<rparr> else t, [payload])"
| "video_task_step t Resubscribed =
     (t, List.map_filter id [vt_sps t, vt_pps t])"
| "video_task_step t (DeltaChanged payload) =
     (t, case payload of None \<Rightarrow> [] | Some p \<Rightarrow> [p])"

section \<open>What an autonomy source can make the robot do\<close>

lemma fclamp_in:
  assumes "is_finite x" and "0 \<le> m"
  shows "\<exists>r. fclamp (Fin (- m)) (Fin m) x = Fin r \<and> \<bar>r\<bar> \<le> m"
  using assms by (cases x) (auto simp: fclamp_def abs_le_iff)

definition within_limits :: "AutonomyVelocity \<Rightarrow> bool" where
  "within_limits v \<longleftrightarrow>
     (\<exists>x y t. v = \<lparr>av_vx = Fin x, av_vy = Fin y, av_turn = Fin t\<rparr> \<and> \<bar>x\<bar> \<le> 15 \<and> \<bar>y\<bar> \<le> 12 \<and> \<bar>t\<bar> \<le> 60)"

lemma decode_within_limits: "within_limits (decode_autonomy_velocity payload)"
proof -
  define vx where "vx = f32_of_bits (of_be32 (slice 0 4 payload))"
  define vy where "vy = f32_of_bits (of_be32 (slice 4 8 payload))"
  define turn where "turn = f32_of_bits (of_be32 (slice 8 12 payload))"
  show ?thesis
    using fclamp_in [of vx 15] fclamp_in [of vy 12] fclamp_in [of turn 60]
    by (auto simp: decode_autonomy_velocity_def within_limits_def velocity_default_def Let_def
        AUTONOMY_MAX_VX_def AUTONOMY_MAX_VY_def AUTONOMY_MAX_TURN_def
        vx_def [symmetric] vy_def [symmetric] turn_def [symmetric])
qed

text \<open>A goal and the samples it has received, newest first.\<close>

definition goal_run :: "instant \<Rightarrow> (instant \<times> bytes) list \<Rightarrow> AutonomyGoal" where
  "goal_run start samples = foldl (\<lambda>g (now, payload). mark_seen g now payload) (goal_new start) samples"

lemma goal_run_snoc: "goal_run start (ss @ [(seen, p)]) = mark_seen (goal_run start ss) seen p"
  by (simp add: goal_run_def)

lemma goal_run_epoch: "ag_epoch (goal_run start ss) = start"
  by (induction ss rule: rev_induct) (auto simp: goal_run_def goal_new_def mark_seen_def)

lemma goal_run_empty [simp]: "goal_asserted (goal_run start []) now = False"
  by (simp add: goal_run_def goal_new_def goal_asserted_def)

lemma asserted_snoc:
  "goal_asserted (goal_run start (ss @ [(seen, p)])) now
     \<longleftrightarrow> as_millis (now - start) < as_millis (seen - start) + 500"
  by (auto simp: goal_run_snoc goal_asserted_def mark_seen_def goal_run_epoch duration_since_def as_millis_def
      AUTONOMY_GOAL_TTL_def millis_def)

text \<open>An autonomy source is bounded and never latches.  Whatever bytes it sends and whenever (after the goal was set up),
  the velocity read at a safety tick is finite and within the operator's own limits; it is zero, and
  the goal not asserted, unless some sample arrived; the last sample alone decides; and once half a
  second and a millisecond has passed since that sample, the goal is off again and the velocity zero.\<close>

theorem autonomy_goal_bounded_and_fresh:
  assumes "list_all (\<lambda>(seen, _). start \<le> seen) samples"
  shows "within_limits (goal_velocity (goal_run start samples) now)
   \<and> (goal_asserted (goal_run start samples) now \<longrightarrow> samples \<noteq> []
        \<and> now < fst (last samples) + millis 501
        \<and> goal_velocity (goal_run start samples) now = decode_autonomy_velocity (snd (last samples)))
   \<and> (\<not> goal_asserted (goal_run start samples) now
        \<longrightarrow> goal_velocity (goal_run start samples) now = velocity_default)"
proof (cases samples rule: rev_cases)
  case Nil
  then show ?thesis by (simp add: goal_velocity_def within_limits_def velocity_default_def)
next
  case (snoc ss s)
  obtain seen p where s: "s = (seen, p)" by fastforce
  have v: "ag_velocity (goal_run start samples) = decode_autonomy_velocity p"
    by (simp add: snoc s goal_run_snoc mark_seen_def)
  have "now < seen + millis 501" if "goal_asserted (goal_run start samples) now"
  proof -
    from that have "(now - start) div 1000000 < (seen - start) div 1000000 + 500"
      by (simp only: snoc s asserted_snoc as_millis_def)
    then have "now - start < seen - start + 501 * 1000000" by linarith
    then show ?thesis using assms unfolding millis_def snoc s by auto
  qed
  then show ?thesis
    using decode_within_limits [of p] snoc s v
    by (auto simp: goal_velocity_def within_limits_def velocity_default_def)
qed

theorem autonomy_goal_bounded_and_fresh_witness:
  "goal_asserted (goal_run 0 [(5, replicate 12 0)]) 6
   \<and> goal_velocity (goal_run 0 [(5, replicate 12 0)]) 6 = decode_autonomy_velocity (replicate 12 0)
   \<and> goal_velocity (goal_run 0 [(5, replicate 12 0)]) (millis 600) = velocity_default"
proof -
  let ?g = "goal_run 0 [(5, replicate 12 0)]"
  have on: "goal_asserted ?g 6" and off: "\<not> goal_asserted ?g (millis 600)" by code_simp+
  show ?thesis
    using autonomy_goal_bounded_and_fresh [of 0 "[(5, replicate 12 0)]" 6]
      autonomy_goal_bounded_and_fresh [of 0 "[(5, replicate 12 0)]" "millis 600"] on off by simp
qed

end
