(* ===== verification/Topic_Link.thy ===== *)
theory Topic_Link
  imports Topic Rate Bulk
begin

text \<open>The QUIC side of topic forwarding (roboprotocol-zenoh's \<open>link.rs\<close>): latest samples leave as
  datagrams, reliable ones on two streams, under one shared rate cap.  The connection is a parameter
  with the operations of theory Bulk, and the caller's stream allocator is a function on a state.
  The result of an operation that can panic is an option: a budget below zero needs a connection that
  takes more bytes than it was given.\<close>

definition TOPIC_URGENCY :: u8 where "TOPIC_URGENCY = 6"
definition TOPIC_LARGE_URGENCY :: u8 where "TOPIC_LARGE_URGENCY = 7"

fun lane_urgency :: "ReliableLane \<Rightarrow> u8" where
  "lane_urgency Small = TOPIC_URGENCY"
| "lane_urgency Large = TOPIC_LARGE_URGENCY"

definition LATEST_RESERVE :: nat where "LATEST_RESERVE = 1500"
definition LINK_CHUNK :: nat where "LINK_CHUNK = 16 * 1024"

record TopicLink =
  tl_outbox :: TopicOutbox
  tl_cap :: "RateCap option"
  tl_send_streams :: "ReliableLane \<Rightarrow> u64 option"
  tl_priority_set :: "ReliableLane \<Rightarrow> bool"
  tl_readers :: "(u64, TopicStreamReader) amap"

definition link_new :: "fl \<Rightarrow> instant \<Rightarrow> TopicLink" where
  "link_new max_mbps now =
     \<lparr>tl_outbox = with_backlog (reliable_backlog max_mbps), tl_cap = cap_new max_mbps now,
      tl_send_streams = (\<lambda>_. None), tl_priority_set = (\<lambda>_. False), tl_readers = []\<rparr>"

definition link_stats :: "TopicLink \<Rightarrow> OutboxStats" where
  "link_stats l = ob_stats (tl_outbox l)"

definition link_push :: "TopicLink \<Rightarrow> TopicMode \<Rightarrow> TopicSample \<Rightarrow> TopicLink" where
  "link_push l mode sample = l\<lparr>tl_outbox := outbox_push (tl_outbox l) mode sample\<rparr>"

definition link_has_datagram :: "TopicLink \<Rightarrow> bool" where
  "link_has_datagram l = has_datagram (tl_outbox l)"

text \<open>\<open>cap.available(now)\<close> where there is a cap; no cap is no bound.\<close>

definition link_available :: "TopicLink \<Rightarrow> instant \<Rightarrow> TopicLink \<times> nat option" where
  "link_available l now =
     (case tl_cap l of
        None \<Rightarrow> (l, None)
      | Some cap \<Rightarrow> let (cap, n) = cap_available cap now in (l\<lparr>tl_cap := Some cap\<rparr>, Some n))"

definition link_consume :: "TopicLink \<Rightarrow> nat \<Rightarrow> TopicLink" where
  "link_consume l n = l\<lparr>tl_cap := map_option (\<lambda>cap. cap_consume cap n) (tl_cap l)\<rparr>"

definition link_pop_datagram :: "TopicLink \<Rightarrow> instant \<Rightarrow> nat \<Rightarrow> (TopicLink \<times> bytes option) option" where
  "link_pop_datagram l now max_len =
     (if \<not> has_datagram (tl_outbox l) then Some (l, None)
      else
        let (l, available) = link_available l now
        in if (case available of None \<Rightarrow> False | Some n \<Rightarrow> n < max_len) then Some (l, None)
           else map_option (\<lambda>(ob, d).
                  let l = l\<lparr>tl_outbox := ob\<rparr>
                  in case d of None \<Rightarrow> (l, None) | Some d \<Rightarrow> (link_consume l (length d), Some d))
                (pop_datagram (tl_outbox l) max_len))"

text \<open>The loop of \<open>pump_lane\<close> on an open stream.\<close>

function lane_loop ::
  "'c stream_send \<Rightarrow> 'c stream_priority \<Rightarrow> ReliableLane \<Rightarrow> u64 \<Rightarrow> 'c \<Rightarrow> TopicLink \<Rightarrow> nat \<Rightarrow> nat
    \<Rightarrow> ('c \<times> TopicLink \<times> nat) option" where
  "lane_loop send prio lane sid conn l left written =
     (let pending = reliable_pending (tl_outbox l) lane
      in if left = 0 \<or> pending = [] then Some (conn, l, written)
         else
           let e = min (min (length pending) LINK_CHUNK) left
           in case send conn sid (take e pending) False of
                (conn, Inr n) \<Rightarrow>
                  let (conn, l) =
                        (if 0 < n \<and> \<not> tl_priority_set l lane
                         then (prio conn sid (lane_urgency lane) False,
                               l\<lparr>tl_priority_set := (tl_priority_set l)(lane := True)\<rparr>)
                         else (conn, l));
                      l = l\<lparr>tl_outbox := consume_reliable (tl_outbox l) lane n\<rparr>
                  in if left < n then None
                     else if n < e then Some (conn, l, written + n)
                     else lane_loop send prio lane sid conn l (left - n) (written + n)
              | (conn, Inl SendBlocked) \<Rightarrow> Some (conn, l, written)
              | (conn, Inl SendFailed) \<Rightarrow>
                  Some (conn, l\<lparr>tl_outbox := consume_reliable (tl_outbox l) lane (2 ^ 64 - 1)\<rparr>, written))"
  by pat_completeness auto
termination
  by (relation "measure (\<lambda>(_, _, _, _, _, _, left, _). left)") (auto simp: LINK_CHUNK_def simp flip: length_greater_0_conv)

declare lane_loop.simps [simp del]

definition pump_lane ::
  "'c stream_send \<Rightarrow> 'c stream_priority \<Rightarrow> ('b \<Rightarrow> 'b \<times> u64) \<Rightarrow> ReliableLane \<Rightarrow> 'c \<Rightarrow> 'b \<Rightarrow> TopicLink \<Rightarrow> nat
    \<Rightarrow> ('c \<times> 'b \<times> TopicLink \<times> nat) option" where
  "pump_lane send prio alloc lane conn b l left =
     (if left = 0 \<or> reliable_pending (tl_outbox l) lane = [] then Some (conn, b, l, 0)
      else
        let (b, sid) = (case tl_send_streams l lane of Some sid \<Rightarrow> (b, sid) | None \<Rightarrow> alloc b);
            l = l\<lparr>tl_send_streams := (tl_send_streams l)(lane := Some sid)\<rparr>
        in map_option (\<lambda>(conn, l, written). (conn, b, l, written)) (lane_loop send prio lane sid conn l left 0))"

definition pump_reliable ::
  "'c stream_send \<Rightarrow> 'c stream_priority \<Rightarrow> ('b \<Rightarrow> 'b \<times> u64) \<Rightarrow> 'c \<Rightarrow> 'b \<Rightarrow> TopicLink \<Rightarrow> instant \<Rightarrow> nat option
    \<Rightarrow> ('c \<times> 'b \<times> TopicLink \<times> nat) option" where
  "pump_reliable send prio alloc conn b l now budget =
     (if reliable_pending (tl_outbox l) Small = [] \<and> reliable_pending (tl_outbox l) Large = []
      then Some (conn, b, l, 0)
      else
        let reserve = (if has_datagram (tl_outbox l) then LATEST_RESERVE else 0);
            (l, available) = link_available l now;
            bound = (\<lambda>x. case x of None \<Rightarrow> 2 ^ 64 - 1 | Some n \<Rightarrow> n);
            left = min (bound budget) (bound (map_option (\<lambda>n. n - reserve) available))
        in Option.bind (pump_lane send prio alloc Small conn b l left) (\<lambda>(conn, b, l, n).
           if reliable_pending (tl_outbox l) Small \<noteq> [] then Some (conn, b, link_consume l n, n)
           else if left < n then None
           else Option.bind (pump_lane send prio alloc Large conn b l (left - n)) (\<lambda>(conn, b, l, m).
             if left - n < m then None else Some (conn, b, link_consume l (n + m), n + m))))"

definition is_reading :: "TopicLink \<Rightarrow> u64 \<Rightarrow> bool" where
  "is_reading l stream_id = (stream_id \<in> set (keys (tl_readers l)))"

definition link_on_stream_data ::
  "TopicLink \<Rightarrow> u64 \<Rightarrow> bytes \<Rightarrow> bool \<Rightarrow> TopicLink \<times> TopicSample list \<times> TopicError list" where
  "link_on_stream_data l stream_id data fin =
     (let reader = (case map_of (tl_readers l) stream_id of Some r \<Rightarrow> r | None \<Rightarrow> reader_new);
          (reader, samples, errors) = reader_push reader data;
          readers = AList.update stream_id reader (tl_readers l)
      in (l\<lparr>tl_readers := (if fin then AList.delete stream_id readers else readers)\<rparr>, samples, errors))"

definition link_on_stream_reset :: "TopicLink \<Rightarrow> u64 \<Rightarrow> TopicLink" where
  "link_on_stream_reset l stream_id = l\<lparr>tl_readers := AList.delete stream_id (tl_readers l)\<rparr>"


section \<open>What a pump writes\<close>

lemma pending_consume:
  "reliable_pending (consume_reliable ob lane n) lane' =
     (if lane' = lane then drop n (reliable_pending ob lane) else reliable_pending ob lane')"
proof -
  have "drop (min n (length xs)) xs = drop n xs" for xs :: bytes by (simp add: min_def)
  then show ?thesis by (simp add: consume_reliable_def reliable_pending_def Let_def split: prod.splits)
qed

lemma send_refused:
  assumes "quiche_laws send prio sent" and "send c sid d fin = (c', Inl e)"
  shows "sent c' = sent c"
  using quiche_lawsD [OF assms] by (intro ext) (metis sum.simps(5))

lemma send_took:
  assumes "quiche_laws send prio sent" and "send c sid d fin = (c', Inr n)"
  shows "n \<le> length d \<and> sent c' = (sent c)(sid := (fst (sent c sid) @ take n d, fin \<and> n = length d))"
  using quiche_lawsD [OF assms] by auto

lemma lane_loop_took:
  assumes "left \<noteq> 0" and "reliable_pending (tl_outbox l) lane \<noteq> []"
    and "e = min (min (length (reliable_pending (tl_outbox l) lane)) LINK_CHUNK) left"
    and "send conn sid (take e (reliable_pending (tl_outbox l) lane)) False = (c1, Inr n)" and "n \<le> left"
    and "p = (0 < n \<and> \<not> tl_priority_set l lane)"
    and "l1 = (if p then l\<lparr>tl_priority_set := (tl_priority_set l)(lane := True)\<rparr> else l)"
    and "l2 = l1\<lparr>tl_outbox := consume_reliable (tl_outbox l1) lane n\<rparr>"
    and "c2 = (if p then prio c1 sid (lane_urgency lane) False else c1)"
  shows "lane_loop send prio lane sid conn l left written =
     (if n < e then Some (c2, l2, written + n) else lane_loop send prio lane sid c2 l2 (left - n) (written + n))"
  using assms(1,2,4,5) unfolding assms(7-9)
  by (subst lane_loop.simps) (simp add: Let_def assms(3,6))

text \<open>What the connection has accepted on a stream, and one step of it: the bytes \<open>ws\<close> went from the
  lane to its stream, and nothing else moved.\<close>

definition moved ::
  "('c \<Rightarrow> u64 \<Rightarrow> bytes \<times> bool) \<Rightarrow> ReliableLane \<Rightarrow> u64 \<Rightarrow> 'c \<times> TopicLink \<Rightarrow> 'c \<times> TopicLink \<Rightarrow> bytes \<Rightarrow> bool" where
  "moved sent lane sid before after ws \<longleftrightarrow>
     fst (sent (fst after) sid) = fst (sent (fst before) sid) @ ws
     \<and> (\<forall>other. other \<noteq> sid \<longrightarrow> sent (fst after) other = sent (fst before) other)
     \<and> reliable_pending (tl_outbox (snd before)) lane = ws @ reliable_pending (tl_outbox (snd after)) lane
     \<and> (\<forall>other. other \<noteq> lane \<longrightarrow>
          reliable_pending (tl_outbox (snd after)) other = reliable_pending (tl_outbox (snd before)) other)
     \<and> tl_send_streams (snd after) = tl_send_streams (snd before) \<and> tl_cap (snd after) = tl_cap (snd before)"

lemma lane_loop_moves:
  assumes "quiche_laws send prio sent" and "never_fails send"
  shows "\<exists>c' l' ws. lane_loop send prio lane sid conn l left written = Some (c', l', written + length ws)
    \<and> moved sent lane sid (conn, l) (c', l') ws \<and> length ws \<le> left"
  using assms
proof (induction send prio lane sid conn l left written rule: lane_loop.induct)
  case (1 send prio lane sid conn l left written)
  let ?p = "reliable_pending (tl_outbox l) lane"
  let ?e = "min (min (length ?p) LINK_CHUNK) left"
  show ?case
  proof (cases "left = 0 \<or> ?p = []")
    case True
    then show ?thesis
      by (intro exI [of _ conn] exI [of _ l] exI [of _ "[]"])
        (subst lane_loop.simps, auto simp: Let_def moved_def)
  next
    case False
    obtain c1 r where send: "send conn sid (take ?e ?p) False = (c1, r)" by fastforce
    show ?thesis
    proof (cases r)
      case (Inl e)
      with "1.prems"(2) send have e: "e = SendBlocked"
        unfolding never_fails_def by (cases e) (auto, metis snd_conv)
      have same: "sent c1 = sent conn" using send_refused "1.prems"(1) send Inl by metis
      have "lane_loop send prio lane sid conn l left written = Some (c1, l, written)"
        using False send Inl e by (subst lane_loop.simps) (simp add: Let_def)
      then show ?thesis
        by (intro exI [of _ c1] exI [of _ l] exI [of _ "[]"]) (simp add: moved_def same)
    next
      case (Inr n)
      have took: "n \<le> length (take ?e ?p)
          \<and> sent c1 = (sent conn)(sid := (fst (sent conn sid) @ take n (take ?e ?p), False \<and> n = length (take ?e ?p)))"
        using "1.prems"(1) send unfolding Inr by (rule send_took)
      then have n: "n \<le> ?e" by simp
      have sent1: "fst (sent c1 sid) = fst (sent conn sid) @ take n ?p"
        "\<And>other. other \<noteq> sid \<Longrightarrow> sent c1 other = sent conn other"
        using took n by (simp_all add: take_take min_absorb1)
      define pr where "pr = (0 < n \<and> \<not> tl_priority_set l lane)"
      define c2 where "c2 = (if pr then prio c1 sid (lane_urgency lane) False else c1)"
      define l1 where "l1 = (if pr then l\<lparr>tl_priority_set := (tl_priority_set l)(lane := True)\<rparr> else l)"
      define l2 where "l2 = l1\<lparr>tl_outbox := consume_reliable (tl_outbox l1) lane n\<rparr>"
      have loop: "lane_loop send prio lane sid conn l left written =
          (if n < ?e then Some (c2, l2, written + n) else lane_loop send prio lane sid c2 l2 (left - n) (written + n))"
        by (rule lane_loop_took [where e = ?e and p = pr and ?l1.0 = l1 and ?c1.0 = c1])
            (use False n send Inr in \<open>simp_all add: pr_def l1_def l2_def c2_def\<close>)
      have sent2: "sent c2 = sent c1" using "1.prems"(1) by (simp add: c2_def quiche_laws_def)
      have step: "moved sent lane sid (conn, l) (c2, l2) (take n ?p)"
        using sent1 sent2 by (auto simp: moved_def l2_def l1_def pending_consume)
      have len: "length (take n ?p) = n" using n by simp
      have le: "\<not> left < n" using n by simp
      show ?thesis
      proof (cases "n < ?e")
        case True
        then show ?thesis using loop step len le
          by (intro exI [of _ c2] exI [of _ l2] exI [of _ "take n ?p"]) simp
      next
        case nl: False
        then have rec: "lane_loop send prio lane sid conn l left written
            = lane_loop send prio lane sid c2 l2 (left - n) (written + n)"
          unfolding loop by (rule if_not_P)
        have pair: "(c2, l1) = (if 0 < n \<and> \<not> tl_priority_set l lane
            then (prio c1 sid (lane_urgency lane) False, l\<lparr>tl_priority_set := (tl_priority_set l)(lane := True)\<rparr>)
            else (c1, l))"
          by (simp add: c2_def l1_def pr_def)
        have "\<exists>c' l' ws. lane_loop send prio lane sid c2 l2 (left - n) (written + n) = Some (c', l', written + n + length ws)
            \<and> moved sent lane sid (c2, l2) (c', l') ws \<and> length ws \<le> left - n"
          by (rule "1.IH" [OF refl False refl send [symmetric] Inr refl pair l2_def le nl "1.prems"])
        then obtain c' l' ws where ws:
          "lane_loop send prio lane sid c2 l2 (left - n) (written + n) = Some (c', l', written + n + length ws)"
          "moved sent lane sid (c2, l2) (c', l') ws" "length ws \<le> left - n" by blast
        have "moved sent lane sid (conn, l) (c', l') (take n ?p @ ws)"
          using step ws(2) by (auto simp: moved_def)
        then show ?thesis using rec ws le len
          by (intro exI [of _ c'] exI [of _ l'] exI [of _ "take n ?p @ ws"]) simp
      qed
    qed
  qed
qed

lemma pump_lane_moves:
  assumes "quiche_laws send prio sent" and "never_fails send"
  shows "\<exists>c' b' l' ws. pump_lane send prio alloc lane conn b l left = Some (c', b', l', length ws)
    \<and> length ws \<le> left
    \<and> (\<forall>s. fst (sent c' s) = fst (sent conn s) @ (if tl_send_streams l' lane = Some s then ws else []))
    \<and> reliable_pending (tl_outbox l) lane = ws @ reliable_pending (tl_outbox l') lane
    \<and> (\<forall>other. other \<noteq> lane \<longrightarrow>
          reliable_pending (tl_outbox l') other = reliable_pending (tl_outbox l) other
          \<and> tl_send_streams l' other = tl_send_streams l other)
    \<and> tl_cap l' = tl_cap l
    \<and> (tl_send_streams l' lane = tl_send_streams l lane \<and> b' = b
       \<or> tl_send_streams l lane = None \<and> tl_send_streams l' lane = Some (snd (alloc b)) \<and> b' = fst (alloc b))"
proof (cases "left = 0 \<or> reliable_pending (tl_outbox l) lane = []")
  case True
  then show ?thesis
    by (intro exI [of _ conn] exI [of _ b] exI [of _ l] exI [of _ "[]"]) (simp add: pump_lane_def)
next
  case False
  obtain b' sid where sid:
    "(case tl_send_streams l lane of Some sid \<Rightarrow> (b, sid) | None \<Rightarrow> alloc b) = (b', sid)" by fastforce
  let ?l = "l\<lparr>tl_send_streams := (tl_send_streams l)(lane := Some sid)\<rparr>"
  obtain c' l' ws where loop: "lane_loop send prio lane sid conn ?l left 0 = Some (c', l', 0 + length ws)"
    "moved sent lane sid (conn, ?l) (c', l') ws" "length ws \<le> left"
    using lane_loop_moves [OF assms] by blast
  then have run: "pump_lane send prio alloc lane conn b l left = Some (c', b', l', length ws)"
    using False sid by (simp add: pump_lane_def)
  show ?thesis
    using loop(2,3) run sid by (intro exI [of _ c'] exI [of _ b'] exI [of _ l'] exI [of _ ws])
      (auto simp: moved_def split: option.splits)
qed

text \<open>The bytes a pump may write: the caller's budget and what the shared cap has, less what stays
  reserved for a waiting datagram.\<close>

definition pump_bound :: "TopicLink \<Rightarrow> instant \<Rightarrow> nat option \<Rightarrow> nat" where
  "pump_bound l now budget =
     min (case budget of None \<Rightarrow> 2 ^ 64 - 1 | Some n \<Rightarrow> n)
       (case tl_cap l of
          None \<Rightarrow> 2 ^ 64 - 1
        | Some cap \<Rightarrow> snd (cap_available cap now) - (if has_datagram (tl_outbox l) then LATEST_RESERVE else 0))"

lemma link_available_eqs:
  assumes "link_available l now = (l', a)"
  shows "tl_outbox l' = tl_outbox l" and "tl_send_streams l' = tl_send_streams l"
    and "tl_cap l' = map_option (\<lambda>cap. fst (cap_available cap now)) (tl_cap l)"
    and "a = map_option (\<lambda>cap. snd (cap_available cap now)) (tl_cap l)"
  using assms by (auto simp: link_available_def Let_def case_prod_unfold split: option.splits)

text \<open>C34: A pump of the reliable lanes never fails on a connection that only refuses when it is full,
  writes no more than the caller's budget and the shared rate cap allow, takes every byte from the
  front of its lane and appends it to that lane's stream and to no other, starts on the large lane
  only when the small one is empty, and charges the cap for exactly what it wrote.  A lane's stream is
  the same for ever once it has one; a lane without one gets a new stream from the caller's allocator.\<close>

theorem link_pump_faithful:
  assumes "quiche_laws send prio sent" and "never_fails send"
  shows "\<exists>c' b' l' small large. pump_reliable send prio alloc conn b l now budget = Some (c', b', l', length small + length large)
    \<and> length small + length large \<le> pump_bound l now budget
    \<and> reliable_pending (tl_outbox l) Small = small @ reliable_pending (tl_outbox l') Small
    \<and> reliable_pending (tl_outbox l) Large = large @ reliable_pending (tl_outbox l') Large
    \<and> (reliable_pending (tl_outbox l') Small = [] \<or> large = [])
    \<and> (if reliable_pending (tl_outbox l) Small = [] \<and> reliable_pending (tl_outbox l) Large = [] then l' = l
        else tl_cap l' = map_option (\<lambda>cap. cap_consume (fst (cap_available cap now)) (length small + length large)) (tl_cap l))
    \<and> (\<forall>s. fst (sent c' s) = fst (sent conn s)
          @ (if tl_send_streams l' Small = Some s then small else [])
          @ (if tl_send_streams l' Large = Some s then large else []))
    \<and> (\<forall>lane. tl_send_streams l' lane = tl_send_streams l lane
         \<or> tl_send_streams l lane = None
           \<and> tl_send_streams l' lane \<in> {Some (snd (alloc b)), Some (snd (alloc (fst (alloc b))))})"
proof (cases "reliable_pending (tl_outbox l) Small = [] \<and> reliable_pending (tl_outbox l) Large = []")
  case True
  then show ?thesis
    by (intro exI [of _ conn] exI [of _ b] exI [of _ l] exI [of _ "[]"]) (simp add: pump_reliable_def)
next
  case False
  obtain l0 a where av: "link_available l now = (l0, a)" by fastforce
  note av' = link_available_eqs [OF av]
  let ?left = "pump_bound l now budget"
  obtain c1 b1 l1 ws where small: "pump_lane send prio alloc Small conn b l0 ?left = Some (c1, b1, l1, length ws)"
    "length ws \<le> ?left"
    "\<And>s. fst (sent c1 s) = fst (sent conn s) @ (if tl_send_streams l1 Small = Some s then ws else [])"
    "reliable_pending (tl_outbox l0) Small = ws @ reliable_pending (tl_outbox l1) Small"
    "reliable_pending (tl_outbox l1) Large = reliable_pending (tl_outbox l0) Large" "tl_cap l1 = tl_cap l0"
    "tl_send_streams l1 Large = tl_send_streams l0 Large"
    "tl_send_streams l1 Small = tl_send_streams l0 Small \<and> b1 = b
       \<or> tl_send_streams l0 Small = None \<and> tl_send_streams l1 Small = Some (snd (alloc b)) \<and> b1 = fst (alloc b)"
    using pump_lane_moves [OF assms, of alloc Small conn b l0 ?left] by (metis ReliableLane.distinct(1))
  have left: "min (case budget of None \<Rightarrow> 2 ^ 64 - 1 | Some n \<Rightarrow> n)
      (case map_option (\<lambda>n. n - (if has_datagram (tl_outbox l) then LATEST_RESERVE else 0)) a of None \<Rightarrow> 2 ^ 64 - 1 | Some n \<Rightarrow> n)
      = ?left"
    by (cases "tl_cap l") (simp_all add: pump_bound_def av'(4))
  have run: "pump_reliable send prio alloc conn b l now budget =
      (if reliable_pending (tl_outbox l1) Small \<noteq> [] then Some (c1, b1, link_consume l1 (length ws), length ws)
       else Option.bind (pump_lane send prio alloc Large c1 b1 l1 (?left - length ws)) (\<lambda>(conn, b, l, m).
             if ?left - length ws < m then None else Some (conn, b, link_consume l (length ws + m), length ws + m)))"
    unfolding pump_reliable_def Let_def av prod.case left if_not_P [OF False] small(1)
    using small(2) by (simp only: bind.bind_lunit prod.case not_less [symmetric] if_False)
  show ?thesis
  proof (cases "reliable_pending (tl_outbox l1) Small = []")
    case True
    obtain c2 b2 l2 vs where large: "pump_lane send prio alloc Large c1 b1 l1 (?left - length ws) = Some (c2, b2, l2, length vs)"
      "length vs \<le> ?left - length ws"
      "\<And>s. fst (sent c2 s) = fst (sent c1 s) @ (if tl_send_streams l2 Large = Some s then vs else [])"
      "reliable_pending (tl_outbox l1) Large = vs @ reliable_pending (tl_outbox l2) Large"
      "reliable_pending (tl_outbox l2) Small = reliable_pending (tl_outbox l1) Small"
      "tl_send_streams l2 Small = tl_send_streams l1 Small" "tl_cap l2 = tl_cap l1"
      "tl_send_streams l2 Large = tl_send_streams l1 Large \<and> b2 = b1
       \<or> tl_send_streams l1 Large = None \<and> tl_send_streams l2 Large = Some (snd (alloc b1)) \<and> b2 = fst (alloc b1)"
      using pump_lane_moves [OF assms, of alloc Large c1 b1 l1 "?left - length ws"] by (metis ReliableLane.distinct(1))
    have run': "pump_reliable send prio alloc conn b l now budget =
        Some (c2, b2, link_consume l2 (length ws + length vs), length ws + length vs)"
      unfolding run using True large(1,2) by simp
    have str: "tl_send_streams (link_consume l2 n) lane = tl_send_streams l lane
        \<or> tl_send_streams l lane = None \<and> tl_send_streams (link_consume l2 n) lane
            \<in> {Some (snd (alloc b)), Some (snd (alloc (fst (alloc b))))}" for n lane
      using small(7,8) large(6,8) av'(2) by (cases lane) (auto simp: link_consume_def)
    show ?thesis
      by (rule exI [of _ c2], rule exI [of _ b2], rule exI [of _ "link_consume l2 (length ws + length vs)"],
          rule exI [of _ ws], rule exI [of _ vs], unfold if_not_P [OF False], intro conjI)
        (use True run' small(2-6) large(2-7) av' str in \<open>simp_all add: link_consume_def comp_def option.map_comp\<close>)
  next
    case blocked: False
    then have run': "pump_reliable send prio alloc conn b l now budget =
        Some (c1, b1, link_consume l1 (length ws), length ws + length [])"
      unfolding run by simp
    have str: "tl_send_streams (link_consume l1 n) lane = tl_send_streams l lane
        \<or> tl_send_streams l lane = None \<and> tl_send_streams (link_consume l1 n) lane
            \<in> {Some (snd (alloc b)), Some (snd (alloc (fst (alloc b))))}" for n lane
      using small(7,8) av'(2) by (cases lane) (auto simp: link_consume_def)
    show ?thesis
      by (rule exI [of _ c1], rule exI [of _ b1], rule exI [of _ "link_consume l1 (length ws)"],
          rule exI [of _ ws], rule exI [of _ "[]"], unfold if_not_P [OF False], intro conjI)
        (use run' small(2-6) av' str in \<open>simp_all add: link_consume_def comp_def option.map_comp\<close>)
  qed
qed

text \<open>A link without a cap holding one reliable sample of fifteen bytes, pumped with a budget of seven
  over a connection that takes twenty bytes at a time.\<close>

definition goal_link :: TopicLink where
  "goal_link = \<lparr>tl_outbox = outbox_push (with_backlog 100) Reliable goal_sample, tl_cap = None,
     tl_send_streams = (\<lambda>_. None), tl_priority_set = (\<lambda>_. False), tl_readers = []\<rparr>"

theorem link_pump_faithful_witness:
  "quiche_laws slow_send slow_prio slow_sent \<and> never_fails slow_send
   \<and> (\<exists>c' b' l' small. pump_reliable slow_send slow_prio (\<lambda>n. (n + 4, n)) (\<lambda>_. ([], False)) 10 goal_link 0 (Some 7)
       = Some (c', b', l', 7) \<and> length small = 7
     \<and> reliable_pending (tl_outbox goal_link) Small = small @ reliable_pending (tl_outbox l') Small)"
proof -
  have laws: "quiche_laws slow_send slow_prio slow_sent"
    by (auto simp: quiche_laws_def slow_send_def slow_prio_def slow_sent_def Let_def fun_eq_iff)
  have never: "never_fails slow_send" by (simp add: never_fails_def slow_send_def Let_def)
  have run: "map_option (\<lambda>(_, _, _, n). n)
      (pump_reliable slow_send slow_prio (\<lambda>n. (n + 4, n)) (\<lambda>_. ([], False)) 10 goal_link 0 (Some 7)) = Some 7"
    "reliable_pending (tl_outbox goal_link) Large = []" by code_simp+
  from link_pump_faithful [OF laws never, of "\<lambda>n. (n + 4, n)" "\<lambda>_. ([], False)" 10 goal_link 0 "Some 7"]
  obtain c' b' l' small large where r:
    "pump_reliable slow_send slow_prio (\<lambda>n. (n + 4, n)) (\<lambda>_. ([], False)) 10 goal_link 0 (Some 7)
      = Some (c', b', l', length small + length large)"
    "reliable_pending (tl_outbox goal_link) Small = small @ reliable_pending (tl_outbox l') Small"
    "reliable_pending (tl_outbox goal_link) Large = large @ reliable_pending (tl_outbox l') Large" by blast
  then have "large = []" "length small = 7" using run by auto
  then have "length small + length large = 7" by simp
  with laws never r(1,2) \<open>length small = 7\<close> show ?thesis by (metis (no_types, lifting))
qed

end
