(* ===== verification/Forwarding.thy ===== *)
theory Forwarding
  imports Topic
begin

text \<open>Topic forwarding between a side's Zenoh session and the QUIC session loop (roboprotocol-zenoh's
  \<open>lib.rs\<close>): the bounded queues of both directions, the allowlist of keys the peer may publish under,
  and the pause while the two Zenoh domains see each other.  Key expressions belong to the Zenoh crate:
  \<open>valid_key\<close> says which keys parse and \<open>includes\<close> whether an expression covers a key.  The subscriber
  callbacks, the republishing task and the watcher run beside the session loop; each is a step here.\<close>

section \<open>State\<close>

definition CHANNEL_DEPTH :: nat where "CHANNEL_DEPTH = 256"
definition MAX_REJECTED_KEYS_LOGGED :: nat where "MAX_REJECTED_KEYS_LOGGED = 32"

definition presence_key :: "string \<Rightarrow> string" where
  "presence_key robot_id = ''robotele/forwarder/'' @ robot_id"

record ForwardRule =
  fr_mode :: TopicMode
  fr_key_expr :: bytes

record ForwardConfig =
  fc_forward :: "ForwardRule list"
  fc_accept :: "bytes list"
  fc_max_mbps :: fl

definition forward_config_default :: ForwardConfig where
  "forward_config_default = \<lparr>fc_forward = [], fc_accept = [], fc_max_mbps = DEFAULT_MAX_MBPS\<rparr>"

text \<open>A sample of the local session on its way to the peer.\<close>

record LocalSample =
  ls_mode :: TopicMode
  ls_sample :: TopicSample

record ForwardStats =
  fs_captured :: nat
  fs_capture_dropped :: nat
  fs_republished :: nat
  fs_republish_dropped :: nat
  fs_republish_rejected :: nat

record Forwarder =
  fw_accept :: "bytes list"
  fw_rejected_logged :: "bytes list"
  fw_outgoing :: "LocalSample list"
  fw_republish :: "TopicSample list"
  fw_paused :: bool
  fw_stats :: ForwardStats

definition forwarder_new :: "bytes list \<Rightarrow> Forwarder" where
  "forwarder_new accept =
     \<lparr>fw_accept = accept, fw_rejected_logged = [], fw_outgoing = [], fw_republish = [],
      fw_paused = False,
      fw_stats = \<lparr>fs_captured = 0, fs_capture_dropped = 0, fs_republished = 0, fs_republish_dropped = 0,
        fs_republish_rejected = 0\<rparr>\<rparr>"

type_synonym key_exprs = "(bytes \<Rightarrow> bool) \<times> (bytes \<Rightarrow> bytes \<Rightarrow> bool)"

text \<open>Starting fails on a bad key expression and when a subscriber cannot be declared.\<close>

definition forwarder_start :: "key_exprs \<Rightarrow> (bytes \<Rightarrow> bool) \<Rightarrow> ForwardConfig \<Rightarrow> Forwarder option" where
  "forwarder_start zk declares config =
     (if list_all (fst zk) (fc_accept config) \<and> list_all (\<lambda>r. declares (fr_key_expr r)) (fc_forward config)
      then Some (forwarder_new (fc_accept config)) else None)"

section \<open>Towards the peer\<close>

text \<open>The subscriber's callback.  \<open>put\<close> is whether the sample's kind is a put.\<close>

definition on_local_sample :: "Forwarder \<Rightarrow> TopicMode \<Rightarrow> bool \<Rightarrow> TopicSample \<Rightarrow> Forwarder" where
  "on_local_sample f mode put sample =
     (let stats = fw_stats f;
          drop_it = f\<lparr>fw_stats := stats\<lparr>fs_capture_dropped := fs_capture_dropped stats + 1\<rparr>\<rparr>
      in if \<not> put then f
         else if fw_paused f \<or> (case check_key (ts_key sample) of Inl _ \<Rightarrow> True | Inr _ \<Rightarrow> False) then drop_it
         else if length (fw_outgoing f) < CHANNEL_DEPTH
         then f\<lparr>fw_outgoing := fw_outgoing f @ [\<lparr>ls_mode = mode, ls_sample = sample\<rparr>],
                fw_stats := stats\<lparr>fs_captured := fs_captured stats + 1\<rparr>\<rparr>
         else drop_it)"

definition forwarder_try_recv :: "Forwarder \<Rightarrow> Forwarder \<times> LocalSample option" where
  "forwarder_try_recv f =
     (case fw_outgoing f of [] \<Rightarrow> (f, None) | s # rest \<Rightarrow> (f\<lparr>fw_outgoing := rest\<rparr>, Some s))"

definition discard_waiting :: "Forwarder \<Rightarrow> Forwarder \<times> nat" where
  "discard_waiting f = (f\<lparr>fw_outgoing := []\<rparr>, length (fw_outgoing f))"

section \<open>From the peer\<close>

definition accepts :: "key_exprs \<Rightarrow> Forwarder \<Rightarrow> bytes \<Rightarrow> bool" where
  "accepts zk f key = (fst zk key \<and> list_ex (\<lambda>a. snd zk a key) (fw_accept f))"

definition republish :: "key_exprs \<Rightarrow> Forwarder \<Rightarrow> TopicSample \<Rightarrow> Forwarder" where
  "republish zk f sample =
     (let stats = fw_stats f
      in if \<not> accepts zk f (ts_key sample) then
           f\<lparr>fw_rejected_logged :=
               (if length (fw_rejected_logged f) < MAX_REJECTED_KEYS_LOGGED
                then List.insert (ts_key sample) (fw_rejected_logged f) else fw_rejected_logged f),
             fw_stats := stats\<lparr>fs_republish_rejected := fs_republish_rejected stats + 1\<rparr>\<rparr>
         else if fw_paused f \<or> CHANNEL_DEPTH \<le> length (fw_republish f) then
           f\<lparr>fw_stats := stats\<lparr>fs_republish_dropped := fs_republish_dropped stats + 1\<rparr>\<rparr>
         else
           f\<lparr>fw_republish := fw_republish f @ [sample],
             fw_stats := stats\<lparr>fs_republished := fs_republished stats + 1\<rparr>\<rparr>)"

text \<open>One turn of the republishing task: what it puts on the local session, the attachment only if there
  is one.\<close>

definition republish_task_step :: "Forwarder \<Rightarrow> Forwarder \<times> (bytes \<times> bytes \<times> bytes option) option" where
  "republish_task_step f =
     (case fw_republish f of
        [] \<Rightarrow> (f, None)
      | s # rest \<Rightarrow>
          (f\<lparr>fw_republish := rest\<rparr>,
           Some (ts_key s, ts_payload s, if ts_attachment s \<noteq> [] then Some (ts_attachment s) else None)))"

text \<open>\<open>pause_while_visible\<close> starts unpaused; its watcher stores what each query of the presence key saw.\<close>

definition pause_while_visible :: "Forwarder \<Rightarrow> Forwarder" where
  "pause_while_visible f = f\<lparr>fw_paused := False\<rparr>"

definition watcher_step :: "Forwarder \<Rightarrow> bool list option \<Rightarrow> Forwarder" where
  "watcher_step f replies =
     f\<lparr>fw_paused := (case replies of None \<Rightarrow> False | Some oks \<Rightarrow> list_ex (\<lambda>ok. ok) oks)\<rparr>"

section \<open>Nothing leaks and nothing grows\<close>

text \<open>What can happen to a forwarder, and the traces the proofs keep: the samples the session loop took,
  the samples the peer sent, and what was put on the local session.\<close>

datatype forward_event =
  LocalPut TopicMode bool TopicSample | SessionTakes | SessionDiscards | PeerSample TopicSample
  | TaskTurn | WatcherSaw "bool list option" | WatchAgain

record forward_trace =
  ft_taken :: "LocalSample list"
  ft_put :: "(bytes \<times> bytes \<times> bytes option) list"

fun forward_step :: "key_exprs \<Rightarrow> Forwarder \<times> forward_trace \<Rightarrow> forward_event \<Rightarrow> Forwarder \<times> forward_trace" where
  "forward_step zk (f, t) (LocalPut mode put s) = (on_local_sample f mode put s, t)"
| "forward_step zk (f, t) SessionTakes =
     (let (f, s) = forwarder_try_recv f
      in (f, t\<lparr>ft_taken := ft_taken t @ (case s of None \<Rightarrow> [] | Some s \<Rightarrow> [s])\<rparr>))"
| "forward_step zk (f, t) SessionDiscards = (fst (discard_waiting f), t)"
| "forward_step zk (f, t) (PeerSample s) = (republish zk f s, t)"
| "forward_step zk (f, t) TaskTurn =
     (let (f, p) = republish_task_step f
      in (f, t\<lparr>ft_put := ft_put t @ (case p of None \<Rightarrow> [] | Some p \<Rightarrow> [p])\<rparr>))"
| "forward_step zk (f, t) (WatcherSaw replies) = (watcher_step f replies, t)"
| "forward_step zk (f, t) WatchAgain = (pause_while_visible f, t)"

definition forward_run :: "key_exprs \<Rightarrow> bytes list \<Rightarrow> forward_event list \<Rightarrow> Forwarder \<times> forward_trace" where
  "forward_run zk accept es = foldl (forward_step zk) (forwarder_new accept, \<lparr>ft_taken = [], ft_put = []\<rparr>) es"

definition local_puts :: "forward_event list \<Rightarrow> LocalSample list" where
  "local_puts es = concat (List.map (\<lambda>e. case e of LocalPut mode True s \<Rightarrow> [\<lparr>ls_mode = mode, ls_sample = s\<rparr>] | _ \<Rightarrow> []) es)"

definition peer_samples :: "forward_event list \<Rightarrow> TopicSample list" where
  "peer_samples es = concat (List.map (\<lambda>e. case e of PeerSample s \<Rightarrow> [s] | _ \<Rightarrow> []) es)"

definition as_put :: "TopicSample \<Rightarrow> bytes \<times> bytes \<times> bytes option" where
  "as_put s = (ts_key s, ts_payload s, if ts_attachment s \<noteq> [] then Some (ts_attachment s) else None)"

definition forward_inv ::
  "key_exprs \<Rightarrow> bytes list \<Rightarrow> forward_event list \<Rightarrow> Forwarder \<Rightarrow> forward_trace \<Rightarrow> bool" where
  "forward_inv zk accept es f t \<longleftrightarrow>
     fw_accept f = accept
     \<and> length (fw_outgoing f) \<le> CHANNEL_DEPTH \<and> length (fw_republish f) \<le> CHANNEL_DEPTH
     \<and> length (fw_rejected_logged f) \<le> MAX_REJECTED_KEYS_LOGGED
     \<and> subseq (ft_taken t @ fw_outgoing f) (local_puts es)
     \<and> (\<forall>s \<in> set (ft_taken t @ fw_outgoing f). check_key (ts_key (ls_sample s)) = Inr ())
     \<and> (\<exists>ss. ft_put t = List.map as_put ss
          \<and> subseq (ss @ fw_republish f)
              (filter (\<lambda>s. fst zk (ts_key s) \<and> (\<exists>a \<in> set accept. snd zk a (ts_key s))) (peer_samples es)))
     \<and> fs_captured (fw_stats f) + fs_capture_dropped (fw_stats f) = length (local_puts es)
     \<and> fs_republished (fw_stats f) + fs_republish_dropped (fw_stats f) + fs_republish_rejected (fw_stats f)
         = length (peer_samples es)
     \<and> fs_republished (fw_stats f) = length (ft_put t) + length (fw_republish f)"

lemma local_puts_snoc:
  "local_puts (es @ [e]) = local_puts es
     @ (case e of LocalPut mode put s \<Rightarrow> if put then [\<lparr>ls_mode = mode, ls_sample = s\<rparr>] else [] | _ \<Rightarrow> [])"
  by (simp add: local_puts_def split: forward_event.split)

lemma peer_samples_snoc:
  "peer_samples (es @ [e]) = peer_samples es @ (case e of PeerSample s \<Rightarrow> [s] | _ \<Rightarrow> [])"
  by (simp add: peer_samples_def split: forward_event.split)

lemma subseq_snoc: "subseq xs ys \<Longrightarrow> subseq (xs @ [z]) (ys @ [z])"
  by (rule list_emb_append_mono) simp_all

lemma subseq_grow: "subseq xs ys \<Longrightarrow> subseq xs (ys @ zs)"
  by (rule subseq_order.trans) auto

lemma subseq_filter_weaken: "(\<And>x. P x \<Longrightarrow> Q x) \<Longrightarrow> subseq (filter P xs) (filter Q xs)"
  by (induction xs) auto

lemma subseq_of_append: "subseq (xs @ ys) zs \<Longrightarrow> subseq xs zs"
  by (rule subseq_order.trans [of _ "xs @ ys"]) auto

lemma forward_inv_local:
  assumes "forward_inv zk accept es f t"
  shows "forward_inv zk accept (es @ [LocalPut mode put s]) (on_local_sample f mode put s) t"
  using assms subseq_snoc [of "ft_taken t @ fw_outgoing f" "local_puts es" "\<lparr>ls_mode = mode, ls_sample = s\<rparr>"]
  unfolding forward_inv_def on_local_sample_def Let_def local_puts_snoc peer_samples_snoc
  by (auto split: sum.splits intro: subseq_grow)

lemma forward_inv_peer:
  assumes "forward_inv zk accept es f t"
  shows "forward_inv zk accept (es @ [PeerSample s]) (republish zk f s) t"
proof -
  obtain ss where ss: "ft_put t = List.map as_put ss"
    "subseq (ss @ fw_republish f)
      (filter (\<lambda>s. fst zk (ts_key s) \<and> (\<exists>a \<in> set accept. snd zk a (ts_key s))) (peer_samples es))"
    using assms by (auto simp: forward_inv_def)
  then show ?thesis using assms ss subseq_snoc [OF ss(2), of s]
    unfolding forward_inv_def republish_def Let_def local_puts_snoc peer_samples_snoc
    by (auto simp: accepts_def list_ex_iff List.insert_def intro: subseq_grow)
qed

lemma forward_inv_step:
  assumes "forward_inv zk accept es f t"
  shows "case_prod (forward_inv zk accept (es @ [e])) (forward_step zk (f, t) e)"
proof (cases e)
  case SessionTakes
  then show ?thesis using assms
    by (cases "fw_outgoing f") (auto simp: forward_inv_def forwarder_try_recv_def local_puts_snoc peer_samples_snoc)
next
  case SessionDiscards
  then show ?thesis using assms
    by (auto simp: forward_inv_def discard_waiting_def local_puts_snoc peer_samples_snoc intro: subseq_of_append)
next
  case TaskTurn
  show ?thesis
  proof (cases "fw_republish f")
    case Nil
    then show ?thesis using assms TaskTurn
      by (auto simp: forward_inv_def republish_task_step_def local_puts_snoc peer_samples_snoc)
  next
    case (Cons s rest)
    obtain ss where ss: "ft_put t = List.map as_put ss"
      "subseq (ss @ s # rest)
        (filter (\<lambda>s. fst zk (ts_key s) \<and> (\<exists>a \<in> set accept. snd zk a (ts_key s))) (peer_samples es))"
      using assms Cons by (auto simp: forward_inv_def)
    have step: "forward_step zk (f, t) e = (f\<lparr>fw_republish := rest\<rparr>, t\<lparr>ft_put := ft_put t @ [as_put s]\<rparr>)"
      "local_puts (es @ [e]) = local_puts es" "peer_samples (es @ [e]) = peer_samples es"
      using Cons TaskTurn by (simp_all add: republish_task_step_def as_put_def local_puts_snoc peer_samples_snoc)
    have "\<exists>ss'. List.map as_put ss @ [as_put s] = List.map as_put ss' \<and> subseq (ss' @ rest)
        (filter (\<lambda>s. fst zk (ts_key s) \<and> (\<exists>a \<in> set accept. snd zk a (ts_key s))) (peer_samples es))"
      using ss(2) by (intro exI [of _ "ss @ [s]"]) simp
    then show ?thesis using assms Cons unfolding forward_inv_def step ss(1) by simp
  qed
next
  case (WatcherSaw replies)
  then show ?thesis using assms
    by (simp add: forward_inv_def watcher_step_def local_puts_snoc peer_samples_snoc)
next
  case WatchAgain
  then show ?thesis using assms
    by (simp add: forward_inv_def pause_while_visible_def local_puts_snoc peer_samples_snoc)
qed (simp_all add: forward_inv_local forward_inv_peer assms)

lemma forward_inv_run: "case_prod (forward_inv zk accept es) (forward_run zk accept es)"
proof (induction es rule: rev_induct)
  case Nil
  show ?case by (simp add: forward_run_def forward_inv_def forwarder_new_def local_puts_def peer_samples_def)
next
  case (snoc e es)
  obtain f t where "forward_run zk accept es = (f, t)" by fastforce
  with snoc forward_inv_step [of zk accept es f t e] show ?case by (simp add: forward_run_def)
qed

text \<open>C35: Whatever happens to a forwarder, in any order: its two queues stay within their bound and it logs
  at most thirty-two rejected keys; what the session loop takes is, in order, some of what the local
  session published, never under a reserved or malformed key; what it puts on the local session is, in
  order, some of what the peer sent, only under keys the allowlist covers, with its payload and
  attachment; and every sample is counted exactly once.\<close>

theorem forwarder_keeps_to_its_rules:
  assumes "forwarder_start zk declares config = Some f0"
    and "foldl (forward_step zk) (f0, \<lparr>ft_taken = [], ft_put = []\<rparr>) es = (f, t)"
  shows "length (fw_outgoing f) \<le> 256 \<and> length (fw_republish f) \<le> 256 \<and> length (fw_rejected_logged f) \<le> 32
    \<and> subseq (ft_taken t) (local_puts es)
    \<and> (\<forall>s \<in> set (ft_taken t). check_key (ts_key (ls_sample s)) = Inr ())
    \<and> subseq (ft_put t) (List.map as_put
         (filter (\<lambda>s. \<exists>a \<in> set (fc_accept config). snd zk a (ts_key s)) (peer_samples es)))
    \<and> fs_captured (fw_stats f) + fs_capture_dropped (fw_stats f) = length (local_puts es)
    \<and> fs_republished (fw_stats f) + fs_republish_dropped (fw_stats f) + fs_republish_rejected (fw_stats f)
         = length (peer_samples es)
    \<and> fs_republished (fw_stats f) = length (ft_put t) + length (fw_republish f)"
proof -
  have f0: "f0 = forwarder_new (fc_accept config)"
    using assms(1) by (simp add: forwarder_start_def split: if_splits)
  have "forward_run zk (fc_accept config) es = (f, t)" using assms(2) by (simp add: forward_run_def f0)
  with forward_inv_run have inv: "forward_inv zk (fc_accept config) es f t" by (metis case_prod_conv)
  have "subseq (ft_taken t) (local_puts es)" using inv by (auto simp: forward_inv_def intro: subseq_of_append)
  moreover obtain ss where ss: "ft_put t = List.map as_put ss"
    "subseq (ss @ fw_republish f) (filter (\<lambda>s. fst zk (ts_key s) \<and> (\<exists>a \<in> set (fc_accept config). snd zk a (ts_key s)))
       (peer_samples es))" using inv by (auto simp: forward_inv_def)
  moreover have "subseq (filter (\<lambda>s. fst zk (ts_key s) \<and> (\<exists>a \<in> set (fc_accept config). snd zk a (ts_key s))) (peer_samples es))
      (filter (\<lambda>s. \<exists>a \<in> set (fc_accept config). snd zk a (ts_key s)) (peer_samples es))"
    by (rule subseq_filter_weaken) simp
  ultimately have "subseq (ft_put t) (List.map as_put
      (filter (\<lambda>s. \<exists>a \<in> set (fc_accept config). snd zk a (ts_key s)) (peer_samples es)))"
    by (simp add: subseq_map subseq_order.trans [OF subseq_of_append])
  then show ?thesis using inv \<open>subseq (ft_taken t) (local_puts es)\<close>
    unfolding forward_inv_def CHANNEL_DEPTH_def MAX_REJECTED_KEYS_LOGGED_def by simp
qed

text \<open>Two keys, of which one is accepted; the peer's samples under both, with one turn of the task.\<close>

definition planner_key :: bytes where "planner_key = [0x70]"

definition forward_example :: "forward_event list" where
  "forward_example =
     [PeerSample \<lparr>ts_key = planner_key, ts_attachment = [], ts_payload = [1]\<rparr>,
      PeerSample \<lparr>ts_key = [0x71], ts_attachment = [], ts_payload = [2]\<rparr>, TaskTurn]"

theorem forwarder_keeps_to_its_rules_witness:
  "\<exists>f0 f t. forwarder_start (\<lambda>_. True, (=)) (\<lambda>_. True) \<lparr>fc_forward = [], fc_accept = [planner_key], fc_max_mbps = Fin 0\<rparr> = Some f0
     \<and> foldl (forward_step (\<lambda>_. True, (=))) (f0, \<lparr>ft_taken = [], ft_put = []\<rparr>) forward_example = (f, t)
     \<and> ft_put t = [(planner_key, [1], None)]
     \<and> subseq (ft_put t) (List.map as_put (filter (\<lambda>s. ts_key s = planner_key) (peer_samples forward_example)))"
proof -
  let ?c = "\<lparr>fc_forward = [], fc_accept = [planner_key], fc_max_mbps = Fin 0\<rparr>"
  let ?zk = "(\<lambda>_. True, (=)) :: key_exprs"
  have start: "forwarder_start ?zk (\<lambda>_. True) ?c = Some (forwarder_new [planner_key])"
    by (simp add: forwarder_start_def)
  obtain f t where run: "foldl (forward_step ?zk) (forwarder_new [planner_key], \<lparr>ft_taken = [], ft_put = []\<rparr>) forward_example = (f, t)"
    by fastforce
  have "ft_put (snd (foldl (forward_step ?zk) (forwarder_new [planner_key], \<lparr>ft_taken = [], ft_put = []\<rparr>) forward_example))
      = [(planner_key, [1], None)]" by code_simp
  with run have put: "ft_put t = [(planner_key, [1], None)]" by simp
  have "(\<lambda>s. \<exists>a \<in> set (fc_accept ?c). snd ?zk a (ts_key s)) = (\<lambda>s :: TopicSample. ts_key s = planner_key)"
    by (auto simp: fun_eq_iff)
  with forwarder_keeps_to_its_rules [OF start run] have
    "subseq (ft_put t) (List.map as_put (filter (\<lambda>s. ts_key s = planner_key) (peer_samples forward_example)))" by simp
  with start run put show ?thesis by blast
qed

end
