(* ===== verification/Session_Messages.thy ===== *)
theory Session_Messages
  imports Hello Wire Channel_B Sensor_Formats "HOL-Library.Sublist"
begin

text \<open>The session's messages as tables: what the handlers of robot-edge and operator-console write into
  a table and read out of it (\<open>hello_handler.rs\<close>, \<open>session_handler.rs\<close>, \<open>action_trigger_handler.rs\<close>,
  \<open>camera_control_handler.rs\<close> of both crates, and the frame of \<open>channel_b.rs\<close>).  The tables are those of
  \<open>roboprotocol.fbs\<close>.  Their bytes are made and read by FlatBuffers: a table's format is a parameter, the
  pair of its builder and its reader.  A vector or string that a table may lack is an option.\<close>

type_synonym 't fb_format = "('t \<Rightarrow> bytes) \<times> (bytes \<Rightarrow> 't)"

text \<open>The reader finds what the builder wrote of a table.\<close>

definition fb_carries :: "'t fb_format \<Rightarrow> 't \<Rightarrow> bool" where
  "fb_carries fmt t \<longleftrightarrow> snd fmt (fst fmt t) = t"

definition or_default :: "'a list option \<Rightarrow> 'a list" where
  "or_default v = (case v of None \<Rightarrow> [] | Some xs \<Rightarrow> xs)"

section \<open>The small messages\<close>

record FbHello =
  fbh_protocol_version :: u16
  fbh_capability_bitmask :: u64
  fbh_supported_task_classes :: u8
  fbh_supported_quantization_tiers :: u8
  fbh_max_control_rate_hz :: u16
  fbh_extensions :: "(u16 \<times> bytes) list option"

definition encode_hello :: "FbHello fb_format \<Rightarrow> HelloCapabilities \<Rightarrow> bytes" where
  "encode_hello fmt caps = fst fmt
     \<lparr>fbh_protocol_version = pv_encode (hc_version caps), fbh_capability_bitmask = hc_capability_bitmask caps,
      fbh_supported_task_classes = hc_task_classes caps,
      fbh_supported_quantization_tiers = hc_quantization_tiers caps,
      fbh_max_control_rate_hz = hc_max_control_rate_hz caps, fbh_extensions = None\<rparr>"

definition decode_hello :: "FbHello fb_format \<Rightarrow> bytes \<Rightarrow> HelloCapabilities" where
  "decode_hello fmt buf =
     (let hello = snd fmt buf
      in \<lparr>hc_version = pv_decode (fbh_protocol_version hello), hc_capability_bitmask = fbh_capability_bitmask hello,
          hc_task_classes = fbh_supported_task_classes hello,
          hc_quantization_tiers = fbh_supported_quantization_tiers hello,
          hc_max_control_rate_hz = fbh_max_control_rate_hz hello\<rparr>)"

record FbActionTrigger =
  fba_action_id :: u8
  fba_trigger_seq :: u64

definition encode_action_trigger :: "FbActionTrigger fb_format \<Rightarrow> ActionTrigger \<Rightarrow> bytes" where
  "encode_action_trigger fmt trigger =
     fst fmt \<lparr>fba_action_id = at_action_id trigger, fba_trigger_seq = at_trigger_seq trigger\<rparr>"

definition decode_action_trigger :: "FbActionTrigger fb_format \<Rightarrow> bytes \<Rightarrow> ActionTrigger" where
  "decode_action_trigger fmt buf =
     (let trigger = snd fmt buf
      in \<lparr>at_action_id = fba_action_id trigger, at_trigger_seq = fba_trigger_seq trigger\<rparr>)"

record FbCameraControl =
  fbc_brightness :: u32
  fbc_contrast :: u32
  fbc_ev :: u32
  fbc_shutter_us :: u32
  fbc_control_seq :: u64

definition encode_camera_control :: "FbCameraControl fb_format \<Rightarrow> CameraControl \<Rightarrow> bytes" where
  "encode_camera_control fmt c = fst fmt
     \<lparr>fbc_brightness = cc_brightness c, fbc_contrast = cc_contrast c, fbc_ev = cc_ev c,
      fbc_shutter_us = cc_shutter_us c, fbc_control_seq = cc_control_seq c\<rparr>"

definition decode_camera_control :: "FbCameraControl fb_format \<Rightarrow> bytes \<Rightarrow> CameraControl" where
  "decode_camera_control fmt buf =
     (let c = snd fmt buf
      in \<lparr>cc_brightness = fbc_brightness c, cc_contrast = fbc_contrast c, cc_ev = fbc_ev c,
          cc_shutter_us = fbc_shutter_us c, cc_control_seq = fbc_control_seq c\<rparr>)"

datatype FbCategory = FbCommand | FbTelemetry | FbHaptic

fun to_fb_category :: "ChannelBCategory \<Rightarrow> FbCategory" where
  "to_fb_category CatCommand = FbCommand"
| "to_fb_category CatTelemetry = FbTelemetry"
| "to_fb_category CatHaptic = FbHaptic"

fun from_fb_category :: "FbCategory \<Rightarrow> ChannelBCategory" where
  "from_fb_category FbTelemetry = CatTelemetry"
| "from_fb_category FbHaptic = CatHaptic"
| "from_fb_category FbCommand = CatCommand"

record FbChannelBFrame =
  fbf_timestamp :: u64
  fbf_seq :: u64
  fbf_tick_id :: u32
  fbf_category :: FbCategory
  fbf_region_id :: u8
  fbf_fields :: "bytes option"

definition encode_channel_b_frame :: "FbChannelBFrame fb_format \<Rightarrow> ChannelBFrameData \<Rightarrow> bytes" where
  "encode_channel_b_frame fmt frame = fst fmt
     \<lparr>fbf_timestamp = cb_timestamp frame, fbf_seq = cb_seq frame, fbf_tick_id = cb_tick_id frame,
      fbf_category = to_fb_category (cb_category frame), fbf_region_id = cb_region_id frame,
      fbf_fields = Some (cb_fields frame)\<rparr>"

definition decode_channel_b_frame :: "FbChannelBFrame fb_format \<Rightarrow> bytes \<Rightarrow> ChannelBFrameData" where
  "decode_channel_b_frame fmt buf =
     (let f = snd fmt buf
      in \<lparr>cb_timestamp = fbf_timestamp f, cb_seq = fbf_seq f, cb_tick_id = fbf_tick_id f,
          cb_category = from_fb_category (fbf_category f), cb_region_id = fbf_region_id f,
          cb_fields = or_default (fbf_fields f)\<rparr>)"

section \<open>Describing the robot\<close>

datatype FbCodec = FbH265 | FbAV1 | FbH264
datatype FbCommandShape = FbKinematic | FbVelocityAttitude | FbCartesianEndEffector
datatype FbBaseType =
  FbStationary | FbWheeledStandard | FbWheeledHolonomic | FbBipedLegs | FbQuadrupedLegs | FbOther
datatype FbSensorKind = FbPointCloud | FbRangeImage | FbDepth

fun to_fb_codec :: "Codec \<Rightarrow> FbCodec" where
  "to_fb_codec H265 = FbH265"
| "to_fb_codec Av1 = FbAV1"
| "to_fb_codec H264 = FbH264"

fun from_fb_codec :: "FbCodec \<Rightarrow> Codec" where
  "from_fb_codec FbAV1 = Av1"
| "from_fb_codec FbH264 = H264"
| "from_fb_codec FbH265 = H265"

fun to_fb_command_shape :: "CommandShape \<Rightarrow> FbCommandShape" where
  "to_fb_command_shape Kinematic = FbKinematic"
| "to_fb_command_shape VelocityAttitude = FbVelocityAttitude"
| "to_fb_command_shape CartesianEndEffector = FbCartesianEndEffector"

fun from_fb_command_shape :: "FbCommandShape \<Rightarrow> CommandShape" where
  "from_fb_command_shape FbVelocityAttitude = VelocityAttitude"
| "from_fb_command_shape FbCartesianEndEffector = CartesianEndEffector"
| "from_fb_command_shape FbKinematic = Kinematic"

fun to_fb_base_type :: "BaseType \<Rightarrow> FbBaseType" where
  "to_fb_base_type Stationary = FbStationary"
| "to_fb_base_type WheeledStandard = FbWheeledStandard"
| "to_fb_base_type WheeledHolonomic = FbWheeledHolonomic"
| "to_fb_base_type BipedLegs = FbBipedLegs"
| "to_fb_base_type QuadrupedLegs = FbQuadrupedLegs"
| "to_fb_base_type Other = FbOther"

fun from_fb_base_type :: "FbBaseType \<Rightarrow> BaseType" where
  "from_fb_base_type FbWheeledStandard = WheeledStandard"
| "from_fb_base_type FbWheeledHolonomic = WheeledHolonomic"
| "from_fb_base_type FbBipedLegs = BipedLegs"
| "from_fb_base_type FbQuadrupedLegs = QuadrupedLegs"
| "from_fb_base_type FbOther = Other"
| "from_fb_base_type FbStationary = Stationary"

record FbPoints =
  fbp_scale_m :: fl
  fbp_intensity :: bool
  fbp_doppler_scale_mps :: fl
  fbp_snr :: bool

record FbRange =
  fbr_beams :: u16
  fbr_columns :: u16
  fbr_range_scale_m :: fl
  fbr_intensity :: bool
  fbr_beam_elevations_rad :: "fl list option"

record FbDepthTable =
  fbd_width :: u16
  fbd_height :: u16
  fbd_segment_width :: u16
  fbd_fx :: fl
  fbd_fy :: fl
  fbd_cx :: fl
  fbd_cy :: fl

record FbSensor =
  fbs_sensor_id :: u8
  fbs_label :: "bytes option"
  fbs_kind :: FbSensorKind
  fbs_max_hz :: u8
  fbs_max_bitrate_kbps :: u32
  fbs_mount_position_m :: "fl list option"
  fbs_mount_orientation_xyzw :: "fl list option"
  fbs_points :: "FbPoints option"
  fbs_range_image :: "FbRange option"
  fbs_depth :: "FbDepthTable option"

definition encode_sensor :: "SensorDescriptor \<Rightarrow> FbSensor" where
  "encode_sensor s =
     (let args = \<lparr>fbs_sensor_id = sd_sensor_id s, fbs_label = Some (sd_label s), fbs_kind = FbPointCloud,
        fbs_max_hz = sd_max_hz s, fbs_max_bitrate_kbps = sd_max_bitrate_kbps s,
        fbs_mount_position_m = Some (sd_mount_position_m s),
        fbs_mount_orientation_xyzw = Some (sd_mount_orientation_xyzw s),
        fbs_points = None, fbs_range_image = None, fbs_depth = None\<rparr>
      in case sd_encoding s of
           PointsEncoding f \<Rightarrow> args\<lparr>fbs_kind := FbPointCloud, fbs_points := Some
             \<lparr>fbp_scale_m = pf_scale_m f, fbp_intensity = pf_intensity f,
              fbp_doppler_scale_mps = (case pf_doppler_scale_mps f of None \<Rightarrow> Fin 0 | Some d \<Rightarrow> d),
              fbp_snr = pf_snr f\<rparr>\<rparr>
         | RangeEncoding f elevations \<Rightarrow> args\<lparr>fbs_kind := FbRangeImage, fbs_range_image := Some
             \<lparr>fbr_beams = rf_beams f, fbr_columns = rf_columns f, fbr_range_scale_m = rf_range_scale_m f,
              fbr_intensity = rf_intensity f, fbr_beam_elevations_rad = Some elevations\<rparr>\<rparr>
         | DepthEncoding f i \<Rightarrow> args\<lparr>fbs_kind := FbDepth, fbs_depth := Some
             \<lparr>fbd_width = df_width f, fbd_height = df_height f, fbd_segment_width = df_segment_width f,
              fbd_fx = in_fx i, fbd_fy = in_fy i, fbd_cx = in_cx i, fbd_cy = in_cy i\<rparr>\<rparr>)"

text \<open>The arm of the kind reads its own table; \<open>?\<close> gives up on a sensor whose table is missing.\<close>

definition decode_encoding :: "FbSensor \<Rightarrow> SensorEncoding option" where
  "decode_encoding s =
     (case fbs_kind s of
        FbPointCloud \<Rightarrow> map_option (\<lambda>p. PointsEncoding
          \<lparr>pf_scale_m = fbp_scale_m p, pf_intensity = fbp_intensity p,
           pf_doppler_scale_mps = (if feq (fbp_doppler_scale_mps p) (Fin 0) then None else Some (fbp_doppler_scale_mps p)),
           pf_snr = fbp_snr p\<rparr>) (fbs_points s)
      | FbRangeImage \<Rightarrow> map_option (\<lambda>r. RangeEncoding
          \<lparr>rf_beams = fbr_beams r, rf_columns = fbr_columns r, rf_range_scale_m = fbr_range_scale_m r,
           rf_intensity = fbr_intensity r\<rparr> (or_default (fbr_beam_elevations_rad r))) (fbs_range_image s)
      | FbDepth \<Rightarrow> map_option (\<lambda>d. DepthEncoding
          \<lparr>df_width = fbd_width d, df_height = fbd_height d, df_segment_width = fbd_segment_width d\<rparr>
          \<lparr>in_fx = fbd_fx d, in_fy = fbd_fy d, in_cx = fbd_cx d, in_cy = fbd_cy d\<rparr>) (fbs_depth s))"

definition decode_sensor :: "FbSensor \<Rightarrow> SensorDescriptor option" where
  "decode_sensor s =
     Option.bind (decode_encoding s) (\<lambda>encoding.
       let position = or_default (fbs_mount_position_m s);
           orientation = or_default (fbs_mount_orientation_xyzw s);
           descriptor = \<lparr>sd_sensor_id = fbs_sensor_id s, sd_label = or_default (fbs_label s),
             sd_encoding = encoding, sd_max_hz = fbs_max_hz s, sd_max_bitrate_kbps = fbs_max_bitrate_kbps s,
             sd_mount_position_m = (if length position = 3 then position else replicate 3 (Fin 0)),
             sd_mount_orientation_xyzw =
               (if length orientation = 4 then orientation else [Fin 0, Fin 0, Fin 0, Fin 1])\<rparr>
       in case descriptor_validate descriptor of Inr _ \<Rightarrow> Some descriptor | Inl _ \<Rightarrow> None)"

record FbRegion =
  fbg_region_id :: u8
  fbg_name :: "bytes option"
  fbg_joint_start :: u16
  fbg_joint_count :: u16
  fbg_has_force_torque_sensor :: bool
  fbg_command_shape :: FbCommandShape

record FbRobotProfile =
  fbq_dof_count :: u16
  fbq_joints :: "JointDescriptor list option"
  fbq_regions :: "FbRegion list option"
  fbq_base_type :: FbBaseType

record FbCamera =
  fbm_camera_id :: u8
  fbm_label :: "bytes option"
  fbm_codec :: FbCodec
  fbm_resolution_w :: u16
  fbm_resolution_h :: u16
  fbm_max_fps :: u8
  fbm_min_bitrate_kbps :: u32
  fbm_max_bitrate_kbps :: u32

record FbSessionDescribe =
  fbd_robot_id :: "bytes option"
  fbd_profile_hash :: u64
  fbd_robot_profile :: "FbRobotProfile option"
  fbd_cameras :: "FbCamera list option"
  fbd_sensors :: "FbSensor list option"

definition encode_region :: "BodyRegionDescriptor \<Rightarrow> FbRegion" where
  "encode_region r =
     \<lparr>fbg_region_id = rd_region_id r, fbg_name = Some (rd_name r), fbg_joint_start = rd_joint_start r,
      fbg_joint_count = rd_joint_count r, fbg_has_force_torque_sensor = rd_has_force_torque_sensor r,
      fbg_command_shape = to_fb_command_shape (rd_command_shape r)\<rparr>"

definition decode_region :: "FbRegion \<Rightarrow> BodyRegionDescriptor" where
  "decode_region r =
     \<lparr>rd_region_id = fbg_region_id r, rd_name = or_default (fbg_name r), rd_joint_start = fbg_joint_start r,
      rd_joint_count = fbg_joint_count r, rd_has_force_torque_sensor = fbg_has_force_torque_sensor r,
      rd_command_shape = from_fb_command_shape (fbg_command_shape r)\<rparr>"

definition encode_camera :: "CameraDescriptor \<Rightarrow> FbCamera" where
  "encode_camera c =
     \<lparr>fbm_camera_id = cam_camera_id c, fbm_label = Some (cam_label c), fbm_codec = to_fb_codec (cam_codec c),
      fbm_resolution_w = cam_resolution_w c, fbm_resolution_h = cam_resolution_h c, fbm_max_fps = cam_max_fps c,
      fbm_min_bitrate_kbps = cam_min_bitrate_kbps c, fbm_max_bitrate_kbps = cam_max_bitrate_kbps c\<rparr>"

definition decode_camera :: "FbCamera \<Rightarrow> CameraDescriptor" where
  "decode_camera c =
     \<lparr>cam_camera_id = fbm_camera_id c, cam_label = or_default (fbm_label c), cam_codec = from_fb_codec (fbm_codec c),
      cam_resolution_w = fbm_resolution_w c, cam_resolution_h = fbm_resolution_h c, cam_max_fps = fbm_max_fps c,
      cam_min_bitrate_kbps = fbm_min_bitrate_kbps c, cam_max_bitrate_kbps = fbm_max_bitrate_kbps c\<rparr>"

definition describe_table ::
  "bytes \<Rightarrow> RobotProfile \<Rightarrow> CameraDescriptor list \<Rightarrow> SensorDescriptor list \<Rightarrow> FbSessionDescribe" where
  "describe_table robot_id profile cameras sensors =
     \<lparr>fbd_robot_id = Some robot_id, fbd_profile_hash = profile_hash profile,
      fbd_robot_profile = Some
        \<lparr>fbq_dof_count = rp_dof_count profile, fbq_joints = Some (rp_joints profile),
         fbq_regions = Some (List.map encode_region (rp_regions profile)),
         fbq_base_type = to_fb_base_type (rp_base_type profile)\<rparr>,
      fbd_cameras = Some (List.map encode_camera cameras),
      fbd_sensors = Some (List.map encode_sensor sensors)\<rparr>"

definition encode_session_describe ::
  "FbSessionDescribe fb_format \<Rightarrow> bytes \<Rightarrow> RobotProfile \<Rightarrow> CameraDescriptor list \<Rightarrow> SensorDescriptor list \<Rightarrow> bytes" where
  "encode_session_describe fmt robot_id profile cameras sensors =
     fst fmt (describe_table robot_id profile cameras sensors)"

record SessionDescribeInfo =
  di_robot_id :: bytes
  di_profile_hash :: u64
  di_profile :: RobotProfile
  di_cameras :: "CameraDescriptor list"
  di_sensors :: "SensorDescriptor list"

datatype describe_error = MissingRobotProfile

definition decode_session_describe ::
  "FbSessionDescribe fb_format \<Rightarrow> bytes \<Rightarrow> describe_error + SessionDescribeInfo" where
  "decode_session_describe fmt buf =
     (let describe = snd fmt buf
      in case fbd_robot_profile describe of
           None \<Rightarrow> Inl MissingRobotProfile
         | Some p \<Rightarrow> Inr
             \<lparr>di_robot_id = or_default (fbd_robot_id describe), di_profile_hash = fbd_profile_hash describe,
              di_profile = \<lparr>rp_dof_count = fbq_dof_count p, rp_joints = or_default (fbq_joints p),
                rp_regions = List.map decode_region (or_default (fbq_regions p)),
                rp_base_type = from_fb_base_type (fbq_base_type p)\<rparr>,
              di_cameras = List.map decode_camera (or_default (fbd_cameras describe)),
              di_sensors = List.map_filter decode_sensor (or_default (fbd_sensors describe))\<rparr>)"

section \<open>Accepting the session\<close>

record FbSessionAccept =
  fbx_profile_hash :: u64
  fbx_cached :: bool
  fbx_selected_regions :: "u8 list option"
  fbx_quantization :: "(u8 \<times> u8) list option"
  fbx_selected_cameras :: "u8 list option"
  fbx_selected_sensors :: "u8 list option"

definition accept_table :: "SessionDescribeInfo \<Rightarrow> bool \<Rightarrow> FbSessionAccept" where
  "accept_table info cached =
     \<lparr>fbx_profile_hash = di_profile_hash info, fbx_cached = cached,
      fbx_selected_regions = Some (List.map rd_region_id (rp_regions (di_profile info))),
      fbx_quantization = Some (List.map (\<lambda>category. (category, ucast (bytes_per_field Standard))) [0, 1, 2]),
      fbx_selected_cameras = Some (List.map cam_camera_id (di_cameras info)),
      fbx_selected_sensors = Some (List.map sd_sensor_id (di_sensors info))\<rparr>"

definition encode_session_accept_full :: "FbSessionAccept fb_format \<Rightarrow> SessionDescribeInfo \<Rightarrow> bool \<Rightarrow> bytes" where
  "encode_session_accept_full fmt info cached = fst fmt (accept_table info cached)"

record SessionAcceptInfo =
  xi_profile_hash :: u64
  xi_cached :: bool
  xi_selected_regions :: "u8 list"
  xi_selected_cameras :: "u8 list"
  xi_selected_sensors :: "u8 list"

definition decode_session_accept :: "FbSessionAccept fb_format \<Rightarrow> bytes \<Rightarrow> SessionAcceptInfo" where
  "decode_session_accept fmt buf =
     (let accept = snd fmt buf
      in \<lparr>xi_profile_hash = fbx_profile_hash accept, xi_cached = fbx_cached accept,
          xi_selected_regions = or_default (fbx_selected_regions accept),
          xi_selected_cameras = or_default (fbx_selected_cameras accept),
          xi_selected_sensors = or_default (fbx_selected_sensors accept)\<rparr>)"

section \<open>Both ends agree on the session\<close>

text \<open>What a descriptor reads as on the other side: a Doppler scale of zero stands for none.\<close>

definition announced :: "SensorDescriptor \<Rightarrow> SensorDescriptor" where
  "announced s =
     (case sd_encoding s of
        PointsEncoding f \<Rightarrow>
          if (case pf_doppler_scale_mps f of None \<Rightarrow> False | Some d \<Rightarrow> feq d (Fin 0))
          then s\<lparr>sd_encoding := PointsEncoding (f\<lparr>pf_doppler_scale_mps := None\<rparr>)\<rparr> else s
      | _ \<Rightarrow> s)"

definition descriptor_valid :: "SensorDescriptor \<Rightarrow> bool" where
  "descriptor_valid d \<longleftrightarrow> (case descriptor_validate d of Inr _ \<Rightarrow> True | Inl _ \<Rightarrow> False)"

lemma from_to_codec [simp]: "from_fb_codec (to_fb_codec c) = c"
  by (cases c) simp_all

lemma from_to_command_shape [simp]: "from_fb_command_shape (to_fb_command_shape c) = c"
  by (cases c) simp_all

lemma from_to_base_type [simp]: "from_fb_base_type (to_fb_base_type b) = b"
  by (cases b) simp_all

lemma from_to_category [simp]: "from_fb_category (to_fb_category c) = c"
  by (cases c) simp_all

lemma decode_encode_region [simp]: "decode_region (encode_region r) = r"
  by (simp add: decode_region_def encode_region_def or_default_def)

lemma decode_encode_camera [simp]: "decode_camera (encode_camera c) = c"
  by (simp add: decode_camera_def encode_camera_def or_default_def)

lemma map_decode_encode [simp]:
  "List.map (decode_region \<circ> encode_region) rs = rs" "List.map (decode_camera \<circ> encode_camera) cs = cs"
  by (simp_all add: comp_def)

lemma decode_encode_encoding:
  "decode_encoding (encode_sensor s) = Some (sd_encoding (announced s))"
  by (auto simp: decode_encoding_def encode_sensor_def announced_def Let_def or_default_def
      split: SensorEncoding.split option.split)

lemma announced_fields [simp]:
  "sd_sensor_id (announced s) = sd_sensor_id s" "sd_label (announced s) = sd_label s"
  "sd_max_hz (announced s) = sd_max_hz s" "sd_max_bitrate_kbps (announced s) = sd_max_bitrate_kbps s"
  "sd_mount_position_m (announced s) = sd_mount_position_m s"
  "sd_mount_orientation_xyzw (announced s) = sd_mount_orientation_xyzw s"
  by (simp_all add: announced_def split: SensorEncoding.split)

lemma encode_sensor_fields:
  "fbs_sensor_id (encode_sensor s) = sd_sensor_id s" "fbs_label (encode_sensor s) = Some (sd_label s)"
  "fbs_max_hz (encode_sensor s) = sd_max_hz s" "fbs_max_bitrate_kbps (encode_sensor s) = sd_max_bitrate_kbps s"
  "fbs_mount_position_m (encode_sensor s) = Some (sd_mount_position_m s)"
  "fbs_mount_orientation_xyzw (encode_sensor s) = Some (sd_mount_orientation_xyzw s)"
  by (simp_all add: encode_sensor_def Let_def split: SensorEncoding.split)

lemma decode_encode_sensor:
  assumes "length (sd_mount_position_m s) = 3" and "length (sd_mount_orientation_xyzw s) = 4"
  shows "decode_sensor (encode_sensor s) = (if descriptor_valid (announced s) then Some (announced s) else None)"
proof -
  have eq: "\<lparr>sd_sensor_id = sd_sensor_id s, sd_label = sd_label s, sd_encoding = sd_encoding (announced s),
      sd_max_hz = sd_max_hz s, sd_max_bitrate_kbps = sd_max_bitrate_kbps s,
      sd_mount_position_m = sd_mount_position_m s, sd_mount_orientation_xyzw = sd_mount_orientation_xyzw s\<rparr> = announced s"
    by (rule SensorDescriptor.equality) simp_all
  show ?thesis
    by (simp add: decode_sensor_def decode_encode_encoding encode_sensor_fields or_default_def Let_def assms eq
        descriptor_valid_def split: sum.split)
qed

lemma valid_announced:
  assumes "descriptor_valid s"
  shows "announced s = s"
proof -
  have "\<not> positive d" if "feq d (Fin 0)" for d using that by (cases d) (simp_all add: positive_def)
  then have "encoding_error (sd_encoding s) = None \<longrightarrow> announced s = s"
    by (auto simp: announced_def split: SensorEncoding.split option.split)
  with assms show ?thesis
    by (auto simp: descriptor_valid_def descriptor_validate_def split: sum.splits if_splits option.splits)
qed

text \<open>What the console is to know of the robot, and the robot of the console's choice.\<close>

definition understood :: "bytes \<Rightarrow> RobotProfile \<Rightarrow> CameraDescriptor list \<Rightarrow> SensorDescriptor list \<Rightarrow> SessionDescribeInfo" where
  "understood robot_id profile cameras sensors =
     \<lparr>di_robot_id = robot_id, di_profile_hash = profile_hash profile, di_profile = profile, di_cameras = cameras,
      di_sensors = filter descriptor_valid (List.map announced sensors)\<rparr>"

definition choice :: "SessionDescribeInfo \<Rightarrow> bool \<Rightarrow> SessionAcceptInfo" where
  "choice info cached =
     \<lparr>xi_profile_hash = profile_hash (di_profile info), xi_cached = cached,
      xi_selected_regions = List.map rd_region_id (rp_regions (di_profile info)),
      xi_selected_cameras = List.map cam_camera_id (di_cameras info),
      xi_selected_sensors = List.map sd_sensor_id (di_sensors info)\<rparr>"

lemma describe_understood:
  assumes "fb_carries describe (describe_table robot_id profile cameras sensors)"
    and "\<forall>s \<in> set sensors. length (sd_mount_position_m s) = 3 \<and> length (sd_mount_orientation_xyzw s) = 4"
  shows "decode_session_describe describe (encode_session_describe describe robot_id profile cameras sensors)
      = Inr (understood robot_id profile cameras sensors)"
    and "subseq (filter descriptor_valid sensors) (di_sensors (understood robot_id profile cameras sensors))"
proof -
  have sensors: "List.map_filter decode_sensor (List.map encode_sensor sensors)
      = filter descriptor_valid (List.map announced sensors)"
    using assms(2) by (induction sensors) (simp_all add: List.map_filter_simps decode_encode_sensor)
  show "decode_session_describe describe (encode_session_describe describe robot_id profile cameras sensors)
      = Inr (understood robot_id profile cameras sensors)" using assms(1)
    by (simp add: decode_session_describe_def encode_session_describe_def fb_carries_def Let_def or_default_def
        sensors understood_def describe_table_def)
  show "subseq (filter descriptor_valid sensors) (di_sensors (understood robot_id profile cameras sensors))"
    unfolding understood_def by (induction sensors) (auto simp: valid_announced)
qed

lemma accept_chosen:
  assumes "fb_carries accept (accept_table (understood robot_id profile cameras sensors) cached)"
  shows "decode_session_accept accept
      (encode_session_accept_full accept (understood robot_id profile cameras sensors) cached)
      = choice (understood robot_id profile cameras sensors) cached"
  using assms by (simp add: fb_carries_def or_default_def decode_session_accept_def encode_session_accept_full_def
      understood_def choice_def accept_table_def)

text \<open>The two ends agree on the session.  From the robot's description the console reads the robot's id,
  its profile with the hash the robot computed, its cameras, and of its sensors, in order, exactly those
  that are valid as announced, every valid one unchanged; and the console's acceptance makes the robot
  select exactly the sensors the console has decoded.\<close>

theorem session_agrees:
  assumes "fb_carries describe (describe_table robot_id profile cameras sensors)"
    and "fb_carries accept (accept_table (understood robot_id profile cameras sensors) cached)"
    and "\<forall>s \<in> set sensors. length (sd_mount_position_m s) = 3 \<and> length (sd_mount_orientation_xyzw s) = 4"
  shows "decode_session_describe describe (encode_session_describe describe robot_id profile cameras sensors)
      = Inr (understood robot_id profile cameras sensors)
    \<and> subseq (filter descriptor_valid sensors) (di_sensors (understood robot_id profile cameras sensors))
    \<and> decode_session_accept accept
        (encode_session_accept_full accept (understood robot_id profile cameras sensors) cached)
        = choice (understood robot_id profile cameras sensors) cached"
  using describe_understood [OF assms(1,3)] accept_chosen [OF assms(2)] by blast

text \<open>A format that writes a table as its place in a book of tables.\<close>

definition book_format :: "'t list \<Rightarrow> 't fb_format" where
  "book_format book = (\<lambda>t. [word_of_nat (length (takeWhile (\<lambda>u. u \<noteq> t) book))], \<lambda>bs. book ! unat (hd bs))"

definition radar :: SensorDescriptor where
  "radar = \<lparr>sd_sensor_id = 0, sd_label = [0x72],
     sd_encoding = PointsEncoding \<lparr>pf_scale_m = Fin (1 / 128), pf_intensity = False,
       pf_doppler_scale_mps = Some (Fin (1 / 128)), pf_snr = True\<rparr>,
     sd_max_hz = 20, sd_max_bitrate_kbps = 500, sd_mount_position_m = [Fin 0, Fin 0, Fin (1 / 2)],
     sd_mount_orientation_xyzw = [Fin 0, Fin 0, Fin 0, Fin 1]\<rparr>"

definition idle_sensor :: SensorDescriptor where
  "idle_sensor = radar\<lparr>sd_sensor_id := 1, sd_max_hz := 0\<rparr>"

theorem session_agrees_witness:
  "\<exists>describe accept. let profile = \<lparr>rp_dof_count = 0, rp_joints = [], rp_regions = [], rp_base_type = QuadrupedLegs\<rparr>;
       info = understood [0x78] profile [] [radar, idle_sensor]
     in decode_session_describe describe (encode_session_describe describe [0x78] profile [] [radar, idle_sensor]) = Inr info
      \<and> di_sensors info = [radar]
      \<and> xi_selected_sensors (decode_session_accept accept (encode_session_accept_full accept info False)) = [0]"
proof -
  let ?p = "\<lparr>rp_dof_count = 0, rp_joints = [], rp_regions = [], rp_base_type = QuadrupedLegs\<rparr>"
  let ?t = "describe_table [0x78] ?p [] [radar, idle_sensor]"
  let ?info = "understood [0x78] ?p [] [radar, idle_sensor]"
  let ?a = "accept_table ?info False"
  have "fb_carries (book_format [?t]) ?t" "fb_carries (book_format [?a]) ?a"
    by (simp_all add: fb_carries_def book_format_def)
  moreover have "\<forall>s \<in> set [radar, idle_sensor]. length (sd_mount_position_m s) = 3 \<and> length (sd_mount_orientation_xyzw s) = 4"
    by (simp add: radar_def idle_sensor_def)
  ultimately have agree: "decode_session_describe (book_format [?t])
        (encode_session_describe (book_format [?t]) [0x78] ?p [] [radar, idle_sensor]) = Inr ?info
      \<and> decode_session_accept (book_format [?a]) (encode_session_accept_full (book_format [?a]) ?info False) = choice ?info False"
    by (rule session_agrees [THEN conjE]) blast
  have "List.map (\<lambda>s. descriptor_valid (announced s)) [radar, idle_sensor] = [True, False]"
    "announced radar = radar" "sd_sensor_id radar = 0" by code_simp+
  then have "di_sensors ?info = [radar]" "xi_selected_sensors (choice ?info False) = [0]"
    by (simp_all add: understood_def choice_def)
  with agree show ?thesis by (intro exI [of _ "book_format [?t]"] exI [of _ "book_format [?a]"]) (simp add: Let_def)
qed

end
