(* ===== verification/Edge_Session.thy ===== *)
theory Edge_Session
  imports Safety Actuator Autonomy LossyQueue Topic_Link Forwarding Session_Messages
begin

text \<open>The robot's session (robot-edge's \<open>quic_server.rs\<close>): its state and its handlers.  Every handler is
  one turn of the session loop; \<open>now\<close> is its \<open>Instant::now()\<close> and \<open>us\<close> its \<open>now_micros()\<close>.  The QUIC
  connection is a state of type \<open>'c\<close> with the operations of a record of functions; so are the message
  formats and the Zenoh key expressions.  The bridge's command channel is the list of the commands put
  into it.\<close>

section \<open>What the session stands on\<close>

datatype quic_error = QuicDone | QuicStreamLimit | QuicOther

record 'c services =
  q_stream_send :: "'c \<Rightarrow> u64 \<Rightarrow> bytes \<Rightarrow> bool \<Rightarrow> 'c \<times> (quic_error + nat)"
  q_stream_priority :: "'c stream_priority"
  q_dgram_send :: "'c \<Rightarrow> bytes \<Rightarrow> 'c \<times> bool"
  q_close :: "'c \<Rightarrow> u64 \<Rightarrow> bytes \<Rightarrow> 'c"
  q_established :: "'c \<Rightarrow> bool"
  q_dgram_send_queue_len :: "'c \<Rightarrow> nat"
  q_dgram_max_writable_len :: "'c \<Rightarrow> nat option"
  q_path_stats :: "'c \<Rightarrow> (duration \<times> u64 \<times> u64) option"
  f_hello :: "FbHello fb_format"
  f_describe :: "FbSessionDescribe fb_format"
  f_accept :: "FbSessionAccept fb_format"
  f_frame :: "FbChannelBFrame fb_format"
  f_trigger :: "FbActionTrigger fb_format"
  f_camera :: "FbCameraControl fb_format"
  z_keys :: key_exprs

text \<open>How a lane or an object reads the outcome of \<open>stream_send\<close>: being out of credit or of streams is not
  a failure.\<close>

definition lane_send :: "'c services \<Rightarrow> 'c stream_send" where
  "lane_send w c stream_id data fin =
     (case q_stream_send w c stream_id data fin of
        (c, Inr n) \<Rightarrow> (c, Inr n)
      | (c, Inl QuicOther) \<Rightarrow> (c, Inl SendFailed)
      | (c, Inl _) \<Rightarrow> (c, Inl SendBlocked))"

section \<open>The session's state\<close>

datatype Phase = AwaitingHello | AwaitingSessionAccept | Operating

record CameraControls =
  ct_brightness :: u32
  ct_contrast :: u32
  ct_ev :: u32
  ct_shutter_us :: u32

record BenchCounter =
  bc_msgs :: u64
  bc_bytes :: u64
  bc_first_rx :: "instant option"
  bc_last_log :: "instant option"

definition bench_counter_default :: BenchCounter where
  "bench_counter_default = \<lparr>bc_msgs = 0, bc_bytes = 0, bc_first_rx = None, bc_last_log = None\<rparr>"

record BenchSendSpec =
  bs_payload_bytes :: nat
  bs_rate_hz :: fl
  bs_duration_s :: fl

record BenchSendState =
  bn_spec :: BenchSendSpec
  bn_start :: "instant option"
  bn_offered :: u64
  bn_skipped :: u64
  bn_done :: bool

record SimMap =
  sm_period :: duration
  sm_version :: u32
  sm_started :: instant

record 'c Session =
  se_conn :: 'c
  se_task_class :: TaskClass
  se_robot_id :: bytes
  se_profile :: RobotProfile
  se_cameras :: "CameraDescriptor list"
  se_sensors :: "SensorDescriptor list"
  se_selected_sensors :: "u8 list"
  se_lossy :: LossyQueue
  se_lossy_rate :: "LossyRateControl option"
  se_bulk :: BulkSender
  se_sim_map :: "SimMap option"
  se_slice_payload_bytes :: nat
  se_safety :: SafetyTask
  se_bridge :: "BridgeCommand list"
  se_camera_controls :: "CameraControls option"
  se_camera_control_dedup :: CameraControlDedup
  se_telemetry_sink :: "TelemetryData option"
  se_command_sink :: CommandSink
  se_autonomy_goal :: AutonomyGoal
  se_forwarder :: "Forwarder option"
  se_topics :: TopicLink
  se_topics_negotiated :: bool
  se_topic_turn :: bool
  se_phase :: Phase
  se_channel_b_seq :: u64
  se_estop_seq :: u64
  se_hello_sent :: bool
  se_session_describe_sent :: bool
  se_estop_stream_primed :: bool
  se_last_reported_estop_latched :: "bool option"
  se_bridge_estop_active :: bool
  se_tick_count :: u64
  se_latest_telemetry :: "TelemetryData option"
  se_trigger_dedup :: TriggerDedup
  se_action_settle_until :: "instant option"
  se_sitting :: bool
  se_recorder :: Recorder
  se_bench :: "BenchMode option"
  se_bench_counter :: BenchCounter
  se_bench_send :: "BenchSendState option"

text \<open>What a session is set up with: the server's arguments and what outlives the sessions.\<close>

record EdgeSetup =
  su_task_class :: TaskClass
  su_watchdog_threshold_ms :: fl
  su_robot_id :: bytes
  su_profile :: RobotProfile
  su_cameras :: "CameraDescriptor list"
  su_sensors :: "SensorDescriptor list"
  su_sensor_frame_policy :: SensorFramePolicy
  su_lossy_rate_control :: bool
  su_sim_map_period :: "duration option"
  su_slice_payload_bytes :: nat
  su_camera :: "CameraControls option"
  su_zenoh_forward :: "ForwardConfig option"
  su_bench :: "BenchMode option"
  su_bench_send :: BenchSendSpec

definition session_new ::
  "EdgeSetup \<Rightarrow> 'c \<Rightarrow> TelemetryData option \<Rightarrow> CommandSink \<Rightarrow> AutonomyGoal \<Rightarrow> Forwarder option \<Rightarrow> Recorder \<Rightarrow> instant \<Rightarrow> 'c Session" where
  "session_new su conn telemetry command goal forwarder recorder now =
     \<lparr>se_conn = conn, se_task_class = su_task_class su, se_robot_id = su_robot_id su, se_profile = su_profile su,
      se_cameras = su_cameras su, se_sensors = su_sensors su, se_selected_sensors = [],
      se_lossy = with_sensor_policy (su_sensor_frame_policy su),
      se_lossy_rate = (if su_lossy_rate_control su then Some (rate_new now) else None),
      se_bulk = bulk_sender_new,
      se_sim_map = map_option (\<lambda>period. \<lparr>sm_period = period, sm_version = 0, sm_started = now\<rparr>) (su_sim_map_period su),
      se_slice_payload_bytes = su_slice_payload_bytes su,
      se_safety = task_with_watchdog_threshold_ms (su_task_class su) (su_watchdog_threshold_ms su) now,
      se_bridge = [], se_camera_controls = su_camera su, se_camera_control_dedup = camera_dedup_new,
      se_telemetry_sink = telemetry, se_command_sink = command, se_autonomy_goal = goal,
      se_forwarder = forwarder,
      se_topics = link_new (case su_zenoh_forward su of None \<Rightarrow> Fin 0 | Some c \<Rightarrow> fc_max_mbps c) now,
      se_topics_negotiated = False, se_topic_turn = False, se_phase = AwaitingHello,
      se_channel_b_seq = 0, se_estop_seq = 0, se_hello_sent = False, se_session_describe_sent = False,
      se_estop_stream_primed = False, se_last_reported_estop_latched = None, se_bridge_estop_active = False,
      se_tick_count = 0, se_latest_telemetry = None, se_trigger_dedup = trigger_dedup_new,
      se_action_settle_until = None, se_sitting = False, se_recorder = recorder, se_bench = su_bench su,
      se_bench_counter = bench_counter_default,
      se_bench_send = (if su_bench su = Some BenchSend
        then Some \<lparr>bn_spec = su_bench_send su, bn_start = None, bn_offered = 0, bn_skipped = 0, bn_done = False\<rparr>
        else None)\<rparr>"

section \<open>The bridge, the recorder and the handshake\<close>

definition TELEMETRY_QUERY_EVERY_N_TICKS :: u64 where "TELEMETRY_QUERY_EVERY_N_TICKS = 50"
definition STAND_ACTION_ID :: u8 where "STAND_ACTION_ID = 2"
definition SIT_ACTION_ID :: u8 where "SIT_ACTION_ID = 12"
definition ACTION_SETTLE_DURATION :: duration where "ACTION_SETTLE_DURATION = millis 2500"

definition next_seq :: "'c Session \<Rightarrow> 'c Session \<times> u64" where
  "next_seq s = (s\<lparr>se_channel_b_seq := se_channel_b_seq s + 1\<rparr>, se_channel_b_seq s + 1)"

text \<open>\<open>bridge.cmd_tx.send\<close> of a command with a fresh sequence number.\<close>

definition to_bridge :: "(u64 \<Rightarrow> BridgeCommand) \<Rightarrow> 'c Session \<Rightarrow> 'c Session" where
  "to_bridge cmd s = (let (s, seq) = next_seq s in s\<lparr>se_bridge := se_bridge s @ [cmd seq]\<rparr>)"

definition record_it :: "Category \<Rightarrow> u64 \<Rightarrow> u8 \<Rightarrow> bytes \<Rightarrow> 'c Session \<Rightarrow> 'c Session" where
  "record_it category us source payload s =
     s\<lparr>se_recorder := recorder_enqueue (se_recorder s) category
         \<lparr>rec_capture_us = us, rec_control_source = source, rec_payload = payload\<rparr>\<rparr>"

definition send_datagram :: "'c services \<Rightarrow> bytes \<Rightarrow> 'c Session \<Rightarrow> 'c Session" where
  "send_datagram w d s = s\<lparr>se_conn := fst (q_dgram_send w (se_conn s) d)\<rparr>"

fun task_class_bit :: "TaskClass \<Rightarrow> u8" where
  "task_class_bit ClassB = CLASS_B_bit"
| "task_class_bit ClassC = CLASS_C_bit"
| "task_class_bit ClassD = CLASS_D_bit"
| "task_class_bit ClassE = CLASS_E_bit"

definition local_hello_capabilities :: "TaskClass \<Rightarrow> bool \<Rightarrow> HelloCapabilities" where
  "local_hello_capabilities task_class topic_forwarding =
     \<lparr>hc_version = pv_new 1 0, hc_capability_bitmask = (if topic_forwarding then TOPIC_FORWARDING else 0),
      hc_task_classes = task_class_bit task_class, hc_quantization_tiers = STANDARD_bit,
      hc_max_control_rate_hz = 50\<rparr>"

text \<open>The errors that end a session.\<close>

datatype session_error = HelloNotSent | DescribeCutShort nat nat | DescribeNotSent

definition send_hello :: "'c services \<Rightarrow> 'c Session \<Rightarrow> 'c Session \<times> session_error option" where
  "send_hello w s =
     (let caps = local_hello_capabilities (se_task_class s) (se_forwarder s \<noteq> None);
          (c, r) = q_stream_send w (se_conn s) 0 (encode_hello (f_hello w) caps) False;
          s = s\<lparr>se_conn := c\<rparr>
      in case r of Inr _ \<Rightarrow> (s, None) | Inl QuicDone \<Rightarrow> (s, None) | Inl _ \<Rightarrow> (s, Some HelloNotSent))"

text \<open>The first step of \<open>after_recv\<close>; a failed HELLO is tried again later.\<close>

definition greet :: "'c services \<Rightarrow> 'c Session \<Rightarrow> 'c Session" where
  "greet w s =
     (if q_established w (se_conn s) \<and> \<not> se_hello_sent s
      then let (s, e) = send_hello w s in if e = None then s\<lparr>se_hello_sent := True\<rparr> else s
      else s)"

definition send_session_describe :: "'c services \<Rightarrow> 'c Session \<Rightarrow> 'c Session \<times> session_error option" where
  "send_session_describe w s =
     (if se_session_describe_sent s then (s, None)
      else
        let bs = encode_session_describe (f_describe w) (se_robot_id s) (se_profile s) (se_cameras s) (se_sensors s);
            (c, r) = q_stream_send w (se_conn s) 1 bs True;
            s = s\<lparr>se_conn := c\<rparr>
        in case r of
             Inr written \<Rightarrow>
               if written = length bs then (s\<lparr>se_session_describe_sent := True\<rparr>, None)
               else (s, Some (DescribeCutShort written (length bs)))
           | Inl QuicDone \<Rightarrow> (s, None)
           | Inl _ \<Rightarrow> (s, Some DescribeNotSent))"

text \<open>\<open>"HELLO_INCOMPATIBLE"\<close> and \<open>"robot-edge shutting down"\<close>, the reasons of a close.\<close>

definition HELLO_INCOMPATIBLE :: bytes where
  "HELLO_INCOMPATIBLE = List.map (\<lambda>c. word_of_nat (of_char c)) ''HELLO_INCOMPATIBLE''"

definition SHUTTING_DOWN :: bytes where
  "SHUTTING_DOWN = List.map (\<lambda>c. word_of_nat (of_char c)) ''robot-edge shutting down''"

definition on_hello :: "'c services \<Rightarrow> bytes \<Rightarrow> 'c Session \<Rightarrow> 'c Session \<times> session_error option" where
  "on_hello w data s =
     (case negotiate (local_hello_capabilities (se_task_class s) (se_forwarder s \<noteq> None)) (decode_hello (f_hello w) data) of
        Inr negotiated \<Rightarrow>
          send_session_describe w
            (s\<lparr>se_topics_negotiated := (ns_capability_bitmask negotiated AND TOPIC_FORWARDING \<noteq> 0),
               se_phase := AwaitingSessionAccept\<rparr>)
      | Inl _ \<Rightarrow> (s\<lparr>se_conn := q_close w (se_conn s) 1 HELLO_INCOMPATIBLE\<rparr>, None))"

definition on_session_accept :: "'c services \<Rightarrow> bytes \<Rightarrow> 'c Session \<Rightarrow> 'c Session" where
  "on_session_accept w data s =
     s\<lparr>se_selected_sensors := xi_selected_sensors (decode_session_accept (f_accept w) data),
       se_phase := Operating,
       se_forwarder := map_option (\<lambda>f. fst (discard_waiting f)) (se_forwarder s)\<rparr>"

section \<open>Commands\<close>

text \<open>A latched or cleared E-Stop, from its stream or its datagram.\<close>

definition apply_estop :: "EstopDatagram \<Rightarrow> instant \<Rightarrow> SafetyTask \<Rightarrow> SafetyTask" where
  "apply_estop d now t = (if ed_latched d then trigger_explicit_estop t else clear_explicit_estop t now)"

definition session_tick :: "instant \<Rightarrow> 'c Session \<Rightarrow> 'c Session \<times> ControlSource" where
  "session_tick now s =
     (let (t, source) = task_tick (se_safety s) now (goal_asserted (se_autonomy_goal s) now)
      in (s\<lparr>se_safety := t\<rparr>, source))"

definition on_action_trigger :: "instant \<Rightarrow> ActionTrigger \<Rightarrow> 'c Session \<Rightarrow> 'c Session" where
  "on_action_trigger now trigger s =
     (let (dedup, accepted) = trigger_accept (se_trigger_dedup s) trigger;
          s = s\<lparr>se_trigger_dedup := dedup\<rparr>
      in if \<not> accepted then s
         else
           let (s, source) = session_tick now s
           in if source \<noteq> FullTeleoperation then s
              else
                let action = at_action_id trigger;
                    s = to_bridge (Action action) s;
                    s = (if action = STAND_ACTION_ID \<or> action = SIT_ACTION_ID
                         then s\<lparr>se_action_settle_until := Some (now + ACTION_SETTLE_DURATION)\<rparr> else s)
                in if action = SIT_ACTION_ID then s\<lparr>se_sitting := True\<rparr>
                   else if action = STAND_ACTION_ID then s\<lparr>se_sitting := False\<rparr> else s)"

text \<open>\<open>f32::clamp\<close> on a bit pattern: a value in range keeps its bits.\<close>

definition f32_clamp :: "rat \<Rightarrow> rat \<Rightarrow> u32 \<Rightarrow> u32" where
  "f32_clamp lo hi v =
     (if flt (f32_of_bits v) (Fin lo) then f32_to_bits (Fin lo)
      else if flt (Fin hi) (f32_of_bits v) then f32_to_bits (Fin hi) else v)"

definition on_camera_control :: "CameraControl \<Rightarrow> 'c Session \<Rightarrow> 'c Session" where
  "on_camera_control control s =
     (let (dedup, accepted) = camera_accept (se_camera_control_dedup s) control;
          s = s\<lparr>se_camera_control_dedup := dedup\<rparr>
      in if \<not> accepted then s
         else s\<lparr>se_camera_controls := map_option (\<lambda>_.
               \<lparr>ct_brightness = f32_clamp (-1) 1 (cc_brightness control),
                ct_contrast = f32_clamp 0 2 (cc_contrast control),
                ct_ev = f32_clamp (-4) 4 (cc_ev control),
                ct_shutter_us = min (cc_shutter_us control) 100000\<rparr>) (se_camera_controls s)\<rparr>)"

definition teleop_idle :: "TeleopCommand \<Rightarrow> bool" where
  "teleop_idle cmd = (list_all (\<lambda>v. feq (f32_of_bits v) (Fin 0)) [tc_vx cmd, tc_vy cmd, tc_turn cmd])"

text \<open>What an operator's command sends to the bridge: the body, unless a gait settles or the robot is to
  stay seated; the arm, unless a gait settles; the claw always.\<close>

definition send_body :: "TeleopCommand \<Rightarrow> 'c Session \<Rightarrow> 'c Session" where
  "send_body cmd s =
     (let s = to_bridge (Move (f32_of_bits (tc_vx cmd)) (f32_of_bits (tc_vy cmd))) s;
          s = to_bridge (Turn (f32_of_bits (tc_turn cmd))) s;
          s = to_bridge (Attitude CHR ''r'' (f32_of_bits (tc_attitude_r cmd))) s;
          s = to_bridge (Attitude CHR ''p'' (f32_of_bits (tc_attitude_p cmd))) s
      in to_bridge (Attitude CHR ''y'' (f32_of_bits (tc_attitude_y cmd))) s)"

definition drive :: "instant \<Rightarrow> TeleopCommand \<Rightarrow> 'c Session \<Rightarrow> 'c Session" where
  "drive now cmd s =
     (let settling = (case se_action_settle_until s of None \<Rightarrow> False | Some until \<Rightarrow> now < until);
          s = (if settling then s else s\<lparr>se_action_settle_until := None\<rparr>);
          is_idle = teleop_idle cmd;
          s = (if is_idle then s else s\<lparr>se_sitting := False\<rparr>);
          hold_sit = (se_sitting s \<and> is_idle);
          s = (if \<not> settling \<and> \<not> hold_sit then send_body cmd s else s);
          s = (if settling then s
               else to_bridge (Arm (fof_int B64 (sint (tc_arm_x cmd))) (fof_int B64 (sint (tc_arm_z cmd)))) s)
      in to_bridge (Claw (tc_claw cmd)) s)"

definition dispatch_teleop_command ::
  "instant \<Rightarrow> bool \<Rightarrow> TeleopCommand \<Rightarrow> 'c Session \<Rightarrow> 'c Session \<times> ControlSource" where
  "dispatch_teleop_command now room cmd s =
     (let (s, source) = session_tick now s;
          s = s\<lparr>se_command_sink := fst (publish_at (se_command_sink s) now room source cmd)\<rparr>
      in (case source of
            FullTeleoperation \<Rightarrow> drive now cmd s
          | EStop \<Rightarrow> to_bridge Stop s
          | EmergencySafeParking \<Rightarrow> to_bridge Stop s
          | ActiveImpedanceHold \<Rightarrow> to_bridge Stop s
          | SemiAutonomous \<Rightarrow> s, source))"

section \<open>Benchmark traffic\<close>

definition count_bench :: "instant \<Rightarrow> nat \<Rightarrow> BenchCounter \<Rightarrow> BenchCounter" where
  "count_bench now n c =
     c\<lparr>bc_first_rx := Some (case bc_first_rx c of None \<Rightarrow> now | Some t \<Rightarrow> t),
       bc_msgs := bc_msgs c + 1, bc_bytes := bc_bytes c + word_of_nat n\<rparr>"

definition on_bench_command ::
  "'c services \<Rightarrow> instant \<Rightarrow> BenchMode \<Rightarrow> ChannelBFrameData \<Rightarrow> nat \<Rightarrow> 'c Session \<Rightarrow> 'c Session" where
  "on_bench_command w now mode fr wire_len s =
     (if tc_unpack (cb_fields fr) = None then s
      else if mode = BenchEcho
      then send_datagram w (tag DATAGRAM_TAG_CHANNEL_B (encode_channel_b_frame (f_frame w)
             \<lparr>cb_timestamp = cb_timestamp fr, cb_seq = cb_seq fr, cb_tick_id = BENCH_ECHO_TICK_ID,
              cb_category = CatTelemetry, cb_region_id = ALL_REGIONS, cb_fields = cb_fields fr\<rparr>)) s
      else s\<lparr>se_bench_counter := count_bench now wire_len (se_bench_counter s)\<rparr>)"

definition on_bench_raw :: "'c services \<Rightarrow> instant \<Rightarrow> BenchMode \<Rightarrow> bytes \<Rightarrow> 'c Session \<Rightarrow> 'c Session" where
  "on_bench_raw w now mode data s =
     (let s = s\<lparr>se_safety := on_channel_b_activity (se_safety s) None now\<rparr>
      in if mode = BenchEcho then send_datagram w data s
         else s\<lparr>se_bench_counter := count_bench now (length data - 1) (se_bench_counter s)\<rparr>)"

definition log_bench_counter :: "instant \<Rightarrow> BenchCounter \<Rightarrow> BenchCounter" where
  "log_bench_counter now c =
     (case bc_first_rx c of
        None \<Rightarrow> c
      | Some _ \<Rightarrow>
          if (case bc_last_log c of None \<Rightarrow> False | Some t \<Rightarrow> duration_since now t < secs 1) then c
          else c\<lparr>bc_last_log := Some now\<rparr>)"

section \<open>What arrives\<close>

definition on_command_frame ::
  "'c services \<Rightarrow> instant \<Rightarrow> u64 \<Rightarrow> bool \<Rightarrow> bytes \<Rightarrow> ChannelBFrameData \<Rightarrow> 'c Session \<Rightarrow> 'c Session" where
  "on_command_frame w now us room payload fr s =
     (let s = s\<lparr>se_safety := (on_channel_b_activity (se_safety s) None now)
                  \<lparr>st_deadman_held := True, st_command_fresh := True\<rparr>\<rparr>
      in case se_bench s of
           Some mode \<Rightarrow> on_bench_command w now mode fr (length payload) s
         | None \<Rightarrow>
             case tc_unpack (cb_fields fr) of
               None \<Rightarrow> s
             | Some cmd \<Rightarrow>
                 let (s, source) = dispatch_teleop_command now room cmd s
                 in record_it ChannelBCommand us (control_source_byte source) payload s)"

definition on_datagram :: "'c services \<Rightarrow> instant \<Rightarrow> u64 \<Rightarrow> bool \<Rightarrow> bytes \<Rightarrow> 'c Session \<Rightarrow> 'c Session" where
  "on_datagram w now us room data s =
     (case data of
        [] \<Rightarrow> s
      | t # payload \<Rightarrow>
          if t = ESTOP_DATAGRAM_MAGIC then
            (case estop_decode data of
               None \<Rightarrow> s
             | Some d \<Rightarrow> s\<lparr>se_safety := on_channel_b_activity (apply_estop d now (se_safety s)) None now\<rparr>)
          else if se_phase s \<noteq> Operating then s
          else if t = DATAGRAM_TAG_BENCH_RAW then
            (case se_bench s of None \<Rightarrow> s | Some mode \<Rightarrow> on_bench_raw w now mode data s)
          else if t = DATAGRAM_TAG_HEARTBEAT then
            s\<lparr>se_safety := on_channel_b_activity (se_safety s) None now\<rparr>
          else if t = DATAGRAM_TAG_TOPIC then
            (case sample_decode payload of
               Inl _ \<Rightarrow> s
             | Inr sample \<Rightarrow> s\<lparr>se_forwarder := map_option (\<lambda>f. republish (z_keys w) f sample) (se_forwarder s)\<rparr>)
          else if t \<noteq> DATAGRAM_TAG_CHANNEL_B then s
          else
            let fr = decode_channel_b_frame (f_frame w) payload
            in if cb_category fr = CatCommand then on_command_frame w now us room payload fr s else s)"

definition on_stream_data ::
  "'c services \<Rightarrow> instant \<Rightarrow> u64 \<Rightarrow> u64 \<Rightarrow> bytes \<Rightarrow> 'c Session \<Rightarrow> 'c Session \<times> session_error option" where
  "on_stream_data w now us stream_id data s =
     (if stream_id = 0 \<and> se_phase s = AwaitingHello then on_hello w data s
      else if stream_id = 1 \<and> se_phase s = AwaitingSessionAccept then (on_session_accept w data s, None)
      else if stream_id = ESTOP_STREAM_ID then
        (case estop_decode data of
           None \<Rightarrow> s
         | Some d \<Rightarrow> s\<lparr>se_safety := apply_estop d now (se_safety s)\<rparr>, None)
      else if stream_id = ACTION_TRIGGER_STREAM_ID \<and> se_phase s = Operating then
        (on_action_trigger now (decode_action_trigger (f_trigger w) data)
           (record_it ActionTriggerC us CONTROL_SOURCE_SENTINEL data s), None)
      else if stream_id = CAMERA_CONTROL_STREAM_ID \<and> se_phase s = Operating then
        (on_camera_control (decode_camera_control (f_camera w) data)
           (record_it ActionTriggerC us CONTROL_SOURCE_SENTINEL data s), None)
      else (s, None))"

definition on_topic_stream :: "'c services \<Rightarrow> u64 \<Rightarrow> bytes \<Rightarrow> bool \<Rightarrow> 'c Session \<Rightarrow> 'c Session" where
  "on_topic_stream w stream_id data fin s =
     (let (topics, samples, _) = link_on_stream_data (se_topics s) stream_id data fin;
          s = s\<lparr>se_topics := topics\<rparr>
      in if se_phase s = Operating
         then s\<lparr>se_forwarder := map_option (\<lambda>f. foldl (republish (z_keys w)) f samples) (se_forwarder s)\<rparr>
         else s)"

definition on_topic_reset :: "u64 \<Rightarrow> 'c Session \<Rightarrow> 'c Session" where
  "on_topic_reset stream_id s = s\<lparr>se_topics := link_on_stream_reset (se_topics s) stream_id\<rparr>"

fun on_bridge_event :: "SupervisorEvent \<Rightarrow> 'c Session \<Rightarrow> 'c Session" where
  "on_bridge_event (FromBridge (EvTelemetry ts motors battery roll pitch yaw)) s =
     (let f32 = (\<lambda>v. f32_to_bits (fcast B32 v));
          data = \<lparr>td_battery = battery, td_roll = f32 roll, td_pitch = f32 pitch, td_yaw = f32 yaw,
                  td_motors = List.map f32 motors\<rparr>
      in s\<lparr>se_telemetry_sink := telemetry_sink_publish (se_telemetry_sink s) data, se_latest_telemetry := Some data\<rparr>)"
| "on_bridge_event (FromBridge (EvAck seq ok err)) s = s"
| "on_bridge_event (FromBridge (EvStatus state msg)) s = s"
| "on_bridge_event (FromBridge (EvLog level msg)) s = s"
| "on_bridge_event (ProcessDied attempt will_retry) s = s\<lparr>se_safety := trigger_explicit_estop (se_safety s)\<rparr>"
| "on_bridge_event GaveUp s = s\<lparr>se_safety := trigger_explicit_estop (se_safety s)\<rparr>"

section \<open>The tick\<close>

definition update_rate :: "'c services \<Rightarrow> instant \<Rightarrow> 'c Session \<Rightarrow> 'c Session" where
  "update_rate w now s =
     (case se_lossy_rate s of
        None \<Rightarrow> s
      | Some rate \<Rightarrow>
          case q_path_stats w (se_conn s) of
            None \<Rightarrow> s
          | Some (rtt, sent, acked) \<Rightarrow> s\<lparr>se_lossy_rate := Some (rate_update rate now rtt sent acked)\<rparr>)"

text \<open>The E-Stop state goes out with every tick as a datagram, and on its stream when it changed.\<close>

definition report_estop :: "'c services \<Rightarrow> bool \<Rightarrow> 'c Session \<Rightarrow> 'c Session" where
  "report_estop w latched s =
     (let s = (if \<not> se_estop_stream_primed s \<and> q_established w (se_conn s)
               then s\<lparr>se_conn := q_stream_priority w (se_conn s) ESTOP_STREAM_ID ESTOP_STREAM_URGENCY False,
                      se_estop_stream_primed := True\<rparr> else s);
          s = s\<lparr>se_estop_seq := se_estop_seq s + 1\<rparr>;
          d = \<lparr>ed_latched = latched, ed_seq = se_estop_seq s\<rparr>;
          s = send_datagram w (estop_encode d) s
      in if se_estop_stream_primed s \<and> se_last_reported_estop_latched s \<noteq> Some latched
         then
           let (c, r) = q_stream_send w (se_conn s) ESTOP_STREAM_ID (estop_encode d) False;
               s = s\<lparr>se_conn := c\<rparr>
           in case r of Inr _ \<Rightarrow> s\<lparr>se_last_reported_estop_latched := Some latched\<rparr> | Inl _ \<Rightarrow> s
         else s)"

definition relay_estop :: "ControlSource \<Rightarrow> 'c Session \<Rightarrow> 'c Session" where
  "relay_estop source s =
     (if source = EStop then to_bridge Estop (s\<lparr>se_bridge_estop_active := True\<rparr>)
      else if se_bridge_estop_active s then to_bridge EstopClear (s\<lparr>se_bridge_estop_active := False\<rparr>)
      else s)"

definition follow_autonomy :: "instant \<Rightarrow> ControlSource \<Rightarrow> 'c Session \<Rightarrow> 'c Session" where
  "follow_autonomy now source s =
     (if source = SemiAutonomous
      then let v = goal_velocity (se_autonomy_goal s) now
           in to_bridge (Turn (av_turn v)) (to_bridge (Move (av_vx v) (av_vy v)) s)
      else s)"

definition send_telemetry :: "'c services \<Rightarrow> u64 \<Rightarrow> ControlSource \<Rightarrow> 'c Session \<Rightarrow> 'c Session" where
  "send_telemetry w us source s =
     (let (s, seq) = next_seq s;
          bs = encode_channel_b_frame (f_frame w)
            \<lparr>cb_timestamp = us, cb_seq = seq, cb_tick_id = 0, cb_category = CatTelemetry, cb_region_id = ALL_REGIONS,
             cb_fields = (case se_latest_telemetry s of None \<Rightarrow> [] | Some t \<Rightarrow> telemetry_pack t)\<rparr>;
          s = record_it ChannelBTelemetry us (control_source_byte source) bs s
      in send_datagram w (tag DATAGRAM_TAG_CHANNEL_B bs) s)"

definition on_tick :: "'c services \<Rightarrow> instant \<Rightarrow> u64 \<Rightarrow> 'c Session \<Rightarrow> 'c Session" where
  "on_tick w now us s =
     (let s = s\<lparr>se_tick_count := se_tick_count s + 1\<rparr>;
          s = update_rate w now s;
          s = (if se_bench s = Some BenchCount
               then s\<lparr>se_bench_counter := log_bench_counter now (se_bench_counter s)\<rparr> else s);
          (s, source) = session_tick now s;
          s = report_estop w (is_estopped (se_safety s)) s;
          s = to_bridge Heartbeat s;
          s = relay_estop source s;
          s = follow_autonomy now source s;
          s = (if se_tick_count s mod TELEMETRY_QUERY_EVERY_N_TICKS = 0 then to_bridge Query s else s)
      in if se_phase s = Operating then send_telemetry w us source s else s)"

text \<open>\<open>shut_down\<close>: the bridge is told to stop and to latch, and the session waits for the acknowledgement of
  the stop among the events that arrive before its deadline; a closed channel or the deadline ends the
  wait too.\<close>

fun await_stop :: "u64 \<Rightarrow> SupervisorEvent list \<Rightarrow> bool" where
  "await_stop seq [] = False"
| "await_stop seq (e # es) =
     (case e of FromBridge (EvAck (Some acked) ok err) \<Rightarrow> acked = seq \<or> await_stop seq es | _ \<Rightarrow> await_stop seq es)"

definition shut_down :: "'c services \<Rightarrow> SupervisorEvent list \<Rightarrow> 'c Session \<Rightarrow> 'c Session \<times> bool" where
  "shut_down w events s =
     (let s = to_bridge Stop s;
          stop_seq = se_channel_b_seq s;
          s = to_bridge Estop s
      in (s\<lparr>se_conn := q_close w (se_conn s) 0 SHUTTING_DOWN\<rparr>, await_stop stop_seq events))"

end
