(* ===== verification/Edge_Flow.thy ===== *)
theory Edge_Flow
  imports Edge_Session
begin

text \<open>The data the robot's session sends (robot-edge's \<open>quic_server.rs\<close>): sensor frames, video, topic samples
  and bulk objects on their way into quiche.  The result of an operation that can panic is an option.
  The loop of \<open>feed_lossy\<close> ends because the queues it empties are finite; it is written as a partial
  function, whose result is also \<open>None\<close> where it would not end.\<close>

section \<open>Queueing\<close>

record SensorFrame =
  sf_sensor_id :: u8
  sf_frame_seq :: u32
  sf_capture_time_us :: u64
  sf_elements :: bytes

definition MAX_DATAGRAM_SIZE :: nat where "MAX_DATAGRAM_SIZE = 1452"
definition OCCUPANCY_GRID_ENCODING :: u8 where "OCCUPANCY_GRID_ENCODING = 1"
definition BULK_STREAM_WINDOW :: u64 where "BULK_STREAM_WINDOW = 256 * 1024"

definition slice_payload :: "'c services \<Rightarrow> 'c Session \<Rightarrow> nat option" where
  "slice_payload w s =
     map_option (\<lambda>len.
         let most = len - (1 + SLICE_HEADER_LEN); n = se_slice_payload_bytes s
         in if n = 0 then most else min (max n DEFAULT_SLICE_PAYLOAD) most)
       (q_dgram_max_writable_len w (se_conn s))"

definition send_sensor_frame :: "nat \<Rightarrow> SensorFrame \<Rightarrow> 'c Session \<Rightarrow> 'c Session" where
  "send_sensor_frame max_payload fr s =
     (if sf_sensor_id fr \<notin> set (se_selected_sensors s) then s
      else case find (\<lambda>d. sd_sensor_id d = sf_sensor_id fr) (se_sensors s) of
             None \<Rightarrow> s
           | Some d \<Rightarrow>
               case slice_frame (sf_sensor_id fr) (sf_frame_seq fr) (sf_capture_time_us fr) (sf_elements fr)
                      (encoding_element_size (sd_encoding d)) max_payload of
                 Inl _ \<Rightarrow> s
               | Inr datagrams \<Rightarrow> s\<lparr>se_lossy := push_sensor_frame (se_lossy s) (sf_sensor_id fr) datagrams\<rparr>)"

definition send_sensor_frames :: "'c services \<Rightarrow> SensorFrame list \<Rightarrow> 'c Session \<Rightarrow> 'c Session" where
  "send_sensor_frames w frs s =
     (case slice_payload w s of
        None \<Rightarrow> s
      | Some max_payload \<Rightarrow> foldl (\<lambda>s fr. send_sensor_frame max_payload fr s) s frs)"

text \<open>The branches of the session loop that queue video, sensor frames and local topic samples.\<close>

definition on_sensor_frames :: "'c services \<Rightarrow> SensorFrame list \<Rightarrow> 'c Session \<Rightarrow> 'c Session" where
  "on_sensor_frames w frs s = (if se_phase s = Operating then send_sensor_frames w frs s else s)"

definition on_video_nal :: "instant \<Rightarrow> u32 \<Rightarrow> bytes \<Rightarrow> 'c Session \<Rightarrow> 'c Session" where
  "on_video_nal now nal_id nal s =
     (if se_phase s = Operating then s\<lparr>se_lossy := push_video_nal (se_lossy s) nal_id nal now\<rparr> else s)"

definition on_forward :: "'c Session \<Rightarrow> 'c Session" where
  "on_forward s =
     (case se_forwarder s of
        None \<Rightarrow> s
      | Some f \<Rightarrow>
          if se_phase s \<noteq> Operating then s
          else
            let s = (if se_topics_negotiated s
                     then s\<lparr>se_topics := foldl (\<lambda>l out. link_push l (ls_mode out) (ls_sample out)) (se_topics s) (fw_outgoing f)\<rparr>
                     else s)
            in s\<lparr>se_forwarder := Some (fst (discard_waiting f))\<rparr>)"

text \<open>\<open>grid\<close> is the map of the simulated room.\<close>

definition publish_sim_map :: "'c services \<Rightarrow> u64 \<Rightarrow> OccupancyGrid \<Rightarrow> 'c Session \<Rightarrow> 'c Session" where
  "publish_sim_map w us grid s =
     (case se_sim_map s of
        None \<Rightarrow> s
      | Some m \<Rightarrow>
          let m = m\<lparr>sm_version := sm_version m + 1\<rparr>;
              payload = grid_encode grid;
              h = bulk_header OccupancyGridKind 0 OCCUPANCY_GRID_ENCODING (sm_version m) payload us;
              (c, bulk) = bulk_publish (q_stream_priority w) (se_conn s) h payload (se_bulk s)
          in s\<lparr>se_sim_map := Some m, se_conn := c, se_bulk := bulk\<rparr>)"

section \<open>Into quiche\<close>

text \<open>What is left of the adaptive cap, and charging it.\<close>

definition lossy_budget :: "instant \<Rightarrow> 'c Session \<Rightarrow> 'c Session \<times> nat option" where
  "lossy_budget now s =
     (case se_lossy_rate s of
        None \<Rightarrow> (s, None)
      | Some rate \<Rightarrow> let (rate, n) = rate_available rate now in (s\<lparr>se_lossy_rate := Some rate\<rparr>, Some n))"

definition charge :: "nat \<Rightarrow> 'c Session \<Rightarrow> 'c Session" where
  "charge n s = s\<lparr>se_lossy_rate := map_option (\<lambda>rate. rate_consume rate n) (se_lossy_rate s)\<rparr>"

definition pump_topics :: "'c services \<Rightarrow> instant \<Rightarrow> 'c Session \<Rightarrow> 'c Session option" where
  "pump_topics w now s =
     (let (s, budget) = lossy_budget now s
      in map_option (\<lambda>(c, bulk, topics, written). charge written (s\<lparr>se_conn := c, se_bulk := bulk, se_topics := topics\<rparr>))
           (pump_reliable (lane_send w) (q_stream_priority w) allocate_stream (se_conn s) (se_bulk s) (se_topics s) now budget))"

definition pump_bulk :: "'c services \<Rightarrow> instant \<Rightarrow> 'c Session \<Rightarrow> 'c Session option" where
  "pump_bulk w now s =
     (if pending_bytes (se_bulk s) = 0 then Some s
      else
        let (s, budget) = lossy_budget now s
        in map_option (\<lambda>(c, bulk, written). charge written (s\<lparr>se_conn := c, se_bulk := bulk\<rparr>))
             (bulk_pump (lane_send w) (q_stream_priority w) (se_conn s) budget (se_bulk s)))"

definition pop_topic :: "instant \<Rightarrow> nat \<Rightarrow> 'c Session \<Rightarrow> ('c Session \<times> bytes option) option" where
  "pop_topic now max_len s =
     map_option (\<lambda>(topics, d). (s\<lparr>se_topics := topics\<rparr>, d)) (link_pop_datagram (se_topics s) now max_len)"

text \<open>The next datagram: a topic's if it is the topics' turn, then video's or a sensor's, then a topic's.\<close>

definition next_lossy :: "instant \<Rightarrow> nat \<Rightarrow> 'c Session \<Rightarrow> ('c Session \<times> bytes option) option" where
  "next_lossy now max_len s =
     Option.bind (if se_topic_turn s then pop_topic now max_len s else Some (s, None)) (\<lambda>(s, d).
       case d of
         Some d \<Rightarrow> Some (s, Some d)
       | None \<Rightarrow>
           let (lossy, d) = lq_pop (se_lossy s) now; s = s\<lparr>se_lossy := lossy\<rparr>
           in case d of Some d \<Rightarrow> Some (s, Some d) | None \<Rightarrow> pop_topic now max_len s)"

definition lossy_room :: "instant \<Rightarrow> 'c Session \<Rightarrow> 'c Session \<times> bool" where
  "lossy_room now s =
     (case se_lossy_rate s of
        None \<Rightarrow> (s, True)
      | Some rate \<Rightarrow> let (rate, room) = has_room rate now MAX_DATAGRAM_SIZE in (s\<lparr>se_lossy_rate := Some rate\<rparr>, room))"

partial_function (option) feed_lossy :: "'c services \<Rightarrow> instant \<Rightarrow> 'c Session \<Rightarrow> 'c Session option" where
  "feed_lossy w now s =
     (if QUICHE_LOSSY_LIMIT \<le> q_dgram_send_queue_len w (se_conn s) then Some s
      else
        let (s, room) = lossy_room now s
        in if \<not> room then Some s
           else
             let topic_first = se_topic_turn s;
                 max_len = (case q_dgram_max_writable_len w (se_conn s) of None \<Rightarrow> 0 | Some n \<Rightarrow> n)
             in Option.bind (next_lossy now max_len s) (\<lambda>(s, d).
                  case d of
                    None \<Rightarrow> Some s
                  | Some d \<Rightarrow>
                      feed_lossy w now
                        (send_datagram w d (charge (length d) (s\<lparr>se_topic_turn := \<not> topic_first\<rparr>)))))"

text \<open>\<open>flush\<close> tops quiche up before every packet.\<close>

definition top_up :: "'c services \<Rightarrow> instant \<Rightarrow> 'c Session \<Rightarrow> 'c Session option" where
  "top_up w now s =
     Option.bind (feed_lossy w now s) (\<lambda>s. Option.bind (pump_topics w now s) (pump_bulk w now))"

section \<open>Benchmark messages\<close>

text \<open>The loop of \<open>bench_send_step\<close>, over the number of messages still due.  \<open>us\<close> is \<open>now_micros()\<close> and
  \<open>clock\<close> the bits of the system clock's reading that a payload carries.\<close>

fun bench_send_loop ::
  "'c services \<Rightarrow> u64 \<Rightarrow> u64 \<Rightarrow> nat option \<Rightarrow> nat \<Rightarrow> BenchSendState \<Rightarrow> 'c Session \<Rightarrow> BenchSendState \<times> 'c Session" where
  "bench_send_loop w us clock max_payload 0 st s = (st, s)"
| "bench_send_loop w us clock max_payload (Suc n) st s =
     (let seq = bn_offered st; st = st\<lparr>bn_offered := bn_offered st + 1\<rparr>; size = bs_payload_bytes (bn_spec st)
      in if size \<le> BENCH_SLICE_THRESHOLD then
           let (c, ok) = q_dgram_send w (se_conn s) (tag DATAGRAM_TAG_BENCH_RAW (raw_payload seq size clock))
           in bench_send_loop w us clock max_payload n (if ok then st else st\<lparr>bn_skipped := bn_skipped st + 1\<rparr>)
                (s\<lparr>se_conn := c\<rparr>)
         else
           case max_payload of
             None \<Rightarrow> (st, s)
           | Some m \<Rightarrow>
               case slice_frame BENCH_SENSOR_ID (ucast seq) us (sliced_payload seq size clock) BENCH_ELEMENT_SIZE m of
                 Inl _ \<Rightarrow> (st\<lparr>bn_done := True\<rparr>, s)
               | Inr datagrams \<Rightarrow>
                   bench_send_loop w us clock max_payload n st
                     (s\<lparr>se_lossy := push_sensor_frame (se_lossy s) BENCH_SENSOR_ID datagrams\<rparr>))"

definition bench_send_step :: "'c services \<Rightarrow> instant \<Rightarrow> u64 \<Rightarrow> u64 \<Rightarrow> 'c Session \<Rightarrow> 'c Session" where
  "bench_send_step w now us clock s =
     (case se_bench_send s of
        None \<Rightarrow> s
      | Some st \<Rightarrow>
          let start = (case bn_start st of None \<Rightarrow> now | Some t \<Rightarrow> t);
              st = st\<lparr>bn_start := Some start\<rparr>;
              elapsed = as_secs_f64 (duration_since now start);
              spec = bn_spec st
          in if fge elapsed (bs_duration_s spec) then s\<lparr>se_bench_send := Some (st\<lparr>bn_done := True\<rparr>)\<rparr>
             else
               let due = min (word_of_int (fto_int 0 (2 ^ 64 - 1) (fmul B64 elapsed (bs_rate_hz spec))) + 1)
                           (bn_offered st + 256);
                   (st, s) = bench_send_loop w us clock (slice_payload w s) (unat due - unat (bn_offered st)) st s
               in s\<lparr>se_bench_send := Some st\<rparr>)"

end
