(* ===== verification/Edge_Loop.thy ===== *)
theory Edge_Loop
  imports Edge_Flow
begin

text \<open>The robot's session as a sequence of turns of its loop (\<open>Session::run\<close> in robot-edge's
  \<open>quic_server.rs\<close>), in any order the events may come: what it makes the bridge do, and what keeps the
  operator, an autonomy source and the E-Stop apart.\<close>

section \<open>Turns of the loop\<close>

text \<open>The events: the branches of the \<open>select\<close>, what arrives on a stream or as a datagram taken one by one,
  a packet's top-up of quiche, and the two things other tasks do to shared state (an autonomy goal, a local
  Zenoh sample).\<close>

datatype session_event =
    Tick instant u64
  | DatagramIn instant u64 bool bytes
  | StreamIn instant u64 u64 bytes
  | TopicStreamIn u64 bytes bool
  | TopicStreamReset u64
  | Greeting
  | BridgeSays SupervisorEvent
  | SensorFramesIn "SensorFrame list"
  | VideoIn instant u32 bytes
  | SamplesIn
  | TopUp instant
  | MapDue u64 OccupancyGrid
  | BenchDue instant u64 u64
  | GoalSeen instant bytes
  | LocalSampleIn TopicMode bool TopicSample

text \<open>The state after a turn and the error that ends the session, if any; \<open>None\<close> is a panic.\<close>

fun session_step ::
  "'c services \<Rightarrow> session_event \<Rightarrow> 'c Session \<Rightarrow> ('c Session \<times> session_error option) option" where
  "session_step w (Tick now us) s = Some (on_tick w now us s, None)"
| "session_step w (DatagramIn now us room data) s = Some (on_datagram w now us room data s, None)"
| "session_step w (StreamIn now us stream_id data) s = Some (on_stream_data w now us stream_id data s)"
| "session_step w (TopicStreamIn stream_id data fin) s = Some (on_topic_stream w stream_id data fin s, None)"
| "session_step w (TopicStreamReset stream_id) s = Some (on_topic_reset stream_id s, None)"
| "session_step w Greeting s = Some (greet w s, None)"
| "session_step w (BridgeSays e) s = Some (on_bridge_event e s, None)"
| "session_step w (SensorFramesIn frs) s = Some (on_sensor_frames w frs s, None)"
| "session_step w (VideoIn now nal_id nal) s = Some (on_video_nal now nal_id nal s, None)"
| "session_step w SamplesIn s = Some (on_forward s, None)"
| "session_step w (TopUp now) s = map_option (\<lambda>s. (s, None)) (top_up w now s)"
| "session_step w (MapDue us grid) s =
     Some (if se_phase s = Operating then publish_sim_map w us grid s else s, None)"
| "session_step w (BenchDue now us clock) s =
     Some (if se_phase s = Operating \<and> (case se_bench_send s of None \<Rightarrow> False | Some st \<Rightarrow> \<not> bn_done st)
           then bench_send_step w now us clock s else s, None)"
| "session_step w (GoalSeen now payload) s =
     Some (s\<lparr>se_autonomy_goal := mark_seen (se_autonomy_goal s) now payload\<rparr>, None)"
| "session_step w (LocalSampleIn mode put sample) s =
     Some (s\<lparr>se_forwarder := map_option (\<lambda>f. on_local_sample f mode put sample) (se_forwarder s)\<rparr>, None)"

inductive session_run :: "'c services \<Rightarrow> 'c Session \<Rightarrow> session_event list \<Rightarrow> 'c Session \<Rightarrow> bool"
  for w :: "'c services" and s0 :: "'c Session" where
  start: "session_run w s0 [] s0"
| turn: "session_run w s0 es s \<Longrightarrow> session_step w e s = Some (s', None) \<Longrightarrow> session_run w s0 (es @ [e]) s'"

section \<open>What the bridge is told\<close>

text \<open>The specification: for each event, the commands it sends, without their sequence numbers.\<close>

definition settling :: "instant \<Rightarrow> 'c Session \<Rightarrow> bool" where
  "settling now s = (case se_action_settle_until s of None \<Rightarrow> False | Some until \<Rightarrow> now < until)"

definition body_orders :: "TeleopCommand \<Rightarrow> (u64 \<Rightarrow> BridgeCommand) list" where
  "body_orders cmd =
     [Move (f32_of_bits (tc_vx cmd)) (f32_of_bits (tc_vy cmd)), Turn (f32_of_bits (tc_turn cmd)),
      Attitude CHR ''r'' (f32_of_bits (tc_attitude_r cmd)), Attitude CHR ''p'' (f32_of_bits (tc_attitude_p cmd)),
      Attitude CHR ''y'' (f32_of_bits (tc_attitude_y cmd))]"

definition drive_orders :: "instant \<Rightarrow> TeleopCommand \<Rightarrow> 'c Session \<Rightarrow> (u64 \<Rightarrow> BridgeCommand) list" where
  "drive_orders now cmd s =
     (if settling now s \<or> (se_sitting s \<and> teleop_idle cmd) then [] else body_orders cmd)
     @ (if settling now s then [] else [Arm (fof_int B64 (sint (tc_arm_x cmd))) (fof_int B64 (sint (tc_arm_z cmd)))])
     @ [Claw (tc_claw cmd)]"

definition dispatch_orders ::
  "ControlSource \<Rightarrow> instant \<Rightarrow> TeleopCommand \<Rightarrow> 'c Session \<Rightarrow> (u64 \<Rightarrow> BridgeCommand) list" where
  "dispatch_orders source now cmd s =
     (if source = FullTeleoperation then drive_orders now cmd s
      else if source = SemiAutonomous then [] else [Stop])"

text \<open>The command a datagram carries to the bridge, and the safety task once it has been heard.\<close>

definition carried :: "'c services \<Rightarrow> bytes \<Rightarrow> 'c Session \<Rightarrow> TeleopCommand option" where
  "carried w data s =
     (case data of
        [] \<Rightarrow> None
      | t # payload \<Rightarrow>
          if t = DATAGRAM_TAG_CHANNEL_B \<and> se_phase s = Operating \<and> se_bench s = None
             \<and> cb_category (decode_channel_b_frame (f_frame w) payload) = CatCommand
          then tc_unpack (cb_fields (decode_channel_b_frame (f_frame w) payload)) else None)"

definition heard :: "instant \<Rightarrow> SafetyTask \<Rightarrow> SafetyTask" where
  "heard now t = (on_channel_b_activity t None now)\<lparr>st_deadman_held := True, st_command_fresh := True\<rparr>"

definition source_at :: "instant \<Rightarrow> SafetyTask \<Rightarrow> 'c Session \<Rightarrow> ControlSource" where
  "source_at now t s = snd (task_tick t now (goal_asserted (se_autonomy_goal s) now))"

definition tick_orders :: "instant \<Rightarrow> 'c Session \<Rightarrow> (u64 \<Rightarrow> BridgeCommand) list" where
  "tick_orders now s =
     (let source = source_at now (se_safety s) s; v = goal_velocity (se_autonomy_goal s) now
      in [Heartbeat]
         @ (if source = EStop then [Estop] else if se_bridge_estop_active s then [EstopClear] else [])
         @ (if source = SemiAutonomous then [Move (av_vx v) (av_vy v), Turn (av_turn v)] else [])
         @ (if (se_tick_count s + 1) mod TELEMETRY_QUERY_EVERY_N_TICKS = 0 then [Query] else []))"

fun orders :: "'c services \<Rightarrow> 'c Session \<Rightarrow> session_event \<Rightarrow> (u64 \<Rightarrow> BridgeCommand) list" where
  "orders w s (Tick now us) = tick_orders now s"
| "orders w s (DatagramIn now us room data) =
     (case carried w data s of
        None \<Rightarrow> []
      | Some cmd \<Rightarrow> dispatch_orders (source_at now (heard now (se_safety s)) s) now cmd s)"
| "orders w s (StreamIn now us stream_id data) =
     (let trigger = decode_action_trigger (f_trigger w) data
      in if stream_id = ACTION_TRIGGER_STREAM_ID \<and> se_phase s = Operating
            \<and> snd (trigger_accept (se_trigger_dedup s) trigger)
            \<and> source_at now (se_safety s) s = FullTeleoperation
         then [Action (at_action_id trigger)] else [])"
| "orders w s _ = []"

text \<open>Commands numbered from the session's counter.\<close>

fun in_sequence :: "u64 \<Rightarrow> (u64 \<Rightarrow> BridgeCommand) list \<Rightarrow> BridgeCommand list" where
  "in_sequence n [] = []"
| "in_sequence n (c # cs) = c (n + 1) # in_sequence (n + 1) cs"

lemma in_sequence_append:
  "in_sequence n (cs @ ds) = in_sequence n cs @ in_sequence (n + of_nat (length cs)) ds"
  by (induction cs arbitrary: n) (simp_all add: ac_simps)

text \<open>\<open>sends s cs s'\<close>: the counter and the bridge's channel moved on by \<open>cs\<close>.\<close>

definition sends :: "'c Session \<Rightarrow> (u64 \<Rightarrow> BridgeCommand) list \<Rightarrow> 'c Session \<Rightarrow> bool" where
  "sends s cs s' \<longleftrightarrow> se_bridge s' = se_bridge s @ in_sequence (se_channel_b_seq s) cs
     \<and> se_channel_b_seq s' = se_channel_b_seq s + of_nat (length cs)"

lemma sends_nothing: "se_bridge s' = se_bridge s \<Longrightarrow> se_channel_b_seq s' = se_channel_b_seq s \<Longrightarrow> sends s [] s'"
  by (simp add: sends_def)

lemma sends_trans: "sends s cs s' \<Longrightarrow> sends s' ds s'' \<Longrightarrow> sends s (cs @ ds) s''"
  by (simp add: sends_def in_sequence_append)

lemma to_bridge_eq:
  "to_bridge cmd s = s\<lparr>se_channel_b_seq := se_channel_b_seq s + 1, se_bridge := se_bridge s @ [cmd (se_channel_b_seq s + 1)]\<rparr>"
  by (simp add: to_bridge_def next_seq_def)

lemma sends_to_bridge: "sends s [cmd] (to_bridge cmd s)"
  by (simp add: sends_def to_bridge_eq)

lemma sends_then: "sends s cs s' \<Longrightarrow> sends s (cs @ [cmd]) (to_bridge cmd s')"
  by (rule sends_trans [OF _ sends_to_bridge])

lemma sends_eq:
  "sends s cs s' \<Longrightarrow> se_bridge t = se_bridge s' \<Longrightarrow> se_channel_b_seq t = se_channel_b_seq s' \<Longrightarrow> sends s cs t"
  by (simp add: sends_def)

lemma sends_from:
  "se_bridge t = se_bridge s \<Longrightarrow> se_channel_b_seq t = se_channel_b_seq s \<Longrightarrow> sends t cs s' \<Longrightarrow> sends s cs s'"
  by (simp add: sends_def)

text \<open>A turn that only moves data leaves everything but the queues, the connection and the forwarder as it
  was.\<close>

definition flow_only :: "'c Session \<Rightarrow> 'c Session \<Rightarrow> bool" where
  "flow_only s s' \<longleftrightarrow>
     se_task_class s' = se_task_class s \<and> se_robot_id s' = se_robot_id s
     \<and> se_profile s' = se_profile s \<and> se_cameras s' = se_cameras s
     \<and> se_sensors s' = se_sensors s \<and> se_selected_sensors s' = se_selected_sensors s
     \<and> se_slice_payload_bytes s' = se_slice_payload_bytes s \<and> se_safety s' = se_safety s
     \<and> se_bridge s' = se_bridge s \<and> se_camera_controls s' = se_camera_controls s
     \<and> se_camera_control_dedup s' = se_camera_control_dedup s \<and> se_telemetry_sink s' = se_telemetry_sink s
     \<and> se_command_sink s' = se_command_sink s \<and> se_autonomy_goal s' = se_autonomy_goal s
     \<and> se_topics_negotiated s' = se_topics_negotiated s \<and> se_phase s' = se_phase s
     \<and> se_channel_b_seq s' = se_channel_b_seq s \<and> se_estop_seq s' = se_estop_seq s
     \<and> se_hello_sent s' = se_hello_sent s \<and> se_session_describe_sent s' = se_session_describe_sent s
     \<and> se_estop_stream_primed s' = se_estop_stream_primed s \<and> se_last_reported_estop_latched s' = se_last_reported_estop_latched s
     \<and> se_bridge_estop_active s' = se_bridge_estop_active s \<and> se_tick_count s' = se_tick_count s
     \<and> se_latest_telemetry s' = se_latest_telemetry s \<and> se_trigger_dedup s' = se_trigger_dedup s
     \<and> se_action_settle_until s' = se_action_settle_until s \<and> se_sitting s' = se_sitting s
     \<and> se_recorder s' = se_recorder s \<and> se_bench s' = se_bench s
     \<and> se_bench_counter s' = se_bench_counter s
     \<and> (se_forwarder s' = None) = (se_forwarder s = None) \<and> (se_bench_send s' = None) = (se_bench_send s = None)"

lemma flow_only_refl [simp]: "flow_only s s"
  by (simp add: flow_only_def)

lemma flow_only_trans: "flow_only s t \<Longrightarrow> flow_only t u \<Longrightarrow> flow_only s u"
  by (simp add: flow_only_def)

lemma flow_only_updates [simp]:
  "flow_only s (s\<lparr>se_conn := conn\<rparr>)" "flow_only s (s\<lparr>se_lossy := lossy\<rparr>)" "flow_only s (s\<lparr>se_lossy_rate := rate\<rparr>)"
  "flow_only s (s\<lparr>se_bulk := bulk\<rparr>)" "flow_only s (s\<lparr>se_topics := topics\<rparr>)" "flow_only s (s\<lparr>se_topic_turn := turn\<rparr>)"
  "flow_only s (s\<lparr>se_sim_map := m\<rparr>)"
  "(bench = None) = (se_bench_send s = None) \<Longrightarrow> flow_only s (s\<lparr>se_bench_send := bench\<rparr>)"
  "(f = None) = (se_forwarder s = None) \<Longrightarrow> flow_only s (s\<lparr>se_forwarder := f\<rparr>)"
  by (simp_all add: flow_only_def)

lemma flow_only_then [simp]:
  "flow_only s t \<Longrightarrow> flow_only s (t\<lparr>se_conn := conn\<rparr>)" "flow_only s t \<Longrightarrow> flow_only s (t\<lparr>se_lossy := lossy\<rparr>)"
  "flow_only s t \<Longrightarrow> flow_only s (t\<lparr>se_lossy_rate := rate\<rparr>)" "flow_only s t \<Longrightarrow> flow_only s (t\<lparr>se_bulk := bulk\<rparr>)"
  "flow_only s t \<Longrightarrow> flow_only s (t\<lparr>se_topics := topics\<rparr>)" "flow_only s t \<Longrightarrow> flow_only s (t\<lparr>se_topic_turn := turn\<rparr>)"
  "flow_only s t \<Longrightarrow> flow_only s (t\<lparr>se_sim_map := m\<rparr>)"
  "flow_only s t \<Longrightarrow> (bench = None) = (se_bench_send s = None) \<Longrightarrow> flow_only s (t\<lparr>se_bench_send := bench\<rparr>)"
  "flow_only s t \<Longrightarrow> (f = None) = (se_forwarder s = None) \<Longrightarrow> flow_only s (t\<lparr>se_forwarder := f\<rparr>)"
  by (simp_all add: flow_only_def)

lemma flow_send_datagram [simp]: "flow_only s t \<Longrightarrow> flow_only s (send_datagram w d t)"
  by (simp add: send_datagram_def)

lemma flow_charge [simp]: "flow_only s t \<Longrightarrow> flow_only s (charge n t)"
  by (simp add: charge_def)

lemma flow_lossy_budget: "lossy_budget now s = (s', b) \<Longrightarrow> flow_only s s'"
  by (auto simp: lossy_budget_def Let_def split: option.splits prod.splits)

lemma flow_lossy_room: "lossy_room now s = (s', b) \<Longrightarrow> flow_only s s'"
  by (auto simp: lossy_room_def Let_def split: option.splits prod.splits)

lemma flow_pump_topics: "pump_topics w now s = Some s' \<Longrightarrow> flow_only s s'"
  using flow_lossy_budget by (fastforce simp: pump_topics_def split: prod.splits)

lemma flow_pump_bulk: "pump_bulk w now s = Some s' \<Longrightarrow> flow_only s s'"
  using flow_lossy_budget by (fastforce simp: pump_bulk_def split: prod.splits if_splits)

lemma flow_pop_topic: "pop_topic now n s = Some (s', d) \<Longrightarrow> flow_only s s'"
  by (auto simp: pop_topic_def)

lemma next_lossy_cases:
  assumes "next_lossy now n s = Some (s', d)"
  obtains (turn) d' where "pop_topic now n s = Some (s', Some d')" "d = Some d'" "se_topic_turn s"
  | (queue) s1 lossy d' where "s1 = s \<or> pop_topic now n s = Some (s1, None)" "lq_pop (se_lossy s1) now = (lossy, Some d')"
      "s' = s1\<lparr>se_lossy := lossy\<rparr>" "d = Some d'"
  | (last) s1 lossy where "s1 = s \<or> pop_topic now n s = Some (s1, None)" "lq_pop (se_lossy s1) now = (lossy, None)"
      "pop_topic now n (s1\<lparr>se_lossy := lossy\<rparr>) = Some (s', d)"
proof -
  let ?first = "if se_topic_turn s then pop_topic now n s else Some (s, None)"
  have "?first \<noteq> None"
    using assms by (cases "pop_topic now n s") (auto simp: next_lossy_def split: if_splits)
  then obtain s1 d1 where first: "?first = Some (s1, d1)"
    by (metis not_None_eq surj_pair)
  have rest: "(case d1 of Some d \<Rightarrow> Some (s1, Some d) | None \<Rightarrow>
         let (lossy, d) = lq_pop (se_lossy s1) now; s = s1\<lparr>se_lossy := lossy\<rparr>
         in case d of Some d \<Rightarrow> Some (s, Some d) | None \<Rightarrow> pop_topic now n s) = Some (s', d)"
    using assms unfolding next_lossy_def first by (cases d1) (auto simp: Let_def)
  show ?thesis
  proof (cases d1)
    case (Some d')
    with rest have eq: "s1 = s'" "d = Some d'" by auto
    have "se_topic_turn s" using first Some by (cases "se_topic_turn s") simp_all
    with first show ?thesis using eq Some by (intro turn) simp_all
  next
    case None
    obtain lossy d2 where pop: "lq_pop (se_lossy s1) now = (lossy, d2)" by fastforce
    have s1: "s1 = s \<or> pop_topic now n s = Some (s1, None)" using first None by (auto split: if_splits)
    have last_pop: "(case d2 of Some d \<Rightarrow> Some (s1\<lparr>se_lossy := lossy\<rparr>, Some d)
        | None \<Rightarrow> pop_topic now n (s1\<lparr>se_lossy := lossy\<rparr>)) = Some (s', d)"
      using rest None unfolding pop Let_def prod.case by simp
    show ?thesis
    proof (cases d2)
      case None
      then show ?thesis using last_pop pop by (intro last [OF s1, of lossy]) simp_all
    next
      case (Some d')
      then have "s' = s1\<lparr>se_lossy := lossy\<rparr>" "d = Some d'" using last_pop by auto
      then show ?thesis using Some pop by (intro queue [OF s1, of lossy d']) simp_all
    qed
  qed
qed

lemma flow_next_lossy:
  assumes "next_lossy now n s = Some (s', d)"
  shows "flow_only s s'"
  using assms
proof (cases rule: next_lossy_cases)
  case turn
  then show ?thesis using flow_pop_topic by blast
next
  case (queue s1 lossy d')
  then show ?thesis using flow_pop_topic [of now n s s1 None] by auto
next
  case (last s1 lossy)
  have "flow_only s (s1\<lparr>se_lossy := lossy\<rparr>)" using last(1) flow_pop_topic [of now n s s1 None] by auto
  then show ?thesis using flow_pop_topic [OF last(3)] by (rule flow_only_trans)
qed

text \<open>One turn of the feeding loop.\<close>

lemma feed_turn:
  assumes "(if QUICHE_LOSSY_LIMIT \<le> q_dgram_send_queue_len w (se_conn s) then Some s
      else let (s, room) = lossy_room now s
        in if \<not> room then Some s
           else let topic_first = se_topic_turn s;
                 max_len = (case q_dgram_max_writable_len w (se_conn s) of None \<Rightarrow> 0 | Some n \<Rightarrow> n)
             in Option.bind (next_lossy now max_len s) (\<lambda>(s, d). case d of None \<Rightarrow> Some s
                  | Some d \<Rightarrow> f (send_datagram w d (charge (length d) (s\<lparr>se_topic_turn := \<not> topic_first\<rparr>))))) = Some s'"
  obtains "flow_only s s'"
  | t where "flow_only s t" "f t = Some s'"
proof -
  obtain s1 room where room: "lossy_room now s = (s1, room)" by fastforce
  then have s1: "flow_only s s1" by (rule flow_lossy_room)
  let ?len = "case q_dgram_max_writable_len w (se_conn s1) of None \<Rightarrow> 0 | Some n \<Rightarrow> n"
  show ?thesis
  proof (cases "QUICHE_LOSSY_LIMIT \<le> q_dgram_send_queue_len w (se_conn s) \<or> \<not> room")
    case True
    with assms s1 room that(1) show ?thesis by (simp split: if_splits)
  next
    case False
    then obtain s2 d where nxt: "next_lossy now ?len s1 = Some (s2, d)"
      and rest: "(case d of None \<Rightarrow> Some s2
        | Some d \<Rightarrow> f (send_datagram w d (charge (length d) (s2\<lparr>se_topic_turn := \<not> se_topic_turn s1\<rparr>)))) = Some s'"
      using assms room by (auto simp: bind_eq_Some_conv Let_def)
    have s2: "flow_only s s2" using s1 flow_next_lossy [OF nxt] by (rule flow_only_trans)
    show ?thesis
    proof (cases d)
      case None
      with rest s2 that(1) show ?thesis by simp
    next
      case (Some d')
      with rest s2 show ?thesis by (intro that(2)) simp_all
    qed
  qed
qed

lemma flow_feed_lossy:
  assumes "feed_lossy w now s = Some s'"
  shows "flow_only s s'"
proof (rule feed_lossy.raw_induct [where P = "\<lambda>w now s s'. flow_only s s'", OF _ assms])
  fix f :: "'a services \<Rightarrow> instant \<Rightarrow> 'a Session \<Rightarrow> 'a Session option" and w now s s'
  assume step: "\<And>w now s s'. f w now s = Some s' \<Longrightarrow> flow_only s s'"
  assume "(if QUICHE_LOSSY_LIMIT \<le> q_dgram_send_queue_len w (se_conn s) then Some s
      else let (s, room) = lossy_room now s
        in if \<not> room then Some s
           else let topic_first = se_topic_turn s;
                 max_len = (case q_dgram_max_writable_len w (se_conn s) of None \<Rightarrow> 0 | Some n \<Rightarrow> n)
             in Option.bind (next_lossy now max_len s) (\<lambda>(s, d). case d of None \<Rightarrow> Some s
                  | Some d \<Rightarrow> f w now (send_datagram w d (charge (length d) (s\<lparr>se_topic_turn := \<not> topic_first\<rparr>))))) = Some s'"
  then show "flow_only s s'"
  proof (rule feed_turn)
    fix t
    assume "flow_only s t" and "f w now t = Some s'"
    then show ?thesis using step flow_only_trans by blast
  qed
qed

lemma flow_top_up: "top_up w now s = Some s' \<Longrightarrow> flow_only s s'"
  unfolding top_up_def bind_eq_Some_conv by (blast intro: flow_only_trans flow_feed_lossy flow_pump_topics flow_pump_bulk)

lemma flow_sensor_frame: "flow_only s (send_sensor_frame m fr s)"
  by (simp add: send_sensor_frame_def split: option.split sum.split)

lemma flow_sensor_frames: "flow_only s (foldl (\<lambda>s fr. send_sensor_frame m fr s) s frs)"
  by (induction frs arbitrary: s) (auto intro: flow_only_trans flow_sensor_frame)

lemma flow_bench_loop: "flow_only s0 s \<Longrightarrow> flow_only s0 (snd (bench_send_loop w us clock m n st s))"
proof (induction n arbitrary: st s)
  case (Suc n)
  then show ?case
    by (cases m) (simp_all add: Let_def case_prod_unfold split: sum.split)
qed simp

lemma flow_bench_step: "flow_only s (bench_send_step w now us clock s)"
proof -
  have "flow_only s (snd (bench_send_loop w us clock m n st s))" for m n st
    by (rule flow_bench_loop) simp
  then show ?thesis
    by (auto simp: bench_send_step_def Let_def case_prod_unfold split: option.split)
qed

lemma flow_step:
  assumes "session_step w e s = Some (s', err)"
    and "case e of SensorFramesIn _ \<Rightarrow> True | VideoIn _ _ _ \<Rightarrow> True | SamplesIn \<Rightarrow> True | TopUp _ \<Rightarrow> True
      | MapDue _ _ \<Rightarrow> True | BenchDue _ _ _ \<Rightarrow> True | TopicStreamIn _ _ _ \<Rightarrow> True | TopicStreamReset _ \<Rightarrow> True
      | LocalSampleIn _ _ _ \<Rightarrow> True | _ \<Rightarrow> False"
  shows "flow_only s s'"
  using assms
  by (auto split: session_event.splits option.splits if_splits
      simp: on_topic_stream_def on_topic_reset_def on_sensor_frames_def send_sensor_frames_def on_video_nal_def on_forward_def
        publish_sim_map_def Let_def case_prod_unfold flow_top_up flow_sensor_frames flow_bench_step)

section \<open>Each handler sends what the specification says\<close>

lemma session_tick_eq:
  "session_tick now s = (s\<lparr>se_safety := fst (task_tick (se_safety s) now (goal_asserted (se_autonomy_goal s) now))\<rparr>,
     source_at now (se_safety s) s)"
  by (simp add: session_tick_def source_at_def Let_def case_prod_unfold)

lemma sends_drive: "sends s (drive_orders now cmd s) (drive now cmd s)"
proof -
  have settle: "(case se_action_settle_until s of None \<Rightarrow> False | Some until \<Rightarrow> now < until) = settling now s"
    by (simp add: settling_def)
  show ?thesis
    by (cases "settling now s"; cases "teleop_idle cmd"; cases "se_sitting s")
      (simp_all add: sends_def drive_def settle drive_orders_def body_orders_def send_body_def to_bridge_eq Let_def add.assoc)
qed

lemma sends_dispatch:
  "sends s (dispatch_orders (source_at now (se_safety s) s) now cmd s) (fst (dispatch_teleop_command now room cmd s))"
proof -
  let ?s = "s\<lparr>se_safety := fst (task_tick (se_safety s) now (goal_asserted (se_autonomy_goal s) now)),
      se_command_sink := fst (publish_at (se_command_sink s) now room (source_at now (se_safety s) s) cmd)\<rparr>"
  have same: "se_bridge ?s = se_bridge s" "se_channel_b_seq ?s = se_channel_b_seq s"
    "drive_orders now cmd ?s = drive_orders now cmd s" by (simp_all add: drive_orders_def settling_def)
  have "sends s (drive_orders now cmd s) (drive now cmd ?s)"
    using same sends_drive [of ?s now cmd] by (metis sends_from)
  moreover have "sends s [Stop] (to_bridge Stop ?s)"
    using sends_from [OF same(1,2) sends_to_bridge] .
  moreover have "sends s [] ?s" using same(1,2) by (rule sends_nothing)
  ultimately show ?thesis
    by (cases "source_at now (se_safety s) s")
      (simp_all add: dispatch_teleop_command_def session_tick_eq dispatch_orders_def)
qed

lemma sends_record: "sends s cs s' \<Longrightarrow> sends s cs (record_it c us b p s')"
  by (simp add: record_it_def sends_def)

lemma sends_datagram: "sends s cs s' \<Longrightarrow> sends s cs (send_datagram w d s')"
  by (simp add: send_datagram_def sends_def)

lemma source_at_cong: "se_autonomy_goal s = se_autonomy_goal s' \<Longrightarrow> source_at now t s = source_at now t s'"
  by (simp add: source_at_def)

lemma dispatch_orders_cong:
  "se_action_settle_until s = se_action_settle_until s' \<Longrightarrow> se_sitting s = se_sitting s'
   \<Longrightarrow> dispatch_orders source now cmd s = dispatch_orders source now cmd s'"
  by (simp add: dispatch_orders_def drive_orders_def settling_def)

lemma sends_command_frame:
  "sends s (if se_bench s = None then
      case tc_unpack (cb_fields fr) of None \<Rightarrow> []
      | Some cmd \<Rightarrow> dispatch_orders (source_at now (heard now (se_safety s)) s) now cmd s else [])
     (on_command_frame w now us room payload fr s)"
proof -
  let ?s = "s\<lparr>se_safety := heard now (se_safety s)\<rparr>"
  have same: "se_bridge ?s = se_bridge s" "se_channel_b_seq ?s = se_channel_b_seq s"
    "\<And>cmd. dispatch_orders (source_at now (heard now (se_safety s)) ?s) now cmd ?s
       = dispatch_orders (source_at now (heard now (se_safety s)) s) now cmd s"
    by (simp_all add: source_at_def dispatch_orders_def drive_orders_def settling_def)
  have run: "on_command_frame w now us room payload fr s =
      (case se_bench s of Some mode \<Rightarrow> on_bench_command w now mode fr (length payload) ?s
       | None \<Rightarrow> case tc_unpack (cb_fields fr) of None \<Rightarrow> ?s
           | Some cmd \<Rightarrow> let (s, source) = dispatch_teleop_command now room cmd ?s
                       in record_it ChannelBCommand us (control_source_byte source) payload s)"
    unfolding on_command_frame_def heard_def Let_def by (cases "se_bench s") simp_all
  show ?thesis
  proof (cases "se_bench s")
    case (Some mode)
    have "sends s [] (on_bench_command w now mode fr (length payload) ?s)"
      by (rule sends_nothing) (simp_all add: on_bench_command_def send_datagram_def)
    with Some run show ?thesis by simp
  next
    case None
    then show ?thesis
    proof (cases "tc_unpack (cb_fields fr)")
      case (Some cmd)
      have "sends s (dispatch_orders (source_at now (heard now (se_safety s)) s) now cmd s)
          (fst (dispatch_teleop_command now room cmd ?s))"
        using sends_from [OF same(1,2) sends_dispatch [of ?s now cmd room]] same(3) by simp
      with None Some run show ?thesis by (auto simp: case_prod_unfold Let_def intro: sends_record)
    qed (simp add: run sends_nothing)
  qed
qed

lemma sends_on_datagram:
  "sends s (orders w s (DatagramIn now us room data)) (on_datagram w now us room data s)"
proof (cases data)
  case Nil
  then show ?thesis by (simp add: on_datagram_def carried_def sends_nothing)
next
  case (Cons t payload)
  show ?thesis
  proof (cases "t = DATAGRAM_TAG_CHANNEL_B \<and> se_phase s = Operating
      \<and> cb_category (decode_channel_b_frame (f_frame w) payload) = CatCommand")
    case True
    have run: "on_datagram w now us room data s
        = on_command_frame w now us room payload (decode_channel_b_frame (f_frame w) payload) s"
      using True Cons by (simp add: on_datagram_def tag_defs ESTOP_DATAGRAM_MAGIC_def)
    have "orders w s (DatagramIn now us room data) = (if se_bench s = None then
        case tc_unpack (cb_fields (decode_channel_b_frame (f_frame w) payload)) of None \<Rightarrow> []
        | Some cmd \<Rightarrow> dispatch_orders (source_at now (heard now (se_safety s)) s) now cmd s else [])"
      using True Cons by (simp add: carried_def)
    then show ?thesis unfolding run using sends_command_frame [of s] by simp
  next
    case False
    then have "orders w s (DatagramIn now us room data) = []" using Cons by (auto simp: carried_def)
    moreover have "sends s [] (on_datagram w now us room data s)"
      using False Cons by (intro sends_nothing)
        (auto simp: on_datagram_def on_bench_raw_def send_datagram_def Let_def split: option.split sum.split)
    ultimately show ?thesis by simp
  qed
qed

lemma sends_on_stream:
  "sends s (orders w s (StreamIn now us stream_id data)) (fst (on_stream_data w now us stream_id data s))"
proof (cases "stream_id = ACTION_TRIGGER_STREAM_ID \<and> se_phase s = Operating")
  case True
  let ?t = "decode_action_trigger (f_trigger w) data"
  let ?s = "record_it ActionTriggerC us CONTROL_SOURCE_SENTINEL data s"
  have run: "fst (on_stream_data w now us stream_id data s) = on_action_trigger now ?t ?s"
    using True by (simp add: on_stream_data_def ACTION_TRIGGER_STREAM_ID_def ESTOP_STREAM_ID_def)
  have "source_at now (se_safety s) ?s = source_at now (se_safety s) s"
    by (simp add: source_at_def record_it_def)
  then have "sends s (if snd (trigger_accept (se_trigger_dedup s) ?t) \<and> source_at now (se_safety s) s = FullTeleoperation
      then [Action (at_action_id ?t)] else []) (on_action_trigger now ?t ?s)"
    by (simp add: sends_def on_action_trigger_def session_tick_eq to_bridge_eq record_it_def Let_def case_prod_unfold source_at_def)
  then show ?thesis unfolding run using True by (simp add: Let_def)
next
  case False
  then have "orders w s (StreamIn now us stream_id data) = []" by (auto simp: Let_def)
  moreover have "sends s [] (fst (on_stream_data w now us stream_id data s))"
    using False by (intro sends_nothing)
      (auto simp: on_stream_data_def on_hello_def send_session_describe_def on_session_accept_def on_camera_control_def
        record_it_def Let_def case_prod_unfold split: option.split sum.split quic_error.split)
  ultimately show ?thesis by simp
qed

lemma update_rate_flow: "flow_only s (update_rate w now s)"
  by (simp add: update_rate_def split: option.split prod.split)

lemma report_estop_fields:
  "se_bridge (report_estop w l s) = se_bridge s" "se_channel_b_seq (report_estop w l s) = se_channel_b_seq s"
  "se_bridge_estop_active (report_estop w l s) = se_bridge_estop_active s"
  "se_autonomy_goal (report_estop w l s) = se_autonomy_goal s" "se_tick_count (report_estop w l s) = se_tick_count s"
  "se_phase (report_estop w l s) = se_phase s" "se_safety (report_estop w l s) = se_safety s"
  "se_sitting (report_estop w l s) = se_sitting s" "se_action_settle_until (report_estop w l s) = se_action_settle_until s"
  by (simp_all add: report_estop_def send_datagram_def Let_def case_prod_unfold split: sum.split)

text \<open>The tick up to its first command: the arbitration is done and the E-Stop state reported.\<close>

definition tick_head :: "'c services \<Rightarrow> instant \<Rightarrow> 'c Session \<Rightarrow> 'c Session" where
  "tick_head w now s =
     (let s = update_rate w now (s\<lparr>se_tick_count := se_tick_count s + 1\<rparr>);
          s = (if se_bench s = Some BenchCount
               then s\<lparr>se_bench_counter := log_bench_counter now (se_bench_counter s)\<rparr> else s);
          s = fst (session_tick now s)
      in report_estop w (is_estopped (se_safety s)) s)"

definition tick_tail :: "instant \<Rightarrow> ControlSource \<Rightarrow> 'c Session \<Rightarrow> 'c Session" where
  "tick_tail now source s =
     (let s = follow_autonomy now source (relay_estop source (to_bridge Heartbeat s))
      in if se_tick_count s mod TELEMETRY_QUERY_EVERY_N_TICKS = 0 then to_bridge Query s else s)"

lemma tick_head_fields:
  "se_bridge (tick_head w now s) = se_bridge s" "se_channel_b_seq (tick_head w now s) = se_channel_b_seq s"
  "se_bridge_estop_active (tick_head w now s) = se_bridge_estop_active s"
  "se_autonomy_goal (tick_head w now s) = se_autonomy_goal s"
  "se_tick_count (tick_head w now s) = se_tick_count s + 1"
  "se_phase (tick_head w now s) = se_phase s"
  "se_sitting (tick_head w now s) = se_sitting s"
  "se_action_settle_until (tick_head w now s) = se_action_settle_until s"
  "se_safety (tick_head w now s) = fst (task_tick (se_safety s) now (goal_asserted (se_autonomy_goal s) now))"
  using update_rate_flow [of "s\<lparr>se_tick_count := se_tick_count s + 1\<rparr>" w now]
  by (simp_all add: tick_head_def report_estop_fields session_tick_eq Let_def flow_only_def)

lemma on_tick_eq:
  "on_tick w now us s =
     (let source = source_at now (se_safety s) s; s = tick_tail now source (tick_head w now s)
      in if se_phase s = Operating then send_telemetry w us source s else s)"
proof -
  define s1 where "s1 = (let s = update_rate w now (s\<lparr>se_tick_count := se_tick_count s + 1\<rparr>)
      in if se_bench s = Some BenchCount
         then s\<lparr>se_bench_counter := log_bench_counter now (se_bench_counter s)\<rparr> else s)"
  have s1: "se_safety s1 = se_safety s" "se_autonomy_goal s1 = se_autonomy_goal s"
    using update_rate_flow [of "s\<lparr>se_tick_count := se_tick_count s + 1\<rparr>" w now]
    by (simp_all add: s1_def Let_def flow_only_def)
  have src: "source_at now (se_safety s1) s1 = source_at now (se_safety s) s" using s1 by (simp add: source_at_def)
  have "tick_head w now s = report_estop w (is_estopped (se_safety (fst (session_tick now s1)))) (fst (session_tick now s1))"
    by (simp add: tick_head_def s1_def Let_def)
  moreover have "on_tick w now us s =
      (let (s, source) = session_tick now s1; s = tick_tail now source (report_estop w (is_estopped (se_safety s)) s)
       in if se_phase s = Operating then send_telemetry w us source s else s)"
    unfolding on_tick_def s1_def tick_tail_def Let_def by (rule refl)
  ultimately show ?thesis by (simp add: session_tick_eq src Let_def)
qed

lemma sends_tick:
  "sends s (tick_orders now s) (tick_tail now (source_at now (se_safety s) s) (tick_head w now s))"
proof -
  define t where "t = tick_head w now s"
  note t = tick_head_fields [of w now s, folded t_def]
  show ?thesis unfolding t_def [symmetric]
    by (simp add: sends_def tick_tail_def tick_orders_def follow_autonomy_def relay_estop_def to_bridge_eq t Let_def)
qed

text \<open>The whole step: what the bridge is told, and how the counter moves; telemetry takes a number too.\<close>

lemma step_sends:
  assumes "session_step w e s = Some (s', err)"
  shows "se_bridge s' = se_bridge s @ in_sequence (se_channel_b_seq s) (orders w s e)"
    and "se_channel_b_seq s' = se_channel_b_seq s + of_nat (length (orders w s e))
      + (case e of Tick _ _ \<Rightarrow> if se_phase s = Operating then 1 else 0 | _ \<Rightarrow> 0)"
proof -
  have flow: "sends s [] s'" if "flow_only s s'" using that by (simp add: sends_def flow_only_def)
  have tail: "se_bridge (send_telemetry w us src t) = se_bridge t"
    "se_channel_b_seq (send_telemetry w us src t) = se_channel_b_seq t + 1" for us src t
    by (simp_all add: send_telemetry_def next_seq_def record_it_def send_datagram_def Let_def)
  have phase: "se_phase (tick_tail now src t) = se_phase t" for now src t
    by (simp add: tick_tail_def follow_autonomy_def relay_estop_def to_bridge_eq Let_def)
  have "se_bridge s' = se_bridge s @ in_sequence (se_channel_b_seq s) (orders w s e)
      \<and> se_channel_b_seq s' = se_channel_b_seq s + of_nat (length (orders w s e))
      + (case e of Tick _ _ \<Rightarrow> if se_phase s = Operating then 1 else 0 | _ \<Rightarrow> 0)"
  proof (cases e)
    case (Tick now us)
    with assms have s': "s' = on_tick w now us s" by simp
    show ?thesis unfolding s' Tick on_tick_eq Let_def
      using sends_tick [of s now w] by (auto simp: sends_def tail phase tick_head_fields)
  next
    case (DatagramIn now us room data)
    with assms sends_on_datagram [of s w now us room data] show ?thesis by (simp add: sends_def)
  next
    case (StreamIn now us stream_id data)
    with assms sends_on_stream [of s w now us stream_id data] show ?thesis by (simp add: sends_def)
  next
    case Greeting
    with assms show ?thesis by (auto simp: greet_def send_hello_def Let_def case_prod_unfold split: sum.split quic_error.split)
  next
    case (BridgeSays ev)
    have "se_bridge (on_bridge_event ev s) = se_bridge s \<and> se_channel_b_seq (on_bridge_event ev s) = se_channel_b_seq s"
      by (induction ev s rule: on_bridge_event.induct) (simp_all add: Let_def)
    with assms BridgeSays show ?thesis by auto
  next
    case (GoalSeen now payload)
    with assms show ?thesis by auto
  qed (use flow_step [OF assms] flow in \<open>simp_all add: sends_def\<close>)
  then show "se_bridge s' = se_bridge s @ in_sequence (se_channel_b_seq s) (orders w s e)"
    and "se_channel_b_seq s' = se_channel_b_seq s + of_nat (length (orders w s e))
      + (case e of Tick _ _ \<Rightarrow> if se_phase s = Operating then 1 else 0 | _ \<Rightarrow> 0)" by auto
qed

end
