(* ===== verification/Edge_Safety.thy ===== *)
theory Edge_Safety
  imports Edge_Loop
begin

text \<open>What the robot's session guarantees, whatever arrives and in whatever order: who may move the robot, what
  the bridge knows of the E-Stop, and what a session's state always satisfies.\<close>

section \<open>What each handler leaves alone\<close>

lemma drive_frame [simp]:
  "se_autonomy_goal (drive now cmd s) = se_autonomy_goal s" "se_phase (drive now cmd s) = se_phase s"
  "se_selected_sensors (drive now cmd s) = se_selected_sensors s"
  "se_topics_negotiated (drive now cmd s) = se_topics_negotiated s"
  "se_bridge_estop_active (drive now cmd s) = se_bridge_estop_active s"
  "se_tick_count (drive now cmd s) = se_tick_count s" "se_estop_seq (drive now cmd s) = se_estop_seq s"
  "se_session_describe_sent (drive now cmd s) = se_session_describe_sent s"
  "se_hello_sent (drive now cmd s) = se_hello_sent s" "se_bench (drive now cmd s) = se_bench s"
  "se_bench_send (drive now cmd s) = se_bench_send s" "se_sensors (drive now cmd s) = se_sensors s"
  "se_trigger_dedup (drive now cmd s) = se_trigger_dedup s"
  "se_latest_telemetry (drive now cmd s) = se_latest_telemetry s" "se_safety (drive now cmd s) = se_safety s"
  "se_command_sink (drive now cmd s) = se_command_sink s"
  by (simp_all add: drive_def send_body_def to_bridge_eq Let_def)

lemma dispatch_frame [simp]:
  "se_autonomy_goal (fst (dispatch_teleop_command now room cmd s)) = se_autonomy_goal s"
  "se_phase (fst (dispatch_teleop_command now room cmd s)) = se_phase s"
  "se_selected_sensors (fst (dispatch_teleop_command now room cmd s)) = se_selected_sensors s"
  "se_topics_negotiated (fst (dispatch_teleop_command now room cmd s)) = se_topics_negotiated s"
  "se_bridge_estop_active (fst (dispatch_teleop_command now room cmd s)) = se_bridge_estop_active s"
  "se_tick_count (fst (dispatch_teleop_command now room cmd s)) = se_tick_count s"
  "se_estop_seq (fst (dispatch_teleop_command now room cmd s)) = se_estop_seq s"
  "se_session_describe_sent (fst (dispatch_teleop_command now room cmd s)) = se_session_describe_sent s"
  "se_hello_sent (fst (dispatch_teleop_command now room cmd s)) = se_hello_sent s"
  "se_bench (fst (dispatch_teleop_command now room cmd s)) = se_bench s"
  "se_bench_send (fst (dispatch_teleop_command now room cmd s)) = se_bench_send s"
  "se_sensors (fst (dispatch_teleop_command now room cmd s)) = se_sensors s"
  "se_trigger_dedup (fst (dispatch_teleop_command now room cmd s)) = se_trigger_dedup s"
  "se_latest_telemetry (fst (dispatch_teleop_command now room cmd s)) = se_latest_telemetry s"
  by (simp_all add: dispatch_teleop_command_def session_tick_eq to_bridge_eq Let_def case_prod_unfold split: ControlSource.split)

lemma command_frame_frame [simp]:
  "se_autonomy_goal (on_command_frame w now us room payload fr s) = se_autonomy_goal s"
  "se_phase (on_command_frame w now us room payload fr s) = se_phase s"
  "se_selected_sensors (on_command_frame w now us room payload fr s) = se_selected_sensors s"
  "se_topics_negotiated (on_command_frame w now us room payload fr s) = se_topics_negotiated s"
  "se_bridge_estop_active (on_command_frame w now us room payload fr s) = se_bridge_estop_active s"
  "se_tick_count (on_command_frame w now us room payload fr s) = se_tick_count s"
  "se_estop_seq (on_command_frame w now us room payload fr s) = se_estop_seq s"
  "se_session_describe_sent (on_command_frame w now us room payload fr s) = se_session_describe_sent s"
  "se_hello_sent (on_command_frame w now us room payload fr s) = se_hello_sent s"
  "se_bench (on_command_frame w now us room payload fr s) = se_bench s"
  "se_bench_send (on_command_frame w now us room payload fr s) = se_bench_send s"
  "se_sensors (on_command_frame w now us room payload fr s) = se_sensors s"
  "se_trigger_dedup (on_command_frame w now us room payload fr s) = se_trigger_dedup s"
  "se_latest_telemetry (on_command_frame w now us room payload fr s) = se_latest_telemetry s"
  by (simp_all add: on_command_frame_def on_bench_command_def send_datagram_def record_it_def Let_def case_prod_unfold
      split: option.split)

lemma bench_raw_frame [simp]:
  "se_autonomy_goal (on_bench_raw w now mode data s) = se_autonomy_goal s"
  "se_phase (on_bench_raw w now mode data s) = se_phase s"
  "se_selected_sensors (on_bench_raw w now mode data s) = se_selected_sensors s"
  "se_topics_negotiated (on_bench_raw w now mode data s) = se_topics_negotiated s"
  "se_bridge_estop_active (on_bench_raw w now mode data s) = se_bridge_estop_active s"
  "se_tick_count (on_bench_raw w now mode data s) = se_tick_count s"
  "se_estop_seq (on_bench_raw w now mode data s) = se_estop_seq s"
  "se_session_describe_sent (on_bench_raw w now mode data s) = se_session_describe_sent s"
  "se_hello_sent (on_bench_raw w now mode data s) = se_hello_sent s"
  "se_bench (on_bench_raw w now mode data s) = se_bench s"
  "se_bench_send (on_bench_raw w now mode data s) = se_bench_send s"
  "se_sensors (on_bench_raw w now mode data s) = se_sensors s"
  "se_trigger_dedup (on_bench_raw w now mode data s) = se_trigger_dedup s"
  "se_latest_telemetry (on_bench_raw w now mode data s) = se_latest_telemetry s"
  "se_sitting (on_bench_raw w now mode data s) = se_sitting s"
  "se_action_settle_until (on_bench_raw w now mode data s) = se_action_settle_until s"
  by (simp_all add: on_bench_raw_def send_datagram_def Let_def)

lemma record_frame [simp]:
  "se_autonomy_goal (record_it c us b p s) = se_autonomy_goal s" "se_phase (record_it c us b p s) = se_phase s"
  "se_selected_sensors (record_it c us b p s) = se_selected_sensors s"
  "se_topics_negotiated (record_it c us b p s) = se_topics_negotiated s"
  "se_bridge_estop_active (record_it c us b p s) = se_bridge_estop_active s"
  "se_tick_count (record_it c us b p s) = se_tick_count s" "se_estop_seq (record_it c us b p s) = se_estop_seq s"
  "se_session_describe_sent (record_it c us b p s) = se_session_describe_sent s"
  "se_hello_sent (record_it c us b p s) = se_hello_sent s" "se_bench (record_it c us b p s) = se_bench s"
  "se_bench_send (record_it c us b p s) = se_bench_send s" "se_sensors (record_it c us b p s) = se_sensors s"
  "se_trigger_dedup (record_it c us b p s) = se_trigger_dedup s"
  "se_latest_telemetry (record_it c us b p s) = se_latest_telemetry s"
  "se_sitting (record_it c us b p s) = se_sitting s"
  "se_action_settle_until (record_it c us b p s) = se_action_settle_until s"
  "se_safety (record_it c us b p s) = se_safety s"
  "se_camera_control_dedup (record_it c us b p s) = se_camera_control_dedup s"
  "se_forwarder (record_it c us b p s) = se_forwarder s" "se_task_class (record_it c us b p s) = se_task_class s"
  by (simp_all add: record_it_def)

lemma camera_frame [simp]:
  "se_autonomy_goal (on_camera_control control s) = se_autonomy_goal s"
  "se_phase (on_camera_control control s) = se_phase s"
  "se_selected_sensors (on_camera_control control s) = se_selected_sensors s"
  "se_topics_negotiated (on_camera_control control s) = se_topics_negotiated s"
  "se_bridge_estop_active (on_camera_control control s) = se_bridge_estop_active s"
  "se_tick_count (on_camera_control control s) = se_tick_count s"
  "se_estop_seq (on_camera_control control s) = se_estop_seq s"
  "se_session_describe_sent (on_camera_control control s) = se_session_describe_sent s"
  "se_hello_sent (on_camera_control control s) = se_hello_sent s"
  "se_bench (on_camera_control control s) = se_bench s"
  "se_bench_send (on_camera_control control s) = se_bench_send s"
  "se_sensors (on_camera_control control s) = se_sensors s"
  "se_trigger_dedup (on_camera_control control s) = se_trigger_dedup s"
  "se_latest_telemetry (on_camera_control control s) = se_latest_telemetry s"
  "se_sitting (on_camera_control control s) = se_sitting s"
  "se_action_settle_until (on_camera_control control s) = se_action_settle_until s"
  "se_safety (on_camera_control control s) = se_safety s"
  by (simp_all add: on_camera_control_def Let_def case_prod_unfold)

lemma describe_frame [simp]:
  "se_autonomy_goal (fst (send_session_describe w s)) = se_autonomy_goal s"
  "se_phase (fst (send_session_describe w s)) = se_phase s"
  "se_selected_sensors (fst (send_session_describe w s)) = se_selected_sensors s"
  "se_topics_negotiated (fst (send_session_describe w s)) = se_topics_negotiated s"
  "se_bridge_estop_active (fst (send_session_describe w s)) = se_bridge_estop_active s"
  "se_tick_count (fst (send_session_describe w s)) = se_tick_count s"
  "se_estop_seq (fst (send_session_describe w s)) = se_estop_seq s"
  "se_hello_sent (fst (send_session_describe w s)) = se_hello_sent s"
  "se_bench (fst (send_session_describe w s)) = se_bench s"
  "se_bench_send (fst (send_session_describe w s)) = se_bench_send s"
  "se_sensors (fst (send_session_describe w s)) = se_sensors s"
  "se_trigger_dedup (fst (send_session_describe w s)) = se_trigger_dedup s"
  "se_latest_telemetry (fst (send_session_describe w s)) = se_latest_telemetry s"
  "se_sitting (fst (send_session_describe w s)) = se_sitting s"
  "se_action_settle_until (fst (send_session_describe w s)) = se_action_settle_until s"
  "se_safety (fst (send_session_describe w s)) = se_safety s"
  by (simp_all add: send_session_describe_def Let_def case_prod_unfold split: sum.split quic_error.split)

lemma hello_frame [simp]:
  "se_autonomy_goal (fst (on_hello w data s)) = se_autonomy_goal s"
  "se_selected_sensors (fst (on_hello w data s)) = se_selected_sensors s"
  "se_bridge_estop_active (fst (on_hello w data s)) = se_bridge_estop_active s"
  "se_tick_count (fst (on_hello w data s)) = se_tick_count s"
  "se_estop_seq (fst (on_hello w data s)) = se_estop_seq s"
  "se_hello_sent (fst (on_hello w data s)) = se_hello_sent s" "se_bench (fst (on_hello w data s)) = se_bench s"
  "se_bench_send (fst (on_hello w data s)) = se_bench_send s" "se_sensors (fst (on_hello w data s)) = se_sensors s"
  "se_trigger_dedup (fst (on_hello w data s)) = se_trigger_dedup s"
  "se_latest_telemetry (fst (on_hello w data s)) = se_latest_telemetry s"
  "se_sitting (fst (on_hello w data s)) = se_sitting s"
  "se_action_settle_until (fst (on_hello w data s)) = se_action_settle_until s"
  "se_safety (fst (on_hello w data s)) = se_safety s"
  by (simp_all add: on_hello_def split: sum.split)

lemma accept_frame [simp]:
  "se_autonomy_goal (on_session_accept w data s) = se_autonomy_goal s"
  "se_topics_negotiated (on_session_accept w data s) = se_topics_negotiated s"
  "se_bridge_estop_active (on_session_accept w data s) = se_bridge_estop_active s"
  "se_tick_count (on_session_accept w data s) = se_tick_count s"
  "se_estop_seq (on_session_accept w data s) = se_estop_seq s"
  "se_session_describe_sent (on_session_accept w data s) = se_session_describe_sent s"
  "se_hello_sent (on_session_accept w data s) = se_hello_sent s"
  "se_bench (on_session_accept w data s) = se_bench s"
  "se_bench_send (on_session_accept w data s) = se_bench_send s"
  "se_sensors (on_session_accept w data s) = se_sensors s"
  "se_trigger_dedup (on_session_accept w data s) = se_trigger_dedup s"
  "se_latest_telemetry (on_session_accept w data s) = se_latest_telemetry s"
  "se_sitting (on_session_accept w data s) = se_sitting s"
  "se_action_settle_until (on_session_accept w data s) = se_action_settle_until s"
  "se_safety (on_session_accept w data s) = se_safety s"
  by (simp_all add: on_session_accept_def)

lemma stream_cases:
  obtains (hello) "on_stream_data w now us stream_id data s = on_hello w data s" "se_phase s = AwaitingHello" "stream_id = 0"
  | (accept) "on_stream_data w now us stream_id data s = (on_session_accept w data s, None)"
      "se_phase s = AwaitingSessionAccept" "stream_id = 1"
  | (estop) t where "on_stream_data w now us stream_id data s = (s\<lparr>se_safety := t\<rparr>, None)"
      "stream_id = ESTOP_STREAM_ID"
  | (trigger) "on_stream_data w now us stream_id data s =
        (on_action_trigger now (decode_action_trigger (f_trigger w) data)
           (record_it ActionTriggerC us CONTROL_SOURCE_SENTINEL data s), None)"
      "se_phase s = Operating" "stream_id = ACTION_TRIGGER_STREAM_ID"
  | (camera) "on_stream_data w now us stream_id data s =
        (on_camera_control (decode_camera_control (f_camera w) data)
           (record_it ActionTriggerC us CONTROL_SOURCE_SENTINEL data s), None)"
      "se_phase s = Operating" "stream_id = CAMERA_CONTROL_STREAM_ID"
  | (ignored) "on_stream_data w now us stream_id data s = (s, None)" "stream_id \<noteq> ACTION_TRIGGER_STREAM_ID \<or> se_phase s \<noteq> Operating"
proof (cases "stream_id = ESTOP_STREAM_ID")
  case True
  then have "on_stream_data w now us stream_id data s =
      (case estop_decode data of None \<Rightarrow> s | Some d \<Rightarrow> s\<lparr>se_safety := apply_estop d now (se_safety s)\<rparr>, None)"
    by (simp add: on_stream_data_def ESTOP_STREAM_ID_def)
  also have "\<dots> = (s\<lparr>se_safety := (case estop_decode data of None \<Rightarrow> se_safety s | Some d \<Rightarrow> apply_estop d now (se_safety s))\<rparr>, None)"
    by (simp split: option.split)
  finally show ?thesis using True by (rule estop)
next
  case estop_not: False
  note ids = ESTOP_STREAM_ID_def ACTION_TRIGGER_STREAM_ID_def CAMERA_CONTROL_STREAM_ID_def
  show ?thesis
  proof (cases "se_phase s")
    case AwaitingHello
    then show ?thesis using hello ignored estop_not
      by (cases "stream_id = 0") (simp_all add: on_stream_data_def)
  next
    case AwaitingSessionAccept
    then show ?thesis using accept ignored estop_not
      by (cases "stream_id = 1") (simp_all add: on_stream_data_def)
  next
    case Operating
    consider "stream_id = ACTION_TRIGGER_STREAM_ID" | "stream_id = CAMERA_CONTROL_STREAM_ID"
      | "stream_id \<noteq> ACTION_TRIGGER_STREAM_ID" "stream_id \<noteq> CAMERA_CONTROL_STREAM_ID" by blast
    then show ?thesis
      by cases (use trigger camera ignored Operating estop_not in \<open>simp_all add: on_stream_data_def ids\<close>)
  qed
qed

lemma datagram_frame [simp]:
  "se_autonomy_goal (on_datagram w now us room data s) = se_autonomy_goal s"
  "se_phase (on_datagram w now us room data s) = se_phase s"
  "se_selected_sensors (on_datagram w now us room data s) = se_selected_sensors s"
  "se_topics_negotiated (on_datagram w now us room data s) = se_topics_negotiated s"
  "se_bridge_estop_active (on_datagram w now us room data s) = se_bridge_estop_active s"
  "se_tick_count (on_datagram w now us room data s) = se_tick_count s"
  "se_estop_seq (on_datagram w now us room data s) = se_estop_seq s"
  "se_session_describe_sent (on_datagram w now us room data s) = se_session_describe_sent s"
  "se_hello_sent (on_datagram w now us room data s) = se_hello_sent s"
  "se_bench (on_datagram w now us room data s) = se_bench s"
  "se_bench_send (on_datagram w now us room data s) = se_bench_send s"
  "se_sensors (on_datagram w now us room data s) = se_sensors s"
  "se_trigger_dedup (on_datagram w now us room data s) = se_trigger_dedup s"
  "se_latest_telemetry (on_datagram w now us room data s) = se_latest_telemetry s"
  by (simp_all add: on_datagram_def Let_def split: list.split option.split sum.split)

lemma trigger_frame [simp]:
  "se_autonomy_goal (on_action_trigger now trigger s) = se_autonomy_goal s"
  "se_phase (on_action_trigger now trigger s) = se_phase s"
  "se_selected_sensors (on_action_trigger now trigger s) = se_selected_sensors s"
  "se_topics_negotiated (on_action_trigger now trigger s) = se_topics_negotiated s"
  "se_bridge_estop_active (on_action_trigger now trigger s) = se_bridge_estop_active s"
  "se_tick_count (on_action_trigger now trigger s) = se_tick_count s"
  "se_estop_seq (on_action_trigger now trigger s) = se_estop_seq s"
  "se_session_describe_sent (on_action_trigger now trigger s) = se_session_describe_sent s"
  "se_hello_sent (on_action_trigger now trigger s) = se_hello_sent s"
  "se_bench (on_action_trigger now trigger s) = se_bench s"
  "se_bench_send (on_action_trigger now trigger s) = se_bench_send s"
  "se_sensors (on_action_trigger now trigger s) = se_sensors s"
  "se_latest_telemetry (on_action_trigger now trigger s) = se_latest_telemetry s"
  "se_command_sink (on_action_trigger now trigger s) = se_command_sink s"
  by (simp_all add: on_action_trigger_def session_tick_eq to_bridge_eq Let_def case_prod_unfold)

lemma stream_frame [simp]:
  "se_autonomy_goal (fst (on_stream_data w now us stream_id data s)) = se_autonomy_goal s \<and>
   se_bridge_estop_active (fst (on_stream_data w now us stream_id data s)) = se_bridge_estop_active s \<and>
   se_tick_count (fst (on_stream_data w now us stream_id data s)) = se_tick_count s \<and>
   se_estop_seq (fst (on_stream_data w now us stream_id data s)) = se_estop_seq s \<and>
   se_hello_sent (fst (on_stream_data w now us stream_id data s)) = se_hello_sent s \<and>
   se_bench (fst (on_stream_data w now us stream_id data s)) = se_bench s \<and>
   se_bench_send (fst (on_stream_data w now us stream_id data s)) = se_bench_send s \<and>
   se_sensors (fst (on_stream_data w now us stream_id data s)) = se_sensors s \<and>
   se_latest_telemetry (fst (on_stream_data w now us stream_id data s)) = se_latest_telemetry s"
  by (cases rule: stream_cases [of w now us stream_id data s]) simp_all

lemma greet_frame [simp]:
  "se_autonomy_goal (greet w s) = se_autonomy_goal s" "se_phase (greet w s) = se_phase s"
  "se_selected_sensors (greet w s) = se_selected_sensors s"
  "se_topics_negotiated (greet w s) = se_topics_negotiated s"
  "se_bridge_estop_active (greet w s) = se_bridge_estop_active s" "se_tick_count (greet w s) = se_tick_count s"
  "se_estop_seq (greet w s) = se_estop_seq s" "se_session_describe_sent (greet w s) = se_session_describe_sent s"
  "se_bench (greet w s) = se_bench s" "se_bench_send (greet w s) = se_bench_send s"
  "se_sensors (greet w s) = se_sensors s" "se_trigger_dedup (greet w s) = se_trigger_dedup s"
  "se_latest_telemetry (greet w s) = se_latest_telemetry s" "se_sitting (greet w s) = se_sitting s"
  "se_action_settle_until (greet w s) = se_action_settle_until s" "se_safety (greet w s) = se_safety s"
  "se_bridge (greet w s) = se_bridge s" "se_channel_b_seq (greet w s) = se_channel_b_seq s"
  by (simp_all add: greet_def send_hello_def Let_def case_prod_unfold split: sum.split quic_error.split)

lemma report_frame [simp]:
  "se_autonomy_goal (report_estop w l s) = se_autonomy_goal s" "se_phase (report_estop w l s) = se_phase s"
  "se_selected_sensors (report_estop w l s) = se_selected_sensors s"
  "se_topics_negotiated (report_estop w l s) = se_topics_negotiated s"
  "se_session_describe_sent (report_estop w l s) = se_session_describe_sent s"
  "se_hello_sent (report_estop w l s) = se_hello_sent s" "se_bench (report_estop w l s) = se_bench s"
  "se_bench_send (report_estop w l s) = se_bench_send s" "se_sensors (report_estop w l s) = se_sensors s"
  "se_trigger_dedup (report_estop w l s) = se_trigger_dedup s"
  "se_latest_telemetry (report_estop w l s) = se_latest_telemetry s"
  "se_command_sink (report_estop w l s) = se_command_sink s" "se_forwarder (report_estop w l s) = se_forwarder s"
  "se_sitting (report_estop w l s) = se_sitting s"
  "se_action_settle_until (report_estop w l s) = se_action_settle_until s"
  "se_bridge_estop_active (report_estop w l s) = se_bridge_estop_active s"
  "se_tick_count (report_estop w l s) = se_tick_count s" "se_bridge (report_estop w l s) = se_bridge s"
  "se_channel_b_seq (report_estop w l s) = se_channel_b_seq s" "se_safety (report_estop w l s) = se_safety s"
  by (simp_all add: report_estop_def send_datagram_def Let_def case_prod_unfold split: sum.split)

lemma tick_tail_frame [simp]:
  "se_autonomy_goal (tick_tail now src s) = se_autonomy_goal s" "se_phase (tick_tail now src s) = se_phase s"
  "se_selected_sensors (tick_tail now src s) = se_selected_sensors s"
  "se_topics_negotiated (tick_tail now src s) = se_topics_negotiated s"
  "se_session_describe_sent (tick_tail now src s) = se_session_describe_sent s"
  "se_hello_sent (tick_tail now src s) = se_hello_sent s" "se_bench (tick_tail now src s) = se_bench s"
  "se_bench_send (tick_tail now src s) = se_bench_send s" "se_sensors (tick_tail now src s) = se_sensors s"
  "se_trigger_dedup (tick_tail now src s) = se_trigger_dedup s"
  "se_latest_telemetry (tick_tail now src s) = se_latest_telemetry s"
  "se_command_sink (tick_tail now src s) = se_command_sink s" "se_forwarder (tick_tail now src s) = se_forwarder s"
  "se_sitting (tick_tail now src s) = se_sitting s"
  "se_action_settle_until (tick_tail now src s) = se_action_settle_until s"
  "se_tick_count (tick_tail now src s) = se_tick_count s" "se_estop_seq (tick_tail now src s) = se_estop_seq s"
  "se_safety (tick_tail now src s) = se_safety s"
  by (simp_all add: tick_tail_def follow_autonomy_def relay_estop_def to_bridge_eq Let_def)

lemma telemetry_frame [simp]:
  "se_autonomy_goal (send_telemetry w us src s) = se_autonomy_goal s"
  "se_phase (send_telemetry w us src s) = se_phase s"
  "se_selected_sensors (send_telemetry w us src s) = se_selected_sensors s"
  "se_topics_negotiated (send_telemetry w us src s) = se_topics_negotiated s"
  "se_session_describe_sent (send_telemetry w us src s) = se_session_describe_sent s"
  "se_hello_sent (send_telemetry w us src s) = se_hello_sent s" "se_bench (send_telemetry w us src s) = se_bench s"
  "se_bench_send (send_telemetry w us src s) = se_bench_send s"
  "se_sensors (send_telemetry w us src s) = se_sensors s"
  "se_trigger_dedup (send_telemetry w us src s) = se_trigger_dedup s"
  "se_latest_telemetry (send_telemetry w us src s) = se_latest_telemetry s"
  "se_command_sink (send_telemetry w us src s) = se_command_sink s"
  "se_forwarder (send_telemetry w us src s) = se_forwarder s"
  "se_sitting (send_telemetry w us src s) = se_sitting s"
  "se_action_settle_until (send_telemetry w us src s) = se_action_settle_until s"
  "se_bridge_estop_active (send_telemetry w us src s) = se_bridge_estop_active s"
  "se_tick_count (send_telemetry w us src s) = se_tick_count s"
  "se_estop_seq (send_telemetry w us src s) = se_estop_seq s" "se_safety (send_telemetry w us src s) = se_safety s"
  "se_bridge (send_telemetry w us src s) = se_bridge s"
  by (simp_all add: send_telemetry_def next_seq_def record_it_def send_datagram_def Let_def)

lemma update_rate_frame [simp]:
  "se_autonomy_goal (update_rate w now s) = se_autonomy_goal s" "se_phase (update_rate w now s) = se_phase s"
  "se_selected_sensors (update_rate w now s) = se_selected_sensors s"
  "se_topics_negotiated (update_rate w now s) = se_topics_negotiated s"
  "se_session_describe_sent (update_rate w now s) = se_session_describe_sent s"
  "se_hello_sent (update_rate w now s) = se_hello_sent s" "se_bench (update_rate w now s) = se_bench s"
  "se_bench_send (update_rate w now s) = se_bench_send s" "se_sensors (update_rate w now s) = se_sensors s"
  "se_trigger_dedup (update_rate w now s) = se_trigger_dedup s"
  "se_latest_telemetry (update_rate w now s) = se_latest_telemetry s"
  "se_command_sink (update_rate w now s) = se_command_sink s" "se_forwarder (update_rate w now s) = se_forwarder s"
  "se_sitting (update_rate w now s) = se_sitting s"
  "se_action_settle_until (update_rate w now s) = se_action_settle_until s"
  "se_bridge_estop_active (update_rate w now s) = se_bridge_estop_active s"
  "se_tick_count (update_rate w now s) = se_tick_count s" "se_estop_seq (update_rate w now s) = se_estop_seq s"
  "se_safety (update_rate w now s) = se_safety s" "se_bench_counter (update_rate w now s) = se_bench_counter s"
  by (simp_all add: update_rate_def split: option.split prod.split)

lemma tick_head_frame [simp]:
  "se_autonomy_goal (tick_head w now s) = se_autonomy_goal s" "se_phase (tick_head w now s) = se_phase s"
  "se_selected_sensors (tick_head w now s) = se_selected_sensors s"
  "se_topics_negotiated (tick_head w now s) = se_topics_negotiated s"
  "se_session_describe_sent (tick_head w now s) = se_session_describe_sent s"
  "se_hello_sent (tick_head w now s) = se_hello_sent s" "se_bench (tick_head w now s) = se_bench s"
  "se_bench_send (tick_head w now s) = se_bench_send s" "se_sensors (tick_head w now s) = se_sensors s"
  "se_trigger_dedup (tick_head w now s) = se_trigger_dedup s"
  "se_latest_telemetry (tick_head w now s) = se_latest_telemetry s"
  "se_command_sink (tick_head w now s) = se_command_sink s" "se_forwarder (tick_head w now s) = se_forwarder s"
  "se_sitting (tick_head w now s) = se_sitting s"
  "se_action_settle_until (tick_head w now s) = se_action_settle_until s"
  "se_bridge_estop_active (tick_head w now s) = se_bridge_estop_active s"
  by (simp_all add: tick_head_def session_tick_eq Let_def)

lemma tick_frame [simp]:
  "se_autonomy_goal (on_tick w now us s) = se_autonomy_goal s" "se_phase (on_tick w now us s) = se_phase s"
  "se_selected_sensors (on_tick w now us s) = se_selected_sensors s"
  "se_topics_negotiated (on_tick w now us s) = se_topics_negotiated s"
  "se_session_describe_sent (on_tick w now us s) = se_session_describe_sent s"
  "se_hello_sent (on_tick w now us s) = se_hello_sent s" "se_bench (on_tick w now us s) = se_bench s"
  "se_bench_send (on_tick w now us s) = se_bench_send s" "se_sensors (on_tick w now us s) = se_sensors s"
  "se_trigger_dedup (on_tick w now us s) = se_trigger_dedup s"
  "se_latest_telemetry (on_tick w now us s) = se_latest_telemetry s"
  "se_command_sink (on_tick w now us s) = se_command_sink s" "se_forwarder (on_tick w now us s) = se_forwarder s"
  "se_sitting (on_tick w now us s) = se_sitting s"
  "se_action_settle_until (on_tick w now us s) = se_action_settle_until s"
  by (simp_all add: on_tick_eq Let_def)

section \<open>The safety task's share of every turn\<close>

definition estop_events :: "bytes \<Rightarrow> instant \<Rightarrow> task_event list" where
  "estop_events data now =
     (case estop_decode data of None \<Rightarrow> [] | Some d \<Rightarrow> [if ed_latched d then ExplicitEstop else ClearEstop now])"

definition heard_events :: "bytes \<Rightarrow> instant \<Rightarrow> task_event list" where
  "heard_events data now = (if estop_decode data = None then [] else estop_events data now @ [Activity None now])"

definition poll :: "'c Session \<Rightarrow> instant \<Rightarrow> task_event" where
  "poll s now = Poll now (goal_asserted (se_autonomy_goal s) now)"

fun safety_events :: "'c services \<Rightarrow> 'c Session \<Rightarrow> session_event \<Rightarrow> task_event list" where
  "safety_events w s (Tick now us) = [poll s now]"
| "safety_events w s (DatagramIn now us room data) =
     (case data of
        [] \<Rightarrow> []
      | t # payload \<Rightarrow>
          if t = ESTOP_DATAGRAM_MAGIC then heard_events data now
          else if se_phase s \<noteq> Operating then []
          else if t = DATAGRAM_TAG_BENCH_RAW then (if se_bench s = None then [] else [Activity None now])
          else if t = DATAGRAM_TAG_HEARTBEAT then [Activity None now]
          else if t = DATAGRAM_TAG_CHANNEL_B \<and> cb_category (decode_channel_b_frame (f_frame w) payload) = CatCommand
          then [Activity None now, CommandSeen] @ (if carried w data s = None then [] else [poll s now])
          else [])"
| "safety_events w s (StreamIn now us stream_id data) =
     (if stream_id = 0 \<and> se_phase s = AwaitingHello \<or> stream_id = 1 \<and> se_phase s = AwaitingSessionAccept then []
      else if stream_id = ESTOP_STREAM_ID then estop_events data now
      else if stream_id = ACTION_TRIGGER_STREAM_ID \<and> se_phase s = Operating
         \<and> snd (trigger_accept (se_trigger_dedup s) (decode_action_trigger (f_trigger w) data)) then [poll s now]
      else [])"
| "safety_events w s (BridgeSays e) =
     (case e of ProcessDied _ _ \<Rightarrow> [ExplicitEstop] | GaveUp \<Rightarrow> [ExplicitEstop] | FromBridge _ \<Rightarrow> [])"
| "safety_events w s _ = []"

lemma heard_is_run: "heard now t = task_run t [Activity None now, CommandSeen]"
  by (simp add: heard_def)

lemma dispatch_safety [simp]:
  "se_safety (fst (dispatch_teleop_command now room cmd s)) = task_step (se_safety s) (poll s now)"
  by (simp add: dispatch_teleop_command_def session_tick_eq to_bridge_eq poll_def Let_def split: ControlSource.split)

lemma command_frame_safety:
  "se_safety (on_command_frame w now us room payload fr s) =
     (let t = heard now (se_safety s)
      in if se_bench s = None \<and> tc_unpack (cb_fields fr) \<noteq> None then task_step t (poll s now) else t)"
  by (simp add: on_command_frame_def on_bench_command_def send_datagram_def record_it_def heard_def poll_def
      Let_def case_prod_unfold split: option.split)

lemma apply_estop_run:
  "estop_decode data = Some d \<Longrightarrow> apply_estop d now t = task_run t (estop_events data now)"
  by (simp add: estop_events_def apply_estop_def)

lemma datagram_safety:
  "se_safety (on_datagram w now us room data s) = task_run (se_safety s) (safety_events w s (DatagramIn now us room data))"
proof (cases data)
  case Nil
  then show ?thesis by (simp add: on_datagram_def)
next
  case (Cons t payload)
  consider "t = ESTOP_DATAGRAM_MAGIC" | "t \<noteq> ESTOP_DATAGRAM_MAGIC" "t = DATAGRAM_TAG_CHANNEL_B" "se_phase s = Operating"
      "cb_category (decode_channel_b_frame (f_frame w) payload) = CatCommand"
    | "t \<noteq> ESTOP_DATAGRAM_MAGIC" "\<not> (t = DATAGRAM_TAG_CHANNEL_B \<and> se_phase s = Operating
      \<and> cb_category (decode_channel_b_frame (f_frame w) payload) = CatCommand)" by blast
  then show ?thesis
  proof cases
    case 1
    then show ?thesis
      by (cases "estop_decode data")
        (simp_all add: Cons on_datagram_def heard_events_def estop_events_def apply_estop_def)
  next
    case 2
    have "on_datagram w now us room data s
        = on_command_frame w now us room payload (decode_channel_b_frame (f_frame w) payload) s"
      using 2 Cons by (simp add: on_datagram_def tag_defs)
    moreover have "carried w data s = (if se_bench s = None
        then tc_unpack (cb_fields (decode_channel_b_frame (f_frame w) payload)) else None)"
      using 2 Cons by (simp add: carried_def)
    ultimately show ?thesis using 2 Cons
      by (simp add: command_frame_safety heard_is_run tag_defs Let_def)
  next
    case 3
    then show ?thesis using Cons
      by (auto simp: on_datagram_def on_bench_raw_def send_datagram_def Let_def split: option.split sum.split)
  qed
qed

lemma trigger_safety:
  "se_safety (on_action_trigger now trigger s) =
     (if snd (trigger_accept (se_trigger_dedup s) trigger) then task_step (se_safety s) (poll s now) else se_safety s)"
  by (simp add: on_action_trigger_def session_tick_eq to_bridge_eq poll_def Let_def case_prod_unfold)

lemma stream_safety:
  "se_safety (fst (on_stream_data w now us stream_id data s)) =
     task_run (se_safety s) (safety_events w s (StreamIn now us stream_id data))"
proof (cases "stream_id = ACTION_TRIGGER_STREAM_ID \<and> se_phase s = Operating")
  case True
  then show ?thesis
    by (simp add: on_stream_data_def trigger_safety record_it_def poll_def ACTION_TRIGGER_STREAM_ID_def ESTOP_STREAM_ID_def)
next
  case False
  then show ?thesis
    by (auto simp: on_stream_data_def estop_events_def apply_estop_def split: option.split)
qed

lemma step_safety:
  assumes "session_step w e s = Some (s', err)"
  shows "se_safety s' = task_run (se_safety s) (safety_events w s e)"
proof (cases e)
  case (Tick now us)
  with assms have "s' = on_tick w now us s" by simp
  then show ?thesis by (simp add: Tick on_tick_eq tick_head_fields poll_def Let_def)
next
  case (DatagramIn now us room data)
  with assms datagram_safety [of w now us room data s] show ?thesis by auto
next
  case (StreamIn now us stream_id data)
  with assms stream_safety [of w now us stream_id data s] show ?thesis by auto
next
  case Greeting
  with assms show ?thesis by auto
next
  case (BridgeSays ev)
  have "se_safety (on_bridge_event ev s) = task_run (se_safety s) (safety_events w s (BridgeSays ev))"
    by (induction ev s rule: on_bridge_event.induct) (simp_all add: Let_def)
  with assms BridgeSays show ?thesis by auto
qed (use flow_step [OF assms] assms in \<open>auto simp: flow_only_def\<close>)

lemma step_goal:
  assumes "session_step w e s = Some (s', err)"
  shows "se_autonomy_goal s' = (case e of GoalSeen now p \<Rightarrow> mark_seen (se_autonomy_goal s) now p | _ \<Rightarrow> se_autonomy_goal s)"
proof (cases e)
  case (Tick now us)
  with assms show ?thesis by auto
next
  case (DatagramIn now us room data)
  with assms show ?thesis by auto
next
  case (StreamIn now us stream_id data)
  with assms stream_frame [of w now us stream_id data s] show ?thesis by auto
next
  case Greeting
  with assms show ?thesis by auto
next
  case (BridgeSays ev)
  have "se_autonomy_goal (on_bridge_event ev s) = se_autonomy_goal s"
    by (induction ev s rule: on_bridge_event.induct) (simp_all add: Let_def)
  with assms BridgeSays show ?thesis by auto
qed (use flow_step [OF assms] assms in \<open>auto simp: flow_only_def\<close>)

section \<open>Who may move the robot\<close>

fun moves :: "BridgeCommand \<Rightarrow> bool" where
  "moves (Move x y seq) = True"
| "moves (Turn step seq) = True"
| "moves (Attitude axis data seq) = True"
| "moves (Action i seq) = True"
| "moves (Motor i angle seq) = True"
| "moves (Arm x z seq) = True"
| "moves (Claw pos seq) = True"
| "moves (Stop seq) = False"
| "moves (Heartbeat seq) = False"
| "moves (Query seq) = False"
| "moves (Estop seq) = False"
| "moves (EstopClear seq) = False"

definition new_commands :: "'c Session \<Rightarrow> 'c Session \<Rightarrow> BridgeCommand list" where
  "new_commands s s' = drop (length (se_bridge s)) (se_bridge s')"

lemma new_commands_step:
  "session_step w e s = Some (s', err) \<Longrightarrow> new_commands s s' = in_sequence (se_channel_b_seq s) (orders w s e)"
  by (simp add: new_commands_def step_sends(1))

lemma in_sequence_set: "c \<in> set (in_sequence n cs) \<Longrightarrow> \<exists>f \<in> set cs. \<exists>m. c = f m"
  by (induction cs arbitrary: n) auto

definition watchdog_alive :: "instant \<Rightarrow> SafetyTask \<Rightarrow> bool" where
  "watchdog_alive now t \<longleftrightarrow>
     \<not> fge (blackout_ms (duration_since now (wd_last_heartbeat (st_watchdog t)))) (wd_threshold_ms (st_watchdog t))"

lemma poll_alive: "\<not> is_estopped (task_step t (poll s now)) \<Longrightarrow> watchdog_alive now (task_step t (poll s now))"
  by (auto simp: poll_def task_tick_def is_estopped_def wd_check_def watchdog_alive_def Let_def split: if_splits)

lemma source_full:
  assumes "source_at now t s = FullTeleoperation"
  shows "\<not> is_estopped (task_step t (poll s now)) \<and> \<not> sm_suspended (st_machine (task_step t (poll s now)))
    \<and> st_deadman_held (task_step t (poll s now)) \<and> st_command_fresh (task_step t (poll s now))
    \<and> sm_tier (st_machine (task_step t (poll s now))) \<le> 3"
  using assms by (auto simp: source_at_def poll_def task_tick_source Let_def split: if_splits)

lemma source_semi:
  assumes "source_at now t s = SemiAutonomous"
  shows "\<not> is_estopped (task_step t (poll s now)) \<and> \<not> sm_suspended (st_machine (task_step t (poll s now)))
    \<and> goal_asserted (se_autonomy_goal s) now"
  using assms by (auto simp: source_at_def poll_def task_tick_source Let_def split: if_splits)

text \<open>The three ways in which a command that moves the robot comes about.\<close>

lemma moving_orders:
  assumes "c \<in> set (in_sequence n (orders w s e))" and "moves c"
  obtains (tick) now us m where "e = Tick now us" "source_at now (se_safety s) s = SemiAutonomous"
      "c = Move (av_vx (goal_velocity (se_autonomy_goal s) now)) (av_vy (goal_velocity (se_autonomy_goal s) now)) m
       \<or> c = Turn (av_turn (goal_velocity (se_autonomy_goal s) now)) m"
  | (command) now us room data cmd where "e = DatagramIn now us room data" "carried w data s = Some cmd"
      "source_at now (heard now (se_safety s)) s = FullTeleoperation"
  | (trigger) now us data where "e = StreamIn now us ACTION_TRIGGER_STREAM_ID data" "se_phase s = Operating"
      "snd (trigger_accept (se_trigger_dedup s) (decode_action_trigger (f_trigger w) data))"
      "source_at now (se_safety s) s = FullTeleoperation"
proof -
  obtain f m where f: "f \<in> set (orders w s e)" "c = f m" using in_sequence_set [OF assms(1)] by blast
  show ?thesis
  proof (cases e)
    case (Tick now us)
    then show ?thesis using f assms(2) by (intro tick [of now us]) (auto simp: tick_orders_def Let_def split: if_splits)
  next
    case (DatagramIn now us room data)
    then show ?thesis using f assms(2)
      by (cases "carried w data s") (auto simp: dispatch_orders_def intro: command split: if_splits)
  next
    case (StreamIn now us stream_id data)
    then show ?thesis using f trigger by (auto simp: Let_def split: if_splits)
  qed (use f in simp_all)
qed

text \<open>What holds all along a session.\<close>

lemma task_step_threshold [simp]:
  "wd_threshold_ms (st_watchdog (task_step t e)) = wd_threshold_ms (st_watchdog t)"
  by (cases e) (simp_all add: task_defs wd_heartbeat_def wd_clear_def Let_def split: option.split)

lemma task_run_threshold: "wd_threshold_ms (st_watchdog (task_run t es)) = wd_threshold_ms (st_watchdog t)"
  by (induction es arbitrary: t) simp_all

lemma run_limits:
  assumes "session_run w s0 es s" and "within_limits (ag_velocity (se_autonomy_goal s0))"
  shows "within_limits (ag_velocity (se_autonomy_goal s))
    \<and> wd_threshold_ms (st_watchdog (se_safety s)) = wd_threshold_ms (st_watchdog (se_safety s0))"
  using assms
proof induction
  case (turn es s e s')
  have "within_limits (ag_velocity (se_autonomy_goal s'))"
    using turn step_goal [OF turn(2)] decode_within_limits by (auto simp: mark_seen_def split: session_event.splits)
  with turn step_safety [OF turn(2)] show ?case by (simp add: task_run_threshold)
qed simp

lemma carried_operating: "carried w data s = Some cmd \<Longrightarrow> se_phase s = Operating"
  by (auto simp: carried_def split: list.splits if_splits)

lemma carried_safety:
  assumes "carried w data s = Some cmd"
  shows "task_run (se_safety s) (safety_events w s (DatagramIn now us room data))
      = task_step (heard now (se_safety s)) (poll s now)"
proof -
  obtain payload where data: "data = DATAGRAM_TAG_CHANNEL_B # payload"
    "cb_category (decode_channel_b_frame (f_frame w) payload) = CatCommand"
    using assms by (auto simp: carried_def split: list.splits if_splits)
  have "se_phase s = Operating" using assms by (rule carried_operating)
  then show ?thesis using assms data(2) unfolding data(1) heard_is_run
    by (simp add: tag_defs ESTOP_DATAGRAM_MAGIC_def)
qed

text \<open>C2: Nothing moves the robot without authority.  In every reachable state of a session and for every
  event, a command that moves a joint, the body or the claw goes to the bridge only if no E-Stop is in
  force, teleoperation is not suspended, and the watchdog, checked at that moment against the session's
  threshold, has not run out; and then either an operator's datagram or trigger is being handled in the
  operating phase, with the dead-man held, a fresh command and a tier of at most three, or a tick
  forwards an asserted autonomy goal, as a move or a turn within the operator's limits.\<close>

theorem motion_needs_authority:
  assumes "session_run w (session_new su conn telemetry command goal forwarder recorder t0) es s"
    and "within_limits (ag_velocity goal)"
    and "session_step w e s = Some (s', err)"
    and "c \<in> set (new_commands s s')" and "moves c"
  shows "\<not> is_estopped (se_safety s') \<and> \<not> sm_suspended (st_machine (se_safety s'))
    \<and> wd_threshold_ms (st_watchdog (se_safety s')) = su_watchdog_threshold_ms su
    \<and> (\<exists>now us. watchdog_alive now (se_safety s')
        \<and> ((\<exists>room data. (e = DatagramIn now us room data \<or> e = StreamIn now us ACTION_TRIGGER_STREAM_ID data)
              \<and> se_phase s = Operating \<and> st_deadman_held (se_safety s') \<and> st_command_fresh (se_safety s')
              \<and> sm_tier (st_machine (se_safety s')) \<le> 3)
          \<or> (e = Tick now us \<and> goal_asserted (se_autonomy_goal s) now
              \<and> (\<exists>v m. within_limits v \<and> (c = Move (av_vx v) (av_vy v) m \<or> c = Turn (av_turn v) m)))))"
proof -
  let ?s0 = "session_new su conn telemetry command goal forwarder recorder t0"
  have run: "within_limits (ag_velocity (se_autonomy_goal s))"
    "wd_threshold_ms (st_watchdog (se_safety s)) = su_watchdog_threshold_ms su"
    using run_limits [OF assms(1)] assms(2) by (simp_all add: session_new_def task_defs wd_defs)
  have safety: "se_safety s' = task_run (se_safety s) (safety_events w s e)" by (rule step_safety [OF assms(3)])
  have threshold: "wd_threshold_ms (st_watchdog (se_safety s')) = su_watchdog_threshold_ms su"
    using safety run(2) by (simp add: task_run_threshold)
  from assms(3,4) have c: "c \<in> set (in_sequence (se_channel_b_seq s) (orders w s e))" by (simp add: new_commands_step)
  from c assms(5) show ?thesis
  proof (cases rule: moving_orders)
    case (tick now us m)
    have s': "se_safety s' = task_step (se_safety s) (poll s now)" using safety tick(1) by simp
    have "within_limits (goal_velocity (se_autonomy_goal s) now)"
      using run(1) by (simp add: goal_velocity_def within_limits_def velocity_default_def)
    then show ?thesis using tick source_semi [OF tick(2)] poll_alive threshold unfolding s' by blast
  next
    case (command now us room data cmd)
    have s': "se_safety s' = task_step (heard now (se_safety s)) (poll s now)"
      using safety carried_safety [OF command(2)] command(1) by simp
    show ?thesis using command source_full [OF command(3)] poll_alive threshold carried_operating [OF command(2)]
      unfolding s' by blast
  next
    case (trigger now us data)
    have s': "se_safety s' = task_step (se_safety s) (poll s now)"
      using safety trigger by (simp add: ACTION_TRIGGER_STREAM_ID_def ESTOP_STREAM_ID_def)
    show ?thesis using trigger source_full [OF trigger(4)] poll_alive threshold unfolding s' by blast
  qed
qed

section \<open>The E-Stop reaches the bridge\<close>

definition latches :: "bytes \<Rightarrow> bool" where
  "latches data = (case estop_decode data of None \<Rightarrow> False | Some d \<Rightarrow> ed_latched d)"

definition unlatches :: "bytes \<Rightarrow> bool" where
  "unlatches data = (case estop_decode data of None \<Rightarrow> False | Some d \<Rightarrow> \<not> ed_latched d)"

fun stops :: "session_event \<Rightarrow> bool" where
  "stops (DatagramIn now us room data) = latches data"
| "stops (StreamIn now us stream_id data) = (stream_id = ESTOP_STREAM_ID \<and> latches data)"
| "stops (BridgeSays e) = (case e of FromBridge _ \<Rightarrow> False | _ \<Rightarrow> True)"
| "stops _ = False"

fun clears :: "session_event \<Rightarrow> bool" where
  "clears (DatagramIn now us room data) = unlatches data"
| "clears (StreamIn now us stream_id data) = (stream_id = ESTOP_STREAM_ID \<and> unlatches data)"
| "clears _ = False"

lemma estop_decode_magic: "estop_decode data = Some d \<Longrightarrow> \<exists>payload. data = ESTOP_DATAGRAM_MAGIC # payload"
  by (cases data) (auto simp: estop_decode_def ESTOP_DATAGRAM_LEN_def split: if_splits)

lemma stops_safety:
  assumes "stops e"
  shows "\<exists>evs. safety_events w s e = ExplicitEstop # evs \<and> (\<forall>now. ClearEstop now \<notin> set evs)" and "orders w s e = []"
proof -
  have "(\<exists>evs. safety_events w s e = ExplicitEstop # evs \<and> (\<forall>now. ClearEstop now \<notin> set evs)) \<and> orders w s e = []"
  proof (cases e)
    case (DatagramIn now us room data)
    then obtain d where d: "estop_decode data = Some d" "ed_latched d"
      using assms by (auto simp: latches_def split: option.splits)
    obtain payload where "data = ESTOP_DATAGRAM_MAGIC # payload" using estop_decode_magic [OF d(1)] by blast
    then show ?thesis using d DatagramIn
      by (simp add: heard_events_def estop_events_def carried_def tag_defs ESTOP_DATAGRAM_MAGIC_def)
  next
    case (StreamIn now us stream_id data)
    then show ?thesis using assms
      by (auto simp: latches_def estop_events_def ESTOP_STREAM_ID_def ACTION_TRIGGER_STREAM_ID_def Let_def split: option.splits)
  next
    case (BridgeSays ev)
    then show ?thesis using assms by (cases ev) auto
  qed (use assms in simp_all)
  then show "\<exists>evs. safety_events w s e = ExplicitEstop # evs \<and> (\<forall>now. ClearEstop now \<notin> set evs)"
    and "orders w s e = []" by simp_all
qed

lemma clears_safety: "ClearEstop now \<in> set (safety_events w s e) \<Longrightarrow> clears e"
  by (cases "(w, s, e)" rule: safety_events.cases)
    (auto simp: heard_events_def estop_events_def unlatches_def poll_def
      split: list.splits if_splits option.splits SupervisorEvent.splits dest!: sym [of "Some _"])

lemma estopped_stays:
  assumes "session_step w e s = Some (s', err)" and "\<not> clears e" and "is_estopped (se_safety s)"
  shows "is_estopped (se_safety s')"
  using estopped_run [OF assms(3), of "safety_events w s e"] clears_safety [of _ w s e] assms(2)
  unfolding step_safety [OF assms(1)] by blast

lemma estopped_no_motion:
  assumes "session_step w e s = Some (s', err)" and "\<not> clears e" and "is_estopped (se_safety s)"
  shows "\<forall>c \<in> set (new_commands s s'). \<not> moves c"
proof (intro ballI notI)
  fix c
  assume c: "c \<in> set (new_commands s s')" "moves c"
  have still: "is_estopped (se_safety s')" by (rule estopped_stays [OF assms])
  from c have "c \<in> set (in_sequence (se_channel_b_seq s) (orders w s e))" by (simp add: new_commands_step [OF assms(1)])
  then show False using c(2)
  proof (cases rule: moving_orders)
    case (tick now us m)
    with source_semi [OF tick(2)] still show False by (simp add: step_safety [OF assms(1)])
  next
    case (command now us room data cmd)
    then have "se_safety s' = task_step (heard now (se_safety s)) (poll s now)"
      using step_safety [OF assms(1)] carried_safety [OF command(2)] by simp
    with source_full [OF command(3)] still show False by simp
  next
    case (trigger now us data)
    with source_full [OF trigger(4)] still show False
      by (simp add: step_safety [OF assms(1)] ACTION_TRIGGER_STREAM_ID_def ESTOP_STREAM_ID_def)
  qed
qed

lemma step_extends: "session_step w e s = Some (s', err) \<Longrightarrow> se_bridge s' = se_bridge s @ new_commands s s'"
  by (simp add: new_commands_def step_sends(1))

lemma estopped_run_still:
  assumes "session_run w s1 es s2" and "\<forall>e \<in> set es. \<not> clears e" and "is_estopped (se_safety s1)"
  shows "is_estopped (se_safety s2) \<and> (\<exists>cs. se_bridge s2 = se_bridge s1 @ cs \<and> (\<forall>c \<in> set cs. \<not> moves c))"
  using assms
proof induction
  case (turn es s e s')
  then obtain cs where cs: "is_estopped (se_safety s)" "se_bridge s = se_bridge s1 @ cs" "\<forall>c \<in> set cs. \<not> moves c" by auto
  have "\<not> clears e" using turn.prems by simp
  with estopped_stays [OF turn(2) _ cs(1)] estopped_no_motion [OF turn(2) _ cs(1)] step_extends [OF turn(2)] cs
  show ?case by (intro conjI exI [of _ "cs @ new_commands s s'"]) auto
qed simp

lemma source_estop: "source_at now t s = EStop \<longleftrightarrow> is_estopped (task_step t (poll s now))"
  by (simp add: source_at_def poll_def task_tick_source Let_def)

lemma tick_new_commands:
  "new_commands s (on_tick w now us s) = in_sequence (se_channel_b_seq s) (tick_orders now s)"
  using new_commands_step [of w "Tick now us" s] by simp

lemma stop_taken:
  assumes "session_step w e s = Some (s1, err)" and "stops e"
  shows "is_estopped (se_safety s1)" and "se_bridge s1 = se_bridge s"
proof -
  obtain evs where evs: "safety_events w s e = ExplicitEstop # evs" "\<forall>now. ClearEstop now \<notin> set evs"
    using stops_safety(1) [OF assms(2)] by blast
  have "is_estopped (task_step (se_safety s) ExplicitEstop)" by (simp add: is_estopped_def task_defs)
  then show "is_estopped (se_safety s1)"
    unfolding step_safety [OF assms(1)] evs(1) task_run_Cons using evs(2) by (rule estopped_run)
  show "se_bridge s1 = se_bridge s"
    using step_sends(1) [OF assms(1)] stops_safety(2) [OF assms(2), where w = w and s = s] by simp
qed

lemma estopped_tick:
  assumes "is_estopped (se_safety s)"
  shows "\<exists>m. Estop m \<in> set (new_commands s (on_tick w now us s))"
    and "\<forall>c \<in> set (new_commands s (on_tick w now us s)). \<not> moves c"
proof -
  have "source_at now (se_safety s) s = EStop"
    unfolding source_estop using estopped_step [OF assms, of "poll s now"] by (simp add: poll_def)
  then show "\<exists>m. Estop m \<in> set (new_commands s (on_tick w now us s))"
    by (auto simp: tick_new_commands tick_orders_def Let_def)
  show "\<forall>c \<in> set (new_commands s (on_tick w now us s)). \<not> moves c"
    by (rule estopped_no_motion [of w "Tick now us" _ _ None]) (simp_all add: assms)
qed

text \<open>C3: An E-Stop holds everywhere until it is cleared.  Whatever phase the session is in and whatever its
  state: once a latched E-Stop datagram or stream message arrives, or the bridge process dies, no command
  that moves the robot is sent, through any sequence of further events without an unlatched E-Stop
  message; and every tick after that, whenever it comes, tells the bridge to stop.\<close>

theorem estop_holds_everywhere:
  assumes "session_step w e s = Some (s1, err)" and "stops e"
    and "session_run w s1 es s2" and "\<forall>e \<in> set es. \<not> clears e"
  shows "(\<forall>c \<in> set (new_commands s s2). \<not> moves c)
    \<and> (\<forall>now us. (\<exists>m. Estop m \<in> set (new_commands s2 (on_tick w now us s2)))
        \<and> (\<forall>c \<in> set (new_commands s2 (on_tick w now us s2)). \<not> moves c))"
proof -
  note taken = stop_taken [OF assms(1,2)]
  from estopped_run_still [OF assms(3,4) taken(1)] obtain cs where
    s2: "is_estopped (se_safety s2)" "se_bridge s2 = se_bridge s1 @ cs" "\<forall>c \<in> set cs. \<not> moves c" by blast
  then have "\<forall>c \<in> set (new_commands s s2). \<not> moves c" using taken(2) by (simp add: new_commands_def)
  with estopped_tick [OF s2(1)] show ?thesis by blast
qed

section \<open>What the bridge knows\<close>

fun latch :: "bool \<Rightarrow> BridgeCommand \<Rightarrow> bool" where
  "latch b (Estop seq) = True"
| "latch b (EstopClear seq) = False"
| "latch b _ = b"

text \<open>The bridge's own E-Stop flag after the commands it was sent.\<close>

definition bridge_latched :: "BridgeCommand list \<Rightarrow> bool" where
  "bridge_latched cs = foldl latch False cs"

lemma latch_orders:
  "(case e of Tick _ _ \<Rightarrow> False | _ \<Rightarrow> True) \<Longrightarrow> foldl latch b (in_sequence n (orders w s e)) = b"
  by (cases "(w, s, e)" rule: orders.cases)
    (auto simp: dispatch_orders_def drive_orders_def body_orders_def Let_def split: option.split)

lemma latch_tick:
  "foldl latch (se_bridge_estop_active s) (in_sequence n (tick_orders now s)) = (source_at now (se_safety s) s = EStop)"
  by (simp add: tick_orders_def Let_def)

lemma step_active:
  assumes "session_step w e s = Some (s', err)"
  shows "se_bridge_estop_active s' = (case e of Tick now us \<Rightarrow> source_at now (se_safety s) s = EStop
    | _ \<Rightarrow> se_bridge_estop_active s)"
proof (cases e)
  case (Tick now us)
  have "se_bridge_estop_active (on_tick w now us s) = (source_at now (se_safety s) s = EStop)"
    by (simp add: on_tick_eq tick_tail_def follow_autonomy_def relay_estop_def to_bridge_eq Let_def)
  with assms Tick show ?thesis by auto
next
  case (DatagramIn now us room data)
  with assms show ?thesis by auto
next
  case (StreamIn now us stream_id data)
  with assms stream_frame [of w now us stream_id data s] show ?thesis by auto
next
  case Greeting
  with assms show ?thesis by auto
next
  case (BridgeSays ev)
  have "se_bridge_estop_active (on_bridge_event ev s) = se_bridge_estop_active s"
    by (induction ev s rule: on_bridge_event.induct) (simp_all add: Let_def)
  with assms BridgeSays show ?thesis by auto
next
  case (GoalSeen now p)
  with assms show ?thesis by auto
qed (use flow_step [OF assms] in \<open>auto simp: flow_only_def\<close>)

lemma orders_numbered: "f \<in> set (orders w s e) \<Longrightarrow> bridge_seq (f m) = m"
  by (cases "(w, s, e)" rule: orders.cases)
    (auto simp: tick_orders_def dispatch_orders_def drive_orders_def body_orders_def Let_def split: option.splits if_splits)

lemma orders_few: "length (orders w s e) + (case e of Tick _ _ \<Rightarrow> if se_phase s = Operating then 1 else 0 | _ \<Rightarrow> 0) \<le> 8"
  by (cases "(w, s, e)" rule: orders.cases)
    (auto simp: tick_orders_def dispatch_orders_def drive_orders_def body_orders_def Let_def split: option.splits)

lemma in_sequence_sorted:
  assumes "\<forall>f \<in> set cs. \<forall>m. bridge_seq (f m) = m" and "unat n + length cs < 2 ^ 64"
  shows "sorted_wrt (\<lambda>a b. bridge_seq a < bridge_seq b) (in_sequence n cs)
    \<and> (\<forall>c \<in> set (in_sequence n cs). n < bridge_seq c \<and> unat (bridge_seq c) \<le> unat n + length cs)"
  using assms
proof (induction cs arbitrary: n)
  case (Cons f cs)
  have n: "unat (n + 1) = unat n + 1" using Cons.prems(2) by (simp add: unat_word_ariths)
  then have less: "n < n + 1" by (simp add: word_less_nat_alt)
  have IH: "sorted_wrt (\<lambda>a b. bridge_seq a < bridge_seq b) (in_sequence (n + 1) cs)"
    "\<And>c. c \<in> set (in_sequence (n + 1) cs) \<Longrightarrow> n + 1 < bridge_seq c \<and> unat (bridge_seq c) \<le> unat n + 1 + length cs"
    using Cons.IH [of "n + 1"] Cons.prems n by auto
  show ?case using IH less n Cons.prems(1) by (auto intro: less_trans)
qed simp

lemma run_numbered:
  assumes "session_run w s0 es s" and "se_bridge s0 = []" and "se_channel_b_seq s0 = 0" and "8 * length es < 2 ^ 64"
  shows "unat (se_channel_b_seq s) \<le> 8 * length es
    \<and> (\<forall>c \<in> set (se_bridge s). bridge_seq c \<le> se_channel_b_seq s)
    \<and> sorted_wrt (\<lambda>a b. bridge_seq a < bridge_seq b) (se_bridge s)"
  using assms
proof induction
  case (turn es s e s')
  let ?n = "se_channel_b_seq s"
  let ?cs = "orders w s e"
  let ?t = "case e of Tick _ _ \<Rightarrow> if se_phase s = Operating then 1 else 0 | _ \<Rightarrow> (0 :: nat)"
  have IH: "unat ?n \<le> 8 * length es" "\<forall>c \<in> set (se_bridge s). bridge_seq c \<le> ?n"
    "sorted_wrt (\<lambda>a b. bridge_seq a < bridge_seq b) (se_bridge s)" using turn by auto
  have few: "length ?cs + ?t \<le> 8" by (rule orders_few)
  have bound: "unat ?n + length ?cs + ?t < 2 ^ 64" using IH(1) few turn.prems(3) by simp
  have seq: "se_channel_b_seq s' = ?n + of_nat (length ?cs + ?t)"
    using step_sends(2) [OF turn(2)] by (simp split: session_event.split)
  have unat: "unat (se_channel_b_seq s') = unat ?n + (length ?cs + ?t)"
    using bound unfolding seq by (simp only: unat_word_ariths unat_of_nat) (simp add: add.assoc)
  have new: "sorted_wrt (\<lambda>a b. bridge_seq a < bridge_seq b) (in_sequence ?n ?cs)
    \<and> (\<forall>c \<in> set (in_sequence ?n ?cs). ?n < bridge_seq c \<and> unat (bridge_seq c) \<le> unat ?n + length ?cs)"
    using orders_numbered bound by (intro in_sequence_sorted) auto
  have le: "?n \<le> se_channel_b_seq s'" using unat by (simp add: word_le_nat_alt)
  have "\<forall>c \<in> set (se_bridge s'). bridge_seq c \<le> se_channel_b_seq s'"
    using IH(2) new le unat unfolding step_sends(1) [OF turn(2)] by (auto simp: word_le_nat_alt intro: order_trans)
  moreover have "sorted_wrt (\<lambda>a b. bridge_seq a < bridge_seq b) (se_bridge s')"
    using IH(2,3) new unfolding step_sends(1) [OF turn(2)] by (auto simp: sorted_wrt_append intro: le_less_trans)
  moreover have "unat (se_channel_b_seq s') \<le> 8 * length (es @ [e])" using unat few IH(1) by simp
  ultimately show ?case by blast
qed simp

lemma run_latched:
  assumes "session_run w s0 es s" and "se_bridge s0 = []" and "\<not> se_bridge_estop_active s0"
  shows "bridge_latched (se_bridge s) = se_bridge_estop_active s"
  using assms
proof induction
  case (turn es s e s')
  then have IH: "foldl latch False (se_bridge s) = se_bridge_estop_active s" by (simp add: bridge_latched_def)
  show ?case
  proof (cases "case e of Tick _ _ \<Rightarrow> False | _ \<Rightarrow> True")
    case True
    then show ?thesis using IH step_active [OF turn(2)] latch_orders [OF True]
      by (simp add: bridge_latched_def step_sends(1) [OF turn(2)] split: session_event.splits)
  next
    case False
    then obtain now us where "e = Tick now us" by (cases e) simp_all
    then show ?thesis using IH step_active [OF turn(2)]
      by (simp add: bridge_latched_def step_sends(1) [OF turn(2)] latch_tick)
  qed
qed (simp add: bridge_latched_def)

text \<open>C7: The bridge knows the E-Stop, and its commands are numbered.  In every reachable state of a session,
  the E-Stop flag that the bridge must have from the commands it was sent is the one the session
  remembers; a tick brings it to the session's present E-Stop state, latched or cleared; and the commands
  carry strictly increasing sequence numbers.\<close>

theorem bridge_follows_the_estop:
  assumes "session_run w (session_new su conn telemetry command goal forwarder recorder t0) es s"
    and "8 * length es < 2 ^ 64"
  shows "bridge_latched (se_bridge s) = se_bridge_estop_active s
    \<and> (\<forall>now us. bridge_latched (se_bridge (on_tick w now us s)) = is_estopped (se_safety (on_tick w now us s)))
    \<and> sorted_wrt (\<lambda>a b. bridge_seq a < bridge_seq b) (se_bridge s)"
proof -
  let ?s0 = "session_new su conn telemetry command goal forwarder recorder t0"
  have new: "se_bridge ?s0 = []" "se_channel_b_seq ?s0 = 0" "\<not> se_bridge_estop_active ?s0"
    by (simp_all add: session_new_def)
  have latched: "bridge_latched (se_bridge s) = se_bridge_estop_active s"
    by (rule run_latched [OF assms(1) new(1,3)])
  have "bridge_latched (se_bridge (on_tick w now us s)) = is_estopped (se_safety (on_tick w now us s))" for now us
  proof -
    have "session_step w (Tick now us) s = Some (on_tick w now us s, None)" by simp
    from step_sends(1) [OF this] step_safety [OF this] latched show ?thesis
      by (simp add: bridge_latched_def latch_tick source_estop)
  qed
  with latched run_numbered [OF assms(1) new(1,2) assms(2)] show ?thesis by blast
qed

section \<open>A session played through\<close>

lemma run_trans:
  assumes "session_run w s es' s'" and "session_run w s0 es s"
  shows "session_run w s0 (es @ es') s'"
  using assms by induction (auto simp flip: append_assoc intro: session_run.intros)

lemma run_first:
  assumes "session_step w e s0 = Some (s, None)" and "session_run w s es s'"
  shows "session_run w s0 (e # es) s'"
  using run_trans [OF assms(2) session_run.turn [OF session_run.start assms(1)]] by simp

text \<open>A connection that takes everything, and message formats that always read the same: a HELLO of version
  1.0, an acceptance, and a command that walks forward at five.\<close>

definition walk_command :: TeleopCommand where
  "walk_command = \<lparr>tc_vx = 0x40A00000, tc_vy = 0, tc_turn = 0, tc_attitude_r = 0, tc_attitude_p = 0,
     tc_attitude_y = 0, tc_arm_x = 40, tc_arm_z = 0, tc_claw = 200\<rparr>"

definition walk_bytes :: bytes where
  "walk_bytes = [1, 0xF4, 0, 0, 0, 0, 0, 0, 0, 0, 0, 0, 0, 40, 0, 0, 0, 0, 0, 200]"

definition demo_services :: "unit services" where
  "demo_services =
     \<lparr>q_stream_send = (\<lambda>c _ d _. (c, Inr (length d))), q_stream_priority = (\<lambda>c _ _ _. c),
      q_dgram_send = (\<lambda>c _. (c, True)), q_close = (\<lambda>c _ _. c), q_established = (\<lambda>_. True),
      q_dgram_send_queue_len = (\<lambda>_. 0), q_dgram_max_writable_len = (\<lambda>_. Some 1200), q_path_stats = (\<lambda>_. None),
      f_hello = (\<lambda>_. [], \<lambda>_. \<lparr>fbh_protocol_version = 0x0100, fbh_capability_bitmask = 0, fbh_supported_task_classes = 4,
        fbh_supported_quantization_tiers = 2, fbh_max_control_rate_hz = 50, fbh_extensions = None\<rparr>),
      f_describe = (\<lambda>_. [], \<lambda>_. describe_table [] \<lparr>rp_dof_count = 0, rp_joints = [], rp_regions = [], rp_base_type = Other\<rparr> [] []),
      f_accept = (\<lambda>_. [], \<lambda>_. \<lparr>fbx_profile_hash = 0, fbx_cached = False, fbx_selected_regions = None,
        fbx_quantization = None, fbx_selected_cameras = None, fbx_selected_sensors = None\<rparr>),
      f_frame = (\<lambda>_. [], \<lambda>_. \<lparr>fbf_timestamp = 0, fbf_seq = 1, fbf_tick_id = 0, fbf_category = FbCommand, fbf_region_id = 255,
        fbf_fields = Some walk_bytes\<rparr>),
      f_trigger = (\<lambda>_. [], \<lambda>_. \<lparr>fba_action_id = 12, fba_trigger_seq = 1\<rparr>),
      f_camera = (\<lambda>_. [], \<lambda>_. \<lparr>fbc_brightness = 0, fbc_contrast = 0, fbc_ev = 0, fbc_shutter_us = 0, fbc_control_seq = 1\<rparr>),
      z_keys = (\<lambda>_. True, (=))\<rparr>"

definition demo_setup :: EdgeSetup where
  "demo_setup = \<lparr>su_task_class = ClassD, su_watchdog_threshold_ms = Fin 400, su_robot_id = [],
     su_profile = \<lparr>rp_dof_count = 0, rp_joints = [], rp_regions = [], rp_base_type = Other\<rparr>,
     su_cameras = [], su_sensors = [], su_sensor_frame_policy = Cut, su_lossy_rate_control = False,
     su_sim_map_period = None, su_slice_payload_bytes = 0, su_camera = None, su_zenoh_forward = None,
     su_bench = None, su_bench_send = \<lparr>bs_payload_bytes = 0, bs_rate_hz = Fin 0, bs_duration_s = Fin 0\<rparr>\<rparr>"

definition demo_session :: "unit Session" where
  "demo_session = session_new demo_setup () None inert_command_sink (goal_new 0) None [] 0"

lemma demo_parts [simp]:
  "se_safety demo_session = task_with_watchdog_threshold_ms ClassD (Fin 400) 0"
  "se_autonomy_goal demo_session = goal_new 0" "se_phase demo_session = AwaitingHello" "se_bridge demo_session = []"
  "se_bridge_estop_active demo_session = False" "se_tick_count demo_session = 0" "se_channel_b_seq demo_session = 0"
  by (simp_all add: demo_session_def session_new_def demo_setup_def)


text \<open>The handshake, and the command datagram after it.\<close>

definition described :: "unit Session" where
  "described = demo_session\<lparr>se_phase := AwaitingSessionAccept, se_session_describe_sent := True\<rparr>"

definition operating :: "unit Session" where
  "operating = described\<lparr>se_phase := Operating\<rparr>"

definition walk_datagram :: session_event where
  "walk_datagram = DatagramIn 5000000 0 True [DATAGRAM_TAG_CHANNEL_B]"

lemma demo_hello: "negotiate (local_hello_capabilities ClassD False) (decode_hello (f_hello demo_services) [])
   = Inr \<lparr>ns_version = pv_new 1 0, ns_capability_bitmask = 0, ns_task_classes = 4, ns_quantization_tiers = 2, ns_max_control_rate_hz = 50\<rparr>"
proof -
  have *: "f_hello demo_services = (\<lambda>_. [], \<lambda>_. \<lparr>fbh_protocol_version = 0x0100, fbh_capability_bitmask = 0, fbh_supported_task_classes = 4,
        fbh_supported_quantization_tiers = 2, fbh_max_control_rate_hz = 50, fbh_extensions = None\<rparr>)"
    by (simp add: demo_services_def)
  show ?thesis unfolding * by code_simp
qed

lemma demo_accept: "xi_selected_sensors (decode_session_accept (f_accept demo_services) []) = []"
  by (simp add: demo_services_def decode_session_accept_def or_default_def)

lemma handshake_step:
  "on_stream_data demo_services 0 0 0 [] demo_session = (described, None)"
  "on_stream_data demo_services 0 0 1 [] described = (operating, None)"
proof -
  have s: "se_task_class demo_session = ClassD" "se_forwarder demo_session = None" "se_topics_negotiated demo_session = False"
    "se_selected_sensors demo_session = []" "se_session_describe_sent demo_session = False"
    by (simp_all add: demo_session_def session_new_def demo_setup_def)
  have "send_session_describe demo_services (demo_session\<lparr>se_topics_negotiated := False, se_phase := AwaitingSessionAccept\<rparr>) = (described, None)"
    using s by (simp add: send_session_describe_def described_def demo_services_def)
 
  then show "on_stream_data demo_services 0 0 0 [] demo_session = (described, None)"
    by (simp add: on_stream_data_def on_hello_def s demo_hello)
  show "on_stream_data demo_services 0 0 1 [] described = (operating, None)"
    using s by (simp add: on_stream_data_def on_session_accept_def demo_accept described_def operating_def)
qed

lemma handshake_run: "session_run demo_services demo_session [StreamIn 0 0 0 [], StreamIn 0 0 1 []] operating"
  by (rule run_first [of _ _ _ described], simp add: handshake_step,
      rule run_first [of _ _ _ operating], simp add: handshake_step, rule session_run.start)

lemma walk_carried: "carried demo_services [DATAGRAM_TAG_CHANNEL_B] operating = Some walk_command"
proof -
  have p: "f_frame demo_services = (\<lambda>_. [], \<lambda>_. \<lparr>fbf_timestamp = 0, fbf_seq = 1, fbf_tick_id = 0, fbf_category = FbCommand,
      fbf_region_id = 255, fbf_fields = Some walk_bytes\<rparr>)"
    by (simp add: demo_services_def)
  have "cb_category (decode_channel_b_frame (f_frame demo_services) []) = CatCommand"
    "cb_fields (decode_channel_b_frame (f_frame demo_services) []) = walk_bytes"
    by (simp_all add: p decode_channel_b_frame_def or_default_def)
  moreover have "tc_unpack walk_bytes = Some walk_command" by code_simp
  moreover have "se_phase operating = Operating" "se_bench operating = None"
    by (simp_all add: operating_def described_def demo_session_def session_new_def demo_setup_def)
  ultimately show ?thesis by (simp add: carried_def)
qed

lemma walk_source: "source_at 5000000 (heard 5000000 (se_safety operating)) operating = FullTeleoperation"
proof -
  have *: "se_safety operating = task_with_watchdog_threshold_ms ClassD (Fin 400) 0" "se_autonomy_goal operating = goal_new 0"
    by (simp_all add: operating_def described_def)
  have "snd (task_tick (heard 5000000 (task_with_watchdog_threshold_ms ClassD (Fin 400) 0)) 5000000
      (goal_asserted (goal_new 0) 5000000)) = FullTeleoperation" by code_simp
  then show ?thesis by (simp only: source_at_def *)
qed

lemma walk_ordered: "Move (Fin 5) (Fin 0) 1 \<in> set (in_sequence (se_channel_b_seq operating) (orders demo_services operating walk_datagram))"
proof -
  have "se_channel_b_seq operating = 0" "se_action_settle_until operating = None" "se_sitting operating = False"
    by (simp_all add: operating_def described_def demo_session_def session_new_def)
  moreover have "f32_of_bits (tc_vx walk_command) = Fin 5" "f32_of_bits (tc_vy walk_command) = Fin 0" by code_simp+
  ultimately show ?thesis
    by (simp add: walk_datagram_def walk_carried walk_source dispatch_orders_def drive_orders_def body_orders_def settling_def)
qed

lemma motion_needs_authority_witness:
  "\<exists>s s'. session_run demo_services demo_session [StreamIn 0 0 0 [], StreamIn 0 0 1 []] s
     \<and> session_step demo_services walk_datagram s = Some (s', None) \<and> Move (Fin 5) (Fin 0) 1 \<in> set (new_commands s s')
     \<and> \<not> is_estopped (se_safety s') \<and> wd_threshold_ms (st_watchdog (se_safety s')) = Fin 400"
proof -
  obtain s' where s': "session_step demo_services walk_datagram operating = Some (s', None)" by (simp add: walk_datagram_def)
  have new: "Move (Fin 5) (Fin 0) 1 \<in> set (new_commands operating s')"
    using walk_ordered new_commands_step [OF s'] by simp
  have run: "session_run demo_services (session_new demo_setup () None inert_command_sink (goal_new 0) None [] 0)
    [StreamIn 0 0 0 [], StreamIn 0 0 1 []] operating"
    using handshake_run unfolding demo_session_def .
  have "within_limits (ag_velocity (goal_new 0))" by (simp add: goal_new_def within_limits_def velocity_default_def)
  from motion_needs_authority [OF run this s' new] show ?thesis
    using s' new handshake_run by (auto simp: demo_setup_def)
qed

lemma estop_holds_everywhere_witness:
  "\<exists>s1 s2. session_step demo_services (DatagramIn 0 0 True (estop_encode \<lparr>ed_latched = True, ed_seq = 1\<rparr>)) operating = Some (s1, None)
     \<and> session_run demo_services s1 [walk_datagram] s2 \<and> (\<exists>m. Estop m \<in> set (new_commands s2 (on_tick demo_services 9 0 s2)))"
proof -
  let ?e = "DatagramIn 0 0 True (estop_encode \<lparr>ed_latched = True, ed_seq = 1\<rparr>)"
  obtain s1 where s1: "session_step demo_services ?e operating = Some (s1, None)" by simp
  obtain s2 where "session_step demo_services walk_datagram s1 = Some (s2, None)" by (simp add: walk_datagram_def)
  then have s2: "session_run demo_services s1 [walk_datagram] s2" by (rule run_first) (rule session_run.start)
  have "stops ?e" by code_simp
  moreover have "\<not> clears walk_datagram" by code_simp
  ultimately show ?thesis using estop_holds_everywhere [OF s1 _ s2] s1 s2 by auto
qed

lemma bridge_follows_the_estop_witness:
  "\<exists>s. session_run demo_services demo_session [StreamIn 0 0 0 [], StreamIn 0 0 1 []] s
     \<and> bridge_latched (se_bridge s) = se_bridge_estop_active s"
  using bridge_follows_the_estop [of demo_services demo_setup "()" None inert_command_sink "goal_new 0" None "[]" 0
      "[StreamIn 0 0 0 [], StreamIn 0 0 1 []]" operating] handshake_run
  by (auto simp: demo_session_def)
end
