(* ===== verification/Edge_Invariants.thy ===== *)
theory Edge_Invariants
  imports Edge_Safety
begin

text \<open>What holds of the state of a robot's session all along it: its phases, its negotiation, its safety
  machine and counters; that a seated robot stays down; and that its sending loop ends.\<close>

section \<open>Phases and the well-formed state\<close>

lemma hello_fields:
  "se_phase (fst (on_hello w data s)) = AwaitingSessionAccept \<or> se_phase (fst (on_hello w data s)) = se_phase s"
  "se_forwarder (fst (on_hello w data s)) = se_forwarder s"
  "se_topics_negotiated (fst (on_hello w data s)) \<Longrightarrow> se_topics_negotiated s \<or> se_forwarder s \<noteq> None"
  "se_session_describe_sent (fst (on_hello w data s)) \<Longrightarrow>
     se_session_describe_sent s \<or> se_phase (fst (on_hello w data s)) = AwaitingSessionAccept"
  "se_topics_negotiated (fst (on_hello w data s)) \<Longrightarrow> se_topics_negotiated s \<or> se_phase (fst (on_hello w data s)) = AwaitingSessionAccept"
proof -
  have describe: "se_forwarder (fst (send_session_describe w s)) = se_forwarder s" for s
    by (simp add: send_session_describe_def Let_def case_prod_unfold split: sum.split quic_error.split)
  have bits: "ns_capability_bitmask n AND TOPIC_FORWARDING = 0"
    if "negotiate (local_hello_capabilities c False) p = Inr n" for c p n
    using that by (auto simp: negotiate_def local_hello_capabilities_def split: if_splits)
  note cases = on_hello_def describe
  show "se_phase (fst (on_hello w data s)) = AwaitingSessionAccept \<or> se_phase (fst (on_hello w data s)) = se_phase s"
    "se_forwarder (fst (on_hello w data s)) = se_forwarder s"
    "se_session_describe_sent (fst (on_hello w data s)) \<Longrightarrow>
     se_session_describe_sent s \<or> se_phase (fst (on_hello w data s)) = AwaitingSessionAccept"
    "se_topics_negotiated (fst (on_hello w data s)) \<Longrightarrow>
     se_topics_negotiated s \<or> se_phase (fst (on_hello w data s)) = AwaitingSessionAccept"
    by (auto simp: cases split: sum.splits)
  show "se_topics_negotiated (fst (on_hello w data s)) \<Longrightarrow> se_topics_negotiated s \<or> se_forwarder s \<noteq> None"
    using bits by (cases "se_forwarder s") (auto simp: cases split: sum.splits)
qed

lemma step_stream:
  "session_step w e s = Some (s', err) \<Longrightarrow> e = StreamIn now us stream_id data \<Longrightarrow> s' = fst (on_stream_data w now us stream_id data s)"
  by (cases "on_stream_data w now us stream_id data s") simp

lemma step_phase:
  assumes "session_step w e s = Some (s', err)"
  obtains (same) "se_phase s' = se_phase s"
  | (hello) now us data where "e = StreamIn now us 0 data" "se_phase s = AwaitingHello" "se_phase s' = AwaitingSessionAccept"
  | (accept) now us data where "e = StreamIn now us 1 data" "se_phase s = AwaitingSessionAccept" "se_phase s' = Operating"
proof (cases e)
  case (StreamIn now us stream_id data)
  have s': "s' = fst (on_stream_data w now us stream_id data s)" by (rule step_stream [OF assms StreamIn])
  show ?thesis
    by (cases rule: stream_cases [of w now us stream_id data s])
      (use s' StreamIn hello_fields(1) [of w data s] same hello accept in \<open>auto simp: on_session_accept_def\<close>)
next
  case (BridgeSays ev)
  have "se_phase (on_bridge_event ev s) = se_phase s"
    by (induction ev s rule: on_bridge_event.induct) (simp_all add: Let_def)
  with assms BridgeSays same show ?thesis by auto
qed (use flow_step [OF assms] assms same in \<open>auto simp: flow_only_def\<close>)

text \<open>A turn never changes whether there is a forwarder.\<close>

lemma forwarder_frame [simp]:
  "se_forwarder (on_action_trigger now trigger s) = se_forwarder s"
  "se_forwarder (on_camera_control control s) = se_forwarder s"
  "se_forwarder (greet w s) = se_forwarder s" "se_forwarder (drive now cmd s) = se_forwarder s"
  "se_forwarder (on_bench_raw w now mode data s) = se_forwarder s"
  by (simp_all add: on_action_trigger_def on_camera_control_def greet_def send_hello_def session_tick_eq to_bridge_eq drive_def
      send_body_def on_bench_raw_def send_datagram_def Let_def case_prod_unfold split: sum.split quic_error.split)

lemma forwarder_command_frame [simp]:
  "se_forwarder (on_command_frame w now us room payload fr s) = se_forwarder s"
  by (simp add: on_command_frame_def on_bench_command_def dispatch_teleop_command_def session_tick_eq to_bridge_eq
      send_datagram_def Let_def case_prod_unfold split: option.split ControlSource.split)

lemma step_forwarder:
  assumes "session_step w e s = Some (s', err)"
  shows "(se_forwarder s' = None) = (se_forwarder s = None)"
proof (cases e)
  case (DatagramIn now us room data)
  have "(se_forwarder (on_datagram w now us room data s) = None) = (se_forwarder s = None)"
    by (simp add: on_datagram_def Let_def split: list.split option.split sum.split)
  with assms DatagramIn show ?thesis by auto
next
  case (StreamIn now us stream_id data)
  have s': "s' = fst (on_stream_data w now us stream_id data s)" by (rule step_stream [OF assms StreamIn])
  show ?thesis
    by (cases rule: stream_cases [of w now us stream_id data s])
      (use s' hello_fields(2) [of w data s] in \<open>auto simp: on_session_accept_def\<close>)
next
  case (BridgeSays ev)
  have "se_forwarder (on_bridge_event ev s) = se_forwarder s"
    by (induction ev s rule: on_bridge_event.induct) (simp_all add: Let_def)
  with assms BridgeSays show ?thesis by auto
qed (use flow_step [OF assms] assms in \<open>auto simp: flow_only_def\<close>)

text \<open>What a turn may do to the flags of the handshake and to the counters.\<close>

lemma step_flags:
  assumes "session_step w e s = Some (s', err)"
  shows "se_topics_negotiated s' \<Longrightarrow> se_topics_negotiated s \<or> se_forwarder s \<noteq> None \<and> se_phase s' = AwaitingSessionAccept"
    and "se_session_describe_sent s' \<Longrightarrow> se_session_describe_sent s \<or> se_phase s' = AwaitingSessionAccept"
    and "se_selected_sensors s' = se_selected_sensors s \<or> se_phase s' = Operating"
proof -
  have "(se_topics_negotiated s' \<longrightarrow> se_topics_negotiated s \<or> se_forwarder s \<noteq> None \<and> se_phase s' = AwaitingSessionAccept)
    \<and> (se_session_describe_sent s' \<longrightarrow> se_session_describe_sent s \<or> se_phase s' = AwaitingSessionAccept)
    \<and> (se_selected_sensors s' = se_selected_sensors s \<or> se_phase s' = Operating)"
  proof (cases e)
    case (StreamIn now us stream_id data)
    have s': "s' = fst (on_stream_data w now us stream_id data s)" by (rule step_stream [OF assms StreamIn])
    show ?thesis
      by (cases rule: stream_cases [of w now us stream_id data s])
        (use s' hello_fields(3,4,5) [of w data s] in \<open>auto simp: on_session_accept_def\<close>)
  next
    case (BridgeSays ev)
    have "se_topics_negotiated (on_bridge_event ev s) = se_topics_negotiated s
      \<and> se_session_describe_sent (on_bridge_event ev s) = se_session_describe_sent s
      \<and> se_selected_sensors (on_bridge_event ev s) = se_selected_sensors s"
      by (induction ev s rule: on_bridge_event.induct) (simp_all add: Let_def)
    with assms BridgeSays show ?thesis by auto
  qed (use flow_step [OF assms] assms in \<open>auto simp: flow_only_def\<close>)
  then show "se_topics_negotiated s' \<Longrightarrow> se_topics_negotiated s \<or> se_forwarder s \<noteq> None \<and> se_phase s' = AwaitingSessionAccept"
    and "se_session_describe_sent s' \<Longrightarrow> se_session_describe_sent s \<or> se_phase s' = AwaitingSessionAccept"
    and "se_selected_sensors s' = se_selected_sensors s \<or> se_phase s' = Operating" by blast+
qed

lemma tick_counts [simp]:
  "se_tick_count (on_tick w now us s) = se_tick_count s + 1" "se_estop_seq (on_tick w now us s) = se_estop_seq s + 1"
  by (simp_all add: on_tick_eq tick_head_def session_tick_eq report_estop_def send_datagram_def
      Let_def case_prod_unfold split: sum.split)

lemma step_counts:
  assumes "session_step w e s = Some (s', err)"
  shows "se_tick_count s' = se_tick_count s + (case e of Tick _ _ \<Rightarrow> 1 | _ \<Rightarrow> 0)
    \<and> se_estop_seq s' = se_estop_seq s + (case e of Tick _ _ \<Rightarrow> 1 | _ \<Rightarrow> 0)
    \<and> se_bench s' = se_bench s \<and> (se_bench_send s' = None) = (se_bench_send s = None)"
proof (cases e)
  case (StreamIn now us stream_id data)
  have s': "s' = fst (on_stream_data w now us stream_id data s)" by (rule step_stream [OF assms StreamIn])
  show ?thesis using stream_frame [of w now us stream_id data s] by (simp add: s' StreamIn)
next
  case (BridgeSays ev)
  have "se_tick_count (on_bridge_event ev s) = se_tick_count s \<and> se_estop_seq (on_bridge_event ev s) = se_estop_seq s
    \<and> se_bench (on_bridge_event ev s) = se_bench s \<and> se_bench_send (on_bridge_event ev s) = se_bench_send s"
    by (induction ev s rule: on_bridge_event.induct) (simp_all add: Let_def)
  with assms BridgeSays show ?thesis by auto
qed (use flow_step [OF assms] assms in \<open>auto simp: flow_only_def\<close>)

text \<open>No event of the session gives the safety machine a latency sample or a reset.\<close>

fun plain :: "task_event \<Rightarrow> bool" where
  "plain (Activity r now) = (r = None)"
| "plain ResetRequest = False"
| "plain _ = True"

lemma plain_machine: "\<forall>e \<in> set evs. plain e \<Longrightarrow> st_machine (task_run t evs) = st_machine t"
proof (induction evs arbitrary: t)
  case (Cons e evs)
  then show ?case by (cases e) (simp_all add: task_defs Let_def)
qed simp

lemma session_plain: "e' \<in> set (safety_events w s e) \<Longrightarrow> plain e'"
  by (cases "(w, s, e)" rule: safety_events.cases)
    (auto simp: heard_events_def estop_events_def poll_def split: list.splits if_splits option.splits SupervisorEvent.splits)

lemma held_run:
  "st_deadman_held (task_run t evs) = (st_deadman_held t \<or> CommandSeen \<in> set evs)"
  "st_command_fresh (task_run t evs) = (st_command_fresh t \<or> CommandSeen \<in> set evs)"
proof (induction evs arbitrary: t)
  case (Cons e evs)
  { case 1 show ?case using Cons(1) by (cases e) (auto simp: task_defs Let_def split: option.split) }
  { case 2 show ?case using Cons(2) by (cases e) (auto simp: task_defs Let_def split: option.split) }
qed simp_all

lemma seen_operating: "CommandSeen \<in> set (safety_events w s e) \<Longrightarrow> se_phase s = Operating"
  by (cases "(w, s, e)" rule: safety_events.cases)
    (auto simp: heard_events_def estop_events_def poll_def split: list.splits if_splits option.splits SupervisorEvent.splits)

text \<open>The state of a session set up with \<open>su\<close> at \<open>t0\<close>.\<close>

definition session_ok :: "EdgeSetup \<Rightarrow> instant \<Rightarrow> 'c Session \<Rightarrow> bool" where
  "session_ok su t0 s \<longleftrightarrow>
     st_machine (se_safety s) = sm_new (su_task_class su) t0
     \<and> st_deadman_held (se_safety s) = st_command_fresh (se_safety s)
     \<and> (st_deadman_held (se_safety s) \<longrightarrow> se_phase s = Operating)
     \<and> (se_selected_sensors s \<noteq> [] \<longrightarrow> se_phase s = Operating)
     \<and> (se_topics_negotiated s \<longrightarrow> se_forwarder s \<noteq> None \<and> se_phase s \<noteq> AwaitingHello)
     \<and> (se_session_describe_sent s \<longrightarrow> se_phase s \<noteq> AwaitingHello)
     \<and> se_estop_seq s = se_tick_count s
     \<and> se_bench s = su_bench su \<and> (se_bench_send s \<noteq> None \<longleftrightarrow> su_bench su = Some BenchSend)"

lemma session_ok_new:
  "session_ok su t0 (session_new su conn telemetry command goal forwarder recorder t0)"
  by (simp add: session_ok_def session_new_def task_defs)

lemma session_ok_step:
  assumes step: "session_step w e s = Some (s', err)" and ok: "session_ok su t0 s"
  shows "session_ok su t0 s'"
proof -
  have safety: "st_machine (se_safety s') = st_machine (se_safety s)"
    "st_deadman_held (se_safety s') = (st_deadman_held (se_safety s) \<or> CommandSeen \<in> set (safety_events w s e))"
    "st_command_fresh (se_safety s') = (st_command_fresh (se_safety s) \<or> CommandSeen \<in> set (safety_events w s e))"
    unfolding step_safety [OF step] using plain_machine session_plain held_run by blast+
  have forward: "se_phase s = Operating \<Longrightarrow> se_phase s' = Operating" "se_phase s \<noteq> AwaitingHello \<Longrightarrow> se_phase s' \<noteq> AwaitingHello"
    by (cases rule: step_phase [OF step]; simp)+
  from ok safety forward seen_operating [of w s e] step_flags [OF step] step_forwarder [OF step] step_counts [OF step]
  show ?thesis unfolding session_ok_def by (metis Phase.distinct(1,3,5))
qed

text \<open>C11: The state of a session is always well formed.  Whatever arrives in whatever order, in every
  reachable state: the safety machine is still the one the session began with (no event feeds it a latency
  sample or a reset); the dead-man and the freshness flag agree and are set only while operating; sensors
  are selected only by an acceptance, and topics are forwarded only if this robot offered to; the sequence
  number of the E-Stop reports is the number of ticks; and the benchmark mode is the configured one.\<close>

theorem session_well_formed:
  assumes "session_run w (session_new su conn telemetry command goal forwarder recorder t0) es s"
  shows "session_ok su t0 s"
  using assms
proof induction
  case start
  show ?case by (rule session_ok_new)
next
  case (turn es s e s')
  then show ?case using session_ok_step by blast
qed

lemma session_well_formed_witness:
  "session_run demo_services demo_session [StreamIn 0 0 0 [], StreamIn 0 0 1 []] operating
   \<and> session_ok demo_setup 0 operating \<and> se_phase operating = Operating"
  using session_well_formed [of demo_services demo_setup "()" None inert_command_sink "goal_new 0" None "[]" 0
      "[StreamIn 0 0 0 [], StreamIn 0 0 1 []]" operating] handshake_run
  by (simp add: demo_session_def operating_def)

section \<open>The sending loop ends\<close>

text \<open>What waits in the lossy queue: chunks of video and slices of sensor frames.\<close>

definition sensor_waiting :: "SensorQueue \<Rightarrow> nat" where
  "sensor_waiting sq = length (sq_current sq) + (case sq_waiting sq of None \<Rightarrow> 0 | Some w \<Rightarrow> length w)"

definition lq_waiting :: "LossyQueue \<Rightarrow> nat" where
  "lq_waiting q = sum_list (List.map (\<lambda>p. length (qn_chunks p)) (lq_video q))
     + sum_list (List.map (\<lambda>(i, sq). sensor_waiting sq) (lq_sensors q))"

lemma sum_sorted_insert:
  "sorted_keys m \<Longrightarrow> map_of m k = Some v \<Longrightarrow>
     sum_list (List.map (\<lambda>(i, x). g x) (sorted_insert k v' m)) + g v = sum_list (List.map (\<lambda>(i, x). g x) m) + (g v' :: nat)"
  by (induction k v' m rule: sorted_insert.induct) (auto split: if_splits dest!: map_of_SomeD)

lemma pop_video_waiting:
  "lq_waiting (fst (pop_video q)) + (if snd (pop_video q) = None then 0 else 1) = lq_waiting q"
  by (auto simp: pop_video_def lq_waiting_def split: list.splits)

lemma sensor_dequeue_waiting:
  "sensor_waiting (fst (sensor_dequeue sq)) + (if snd (sensor_dequeue sq) = None then 0 else 1) = sensor_waiting sq"
  by (auto simp: sensor_dequeue_def sensor_waiting_def Let_def split: list.splits option.splits)

lemma pop_sensor_waiting:
  assumes "sorted_keys (lq_sensors q)"
  shows "lq_waiting (fst (pop_sensor q)) + (if snd (pop_sensor q) = None then 0 else 1) = lq_waiting q
    \<and> sorted_keys (lq_sensors (fst (pop_sensor q)))"
proof (cases "\<exists>i sq. next_sensor q = Some i \<and> map_of (lq_sensors q) i = Some sq")
  case True
  then obtain i sq where i: "next_sensor q = Some i" "map_of (lq_sensors q) i = Some sq" by blast
  then have pop: "pop_sensor q = (q\<lparr>lq_last_sensor := Some i, lq_sensors := sorted_insert i (fst (sensor_dequeue sq)) (lq_sensors q)\<rparr>,
      snd (sensor_dequeue sq))"
    by (simp add: pop_sensor_def Let_def split_def)
  show ?thesis using sum_sorted_insert [OF assms i(2), of sensor_waiting "fst (sensor_dequeue sq)"]
      sensor_dequeue_waiting [of sq] assms
    by (simp add: pop lq_waiting_def split: if_splits)
next
  case False
  then show ?thesis using assms by (auto simp: pop_sensor_def lq_waiting_def split: option.splits)
qed

lemma expire_waiting: "lq_waiting (expire_stale_video q now) \<le> lq_waiting q" "lq_sensors (expire_stale_video q now) = lq_sensors q"
  by (cases q now rule: expire_cases; auto simp: lq_waiting_def intro: sum_list_filter_le_nat)+

lemma lq_pop_waiting:
  assumes "sorted_keys (lq_sensors q)"
  shows "lq_waiting (fst (lq_pop q now)) + (if snd (lq_pop q now) = None then 0 else 1) \<le> lq_waiting q
    \<and> sorted_keys (lq_sensors (fst (lq_pop q now)))"
proof -
  define e where "e = expire_stale_video q now\<lparr>lq_video_turn := \<not> lq_video_turn (expire_stale_video q now)\<rparr>"
  have e: "lq_waiting e \<le> lq_waiting q" "sorted_keys (lq_sensors e)"
    using expire_waiting [of q now] assms by (simp_all add: e_def lq_waiting_def)
  have v: "lq_sensors (fst (pop_video x)) = lq_sensors x" for x by (rule pop_video_cong(4))
  have pop: "lq_pop q now = (if lq_video_turn (expire_stale_video q now) then or_else pop_video pop_sensor e else or_else pop_sensor pop_video e)"
    by (simp add: lq_pop_def Let_def e_def)
  note [simp] = or_else_simps
  show ?thesis
    using pop_video_waiting [of e] pop_video_waiting [of "fst (pop_sensor e)"] pop_sensor_waiting [OF e(2)]
      pop_sensor_waiting [of "fst (pop_video e)"] e v [of e] v [of "fst (pop_sensor e)"]
    by (auto simp: pop split: if_splits)
qed

section \<open>The queues of a session\<close>

definition queues_ok :: "'c Session \<Rightarrow> bool" where
  "queues_ok s \<longleftrightarrow> sorted_keys (lq_sensors (se_lossy s)) \<and> (\<exists>ws. latest_rel (tl_outbox (se_topics s)) ws)"

definition waiting :: "'c Session \<Rightarrow> nat" where
  "waiting s = lq_waiting (se_lossy s) + length (ob_order (tl_outbox (se_topics s)))"

lemma wait_pop_shorter:
  "length (fst (wait_pop n ws)) + (if snd (wait_pop n ws) = None then 0 else 1) \<le> length ws"
  by (induction n ws rule: wait_pop.induct) auto

lemma link_pop_latest:
  assumes "latest_rel (tl_outbox l) ws"
  shows "\<exists>l' d ws'. link_pop_datagram l now n = Some (l', d) \<and> latest_rel (tl_outbox l') ws'
    \<and> length ws' + (if d = None then 0 else 1) \<le> length ws"
proof (cases "has_datagram (tl_outbox l)")
  case False
  then show ?thesis using assms by (auto simp: link_pop_datagram_def)
next
  case True
  obtain l0 a where l0: "link_available l now = (l0, a)" by fastforce
  then have out: "tl_outbox l0 = tl_outbox l" by (rule link_available_eqs(1))
  have order: "ob_order (tl_outbox l) = List.map ts_key ws" using assms by (simp add: latest_rel_def)
  obtain ob where ob: "pop_datagram (tl_outbox l0) n = Some (ob, map_option topic_datagram (snd (wait_pop n ws)))"
    "latest_rel ob (fst (wait_pop n ws))"
    using latest_rel_pop [OF assms, of n] order out by (auto simp: pop_datagram_def)
  show ?thesis
  proof (cases "case a of None \<Rightarrow> False | Some m \<Rightarrow> m < n")
    case True
    then show ?thesis using \<open>has_datagram _\<close> l0 assms out
      by (intro exI [of _ l0] exI [of _ None] exI [of _ ws]) (simp add: link_pop_datagram_def)
  next
    case False
    then show ?thesis using True l0 ob wait_pop_shorter [of n ws]
      by (intro exI [of _ "case snd (wait_pop n ws) of None \<Rightarrow> l0\<lparr>tl_outbox := ob\<rparr>
            | Some x \<Rightarrow> link_consume (l0\<lparr>tl_outbox := ob\<rparr>) (length (topic_datagram x))"]
          exI [of _ "map_option topic_datagram (snd (wait_pop n ws))"] exI [of _ "fst (wait_pop n ws)"])
        (auto simp: link_pop_datagram_def link_consume_def split: option.split)
  qed
qed

lemma pop_topic_waiting:
  assumes "queues_ok s"
  shows "\<exists>s' d. pop_topic now n s = Some (s', d) \<and> queues_ok s' \<and> waiting s' + (if d = None then 0 else 1) \<le> waiting s
    \<and> se_conn s' = se_conn s \<and> se_lossy s' = se_lossy s"
proof -
  obtain ws where ws: "latest_rel (tl_outbox (se_topics s)) ws" and lq: "sorted_keys (lq_sensors (se_lossy s))"
    using assms by (auto simp: queues_ok_def)
  from link_pop_latest [OF ws, of now n] obtain l d ws' where
    pop: "link_pop_datagram (se_topics s) now n = Some (l, d)" "latest_rel (tl_outbox l) ws'"
      "length ws' + (if d = None then 0 else 1) \<le> length ws" by blast
  have "length (ob_order (tl_outbox l)) = length ws'" "length (ob_order (tl_outbox (se_topics s))) = length ws"
    using ws pop(2) by (simp_all add: latest_rel_def)
  then show ?thesis using pop lq by (auto simp: pop_topic_def queues_ok_def waiting_def)
qed

lemma queues_cong:
  "se_lossy t = se_lossy s \<Longrightarrow> se_topics t = se_topics s \<Longrightarrow> queues_ok t = queues_ok s \<and> waiting t = waiting s"
  by (simp add: queues_ok_def waiting_def)

lemma next_lossy_waiting:
  assumes "queues_ok s"
  shows "\<exists>s' d. next_lossy now n s = Some (s', d) \<and> queues_ok s' \<and> waiting s' + (if d = None then 0 else 1) \<le> waiting s"
proof -
  obtain s1 d1 where first: "(if se_topic_turn s then pop_topic now n s else Some (s, None)) = Some (s1, d1)"
    "queues_ok s1" "waiting s1 + (if d1 = None then 0 else 1) \<le> waiting s"
    using pop_topic_waiting [OF assms, of now n] assms by (cases "se_topic_turn s") auto
  show ?thesis
  proof (cases d1)
    case (Some d)
    then show ?thesis using first by (simp add: next_lossy_def)
  next
    case None
    obtain lossy d2 where pop: "lq_pop (se_lossy s1) now = (lossy, d2)" by fastforce
    let ?s2 = "s1\<lparr>se_lossy := lossy\<rparr>"
    have s2: "queues_ok ?s2" "waiting ?s2 + (if d2 = None then 0 else 1) \<le> waiting s1"
      using first(2) lq_pop_waiting [of "se_lossy s1" now] by (auto simp: queues_ok_def waiting_def pop)
    show ?thesis
    proof (cases d2)
      case (Some d)
      then show ?thesis using first None pop s2 by (simp add: next_lossy_def)
    next
      case d2: None
      then have "next_lossy now n s = pop_topic now n ?s2" using first None pop by (simp add: next_lossy_def)
      then show ?thesis using pop_topic_waiting [OF s2(1), of now n] s2(2) first(3) None d2 by fastforce
    qed
  qed
qed

text \<open>Why the loop stopped: quiche's queue is full, the cap has no room for another datagram, or nothing
  that fits is left.\<close>

definition feed_stopped :: "'c services \<Rightarrow> instant \<Rightarrow> 'c Session \<Rightarrow> bool" where
  "feed_stopped w now s \<longleftrightarrow> QUICHE_LOSSY_LIMIT \<le> q_dgram_send_queue_len w (se_conn s)
     \<or> (\<exists>t. lossy_room now t = (s, False)) \<or> (\<exists>t n. next_lossy now n t = Some (s, None))"

lemma feed_lossy_ends:
  assumes "queues_ok s"
  shows "\<exists>s'. feed_lossy w now s = Some s' \<and> queues_ok s' \<and> waiting s' \<le> waiting s \<and> feed_stopped w now s'"
  using assms
proof (induction "waiting s" arbitrary: s rule: less_induct)
  case less
  obtain s1 room where room: "lossy_room now s = (s1, room)" by fastforce
  have same: "se_lossy s1 = se_lossy s" "se_topics s1 = se_topics s"
    using room by (auto simp: lossy_room_def Let_def split: option.splits prod.splits)
  note s1 = queues_cong [OF same]
  show ?case
  proof (cases "QUICHE_LOSSY_LIMIT \<le> q_dgram_send_queue_len w (se_conn s)")
    case True
    then show ?thesis using less.prems by (subst feed_lossy.simps) (simp add: feed_stopped_def)
  next
    case open_queue: False
    show ?thesis
    proof (cases room)
      case False
      then have "feed_lossy w now s = Some s1" using open_queue room by (subst feed_lossy.simps) simp
      moreover have "feed_stopped w now s1" using room False by (auto simp: feed_stopped_def)
      ultimately show ?thesis using less.prems s1 by auto
    next
      case True
      define n where "n = (case q_dgram_max_writable_len w (se_conn s1) of None \<Rightarrow> 0 | Some n \<Rightarrow> n)"
      obtain s2 d where nxt: "next_lossy now n s1 = Some (s2, d)" "queues_ok s2"
        "waiting s2 + (if d = None then 0 else 1) \<le> waiting s1"
        using next_lossy_waiting [of s1 now n] less.prems s1 by blast
      have feed: "feed_lossy w now s = (case d of None \<Rightarrow> Some s2
          | Some d \<Rightarrow> feed_lossy w now (send_datagram w d (charge (length d) (s2\<lparr>se_topic_turn := \<not> se_topic_turn s1\<rparr>))))"
        using open_queue room True nxt(1)
        by (subst feed_lossy.simps) (simp add: Let_def n_def [symmetric])
      show ?thesis
      proof (cases d)
        case None
        then have "feed_stopped w now s2" using nxt(1) unfolding feed_stopped_def by blast
        then show ?thesis using None feed nxt s1 by auto
      next
        case (Some b)
        let ?s3 = "send_datagram w b (charge (length b) (s2\<lparr>se_topic_turn := \<not> se_topic_turn s1\<rparr>))"
        have s3: "queues_ok ?s3 = queues_ok s2 \<and> waiting ?s3 = waiting s2"
          by (rule queues_cong) (simp_all add: send_datagram_def charge_def)
        have "waiting ?s3 < waiting s" using s3 nxt(3) Some s1 by simp
        from less.hyps [OF this] s3 nxt(2) show ?thesis using Some feed \<open>waiting ?s3 < waiting s\<close> by fastforce
      qed
    qed
  qed
qed

section \<open>The queues stay in order\<close>

text \<open>The reliable lanes never touch the latest samples.\<close>

lemma lane_loop_latest:
  "lane_loop send prio lane sid c l left written = Some (c', l', n) \<Longrightarrow> latest_rel (tl_outbox l) ws \<Longrightarrow> latest_rel (tl_outbox l') ws"
proof (induction send prio lane sid c l left written rule: lane_loop.induct)
  case (1 send prio lane sid conn l left written)
  let ?p = "reliable_pending (tl_outbox l) lane"
  have keep: "latest_rel (consume_reliable ob lane k) ws = latest_rel ob ws" for ob k
    by (simp add: latest_rel_def consume_reliable_def Let_def split: prod.split)
  show ?case
  proof (cases "left = 0 \<or> ?p = []")
    case True
    then show ?thesis using "1.prems" by (subst (asm) lane_loop.simps) (auto simp: Let_def)
  next
    case False
    obtain c1 r where send: "send conn sid (take (min (min (length ?p) LINK_CHUNK) left) ?p) False = (c1, r)" by fastforce
    show ?thesis
    proof (cases r)
      case (Inl e)
      then show ?thesis using "1.prems" False send keep
        by (subst (asm) lane_loop.simps, cases e) (auto simp: Let_def)
    next
      case (Inr k)
      define pr where "pr = (0 < k \<and> \<not> tl_priority_set l lane)"
      define c2 where "c2 = (if pr then prio c1 sid (lane_urgency lane) False else c1)"
      define l1 where "l1 = (if pr then l\<lparr>tl_priority_set := (tl_priority_set l)(lane := True)\<rparr> else l)"
      define l2 where "l2 = l1\<lparr>tl_outbox := consume_reliable (tl_outbox l1) lane k\<rparr>"
      have "lane_loop send prio lane sid conn l left written \<noteq> None" using "1.prems" by simp
      then have le: "\<not> left < k"
        using False send Inr by (subst (asm) lane_loop.simps) (auto simp: Let_def split: if_splits)
      have loop: "lane_loop send prio lane sid conn l left written =
          (if k < min (min (length ?p) LINK_CHUNK) left then Some (c2, l2, written + k)
           else lane_loop send prio lane sid c2 l2 (left - k) (written + k))"
        by (rule lane_loop_took [where p = pr and ?l1.0 = l1 and ?c1.0 = c1])
          (use False send Inr le in \<open>simp_all add: pr_def l1_def l2_def c2_def\<close>)
      have l2: "latest_rel (tl_outbox l2) ws" using "1.prems"(2) keep by (simp add: l2_def l1_def)
      have pair: "(c2, l1) = (if 0 < k \<and> \<not> tl_priority_set l lane
          then (prio c1 sid (lane_urgency lane) False, l\<lparr>tl_priority_set := (tl_priority_set l)(lane := True)\<rparr>)
          else (c1, l))"
        by (simp add: c2_def l1_def pr_def)
      show ?thesis
      proof (cases "k < min (min (length ?p) LINK_CHUNK) left")
        case True
        then show ?thesis using loop l2 "1.prems" by simp
      next
        case nl: False
        have "lane_loop send prio lane sid c2 l2 (left - k) (written + k) = Some (c', l', n)"
          using "1.prems"(1) unfolding loop if_not_P [OF nl] .
        then show ?thesis
          by (rule "1.IH" [OF refl False refl send [symmetric] Inr refl pair l2_def le nl _ l2])
      qed
    qed
  qed
qed

lemma pump_lane_latest:
  "pump_lane send prio alloc lane c b l left = Some (c', b', l', n) \<Longrightarrow> latest_rel (tl_outbox l) ws \<Longrightarrow> latest_rel (tl_outbox l') ws"
  by (auto simp: pump_lane_def split: if_splits option.splits prod.splits dest!: lane_loop_latest)

lemma pump_reliable_latest:
  assumes "pump_reliable send prio alloc c b l now budget = Some (c', b', l', n)" and "latest_rel (tl_outbox l) ws"
  shows "latest_rel (tl_outbox l') ws"
proof -
  obtain l0 a where av: "link_available l now = (l0, a)" by fastforce
  have l0: "latest_rel (tl_outbox l0) ws" using assms(2) link_available_eqs(1) [OF av] by simp
  show ?thesis using assms l0
    by (auto simp: pump_reliable_def av bind_eq_Some_conv link_consume_def Let_def
        split: if_splits dest!: pump_lane_latest [where ws = ws])
qed

lemma pump_topics_ok: "pump_topics w now s = Some s' \<Longrightarrow> queues_ok s \<Longrightarrow> queues_ok s'"
  by (auto simp: pump_topics_def lossy_budget_def queues_ok_def charge_def Let_def split: option.splits prod.splits
      dest!: pump_reliable_latest)

lemma pump_bulk_ok: "pump_bulk w now s = Some s' \<Longrightarrow> queues_ok s' = queues_ok s"
  by (auto simp: pump_bulk_def lossy_budget_def queues_ok_def charge_def Let_def split: option.splits prod.splits if_splits)

lemma top_up_ok:
  assumes "top_up w now s = Some s'" and "queues_ok s"
  shows "queues_ok s'"
proof -
  obtain s1 s2 where s: "feed_lossy w now s = Some s1" "pump_topics w now s1 = Some s2" "pump_bulk w now s2 = Some s'"
    using assms(1) by (auto simp: top_up_def bind_eq_Some_conv)
  have "queues_ok s1" using feed_lossy_ends [OF assms(2), of w now] s(1) by auto
  then show ?thesis using pump_topics_ok s(2) pump_bulk_ok [OF s(3)] by blast
qed

lemma push_lossy_sorted [simp]:
  "lq_sensors (push_video_nal q nal_id nal now) = lq_sensors q"
  "sorted_keys (lq_sensors q) \<Longrightarrow> sorted_keys (lq_sensors (push_sensor_frame q i ds))"
  by (simp_all add: push_video_nal_def push_sensor_frame_def count_dropped_def Let_def case_prod_unfold)

lemma sensor_frames_ok:
  "queues_ok s \<Longrightarrow> queues_ok (foldl (\<lambda>s fr. send_sensor_frame m fr s) s frs)"
proof (induction frs arbitrary: s)
  case (Cons fr frs)
  have "queues_ok (send_sensor_frame m fr s)"
    using Cons.prems by (auto simp: queues_ok_def send_sensor_frame_def split: option.split sum.split)
  with Cons.IH show ?case by simp
qed simp

lemma push_outbox_ok: "latest_rel ob ws \<Longrightarrow> \<exists>ws'. latest_rel (outbox_push ob mode x) ws'"
proof (cases mode)
  case Latest
  then show "latest_rel ob ws \<Longrightarrow> ?thesis" using latest_rel_push by (auto simp: outbox_push_def)
next
  case Reliable
  assume "latest_rel ob ws"
  then have "latest_rel (push_reliable ob x) ws" by simp
  then show ?thesis using Reliable by (auto simp: outbox_push_def)
qed

lemma push_links_ok:
  "latest_rel (tl_outbox l) ws \<Longrightarrow> \<exists>ws'. latest_rel (tl_outbox (foldl (\<lambda>l out. link_push l (ls_mode out) (ls_sample out)) l outs)) ws'"
proof (induction outs arbitrary: l ws)
  case (Cons x outs)
  obtain ws' where "latest_rel (tl_outbox (link_push l (ls_mode x) (ls_sample x))) ws'"
    using push_outbox_ok [OF Cons.prems] by (auto simp: link_push_def)
  from Cons.IH [OF this] show ?case by simp
qed auto

lemma bench_loop_ok: "queues_ok s \<Longrightarrow> queues_ok (snd (bench_send_loop w us clock m n st s))"
proof (induction n arbitrary: st s)
  case (Suc n)
  then show ?case
    by (cases m) (simp_all add: Let_def case_prod_unfold queues_ok_def split: sum.split)
qed simp

text \<open>Handlers that leave the queues alone.\<close>

definition queues :: "'c Session \<Rightarrow> LossyQueue \<times> TopicLink" where
  "queues s = (se_lossy s, se_topics s)"

lemma queues_okI: "queues s' = queues s \<Longrightarrow> queues_ok s \<Longrightarrow> queues_ok s'"
  using queues_cong [of s' s] by (simp add: queues_def)

lemma handlers_keep_queues [simp]:
  "queues (on_action_trigger now trigger s) = queues s" "queues (on_camera_control control s) = queues s"
  "queues (greet w s) = queues s" "queues (drive now cmd s) = queues s" "queues (on_bench_raw w now mode data s) = queues s"
  "queues (record_it c us b p s) = queues s" "queues (on_session_accept w data s) = queues s"
  "queues (fst (on_hello w data s)) = queues s"
  by (simp_all add: queues_def on_action_trigger_def on_camera_control_def greet_def send_hello_def session_tick_eq to_bridge_eq
      drive_def send_body_def on_bench_raw_def send_datagram_def record_it_def on_session_accept_def on_hello_def
      send_session_describe_def Let_def case_prod_unfold split: sum.split quic_error.split)

lemma command_frame_queues [simp]:
  "queues (on_command_frame w now us room payload fr s) = queues s"
  by (simp add: queues_def on_command_frame_def on_bench_command_def dispatch_teleop_command_def session_tick_eq to_bridge_eq
      send_datagram_def record_it_def drive_def send_body_def Let_def case_prod_unfold split: option.split ControlSource.split)

lemma tick_queues [simp]:
  fixes s :: "'c Session"
  shows "queues (on_tick w now us s) = queues s"
proof -
  have report: "queues (report_estop w l s) = queues s" for l s
    by (simp add: queues_def report_estop_def send_datagram_def Let_def case_prod_unfold split: sum.split)
  have rate: "queues (update_rate w now s) = queues s" for s
    by (simp add: queues_def update_rate_def split: option.split prod.split)
  have "queues (tick_head w now s) = queues (update_rate w now (s\<lparr>se_tick_count := se_tick_count s + 1\<rparr>))"
    by (simp add: tick_head_def session_tick_eq report Let_def) (simp add: queues_def)
  then have "queues (tick_head w now s) = queues s" unfolding rate by (simp add: queues_def)
  moreover have "queues (tick_tail now src s) = queues s" for src and s :: "'c Session"
    by (simp add: queues_def tick_tail_def follow_autonomy_def relay_estop_def to_bridge_eq Let_def)
  moreover have "queues (send_telemetry w us src s) = queues s" for src s
    by (simp add: queues_def send_telemetry_def next_seq_def record_it_def send_datagram_def Let_def)
  ultimately show ?thesis by (simp add: on_tick_eq Let_def)
qed

lemma datagram_queues [simp]: "queues (on_datagram w now us room data s) = queues s"
  by (simp add: on_datagram_def Let_def split: list.split option.split sum.split) (simp add: queues_def)

lemma step_queues:
  assumes "session_step w e s = Some (s', err)" and "queues_ok s"
  shows "queues_ok s'"
proof (cases e)
  case (StreamIn now us stream_id data)
  have s': "s' = fst (on_stream_data w now us stream_id data s)" by (rule step_stream [OF assms(1) StreamIn])
  have "queues s' = queues s"
    by (cases rule: stream_cases [of w now us stream_id data s]) (simp_all add: s', simp add: queues_def)
  then show ?thesis using assms(2) by (rule queues_okI)
next
  case (Tick now us)
  then show ?thesis using assms(1) by (intro queues_okI [OF _ assms(2)]) auto
next
  case (DatagramIn now us room data)
  then show ?thesis using assms(1) by (intro queues_okI [OF _ assms(2)]) auto
next
  case Greeting
  then show ?thesis using assms(1) by (intro queues_okI [OF _ assms(2)]) auto
next
  case (BridgeSays ev)
  have "queues (on_bridge_event ev s) = queues s"
    by (induction ev s rule: on_bridge_event.induct) (simp_all add: Let_def queues_def)
  with assms BridgeSays queues_okI show ?thesis by auto
next
  case (TopicStreamIn stream_id data fin)
  then have "tl_outbox (se_topics s') = tl_outbox (se_topics s)" "se_lossy s' = se_lossy s"
    using assms(1) by (auto simp: on_topic_stream_def link_on_stream_data_def Let_def case_prod_unfold split: if_splits)
  with assms(2) show ?thesis by (simp add: queues_ok_def)
next
  case (SensorFramesIn frs)
  with assms sensor_frames_ok [OF assms(2)] show ?thesis
    by (auto simp: on_sensor_frames_def send_sensor_frames_def split: option.splits if_splits)
next
  case SamplesIn
  with assms push_links_ok show ?thesis
    by (auto simp: on_forward_def queues_ok_def Let_def split: option.splits if_splits)
next
  case (TopUp now)
  with assms top_up_ok show ?thesis by auto
next
  case (BenchDue now us clock)
  with assms bench_loop_ok [OF assms(2)] show ?thesis
    by (auto simp: bench_send_step_def queues_ok_def Let_def case_prod_unfold split: if_splits option.splits)
qed (use assms in
    \<open>auto simp: on_topic_reset_def link_on_stream_reset_def on_video_nal_def publish_sim_map_def queues_ok_def queues_def
      Let_def case_prod_unfold split: option.splits if_splits\<close>)



section \<open>A seated robot stays down\<close>

fun walks :: "BridgeCommand \<Rightarrow> bool" where
  "walks (Move vx vy m) = True"
| "walks (Turn r m) = True"
| "walks (Attitude axis v m) = True"
| "walks _ = False"

text \<open>Events that do not make it stand: no STAND trigger, no command but idle ones, no autonomy goal.\<close>

fun gentle :: "'c services \<Rightarrow> AutonomyGoal \<Rightarrow> session_event \<Rightarrow> bool" where
  "gentle w g (Tick now us) = (\<not> goal_asserted g now)"
| "gentle w g (DatagramIn now us room data) =
     (case data of
        [] \<Rightarrow> True
      | t # payload \<Rightarrow>
          case tc_unpack (cb_fields (decode_channel_b_frame (f_frame w) payload)) of None \<Rightarrow> True | Some cmd \<Rightarrow> teleop_idle cmd)"
| "gentle w g (StreamIn now us stream_id data) =
     (stream_id \<noteq> ACTION_TRIGGER_STREAM_ID \<or> at_action_id (decode_action_trigger (f_trigger w) data) \<noteq> STAND_ACTION_ID)"
| "gentle w g (GoalSeen now payload) = False"
| "gentle w g _ = True"

lemma drive_sitting: "teleop_idle cmd \<Longrightarrow> se_sitting (drive now cmd s) = se_sitting s"
  by (simp add: drive_def send_body_def to_bridge_eq Let_def)

lemma dispatch_sitting:
  "teleop_idle cmd \<Longrightarrow> se_sitting (fst (dispatch_teleop_command now room cmd s)) = se_sitting s"
  by (simp add: dispatch_teleop_command_def session_tick_eq to_bridge_eq drive_sitting Let_def split: ControlSource.split)

lemma command_frame_sitting:
  assumes "case tc_unpack (cb_fields fr) of None \<Rightarrow> True | Some cmd \<Rightarrow> teleop_idle cmd"
  shows "se_sitting (on_command_frame w now us room payload fr s) = se_sitting s"
  using assms
  by (simp add: on_command_frame_def on_bench_command_def send_datagram_def dispatch_sitting Let_def case_prod_unfold
      split: option.splits)

lemma datagram_sitting:
  "gentle w g (DatagramIn now us room data) \<Longrightarrow> se_sitting (on_datagram w now us room data s) = se_sitting s"
  by (auto simp: on_datagram_def command_frame_sitting Let_def split: list.splits option.split sum.split)

lemma sitting_step:
  assumes "session_step w e s = Some (s', err)" and "gentle w (se_autonomy_goal s) e" and "se_sitting s"
  shows "se_sitting s'"
proof (cases e)
  case (DatagramIn now us room data)
  then show ?thesis using assms datagram_sitting [of w "se_autonomy_goal s" now us room data s] by auto
next
  case (StreamIn now us stream_id data)
  have s': "s' = fst (on_stream_data w now us stream_id data s)" by (rule step_stream [OF assms(1) StreamIn])
  have trigger: "se_sitting (on_action_trigger now x t)" if "at_action_id x \<noteq> STAND_ACTION_ID" "se_sitting t" for x t
    using that by (auto simp: on_action_trigger_def session_tick_eq to_bridge_eq Let_def case_prod_unfold)
  show ?thesis
    by (cases rule: stream_cases [of w now us stream_id data s])
      (use s' StreamIn assms(2,3) in \<open>simp_all add: trigger\<close>)
next
  case (BridgeSays ev)
  have "se_sitting (on_bridge_event ev s) = se_sitting s"
    by (induction ev s rule: on_bridge_event.induct) (simp_all add: Let_def)
  with assms BridgeSays show ?thesis by auto
qed (use flow_step [OF assms(1)] assms in \<open>auto simp: flow_only_def\<close>)

lemma sitting_orders:
  assumes "c \<in> set (in_sequence n (orders w s e))" and "gentle w (se_autonomy_goal s) e" and "se_sitting s"
  shows "\<not> walks c"
proof -
  obtain f m where f: "f \<in> set (orders w s e)" "c = f m" using in_sequence_set [OF assms(1)] by blast
  show ?thesis
  proof (cases e)
    case (Tick now us)
    have "source_at now (se_safety s) s \<noteq> SemiAutonomous" using source_semi [of now "se_safety s" s] Tick assms(2) by auto
    then show ?thesis using f Tick by (auto simp: tick_orders_def Let_def split: if_splits)
  next
    case (DatagramIn now us room data)
    show ?thesis
    proof (cases "carried w data s")
      case None
      with f DatagramIn show ?thesis by simp
    next
      case (Some cmd)
      then have "teleop_idle cmd" using assms(2) DatagramIn
        by (auto simp: carried_def split: list.splits if_splits)
      with f DatagramIn Some assms(3) show ?thesis by (auto simp: dispatch_orders_def drive_orders_def split: if_splits)
    qed
  next
    case (StreamIn now us stream_id data)
    with f show ?thesis by (auto simp: Let_def split: if_splits)
  qed (use f in simp_all)
qed


end
