(* ===== verification/Gateway.thy ===== *)
theory Gateway
  imports Edge_Safety
begin

text \<open>The headset gateway (\<open>oculus/gateway\<close>): a second kind of client that watches a robot and shows it to web
  pages.  The web server and the video decoder are outside the model: what the gateway tells the pages is
  the list of its events, and what it hands to the decoder a list of NALs.\<close>

section \<open>What the pages are told\<close>

fun codec_text :: "Codec \<Rightarrow> string" where
  "codec_text H265 = ''H265''"
| "codec_text Av1 = ''Av1''"
| "codec_text H264 = ''H264''"

definition number_text :: "nat \<Rightarrow> string" where
  "number_text n = List.map (\<lambda>b. char_of (unat b)) (decimal n)"

definition camera_text :: "CameraDescriptor \<Rightarrow> string" where
  "camera_text c = number_text (unat (cam_resolution_w c)) @ ''x'' @ number_text (unat (cam_resolution_h c)) @ '' ''
     @ codec_text (cam_codec c) @ '' @'' @ number_text (unat (cam_max_fps c)) @ ''fps''"

datatype GatewayEvent =
    GatewayStatus string "bytes option" "u16 option" "string option" bool
  | GatewayTelemetry TelemetryData u64 "fl option"

section \<open>State\<close>

datatype GatewayPhase = GwAwaitingHello | GwAwaitingSessionDescribe | GwOperating

text \<open>One session's client, and the gateway around it.\<close>

record 'c GwClient =
  gc_conn :: 'c
  gc_phase :: GatewayPhase
  gc_video_rx :: NalReassembler
  gc_describe_buf :: bytes
  gc_robot_id :: "bytes option"
  gc_dof_count :: "u16 option"
  gc_camera :: "string option"
  gc_estopped :: bool

record 'c Gateway =
  gt_client :: "'c GwClient option"
  gt_events :: "GatewayEvent list"
  gt_video :: "bytes list"

definition gateway_new :: "'c Gateway" where
  "gateway_new = \<lparr>gt_client = None, gt_events = [], gt_video = []\<rparr>"

definition gateway_emit :: "GatewayEvent \<Rightarrow> 'c Gateway \<Rightarrow> 'c Gateway" where
  "gateway_emit e g = g\<lparr>gt_events := gt_events g @ [e]\<rparr>"

fun gateway_phase_text :: "GatewayPhase \<Rightarrow> string" where
  "gateway_phase_text GwAwaitingHello = ''awaiting_hello''"
| "gateway_phase_text GwAwaitingSessionDescribe = ''awaiting_session_describe''"
| "gateway_phase_text GwOperating = ''operating''"

definition status_of :: "'c GwClient \<Rightarrow> GatewayEvent" where
  "status_of c = GatewayStatus (gateway_phase_text (gc_phase c)) (gc_robot_id c) (gc_dof_count c) (gc_camera c) (gc_estopped c)"

definition emit_status :: "'c GwClient \<Rightarrow> 'c Gateway \<Rightarrow> 'c Gateway" where
  "emit_status c g = gateway_emit (status_of c) (g\<lparr>gt_client := Some c\<rparr>)"

section \<open>The handshake\<close>

definition gateway_connect :: "'c \<Rightarrow> 'c Gateway \<Rightarrow> 'c Gateway" where
  "gateway_connect conn g =
     (gateway_emit (GatewayStatus ''connecting'' None None None False) g)
       \<lparr>gt_client := Some \<lparr>gc_conn = conn, gc_phase = GwAwaitingHello, gc_video_rx = channel_a_receiver_new,
          gc_describe_buf = [], gc_robot_id = None, gc_dof_count = None, gc_camera = None, gc_estopped = False\<rparr>\<rparr>"

definition gateway_closed :: "'c Gateway \<Rightarrow> 'c Gateway" where
  "gateway_closed g = gateway_emit (GatewayStatus ''disconnected'' None None None False) (g\<lparr>gt_client := None\<rparr>)"

definition gateway_capabilities :: "TaskClass \<Rightarrow> HelloCapabilities" where
  "gateway_capabilities task_class =
     \<lparr>hc_version = pv_new 1 0, hc_capability_bitmask = 0, hc_task_classes = task_class_bit task_class,
      hc_quantization_tiers = STANDARD_bit, hc_max_control_rate_hz = 50\<rparr>"

definition gateway_greet :: "'c services \<Rightarrow> TaskClass \<Rightarrow> bool \<Rightarrow> 'c GwClient \<Rightarrow> 'c GwClient" where
  "gateway_greet w task_class ready c =
     (if ready \<and> gc_phase c = GwAwaitingHello
      then c\<lparr>gc_conn := fst (q_stream_send w (gc_conn c) 0 (encode_hello (f_hello w) (gateway_capabilities task_class)) False)\<rparr>
      else c)"

text \<open>The gateway takes no sensor data, so it selects none.\<close>

definition gateway_accept :: "FbSessionAccept fb_format \<Rightarrow> SessionDescribeInfo \<Rightarrow> bytes" where
  "gateway_accept fmt info = fst fmt ((accept_table info False)\<lparr>fbx_selected_sensors := None\<rparr>)"

definition gateway_on_hello :: "'c services \<Rightarrow> TaskClass \<Rightarrow> bytes \<Rightarrow> 'c GwClient \<Rightarrow> 'c Gateway \<Rightarrow> 'c Gateway" where
  "gateway_on_hello w task_class data c g =
     (case negotiate (gateway_capabilities task_class) (decode_hello (f_hello w) data) of
        Inr _ \<Rightarrow> emit_status (c\<lparr>gc_phase := GwAwaitingSessionDescribe\<rparr>) g
      | Inl _ \<Rightarrow> g\<lparr>gt_client := Some (c\<lparr>gc_conn := q_close w (gc_conn c) 1 HELLO_INCOMPATIBLE\<rparr>)\<rparr>)"

definition gateway_on_describe :: "'c services \<Rightarrow> bytes \<Rightarrow> 'c GwClient \<Rightarrow> 'c Gateway \<Rightarrow> 'c Gateway" where
  "gateway_on_describe w data c g =
     (case decode_session_describe (f_describe w) data of
        Inl _ \<Rightarrow> g\<lparr>gt_client := Some c\<rparr>
      | Inr info \<Rightarrow>
          emit_status (c\<lparr>gc_conn := fst (q_stream_send w (gc_conn c) 1 (gateway_accept (f_accept w) info) False),
            gc_robot_id := Some (di_robot_id info), gc_dof_count := Some (rp_dof_count (di_profile info)),
            gc_camera := (case di_cameras info of [] \<Rightarrow> None | cam # _ \<Rightarrow> Some (camera_text cam)),
            gc_phase := GwOperating\<rparr>) g)"

definition gateway_on_estop :: "bytes \<Rightarrow> 'c GwClient \<Rightarrow> 'c Gateway \<Rightarrow> 'c Gateway" where
  "gateway_on_estop data c g =
     (case estop_decode data of
        None \<Rightarrow> g\<lparr>gt_client := Some c\<rparr>
      | Some d \<Rightarrow> emit_status (c\<lparr>gc_estopped := ed_latched d\<rparr>) g)"

definition gateway_on_stream_data ::
  "'c services \<Rightarrow> TaskClass \<Rightarrow> u64 \<Rightarrow> bytes \<Rightarrow> 'c GwClient \<Rightarrow> 'c Gateway \<Rightarrow> 'c Gateway" where
  "gateway_on_stream_data w task_class stream_id data c g =
     (if stream_id = 0 \<and> gc_phase c = GwAwaitingHello then gateway_on_hello w task_class data c g
      else if stream_id = 1 \<and> gc_phase c = GwAwaitingSessionDescribe then gateway_on_describe w data c g
      else if stream_id = ESTOP_STREAM_ID then gateway_on_estop data c g
      else g\<lparr>gt_client := Some c\<rparr>)"

definition gateway_on_stream ::
  "'c services \<Rightarrow> TaskClass \<Rightarrow> u64 \<Rightarrow> bytes \<Rightarrow> bool \<Rightarrow> 'c GwClient \<Rightarrow> 'c Gateway \<Rightarrow> 'c Gateway" where
  "gateway_on_stream w task_class stream_id data fin c g =
     (if stream_id = 1
      then
        let c = c\<lparr>gc_describe_buf := gc_describe_buf c @ data\<rparr>
        in if fin then gateway_on_stream_data w task_class stream_id (gc_describe_buf c) (c\<lparr>gc_describe_buf := []\<rparr>) g
           else g\<lparr>gt_client := Some c\<rparr>
      else gateway_on_stream_data w task_class stream_id data c g)"

section \<open>Datagrams\<close>

definition gateway_on_telemetry :: "u64 \<Rightarrow> ChannelBFrameData \<Rightarrow> 'c Gateway \<Rightarrow> 'c Gateway" where
  "gateway_on_telemetry us fr g =
     (let rtt_ms = (if 0 < cb_timestamp fr \<and> cb_timestamp fr < us
                    then Some (fdiv B64 (fof_int B64 (uint (us - cb_timestamp fr))) (Fin 1000)) else None)
      in case telemetry_unpack (cb_fields fr) of
           None \<Rightarrow> g
         | Some t \<Rightarrow> gateway_emit (GatewayTelemetry t (cb_seq fr) rtt_ms) g)"

definition gateway_on_video :: "bytes \<Rightarrow> 'c GwClient \<Rightarrow> 'c Gateway \<Rightarrow> 'c Gateway" where
  "gateway_on_video payload c g =
     (let (rx, complete) = channel_a_on_datagram (gc_video_rx c) payload; g = g\<lparr>gt_client := Some (c\<lparr>gc_video_rx := rx\<rparr>)\<rparr>
      in case complete of None \<Rightarrow> g | Some (_, nal) \<Rightarrow> g\<lparr>gt_video := gt_video g @ [nal]\<rparr>)"

definition gateway_on_datagram :: "'c services \<Rightarrow> u64 \<Rightarrow> bytes \<Rightarrow> 'c GwClient \<Rightarrow> 'c Gateway \<Rightarrow> 'c Gateway" where
  "gateway_on_datagram w us data c g =
     (case data of
        [] \<Rightarrow> g
      | t # payload \<Rightarrow>
          if t = ESTOP_DATAGRAM_MAGIC then gateway_on_estop data c g
          else if t = DATAGRAM_TAG_CHANNEL_B \<and> gc_phase c = GwOperating
          then
            let fr = decode_channel_b_frame (f_frame w) payload
            in if cb_category fr = CatTelemetry then gateway_on_telemetry us fr g else g
          else if t = DATAGRAM_TAG_CHANNEL_A then gateway_on_video payload c g
          else g)"

section \<open>Turns\<close>

text \<open>A session begins with a connection and ends with its loss; in between the reads of a packet come one by
  one.\<close>

datatype 'c gateway_event =
    GtConnect 'c | GtClosed | GtGreeting bool | GtStream u64 bytes bool | GtDatagram u64 bytes

definition with_client :: "('c GwClient \<Rightarrow> 'c Gateway \<Rightarrow> 'c Gateway) \<Rightarrow> 'c Gateway \<Rightarrow> 'c Gateway" where
  "with_client f g = (case gt_client g of None \<Rightarrow> g | Some c \<Rightarrow> f c g)"

fun gateway_step :: "'c services \<Rightarrow> TaskClass \<Rightarrow> 'c gateway_event \<Rightarrow> 'c Gateway \<Rightarrow> 'c Gateway" where
  "gateway_step w task_class (GtConnect conn) g = (if gt_client g = None then gateway_connect conn g else g)"
| "gateway_step w task_class GtClosed g = with_client (\<lambda>_. gateway_closed) g"
| "gateway_step w task_class (GtGreeting ready) g =
     with_client (\<lambda>c g. g\<lparr>gt_client := Some (gateway_greet w task_class ready c)\<rparr>) g"
| "gateway_step w task_class (GtStream stream_id data fin) g =
     with_client (gateway_on_stream w task_class stream_id data fin) g"
| "gateway_step w task_class (GtDatagram us data) g = with_client (gateway_on_datagram w us data) g"

definition gateway_run :: "'c services \<Rightarrow> TaskClass \<Rightarrow> 'c gateway_event list \<Rightarrow> 'c Gateway" where
  "gateway_run w task_class es = foldl (\<lambda>g e. gateway_step w task_class e g) gateway_new es"

section \<open>The gateway only watches\<close>

text \<open>What a connection can have become by the calls that do not steer a robot: the HELLO, the acceptance of a
  session, a close.\<close>

inductive only_watched :: "'c services \<Rightarrow> TaskClass \<Rightarrow> 'c \<Rightarrow> 'c \<Rightarrow> bool"
  for w :: "'c services" and task_class :: TaskClass and conn :: 'c where
  fresh: "only_watched w task_class conn conn"
| hello: "only_watched w task_class conn c
    \<Longrightarrow> only_watched w task_class conn (fst (q_stream_send w c 0 (encode_hello (f_hello w) (gateway_capabilities task_class)) False))"
| accept: "only_watched w task_class conn c
    \<Longrightarrow> only_watched w task_class conn (fst (q_stream_send w c 1 (gateway_accept (f_accept w) info) False))"
| closing: "only_watched w task_class conn c \<Longrightarrow> only_watched w task_class conn (q_close w c 1 HELLO_INCOMPATIBLE)"

fun is_status :: "GatewayEvent \<Rightarrow> bool" where
  "is_status (GatewayStatus phase robot_id dof_count camera estopped) = True"
| "is_status (GatewayTelemetry t seq rtt_ms) = False"

definition last_status :: "GatewayEvent list \<Rightarrow> GatewayEvent option" where
  "last_status es = (let statuses = filter is_status es in if statuses = [] then None else Some (last statuses))"

lemma last_status_simps [simp]:
  "last_status [] = None" "is_status e \<Longrightarrow> last_status (es @ [e]) = Some e" "\<not> is_status e \<Longrightarrow> last_status (es @ [e]) = last_status es"
  by (simp_all add: last_status_def)

lemma status_is_status [simp]: "is_status (status_of c)"
  by (simp add: status_of_def)

text \<open>The client's connection comes from one that was handed to the gateway, and the pages know its state: it
  was the last they were told, or they were told that it connects, and nothing is known yet.\<close>

definition client_shown :: "'c services \<Rightarrow> TaskClass \<Rightarrow> 'c set \<Rightarrow> 'c GwClient \<Rightarrow> GatewayEvent list \<Rightarrow> bool" where
  "client_shown w task_class conns c events \<longleftrightarrow> (\<exists>conn \<in> conns. only_watched w task_class conn (gc_conn c))
     \<and> (gc_phase c = GwOperating \<longleftrightarrow> gc_robot_id c \<noteq> None)
     \<and> (last_status events = Some (status_of c)
        \<or> last_status events = Some (GatewayStatus ''connecting'' None None None False)
          \<and> status_of c = GatewayStatus ''awaiting_hello'' None None None False)"

definition gateway_ok :: "'c services \<Rightarrow> TaskClass \<Rightarrow> 'c set \<Rightarrow> 'c Gateway \<Rightarrow> bool" where
  "gateway_ok w task_class conns g \<longleftrightarrow>
     (case gt_client g of
        None \<Rightarrow> last_status (gt_events g) \<in> {None, Some (GatewayStatus ''disconnected'' None None None False)}
      | Some c \<Rightarrow> client_shown w task_class conns c (gt_events g))"

lemma gateway_ok_mono: "gateway_ok w task_class A g \<Longrightarrow> A \<subseteq> B \<Longrightarrow> gateway_ok w task_class B g"
  by (auto simp: gateway_ok_def client_shown_def split: option.splits)

lemma emit_status_ok:
  assumes "\<exists>conn \<in> conns. only_watched w task_class conn (gc_conn c)" and "gc_phase c = GwOperating \<longleftrightarrow> gc_robot_id c \<noteq> None"
  shows "gateway_ok w task_class conns (emit_status c g)"
  using assms by (simp add: gateway_ok_def client_shown_def emit_status_def gateway_emit_def)

lemma gateway_ok_same:
  assumes "client_shown w task_class conns c (gt_events g)" and "gt_client g' = Some c'" and "gt_events g' = gt_events g"
    and "\<exists>conn \<in> conns. only_watched w task_class conn (gc_conn c')" and "status_of c' = status_of c"
    and "gc_phase c' = gc_phase c" and "gc_robot_id c' = gc_robot_id c"
  shows "gateway_ok w task_class conns g'"
  using assms by (simp add: gateway_ok_def client_shown_def)

lemma stream_data_ok:
  assumes "client_shown w task_class conns c (gt_events g)"
  shows "gateway_ok w task_class conns (gateway_on_stream_data w task_class stream_id data c g)"
proof -
  obtain conn where conn: "conn \<in> conns" "only_watched w task_class conn (gc_conn c)"
    using assms by (auto simp: client_shown_def)
  have idle: "gc_phase c \<noteq> GwOperating \<Longrightarrow> gc_robot_id c = None" using assms by (simp add: client_shown_def)
  have kept: "gateway_ok w task_class conns (g\<lparr>gt_client := Some c\<rparr>)"
    by (rule gateway_ok_same [OF assms]) (use conn in auto)
  have estop: "gateway_ok w task_class conns (gateway_on_estop data c g)"
    using assms kept by (auto simp: gateway_on_estop_def client_shown_def intro!: emit_status_ok split: option.split)
  have hello: "gateway_ok w task_class conns (gateway_on_hello w task_class data c g)" if "gc_phase c = GwAwaitingHello"
  proof (cases "negotiate (gateway_capabilities task_class) (decode_hello (f_hello w) data)")
    case (Inl e)
    have "gateway_ok w task_class conns (g\<lparr>gt_client := Some (c\<lparr>gc_conn := q_close w (gc_conn c) 1 HELLO_INCOMPATIBLE\<rparr>)\<rparr>)"
      by (rule gateway_ok_same [OF assms, where c' = "c\<lparr>gc_conn := q_close w (gc_conn c) 1 HELLO_INCOMPATIBLE\<rparr>"])
        (use conn in \<open>auto simp: status_of_def intro: bexI [of _ conn] only_watched.closing\<close>)
    with Inl show ?thesis by (simp add: gateway_on_hello_def)
  next
    case (Inr n)
    with conn idle that show ?thesis by (auto simp: gateway_on_hello_def intro!: emit_status_ok)
  qed
  have describe: "gateway_ok w task_class conns (gateway_on_describe w data c g)"
    using kept conn
    by (auto simp: gateway_on_describe_def intro!: emit_status_ok bexI [of _ conn] only_watched.accept split: sum.split)
  show ?thesis using hello describe estop kept by (simp add: gateway_on_stream_data_def)
qed

lemma gateway_stream_ok:
  assumes "client_shown w task_class conns c (gt_events g)"
  shows "gateway_ok w task_class conns (gateway_on_stream w task_class stream_id data fin c g)"
proof -
  have buf: "client_shown w task_class conns (c\<lparr>gc_describe_buf := buf\<rparr>) (gt_events g)" for buf
    using assms by (simp add: client_shown_def status_of_def)
  have "gateway_ok w task_class conns (g\<lparr>gt_client := Some (c\<lparr>gc_describe_buf := buf\<rparr>)\<rparr>)" for buf
    using buf by (simp add: gateway_ok_def)
  then show ?thesis using stream_data_ok [OF assms] stream_data_ok [OF buf]
    by (simp add: gateway_on_stream_def Let_def)
qed

lemma gateway_datagram_ok:
  assumes "client_shown w task_class conns c (gt_events g)" and "gt_client g = Some c"
  shows "gateway_ok w task_class conns (gateway_on_datagram w us data c g)"
proof -
  have g: "gateway_ok w task_class conns g" using assms by (simp add: gateway_ok_def)
  have estop: "gateway_ok w task_class conns (gateway_on_estop bs c g)" for bs
  proof -
    have "g\<lparr>gt_client := Some c\<rparr> = g" using assms(2) by (cases g) simp
    with g assms(1) show ?thesis
      by (auto simp: gateway_on_estop_def client_shown_def intro!: emit_status_ok split: option.split)
  qed
  have telemetry: "gateway_ok w task_class conns (gateway_on_telemetry us fr g)" for fr
    using g by (auto simp: gateway_on_telemetry_def gateway_emit_def gateway_ok_def Let_def client_shown_def
        split: option.splits)
  have video: "gateway_ok w task_class conns (gateway_on_video payload c g)" for payload
  proof -
    obtain rx complete where rx: "channel_a_on_datagram (gc_video_rx c) payload = (rx, complete)" by fastforce
    show ?thesis
      by (rule gateway_ok_same [OF assms(1), where c' = "c\<lparr>gc_video_rx := rx\<rparr>"])
        (use assms(1) in \<open>auto simp: gateway_on_video_def rx client_shown_def status_of_def Let_def split: option.split\<close>)
  qed
  show ?thesis using g estop telemetry video by (simp add: gateway_on_datagram_def Let_def split: list.split)
qed

lemma gateway_step_ok:
  assumes "gateway_ok w task_class conns g"
  shows "gateway_ok w task_class (conns \<union> {conn. e = GtConnect conn}) (gateway_step w task_class e g)"
proof (cases "gt_client g")
  case None
  then show ?thesis using assms
    by (cases e) (auto simp: with_client_def gateway_connect_def gateway_emit_def gateway_ok_def client_shown_def
        status_of_def intro: only_watched.fresh)
next
  case (Some c)
  then have c: "client_shown w task_class conns c (gt_events g)" using assms by (simp add: gateway_ok_def)
  then obtain conn where conn: "conn \<in> conns" "only_watched w task_class conn (gc_conn c)" by (auto simp: client_shown_def)
  have "gateway_ok w task_class conns (gateway_step w task_class e g)"
  proof (cases e)
    case (GtGreeting ready)
    have "gateway_ok w task_class conns (g\<lparr>gt_client := Some (gateway_greet w task_class ready c)\<rparr>)"
      by (rule gateway_ok_same [OF c, where c' = "gateway_greet w task_class ready c"])
        (use conn in \<open>auto simp: gateway_greet_def status_of_def intro: bexI [of _ conn] only_watched.hello\<close>)
    with GtGreeting Some show ?thesis by (simp add: with_client_def)
  next
    case GtClosed
    with Some show ?thesis by (simp add: with_client_def gateway_closed_def gateway_emit_def gateway_ok_def)
  qed (use assms Some c gateway_stream_ok [OF c] gateway_datagram_ok [OF c Some] in \<open>simp_all add: with_client_def\<close>)
  then show ?thesis by (rule gateway_ok_mono) simp
qed


section \<open>A watched robot\<close>

text \<open>The events of a robot whose only client watches: of the network, streams 0 and 1 alone.\<close>

fun watching :: "session_event \<Rightarrow> bool" where
  "watching (DatagramIn now us room data) = False"
| "watching (StreamIn now us stream_id data) = (stream_id = 0 \<or> stream_id = 1)"
| "watching (TopicStreamIn stream_id data fin) = False"
| "watching (TopicStreamReset stream_id) = False"
| "watching _ = True"

lemma watching_safety:
  "watching e \<Longrightarrow> ev \<in> set (safety_events w s e) \<Longrightarrow> ev = ExplicitEstop \<or> (\<exists>now a. ev = Poll now a)"
  by (cases e) (auto simp: poll_def ESTOP_STREAM_ID_def ACTION_TRIGGER_STREAM_ID_def split: if_splits SupervisorEvent.splits)

lemma polls_keep_heartbeat:
  "\<forall>ev \<in> set evs. ev = ExplicitEstop \<or> (\<exists>now a. ev = Poll now a)
    \<Longrightarrow> wd_last_heartbeat (st_watchdog (task_run t evs)) = wd_last_heartbeat (st_watchdog t)"
proof (induction evs arbitrary: t)
  case (Cons ev evs)
  have "wd_last_heartbeat (st_watchdog (task_step t ev)) = wd_last_heartbeat (st_watchdog t)"
    using Cons.prems by (auto simp: trigger_explicit_estop_def task_tick_def wd_check_def Let_def)
  with Cons show ?case by simp
qed simp

lemma watched_heartbeat:
  assumes "session_run w s0 es s" and "list_all watching es"
  shows "wd_last_heartbeat (st_watchdog (se_safety s)) = wd_last_heartbeat (st_watchdog (se_safety s0))"
  using assms
proof induction
  case (turn es s e s')
  then have "\<forall>ev \<in> set (safety_events w s e). ev = ExplicitEstop \<or> (\<exists>now a. ev = Poll now a)"
    using watching_safety [of e _ w s] by simp
  from polls_keep_heartbeat [OF this, of "se_safety s"] turn step_safety [OF turn(2)] show ?case by simp
qed simp

text \<open>C39: Watching never moves the robot.  A robot's session whose client sends what the gateway sends: whatever else
  happens to it, no event puts a command that moves the robot into its bridge, but a tick that forwards an
  asserted autonomy goal; and that only as long as less time than the watchdog's threshold has passed since
  the session began, because nothing a watching client sends counts as a sign of life.\<close>

theorem viewer_cannot_move_the_robot:
  assumes "session_run w (session_new su conn telemetry command goal forwarder recorder t0) es s"
    and "list_all watching (es @ [e])" and "within_limits (ag_velocity goal)"
    and "session_step w e s = Some (s', err)"
  shows "filter moves (new_commands s s') = []
    \<or> (\<exists>now us. e = Tick now us \<and> goal_asserted (se_autonomy_goal s) now
         \<and> \<not> fge (blackout_ms (duration_since now t0)) (su_watchdog_threshold_ms su))"
proof (cases "filter moves (new_commands s s') = []")
  case False
  then obtain c where c: "c \<in> set (in_sequence (se_channel_b_seq s) (orders w s e))" "moves c"
    using new_commands_step [OF assms(4)] by (auto simp: filter_empty_conv)
  from c show ?thesis
  proof (cases rule: moving_orders)
    case (tick now us m)
    have "wd_last_heartbeat (st_watchdog (se_safety s)) = t0"
      using watched_heartbeat [OF assms(1)] assms(2) by (simp add: session_new_def task_defs wd_defs)
    then have beat: "wd_last_heartbeat (st_watchdog (task_step (se_safety s) (poll s now))) = t0"
      using polls_keep_heartbeat [of "[poll s now]" "se_safety s"] by (simp add: poll_def)
    have "wd_threshold_ms (st_watchdog (se_safety s)) = su_watchdog_threshold_ms su"
      using run_limits [OF assms(1)] assms(3) by (simp add: session_new_def task_defs wd_defs)
    then have "wd_threshold_ms (st_watchdog (task_step (se_safety s) (poll s now))) = su_watchdog_threshold_ms su"
      using task_run_threshold [of "se_safety s" "[poll s now]"] by simp
    with tick source_semi [OF tick(2)] poll_alive [of "se_safety s" s now] beat show ?thesis
      by (auto simp: watchdog_alive_def)
  qed (use assms(2) in \<open>simp_all add: ACTION_TRIGGER_STREAM_ID_def\<close>)
qed simp

lemma viewer_cannot_move_the_robot_witness:
  "\<exists>s'. session_step demo_services (Tick (millis 500) 0) operating = Some (s', None)
     \<and> filter moves (new_commands operating s') = []"
proof -
  let ?e = "Tick (millis 500) 0"
  obtain s' where s': "session_step demo_services ?e operating = Some (s', None)" by simp
  have run: "session_run demo_services (session_new demo_setup () None inert_command_sink (goal_new 0) None [] 0)
    [StreamIn 0 0 0 [], StreamIn 0 0 1 []] operating"
    using handshake_run unfolding demo_session_def .
  have limits: "within_limits (ag_velocity (goal_new 0))" by (simp add: goal_new_def within_limits_def velocity_default_def)
  have watching: "list_all watching ([StreamIn 0 0 0 [], StreamIn 0 0 1 []] @ [?e])" by simp
  have late: "fge (blackout_ms (duration_since (millis 500) 0)) (su_watchdog_threshold_ms demo_setup)" by code_simp
  from viewer_cannot_move_the_robot [OF run watching limits s'] late s' show ?thesis by auto
qed

end
