(* ===== verification/Camera.thy ===== *)
theory Camera
  imports Edge_Session
begin

text \<open>The robot's camera process (robot-edge's \<open>video/capture.rs\<close>): its arguments, its restarts and the
  controls a session may change while it runs.  The process is outside the program; what it writes and
  when it ends are the events of a run.  \<open>f32_text\<close> is the standard library's text of an \<open>f32\<close>.\<close>

section \<open>Configuration and arguments\<close>

definition camera_controls_default :: CameraControls where
  "camera_controls_default = \<lparr>ct_brightness = 0, ct_contrast = 0x3F800000, ct_ev = 0, ct_shutter_us = 0\<rparr>"

record CaptureConfig =
  cg_width :: u16
  cg_height :: u16
  cg_framerate :: u8
  cg_intra :: u32
  cg_max_restart_attempts :: nat
  cg_restart_window :: duration
  cg_controls :: CameraControls

definition capture_config_default :: CaptureConfig where
  "capture_config_default =
     \<lparr>cg_width = 640, cg_height = 480, cg_framerate = 30, cg_intra = 30, cg_max_restart_attempts = 5,
      cg_restart_window = secs 60, cg_controls = camera_controls_default\<rparr>"

definition int_text :: "nat \<Rightarrow> string" where
  "int_text n = List.map (\<lambda>b. char_of (unat b)) (decimal n)"

definition build_args :: "(u32 \<Rightarrow> string) \<Rightarrow> CaptureConfig \<Rightarrow> CameraControls \<Rightarrow> string list" where
  "build_args f32_text config controls =
     [''--codec'', ''h264'', ''--width'', int_text (unat (cg_width config)), ''--height'', int_text (unat (cg_height config)),
      ''--framerate'', int_text (unat (cg_framerate config)), ''--intra'', int_text (unat (cg_intra config)),
      ''--inline'', ''--flush'', ''--profile'', ''baseline'', ''--bitrate'', ''2000000'', ''--timeout'', ''0'',
      ''--brightness'', f32_text (ct_brightness controls), ''--contrast'', f32_text (ct_contrast controls),
      ''--ev'', f32_text (ct_ev controls)]
     @ (if ct_shutter_us controls \<noteq> 0 then [''--shutter'', int_text (unat (ct_shutter_us controls))] else [])
     @ [''-o'', ''-'']"

section \<open>The capture task\<close>

text \<open>Between two processes the task is starting, or waiting until a time; \<open>Running args\<close> is a process
  started with those arguments.\<close>

datatype CapturePhase = Starting | Waiting instant | Running "string list" | GivenUp | ReceiverGone

text \<open>\<open>cx_controls\<close> is the value of the watch channel and \<open>cx_unseen\<close> whether it changed since the task
  last looked; \<open>cx_rx\<close> is what the task has sent on.\<close>

record Capture =
  cx_phase :: CapturePhase
  cx_attempts :: nat
  cx_window_start :: instant
  cx_controls :: CameraControls
  cx_unseen :: bool
  cx_rx :: "bytes list"

definition spawn_capture :: "CaptureConfig \<Rightarrow> instant \<Rightarrow> Capture" where
  "spawn_capture config now =
     \<lparr>cx_phase = Starting, cx_attempts = 0, cx_window_start = now, cx_controls = cg_controls config,
      cx_unseen = False, cx_rx = []\<rparr>"

definition backoff_or_give_up :: "CaptureConfig \<Rightarrow> instant \<Rightarrow> Capture \<Rightarrow> Capture" where
  "backoff_or_give_up config now s =
     (let s = (if cg_restart_window config < duration_since now (cx_window_start s)
               then s\<lparr>cx_attempts := 0, cx_window_start := now\<rparr> else s);
          s = s\<lparr>cx_attempts := cx_attempts s + 1\<rparr>
      in if cg_max_restart_attempts config < cx_attempts s then s\<lparr>cx_phase := GivenUp\<rparr>
         else s\<lparr>cx_phase := Waiting (now + millis (300 * 2 ^ min (cx_attempts s) 5))\<rparr>)"

datatype capture_event =
    SetControls CameraControls
  | Spawn instant bool
  | Output instant bytes bool
  | ReadFails instant
  | SeeChange

fun may_spawn :: "CapturePhase \<Rightarrow> instant \<Rightarrow> bool" where
  "may_spawn Starting now = True"
| "may_spawn (Waiting t) now = (t \<le> now)"
| "may_spawn _ now = False"

fun is_running :: "CapturePhase \<Rightarrow> bool" where
  "is_running (Running args) = True"
| "is_running _ = False"

text \<open>One turn of the task, \<open>None\<close> when the event cannot happen in its phase: the session sets the
  controls, a process is started or fails to, a read gives bytes (none at the end of the file) to a
  receiver that may be gone, a read fails, the task sees that the controls changed.\<close>

fun capture_step :: "(u32 \<Rightarrow> string) \<Rightarrow> CaptureConfig \<Rightarrow> capture_event \<Rightarrow> Capture \<Rightarrow> Capture option" where
  "capture_step f32_text config (SetControls c) s = Some (s\<lparr>cx_controls := c, cx_unseen := True\<rparr>)"
| "capture_step f32_text config (Spawn now ok) s =
     (if \<not> may_spawn (cx_phase s) now then None
      else
        let s = s\<lparr>cx_unseen := False\<rparr>
        in Some (if ok then s\<lparr>cx_phase := Running (build_args f32_text config (cx_controls s))\<rparr>
                 else backoff_or_give_up config now s))"
| "capture_step f32_text config (Output now bs receiving) s =
     (if \<not> is_running (cx_phase s) then None
      else if bs = [] then Some (backoff_or_give_up config now s)
      else Some (if receiving then s\<lparr>cx_rx := cx_rx s @ [bs]\<rparr> else s\<lparr>cx_phase := ReceiverGone\<rparr>))"
| "capture_step f32_text config (ReadFails now) s =
     (if \<not> is_running (cx_phase s) then None else Some (backoff_or_give_up config now s))"
| "capture_step f32_text config SeeChange s =
     (if is_running (cx_phase s) \<and> cx_unseen s then Some (s\<lparr>cx_unseen := False, cx_phase := Starting\<rparr>) else None)"

inductive capture_run :: "(u32 \<Rightarrow> string) \<Rightarrow> CaptureConfig \<Rightarrow> instant \<Rightarrow> capture_event list \<Rightarrow> Capture \<Rightarrow> bool"
  for f32_text :: "u32 \<Rightarrow> string" and config :: CaptureConfig and t0 :: instant where
  start: "capture_run f32_text config t0 [] (spawn_capture config t0)"
| turn: "capture_run f32_text config t0 es s \<Longrightarrow> capture_step f32_text config e s = Some s'
    \<Longrightarrow> capture_run f32_text config t0 (es @ [e]) s'"

fun capture_turns :: "(u32 \<Rightarrow> string) \<Rightarrow> CaptureConfig \<Rightarrow> capture_event list \<Rightarrow> Capture \<Rightarrow> Capture option" where
  "capture_turns f32_text config [] s = Some s"
| "capture_turns f32_text config (e # es) s =
     Option.bind (capture_step f32_text config e s) (capture_turns f32_text config es)"

lemma capture_turns_run:
  "capture_run f config t0 es s \<Longrightarrow> capture_turns f config es' s = Some s' \<Longrightarrow> capture_run f config t0 (es @ es') s'"
proof (induction es' arbitrary: es s)
  case (Cons e es')
  then obtain r where "capture_step f config e s = Some r" "capture_turns f config es' r = Some s'"
    by (auto simp: bind_eq_Some_conv)
  with Cons.IH [OF capture_run.turn [OF Cons.prems(1)]] show ?case by simp
qed simp

section \<open>Failures are counted, changes are not\<close>

text \<open>The times at which a run's processes failed, and what they wrote.\<close>

fun failure_of :: "capture_event \<Rightarrow> instant list" where
  "failure_of (Spawn now ok) = (if ok then [] else [now])"
| "failure_of (Output now bs receiving) = (if bs = [] then [now] else [])"
| "failure_of (ReadFails now) = [now]"
| "failure_of _ = []"

fun output_of :: "capture_event \<Rightarrow> bytes list" where
  "output_of (Output now bs receiving) = (if bs \<noteq> [] \<and> receiving then [bs] else [])"
| "output_of _ = []"

definition failures :: "capture_event list \<Rightarrow> instant list" where
  "failures es = concat (List.map failure_of es)"

text \<open>The attempts are the latest failures, all in the window that starts at \<open>cx_window_start\<close>.\<close>

definition counted :: "CaptureConfig \<Rightarrow> instant \<Rightarrow> instant list \<Rightarrow> Capture \<Rightarrow> bool" where
  "counted config t0 fs s \<longleftrightarrow> cx_window_start s \<in> set (t0 # fs)
     \<and> (\<exists>old recent. fs = old @ recent \<and> length recent = cx_attempts s
          \<and> (\<forall>t \<in> set recent. cx_window_start s \<le> t \<and> t \<le> cx_window_start s + cg_restart_window config))
     \<and> (cx_phase s = GivenUp \<longrightarrow> cg_max_restart_attempts config < cx_attempts s)"

lemma counted_cong:
  "counted config t0 fs s \<Longrightarrow> cx_window_start s' = cx_window_start s \<Longrightarrow> cx_attempts s' = cx_attempts s
    \<Longrightarrow> (cx_phase s' = GivenUp \<longrightarrow> cx_phase s = GivenUp) \<Longrightarrow> counted config t0 fs s'"
  by (auto simp: counted_def)

lemma counted_failure:
  assumes "counted config t0 fs s" and "sorted (t0 # fs @ [now])"
  shows "counted config t0 (fs @ [now]) (backoff_or_give_up config now s)"
proof (cases "cg_restart_window config < duration_since now (cx_window_start s)")
  case True
  have "\<exists>old recent. fs @ [now] = old @ recent \<and> length recent = Suc 0
      \<and> (\<forall>t \<in> set recent. now \<le> t \<and> t \<le> now + cg_restart_window config)"
    by (rule exI [of _ fs], rule exI [of _ "[now]"]) simp
  with True show ?thesis by (simp add: backoff_or_give_up_def counted_def Let_def)
next
  case False
  obtain old recent where r: "fs = old @ recent" "length recent = cx_attempts s"
      "\<forall>t \<in> set recent. cx_window_start s \<le> t \<and> t \<le> cx_window_start s + cg_restart_window config"
    using assms(1) by (auto simp: counted_def)
  have "cx_window_start s \<le> now" using assms by (auto simp: counted_def sorted_append)
  with False have "now \<le> cx_window_start s + cg_restart_window config" by (simp add: duration_since_def)
  with r \<open>cx_window_start s \<le> now\<close> have "\<exists>old recent. fs @ [now] = old @ recent \<and> length recent = Suc (cx_attempts s)
      \<and> (\<forall>t \<in> set recent. cx_window_start s \<le> t \<and> t \<le> cx_window_start s + cg_restart_window config)"
    by - (rule exI [of _ old], rule exI [of _ "recent @ [now]"], auto)
  with assms(1) False show ?thesis by (auto simp: backoff_or_give_up_def counted_def Let_def)
qed

lemma failures_simps [simp]: "failures [] = []" "failures (es @ [e]) = failures es @ failure_of e"
  by (simp_all add: failures_def)

lemma backoff_phase [simp]:
  "\<not> is_running (cx_phase (backoff_or_give_up config now s))" "cx_rx (backoff_or_give_up config now s) = cx_rx s"
  by (simp_all add: backoff_or_give_up_def Let_def)

lemma capture_counts:
  assumes "capture_run f config t0 es s" and "sorted (t0 # failures es)"
  shows "counted config t0 (failures es) s"
  using assms
proof (induction rule: capture_run.induct)
  case start
  show ?case by (simp add: counted_def spawn_capture_def)
next
  case (turn es s e s')
  from turn.prems have sorted: "sorted (t0 # failures es)" by (simp add: sorted_append)
  note C = turn.IH [OF sorted]
  show ?case
  proof (cases e)
    case (Spawn now ok)
    have "counted config t0 (failures es) (s\<lparr>cx_unseen := False\<rparr>)" by (rule counted_cong [OF C]) simp_all
    from counted_failure [OF this, of now] turn.prems turn.hyps(2) Spawn C show ?thesis
      by (auto simp: Let_def split: if_splits intro: counted_cong [OF C])
  next
    case (Output now bs opn)
    with counted_failure [OF C, of now] turn.prems turn.hyps(2) show ?thesis
      by (auto split: if_splits intro: counted_cong [OF C])
  next
    case (ReadFails now)
    with counted_failure [OF C, of now] turn.prems turn.hyps(2) show ?thesis by (auto split: if_splits)
  qed (use turn.hyps(2) in \<open>auto split: if_splits intro: counted_cong [OF C]\<close>)
qed

lemma capture_sends:
  assumes "capture_run f config t0 es s"
  shows "(\<forall>args. cx_phase s = Running args \<longrightarrow> cx_unseen s \<or> args = build_args f config (cx_controls s))
    \<and> cx_rx s = concat (List.map output_of es)"
  using assms
proof (induction rule: capture_run.induct)
  case start
  show ?case by (simp add: spawn_capture_def)
next
  case (turn es s e s')
  have quiet: "cx_phase (backoff_or_give_up config now r) \<noteq> Running args" for now r args
    using backoff_phase(1) [of config now r] by (metis is_running.simps(1))
  from turn.hyps(2) turn.IH show ?case
    by (cases e) (auto simp: Let_def quiet split: if_splits)
qed

text \<open>C36: The camera follows the operator, and only failures stop it.  Whatever session and process do, a
  running process has the arguments of the controls last set, or the task still has the change to see;
  seeing it, the task starts a process with those controls at once, and neither the count of failures nor
  its window moves.  All that a process wrote went on in order, nothing twice.  The task gives up only
  when more processes than the limit failed within one restart window.\<close>

theorem capture_follows_controls:
  assumes "capture_run f config t0 es s" and "sorted (t0 # failures es)"
  shows "(\<forall>args. cx_phase s = Running args \<longrightarrow> cx_unseen s \<or> args = build_args f config (cx_controls s))
    \<and> (is_running (cx_phase s) \<and> cx_unseen s \<longrightarrow>
        Option.bind (capture_step f config SeeChange s) (capture_step f config (Spawn now True))
          = Some (s\<lparr>cx_unseen := False, cx_phase := Running (build_args f config (cx_controls s))\<rparr>))
    \<and> cx_rx s = concat (List.map output_of es)
    \<and> (cx_phase s = GivenUp \<longrightarrow>
        (\<exists>old recent. failures es = old @ recent \<and> cg_max_restart_attempts config < length recent
          \<and> last recent - hd recent \<le> cg_restart_window config))"
proof (intro conjI)
  show "\<forall>args. cx_phase s = Running args \<longrightarrow> cx_unseen s \<or> args = build_args f config (cx_controls s)"
    and "cx_rx s = concat (List.map output_of es)" using capture_sends [OF assms(1)] by blast+
  show "is_running (cx_phase s) \<and> cx_unseen s \<longrightarrow>
        Option.bind (capture_step f config SeeChange s) (capture_step f config (Spawn now True))
          = Some (s\<lparr>cx_unseen := False, cx_phase := Running (build_args f config (cx_controls s))\<rparr>)"
    by simp
  have within_window: "last recent - hd recent \<le> w"
    if "\<forall>t \<in> set recent. a \<le> t \<and> t \<le> a + w" "recent \<noteq> []" for recent and a w :: nat
  proof -
    have "last recent \<le> a + w" "a \<le> hd recent" using that by simp_all
    then show ?thesis by linarith
  qed
  show "cx_phase s = GivenUp \<longrightarrow>
        (\<exists>old recent. failures es = old @ recent \<and> cg_max_restart_attempts config < length recent
          \<and> last recent - hd recent \<le> cg_restart_window config)"
  proof
    assume "cx_phase s = GivenUp"
    with capture_counts [OF assms] obtain old recent where "failures es = old @ recent"
      "cg_max_restart_attempts config < length recent"
      "\<forall>t \<in> set recent. cx_window_start s \<le> t \<and> t \<le> cx_window_start s + cg_restart_window config"
      by (auto simp: counted_def)
    then show "\<exists>old recent. failures es = old @ recent \<and> cg_max_restart_attempts config < length recent
          \<and> last recent - hd recent \<le> cg_restart_window config"
      using within_window [of recent "cx_window_start s" "cg_restart_window config"] by - (rule exI [of _ old], rule exI [of _ recent], cases "recent = []", auto)
  qed
qed

text \<open>The operator raises the exposure while the picture is running; later a process dies.\<close>

theorem capture_follows_controls_witness:
  "\<exists>s. capture_run (\<lambda>_. ''0'') capture_config_default 5
       [Spawn 5 True, Output 6 [1, 2] True, SetControls (camera_controls_default\<lparr>ct_shutter_us := 2000\<rparr>), SeeChange,
        Spawn 7 True, Output 8 [3] True, ReadFails 9] s
     \<and> cx_rx s = [[1, 2], [3]] \<and> cx_phase s = Waiting (9 + millis 600)"
proof -
  let ?es = "[Spawn 5 True, Output 6 [1, 2] True, SetControls (camera_controls_default\<lparr>ct_shutter_us := 2000\<rparr>), SeeChange,
        Spawn 7 True, Output 8 [3] True, ReadFails 9]"
  obtain s where s: "capture_turns (\<lambda>_. ''0'') capture_config_default ?es (spawn_capture capture_config_default 5) = Some s"
      "cx_phase s = Waiting (9 + millis 600)"
    by (simp add: spawn_capture_def backoff_or_give_up_def capture_config_default_def time_defs)
  have "capture_run (\<lambda>_. ''0'') capture_config_default 5 ?es s"
    using capture_turns_run [OF capture_run.start s(1)] by simp
  moreover have "sorted (5 # failures ?es)" by (simp add: failures_def)
  ultimately show ?thesis using s(2) capture_follows_controls [of "\<lambda>_. ''0''" capture_config_default 5 ?es s] by auto
qed

end
