(* ===== verification/Console_Input.thy ===== *)
theory Console_Input
  imports F32Bits
begin

text \<open>What an operator can do at the console (operator-console's \<open>input.rs\<close> and \<open>gamepad.rs\<close>): the inputs,
  the keyboard's table and the gamepad's state.  The terminal and the gamepad library are outside the
  program; their events are the arguments.  An \<open>f32\<close> is its bit pattern.\<close>

section \<open>Inputs\<close>

text \<open>An \<open>f32\<close> literal, its negation, and a product.\<close>

definition f32_lit :: "rat \<Rightarrow> u32" where
  "f32_lit x = f32_to_bits (fround_to B32 x)"

definition f32_neg :: "u32 \<Rightarrow> u32" where
  "f32_neg v = f32_to_bits (fneg (f32_of_bits v))"

definition f32_mul :: "u32 \<Rightarrow> u32 \<Rightarrow> u32" where
  "f32_mul a b = f32_to_bits (fmul B32 (f32_of_bits a) (f32_of_bits b))"

datatype TeleopInput =
    MoveInput u32 u32
  | TurnInput u32
  | ActionInput u8
  | EstopInput
  | EstopClearInput
  | EstopToggle
  | ArmNudge i16 i16
  | AttitudeNudge char u32
  | AttitudeReset
  | NeutralPose
  | CameraNudge char u32
  | CameraReset
  | ClawNudge "8 word"
  | SaveFrame
  | ToggleRecording
  | Quit

section \<open>The keyboard\<close>

datatype KeyCode = Key char | LeftKey | RightKey | UpKey | DownKey | EscKey | OtherKey

definition KEY_ARM_STEP_MM :: i16 where "KEY_ARM_STEP_MM = 10"
definition CLAW_STEP :: "8 word" where "CLAW_STEP = 20"
definition ATTITUDE_STEP_DEG :: rat where "ATTITUDE_STEP_DEG = 2"
definition BRIGHTNESS_STEP :: rat where "BRIGHTNESS_STEP = 1 / 10"
definition CONTRAST_STEP :: rat where "CONTRAST_STEP = 1 / 10"
definition EV_STEP :: rat where "EV_STEP = 1 / 2"
definition SHUTTER_STEP_US :: rat where "SHUTTER_STEP_US = 2000"

text \<open>The table of \<open>InputReader::next\<close>; a key that is not in it is skipped.\<close>

definition key_table :: "(KeyCode \<times> TeleopInput) list" where
  "key_table =
     [(Key CHR ''w'', MoveInput (f32_lit 15) (f32_lit 0)),
      (Key CHR ''s'', MoveInput (f32_lit (-15)) (f32_lit 0)),
      (Key CHR ''a'', MoveInput (f32_lit 0) (f32_lit 12)),
      (Key CHR ''d'', MoveInput (f32_lit 0) (f32_lit (-12))),
      (LeftKey, TurnInput (f32_lit 60)),
      (RightKey, TurnInput (f32_lit (-60))),
      (UpKey, AttitudeNudge CHR ''p'' (f32_lit (- ATTITUDE_STEP_DEG))),
      (Key CHR ''='', AttitudeNudge CHR ''p'' (f32_lit (- ATTITUDE_STEP_DEG))),
      (DownKey, AttitudeNudge CHR ''p'' (f32_lit ATTITUDE_STEP_DEG)),
      (Key CHR ''-'', AttitudeNudge CHR ''p'' (f32_lit ATTITUDE_STEP_DEG)),
      (Key CHR ''['', AttitudeNudge CHR ''r'' (f32_lit (- ATTITUDE_STEP_DEG))),
      (Key CHR '']'', AttitudeNudge CHR ''r'' (f32_lit ATTITUDE_STEP_DEG)),
      (Key CHR '','', AttitudeNudge CHR ''y'' (f32_lit (- ATTITUDE_STEP_DEG))),
      (Key CHR ''.'', AttitudeNudge CHR ''y'' (f32_lit ATTITUDE_STEP_DEG)),
      (Key CHR ''0'', AttitudeReset),
      (Key CHR ''b'', CameraNudge CHR ''b'' (f32_lit (- BRIGHTNESS_STEP))),
      (Key CHR ''B'', CameraNudge CHR ''b'' (f32_lit BRIGHTNESS_STEP)),
      (Key CHR ''f'', CameraNudge CHR ''c'' (f32_lit (- CONTRAST_STEP))),
      (Key CHR ''F'', CameraNudge CHR ''c'' (f32_lit CONTRAST_STEP)),
      (Key CHR ''v'', CameraNudge CHR ''v'' (f32_lit (- EV_STEP))),
      (Key CHR ''V'', CameraNudge CHR ''v'' (f32_lit EV_STEP)),
      (Key CHR ''h'', CameraNudge CHR ''s'' (f32_lit (- SHUTTER_STEP_US))),
      (Key CHR ''H'', CameraNudge CHR ''s'' (f32_lit SHUTTER_STEP_US)),
      (Key CHR ''9'', CameraReset),
      (Key CHR '' '', MoveInput (f32_lit 0) (f32_lit 0)),
      (Key CHR ''e'', EstopInput),
      (Key CHR ''c'', EstopClearInput),
      (Key CHR ''1'', ActionInput 2),
      (Key CHR ''2'', ActionInput 12),
      (Key CHR ''i'', ArmNudge 0 KEY_ARM_STEP_MM),
      (Key CHR ''k'', ArmNudge 0 (- KEY_ARM_STEP_MM)),
      (Key CHR ''j'', ArmNudge (- KEY_ARM_STEP_MM) 0),
      (Key CHR ''l'', ArmNudge KEY_ARM_STEP_MM 0),
      (Key CHR ''u'', ClawNudge (- CLAW_STEP)),
      (Key CHR ''o'', ClawNudge CLAW_STEP),
      (Key CHR ''r'', ToggleRecording),
      (Key CHR ''p'', SaveFrame),
      (Key CHR ''q'', Quit),
      (EscKey, Quit)]"

definition read_key :: "KeyCode \<Rightarrow> TeleopInput option" where
  "read_key code = map_of key_table code"

section \<open>The gamepad\<close>

definition STICK_DEADZONE :: rat where "STICK_DEADZONE = 15 / 100"
definition MOVE_SCALE :: rat where "MOVE_SCALE = 15"
definition STRAFE_SCALE :: rat where "STRAFE_SCALE = 12"
definition TURN_SCALE :: rat where "TURN_SCALE = 60"
definition PITCH_TICK_STEP_DEG :: rat where "PITCH_TICK_STEP_DEG = 6 / 10"
definition ROLL_YAW_TICK_STEP_DEG :: rat where "ROLL_YAW_TICK_STEP_DEG = 6 / 10"
definition ARM_STEP_MM :: i16 where "ARM_STEP_MM = 10"
definition ARM_STEP_FINE_MM :: i16 where "ARM_STEP_FINE_MM = 2"
definition CLAW_TICK_STEP :: "8 word" where "CLAW_TICK_STEP = 8"

datatype StickXMode = TurnMode | RollMode | YawMode

fun stick_mode_u8 :: "StickXMode \<Rightarrow> u8" where
  "stick_mode_u8 TurnMode = 0"
| "stick_mode_u8 RollMode = 1"
| "stick_mode_u8 YawMode = 2"

fun stick_mode_name :: "StickXMode \<Rightarrow> string" where
  "stick_mode_name TurnMode = ''turn''"
| "stick_mode_name RollMode = ''roll''"
| "stick_mode_name YawMode = ''yaw''"

datatype Axis = LeftStickX | LeftStickY | RightStickX | RightStickY | OtherAxis

datatype Button =
    LeftTrigger2 | South | East | West | North | StartButton | SelectButton | LeftTrigger | RightTrigger
  | LeftThumb | RightThumb | DPadUp | DPadDown | DPadLeft | DPadRight | OtherButton

datatype EventType = AxisChanged Axis u32 | ButtonPressed Button | ButtonReleased Button | OtherEvent

text \<open>The polling thread's state, and the two values it shares with the display.\<close>

record PadState =
  pad_left_x :: u32
  pad_left_y :: u32
  pad_right_x :: u32
  pad_right_y :: u32
  pad_lb_held :: bool
  pad_rb_held :: bool
  pad_l3_held :: bool
  pad_r3_held :: bool
  pad_stick_x_mode :: StickXMode
  pad_arm_fine_mode :: bool
  pad_dpad_up :: bool
  pad_dpad_down :: bool
  pad_dpad_left :: bool
  pad_dpad_right :: bool

definition pad_new :: PadState where
  "pad_new = \<lparr>pad_left_x = 0, pad_left_y = 0, pad_right_x = 0, pad_right_y = 0, pad_lb_held = False, pad_rb_held = False,
     pad_l3_held = False, pad_r3_held = False, pad_stick_x_mode = TurnMode, pad_arm_fine_mode = False,
     pad_dpad_up = False, pad_dpad_down = False, pad_dpad_left = False, pad_dpad_right = False\<rparr>"

record PadShared =
  sh_stick_mode :: u8
  sh_arm_fine :: bool

definition pad_shared_new :: PadShared where
  "pad_shared_new = \<lparr>sh_stick_mode = stick_mode_u8 TurnMode, sh_arm_fine = False\<rparr>"

definition stick_mode_label :: "PadShared \<Rightarrow> string" where
  "stick_mode_label shared =
     (if sh_stick_mode shared = 1 then stick_mode_name RollMode
      else if sh_stick_mode shared = 2 then stick_mode_name YawMode
      else stick_mode_name TurnMode)"

definition arm_step :: "PadState \<Rightarrow> i16" where
  "arm_step s = (if pad_arm_fine_mode s then ARM_STEP_FINE_MM else ARM_STEP_MM)"

definition check_estop_combo :: "PadState \<Rightarrow> TeleopInput list" where
  "check_estop_combo s = (if pad_lb_held s \<and> pad_rb_held s then [EstopInput] else [])"

text \<open>\<open>handle_button_press\<close> with what it sends.\<close>

fun press :: "Button \<Rightarrow> PadState \<Rightarrow> PadShared \<Rightarrow> PadState \<times> PadShared \<times> TeleopInput list" where
  "press LeftTrigger2 s shared =
     (let s = s\<lparr>pad_arm_fine_mode := \<not> pad_arm_fine_mode s\<rparr> in (s, shared\<lparr>sh_arm_fine := pad_arm_fine_mode s\<rparr>, []))"
| "press South s shared = (s, shared, [NeutralPose])"
| "press East s shared = (s, shared, [AttitudeReset])"
| "press West s shared = (s, shared, [CameraReset])"
| "press North s shared = (s, shared, [SaveFrame])"
| "press StartButton s shared = (s, shared, [ToggleRecording])"
| "press SelectButton s shared = (s, shared, [EstopToggle])"
| "press LeftTrigger s shared =
     (let s = s\<lparr>pad_lb_held := True\<rparr> in (s, shared, ClawNudge (- CLAW_TICK_STEP) # check_estop_combo s))"
| "press RightTrigger s shared =
     (let s = s\<lparr>pad_rb_held := True\<rparr> in (s, shared, ClawNudge CLAW_TICK_STEP # check_estop_combo s))"
| "press LeftThumb s shared =
     (let s = s\<lparr>pad_l3_held := True\<rparr>
      in if pad_r3_held s then (s, shared, [EstopClearInput])
         else
           let s = s\<lparr>pad_stick_x_mode := (if pad_stick_x_mode s = YawMode then TurnMode else YawMode)\<rparr>
           in (s, shared\<lparr>sh_stick_mode := stick_mode_u8 (pad_stick_x_mode s)\<rparr>, []))"
| "press RightThumb s shared =
     (let s = s\<lparr>pad_r3_held := True\<rparr>
      in if pad_l3_held s then (s, shared, [EstopClearInput])
         else
           let s = s\<lparr>pad_stick_x_mode := (if pad_stick_x_mode s = RollMode then TurnMode else RollMode)\<rparr>
           in (s, shared\<lparr>sh_stick_mode := stick_mode_u8 (pad_stick_x_mode s)\<rparr>, []))"
| "press DPadUp s shared = (let s = s\<lparr>pad_dpad_up := True\<rparr> in (s, shared, [ArmNudge 0 (arm_step s)]))"
| "press DPadDown s shared = (let s = s\<lparr>pad_dpad_down := True\<rparr> in (s, shared, [ArmNudge 0 (- arm_step s)]))"
| "press DPadLeft s shared = (let s = s\<lparr>pad_dpad_left := True\<rparr> in (s, shared, [ArmNudge (- arm_step s) 0]))"
| "press DPadRight s shared = (let s = s\<lparr>pad_dpad_right := True\<rparr> in (s, shared, [ArmNudge (arm_step s) 0]))"
| "press OtherButton s shared = (s, shared, [])"

fun release :: "Button \<Rightarrow> PadState \<Rightarrow> PadState" where
  "release LeftTrigger s = s\<lparr>pad_lb_held := False\<rparr>"
| "release RightTrigger s = s\<lparr>pad_rb_held := False\<rparr>"
| "release LeftThumb s = s\<lparr>pad_l3_held := False\<rparr>"
| "release RightThumb s = s\<lparr>pad_r3_held := False\<rparr>"
| "release DPadUp s = s\<lparr>pad_dpad_up := False\<rparr>"
| "release DPadDown s = s\<lparr>pad_dpad_down := False\<rparr>"
| "release DPadLeft s = s\<lparr>pad_dpad_left := False\<rparr>"
| "release DPadRight s = s\<lparr>pad_dpad_right := False\<rparr>"
| "release _ s = s"

fun handle_event :: "EventType \<Rightarrow> PadState \<Rightarrow> PadShared \<Rightarrow> PadState \<times> PadShared \<times> TeleopInput list" where
  "handle_event (AxisChanged axis value) s shared =
     ((case axis of
         LeftStickX \<Rightarrow> s\<lparr>pad_left_x := value\<rparr>
       | LeftStickY \<Rightarrow> s\<lparr>pad_left_y := value\<rparr>
       | RightStickX \<Rightarrow> s\<lparr>pad_right_x := value\<rparr>
       | RightStickY \<Rightarrow> s\<lparr>pad_right_y := value\<rparr>
       | OtherAxis \<Rightarrow> s), shared, [])"
| "handle_event (ButtonPressed button) s shared = press button s shared"
| "handle_event (ButtonReleased button) s shared = (release button s, shared, [])"
| "handle_event OtherEvent s shared = (s, shared, [])"

text \<open>\<open>v.abs() > STICK_DEADZONE\<close>.\<close>

definition deflected :: "u32 \<Rightarrow> bool" where
  "deflected v =
     (let a = f32_of_bits v; a = (if flt a (Fin 0) then fneg a else a) in flt (fround_to B32 STICK_DEADZONE) a)"

definition send_refresh :: "PadState \<Rightarrow> TeleopInput list" where
  "send_refresh s =
     (if deflected (pad_left_x s) \<or> deflected (pad_left_y s)
      then [MoveInput
        (if deflected (pad_left_y s) then f32_mul (pad_left_y s) (f32_lit MOVE_SCALE) else f32_lit 0)
        (if deflected (pad_left_x s) then f32_mul (f32_neg (pad_left_x s)) (f32_lit STRAFE_SCALE) else f32_lit 0)]
      else [])
     @ (if deflected (pad_right_x s)
        then [case pad_stick_x_mode s of
            YawMode \<Rightarrow> AttitudeNudge CHR ''y'' (f32_mul (f32_neg (pad_right_x s)) (f32_lit ROLL_YAW_TICK_STEP_DEG))
          | RollMode \<Rightarrow> AttitudeNudge CHR ''r'' (f32_mul (pad_right_x s) (f32_lit ROLL_YAW_TICK_STEP_DEG))
          | TurnMode \<Rightarrow> TurnInput (f32_mul (f32_neg (pad_right_x s)) (f32_lit TURN_SCALE))]
        else [])
     @ (if deflected (pad_right_y s)
        then [AttitudeNudge CHR ''p'' (f32_mul (f32_neg (pad_right_y s)) (f32_lit PITCH_TICK_STEP_DEG))] else [])
     @ (if pad_lb_held s then [ClawNudge (- CLAW_TICK_STEP)] else [])
     @ (if pad_rb_held s then [ClawNudge CLAW_TICK_STEP] else [])
     @ (if pad_dpad_up s then [ArmNudge 0 (arm_step s)] else [])
     @ (if pad_dpad_down s then [ArmNudge 0 (- arm_step s)] else [])
     @ (if pad_dpad_left s then [ArmNudge (- arm_step s) 0] else [])
     @ (if pad_dpad_right s then [ArmNudge (arm_step s) 0] else [])"


section \<open>What the devices can ask for\<close>

text \<open>Within the bounds of the robot's gait, and in small steps.\<close>

definition speed_within :: "rat \<Rightarrow> u32 \<Rightarrow> bool" where
  "speed_within m v \<longleftrightarrow> fle (Fin (- m)) (f32_of_bits v) \<and> fle (f32_of_bits v) (Fin m)"

fun legal_input :: "TeleopInput \<Rightarrow> bool" where
  "legal_input (MoveInput vx vy) = (speed_within 15 vx \<and> speed_within 12 vy)"
| "legal_input (TurnInput turn) = speed_within 60 turn"
| "legal_input (ArmNudge dx dz) = (\<bar>sint dx\<bar> \<le> 10 \<and> \<bar>sint dz\<bar> \<le> 10)"
| "legal_input (AttitudeNudge axis delta) = speed_within 2 delta"
| "legal_input (CameraNudge param delta) = speed_within 2000 delta"
| "legal_input _ = True"

lemma f32_rounded:
  assumes "\<bar>x\<bar> \<le> of_int n" and "n \<le> 2 ^ 24"
  shows "f32_of_bits (f32_to_bits (fround_to B32 x)) = Fin (rnd B32 x)"
  using f32_of_to_bits_rnd [OF assms] fround_to_small(1) [OF assms(1), of B32] assms(2) by simp

lemma f32_lit_int: "\<bar>n\<bar> \<le> 2 ^ 24 \<Longrightarrow> f32_of_bits (f32_lit (of_int n)) = Fin (of_int n)"
  using f32_rounded [of "of_int n" "\<bar>n\<bar>"] rnd_of_int [of n B32] by (simp add: f32_lit_def)

lemma f32_lit_small: "\<bar>x\<bar> \<le> of_int n \<Longrightarrow> n \<le> 2 ^ 24 \<Longrightarrow> f32_of_bits (f32_lit x) = Fin (rnd B32 x)"
  unfolding f32_lit_def by (rule f32_rounded)

text \<open>A stick's axis reads from -1 to 1.\<close>

definition axis_ok :: "u32 \<Rightarrow> bool" where
  "axis_ok v \<longleftrightarrow> (\<exists>a. f32_of_bits v = Fin (rnd B32 a) \<and> \<bar>a\<bar> \<le> 1)"

lemma axis_neg: "axis_ok v \<Longrightarrow> axis_ok (f32_neg v)"
proof -
  assume "axis_ok v"
  then obtain a where a: "f32_of_bits v = Fin (rnd B32 a)" "\<bar>a\<bar> \<le> 1" by (auto simp: axis_ok_def)
  then have "f32_neg v = f32_to_bits (Fin (rnd B32 (- a)))" by (simp add: f32_neg_def)
  moreover have "f32_of_bits (f32_to_bits (Fin (rnd B32 (- a)))) = Fin (rnd B32 (- a))"
    using a(2) by (intro f32_of_to_bits_rnd [of _ 1]) simp_all
  ultimately show ?thesis using a(2) by (auto simp: axis_ok_def intro!: exI [of _ "- a"])
qed

lemma axis_scaled:
  assumes "axis_ok v" and "f32_of_bits k = Fin c" and "0 \<le> c" "c \<le> of_int n" and "n \<le> 2 ^ 24"
  shows "speed_within (of_int n) (f32_mul v k)"
proof -
  obtain a where a: "f32_of_bits v = Fin (rnd B32 a)" "\<bar>a\<bar> \<le> 1" using assms(1) by (auto simp: axis_ok_def)
  have "rnd B32 a \<le> 1" "-1 \<le> rnd B32 a"
    using rnd_le_int [of a 1 B32] rnd_ge_int [of "-1" a B32] a(2) by auto
  then have "\<bar>rnd B32 a\<bar> \<le> 1" by linarith
  then have "\<bar>rnd B32 a * c\<bar> \<le> 1 * c" unfolding abs_mult using assms(3) by (intro mult_mono) simp_all
  then have p: "\<bar>rnd B32 a * c\<bar> \<le> of_int n" using assms(4) by linarith
  have eq: "f32_of_bits (f32_mul v k) = Fin (rnd B32 (rnd B32 a * c))"
    using f32_rounded [OF p assms(5)] a(1) assms(2) by (simp add: f32_mul_def)
  have n: "\<bar>n\<bar> \<le> 2 ^ prec B32" "\<bar>- n\<bar> \<le> 2 ^ prec B32" using p assms(3-5) by (auto simp flip: of_int_0_le_iff)
  have "rnd B32 (rnd B32 a * c) \<le> of_int n" using rnd_le_int [OF _ n(1)] p by simp
  moreover have "of_int (- n) \<le> rnd B32 (rnd B32 a * c)" using rnd_ge_int [OF _ n(2)] p by simp
  ultimately show ?thesis by (simp add: speed_within_def eq)
qed

lemma scale_lits:
  "f32_of_bits (f32_lit MOVE_SCALE) = Fin 15" "f32_of_bits (f32_lit STRAFE_SCALE) = Fin 12"
  "f32_of_bits (f32_lit TURN_SCALE) = Fin 60" "f32_of_bits (f32_lit 0) = Fin 0"
  using f32_lit_int [of 15] f32_lit_int [of 12] f32_lit_int [of 60] f32_lit_int [of 0]
  by (simp_all add: MOVE_SCALE_def STRAFE_SCALE_def TURN_SCALE_def)

lemma tick_lits:
  "\<exists>c. f32_of_bits (f32_lit PITCH_TICK_STEP_DEG) = Fin c \<and> 0 \<le> c \<and> c \<le> of_int 2"
  "\<exists>c. f32_of_bits (f32_lit ROLL_YAW_TICK_STEP_DEG) = Fin c \<and> 0 \<le> c \<and> c \<le> of_int 2"
  using f32_lit_small [of "6 / 10" 1] rnd_nonneg [of "6 / 10" B32] rnd_le_int [of "6 / 10" 2 B32]
  by (simp_all add: PITCH_TICK_STEP_DEG_def ROLL_YAW_TICK_STEP_DEG_def)

lemma keyboard_legal: "read_key code = Some input \<Longrightarrow> legal_input input"
proof -
  have lit: "speed_within m (f32_lit (of_int n))" if "\<bar>n\<bar> \<le> 2 ^ 24" "\<bar>of_int n\<bar> \<le> m" for m n
    using that by (simp add: speed_within_def f32_lit_int abs_le_iff)
  have step: "speed_within (of_int n) (f32_lit x)" if "\<bar>x\<bar> \<le> of_int n" "n \<le> 2000" for n x
  proof -
    have "\<bar>n\<bar> \<le> 2 ^ prec B32" "\<bar>- n\<bar> \<le> 2 ^ prec B32" using that by (auto simp flip: of_int_0_le_iff)
    then have "rnd B32 x \<le> of_int n" "of_int (- n) \<le> rnd B32 x"
      using that(1) rnd_le_int [of x n B32] rnd_ge_int [of "- n" x B32] by (simp_all add: abs_le_iff)
    then show ?thesis using f32_lit_small [OF that(1)] that(2) by (simp add: speed_within_def)
  qed
  have turn: "speed_within 2 (f32_lit x)" if "\<bar>x\<bar> \<le> 2" for x using step [of x 2] that by simp
  have camera: "speed_within 2000 (f32_lit x)" if "\<bar>x\<bar> \<le> 2000" for x using step [of x 2000] that by simp
  have "list_all (\<lambda>(_, input). legal_input input) key_table"
    using lit [of 15 15] lit [of "-15" 15] lit [of 0 15] lit [of 0 12] lit [of 12 12] lit [of "-12" 12]
      lit [of 60 60] lit [of "-60" 60]
    by (simp add: key_table_def turn camera ATTITUDE_STEP_DEG_def BRIGHTNESS_STEP_def CONTRAST_STEP_def EV_STEP_def
        SHUTTER_STEP_US_def KEY_ARM_STEP_MM_def)
  then show "read_key code = Some input \<Longrightarrow> legal_input input"
    by (auto simp: read_key_def list_all_iff dest!: map_of_SomeD)
qed

section \<open>The gamepad over time\<close>

datatype pad_event = Hardware EventType | Refresh

fun pad_step :: "PadState \<times> PadShared \<Rightarrow> pad_event \<Rightarrow> (PadState \<times> PadShared) \<times> TeleopInput list" where
  "pad_step (s, shared) (Hardware ev) = (let (s, shared, sent) = handle_event ev s shared in ((s, shared), sent))"
| "pad_step (s, shared) Refresh = ((s, shared), send_refresh s)"

definition pad_run :: "pad_event list \<Rightarrow> PadState \<times> PadShared" where
  "pad_run es = foldl (\<lambda>p e. fst (pad_step p e)) (pad_new, pad_shared_new) es"

fun pad_event_ok :: "pad_event \<Rightarrow> bool" where
  "pad_event_ok (Hardware (AxisChanged axis value)) = axis_ok value"
| "pad_event_ok _ = True"

definition pad_inv :: "PadState \<times> PadShared \<Rightarrow> bool" where
  "pad_inv p \<longleftrightarrow> axis_ok (pad_left_x (fst p)) \<and> axis_ok (pad_left_y (fst p)) \<and> axis_ok (pad_right_x (fst p))
     \<and> axis_ok (pad_right_y (fst p)) \<and> sh_stick_mode (snd p) = stick_mode_u8 (pad_stick_x_mode (fst p))
     \<and> sh_arm_fine (snd p) = pad_arm_fine_mode (fst p)"

lemma press_inv: "pad_inv (s, shared) \<Longrightarrow> press b s shared = (s', shared', sent) \<Longrightarrow> pad_inv (s', shared')"
  by (cases b) (auto simp: pad_inv_def Let_def split: if_splits)

lemma release_inv: "pad_inv (s, shared) \<Longrightarrow> pad_inv (release b s, shared)"
  by (cases b) (simp_all add: pad_inv_def)

lemma pad_step_inv:
  assumes "pad_inv p" and "pad_event_ok e"
  shows "pad_inv (fst (pad_step p e))"
proof (cases p)
  case (Pair s shared)
  show ?thesis
  proof (cases e)
    case (Hardware ev)
    show ?thesis
    proof (cases ev)
      case (AxisChanged axis v)
      then show ?thesis using assms Pair Hardware by (cases axis) (auto simp: pad_inv_def)
    next
      case (ButtonPressed b)
      obtain s' shared' sent where "press b s shared = (s', shared', sent)" by (cases "press b s shared")
      then show ?thesis using assms Pair Hardware ButtonPressed press_inv by auto
    next
      case (ButtonReleased b)
      then show ?thesis using assms Pair Hardware release_inv by auto
    qed (use assms Pair Hardware in auto)
  qed (use assms Pair in auto)
qed

lemma pad_run_inv: "list_all pad_event_ok es \<Longrightarrow> pad_inv (pad_run es)"
proof (induction es rule: rev_induct)
  case Nil
  have "f32_of_bits 0 = Fin (rnd B32 0)" by (simp add: f32_of_bits_def f32_magnitude_def)
  then have "axis_ok 0" unfolding axis_ok_def by (intro exI [of _ 0]) simp
  then show ?case by (simp add: pad_run_def pad_inv_def pad_new_def pad_shared_new_def)
next
  case (snoc e es)
  then show ?case using pad_step_inv by (simp add: pad_run_def)
qed

lemma press_legal: "press b s shared = (s', shared', sent) \<Longrightarrow> list_all legal_input sent"
  by (cases b) (auto simp: check_estop_combo_def arm_step_def ARM_STEP_MM_def ARM_STEP_FINE_MM_def Let_def split: if_splits)

lemma refresh_legal: "pad_inv (s, shared) \<Longrightarrow> list_all legal_input (send_refresh s)"
proof -
  assume inv: "pad_inv (s, shared)"
  then have ok: "axis_ok (pad_left_y s)" "axis_ok (f32_neg (pad_left_x s))" "axis_ok (f32_neg (pad_right_x s))"
    "axis_ok (pad_right_x s)" "axis_ok (f32_neg (pad_right_y s))" by (simp_all add: pad_inv_def axis_neg)
  have arm: "\<bar>sint (arm_step s)\<bar> \<le> 10" "\<bar>sint (- arm_step s)\<bar> \<le> 10"
    by (simp_all add: arm_step_def ARM_STEP_MM_def ARM_STEP_FINE_MM_def)
  have zero: "speed_within 15 (f32_lit 0)" "speed_within 12 (f32_lit 0)" by (simp_all add: speed_within_def scale_lits)
  have move: "speed_within 15 (f32_mul (pad_left_y s) (f32_lit MOVE_SCALE))"
    "speed_within 12 (f32_mul (f32_neg (pad_left_x s)) (f32_lit STRAFE_SCALE))"
    "speed_within 60 (f32_mul (f32_neg (pad_right_x s)) (f32_lit TURN_SCALE))"
    using axis_scaled [OF ok(1) scale_lits(1), of 15] axis_scaled [OF ok(2) scale_lits(2), of 12]
      axis_scaled [OF ok(3) scale_lits(3), of 60] by simp_all
  obtain c d where c: "f32_of_bits (f32_lit PITCH_TICK_STEP_DEG) = Fin c" "0 \<le> c" "c \<le> of_int 2"
    and d: "f32_of_bits (f32_lit ROLL_YAW_TICK_STEP_DEG) = Fin d" "0 \<le> d" "d \<le> of_int 2" using tick_lits by blast
  have nudge: "speed_within 2 (f32_mul (f32_neg (pad_right_x s)) (f32_lit ROLL_YAW_TICK_STEP_DEG))"
    "speed_within 2 (f32_mul (pad_right_x s) (f32_lit ROLL_YAW_TICK_STEP_DEG))"
    "speed_within 2 (f32_mul (f32_neg (pad_right_y s)) (f32_lit PITCH_TICK_STEP_DEG))"
    using axis_scaled [OF ok(3) d] axis_scaled [OF ok(4) d] axis_scaled [OF ok(5) c] by simp_all
  show ?thesis using arm zero move nudge by (auto simp: send_refresh_def split: StickXMode.split)
qed

lemma pad_step_legal: "pad_inv p \<Longrightarrow> list_all legal_input (snd (pad_step p e))"
proof (cases p)
  case (Pair s shared)
  assume inv: "pad_inv p"
  show ?thesis
  proof (cases e)
    case (Hardware ev)
    have "list_all legal_input (snd (snd (press b s shared)))" for b
      by (rule press_legal [of b s shared "fst (press b s shared)" "fst (snd (press b s shared))"]) simp
    then show ?thesis using Hardware Pair by (cases ev) (simp_all add: Let_def case_prod_unfold)
  next
    case Refresh
    then show ?thesis using inv Pair refresh_legal by simp
  qed
qed



end
