(* ===== verification/Console.thy ===== *)
theory Console
  imports Edge_Session Edge_Flow Console_Input Gate
begin

text \<open>The operator's console (operator-console's \<open>quic_client.rs\<close>, \<open>session_cache.rs\<close>): its state and its
  handlers.  The display is left out but for the values that decisions read or that sensors and telemetry
  leave in it.  \<open>now\<close> is a handler's \<open>Instant::now()\<close>, \<open>us\<close> its \<open>now_micros()\<close>; the connection and the message
  formats are the same record of functions as the robot's.  The player's queue is the list of what it
  took; whether it had room is an argument.\<close>

section \<open>The session cache\<close>

text \<open>\<open>str::lines\<close>.\<close>

definition strip_cr :: "bytes \<Rightarrow> bytes" where
  "strip_cr line = (if line \<noteq> [] \<and> last line = 0x0D then butlast line else line)"

fun lines_from :: "bytes \<Rightarrow> bytes \<Rightarrow> bytes list" where
  "lines_from cur [] = (if cur = [] then [] else [cur])"
| "lines_from cur (b # bs) = (if b = 0x0A then strip_cr cur # lines_from [] bs else lines_from (cur @ [b]) bs)"

definition profile_key :: "bytes \<Rightarrow> u64 \<Rightarrow> bytes" where
  "profile_key robot_id hash = robot_id @ [0x3A] @ decimal (unat hash)"

text \<open>The file is \<open>None\<close> when it is missing or unreadable; \<open>wrote\<close> is whether writing it succeeds.\<close>

definition check_and_record_profile :: "bytes option \<Rightarrow> bool \<Rightarrow> bytes \<Rightarrow> u64 \<Rightarrow> bytes option \<times> bool" where
  "check_and_record_profile cache wrote robot_id hash =
     (let key = profile_key robot_id hash;
          existing = (case cache of None \<Rightarrow> [] | Some bs \<Rightarrow> bs);
          hit = list_ex (\<lambda>line. line = key) (lines_from [] existing)
      in if hit \<or> \<not> wrote then (cache, hit)
         else (Some (existing @ (if existing \<noteq> [] \<and> last existing \<noteq> 0x0A then [0x0A] else []) @ key @ [0x0A]), hit))"

section \<open>The console's state\<close>

datatype ClientPhase = ClientAwaitingHello | ClientAwaitingDescribe | ClientOperating

datatype ConnPhase = HudAwaitingHello | HudAwaitingDescribe | HudOperating | HudClosed

record CameraControlState =
  cm_brightness :: u32
  cm_contrast :: u32
  cm_ev :: u32
  cm_shutter_us :: u32

definition camera_state_default :: CameraControlState where
  "camera_state_default = \<lparr>cm_brightness = f32_lit 0, cm_contrast = f32_lit 1, cm_ev = f32_lit 0, cm_shutter_us = 0\<rparr>"

record SensorReceiver =
  sr_descriptor :: SensorDescriptor
  sr_assembler :: FrameAssembler
  sr_first_frame_logged :: bool

record SensorHud =
  hs_label :: bytes
  hs_last_frame_seq :: "u32 option"
  hs_last_completeness :: fl
  hs_last_samples :: nat

definition sensor_hud_new :: "bytes \<Rightarrow> SensorHud" where
  "sensor_hud_new label =
     \<lparr>hs_label = label, hs_last_frame_seq = None, hs_last_completeness = Fin 0, hs_last_samples = 0\<rparr>"

record 'c Client =
  cl_conn :: 'c
  cl_task_class :: TaskClass
  cl_phase :: ClientPhase
  cl_hud_phase :: ConnPhase
  cl_session_info :: "SessionDescribeInfo option"
  cl_describe_buf :: bytes
  cl_video_rx :: NalReassembler
  cl_video_gate :: DeltaGate
  cl_player :: "(bytes \<times> bool) list option"
  cl_channel_b_seq :: u64
  cl_estop_seq :: u64
  cl_next_trigger_seq :: u64
  cl_next_camera_control_seq :: u64
  cl_camera_controls :: CameraControlState
  cl_last_command :: TeleopCommand
  cl_estopped :: bool
  cl_last_send_ts :: u64
  cl_demo_action :: "u8 option"
  cl_last_move_input_at :: "instant option"
  cl_move_stale :: duration
  cl_observer :: bool
  cl_observing :: bool
  cl_last_recv_at :: instant
  cl_reconnect_attempts :: nat
  cl_last_saved_session :: "bytes option"
  cl_ticket_file :: "bytes option"
  cl_profile_cache :: "bytes option"
  cl_recorder :: Recorder
  cl_recording_active :: bool
  cl_sensors :: "SensorReceiver list"
  cl_hud_sensors :: "SensorHud list"
  cl_telemetry :: "TelemetryData option"
  cl_telemetry_last_seq :: "u64 option"
  cl_bulk_rx :: BulkReceiver
  cl_bulk_streams :: "u64 list"
  cl_bulk_files :: "(BulkKind \<times> u8 \<times> string, bytes) amap option"
  cl_forwarder :: "Forwarder option"
  cl_topics :: TopicLink
  cl_topics_negotiated :: bool
  cl_next_uni_stream :: u64

definition ARM_CLAW_NEUTRAL :: u8 where "ARM_CLAW_NEUTRAL = 128"
definition SENSOR_MAX_PENDING_FRAMES :: nat where "SENSOR_MAX_PENDING_FRAMES = 4"
definition TOPIC_DGRAM_QUEUE_LIMIT :: nat where "TOPIC_DGRAM_QUEUE_LIMIT = 4"
definition FIRST_CLIENT_UNI_STREAM :: u64 where "FIRST_CLIENT_UNI_STREAM = 2"
definition RECV_WATCHDOG_TIMEOUT :: duration where "RECV_WATCHDOG_TIMEOUT = secs 15"
definition DEFAULT_RECORD_CATEGORIES :: "Category list" where
  "DEFAULT_RECORD_CATEGORIES = [VideoA, ChannelBCommand, ChannelBTelemetry, KeyPress]"

definition first_command :: TeleopCommand where
  "first_command = \<lparr>tc_vx = f32_lit 0, tc_vy = f32_lit 0, tc_turn = f32_lit 0, tc_attitude_r = f32_lit 0,
     tc_attitude_p = f32_lit 0, tc_attitude_y = f32_lit 0, tc_arm_x = 0, tc_arm_z = 0, tc_claw = ARM_CLAW_NEUTRAL\<rparr>"

record ClientSetup =
  cu_task_class :: TaskClass
  cu_video :: bool
  cu_demo_action :: "u8 option"
  cu_move_stale_ms :: nat
  cu_observer :: bool
  cu_bulk_save :: bool
  cu_zenoh :: "ForwardConfig option"

definition client_max_mbps :: "ClientSetup \<Rightarrow> fl" where
  "client_max_mbps su = (case cu_zenoh su of None \<Rightarrow> Fin 0 | Some z \<Rightarrow> fc_max_mbps z)"

definition client_new ::
  "ClientSetup \<Rightarrow> 'c \<Rightarrow> Forwarder option \<Rightarrow> Recorder \<Rightarrow> bytes option \<Rightarrow> bytes option \<Rightarrow> instant \<Rightarrow> 'c Client" where
  "client_new su conn forwarder recorder ticket profiles now =
     \<lparr>cl_conn = conn, cl_task_class = cu_task_class su, cl_phase = ClientAwaitingHello, cl_hud_phase = HudAwaitingHello,
      cl_session_info = None, cl_describe_buf = [], cl_video_rx = channel_a_receiver_new, cl_video_gate = gate_new,
      cl_player = (if cu_video su then Some [] else None), cl_channel_b_seq = 0, cl_estop_seq = 0,
      cl_next_trigger_seq = 0, cl_next_camera_control_seq = 0, cl_camera_controls = camera_state_default,
      cl_last_command = first_command, cl_estopped = False, cl_last_send_ts = 0, cl_demo_action = cu_demo_action su,
      cl_last_move_input_at = None, cl_move_stale = millis (cu_move_stale_ms su), cl_observer = cu_observer su,
      cl_observing = False, cl_last_recv_at = now, cl_reconnect_attempts = 0, cl_last_saved_session = None,
      cl_ticket_file = ticket, cl_profile_cache = profiles, cl_recorder = recorder, cl_recording_active = False,
      cl_sensors = [], cl_hud_sensors = [], cl_telemetry = None, cl_telemetry_last_seq = None,
      cl_bulk_rx = bulk_receiver_new, cl_bulk_streams = [],
      cl_bulk_files = (if cu_bulk_save su then Some [] else None), cl_forwarder = forwarder,
      cl_topics = link_new (client_max_mbps su) now, cl_topics_negotiated = False,
      cl_next_uni_stream = FIRST_CLIENT_UNI_STREAM\<rparr>"

section \<open>Sending\<close>

definition client_record :: "Category \<Rightarrow> u64 \<Rightarrow> bytes \<Rightarrow> 'c Client \<Rightarrow> 'c Client" where
  "client_record category us payload s =
     s\<lparr>cl_recorder := recorder_enqueue (cl_recorder s) category
         \<lparr>rec_capture_us = us, rec_control_source = CONTROL_SOURCE_SENTINEL, rec_payload = payload\<rparr>\<rparr>"

definition client_send_datagram :: "'c services \<Rightarrow> bytes \<Rightarrow> 'c Client \<Rightarrow> 'c Client" where
  "client_send_datagram w d s = s\<lparr>cl_conn := fst (q_dgram_send w (cl_conn s) d)\<rparr>"

definition client_send_stream :: "'c services \<Rightarrow> u64 \<Rightarrow> bytes \<Rightarrow> 'c Client \<Rightarrow> 'c Client" where
  "client_send_stream w stream_id bs s = s\<lparr>cl_conn := fst (q_stream_send w (cl_conn s) stream_id bs False)\<rparr>"

text \<open>\<open>after_recv\<close>'s first step, with whether the connection is established or in early data: the HELLO is
  sent again at every packet until the robot's arrives.\<close>

definition client_greet :: "'c services \<Rightarrow> bool \<Rightarrow> 'c Client \<Rightarrow> 'c Client" where
  "client_greet w ready s =
     (if ready \<and> cl_phase s = ClientAwaitingHello
      then client_send_stream w 0
        (encode_hello (f_hello w) (local_hello_capabilities (cl_task_class s) (cl_forwarder s \<noteq> None))) s
      else s)"

text \<open>\<open>after_recv\<close>'s last step: the TLS session ticket is saved when it changed.\<close>

definition save_session :: "bytes \<Rightarrow> 'c Client \<Rightarrow> 'c Client" where
  "save_session ticket s =
     (if cl_last_saved_session s \<noteq> Some ticket
      then s\<lparr>cl_ticket_file := Some ticket, cl_last_saved_session := Some ticket\<rparr> else s)"

definition stop_moving :: "TeleopCommand \<Rightarrow> TeleopCommand" where
  "stop_moving cmd = cmd\<lparr>tc_vx := f32_lit 0, tc_vy := f32_lit 0, tc_turn := f32_lit 0\<rparr>"

definition send_action_trigger :: "'c services \<Rightarrow> u64 \<Rightarrow> u8 \<Rightarrow> 'c Client \<Rightarrow> 'c Client" where
  "send_action_trigger w us action_id s =
     (if cl_phase s \<noteq> ClientOperating then s
      else
        let s = s\<lparr>cl_last_command := stop_moving (cl_last_command s), cl_next_trigger_seq := cl_next_trigger_seq s + 1\<rparr>;
            bs = encode_action_trigger (f_trigger w) \<lparr>at_action_id = action_id, at_trigger_seq = cl_next_trigger_seq s\<rparr>
        in client_send_stream w ACTION_TRIGGER_STREAM_ID bs (client_record ActionTriggerC us bs s))"

definition send_camera_control :: "'c services \<Rightarrow> u64 \<Rightarrow> 'c Client \<Rightarrow> 'c Client" where
  "send_camera_control w us s =
     (if cl_phase s \<noteq> ClientOperating then s
      else
        let s = s\<lparr>cl_next_camera_control_seq := cl_next_camera_control_seq s + 1\<rparr>; c = cl_camera_controls s;
            bs = encode_camera_control (f_camera w)
              \<lparr>cc_brightness = cm_brightness c, cc_contrast = cm_contrast c, cc_ev = cm_ev c,
               cc_shutter_us = cm_shutter_us c, cc_control_seq = cl_next_camera_control_seq s\<rparr>
        in client_send_stream w CAMERA_CONTROL_STREAM_ID bs (client_record ActionTriggerC us bs s))"

definition send_estop :: "'c services \<Rightarrow> bool \<Rightarrow> 'c Client \<Rightarrow> 'c Client" where
  "send_estop w latched s =
     (let s = s\<lparr>cl_estop_seq := cl_estop_seq s + 1\<rparr>;
          d = estop_encode \<lparr>ed_latched = latched, ed_seq = cl_estop_seq s\<rparr>
      in client_send_stream w ESTOP_STREAM_ID d (client_send_datagram w d s))"

section \<open>The operator's inputs\<close>

definition f32_add :: "u32 \<Rightarrow> u32 \<Rightarrow> u32" where
  "f32_add a b = f32_to_bits (fadd B32 (f32_of_bits a) (f32_of_bits b))"

definition clamp_i16 :: "int \<Rightarrow> int \<Rightarrow> i16 \<Rightarrow> i16" where
  "clamp_i16 lo hi v = (if sint v < lo then word_of_int lo else if hi < sint v then word_of_int hi else v)"

definition min_safe_arm_x :: "i16 \<Rightarrow> i16" where
  "min_safe_arm_x arm_z =
     (let z = clamp_i16 0 35 arm_z
      in word_of_int (fto_int (-32768) 32767 (fround (fsub B32 (Fin 70)
           (fmul B32 (fdiv B32 (Fin 40) (Fin 35)) (fof_int B32 (sint z)))))))"

definition i16_max :: "i16 \<Rightarrow> i16 \<Rightarrow> i16" where
  "i16_max a b = (if sint a \<le> sint b then b else a)"

definition i16_min :: "i16 \<Rightarrow> i16 \<Rightarrow> i16" where
  "i16_min a b = (if sint a \<le> sint b then a else b)"

definition nudge_arm :: "i16 \<Rightarrow> i16 \<Rightarrow> TeleopCommand \<Rightarrow> TeleopCommand" where
  "nudge_arm dx dz cmd =
     (let x = clamp_i16 (-80) 155 (tc_arm_x cmd + dx); z = clamp_i16 (-95) 155 (tc_arm_z cmd + dz)
      in cmd\<lparr>tc_arm_x := i16_min (i16_max x (min_safe_arm_x z)) 155, tc_arm_z := z\<rparr>)"

definition nudge_attitude :: "char \<Rightarrow> u32 \<Rightarrow> TeleopCommand \<Rightarrow> TeleopCommand" where
  "nudge_attitude axis delta cmd =
     (if axis = CHR ''r'' then cmd\<lparr>tc_attitude_r := f32_clamp (-20) 20 (f32_add (tc_attitude_r cmd) delta)\<rparr>
      else if axis = CHR ''p'' then cmd\<lparr>tc_attitude_p := f32_clamp (-10) 10 (f32_add (tc_attitude_p cmd) delta)\<rparr>
      else if axis = CHR ''y'' then cmd\<lparr>tc_attitude_y := f32_clamp (-12) 12 (f32_add (tc_attitude_y cmd) delta)\<rparr>
      else cmd)"

definition reset_attitude :: "TeleopCommand \<Rightarrow> TeleopCommand" where
  "reset_attitude cmd = cmd\<lparr>tc_attitude_r := f32_lit 0, tc_attitude_p := f32_lit 0, tc_attitude_y := f32_lit 0\<rparr>"

definition neutral_pose :: "TeleopCommand \<Rightarrow> TeleopCommand" where
  "neutral_pose cmd = reset_attitude (cmd\<lparr>tc_arm_x := 0, tc_arm_z := 0, tc_claw := ARM_CLAW_NEUTRAL\<rparr>)"

definition nudge_claw :: "8 word \<Rightarrow> TeleopCommand \<Rightarrow> TeleopCommand" where
  "nudge_claw delta cmd =
     cmd\<lparr>tc_claw := word_of_int (max 0 (min 255 (sint (ucast (tc_claw cmd) + (scast delta :: i16)))))\<rparr>"

definition nudge_camera :: "char \<Rightarrow> u32 \<Rightarrow> CameraControlState \<Rightarrow> CameraControlState" where
  "nudge_camera param delta c =
     (if param = CHR ''b'' then c\<lparr>cm_brightness := f32_clamp (-1) 1 (f32_add (cm_brightness c) delta)\<rparr>
      else if param = CHR ''c'' then c\<lparr>cm_contrast := f32_clamp 0 2 (f32_add (cm_contrast c) delta)\<rparr>
      else if param = CHR ''v'' then c\<lparr>cm_ev := f32_clamp (-4) 4 (f32_add (cm_ev c) delta)\<rparr>
      else if param = CHR ''s'' then
        c\<lparr>cm_shutter_us := word_of_int (max 0 (min 100000
            (uint (cm_shutter_us c) + fto_int (- (2 ^ 63)) (2 ^ 63 - 1) (fround (f32_of_bits delta)))))\<rparr>
      else c)"

definition takes_control :: "TeleopInput \<Rightarrow> bool" where
  "takes_control input =
     (case input of
        MoveInput vx vy \<Rightarrow> True | TurnInput turn \<Rightarrow> True | ArmNudge dx dz \<Rightarrow> True | AttitudeNudge axis delta \<Rightarrow> True
      | AttitudeReset \<Rightarrow> True | NeutralPose \<Rightarrow> True | ClawNudge delta \<Rightarrow> True | _ \<Rightarrow> False)"

definition toggle_recording :: "'c Client \<Rightarrow> 'c Client" where
  "toggle_recording s =
     (let new_state = (\<not> cl_recording_active s)
      in s\<lparr>cl_recorder := foldl (\<lambda>r category. recorder_set_active r category new_state) (cl_recorder s) DEFAULT_RECORD_CATEGORIES,
           cl_recording_active := new_state\<rparr>)"

definition command_input :: "TeleopInput \<Rightarrow> TeleopCommand \<Rightarrow> TeleopCommand" where
  "command_input input cmd =
     (case input of
        MoveInput vx vy \<Rightarrow> cmd\<lparr>tc_vx := vx, tc_vy := vy\<rparr>
      | TurnInput turn \<Rightarrow> cmd\<lparr>tc_turn := turn\<rparr>
      | ArmNudge dx dz \<Rightarrow> nudge_arm dx dz cmd
      | AttitudeNudge axis delta \<Rightarrow> nudge_attitude axis delta cmd
      | AttitudeReset \<Rightarrow> reset_attitude cmd
      | NeutralPose \<Rightarrow> neutral_pose cmd
      | ClawNudge delta \<Rightarrow> nudge_claw delta cmd
      | _ \<Rightarrow> cmd)"

definition on_input :: "'c services \<Rightarrow> instant \<Rightarrow> u64 \<Rightarrow> TeleopInput \<Rightarrow> 'c Client \<Rightarrow> 'c Client" where
  "on_input w now us input s =
     (if takes_control input
      then s\<lparr>cl_last_move_input_at := Some now, cl_last_command := command_input input (cl_last_command s)\<rparr>
      else case input of
        ActionInput action_id \<Rightarrow> send_action_trigger w us action_id s
      | CameraNudge param delta \<Rightarrow>
          send_camera_control w us (s\<lparr>cl_camera_controls := nudge_camera param delta (cl_camera_controls s)\<rparr>)
      | CameraReset \<Rightarrow> send_camera_control w us (s\<lparr>cl_camera_controls := camera_state_default\<rparr>)
      | EstopInput \<Rightarrow> send_estop w True s
      | EstopClearInput \<Rightarrow> send_estop w False s
      | EstopToggle \<Rightarrow> send_estop w (\<not> cl_estopped s) s
      | ToggleRecording \<Rightarrow> toggle_recording s
      | _ \<Rightarrow> s)"

text \<open>\<open>"operator quit"\<close>, the reason of the close.\<close>

definition OPERATOR_QUIT :: bytes where
  "OPERATOR_QUIT = List.map (\<lambda>c. word_of_nat (of_char c)) ''operator quit''"

text \<open>Every input is recorded as its text; the result says whether the session ends.\<close>

definition dispatch_teleop_input ::
  "'c services \<Rightarrow> instant \<Rightarrow> u64 \<Rightarrow> bytes \<Rightarrow> TeleopInput \<Rightarrow> 'c Client \<Rightarrow> 'c Client \<times> bool" where
  "dispatch_teleop_input w now us shown_as input s =
     (let s = client_record KeyPress us shown_as s
      in if input = Quit then (s\<lparr>cl_conn := q_close w (cl_conn s) 0 OPERATOR_QUIT\<rparr>, True)
         else (on_input w now us input s, False))"

end
