(* ===== verification/Console_Session.thy ===== *)
theory Console_Session
  imports Console
begin

text \<open>What reaches the operator's console and what its timer does (operator-console's \<open>quic_client.rs\<close>): the
  handlers, the session loop as a sequence of turns, the reconnection.  \<open>None\<close> is a panic.\<close>

section \<open>Sensor frames\<close>

definition on_sensor_frame :: "nat \<Rightarrow> AssembledFrame \<Rightarrow> 'c Client \<Rightarrow> 'c Client option" where
  "on_sensor_frame i fr s =
     (if length (cl_sensors s) \<le> i \<or> length (cl_hud_sensors s) \<le> i then None
      else
        let sensor = cl_sensors s ! i; hud = cl_hud_sensors s ! i;
            samples = sample_count (encoding_decode (sd_encoding (sr_descriptor sensor)) fr)
        in Some (s\<lparr>cl_sensors := (cl_sensors s)[i := sensor\<lparr>sr_first_frame_logged := True\<rparr>],
                   cl_hud_sensors := (cl_hud_sensors s)[i := hud\<lparr>hs_last_frame_seq := Some (af_frame_seq fr),
                     hs_last_completeness := completeness fr, hs_last_samples := samples\<rparr>]\<rparr>))"

fun on_sensor_frames_of :: "nat \<Rightarrow> AssembledFrame list \<Rightarrow> 'c Client \<Rightarrow> 'c Client option" where
  "on_sensor_frames_of i [] s = Some s"
| "on_sensor_frames_of i (fr # frs) s = Option.bind (on_sensor_frame i fr s) (on_sensor_frames_of i frs)"

definition put_assembler :: "nat \<Rightarrow> FrameAssembler \<Rightarrow> 'c Client \<Rightarrow> 'c Client" where
  "put_assembler i a s = s\<lparr>cl_sensors := (cl_sensors s)[i := (cl_sensors s ! i)\<lparr>sr_assembler := a\<rparr>]\<rparr>"

definition sensor_position :: "u8 \<Rightarrow> SensorReceiver list \<Rightarrow> nat option" where
  "sensor_position sensor_id sensors =
     find (\<lambda>i. sd_sensor_id (sr_descriptor (sensors ! i)) = sensor_id) [0..<length sensors]"

definition on_sensor_slice :: "u64 \<Rightarrow> bytes \<Rightarrow> 'c Client \<Rightarrow> 'c Client option" where
  "on_sensor_slice us payload s =
     (case slice_header_decode payload of
        None \<Rightarrow> Some s
      | Some (header, data) \<Rightarrow>
          case sensor_position (sh_sensor_id header) (cl_sensors s) of
            None \<Rightarrow> Some s
          | Some i \<Rightarrow>
              if length (cl_hud_sensors s) \<le> i then None
              else Option.bind (on_slice (sr_assembler (cl_sensors s ! i)) header data us)
                     (\<lambda>(a, frs). on_sensor_frames_of i frs (put_assembler i a s)))"

definition poll_sensor :: "u64 \<Rightarrow> nat \<Rightarrow> 'c Client \<Rightarrow> 'c Client option" where
  "poll_sensor us i s =
     Option.bind (assembler_poll (sr_assembler (cl_sensors s ! i)) us)
       (\<lambda>(a, frs). on_sensor_frames_of i frs (put_assembler i a s))"

fun poll_sensors_from :: "u64 \<Rightarrow> nat list \<Rightarrow> 'c Client \<Rightarrow> 'c Client option" where
  "poll_sensors_from us [] s = Some s"
| "poll_sensors_from us (i # idx) s = Option.bind (poll_sensor us i s) (poll_sensors_from us idx)"

definition poll_sensors :: "u64 \<Rightarrow> 'c Client \<Rightarrow> 'c Client option" where
  "poll_sensors us s = poll_sensors_from us [0..<length (cl_sensors s)] s"

section \<open>Topics and bulk objects\<close>

definition client_republish :: "'c services \<Rightarrow> TopicSample \<Rightarrow> 'c Client \<Rightarrow> 'c Client" where
  "client_republish w sample s =
     (if cl_phase s \<noteq> ClientOperating then s
      else s\<lparr>cl_forwarder := map_option (\<lambda>f. republish (z_keys w) f sample) (cl_forwarder s)\<rparr>)"

definition client_on_forward :: "LocalSample \<Rightarrow> 'c Client \<Rightarrow> 'c Client" where
  "client_on_forward out s =
     (if \<not> cl_topics_negotiated s then s
      else s\<lparr>cl_topics := link_push (cl_topics s) (ls_mode out) (ls_sample out)\<rparr>)"

text \<open>The branch of the loop that takes all the samples that wait.\<close>

definition take_samples :: "'c Client \<Rightarrow> 'c Client" where
  "take_samples s =
     (case cl_forwarder s of
        None \<Rightarrow> s
      | Some f \<Rightarrow>
          if cl_phase s \<noteq> ClientOperating then s
          else foldl (\<lambda>s out. client_on_forward out s) (s\<lparr>cl_forwarder := Some (fst (discard_waiting f))\<rparr>) (fw_outgoing f))"

partial_function (option) feed_topics :: "'c services \<Rightarrow> instant \<Rightarrow> 'c Client \<Rightarrow> 'c Client option" where
  "feed_topics w now s =
     (if \<not> link_has_datagram (cl_topics s) \<or> TOPIC_DGRAM_QUEUE_LIMIT \<le> q_dgram_send_queue_len w (cl_conn s) then Some s
      else
        let max_len = (case q_dgram_max_writable_len w (cl_conn s) of None \<Rightarrow> 0 | Some n \<Rightarrow> n)
        in Option.bind (link_pop_datagram (cl_topics s) now max_len) (\<lambda>(topics, d).
             let s = s\<lparr>cl_topics := topics\<rparr>
             in case d of None \<Rightarrow> Some s | Some d \<Rightarrow> feed_topics w now (client_send_datagram w d s)))"

definition client_alloc :: "u64 \<Rightarrow> u64 \<times> u64" where
  "client_alloc n = (n + 4, n)"

definition client_pump_topics :: "'c services \<Rightarrow> instant \<Rightarrow> 'c Client \<Rightarrow> 'c Client option" where
  "client_pump_topics w now s =
     (if cl_forwarder s = None \<or> cl_phase s \<noteq> ClientOperating then Some s
      else Option.bind (feed_topics w now s) (\<lambda>s.
        map_option (\<lambda>(c, n, topics, _). s\<lparr>cl_conn := c, cl_next_uni_stream := n, cl_topics := topics\<rparr>)
          (pump_reliable (lane_send w) (q_stream_priority w) client_alloc (cl_conn s) (cl_next_uni_stream s) (cl_topics s)
             now None)))"

text \<open>A saved object is a file of its kind and source; \<open>saves\<close> says which extensions can be written.\<close>

definition save_file :: "BulkHeader \<Rightarrow> string \<Rightarrow> bytes \<Rightarrow> 'c Client \<Rightarrow> 'c Client" where
  "save_file h ext contents s =
     s\<lparr>cl_bulk_files := map_option (AList.update (bh_kind h, bh_source_id h, ext) contents) (cl_bulk_files s)\<rparr>"

definition on_bulk_object :: "(string \<Rightarrow> bool) \<Rightarrow> BulkObject \<Rightarrow> 'c Client \<Rightarrow> 'c Client" where
  "on_bulk_object saves object s =
     (let h = bo_header object;
          grid = (if bh_kind h = OccupancyGridKind then grid_decode (bo_bytes object) else None)
      in if cl_bulk_files s = None \<or> \<not> saves ''bin'' then s
         else
           let s = save_file h ''bin'' (bo_bytes object) s
           in case grid of
                None \<Rightarrow> s
              | Some g \<Rightarrow> if saves ''pgm'' then save_file h ''pgm'' (to_pgm g) s else s)"

text \<open>One read of a unidirectional stream.\<close>

definition client_on_uni :: "'c services \<Rightarrow> (string \<Rightarrow> bool) \<Rightarrow> u64 \<Rightarrow> bytes \<Rightarrow> bool \<Rightarrow> 'c Client \<Rightarrow> 'c Client" where
  "client_on_uni w saves stream_id data fin s =
     (if is_reading (cl_topics s) stream_id
        \<or> (stream_id \<notin> set (cl_bulk_streams s) \<and> data \<noteq> [] \<and> hd data = TOPIC_STREAM_MAGIC)
      then
        let (topics, samples, _) = link_on_stream_data (cl_topics s) stream_id data fin
        in foldl (\<lambda>s sample. client_republish w sample s) (s\<lparr>cl_topics := topics\<rparr>) samples
      else
        let s = s\<lparr>cl_bulk_streams := (if fin then List.removeAll stream_id (cl_bulk_streams s)
                                      else List.insert stream_id (cl_bulk_streams s))\<rparr>;
            (rx, r) = bulk_on_data (cl_bulk_rx s) stream_id data fin;
            s = s\<lparr>cl_bulk_rx := rx\<rparr>
        in case r of Inr (Some object) \<Rightarrow> on_bulk_object saves object s | _ \<Rightarrow> s)"

definition client_on_uni_reset :: "u64 \<Rightarrow> 'c Client \<Rightarrow> 'c Client" where
  "client_on_uni_reset stream_id s =
     s\<lparr>cl_bulk_rx := bulk_on_reset (cl_bulk_rx s) stream_id,
       cl_bulk_streams := List.removeAll stream_id (cl_bulk_streams s),
       cl_topics := link_on_stream_reset (cl_topics s) stream_id\<rparr>"

section \<open>The handshake and the control streams\<close>

definition client_on_hello :: "'c services \<Rightarrow> bytes \<Rightarrow> 'c Client \<Rightarrow> 'c Client" where
  "client_on_hello w data s =
     (case negotiate (local_hello_capabilities (cl_task_class s) (cl_forwarder s \<noteq> None)) (decode_hello (f_hello w) data) of
        Inr negotiated \<Rightarrow>
          s\<lparr>cl_topics_negotiated := (ns_capability_bitmask negotiated AND TOPIC_FORWARDING \<noteq> 0),
            cl_phase := ClientAwaitingDescribe, cl_hud_phase := HudAwaitingDescribe\<rparr>
      | Inl _ \<Rightarrow> s\<lparr>cl_conn := q_close w (cl_conn s) 1 HELLO_INCOMPATIBLE\<rparr>)"

definition sensor_receiver_new :: "SensorDescriptor \<Rightarrow> SensorReceiver" where
  "sensor_receiver_new d =
     \<lparr>sr_descriptor = d,
      sr_assembler = assembler_new (deadline_for_rate (fof_int B32 (uint (sd_max_hz d)))) SENSOR_MAX_PENDING_FRAMES,
      sr_first_frame_logged = False\<rparr>"

definition client_on_describe :: "'c services \<Rightarrow> bool \<Rightarrow> bytes \<Rightarrow> 'c Client \<Rightarrow> 'c Client" where
  "client_on_describe w wrote data s =
     (case decode_session_describe (f_describe w) data of
        Inl _ \<Rightarrow> s
      | Inr info \<Rightarrow>
          let (cache, cached) = check_and_record_profile (cl_profile_cache s) wrote (di_robot_id info) (di_profile_hash info);
              s = client_send_stream w 1 (encode_session_accept_full (f_accept w) info cached)
                    (s\<lparr>cl_profile_cache := cache\<rparr>)
          in s\<lparr>cl_sensors := List.map sensor_receiver_new (di_sensors info),
               cl_hud_sensors := List.map (\<lambda>d. sensor_hud_new (sd_label d)) (di_sensors info),
               cl_forwarder := map_option (\<lambda>f. pause_while_visible (fst (discard_waiting f))) (cl_forwarder s),
               cl_session_info := Some info, cl_phase := ClientOperating, cl_hud_phase := HudOperating\<rparr>)"

definition client_on_estop :: "bytes \<Rightarrow> 'c Client \<Rightarrow> 'c Client" where
  "client_on_estop data s =
     (case estop_decode data of None \<Rightarrow> s | Some d \<Rightarrow> s\<lparr>cl_estopped := ed_latched d\<rparr>)"

definition client_on_stream_data :: "'c services \<Rightarrow> bool \<Rightarrow> u64 \<Rightarrow> bytes \<Rightarrow> 'c Client \<Rightarrow> 'c Client" where
  "client_on_stream_data w wrote stream_id data s =
     (if stream_id = 0 \<and> cl_phase s = ClientAwaitingHello then client_on_hello w data s
      else if stream_id = 1 \<and> cl_phase s = ClientAwaitingDescribe then client_on_describe w wrote data s
      else if stream_id = ESTOP_STREAM_ID then client_on_estop data s
      else s)"

text \<open>One read of a bidirectional stream: what stream 1 carries is decoded whole, at its end.\<close>

definition client_on_stream :: "'c services \<Rightarrow> bool \<Rightarrow> u64 \<Rightarrow> bytes \<Rightarrow> bool \<Rightarrow> 'c Client \<Rightarrow> 'c Client" where
  "client_on_stream w wrote stream_id data fin s =
     (if stream_id = 1
      then
        let s = s\<lparr>cl_describe_buf := cl_describe_buf s @ data\<rparr>
        in if fin then client_on_stream_data w wrote stream_id (cl_describe_buf s) (s\<lparr>cl_describe_buf := []\<rparr>) else s
      else client_on_stream_data w wrote stream_id data s)"

section \<open>Datagrams\<close>

fun recording_category_for :: "ChannelBCategory \<Rightarrow> Category" where
  "recording_category_for CatCommand = ChannelBCommand"
| "recording_category_for CatTelemetry = ChannelBTelemetry"
| "recording_category_for CatHaptic = ChannelBHaptic"

definition client_on_telemetry :: "ChannelBFrameData \<Rightarrow> 'c Client \<Rightarrow> 'c Client" where
  "client_on_telemetry fr s =
     s\<lparr>cl_telemetry_last_seq := Some (cb_seq fr),
       cl_telemetry := (case telemetry_unpack (cb_fields fr) of None \<Rightarrow> cl_telemetry s | Some t \<Rightarrow> Some t)\<rparr>"

definition client_on_channel_b :: "'c services \<Rightarrow> u64 \<Rightarrow> bytes \<Rightarrow> 'c Client \<Rightarrow> 'c Client" where
  "client_on_channel_b w us payload s =
     (let fr = decode_channel_b_frame (f_frame w) payload;
          s = client_record (recording_category_for (cb_category fr)) us payload s
      in if cb_category fr = CatTelemetry then client_on_telemetry fr s else s)"

text \<open>A picture's unit on its way to the player; \<open>room\<close> is whether the player takes it.\<close>

definition client_on_video :: "u64 \<Rightarrow> bool \<Rightarrow> bytes \<Rightarrow> 'c Client \<Rightarrow> 'c Client" where
  "client_on_video us room payload s =
     (let (rx, complete) = channel_a_on_datagram (cl_video_rx s) payload; s = s\<lparr>cl_video_rx := rx\<rparr>
      in case complete of
           None \<Rightarrow> s
         | Some (nal_id, nal) \<Rightarrow>
             let s = client_record VideoA us nal s;
                 is_critical = (4 \<le> length nal \<and> nal_is_critical (drop 4 nal));
                 nal_type = (if 4 < length nal then nal ! 4 AND 0x1F else 0);
                 (gate, admitted) = admit (cl_video_gate s) nal_id nal_type;
                 s = s\<lparr>cl_video_gate := gate\<rparr>
             in if \<not> admitted then s
                else case cl_player s of
                       None \<Rightarrow> s
                     | Some queue \<Rightarrow>
                         if room then s\<lparr>cl_player := Some (queue @ [(nal, is_critical)])\<rparr>
                         else s\<lparr>cl_video_gate := playback_overflowed gate\<rparr>)"

definition client_on_datagram :: "'c services \<Rightarrow> u64 \<Rightarrow> bool \<Rightarrow> bytes \<Rightarrow> 'c Client \<Rightarrow> 'c Client option" where
  "client_on_datagram w us room data s =
     (case data of
        [] \<Rightarrow> Some s
      | t # payload \<Rightarrow>
          if t = ESTOP_DATAGRAM_MAGIC then Some (client_on_estop data s)
          else if t = DATAGRAM_TAG_CHANNEL_B \<and> cl_phase s = ClientOperating then Some (client_on_channel_b w us payload s)
          else if t = DATAGRAM_TAG_CHANNEL_A then Some (client_on_video us room payload s)
          else if t = DATAGRAM_TAG_SENSOR_SLICE \<and> cl_phase s = ClientOperating then on_sensor_slice us payload s
          else if t = DATAGRAM_TAG_TOPIC then
            (case sample_decode payload of Inl _ \<Rightarrow> Some s | Inr sample \<Rightarrow> Some (client_republish w sample s))
          else Some s)"

section \<open>The tick\<close>

definition movement_stale :: "instant \<Rightarrow> 'c Client \<Rightarrow> bool" where
  "movement_stale now s =
     (case cl_last_move_input_at s of None \<Rightarrow> False | Some t \<Rightarrow> cl_move_stale s \<le> duration_since now t)"

definition zero_stale :: "instant \<Rightarrow> 'c Client \<Rightarrow> 'c Client" where
  "zero_stale now s =
     (if movement_stale now s \<and> \<not> teleop_idle (cl_last_command s)
      then s\<lparr>cl_last_command := stop_moving (cl_last_command s)\<rparr> else s)"

definition take_demo_action :: "'c services \<Rightarrow> u64 \<Rightarrow> 'c Client \<Rightarrow> 'c Client" where
  "take_demo_action w us s =
     (case cl_demo_action s of None \<Rightarrow> s | Some action \<Rightarrow> send_action_trigger w us action (s\<lparr>cl_demo_action := None\<rparr>))"

definition yields_control :: "instant \<Rightarrow> 'c Client \<Rightarrow> bool" where
  "yields_control now s = (cl_observer s \<and> (cl_last_move_input_at s = None \<or> movement_stale now s))"

definition command_frame :: "u64 \<Rightarrow> u64 \<Rightarrow> TeleopCommand \<Rightarrow> ChannelBFrameData" where
  "command_frame us seq cmd =
     \<lparr>cb_timestamp = us, cb_seq = seq, cb_tick_id = 0, cb_category = CatCommand, cb_region_id = ALL_REGIONS,
      cb_fields = tc_pack cmd\<rparr>"

definition send_command :: "'c services \<Rightarrow> u64 \<Rightarrow> 'c Client \<Rightarrow> 'c Client" where
  "send_command w us s =
     (let s = s\<lparr>cl_channel_b_seq := cl_channel_b_seq s + 1, cl_last_send_ts := us\<rparr>;
          bs = encode_channel_b_frame (f_frame w) (command_frame us (cl_channel_b_seq s) (cl_last_command s))
      in client_send_datagram w (tag DATAGRAM_TAG_CHANNEL_B bs) (client_record ChannelBCommand us bs s))"

definition send_heartbeat :: "'c services \<Rightarrow> 'c Client \<Rightarrow> 'c Client" where
  "send_heartbeat w s =
     (let s = s\<lparr>cl_channel_b_seq := cl_channel_b_seq s + 1\<rparr>
      in client_send_datagram w (tag DATAGRAM_TAG_HEARTBEAT (be64 (cl_channel_b_seq s))) s)"

definition client_on_tick :: "'c services \<Rightarrow> instant \<Rightarrow> u64 \<Rightarrow> 'c Client \<Rightarrow> 'c Client option" where
  "client_on_tick w now us s =
     (if cl_phase s \<noteq> ClientOperating then Some s
      else map_option (\<lambda>s.
        let s = take_demo_action w us (zero_stale now s);
            s = s\<lparr>cl_observing := yields_control now s\<rparr>
        in if cl_observing s then send_heartbeat w s else send_command w us s) (poll_sensors us s))"

section \<open>Losing the robot\<close>

text \<open>\<open>"recv watchdog: peer silent too long"\<close>.\<close>

definition PEER_SILENT :: bytes where
  "PEER_SILENT = List.map (\<lambda>c. word_of_nat (of_char c)) ''recv watchdog: peer silent too long''"

text \<open>The end of a turn; \<open>gone\<close> is \<open>conn.is_closed()\<close>.  The result says whether the connection is lost.\<close>

definition check_link :: "'c services \<Rightarrow> instant \<Rightarrow> bool \<Rightarrow> 'c Client \<Rightarrow> 'c Client \<times> bool" where
  "check_link w now gone s =
     (let recv_stale = (\<not> gone \<and> RECV_WATCHDOG_TIMEOUT < duration_since now (cl_last_recv_at s));
          s = (if recv_stale then s\<lparr>cl_conn := q_close w (cl_conn s) 1 PEER_SILENT\<rparr> else s)
      in if gone \<or> recv_stale then (s\<lparr>cl_hud_phase := HudClosed, cl_reconnect_attempts := 0\<rparr>, True) else (s, False))"

text \<open>A connection attempt offers the saved ticket and falls back to a full handshake without it.
  \<open>fresh\<close> makes a connection and says whether a ticket was offered; \<open>waited\<close> is the connection at the
  deadline and whether it is established.\<close>

definition connect_with_resume_fallback ::
  "(bytes option \<Rightarrow> ('c \<times> bool) option) \<Rightarrow> ('c \<Rightarrow> 'c \<times> bool) \<Rightarrow> bytes option \<Rightarrow> 'c option \<times> bytes option" where
  "connect_with_resume_fallback fresh waited ticket =
     (case fresh ticket of
        None \<Rightarrow> (None, ticket)
      | Some (conn, offered) \<Rightarrow>
          if \<not> offered then (Some conn, ticket)
          else
            let (conn, established) = waited conn
            in if established then (Some conn, ticket) else (map_option fst (fresh None), None))"

definition reconnected :: "ClientSetup \<Rightarrow> 'c \<Rightarrow> instant \<Rightarrow> 'c Client \<Rightarrow> 'c Client" where
  "reconnected su conn now s =
     s\<lparr>cl_conn := conn, cl_phase := ClientAwaitingHello, cl_describe_buf := [], cl_video_gate := gate_new,
       cl_bulk_rx := bulk_receiver_new, cl_bulk_streams := [], cl_topics := link_new (client_max_mbps su) now,
       cl_topics_negotiated := False, cl_next_uni_stream := FIRST_CLIENT_UNI_STREAM, cl_session_info := None,
       cl_sensors := [], cl_hud_sensors := [], cl_hud_phase := HudAwaitingHello, cl_last_recv_at := now\<rparr>"

definition reconnect_attempt ::
  "(bytes option \<Rightarrow> ('c \<times> bool) option) \<Rightarrow> ('c \<Rightarrow> 'c \<times> bool) \<Rightarrow> ClientSetup \<Rightarrow> instant \<Rightarrow> 'c Client \<Rightarrow> 'c Client" where
  "reconnect_attempt fresh waited su now s =
     (let s = s\<lparr>cl_reconnect_attempts := cl_reconnect_attempts s + 1\<rparr>;
          (conn, ticket) = connect_with_resume_fallback fresh waited (cl_ticket_file s);
          s = s\<lparr>cl_ticket_file := ticket\<rparr>
      in case conn of None \<Rightarrow> s | Some conn \<Rightarrow> reconnected su conn now s)"

section \<open>Turns of the loop\<close>

text \<open>The branches of the \<open>select\<close>, the reads of a packet taken one by one, and what other tasks do to
  the forwarder.\<close>

datatype 'c client_event =
    ClTick instant u64
  | ClPacket instant
  | ClGreeting bool
  | ClStream bool u64 bytes bool
  | ClUni "string \<Rightarrow> bool" u64 bytes bool
  | ClUniReset u64
  | ClDatagram u64 bool bytes
  | ClPump instant
  | ClTicket bytes
  | ClSamples
  | ClInput instant u64 bytes TeleopInput
  | ClLocalSample TopicMode bool TopicSample
  | ClCheck instant bool
  | ClReconnect "bytes option \<Rightarrow> ('c \<times> bool) option" "'c \<Rightarrow> 'c \<times> bool" ClientSetup instant

text \<open>The state after a turn and whether the operator has quit.\<close>

fun client_step :: "'c services \<Rightarrow> 'c client_event \<Rightarrow> 'c Client \<Rightarrow> ('c Client \<times> bool) option" where
  "client_step w (ClTick now us) s = map_option (\<lambda>s. (s, False)) (client_on_tick w now us s)"
| "client_step w (ClPacket now) s = Some (s\<lparr>cl_last_recv_at := now\<rparr>, False)"
| "client_step w (ClGreeting ready) s = Some (client_greet w ready s, False)"
| "client_step w (ClStream wrote stream_id data fin) s = Some (client_on_stream w wrote stream_id data fin s, False)"
| "client_step w (ClUni saves stream_id data fin) s = Some (client_on_uni w saves stream_id data fin s, False)"
| "client_step w (ClUniReset stream_id) s = Some (client_on_uni_reset stream_id s, False)"
| "client_step w (ClDatagram us room data) s = map_option (\<lambda>s. (s, False)) (client_on_datagram w us room data s)"
| "client_step w (ClPump now) s = map_option (\<lambda>s. (s, False)) (client_pump_topics w now s)"
| "client_step w (ClTicket ticket) s = Some (save_session ticket s, False)"
| "client_step w ClSamples s = Some (take_samples s, False)"
| "client_step w (ClInput now us shown_as input) s = Some (dispatch_teleop_input w now us shown_as input s)"
| "client_step w (ClLocalSample mode put sample) s =
     Some (s\<lparr>cl_forwarder := map_option (\<lambda>f. on_local_sample f mode put sample) (cl_forwarder s)\<rparr>, False)"
| "client_step w (ClCheck now gone) s = Some (fst (check_link w now gone s), False)"
| "client_step w (ClReconnect fresh waited su now) s = Some (reconnect_attempt fresh waited su now s, False)"

inductive client_run :: "'c services \<Rightarrow> 'c Client \<Rightarrow> 'c client_event list \<Rightarrow> 'c Client \<Rightarrow> bool"
  for w :: "'c services" and s0 :: "'c Client" where
  start: "client_run w s0 [] s0"
| turn: "client_run w s0 es s \<Longrightarrow> client_step w e s = Some (s', False) \<Longrightarrow> client_run w s0 (es @ [e]) s'"

end
