(* ===== verification/Console_Video.thy ===== *)
theory Console_Video
  imports Console_Session
begin

text \<open>What reconnecting leaves of a lost session: the NALs still incomplete in \<open>video_rx\<close>.  The robot's
  encoder numbers the NALs of every session from zero.\<close>

section \<open>A full reassembler\<close>

text \<open>As many NALs pending as are kept, all numbered above \<open>i\<close>.\<close>

definition crowded_above :: "u32 \<Rightarrow> NalReassembler \<Rightarrow> bool" where
  "crowded_above i r \<longleftrightarrow> distinct (keys (nr_pending r)) \<and> length (nr_pending r) = nr_max_pending r
     \<and> list_all (\<lambda>k. i < k) (keys (nr_pending r))"

lemma update_new: "k \<notin> set (keys m) \<Longrightarrow> AList.update k v m = m @ [(k, v)]"
  by (induction m) auto

lemma delete_absent: "k \<notin> set (keys m) \<Longrightarrow> AList.delete k m = m"
  by (induction m) auto

lemma lone_chunk:
  "pending_complete (pending_store pending_new header payload) \<longleftrightarrow> ch_chunk_index header = 0 \<and> ch_is_last header"
proof -
  have "unat (ch_chunk_index header) = 0 \<longleftrightarrow> ch_chunk_index header = 0" by (simp add: unat_eq_0)
  then show ?thesis
    by (auto simp: pending_complete_def pending_store_def pending_new_def resize_def Let_def nth_append list_all_length
        nth_list_update)
qed

lemma on_chunk_crowded:
  assumes "crowded_above (ch_nal_id header) r" and "\<not> (ch_chunk_index header = 0 \<and> ch_is_last header)"
  shows "on_chunk r header payload = (r, None)"
proof -
  let ?i = "ch_nal_id header" and ?e = "pending_store pending_new header payload"
  have new: "?i \<notin> set (keys (nr_pending r))" using assms(1) by (auto simp: crowded_above_def list_all_iff)
  then have none: "map_of (nr_pending r) ?i = None" by (simp add: map_of_eq_None_iff)
  have "Min (set (keys (nr_pending r @ [(?i, ?e)]))) = ?i"
    by (rule Min_eqI) (use assms(1) in \<open>auto simp: crowded_above_def list_all_iff less_imp_le\<close>)
  then have "evict_oldest (nr_max_pending r) (nr_pending r @ [(?i, ?e)]) = nr_pending r"
    using assms(1) delete_absent [OF new] by (simp add: evict_oldest_def crowded_above_def AList.delete_eq)
  then show ?thesis
    using assms(2) by (auto simp: on_chunk_def none Let_def lone_chunk update_new [OF new])
qed

lemma on_chunk_roomy:
  assumes "ch_nal_id header \<notin> set (keys (nr_pending r))" and "length (nr_pending r) < nr_max_pending r"
    and "\<not> (ch_chunk_index header = 0 \<and> ch_is_last header)"
  shows "on_chunk r header payload
    = (r\<lparr>nr_pending := nr_pending r @ [(ch_nal_id header, pending_store pending_new header payload)]\<rparr>, None)"
proof -
  have none: "map_of (nr_pending r) (ch_nal_id header) = None" using assms(1) by (simp add: map_of_eq_None_iff)
  show ?thesis using assms(2,3)
    by (auto simp: on_chunk_def none Let_def lone_chunk update_new [OF assms(1)] evict_oldest_def)
qed

section \<open>After a reconnection\<close>

text \<open>A datagram with a piece, not the whole, of a NAL numbered at most \<open>i\<close>.\<close>

definition piece_up_to :: "u32 \<Rightarrow> bytes \<Rightarrow> bool" where
  "piece_up_to i data \<longleftrightarrow> (case chunk_header_decode data of None \<Rightarrow> False
     | Some (header, payload) \<Rightarrow> ch_nal_id header \<le> i \<and> \<not> (ch_chunk_index header = 0 \<and> ch_is_last header))"

lemma piece_lost:
  assumes "piece_up_to i data" and "crowded_above i (cl_video_rx c)"
  shows "client_on_video us room data c = c"
proof -
  obtain header payload where d: "chunk_header_decode data = Some (header, payload)" "ch_nal_id header \<le> i"
      "\<not> (ch_chunk_index header = 0 \<and> ch_is_last header)"
    using assms(1) by (auto simp: piece_up_to_def split: option.splits prod.splits)
  have "crowded_above (ch_nal_id header) (cl_video_rx c)"
    using assms(2) d(2) by (auto simp: crowded_above_def list_all_iff)
  from on_chunk_crowded [OF this d(3)] have "channel_a_on_datagram (cl_video_rx c) data = (cl_video_rx c, None)"
    by (simp add: channel_a_on_datagram_def d(1))
  then show ?thesis by (simp add: client_on_video_def)
qed

text \<open>C37: A reconnection can leave the console without a picture.  The lost session's NALs that were never
  complete stay; if there are as many as the reassembler keeps, the new session's NALs, which are numbered
  from zero, are the oldest, so each is dropped with its first piece: whatever pieces of NALs numbered up
  to the smallest number left over arrive, in whatever order, nothing about the console changes, and no
  such NAL of more than one datagram reaches the recorder or the player.\<close>

theorem reconnect_can_lose_the_picture:
  assumes "crowded_above i (cl_video_rx c)" and "list_all (\<lambda>(us, room, data). piece_up_to i data) received"
  shows "foldl (\<lambda>c (us, room, data). client_on_video us room data c) (reconnected su conn now c) received
    = reconnected su conn now c"
  using assms(2)
proof (induction received)
  case (Cons d received)
  obtain us room data where d: "d = (us, room, data)" by (metis prod_cases3)
  have "crowded_above i (cl_video_rx (reconnected su conn now c))" using assms(1) by (simp add: reconnected_def)
  from piece_lost [OF _ this, of data us room] Cons d show ?case by simp
qed simp

text \<open>A console that got only the first pieces of 32 NALs, and then the first two pieces of a new session's
  first NAL.\<close>

definition first_piece :: "u32 \<Rightarrow> bytes" where
  "first_piece nal_id = chunk_header_encode \<lparr>ch_nal_id = nal_id, ch_chunk_index = 0, ch_is_last = False\<rparr> @ [0x65]"

definition last_piece :: "u32 \<Rightarrow> bytes" where
  "last_piece nal_id = chunk_header_encode \<lparr>ch_nal_id = nal_id, ch_chunk_index = 1, ch_is_last = True\<rparr> @ [0x65]"

definition lossy_receiver :: "nat \<Rightarrow> NalReassembler" where
  "lossy_receiver n = foldl (\<lambda>r k. fst (channel_a_on_datagram r (first_piece (100 + word_of_nat k))))
     channel_a_receiver_new [0..<n]"

lemma lossy_receiver_keys:
  "n \<le> 32 \<Longrightarrow> keys (nr_pending (lossy_receiver n)) = List.map (\<lambda>k. 100 + word_of_nat k) [0..<n]
    \<and> nr_max_pending (lossy_receiver n) = 32"
proof (induction n)
  case 0
  show ?case by (simp add: lossy_receiver_def channel_a_receiver_new_def reassembler_new_def MAX_PENDING_NALS_def)
next
  case (Suc n)
  let ?r = "lossy_receiver n" and ?h = "\<lparr>ch_nal_id = 100 + word_of_nat n, ch_chunk_index = 0, ch_is_last = False\<rparr>"
  have IH: "keys (nr_pending ?r) = List.map (\<lambda>k. 100 + word_of_nat k) [0..<n]" "nr_max_pending ?r = 32"
    using Suc by simp_all
  have "length (keys (nr_pending ?r)) = n" by (simp add: IH(1))
  then have len: "length (nr_pending ?r) < nr_max_pending ?r" using Suc.prems IH(2) by simp
  have apart: "(word_of_nat n :: u32) \<noteq> word_of_nat k" if "k < n" for k
    using that Suc.prems by (simp add: word_of_nat_eq_iff take_bit_nat_eq_self)
  have new: "ch_nal_id ?h \<notin> set (keys (nr_pending ?r))" by (auto simp: IH(1) dest: apart)
  have decoded: "chunk_header_decode (first_piece (100 + word_of_nat n)) = Some (?h, [0x65])"
    by (simp add: first_piece_def chunk_header.dec_enc)
  have "lossy_receiver (Suc n) = fst (channel_a_on_datagram ?r (first_piece (100 + word_of_nat n)))"
    by (simp add: lossy_receiver_def)
  also have "\<dots> = ?r\<lparr>nr_pending := nr_pending ?r @ [(ch_nal_id ?h, pending_store pending_new ?h [0x65])]\<rparr>"
    by (simp add: channel_a_on_datagram_def decoded on_chunk_roomy [OF new len])
  finally show ?case by (simp add: IH)
qed

definition plain_setup :: ClientSetup where
  "plain_setup = \<lparr>cu_task_class = ClassD, cu_video = True, cu_demo_action = None, cu_move_stale_ms = 400,
     cu_observer = False, cu_bulk_save = False, cu_zenoh = None\<rparr>"

theorem reconnect_can_lose_the_picture_witness:
  "let c = (client_new plain_setup () None [] None None 0)\<lparr>cl_video_rx := lossy_receiver 32\<rparr>
   in foldl (\<lambda>c (us, room, data). client_on_video us room data c) (reconnected plain_setup () 5 c)
        [(1, True, first_piece 0), (2, True, last_piece 0)] = reconnected plain_setup () 5 c"
proof -
  have keys: "keys (nr_pending (lossy_receiver 32)) = List.map (\<lambda>k. 100 + word_of_nat k) [0..<32]"
    "nr_max_pending (lossy_receiver 32) = 32" using lossy_receiver_keys [of 32] by simp_all
  then have "length (keys (nr_pending (lossy_receiver 32))) = 32" by simp
  moreover have "distinct (List.map (\<lambda>k. 100 + word_of_nat k :: u32) [0..<32])"
    "list_all (\<lambda>k. 99 < k) (List.map (\<lambda>k. 100 + word_of_nat k :: u32) [0..<32])"
    by (simp_all add: upt_rec)
  ultimately have "crowded_above 99 (lossy_receiver 32)" by (metis crowded_above_def keys length_map)
  moreover have "list_all (\<lambda>(us, room, data). piece_up_to 99 data)
      [(1 :: u64, True, first_piece 0), (2, True, last_piece 0)]"
    by (simp add: piece_up_to_def first_piece_def last_piece_def chunk_header.dec_enc)
  ultimately show ?thesis
    using reconnect_can_lose_the_picture [of 99 "(client_new plain_setup () None [] None None 0)\<lparr>cl_video_rx := lossy_receiver 32\<rparr>"
        "[(1, True, first_piece 0), (2, True, last_piece 0)]" plain_setup "()" 5] by (simp add: Let_def)
qed

end
