(* ===== verification/Console_Safety.thy ===== *)
theory Console_Safety
  imports Console_Session Edge_Invariants
begin

text \<open>What the console does over time, and console and robot together: it never panics, the commands it
  holds stay within the robot's limits, released controls stop the robot, a command and an E-Stop go all
  the way through.\<close>

section \<open>Assemblers never panic\<close>

definition assembler_sorted :: "FrameAssembler \<Rightarrow> bool" where
  "assembler_sorted a \<longleftrightarrow> sorted_keys (fa_pending a)"

lemma emit_sorted:
  assumes "assembler_sorted a" and "seq \<in> set (keys (fa_pending a))"
  shows "\<exists>a' fr. emit a seq = Some (a', fr) \<and> assembler_sorted a'"
proof -
  obtain p where "map_of (fa_pending a) seq = Some p" using assms(2) by (auto simp: map_of_eq_None_iff dest: weak_map_of_SomeI)
  moreover have "sorted_keys (filter P (AList.delete seq (fa_pending a)))" for P
    using assms(1) by (simp add: assembler_sorted_def)
  ultimately show ?thesis by (simp add: emit_def assembler_sorted_def Let_def)
qed

lemma emit_all_sorted: "assembler_sorted a \<Longrightarrow> \<exists>a' frs. emit_all a seqs = Some (a', frs) \<and> assembler_sorted a'"
proof (induction seqs arbitrary: a)
  case (Cons seq seqs)
  show ?case
  proof (cases "seq \<in> set (keys (fa_pending a))")
    case True
    then obtain a1 fr where "emit a seq = Some (a1, fr)" "assembler_sorted a1" using emit_sorted [OF Cons.prems] by blast
    then show ?thesis using Cons.IH [of a1] True by auto
  qed (use Cons in simp)
qed simp

lemma on_slice_sorted:
  assumes "assembler_sorted a" and "sh_slice_index h < sh_slice_count h"
  shows "\<exists>a' frs. on_slice a h data us = Some (a', frs) \<and> assembler_sorted a'"
proof -
  define seq where "seq = sh_frame_seq h"
  define entry where "entry = (case map_of (fa_pending a) seq of Some p \<Rightarrow> p | None \<Rightarrow> frame_new h us)"
  define i where "i = unat (sh_slice_index h)"
  have i: "i < unat (sh_slice_count h)" using assms(2) by (simp add: i_def word_less_nat_alt)
  let ?put = "\<lambda>p. a\<lparr>fa_pending := sorted_insert seq p (fa_pending a)\<rparr>"
  let ?entry = "entry\<lparr>pf_frame := (pf_frame entry)\<lparr>af_slices := (af_slices (pf_frame entry))[i := Some data]\<rparr>\<rparr>"
  have sorted: "sorted_keys (sorted_insert seq p (fa_pending a))" for p using assms(1) by (simp add: assembler_sorted_def)
  have same: "sorted_insert seq q (sorted_insert seq p (fa_pending a)) = sorted_insert seq q (fa_pending a)" for p q
    using assms(1) by (simp add: assembler_sorted_def)
  have put: "assembler_sorted (?put p)" for p using sorted by (simp add: assembler_sorted_def)
  have emitted: "\<exists>a' fr. emit (?put ?entry) k = Some (a', fr) \<and> assembler_sorted a'"
    if "k \<in> set (keys (sorted_insert seq ?entry (fa_pending a)))" for k
    using emit_sorted [OF put] that by simp
  have here: "seq \<in> set (keys (sorted_insert seq p (fa_pending a)))" for p by simp
  define ks where "ks = keys (sorted_insert seq ?entry (fa_pending a))"
  obtain oldest rest where ks: "ks = oldest # rest" using here [of ?entry] unfolding ks_def [symmetric] by (cases ks) auto
  note o = ks [unfolded ks_def]
  have first: "(case keys (sorted_insert seq ?entry (fa_pending a)) of [] \<Rightarrow> None | oldest # _ \<Rightarrow> f oldest) = f oldest"
    for f :: "u32 \<Rightarrow> 'b option" by (simp only: o list.case)
  obtain a1 fr1 where e1: "emit (?put ?entry) seq = Some (a1, fr1)" "assembler_sorted a1" using emitted [OF here] by blast
  obtain a2 fr2 where e2: "emit (?put ?entry) oldest = Some (a2, fr2)" "assembler_sorted a2"
    using emitted [of oldest] unfolding o by auto
  have stats: "assembler_sorted (a\<lparr>fa_stats := x\<rparr>)" "assembler_sorted (?put p\<lparr>fa_stats := x\<rparr>)" for p x
    using assms(1) put [of p] by (simp_all add: assembler_sorted_def)
  show ?thesis
    using i e1 e2 put stats
    by (simp add: on_slice_def Let_def seq_def [symmetric] entry_def [symmetric] i_def [symmetric] same first)
qed

lemma poll_sorted: "assembler_sorted a \<Longrightarrow> \<exists>a' frs. assembler_poll a us = Some (a', frs) \<and> assembler_sorted a'"
  unfolding assembler_poll_def by (rule emit_all_sorted)

section \<open>Sending topics never panics\<close>

text \<open>What quiche promises: it takes no more than it is offered.\<close>

definition takes_at_most :: "'c stream_send \<Rightarrow> bool" where
  "takes_at_most send \<longleftrightarrow> (\<forall>c sid d fin c' n. send c sid d fin = (c', Inr n) \<longrightarrow> n \<le> length d)"

lemma lane_loop_total:
  assumes "takes_at_most send"
  shows "\<exists>c' l' n. lane_loop send prio lane sid conn l left written = Some (c', l', written + n) \<and> n \<le> left"
  using assms
proof (induction send prio lane sid conn l left written rule: lane_loop.induct)
  case (1 send prio lane sid conn l left written)
  let ?p = "reliable_pending (tl_outbox l) lane"
  let ?e = "min (min (length ?p) LINK_CHUNK) left"
  show ?case
  proof (cases "left = 0 \<or> ?p = []")
    case True
    then show ?thesis by (subst lane_loop.simps) (auto simp: Let_def intro: exI [of _ 0])
  next
    case False
    obtain c1 r where send: "send conn sid (take ?e ?p) False = (c1, r)" by fastforce
    show ?thesis
    proof (cases r)
      case (Inl e)
      then show ?thesis using False send by (subst lane_loop.simps, cases e) (auto simp: Let_def intro: exI [of _ 0])
    next
      case (Inr n)
      have n: "n \<le> ?e" using "1.prems" send Inr by (fastforce simp: takes_at_most_def)
      define pr where "pr = (0 < n \<and> \<not> tl_priority_set l lane)"
      define c2 where "c2 = (if pr then prio c1 sid (lane_urgency lane) False else c1)"
      define l1 where "l1 = (if pr then l\<lparr>tl_priority_set := (tl_priority_set l)(lane := True)\<rparr> else l)"
      define l2 where "l2 = l1\<lparr>tl_outbox := consume_reliable (tl_outbox l1) lane n\<rparr>"
      have le: "\<not> left < n" using n by simp
      have loop: "lane_loop send prio lane sid conn l left written =
          (if n < ?e then Some (c2, l2, written + n) else lane_loop send prio lane sid c2 l2 (left - n) (written + n))"
        by (rule lane_loop_took [where e = ?e and p = pr and ?l1.0 = l1 and ?c1.0 = c1])
          (use False send Inr le in \<open>simp_all add: pr_def l1_def l2_def c2_def\<close>)
      have pair: "(c2, l1) = (if 0 < n \<and> \<not> tl_priority_set l lane
          then (prio c1 sid (lane_urgency lane) False, l\<lparr>tl_priority_set := (tl_priority_set l)(lane := True)\<rparr>)
          else (c1, l))"
        by (simp add: c2_def l1_def pr_def)
      show ?thesis
      proof (cases "n < ?e")
        case True
        then show ?thesis using loop le by (auto intro: exI [of _ n])
      next
        case nl: False
        have "\<exists>c' l' m. lane_loop send prio lane sid c2 l2 (left - n) (written + n) = Some (c', l', written + n + m) \<and> m \<le> left - n"
          by (rule "1.IH" [OF refl False refl send [symmetric] Inr refl pair l2_def le nl "1.prems"])
        then obtain c' l' m where m: "lane_loop send prio lane sid c2 l2 (left - n) (written + n) = Some (c', l', written + n + m)"
          "m \<le> left - n" by blast
        then show ?thesis using le unfolding loop if_not_P [OF nl] by (intro exI [of _ c'] exI [of _ l'] exI [of _ "n + m"]) simp
      qed
    qed
  qed
qed

lemma pump_lane_total:
  assumes "takes_at_most send"
  shows "\<exists>c' b' l' n. pump_lane send prio alloc lane c b l left = Some (c', b', l', n) \<and> n \<le> left"
proof (cases "left = 0 \<or> reliable_pending (tl_outbox l) lane = []")
  case False
  obtain b' sid where sid: "(case tl_send_streams l lane of Some sid \<Rightarrow> (b, sid) | None \<Rightarrow> alloc b) = (b', sid)" by fastforce
  from lane_loop_total [OF assms, of prio lane sid c "l\<lparr>tl_send_streams := (tl_send_streams l)(lane := Some sid)\<rparr>" left 0]
  show ?thesis using False sid by (auto simp: pump_lane_def)
qed (simp add: pump_lane_def)

lemma pump_reliable_total:
  assumes "takes_at_most send"
  shows "\<exists>c' b' l' n. pump_reliable send prio alloc c b l now budget = Some (c', b', l', n)"
proof -
  obtain l0 a where av: "link_available l now = (l0, a)" by fastforce
  define left where "left = min (case budget of None \<Rightarrow> 2 ^ 64 - 1 | Some n \<Rightarrow> n)
    (case map_option (\<lambda>n. n - (if has_datagram (tl_outbox l) then LATEST_RESERVE else 0)) a of None \<Rightarrow> 2 ^ 64 - 1 | Some n \<Rightarrow> n)"
  obtain c1 b1 l1 n where small: "pump_lane send prio alloc Small c b l0 left = Some (c1, b1, l1, n)" "n \<le> left"
    using pump_lane_total [OF assms, of prio alloc Small c b l0 left] by blast
  obtain c2 b2 l2 m where large: "pump_lane send prio alloc Large c1 b1 l1 (left - n) = Some (c2, b2, l2, m)" "m \<le> left - n"
    using pump_lane_total [OF assms, of prio alloc Large c1 b1 l1 "left - n"] by blast
  show ?thesis unfolding pump_reliable_def Let_def av prod.case left_def [symmetric] using small large by auto
qed

lemma feed_topics_total:
  assumes "latest_rel (tl_outbox (cl_topics s)) ws"
  shows "\<exists>c l ws'. feed_topics w now s = Some (s\<lparr>cl_conn := c, cl_topics := l\<rparr>) \<and> latest_rel (tl_outbox l) ws'"
  using assms
proof (induction "length ws" arbitrary: s ws rule: less_induct)
  case less
  show ?case
  proof (cases "\<not> link_has_datagram (cl_topics s) \<or> TOPIC_DGRAM_QUEUE_LIMIT \<le> q_dgram_send_queue_len w (cl_conn s)")
    case True
    then show ?thesis using less.prems
      by (intro exI [of _ "cl_conn s"] exI [of _ "cl_topics s"] exI [of _ ws]) (subst feed_topics.simps, simp)
  next
    case False
    define n where "n = (case q_dgram_max_writable_len w (cl_conn s) of None \<Rightarrow> 0 | Some n \<Rightarrow> n)"
    obtain l d ws1 where pop: "link_pop_datagram (cl_topics s) now n = Some (l, d)" "latest_rel (tl_outbox l) ws1"
      "length ws1 + (if d = None then 0 else 1) \<le> length ws"
      using link_pop_latest [OF less.prems, of now n] by blast
    have feed: "feed_topics w now s = (case d of None \<Rightarrow> Some (s\<lparr>cl_topics := l\<rparr>)
        | Some d \<Rightarrow> feed_topics w now (client_send_datagram w d (s\<lparr>cl_topics := l\<rparr>)))"
      using False pop(1) by (subst feed_topics.simps) (simp add: Let_def n_def [symmetric])
    show ?thesis
    proof (cases d)
      case None
      then show ?thesis using feed pop(2) by (intro exI [of _ "cl_conn s"] exI [of _ l] exI [of _ ws1]) simp
    next
      case (Some b)
      let ?s = "client_send_datagram w b (s\<lparr>cl_topics := l\<rparr>)"
      have "latest_rel (tl_outbox (cl_topics ?s)) ws1" using pop(2) by (simp add: client_send_datagram_def)
      from less.hyps [OF _ this] pop(3) Some obtain c l' ws' where
        "feed_topics w now ?s = Some (?s\<lparr>cl_conn := c, cl_topics := l'\<rparr>)" "latest_rel (tl_outbox l') ws'" by fastforce
      then show ?thesis using feed Some by (auto simp: client_send_datagram_def)
    qed
  qed
qed

lemma client_pump_total:
  assumes "latest_rel (tl_outbox (cl_topics s)) ws" and "takes_at_most (lane_send w)"
  shows "\<exists>c n l ws'. client_pump_topics w now s = Some (s\<lparr>cl_conn := c, cl_next_uni_stream := n, cl_topics := l\<rparr>)
    \<and> latest_rel (tl_outbox l) ws'"
proof (cases "cl_forwarder s = None \<or> cl_phase s \<noteq> ClientOperating")
  case True
  then show ?thesis using assms(1)
    by (intro exI [of _ "cl_conn s"] exI [of _ "cl_next_uni_stream s"] exI [of _ "cl_topics s"] exI [of _ ws])
      (simp add: client_pump_topics_def)
next
  case False
  obtain c l ws1 where feed: "feed_topics w now s = Some (s\<lparr>cl_conn := c, cl_topics := l\<rparr>)" "latest_rel (tl_outbox l) ws1"
    using feed_topics_total [OF assms(1)] by blast
  obtain c' b' l' k where pump: "pump_reliable (lane_send w) (q_stream_priority w) client_alloc c (cl_next_uni_stream s) l now None
      = Some (c', b', l', k)"
    using pump_reliable_total [OF assms(2), of "q_stream_priority w" client_alloc c "cl_next_uni_stream s" l now None] by blast
  from pump_reliable_latest [OF pump feed(2)] show ?thesis
    using False feed(1) pump
    by (intro exI [of _ c'] exI [of _ b'] exI [of _ l'] exI [of _ ws1]) (auto simp: client_pump_topics_def)
qed

section \<open>The well-formed console\<close>

definition client_ok :: "'c Client \<Rightarrow> bool" where
  "client_ok s \<longleftrightarrow>
     (case cl_session_info s of
        None \<Rightarrow> cl_phase s \<noteq> ClientOperating \<and> cl_sensors s = [] \<and> cl_hud_sensors s = []
      | Some info \<Rightarrow> cl_phase s = ClientOperating
          \<and> List.map sr_descriptor (cl_sensors s) = di_sensors info
          \<and> List.map hs_label (cl_hud_sensors s) = List.map sd_label (di_sensors info))
     \<and> (\<forall>r \<in> set (cl_sensors s). assembler_sorted (sr_assembler r))
     \<and> (\<exists>ws. latest_rel (tl_outbox (cl_topics s)) ws)
     \<and> (cl_topics_negotiated s \<longrightarrow> cl_forwarder s \<noteq> None \<and> cl_phase s \<noteq> ClientAwaitingHello)
     \<and> (cl_observing s \<longrightarrow> cl_observer s)"

text \<open>What \<open>client_ok\<close> looks at.\<close>

definition core where
  "core s = ((cl_session_info s, cl_phase s, cl_sensors s, cl_hud_sensors s),
     (tl_outbox (cl_topics s), cl_topics_negotiated s, cl_forwarder s = None, cl_observing s, cl_observer s))"

lemma core_ok: "core s' = core s \<Longrightarrow> client_ok s \<Longrightarrow> client_ok s'"
  by (auto simp: core_def client_ok_def split: option.split)

lemma sending_core [simp]:
  "core (client_record category us payload s) = core s" "core (client_send_datagram w d s) = core s"
  "core (client_send_stream w sid bs s) = core s" "core (client_greet w ready s) = core s"
  "core (save_session ticket s) = core s" "core (send_estop w latched s) = core s"
  "core (send_action_trigger w us action s) = core s" "core (send_camera_control w us s) = core s"
  "core (zero_stale now s) = core s" "core (take_demo_action w us s) = core s"
  "core (send_command w us s) = core s" "core (send_heartbeat w s) = core s"
  by (simp_all add: core_def client_record_def client_send_datagram_def client_send_stream_def client_greet_def
      save_session_def send_estop_def send_action_trigger_def send_camera_control_def zero_stale_def take_demo_action_def
      send_command_def send_heartbeat_def Let_def split: option.split)

lemma on_input_core [simp]: "core (on_input w now us input s) = core s"
proof -
  have "core (s\<lparr>cl_last_move_input_at := x, cl_last_command := y\<rparr>) = core s"
    "core (s\<lparr>cl_camera_controls := z\<rparr>) = core s" "core (toggle_recording s) = core s" for x y z
    by (simp_all add: core_def toggle_recording_def Let_def)
  then show ?thesis by (simp add: on_input_def split: TeleopInput.split)
qed

lemma input_core [simp]: "core (fst (dispatch_teleop_input w now us shown_as input s)) = core s"
  by (simp add: dispatch_teleop_input_def Let_def) (simp add: core_def client_record_def)

lemma sensor_frames_ok_of:
  assumes "client_ok s" and "i < length (cl_sensors s)"
  shows "\<exists>a b. on_sensor_frames_of i frs s = Some (s\<lparr>cl_sensors := a, cl_hud_sensors := b\<rparr>)
    \<and> client_ok (s\<lparr>cl_sensors := a, cl_hud_sensors := b\<rparr>)"
  using assms
proof (induction frs arbitrary: s)
  case Nil
  then show ?case by (intro exI [of _ "cl_sensors s"] exI [of _ "cl_hud_sensors s"]) simp
next
  case (Cons fr frs)
  obtain info where info: "cl_session_info s = Some info" "List.map sr_descriptor (cl_sensors s) = di_sensors info"
    "List.map hs_label (cl_hud_sensors s) = List.map sd_label (di_sensors info)"
    using Cons.prems by (auto simp: client_ok_def split: option.splits)
  have len: "length (cl_hud_sensors s) = length (cl_sensors s)"
    using arg_cong [OF info(2), of length] arg_cong [OF info(3), of length] by simp
  define a where "a = (cl_sensors s)[i := (cl_sensors s ! i)\<lparr>sr_first_frame_logged := True\<rparr>]"
  define b where "b = (cl_hud_sensors s)[i := (cl_hud_sensors s ! i)\<lparr>hs_last_frame_seq := Some (af_frame_seq fr),
     hs_last_completeness := completeness fr,
     hs_last_samples := sample_count (encoding_decode (sd_encoding (sr_descriptor (cl_sensors s ! i))) fr)\<rparr>]"
  let ?s = "s\<lparr>cl_sensors := a, cl_hud_sensors := b\<rparr>"
  have one: "on_sensor_frame i fr s = Some ?s"
    using Cons.prems(2) len by (simp add: on_sensor_frame_def a_def b_def Let_def)
  have same: "List.map sr_descriptor a = List.map sr_descriptor (cl_sensors s)"
    "List.map hs_label b = List.map hs_label (cl_hud_sensors s)" "length a = length (cl_sensors s)"
    using Cons.prems(2) len by (simp_all add: a_def b_def map_update list_update_same_conv)
  have "assembler_sorted (sr_assembler r)" if "r \<in> set a" for r
    using that Cons.prems set_update_subset_insert [of "cl_sensors s" i] unfolding a_def client_ok_def by fastforce
  then have ok: "client_ok ?s" using Cons.prems(1) info same by (simp add: client_ok_def)
  from Cons.IH [OF ok] same(3) Cons.prems(2) one show ?case by auto
qed

lemma put_assembler_ok:
  assumes "client_ok s" and "i < length (cl_sensors s)" and "assembler_sorted a"
  shows "client_ok (put_assembler i a s)" and "length (cl_sensors (put_assembler i a s)) = length (cl_sensors s)"
proof -
  let ?a = "(cl_sensors s)[i := (cl_sensors s ! i)\<lparr>sr_assembler := a\<rparr>]"
  have "List.map sr_descriptor ?a = List.map sr_descriptor (cl_sensors s)"
    using assms(2) by (simp add: map_update list_update_same_conv)
  moreover have "assembler_sorted (sr_assembler r)" if "r \<in> set ?a" for r
    using that assms set_update_subset_insert [of "cl_sensors s" i] unfolding client_ok_def by fastforce
  ultimately show "client_ok (put_assembler i a s)"
    using assms(1) by (auto simp: client_ok_def put_assembler_def split: option.splits)
  show "length (cl_sensors (put_assembler i a s)) = length (cl_sensors s)" by (simp add: put_assembler_def)
qed

lemma poll_sensors_ok:
  assumes "client_ok s" and "\<forall>i \<in> set idx. i < length (cl_sensors s)"
  shows "\<exists>a b. poll_sensors_from us idx s = Some (s\<lparr>cl_sensors := a, cl_hud_sensors := b\<rparr>)
    \<and> client_ok (s\<lparr>cl_sensors := a, cl_hud_sensors := b\<rparr>)"
  using assms
proof (induction idx arbitrary: s)
  case Nil
  then show ?case by (intro exI [of _ "cl_sensors s"] exI [of _ "cl_hud_sensors s"]) simp
next
  case (Cons i idx)
  then have i: "i < length (cl_sensors s)" by simp
  have "assembler_sorted (sr_assembler (cl_sensors s ! i))" using Cons.prems(1) i by (simp add: client_ok_def)
  then obtain x frs where poll: "assembler_poll (sr_assembler (cl_sensors s ! i)) us = Some (x, frs)" "assembler_sorted x"
    using poll_sorted by blast
  note put = put_assembler_ok [OF Cons.prems(1) i poll(2)]
  obtain a b where frames: "on_sensor_frames_of i frs (put_assembler i x s) = Some (s\<lparr>cl_sensors := a, cl_hud_sensors := b\<rparr>)"
    "client_ok (s\<lparr>cl_sensors := a, cl_hud_sensors := b\<rparr>)"
    using sensor_frames_ok_of [OF put(1), of i frs] i put(2) by (auto simp: put_assembler_def)
  have len: "length t = length (cl_sensors s)" if "client_ok (s\<lparr>cl_sensors := t, cl_hud_sensors := b\<rparr>)" for t
    using that Cons.prems(1) i by (auto simp: client_ok_def split: option.splits dest!: arg_cong [of _ _ length])
  from Cons.IH [OF frames(2)] Cons.prems(2) len [OF frames(2)] frames(1) poll(1) show ?case
    by (auto simp: poll_sensor_def)
qed

lemma on_sensor_slice_ok:
  assumes "client_ok s"
  shows "\<exists>s'. on_sensor_slice us payload s = Some s' \<and> client_ok s'"
proof -
  consider "slice_header_decode payload = None"
    | header data where "slice_header_decode payload = Some (header, data)" "sensor_position (sh_sensor_id header) (cl_sensors s) = None"
    | header data i where "slice_header_decode payload = Some (header, data)" "sensor_position (sh_sensor_id header) (cl_sensors s) = Some i"
    by (metis not_Some_eq prod.exhaust)
  then show ?thesis
  proof cases
    case 3
    then have i: "i < length (cl_sensors s)" by (auto simp: sensor_position_def find_Some_iff)
    have hud: "i < length (cl_hud_sensors s)"
      using i assms by (auto simp: client_ok_def split: option.splits dest!: arg_cong [of _ _ length])
    have index: "sh_slice_index header < sh_slice_count header"
      using 3(1) by (auto simp: slice_header_decode_def Let_def split: if_splits)
    have "assembler_sorted (sr_assembler (cl_sensors s ! i))" using assms i by (simp add: client_ok_def)
    then obtain a frs where a: "on_slice (sr_assembler (cl_sensors s ! i)) header data us = Some (a, frs)" "assembler_sorted a"
      using on_slice_sorted [OF _ index] by blast
    note put = put_assembler_ok [OF assms i a(2)]
    from sensor_frames_ok_of [OF put(1), of i frs] i put(2) a(1) 3 hud show ?thesis
      by (auto simp: on_sensor_slice_def)
  qed (use assms in \<open>simp_all add: on_sensor_slice_def\<close>)
qed

lemma forwarder_core: "core (s\<lparr>cl_forwarder := map_option f (cl_forwarder s)\<rparr>) = core s"
  by (simp add: core_def)

lemma republish_core [simp]: "core (client_republish w sample s) = core s"
  by (simp add: client_republish_def forwarder_core)

lemma republish_all_core [simp]: "core (foldl (\<lambda>s sample. client_republish w sample s) s xs) = core s"
  by (induction xs arbitrary: s) simp_all

lemma uni_core [simp]: "core (client_on_uni w saves sid data fin s) = core s"
proof -
  have "core (s\<lparr>cl_topics := fst (link_on_stream_data (cl_topics s) sid data fin)\<rparr>) = core s"
    by (simp add: core_def link_on_stream_data_def Let_def case_prod_unfold)
  moreover have "core (on_bulk_object saves object t) = core t" for object and t :: "'a Client"
    by (simp add: on_bulk_object_def save_file_def core_def Let_def split: option.split)
  ultimately show ?thesis
    by (simp add: client_on_uni_def Let_def case_prod_unfold split: sum.split option.split) (simp add: core_def)
qed

lemma samples_ok:
  assumes "client_ok s"
  shows "client_ok (foldl (\<lambda>s out. client_on_forward out s) s outs)"
  using assms
proof (induction outs arbitrary: s)
  case (Cons out outs)
  have "client_ok (client_on_forward out s)"
    using Cons.prems push_outbox_ok
    by (auto simp: client_on_forward_def client_ok_def link_push_def split: option.splits)
  then show ?case using Cons.IH by simp
qed simp

lemma hello_ok:
  assumes "client_ok s" and "cl_phase s = ClientAwaitingHello"
  shows "client_ok (client_on_hello w data s)"
proof -
  have "ns_capability_bitmask n AND TOPIC_FORWARDING = 0"
    if "negotiate (local_hello_capabilities c False) p = Inr n" for c p n
    using that by (auto simp: negotiate_def local_hello_capabilities_def split: if_splits)
  with assms show ?thesis
    by (cases "cl_forwarder s") (auto simp: client_on_hello_def client_ok_def split: sum.split option.splits)
qed

lemma describe_ok:
  assumes "client_ok s" and "cl_phase s = ClientAwaitingDescribe"
  shows "client_ok (client_on_describe w wrote data s)"
proof -
  have "assembler_sorted (sr_assembler (sensor_receiver_new d))" for d
    by (simp add: assembler_sorted_def sensor_receiver_new_def assembler_new_def)
  then show ?thesis using assms
    by (auto simp: client_on_describe_def client_ok_def client_send_stream_def sensor_receiver_new_def sensor_hud_new_def
        comp_def Let_def case_prod_unfold split: sum.split)
qed

lemma stream_ok:
  assumes "client_ok s"
  shows "client_ok (client_on_stream w wrote sid data fin s)"
proof -
  have estop: "core (client_on_estop d t) = core t" for d and t :: "'a Client"
    by (simp add: client_on_estop_def core_def split: option.split)
  have data: "client_ok (client_on_stream_data w wrote i d t)" if "client_ok t" for i d and t :: "'a Client"
    using that hello_ok describe_ok core_ok [OF estop] by (auto simp: client_on_stream_data_def)
  have "core (s\<lparr>cl_describe_buf := x\<rparr>) = core s" for x by (simp add: core_def)
  from core_ok [OF this assms] have buf: "client_ok (s\<lparr>cl_describe_buf := x\<rparr>)" for x .
  show ?thesis using data buf assms by (simp add: client_on_stream_def Let_def)
qed

lemma datagram_ok:
  assumes "client_ok s"
  shows "\<exists>s'. client_on_datagram w us room data s = Some s' \<and> client_ok s'"
proof -
  have "core (client_on_video us room d s) = core s" "core (client_on_channel_b w us d s) = core s"
    "core (client_on_estop d s) = core s" for d
    by (simp_all add: client_on_video_def client_on_channel_b_def client_on_telemetry_def client_record_def client_on_estop_def
        core_def Let_def case_prod_unfold split: option.split)
  with assms on_sensor_slice_ok [OF assms] show ?thesis
    by (auto simp: client_on_datagram_def intro: core_ok split: list.split sum.split)
qed

lemma tick_ok:
  assumes "client_ok s"
  shows "\<exists>s'. client_on_tick w now us s = Some s' \<and> client_ok s'"
proof (cases "cl_phase s = ClientOperating")
  case True
  obtain t where t: "poll_sensors us s = Some t" "client_ok t"
    using poll_sensors_ok [OF assms, of "[0..<length (cl_sensors s)]" us] by (auto simp: poll_sensors_def)
  let ?t = "take_demo_action w us (zero_stale now t)"
  have "client_ok ?t" by (rule core_ok [OF _ t(2)]) simp
  then have "client_ok (?t\<lparr>cl_observing := yields_control now ?t\<rparr>)"
    by (auto simp: client_ok_def yields_control_def split: option.splits)
  then show ?thesis using True t(1) by (auto simp: client_on_tick_def Let_def intro: core_ok)
qed (use assms in \<open>simp add: client_on_tick_def\<close>)

lemma fresh_outbox: "\<exists>ws. latest_rel (tl_outbox (link_new mbps now)) ws"
  by (auto simp: latest_rel_def link_new_def with_backlog_def intro: exI [of _ "[]"])

lemma client_step_ok:
  assumes "client_ok s" and "takes_at_most (lane_send w)"
  shows "\<exists>s' q. client_step w e s = Some (s', q) \<and> client_ok s'"
proof (cases e)
  case (ClTick now us)
  then show ?thesis using tick_ok [OF assms(1), of w now us] by auto
next
  case (ClDatagram us room data)
  then show ?thesis using datagram_ok [OF assms(1), of w us room data] by auto
next
  case (ClPump now)
  obtain ws where "latest_rel (tl_outbox (cl_topics s)) ws" using assms(1) by (auto simp: client_ok_def)
  from client_pump_total [OF this assms(2), of now] obtain c n l ws' where
    pump: "client_pump_topics w now s = Some (s\<lparr>cl_conn := c, cl_next_uni_stream := n, cl_topics := l\<rparr>)"
      "latest_rel (tl_outbox l) ws'" by blast
  have "client_ok (s\<lparr>cl_conn := c, cl_next_uni_stream := n, cl_topics := l\<rparr>)"
    using assms(1) pump(2) by (auto simp: client_ok_def split: option.split)
  then show ?thesis using pump(1) ClPump by auto
next
  case (ClStream wrote sid data fin)
  then show ?thesis using stream_ok [OF assms(1)] by auto
next
  case ClSamples
  have "client_ok (s\<lparr>cl_forwarder := Some f\<rparr>)" if "cl_forwarder s = Some f'" for f f'
    using that by (intro core_ok [OF _ assms(1)]) (simp add: core_def)
  then show ?thesis using ClSamples samples_ok assms(1) by (auto simp: take_samples_def split: option.split)
next
  case (ClReconnect fresh waited su now)
  then show ?thesis using assms(1) fresh_outbox
    by (auto simp: reconnect_attempt_def reconnected_def client_ok_def Let_def case_prod_unfold split: option.splits)
next
  case (ClInput now us shown_as input)
  have "client_ok (fst (dispatch_teleop_input w now us shown_as input s))" by (rule core_ok [OF input_core assms(1)])
  then show ?thesis using ClInput by (cases "dispatch_teleop_input w now us shown_as input s") auto
next
  case (ClUniReset sid)
  have "core (client_on_uni_reset sid s) = core s" by (simp add: client_on_uni_reset_def link_on_stream_reset_def core_def)
  from core_ok [OF this assms(1)] show ?thesis using ClUniReset by auto
next
  case (ClUni saves sid data fin)
  then show ?thesis using core_ok [OF uni_core assms(1)] by auto
next
  case (ClPacket now)
  have "core (s\<lparr>cl_last_recv_at := now\<rparr>) = core s" by (simp add: core_def)
  from core_ok [OF this assms(1)] show ?thesis using ClPacket by auto
next
  case (ClCheck now gone)
  have "core (fst (check_link w now gone s)) = core s" by (simp add: check_link_def core_def Let_def)
  from core_ok [OF this assms(1)] show ?thesis using ClCheck by auto
next
  case (ClGreeting ready)
  then show ?thesis using core_ok [OF sending_core(4) assms(1)] by auto
next
  case (ClTicket ticket)
  then show ?thesis using core_ok [OF sending_core(5) assms(1)] by auto
next
  case (ClLocalSample mode put sample)
  then show ?thesis using core_ok [OF forwarder_core assms(1)] by auto
qed

lemma client_new_ok: "client_ok (client_new su conn forwarder recorder ticket profiles now)"
  by (simp add: client_ok_def client_new_def fresh_outbox)


section \<open>A console played through\<close>

definition demo_client_setup :: ClientSetup where
  "demo_client_setup = \<lparr>cu_task_class = ClassD, cu_video = True, cu_demo_action = None, cu_move_stale_ms = 500,
     cu_observer = False, cu_bulk_save = False, cu_zenoh = None\<rparr>"

definition demo_client :: "unit Client" where
  "demo_client = client_new demo_client_setup () None [] None None 0"

text \<open>The handshake with the robot of the demonstration services.\<close>

definition client_waiting :: "unit Client" where
  "client_waiting = client_on_hello demo_services [] demo_client"

definition client_operating :: "unit Client" where
  "client_operating = client_on_describe demo_services True [] (client_waiting\<lparr>cl_describe_buf := []\<rparr>)"

lemma client_waiting_eq:
  "client_waiting = demo_client\<lparr>cl_topics_negotiated := False, cl_phase := ClientAwaitingDescribe, cl_hud_phase := HudAwaitingDescribe\<rparr>"
proof -
  have "cl_task_class demo_client = ClassD" "cl_forwarder demo_client = None"
    by (simp_all add: demo_client_def client_new_def demo_client_setup_def)
  then show ?thesis by (simp add: client_waiting_def client_on_hello_def demo_hello)
qed

lemma client_operating_phase: "cl_phase client_operating = ClientOperating"
proof -
  obtain info where "decode_session_describe (f_describe demo_services) [] = Inr info"
    by (simp add: decode_session_describe_def demo_services_def describe_table_def)
  then show ?thesis by (simp add: client_operating_def client_on_describe_def Let_def case_prod_unfold)
qed

definition client_handshake :: "unit client_event list" where
  "client_handshake = [ClStream True 0 [] False, ClStream True 1 [] True]"

lemma client_handshake_run: "client_run demo_services demo_client client_handshake client_operating"
proof -
  have phase: "cl_phase demo_client = ClientAwaitingHello" "cl_phase client_waiting = ClientAwaitingDescribe"
    "cl_describe_buf client_waiting = []"
    by (simp_all add: client_waiting_eq) (simp_all add: demo_client_def client_new_def)
  have steps: "client_step demo_services (ClStream True 0 [] False) demo_client = Some (client_waiting, False)"
    "client_step demo_services (ClStream True 1 [] True) client_waiting = Some (client_operating, False)"
    using phase by (simp_all add: client_on_stream_def client_on_stream_data_def client_waiting_def client_operating_def)
  show ?thesis
    using client_run.turn [OF client_run.turn [OF client_run.start steps(1)] steps(2)] by (simp add: client_handshake_def)
qed

lemma demo_takes: "takes_at_most (lane_send demo_services)"
  by (auto simp: takes_at_most_def lane_send_def demo_services_def)


end
