(* ===== verification/Console_Control.thy ===== *)
theory Console_Control
  imports Console_Safety
begin

text \<open>The commands the console holds and sends.\<close>

section \<open>Ranges\<close>

definition band :: "rat \<Rightarrow> rat \<Rightarrow> u32 \<Rightarrow> bool" where
  "band lo hi v \<longleftrightarrow> fle (Fin lo) (f32_of_bits v) \<and> fle (f32_of_bits v) (Fin hi)"

lemma bits_of_int: "\<bar>n\<bar> \<le> 2 ^ 24 \<Longrightarrow> f32_of_bits (f32_to_bits (Fin (of_int n))) = Fin (of_int n)"
  using f32_of_to_bits_rnd [of "of_int n" "\<bar>n\<bar>"] rnd_of_int [of n B32] by simp

lemma clamp_band:
  assumes "\<not> is_nan (f32_of_bits v)" and "lo \<le> hi" "\<bar>lo\<bar> \<le> 2 ^ 24" "\<bar>hi\<bar> \<le> 2 ^ 24"
  shows "band (of_int lo) (of_int hi) (f32_clamp (of_int lo) (of_int hi) v)"
  using assms bits_of_int [of lo] bits_of_int [of hi]
  by (cases "f32_of_bits v") (auto simp: band_def f32_clamp_def is_nan_def)

lemma band_fin: "band lo hi v \<Longrightarrow> \<exists>x. f32_of_bits v = Fin x \<and> lo \<le> x \<and> x \<le> hi"
  by (cases "f32_of_bits v") (auto simp: band_def)

lemma add_number:
  assumes "band lo hi v" and "speed_within m d" and "- 8000 \<le> lo" "hi \<le> 8000" "m \<le> 8000"
  shows "\<not> is_nan (f32_of_bits (f32_add v d))"
proof -
  obtain x where x: "f32_of_bits v = Fin x" "lo \<le> x" "x \<le> hi" using band_fin [OF assms(1)] by blast
  have "band (- m) m d" using assms(2) by (simp add: band_def speed_within_def)
  then obtain y where y: "f32_of_bits d = Fin y" "- m \<le> y" "y \<le> m" using band_fin by blast
  have b: "\<bar>x + y\<bar> \<le> of_int 16000" using x y assms(3-5) by (simp add: abs_le_iff)
  have "f32_add v d = f32_to_bits (Fin (rnd B32 (x + y)))"
    using fround_to_small(1) [OF b, of B32] x(1) y(1) by (simp add: f32_add_def)
  then show ?thesis using f32_of_to_bits_rnd [OF b] by (simp add: is_nan_def)
qed

lemma nudged_band:
  assumes "band (of_int lo) (of_int hi) v" and "speed_within m d" and "m \<le> 8000"
    and "lo \<le> hi" "- 8000 \<le> lo" "hi \<le> 8000"
  shows "band (of_int lo) (of_int hi) (f32_clamp (of_int lo) (of_int hi) (f32_add v d))"
  using add_number [OF assms(1,2) _ _ assms(3)] assms by (intro clamp_band) simp_all

section \<open>The arm's keep-out\<close>

lemma round_away_nonneg: "0 \<le> y \<Longrightarrow> 0 \<le> round_away y"
  by (simp add: round_away_def)

text \<open>The line through the two measured points, rounded in binary32: from 70 mm at height 0 to 30 mm at
  height 35.\<close>

lemma keep_out_ends: "min_safe_arm_x 0 = 70" "min_safe_arm_x 35 = 30"
  by code_simp+

lemma clamp_sint: "-32768 \<le> lo \<Longrightarrow> lo \<le> hi \<Longrightarrow> hi \<le> 32767 \<Longrightarrow> sint (clamp_i16 lo hi v) = max lo (min hi (sint v))"
  by (simp add: clamp_i16_def sint_word_of_int_u16 max_def min_def)

lemma keep_out_range: "0 \<le> sint (min_safe_arm_x z)" "sint (min_safe_arm_x z) \<le> 70"
proof -
  define h where "h = sint (clamp_i16 0 35 z)"
  have h: "0 \<le> h" "h \<le> 35" using clamp_sint [of 0 35 z] by (simp_all add: h_def)
  define c where "c = rnd B32 (40 / 35)"
  have c: "0 \<le> c" "c \<le> 2" using rnd_nonneg [of "40 / 35" B32] rnd_le_int [of "40 / 35" 2 B32] by (simp_all add: c_def)
  have "c * of_int h \<le> 2 * 35" using c h by (intro mult_mono) simp_all
  moreover have "0 \<le> c * of_int h" using c h by simp
  ultimately have p: "\<bar>c * of_int h\<bar> \<le> of_int 70" by simp
  define q where "q = rnd B32 (c * of_int h)"
  have q: "0 \<le> q" "q \<le> 70" using fround_to_small(2) [OF p, of B32] rnd_nonneg [of "c * of_int h" B32] c h by (simp_all add: q_def)
  then have r: "\<bar>70 - q\<bar> \<le> of_int 70" by (simp add: abs_le_iff)
  define y where "y = rnd B32 (70 - q)"
  have y: "0 \<le> y" "\<bar>y\<bar> \<le> of_int 70"
    using fround_to_small(2) [OF r, of B32] rnd_nonneg [of "70 - q" B32] q by (simp_all add: y_def)
  have "fround (fsub B32 (Fin 70) (fmul B32 (fdiv B32 (Fin 40) (Fin 35)) (fof_int B32 h))) = Fin (of_int (round_away y))"
    using fround_to_small(1) [of "40 / 35" 2 B32] fround_to_small(1) [OF p, of B32] fround_to_small(1) [OF r, of B32]
      fround_to_of_int [of h B32] h
    by (simp add: fsub_def fof_int_def c_def q_def y_def)
  then have "min_safe_arm_x z = word_of_int (max (-32768) (min 32767 (trunc_rat (of_int (round_away y)))))"
    by (simp add: min_safe_arm_x_def h_def)
  moreover have "0 \<le> round_away y" "round_away y \<le> 70" using round_away_nonneg [OF y(1)] round_away_le [OF y(2)] by simp_all
  ultimately have "sint (min_safe_arm_x z) = round_away y" by (simp add: trunc_rat_def sint_word_of_int_u16)
  then show "0 \<le> sint (min_safe_arm_x z)" "sint (min_safe_arm_x z) \<le> 70"
    using \<open>0 \<le> round_away y\<close> \<open>round_away y \<le> 70\<close> by simp_all
qed

lemma sint_add_i16:
  "-32768 \<le> sint (a :: i16) + sint b \<Longrightarrow> sint a + sint b \<le> 32767 \<Longrightarrow> sint (a + b) = sint a + sint b"
  using sint_word_of_int_u16 [of "sint a + sint b"] by simp

section \<open>The commands stay in range\<close>

definition command_ok :: "TeleopCommand \<Rightarrow> bool" where
  "command_ok cmd \<longleftrightarrow>
     band (- 15) 15 (tc_vx cmd) \<and> band (- 12) 12 (tc_vy cmd) \<and> band (- 60) 60 (tc_turn cmd)
     \<and> band (- 20) 20 (tc_attitude_r cmd) \<and> band (- 10) 10 (tc_attitude_p cmd) \<and> band (- 12) 12 (tc_attitude_y cmd)
     \<and> sint (tc_arm_x cmd) \<in> {-80..155} \<and> sint (tc_arm_z cmd) \<in> {-95..155}
     \<and> ((tc_arm_x cmd = 0 \<and> tc_arm_z cmd = 0) \<or> sint (min_safe_arm_x (tc_arm_z cmd)) \<le> sint (tc_arm_x cmd))"

definition camera_ok :: "CameraControlState \<Rightarrow> bool" where
  "camera_ok c \<longleftrightarrow> band (- 1) 1 (cm_brightness c) \<and> band 0 2 (cm_contrast c) \<and> band (- 4) 4 (cm_ev c) \<and> cm_shutter_us c \<le> 100000"

lemma zero_band: "lo \<le> 0 \<Longrightarrow> 0 \<le> hi \<Longrightarrow> band lo hi (f32_lit 0)"
  by (simp add: band_def scale_lits)

lemma nudge_arm_ok:
  assumes "command_ok cmd" and "\<bar>sint dx\<bar> \<le> 10" "\<bar>sint dz\<bar> \<le> 10"
  shows "command_ok (nudge_arm dx dz cmd)"
proof -
  have old: "sint (tc_arm_x cmd) \<in> {-80..155}" "sint (tc_arm_z cmd) \<in> {-95..155}" using assms(1) by (simp_all add: command_ok_def)
  define x where "x = clamp_i16 (-80) 155 (tc_arm_x cmd + dx)"
  define z where "z = clamp_i16 (-95) 155 (tc_arm_z cmd + dz)"
  have xz: "sint x \<in> {-80..155}" "sint z \<in> {-95..155}" using clamp_sint [of "-80" 155] clamp_sint [of "-95" 155] by (simp_all add: x_def z_def)
  define x' where "x' = i16_min (i16_max x (min_safe_arm_x z)) 155"
  have "sint x' \<in> {-80..155}" "sint (min_safe_arm_x z) \<le> sint x'"
    using xz keep_out_range [of z] by (auto simp: x'_def i16_min_def i16_max_def)
  then show ?thesis using assms(1) xz by (simp add: nudge_arm_def command_ok_def Let_def x_def [symmetric] z_def [symmetric] x'_def [symmetric])
qed

lemma nudge_attitude_ok:
  assumes "command_ok cmd" and "speed_within 2 delta"
  shows "command_ok (nudge_attitude axis delta cmd)"
  using assms nudged_band [of "-20" 20 "tc_attitude_r cmd" 2 delta] nudged_band [of "-10" 10 "tc_attitude_p cmd" 2 delta]
    nudged_band [of "-12" 12 "tc_attitude_y cmd" 2 delta]
  by (simp add: nudge_attitude_def command_ok_def)

lemma neutral_ok: "command_ok cmd \<Longrightarrow> command_ok (reset_attitude cmd) \<and> command_ok (neutral_pose cmd)"
  by (simp add: command_ok_def reset_attitude_def neutral_pose_def zero_band)

lemma stop_moving_ok: "command_ok cmd \<Longrightarrow> command_ok (stop_moving cmd)"
  by (simp add: command_ok_def stop_moving_def zero_band)

lemma command_input_ok:
  assumes "command_ok cmd" and "legal_input input"
  shows "command_ok (command_input input cmd)"
proof (cases input)
  case (MoveInput vx vy)
  then show ?thesis using assms by (simp add: command_input_def command_ok_def band_def speed_within_def)
next
  case (TurnInput turn)
  then show ?thesis using assms by (simp add: command_input_def command_ok_def band_def speed_within_def)
qed (use assms nudge_arm_ok nudge_attitude_ok neutral_ok in \<open>auto simp: command_input_def nudge_claw_def command_ok_def\<close>)

lemma nudge_camera_ok:
  assumes "camera_ok c" and "speed_within 2000 delta"
  shows "camera_ok (nudge_camera param delta c)"
proof -
  have shutter: "(word_of_int (max 0 (min 100000 n)) :: u32) \<le> 100000" for n :: int
  proof -
    have "uint (word_of_int (max 0 (min 100000 n)) :: u32) = max 0 (min 100000 n)" by (simp add: unsigned_of_int take_bit_int_eq_self)
    then show ?thesis by (simp add: word_le_def)
  qed
  show ?thesis
    using assms nudged_band [of "-1" 1 "cm_brightness c" 2000 delta] nudged_band [of 0 2 "cm_contrast c" 2000 delta]
      nudged_band [of "-4" 4 "cm_ev c" 2000 delta] shutter
    by (simp add: nudge_camera_def camera_ok_def)
qed

lemma camera_default_ok: "camera_ok camera_state_default"
  using f32_lit_int [of 1] by (simp add: camera_state_default_def camera_ok_def scale_lits band_def)

definition controls_ok :: "'c Client \<Rightarrow> bool" where
  "controls_ok s \<longleftrightarrow> command_ok (cl_last_command s) \<and> camera_ok (cl_camera_controls s)"

lemma frames_shape: "on_sensor_frames_of i frs s = Some t \<Longrightarrow> \<exists>a b. t = s\<lparr>cl_sensors := a, cl_hud_sensors := b\<rparr>"
proof (induction frs arbitrary: s)
  case Nil
  then show ?case by (intro exI [of _ "cl_sensors s"] exI [of _ "cl_hud_sensors s"]) simp
next
  case (Cons fr frs)
  then obtain s1 where "on_sensor_frame i fr s = Some s1" "on_sensor_frames_of i frs s1 = Some t"
    by (auto simp: bind_eq_Some_conv)
  then show ?case using Cons.IH [of s1] by (fastforce simp: on_sensor_frame_def Let_def split: if_splits)
qed

lemma poll_shape: "poll_sensors_from us idx s = Some t \<Longrightarrow> \<exists>a b. t = s\<lparr>cl_sensors := a, cl_hud_sensors := b\<rparr>"
proof (induction idx arbitrary: s)
  case Nil
  then show ?case by (intro exI [of _ "cl_sensors s"] exI [of _ "cl_hud_sensors s"]) simp
next
  case (Cons i idx)
  then obtain s1 where "poll_sensor us i s = Some s1" "poll_sensors_from us idx s1 = Some t"
    by (auto simp: bind_eq_Some_conv)
  moreover from this(1) obtain a b where "s1 = s\<lparr>cl_sensors := a, cl_hud_sensors := b\<rparr>"
    by (fastforce simp: poll_sensor_def put_assembler_def bind_eq_Some_conv dest!: frames_shape)
  ultimately show ?case using Cons.IH [of s1] by fastforce
qed

lemma feed_shape:
  assumes "feed_topics w now s = Some t"
  shows "\<exists>c l. t = s\<lparr>cl_conn := c, cl_topics := l\<rparr>"
proof (rule feed_topics.raw_induct [where P = "\<lambda>w now s t. \<exists>c l. t = s\<lparr>cl_conn := c, cl_topics := l\<rparr>", OF _ assms])
  fix feed :: "'a services \<Rightarrow> instant \<Rightarrow> 'a Client \<Rightarrow> 'a Client option" and w :: "'a services" and now and s t :: "'a Client"
  assume rec: "\<And>w now s t. feed w now s = Some t \<Longrightarrow> \<exists>c l. t = s\<lparr>cl_conn := c, cl_topics := l\<rparr>"
  let ?n = "case q_dgram_max_writable_len w (cl_conn s) of None \<Rightarrow> 0 | Some n \<Rightarrow> n"
  assume body: "(if \<not> link_has_datagram (cl_topics s) \<or> TOPIC_DGRAM_QUEUE_LIMIT \<le> q_dgram_send_queue_len w (cl_conn s) then Some s
      else let max_len = ?n
        in Option.bind (link_pop_datagram (cl_topics s) now max_len) (\<lambda>(topics, d).
             let s = s\<lparr>cl_topics := topics\<rparr>
             in case d of None \<Rightarrow> Some s | Some d \<Rightarrow> feed w now (client_send_datagram w d s))) = Some t"
  have topics: "s\<lparr>cl_topics := l\<rparr> = s\<lparr>cl_conn := cl_conn s, cl_topics := l\<rparr>" for l by (cases s) simp
  show "\<exists>c l. t = s\<lparr>cl_conn := c, cl_topics := l\<rparr>"
  proof (cases "\<not> link_has_datagram (cl_topics s) \<or> TOPIC_DGRAM_QUEUE_LIMIT \<le> q_dgram_send_queue_len w (cl_conn s)")
    case True
    then have "t = s\<lparr>cl_conn := cl_conn s, cl_topics := cl_topics s\<rparr>" using body by simp
    then show ?thesis by blast
  next
    case False
    obtain l d where pop: "(case d of None \<Rightarrow> Some (s\<lparr>cl_topics := l\<rparr>)
        | Some d \<Rightarrow> feed w now (client_send_datagram w d (s\<lparr>cl_topics := l\<rparr>))) = Some t"
      using body unfolding if_not_P [OF False] Let_def by (auto simp: bind_eq_Some_conv)
    show ?thesis
    proof (cases d)
      case None
      then have "t = s\<lparr>cl_topics := l\<rparr>" using pop by simp
      from trans [OF this topics] show ?thesis by blast
    next
      case (Some x)
      then have "feed w now (client_send_datagram w x (s\<lparr>cl_topics := l\<rparr>)) = Some t" using pop by simp
      from rec [OF this] obtain c l' where "t = (client_send_datagram w x (s\<lparr>cl_topics := l\<rparr>))\<lparr>cl_conn := c, cl_topics := l'\<rparr>"
        by blast
      then have "t = s\<lparr>cl_conn := c, cl_topics := l'\<rparr>" by (simp add: client_send_datagram_def)
      then show ?thesis by blast
    qed
  qed
qed

text \<open>What the operator holds: only an input, a stale movement or an action changes it.\<close>

definition held where
  "held s = (cl_last_command s, cl_camera_controls s)"

lemma held_ok: "held s' = held s \<Longrightarrow> controls_ok s' = controls_ok s"
  by (simp add: held_def controls_ok_def)

lemma sending_held [simp]:
  "held (client_record category us payload s) = held s" "held (client_send_datagram w d s) = held s"
  "held (client_send_stream w sid bs s) = held s" "held (client_greet w ready s) = held s"
  "held (save_session ticket s) = held s" "held (send_estop w latched s) = held s"
  "held (send_camera_control w us s) = held s" "held (send_command w us s) = held s" "held (send_heartbeat w s) = held s"
  by (simp_all add: held_def client_record_def client_send_datagram_def client_send_stream_def client_greet_def
      save_session_def send_estop_def send_camera_control_def send_command_def send_heartbeat_def Let_def)

lemmas controls_sending [simp] = sending_held [THEN held_ok]

lemma republish_held [simp]:
  "held (client_republish w sample s) = held s" "held (foldl (\<lambda>s sample. client_republish w sample s) s xs) = held s"
proof -
  show one: "held (client_republish w sample s) = held s" for sample and s :: "'a Client"
    by (simp add: client_republish_def held_def)
  show "held (foldl (\<lambda>s sample. client_republish w sample s) s xs) = held s"
    by (induction xs arbitrary: s) (simp_all add: one)
qed

lemma uni_held [simp]: "held (client_on_uni w saves sid data fin s) = held s"
proof -
  have "held (on_bulk_object saves object t) = held t" for object and t :: "'a Client"
    by (simp add: on_bulk_object_def save_file_def held_def Let_def split: option.split)
  moreover have "held (s\<lparr>cl_topics := l\<rparr>) = held s" "held (s\<lparr>cl_bulk_streams := i, cl_bulk_rx := r\<rparr>) = held s" for l i r
    by (simp_all add: held_def)
  ultimately show ?thesis
    by (simp add: client_on_uni_def Let_def case_prod_unfold split: sum.split option.split)
qed

lemma stream_held [simp]: "held (client_on_stream w wrote sid data fin s) = held s"
proof -
  have data: "held (client_on_stream_data w wrote i d t) = held t" for i d and t :: "'a Client"
    by (simp add: client_on_stream_data_def client_on_hello_def client_on_describe_def client_on_estop_def
        client_send_stream_def held_def Let_def case_prod_unfold split: sum.split option.split)
  show ?thesis by (simp add: client_on_stream_def Let_def data) (simp add: held_def)
qed

lemma samples_held [simp]: "held (take_samples s) = held s"
proof -
  have "held (foldl (\<lambda>s out. client_on_forward out s) t outs) = held t" for outs and t :: "'a Client"
    by (induction outs arbitrary: t) (simp_all add: client_on_forward_def held_def)
  then show ?thesis by (simp add: take_samples_def held_def split: option.split)
qed

lemma datagram_held:
  assumes "client_on_datagram w us room data s = Some t"
  shows "held t = held s"
proof -
  have small: "held (client_on_video us room d s) = held s" "held (client_on_channel_b w us d s) = held s"
    "held (client_on_estop d s) = held s" for d
    by (simp_all add: client_on_video_def client_on_channel_b_def client_on_telemetry_def client_record_def client_on_estop_def
        held_def Let_def case_prod_unfold split: option.split)
  have slice: "held t = held s" if "on_sensor_slice us d s = Some t" for d
    using that by (auto simp: on_sensor_slice_def put_assembler_def bind_eq_Some_conv held_def
        split: option.splits if_splits dest!: frames_shape)
  from assms show ?thesis
    by (auto simp: client_on_datagram_def small slice split: list.splits if_splits sum.splits)
qed

lemma zero_stale_ok: "controls_ok s \<Longrightarrow> controls_ok (zero_stale now s)"
  by (simp add: zero_stale_def controls_ok_def stop_moving_ok)

lemma trigger_ok: "controls_ok s \<Longrightarrow> controls_ok (send_action_trigger w us action s)"
  by (simp add: send_action_trigger_def controls_ok_def client_send_stream_def client_record_def stop_moving_ok Let_def)

lemma tick_controls:
  assumes "client_on_tick w now us s = Some t" and "controls_ok s"
  shows "controls_ok t"
proof (cases "cl_phase s = ClientOperating")
  case True
  then obtain s1 where s1: "poll_sensors us s = Some s1"
    and t: "t = (let s = take_demo_action w us (zero_stale now s1); s = s\<lparr>cl_observing := yields_control now s\<rparr>
        in if cl_observing s then send_heartbeat w s else send_command w us s)"
    using assms(1) by (auto simp: client_on_tick_def)
  obtain a b where "s1 = s\<lparr>cl_sensors := a, cl_hud_sensors := b\<rparr>" using poll_shape s1 unfolding poll_sensors_def by blast
  then have "controls_ok s1" using assms(2) by (simp add: controls_ok_def)
  moreover have "controls_ok (x\<lparr>cl_demo_action := y\<rparr>) = controls_ok x" for x :: "'a Client" and y by (simp add: controls_ok_def)
  ultimately have "controls_ok (take_demo_action w us (zero_stale now s1))"
    by (simp add: take_demo_action_def zero_stale_ok trigger_ok split: option.split)
  moreover have "controls_ok (x\<lparr>cl_observing := y\<rparr>) = controls_ok x" for x :: "'a Client" and y by (simp add: controls_ok_def)
  ultimately show ?thesis by (simp add: t Let_def)
qed (use assms in \<open>simp add: client_on_tick_def\<close>)

lemma input_controls:
  assumes "controls_ok s" and "legal_input input"
  shows "controls_ok (fst (dispatch_teleop_input w now us shown_as input s))"
proof -
  let ?s = "client_record KeyPress us shown_as s"
  have rec: "controls_ok ?s" using assms(1) by simp
  have cam: "controls_ok (?s\<lparr>cl_camera_controls := c\<rparr>)" if "camera_ok c" for c
    using that rec by (simp add: controls_ok_def)
  have toggle: "controls_ok (toggle_recording ?s)" using rec by (simp add: controls_ok_def toggle_recording_def Let_def)
  have nudged: "camera_ok (nudge_camera param delta (cl_camera_controls ?s))" if "speed_within 2000 delta" for param delta
    using nudge_camera_ok that rec by (simp add: controls_ok_def)
  have "controls_ok (on_input w now us input ?s)"
  proof (cases "takes_control input")
    case True
    then show ?thesis using rec command_input_ok [OF _ assms(2)] by (simp add: on_input_def controls_ok_def)
  next
    case False
    then have "on_input w now us input ?s =
        (case input of
           ActionInput action_id \<Rightarrow> send_action_trigger w us action_id ?s
         | CameraNudge param delta \<Rightarrow>
             send_camera_control w us (?s\<lparr>cl_camera_controls := nudge_camera param delta (cl_camera_controls ?s)\<rparr>)
         | CameraReset \<Rightarrow> send_camera_control w us (?s\<lparr>cl_camera_controls := camera_state_default\<rparr>)
         | EstopInput \<Rightarrow> send_estop w True ?s
         | EstopClearInput \<Rightarrow> send_estop w False ?s
         | EstopToggle \<Rightarrow> send_estop w (\<not> cl_estopped ?s) ?s
         | ToggleRecording \<Rightarrow> toggle_recording ?s
         | _ \<Rightarrow> ?s)"
      unfolding on_input_def by (rule if_not_P)
    moreover have "speed_within 2000 delta" if "input = CameraNudge param delta" for param delta using assms(2) that by simp
    ultimately show ?thesis using rec toggle cam [OF camera_default_ok] cam [OF nudged] trigger_ok [OF rec]
      by (cases input) simp_all
  qed
  moreover have "controls_ok (?s\<lparr>cl_conn := c\<rparr>)" for c using rec by (simp add: controls_ok_def)
  ultimately show ?thesis by (simp add: dispatch_teleop_input_def Let_def)
qed

lemma pump_held:
  assumes "client_pump_topics w now s = Some t"
  shows "held t = held s"
proof (cases "cl_forwarder s = None \<or> cl_phase s \<noteq> ClientOperating")
  case False
  then obtain s1 where s1: "feed_topics w now s = Some s1"
    and t: "\<exists>c n l. t = s1\<lparr>cl_conn := c, cl_next_uni_stream := n, cl_topics := l\<rparr>"
    using assms unfolding client_pump_topics_def if_not_P [OF False] by (auto simp: bind_eq_Some_conv)
  from feed_shape [OF s1] t show ?thesis by (auto simp: held_def)
qed (use assms in \<open>auto simp: client_pump_topics_def split: if_splits\<close>)

lemma client_step_controls:
  assumes "client_step w e s = Some (s', q)" and "controls_ok s"
    and "\<And>now us shown_as input. e = ClInput now us shown_as input \<Longrightarrow> legal_input input"
  shows "controls_ok s'"
proof (cases e)
  case (ClTick now us)
  then show ?thesis using assms tick_controls by auto
next
  case (ClDatagram us room data)
  then show ?thesis using assms(1,2) held_ok [OF datagram_held, of w us room data s s'] by auto
next
  case (ClPump now)
  then show ?thesis using assms(1,2) held_ok [OF pump_held, of w now s s'] by auto
next
  case (ClInput now us shown_as input)
  then have "controls_ok (fst (dispatch_teleop_input w now us shown_as input s))" using assms input_controls by blast
  then show ?thesis using assms(1) ClInput by (cases "dispatch_teleop_input w now us shown_as input s") simp
next
  case (ClReconnect fresh waited su now)
  have "controls_ok (reconnect_attempt fresh waited su now s)"
    using assms(2) by (simp add: reconnect_attempt_def reconnected_def controls_ok_def Let_def case_prod_unfold split: option.split)
  then show ?thesis using assms(1) ClReconnect by simp
next
  case (ClCheck now gone)
  then show ?thesis using assms by (auto simp: check_link_def controls_ok_def Let_def)
next
  case (ClStream wrote sid data fin)
  then show ?thesis using assms held_ok [OF stream_held, of w wrote sid data fin s] by auto
next
  case (ClUni saves sid data fin)
  then show ?thesis using assms held_ok [OF uni_held, of w saves sid data fin s] by auto
next
  case ClSamples
  then show ?thesis using assms held_ok [OF samples_held, of s] by auto
qed (use assms in \<open>auto simp: controls_ok_def client_on_uni_reset_def client_greet_def client_send_stream_def save_session_def\<close>)

lemma client_new_controls: "controls_ok (client_new su conn forwarder recorder ticket profiles now)"
  by (simp add: client_new_def first_command_def controls_ok_def command_ok_def camera_default_ok zero_band)

lemma client_run_controls:
  assumes "client_run w s0 es s" and "controls_ok s0"
    and "\<forall>now us shown_as input. ClInput now us shown_as input \<in> set es \<longrightarrow> legal_input input"
  shows "controls_ok s"
  using assms
proof induction
  case (turn es s e s')
  have "controls_ok s" using turn by auto
  then show ?case using client_step_controls [OF turn(2)] turn.prems(2) by auto
qed



end
