(* ===== verification/Console_Robot.thy ===== *)
theory Console_Robot
  imports Console_Control
begin

text \<open>Console and robot together: released controls stop the robot, a command and an E-Stop go all the way.\<close>

section \<open>What a tick sends\<close>

lemma tick_cases:
  assumes "client_step w (ClTick now us) c = Some (c', q)" and "cl_phase c = ClientOperating"
  obtains c1 where "cl_last_command c1 = cl_last_command c" "cl_last_move_input_at c1 = cl_last_move_input_at c"
    "cl_move_stale c1 = cl_move_stale c" "cl_observer c1 = cl_observer c" "cl_demo_action c1 = cl_demo_action c"
    "cl_phase c1 = ClientOperating" "cl_channel_b_seq c1 = cl_channel_b_seq c"
    "c' = (let c = take_demo_action w us (zero_stale now c1); c = c\<lparr>cl_observing := yields_control now c\<rparr>
           in if cl_observing c then send_heartbeat w c else send_command w us c)"
proof -
  obtain c1 where c1: "poll_sensors us c = Some c1"
    and c': "c' = (let c = take_demo_action w us (zero_stale now c1); c = c\<lparr>cl_observing := yields_control now c\<rparr>
           in if cl_observing c then send_heartbeat w c else send_command w us c)"
    using assms by (auto simp: client_on_tick_def)
  obtain a b where ab: "c1 = c\<lparr>cl_sensors := a, cl_hud_sensors := b\<rparr>" using c1 poll_shape unfolding poll_sensors_def by blast
  show ?thesis by (rule that [OF _ _ _ _ _ _ _ c']) (simp_all add: ab assms(2))
qed

lemma zero_stale_fields [simp]:
  "cl_last_move_input_at (zero_stale now c) = cl_last_move_input_at c" "cl_move_stale (zero_stale now c) = cl_move_stale c"
  "cl_observer (zero_stale now c) = cl_observer c" "cl_demo_action (zero_stale now c) = cl_demo_action c"
  "cl_phase (zero_stale now c) = cl_phase c" "cl_channel_b_seq (zero_stale now c) = cl_channel_b_seq c"
  by (simp_all add: zero_stale_def)

lemma take_demo_fields [simp]:
  "cl_last_move_input_at (take_demo_action w us c) = cl_last_move_input_at c" "cl_move_stale (take_demo_action w us c) = cl_move_stale c"
  "cl_observer (take_demo_action w us c) = cl_observer c" "cl_channel_b_seq (take_demo_action w us c) = cl_channel_b_seq c"
  by (simp_all add: take_demo_action_def send_action_trigger_def client_send_stream_def client_record_def Let_def split: option.split)

lemma take_demo_command:
  "cl_last_command (take_demo_action w us c) =
     (if cl_demo_action c = None \<or> cl_phase c \<noteq> ClientOperating then cl_last_command c else stop_moving (cl_last_command c))"
  by (simp add: take_demo_action_def send_action_trigger_def client_send_stream_def client_record_def Let_def split: option.split)

lemma stop_moving_idle [simp]: "teleop_idle (stop_moving cmd)"
  by (simp add: teleop_idle_def stop_moving_def scale_lits)

definition tick_command :: "instant \<Rightarrow> 'c Client \<Rightarrow> TeleopCommand" where
  "tick_command now c =
     (let cmd = cl_last_command c
      in if movement_stale now c \<and> \<not> teleop_idle cmd \<or> cl_demo_action c \<noteq> None then stop_moving cmd else cmd)"

lemma tick_sends:
  assumes "client_step w (ClTick now us) c = Some (c', q)" and "cl_phase c = ClientOperating"
  shows "cl_last_command c' = tick_command now c" and "cl_channel_b_seq c' = cl_channel_b_seq c + 1"
    and "cl_observing c' = yields_control now c"
    and "\<exists>conn. cl_conn c' = fst (q_dgram_send w conn
      (if yields_control now c then tag DATAGRAM_TAG_HEARTBEAT (be64 (cl_channel_b_seq c'))
       else tag DATAGRAM_TAG_CHANNEL_B (encode_channel_b_frame (f_frame w)
              (command_frame us (cl_channel_b_seq c') (cl_last_command c')))))"
proof -
  obtain c1 where c1: "cl_last_command c1 = cl_last_command c" "cl_last_move_input_at c1 = cl_last_move_input_at c"
    "cl_move_stale c1 = cl_move_stale c" "cl_observer c1 = cl_observer c" "cl_demo_action c1 = cl_demo_action c"
    "cl_phase c1 = ClientOperating" "cl_channel_b_seq c1 = cl_channel_b_seq c"
    and c': "c' = (let c = take_demo_action w us (zero_stale now c1); c = c\<lparr>cl_observing := yields_control now c\<rparr>
           in if cl_observing c then send_heartbeat w c else send_command w us c)"
    using tick_cases [OF assms] by blast
  have stale: "movement_stale now c1 = movement_stale now c"
    using c1 by (cases "cl_last_move_input_at c") (simp_all add: movement_stale_def)
  have yields: "yields_control now (take_demo_action w us (zero_stale now c1)) = yields_control now c"
    using c1 by (cases "cl_last_move_input_at c") (simp_all add: yields_control_def movement_stale_def)
  have "stop_moving (stop_moving cmd) = stop_moving cmd" for cmd by (simp add: stop_moving_def)
  then have cmd: "cl_last_command (take_demo_action w us (zero_stale now c1)) = tick_command now c"
    using c1 stale by (auto simp: take_demo_command zero_stale_def tick_command_def Let_def)
  show "cl_last_command c' = tick_command now c" "cl_channel_b_seq c' = cl_channel_b_seq c + 1"
    "cl_observing c' = yields_control now c"
    "\<exists>conn. cl_conn c' = fst (q_dgram_send w conn
      (if yields_control now c then tag DATAGRAM_TAG_HEARTBEAT (be64 (cl_channel_b_seq c'))
       else tag DATAGRAM_TAG_CHANNEL_B (encode_channel_b_frame (f_frame w)
              (command_frame us (cl_channel_b_seq c') (cl_last_command c')))))"
    using c1 cmd yields
    by (auto simp: c' Let_def send_heartbeat_def send_command_def client_send_datagram_def client_record_def)
qed

text \<open>C6: Released controls stop the robot.  Whatever the operating console's state, a tick that comes when
  the last input is at least the staleness limit old holds a command that does not move, all else in it
  being kept, and sends either that command or, if the operator observes, a heartbeat; before the limit, and
  without a scripted action, a tick sends the command as the operator left it.\<close>

theorem released_controls_stop:
  assumes "client_step w (ClTick now us) c = Some (c', q)" and "cl_phase c = ClientOperating"
    and "cl_last_move_input_at c = Some t"
  shows "if t + cl_move_stale c \<le> now
    then teleop_idle (cl_last_command c')
      \<and> cl_last_command c' \<in> {cl_last_command c, stop_moving (cl_last_command c)}
      \<and> (\<exists>conn. cl_conn c' = fst (q_dgram_send w conn
          (if cl_observer c then tag DATAGRAM_TAG_HEARTBEAT (be64 (cl_channel_b_seq c'))
           else tag DATAGRAM_TAG_CHANNEL_B (encode_channel_b_frame (f_frame w)
                  (command_frame us (cl_channel_b_seq c') (cl_last_command c'))))))
    else cl_demo_action c = None \<and> 0 < cl_move_stale c \<longrightarrow> cl_last_command c' = cl_last_command c
      \<and> (\<exists>conn. cl_conn c' = fst (q_dgram_send w conn
          (tag DATAGRAM_TAG_CHANNEL_B (encode_channel_b_frame (f_frame w)
             (command_frame us (cl_channel_b_seq c') (cl_last_command c))))))"
proof -
  have dur: "duration_since now t = now - t" by (simp add: duration_since_def)
  note sends = tick_sends [OF assms(1,2)]
  show ?thesis
  proof (cases "t + cl_move_stale c \<le> now")
    case True
    then have stale: "movement_stale now c" using assms(3) dur by (simp add: movement_stale_def)
    then have "yields_control now c = cl_observer c" by (simp add: yields_control_def)
    then show ?thesis using sends(1,4) stale True by (auto simp: tick_command_def Let_def)
  next
    case False
    then have "0 < cl_move_stale c \<Longrightarrow> \<not> movement_stale now c" using assms(3) dur by (simp add: movement_stale_def)
    moreover from this have "0 < cl_move_stale c \<Longrightarrow> \<not> yields_control now c" using assms(3) by (simp add: yields_control_def)
    ultimately show ?thesis using sends(1,4) False by (auto simp: tick_command_def Let_def)
  qed
qed

section \<open>A command on its way\<close>

text \<open>Half a hundredth, and the float rounding of both ends.\<close>

definition near :: "u32 \<Rightarrow> u32 \<Rightarrow> bool" where
  "near u v \<longleftrightarrow> (\<exists>x y. f32_of_bits u = Fin x \<and> f32_of_bits v = Fin y \<and> \<bar>y - x\<bar> \<le> 51 / 10000)"

definition command_near :: "TeleopCommand \<Rightarrow> TeleopCommand \<Rightarrow> bool" where
  "command_near cmd cmd' \<longleftrightarrow>
     near (tc_vx cmd) (tc_vx cmd') \<and> near (tc_vy cmd) (tc_vy cmd') \<and> near (tc_turn cmd) (tc_turn cmd')
     \<and> near (tc_attitude_r cmd) (tc_attitude_r cmd') \<and> near (tc_attitude_p cmd) (tc_attitude_p cmd')
     \<and> near (tc_attitude_y cmd) (tc_attitude_y cmd')
     \<and> tc_arm_x cmd' = tc_arm_x cmd \<and> tc_arm_z cmd' = tc_arm_z cmd \<and> tc_claw cmd' = tc_claw cmd
     \<and> (teleop_idle cmd \<longrightarrow> teleop_idle cmd')"

lemma field_near:
  assumes "unpack_scaled (pack_scaled v (Fin 100) Standard) (Fin 100) Standard = Some v'" and "band (- m) m v" "m \<le> 300"
  shows "near v v'"
proof -
  obtain x where x: "f32_of_bits v = Fin x" "- m \<le> x" "x \<le> m" using band_fin [OF assms(2)] by blast
  then have "\<bar>x * 100\<bar> \<le> of_int (tier_limit Standard)" using assms(3) by (simp add: abs_le_iff)
  from pack_scaled_accuracy [OF x(1) this _ _ assms(1)] show ?thesis
    using x(1) by (auto simp: near_def scale_ok_def)
qed

lemma zero_arrives:
  assumes "unpack_scaled (pack_scaled v (Fin 100) Standard) (Fin 100) Standard = Some v'" and "feq (f32_of_bits v) (Fin 0)"
  shows "feq (f32_of_bits v') (Fin 0)"
proof -
  have v: "f32_of_bits v = Fin 0" using assms(2) by (cases "f32_of_bits v") auto
  have "\<lfloor>1 / 2 :: rat\<rfloor> = 0" by (simp add: floor_eq_iff)
  then have "quantize (- 32768) 32767 v (Fin 100) = 0"
    using v fround_to_of_int [of "-32768" B32] fround_to_of_int [of 32767 B32]
    by (simp add: quantize_def round_away_def trunc_rat_def fof_int_def fclamp_def)
  then have "v' = f32_to_bits (Fin 0)"
    using assms(1) fround_to_of_int [of 0 B32] by (simp add: fof_int_def)
  then show ?thesis using bits_of_int [of 0] by simp
qed

lemma command_arrives:
  assumes "command_ok cmd"
  shows "\<exists>cmd'. tc_unpack (tc_pack cmd) = Some cmd' \<and> command_near cmd cmd'"
proof -
  obtain va where va: "va_unpack (va_pack (tc_velocity_attitude cmd) Standard) Standard = Some va"
    "tc_unpack (tc_pack cmd @ []) = Some \<lparr>tc_vx = va_vx va, tc_vy = va_vy va, tc_turn = va_turn va,
      tc_attitude_r = va_roll va, tc_attitude_p = va_pitch va, tc_attitude_y = va_yaw va,
      tc_arm_x = tc_arm_x cmd, tc_arm_z = tc_arm_z cmd, tc_claw = tc_claw cmd\<rparr>" by (rule tc_pack_arrives)
  have "continuous_scale Standard = Fin 100" by (simp add: CONTINUOUS_SCALE_STANDARD_def)
  with va_field_arrives [of "tc_velocity_attitude cmd" Standard "[]" va] va(1)
  have field: "unpack_scaled (pack_scaled v (Fin 100) Standard) (Fin 100) Standard = Some v'"
    if "(v, v') \<in> set (zip (va_fields (tc_velocity_attitude cmd)) (va_fields va))" for v v'
    using that by simp
  have n: "near v v'" if "(v, v') \<in> set (zip (va_fields (tc_velocity_attitude cmd)) (va_fields va))" "band (- m) m v" "m \<le> 300" for v v' m
    by (rule field_near [OF field [OF that(1)] that(2,3)])
  have z: "feq (f32_of_bits v') (Fin 0)"
    if "(v, v') \<in> set (zip (va_fields (tc_velocity_attitude cmd)) (va_fields va))" "feq (f32_of_bits v) (Fin 0)" for v v'
    by (rule zero_arrives [OF field [OF that(1)] that(2)])
  note parts = va_fields_def tc_velocity_attitude_def
  have "near (tc_vx cmd) (va_vx va)" "near (tc_vy cmd) (va_vy va)" "near (tc_turn cmd) (va_turn va)"
    "near (tc_attitude_r cmd) (va_roll va)" "near (tc_attitude_p cmd) (va_pitch va)" "near (tc_attitude_y cmd) (va_yaw va)"
    using n [of "tc_vx cmd" "va_vx va" 15] n [of "tc_vy cmd" "va_vy va" 12] n [of "tc_turn cmd" "va_turn va" 60]
      n [of "tc_attitude_r cmd" "va_roll va" 20] n [of "tc_attitude_p cmd" "va_pitch va" 10]
      n [of "tc_attitude_y cmd" "va_yaw va" 12] assms
    by (simp_all add: parts command_ok_def)
  moreover have "teleop_idle cmd \<Longrightarrow> feq (f32_of_bits (va_vx va)) (Fin 0) \<and> feq (f32_of_bits (va_vy va)) (Fin 0)
      \<and> feq (f32_of_bits (va_turn va)) (Fin 0)"
    using z [of "tc_vx cmd" "va_vx va"] z [of "tc_vy cmd" "va_vy va"] z [of "tc_turn cmd" "va_turn va"]
    by (simp add: parts teleop_idle_def)
  ultimately show ?thesis using va(2) by (simp add: command_near_def teleop_idle_def)
qed

text \<open>The robot reads the frame that the console wrote.\<close>

definition frame_arrives :: "'c services \<Rightarrow> 'd services \<Rightarrow> ChannelBFrameData \<Rightarrow> bool" where
  "frame_arrives w v fr \<longleftrightarrow> decode_channel_b_frame (f_frame v) (encode_channel_b_frame (f_frame w) fr) = fr"

lemma frame_carried:
  assumes "frame_arrives w v (command_frame us n cmd)" and "se_phase s = Operating" "se_bench s = None"
  shows "carried v (tag DATAGRAM_TAG_CHANNEL_B (encode_channel_b_frame (f_frame w) (command_frame us n cmd))) s = tc_unpack (tc_pack cmd)"
  using assms by (simp add: carried_def tag_def frame_arrives_def command_frame_def)

text \<open>C4: A command goes all the way.  The console is in any state it can reach with inputs of the keyboard or
  the gamepad; its tick, when it operates and does not yield, sends one datagram.  A robot that receives it,
  in any operating session whose arbitration then gives the operator full authority and in which no gait
  settles, orders its bridge exactly the body, arm and claw of one command: within half a hundredth of what
  the operator holds, which is within the robot's limits, with the arm and the claw exact, and at rest if
  the operator's command is at rest.  A seated robot that is told to rest gets the arm and the claw only.\<close>

theorem operator_command_reaches_the_bridge:
  assumes "client_run w (client_new su conn forwarder recorder ticket profiles t0) es c"
    and "\<forall>now us shown_as input. ClInput now us shown_as input \<in> set es \<longrightarrow> legal_input input"
    and "client_step w (ClTick now us) c = Some (c', q)" and "cl_phase c = ClientOperating" and "\<not> cl_observing c'"
    and "frame_arrives w v (command_frame us (cl_channel_b_seq c') (cl_last_command c'))"
    and "se_phase s = Operating" and "se_bench s = None" and "\<not> settling now' s"
    and "source_at now' (heard now' (se_safety s)) s = FullTeleoperation"
  shows "command_ok (cl_last_command c') \<and> (\<exists>conn' d cmd. cl_conn c' = fst (q_dgram_send w conn' d)
    \<and> command_near (cl_last_command c') cmd
    \<and> new_commands s (on_datagram v now' us' room d s) = in_sequence (se_channel_b_seq s)
        ((if se_sitting s \<and> teleop_idle cmd then [] else body_orders cmd)
         @ [Arm (fof_int B64 (sint (tc_arm_x cmd))) (fof_int B64 (sint (tc_arm_z cmd))), Claw (tc_claw cmd)]))"
proof -
  note sends = tick_sends [OF assms(3,4)]
  have ok: "command_ok (cl_last_command c')"
    using client_step_controls [OF assms(3) client_run_controls [OF assms(1) client_new_controls assms(2)]]
    by (simp add: controls_ok_def)
  from command_arrives [OF ok] obtain cmd where cmd: "tc_unpack (tc_pack (cl_last_command c')) = Some cmd"
    "command_near (cl_last_command c') cmd" by blast
  define d where "d = tag DATAGRAM_TAG_CHANNEL_B (encode_channel_b_frame (f_frame w)
      (command_frame us (cl_channel_b_seq c') (cl_last_command c')))"
  obtain conn' where conn': "cl_conn c' = fst (q_dgram_send w conn' d)"
    using sends(3,4) assms(5) by (auto simp: d_def)
  have "carried v d s = Some cmd" using frame_carried [OF assms(6-8)] cmd(1) by (simp add: d_def)
  then have "new_commands s (on_datagram v now' us' room d s) = in_sequence (se_channel_b_seq s)
        ((if se_sitting s \<and> teleop_idle cmd then [] else body_orders cmd)
         @ [Arm (fof_int B64 (sint (tc_arm_x cmd))) (fof_int B64 (sint (tc_arm_z cmd))), Claw (tc_claw cmd)])"
    using new_commands_step [of v "DatagramIn now' us' room d" s] assms(9,10)
    by (simp add: dispatch_orders_def drive_orders_def)
  with ok conn' cmd(2) show ?thesis by blast
qed

section \<open>An E-Stop on its way\<close>

definition estop_message :: "bool \<Rightarrow> 'c Client \<Rightarrow> bytes" where
  "estop_message latched c = estop_encode \<lparr>ed_latched = latched, ed_seq = cl_estop_seq c + 1\<rparr>"

lemma send_estop_conn:
  "cl_conn (send_estop w latched c) = fst (q_stream_send w (fst (q_dgram_send w (cl_conn c) (estop_message latched c)))
     ESTOP_STREAM_ID (estop_message latched c) False)"
  by (simp add: send_estop_def client_send_stream_def client_send_datagram_def estop_message_def Let_def)

text \<open>C5: The E-Stop key stops the robot.  In any state of the console, before the handshake too, the input
  puts out one datagram and one stream message, which are the same bytes; each of them, arriving at a robot's
  session in any state whatever, keeps every command that moves the robot from its bridge through any
  further events without an unlatching message, and makes every tick after it tell the bridge to stop.  The
  toggle does the same on a console that shows no E-Stop.\<close>

theorem estop_key_stops_the_robot:
  assumes "input = EstopInput \<or> input = EstopToggle \<and> \<not> cl_estopped c"
    and "e = DatagramIn now' us' room (estop_message True c) \<or> e = StreamIn now' us' ESTOP_STREAM_ID (estop_message True c)"
    and "session_step v e s = Some (s1, err)" and "session_run v s1 es s2" and "\<forall>e \<in> set es. \<not> clears e"
  shows "cl_conn (fst (dispatch_teleop_input w now us shown_as input c))
      = fst (q_stream_send w (fst (q_dgram_send w (cl_conn c) (estop_message True c))) ESTOP_STREAM_ID (estop_message True c) False)
    \<and> (\<forall>k \<in> set (new_commands s s2). \<not> moves k)
    \<and> (\<exists>m. Estop m \<in> set (new_commands s2 (on_tick v later us2 s2)))
    \<and> (\<forall>k \<in> set (new_commands s2 (on_tick v later us2 s2)). \<not> moves k)"
proof -
  let ?c = "client_record KeyPress us shown_as c"
  have same: "cl_estopped ?c = cl_estopped c" "cl_conn ?c = cl_conn c" "cl_estop_seq ?c = cl_estop_seq c"
    by (simp_all add: client_record_def)
  have "on_input w now us input ?c = send_estop w True ?c"
    using assms(1) same(1) by (auto simp: on_input_def takes_control_def)
  moreover have "estop_message True ?c = estop_message True c" using same(3) by (simp add: estop_message_def)
  ultimately have conn: "cl_conn (fst (dispatch_teleop_input w now us shown_as input c))
      = fst (q_stream_send w (fst (q_dgram_send w (cl_conn c) (estop_message True c))) ESTOP_STREAM_ID (estop_message True c) False)"
    using assms(1) same(2) by (auto simp: dispatch_teleop_input_def Let_def send_estop_conn)
  have "stops e" using assms(2) estop_decode_encode [of _ "[]"] by (auto simp: latches_def estop_message_def)
  note taken = stop_taken [OF assms(3) this]
  from estopped_run_still [OF assms(4,5) taken(1)] obtain cs where
    s2: "is_estopped (se_safety s2)" "se_bridge s2 = se_bridge s1 @ cs" "\<forall>c \<in> set cs. \<not> moves c" by blast
  have "\<forall>k \<in> set (new_commands s s2). \<not> moves k" using s2(2,3) taken(2) by (simp add: new_commands_def)
  with conn estopped_tick [OF s2(1)] show ?thesis by blast
qed

section \<open>Opening a session\<close>

definition client_hello :: "'c Client \<Rightarrow> HelloCapabilities" where
  "client_hello c = local_hello_capabilities (cl_task_class c) (cl_forwarder c \<noteq> None)"

definition robot_hello :: "'c Session \<Rightarrow> HelloCapabilities" where
  "robot_hello s = local_hello_capabilities (se_task_class s) (se_forwarder s \<noteq> None)"

lemma hellos_negotiate:
  "\<exists>n. negotiate (local_hello_capabilities k a) (local_hello_capabilities k' b) = Inr n
     \<and> (ns_capability_bitmask n AND TOPIC_FORWARDING \<noteq> 0) = (a \<and> b)"
  by (simp add: negotiate_def local_hello_capabilities_def TOPIC_FORWARDING_def)

definition description :: "'c services \<Rightarrow> 'c Session \<Rightarrow> bytes" where
  "description v s = encode_session_describe (f_describe v) (se_robot_id s) (se_profile s) (se_cameras s) (se_sensors s)"

definition described_as :: "'c Session \<Rightarrow> SessionDescribeInfo" where
  "described_as s = understood (se_robot_id s) (se_profile s) (se_cameras s) (se_sensors s)"

text \<open>C8: Console and robot open a session together.  Both are at its beginning, the formats carry the four
  messages, and the connection takes the robot's description whole.  The two HELLOs, whatever task classes
  they name, take both to the next phase with the same answer on topics, which is yes exactly if both
  forward; the description, read in two pieces cut anywhere, makes the console operate with one receiver for
  each sensor it understood, every valid one included; its acceptance makes the robot operate and select
  exactly those sensors; and what either forwarder had waiting from before is gone.\<close>

theorem session_opens:
  assumes "cl_phase c = ClientAwaitingHello" and "cl_describe_buf c = []"
    and "se_phase s = AwaitingHello" and "\<not> se_session_describe_sent s"
    and "decode_hello (f_hello v) (encode_hello (f_hello w) (client_hello c)) = client_hello c"
    and "decode_hello (f_hello w) (encode_hello (f_hello v) (robot_hello s)) = robot_hello s"
    and "f_describe w = f_describe v" and "f_accept w = f_accept v"
    and "fb_carries (f_describe v) (describe_table (se_robot_id s) (se_profile s) (se_cameras s) (se_sensors s))"
    and "fb_carries (f_accept v) (accept_table (described_as s)
      (snd (check_and_record_profile (cl_profile_cache c) wrote (se_robot_id s) (profile_hash (se_profile s)))))"
    and "\<forall>d \<in> set (se_sensors s). length (sd_mount_position_m d) = 3 \<and> length (sd_mount_orientation_xyzw d) = 4"
    and "snd (q_stream_send v (se_conn s) 1 (description v s) True) = Inr (length (description v s))"
    and "description v s = part1 @ part2"
    and "s1 = fst (on_stream_data v now us 0 (encode_hello (f_hello w) (client_hello c)) s)"
    and "c1 = client_on_stream w wrote 0 (encode_hello (f_hello v) (robot_hello s)) False c"
    and "c2 = client_on_stream w wrote 1 part2 True (client_on_stream w wrote 1 part1 False c1)"
  shows "se_phase s1 = AwaitingSessionAccept \<and> cl_phase c1 = ClientAwaitingDescribe
    \<and> se_conn s1 = fst (q_stream_send v (se_conn s) 1 (description v s) True)
    \<and> cl_topics_negotiated c2 = (cl_forwarder c \<noteq> None \<and> se_forwarder s \<noteq> None)
    \<and> cl_phase c2 = ClientOperating \<and> cl_session_info c2 = Some (described_as s)
    \<and> List.map sr_descriptor (cl_sensors c2) = di_sensors (described_as s)
    \<and> subseq (filter descriptor_valid (se_sensors s)) (List.map sr_descriptor (cl_sensors c2))
    \<and> (\<forall>f. cl_forwarder c2 = Some f \<longrightarrow> fw_outgoing f = [])
    \<and> (\<exists>accept s2. cl_conn c2 = fst (q_stream_send w (cl_conn c) 1 accept False)
        \<and> on_stream_data v now' us' 1 accept s1 = (s2, None)
        \<and> se_phase s2 = Operating \<and> se_topics_negotiated s2 = cl_topics_negotiated c2
        \<and> se_selected_sensors s2 = List.map (\<lambda>r. sd_sensor_id (sr_descriptor r)) (cl_sensors c2)
        \<and> (\<forall>f. se_forwarder s2 = Some f \<longrightarrow> fw_outgoing f = []))"
proof -
  obtain n where n: "negotiate (robot_hello s) (client_hello c) = Inr n"
    "(ns_capability_bitmask n AND TOPIC_FORWARDING \<noteq> 0) = (cl_forwarder c \<noteq> None \<and> se_forwarder s \<noteq> None)"
    unfolding robot_hello_def client_hello_def using hellos_negotiate by (metis (lifting))
  obtain m where m: "negotiate (client_hello c) (robot_hello s) = Inr m"
    "(ns_capability_bitmask m AND TOPIC_FORWARDING \<noteq> 0) = (cl_forwarder c \<noteq> None \<and> se_forwarder s \<noteq> None)"
    unfolding robot_hello_def client_hello_def using hellos_negotiate by blast
  let ?both = "cl_forwarder c \<noteq> None \<and> se_forwarder s \<noteq> None"
  define bs where "bs = description v s"
  have len: "snd (q_stream_send v (se_conn s) 1 bs True) = Inr (length bs)" using assms(12) by (simp add: bs_def)
  have "on_stream_data v now us 0 (encode_hello (f_hello w) (client_hello c)) s
      = send_session_describe v (s\<lparr>se_topics_negotiated := ?both, se_phase := AwaitingSessionAccept\<rparr>)"
    by (simp only: on_stream_data_def assms(3) simp_thms if_True on_hello_def robot_hello_def [symmetric] assms(5) n sum.case)
  moreover have "fst (send_session_describe v (s\<lparr>se_topics_negotiated := ?both, se_phase := AwaitingSessionAccept\<rparr>))
      = s\<lparr>se_topics_negotiated := ?both, se_phase := AwaitingSessionAccept,
          se_conn := fst (q_stream_send v (se_conn s) 1 bs True), se_session_describe_sent := True\<rparr>"
    using assms(4) len by (simp add: send_session_describe_def bs_def description_def Let_def case_prod_unfold)
  ultimately have s1: "s1 = s\<lparr>se_topics_negotiated := ?both, se_phase := AwaitingSessionAccept,
      se_conn := fst (q_stream_send v (se_conn s) 1 bs True), se_session_describe_sent := True\<rparr>"
    by (simp only: assms(14))
  have c1: "c1 = c\<lparr>cl_topics_negotiated := ?both, cl_phase := ClientAwaitingDescribe, cl_hud_phase := HudAwaitingDescribe\<rparr>"
    using assms(1)
    by (simp only: assms(15) client_on_stream_def client_on_stream_data_def simp_thms if_True if_False zero_neq_one
        client_on_hello_def client_hello_def [symmetric] assms(6) m sum.case)
  have c2: "c2 = client_on_describe w wrote bs (c1\<lparr>cl_describe_buf := []\<rparr>)"
    using assms(2,13) unfolding assms(16) c1
    by (simp add: client_on_stream_def client_on_stream_data_def Let_def bs_def)
  note read = describe_understood [OF assms(9,11), folded described_as_def]
  have bs: "decode_session_describe (f_describe w) bs = Inr (described_as s)"
    using read(1) by (simp add: assms(7) bs_def description_def)
  define cached where
    "cached = snd (check_and_record_profile (cl_profile_cache c) wrote (se_robot_id s) (profile_hash (se_profile s)))"
  define accept where "accept = encode_session_accept_full (f_accept w) (described_as s) cached"
  have c2': "cl_topics_negotiated c2 = ?both" "cl_phase c2 = ClientOperating" "cl_session_info c2 = Some (described_as s)"
    "List.map sr_descriptor (cl_sensors c2) = di_sensors (described_as s)"
    "\<forall>f. cl_forwarder c2 = Some f \<longrightarrow> fw_outgoing f = []"
    "cl_conn c2 = fst (q_stream_send w (cl_conn c) 1 accept False)"
    by (auto simp: c2 client_on_describe_def bs client_send_stream_def c1 sensor_receiver_new_def comp_def Let_def
        case_prod_unfold pause_while_visible_def discard_waiting_def accept_def cached_def described_as_def understood_def)
  have "decode_session_accept (f_accept v) accept = choice (described_as s) cached"
    using accept_chosen [OF assms(10) [folded cached_def, unfolded described_as_def]] by (simp add: accept_def assms(8) described_as_def)
  then have sel: "xi_selected_sensors (decode_session_accept (f_accept v) accept) = List.map sd_sensor_id (di_sensors (described_as s))"
    by (simp add: choice_def)
  have ids: "List.map (\<lambda>r. sd_sensor_id (sr_descriptor r)) (cl_sensors c2) = List.map sd_sensor_id (di_sensors (described_as s))"
    unfolding c2'(4) [symmetric] by (simp add: comp_def)
  have emptied: "\<forall>f. map_option (\<lambda>f. fst (discard_waiting f)) (se_forwarder s) = Some f \<longrightarrow> fw_outgoing f = []"
    by (auto simp: discard_waiting_def)
  obtain s2 where s2: "on_stream_data v now' us' 1 accept s1 = (s2, None)" "se_phase s2 = Operating"
    "se_topics_negotiated s2 = ?both" "se_selected_sensors s2 = List.map sd_sensor_id (di_sensors (described_as s))"
    "\<forall>f. se_forwarder s2 = Some f \<longrightarrow> fw_outgoing f = []"
    using sel emptied by (simp add: s1 on_stream_data_def on_session_accept_def)
  show ?thesis using s1 c1 c2' s2 ids read(2) by (auto simp: bs_def)
qed

section \<open>Played through\<close>

lemma client_operating_fields:
  "cl_last_command client_operating = first_command" "cl_channel_b_seq client_operating = 0"
  "cl_last_move_input_at client_operating = None" "cl_observer client_operating = False"
  "cl_move_stale client_operating = millis 500" "cl_demo_action client_operating = None" "cl_estop_seq client_operating = 0"
proof -
  have "cl_last_command client_operating = cl_last_command client_waiting"
    "cl_channel_b_seq client_operating = cl_channel_b_seq client_waiting"
    "cl_last_move_input_at client_operating = cl_last_move_input_at client_waiting"
    "cl_observer client_operating = cl_observer client_waiting" "cl_move_stale client_operating = cl_move_stale client_waiting"
    "cl_demo_action client_operating = cl_demo_action client_waiting" "cl_estop_seq client_operating = cl_estop_seq client_waiting"
    by (simp_all add: client_operating_def client_on_describe_def client_send_stream_def Let_def case_prod_unfold split: sum.split)
  then show "cl_last_command client_operating = first_command" "cl_channel_b_seq client_operating = 0"
    "cl_last_move_input_at client_operating = None" "cl_observer client_operating = False"
    "cl_move_stale client_operating = millis 500" "cl_demo_action client_operating = None" "cl_estop_seq client_operating = 0"
    by (simp_all add: client_waiting_eq demo_client_def client_new_def demo_client_setup_def)
qed

lemma client_operating_ok: "client_ok client_operating"
proof -
  have "client_run w s0 es s \<Longrightarrow> client_ok s0 \<Longrightarrow> takes_at_most (lane_send w) \<Longrightarrow> client_ok s" for w :: "unit services" and s0 es s
  proof (induction rule: client_run.induct)
    case (turn es s e s')
    then show ?case using client_step_ok [of s w e] by auto
  qed simp
  from this [OF client_handshake_run _ demo_takes] show ?thesis by (simp add: demo_client_def client_new_ok)
qed

lemma demo_tick:
  assumes "client_ok c"
  obtains c' where "client_step demo_services (ClTick now us) c = Some (c', False)"
  using client_step_ok [OF assms demo_takes, of "ClTick now us"] by (auto simp: option.split)

text \<open>A key was last seen at 5 ns; a second later its speed is gone.\<close>

lemma released_controls_stop_witness:
  "\<exists>c'. client_step demo_services (ClTick 1000000000 0)
       (client_operating\<lparr>cl_last_command := walk_command, cl_last_move_input_at := Some 5\<rparr>) = Some (c', False)
     \<and> teleop_idle (cl_last_command c') \<and> \<not> teleop_idle walk_command"
proof -
  let ?c = "client_operating\<lparr>cl_last_command := walk_command, cl_last_move_input_at := Some 5\<rparr>"
  have "core ?c = core client_operating" by (simp add: core_def)
  from core_ok [OF this client_operating_ok] obtain c' where
    c': "client_step demo_services (ClTick 1000000000 0) ?c = Some (c', False)" by (rule demo_tick)
  have "\<not> teleop_idle walk_command" by code_simp
  moreover have "teleop_idle (cl_last_command c')"
    using released_controls_stop [OF c', of 5] client_operating_phase by (simp add: client_operating_fields millis_def)
  ultimately show ?thesis using c' by blast
qed

definition relay_services :: "unit services" where
  "relay_services = demo_services\<lparr>f_frame := (\<lambda>_. [], \<lambda>_.
     \<lparr>fbf_timestamp = 0, fbf_seq = 1, fbf_tick_id = 0, fbf_category = FbCommand, fbf_region_id = ALL_REGIONS,
      fbf_fields = Some (tc_pack first_command)\<rparr>)\<rparr>"

lemma relay_arrives: "frame_arrives demo_services relay_services (command_frame 0 1 first_command)"
  by (simp add: frame_arrives_def command_frame_def relay_services_def decode_channel_b_frame_def or_default_def)

lemma operator_command_reaches_the_bridge_witness:
  "\<exists>c' d cmd. client_step demo_services (ClTick 9 0) client_operating = Some (c', False)
     \<and> command_near first_command cmd
     \<and> new_commands operating (on_datagram relay_services 5000000 0 True d operating) = in_sequence 0
        (body_orders cmd @ [Arm (fof_int B64 (sint (tc_arm_x cmd))) (fof_int B64 (sint (tc_arm_z cmd))), Claw (tc_claw cmd)])"
proof -
  obtain c' where c': "client_step demo_services (ClTick 9 0) client_operating = Some (c', False)"
    by (rule demo_tick [OF client_operating_ok])
  note sends = tick_sends [OF c' client_operating_phase]
  have cmd: "cl_last_command c' = first_command" "cl_channel_b_seq c' = 1" "\<not> cl_observing c'"
    using sends(1-3) by (simp_all add: tick_command_def movement_stale_def yields_control_def client_operating_fields)
  have legal: "\<forall>now us shown_as input. ClInput now us shown_as input \<in> set client_handshake \<longrightarrow> legal_input input"
    by (simp add: client_handshake_def)
  have robot: "se_phase operating = Operating" "se_bench operating = None" "\<not> settling 5000000 operating"
    "\<not> se_sitting operating" "se_channel_b_seq operating = 0"
    by (simp_all add: operating_def described_def demo_session_def session_new_def demo_setup_def settling_def)
  have "frame_arrives demo_services relay_services (command_frame 0 (cl_channel_b_seq c') (cl_last_command c'))"
    using relay_arrives cmd by simp
  from operator_command_reaches_the_bridge [OF client_handshake_run [unfolded demo_client_def] legal c' client_operating_phase
      cmd(3) this robot(1-3) walk_source] show ?thesis
    using c' robot(4,5) cmd(1) by auto
qed

lemma estop_key_stops_the_robot_witness:
  "\<exists>s1 m. session_step demo_services (DatagramIn 3 0 True (estop_message True client_operating)) operating = Some (s1, None)
     \<and> Estop m \<in> set (new_commands s1 (on_tick demo_services 9 0 s1))"
proof -
  obtain s1 where s1: "session_step demo_services (DatagramIn 3 0 True (estop_message True client_operating)) operating = Some (s1, None)"
    by simp
  from estop_key_stops_the_robot [where input = EstopInput and c = client_operating and now' = 3 and us' = 0 and room = True
      and w = demo_services and later = 9 and ?us2.0 = 0, OF _ _ s1 session_run.start]
  show ?thesis using s1 by auto
qed

text \<open>The demonstration's robot and console, with a format for the acceptance.\<close>

definition opening_services :: "unit services" where
  "opening_services = demo_services\<lparr>f_accept := book_format [accept_table (described_as demo_session) False]\<rparr>"

lemma session_opens_witness:
  "\<exists>c2 accept s2. client_on_stream opening_services False 1 [] True (client_on_stream opening_services False 1 [] False
       (client_on_stream opening_services False 0 [] False demo_client)) = c2
     \<and> cl_phase c2 = ClientOperating
     \<and> on_stream_data opening_services 2 0 1 accept (fst (on_stream_data opening_services 1 0 0 [] demo_session)) = (s2, None)
     \<and> se_phase s2 = Operating"
proof -
  have formats: "f_hello opening_services = f_hello demo_services" "f_describe opening_services = f_describe demo_services"
    "f_accept opening_services = book_format [accept_table (described_as demo_session) False]"
    "q_stream_send opening_services = q_stream_send demo_services"
    by (simp_all add: opening_services_def)
  have none: "encode_hello (f_hello demo_services) k = []" for k by (simp add: encode_hello_def demo_services_def)
  have "decode_hello (f_hello demo_services) [] = local_hello_capabilities ClassD False" by code_simp
  moreover have "client_hello demo_client = local_hello_capabilities ClassD False" "robot_hello demo_session = local_hello_capabilities ClassD False"
    by (simp_all add: client_hello_def demo_client_def client_new_def demo_client_setup_def robot_hello_def demo_session_def
        session_new_def demo_setup_def)
  ultimately have hello: "decode_hello (f_hello opening_services) (encode_hello (f_hello opening_services) (client_hello demo_client)) = client_hello demo_client"
    "decode_hello (f_hello opening_services) (encode_hello (f_hello opening_services) (robot_hello demo_session)) = robot_hello demo_session"
    by (simp_all add: none formats)
  have robot: "se_robot_id demo_session = []" "se_cameras demo_session = []" "se_sensors demo_session = []"
    "se_profile demo_session = \<lparr>rp_dof_count = 0, rp_joints = [], rp_regions = [], rp_base_type = Other\<rparr>"
    "\<not> se_session_describe_sent demo_session"
    by (simp_all add: demo_session_def session_new_def demo_setup_def)
  have console: "cl_phase demo_client = ClientAwaitingHello" "cl_describe_buf demo_client = []" "cl_profile_cache demo_client = None"
    by (simp_all add: demo_client_def client_new_def)
  have describe: "fb_carries (f_describe opening_services)
      (describe_table (se_robot_id demo_session) (se_profile demo_session) (se_cameras demo_session) (se_sensors demo_session))"
    by (simp add: formats fb_carries_def robot demo_services_def)
  have "snd (check_and_record_profile None False i h) = False" for i h by (simp add: check_and_record_profile_def)
  then have accept: "fb_carries (f_accept opening_services) (accept_table (described_as demo_session)
      (snd (check_and_record_profile (cl_profile_cache demo_client) False (se_robot_id demo_session) (profile_hash (se_profile demo_session)))))"
    by (simp add: formats fb_carries_def book_format_def console)
  have empty: "description opening_services demo_session = []"
    by (simp add: description_def formats encode_session_describe_def demo_services_def)
  have taken: "snd (q_stream_send opening_services (se_conn demo_session) 1 (description opening_services demo_session) True)
      = Inr (length (description opening_services demo_session))"
    by (simp add: formats demo_services_def)
  have mounts: "\<forall>d \<in> set (se_sensors demo_session). length (sd_mount_position_m d) = 3 \<and> length (sd_mount_orientation_xyzw d) = 4"
    by (simp add: robot)
  have parts: "description opening_services demo_session = [] @ []" by (simp add: empty)
  show ?thesis
    using session_opens [OF console(1,2) _ robot(5) hello refl refl describe accept mounts taken parts refl refl refl,
        of 1 0 2 0] by (auto simp: none formats)
qed

end
